(* ===== verification/Prelude.thy ===== *)
theory Prelude
  imports Complex_Main "HOL-Library.Word"
begin

text \<open>
  Shared vocabulary of the development.

  \<^item> Results of code that throws: \<open>'e + 'a\<close>, with \<open>Inl\<close> for the exception.
  \<^item> BigInt division (\<open>bigint_div\<close>), which truncates towards zero.
  \<^item> Machines that apply one operation at a time and stay where they are when the operation
    throws (\<open>run_ops\<close>), the relation of states such a machine can reach
    (\<open>reaches\<close>), and the locale \<open>invariant_machine\<close> that carries an invariant
    from single operations to whole runs. Every stateful component interprets it.
  \<^item> Generic lemmas on lists that the components share, collected in \<open>sum_update\<close>.
\<close>

named_theorems sum_update \<open>how a list sum moves when one entry changes\<close>

subsection \<open>Results\<close>

definition rbind :: "'e + 'a \<Rightarrow> ('a \<Rightarrow> 'e + 'b) \<Rightarrow> 'e + 'b" where
  "rbind m f = (case m of Inl e \<Rightarrow> Inl e | Inr x \<Rightarrow> f x)"

lemma rbind_simps [simp]:
  "rbind (Inl e) f = Inl e"
  "rbind (Inr x) f = f x"
  by (simp_all add: rbind_def)

lemma rbind_Inr_iff: "rbind m f = Inr y \<longleftrightarrow> (\<exists>x. m = Inr x \<and> f x = Inr y)"
  by (cases m) auto

definition result_ok :: "'e + 'a \<Rightarrow> bool" where
  "result_ok m \<longleftrightarrow> (\<exists>x. m = Inr x)"

lemma result_ok_simps [simp]: "\<not> result_ok (Inl e)" "result_ok (Inr x)"
  by (simp_all add: result_ok_def)

subsection \<open>BigInt division\<close>

text \<open>JavaScript's BigInt division drops the fraction, so it rounds towards zero.\<close>

definition bigint_div :: "int \<Rightarrow> int \<Rightarrow> int" where
  "bigint_div a b = sgn a * sgn b * (\<bar>a\<bar> div \<bar>b\<bar>)"

lemma bigint_div_nonneg: "0 \<le> a \<Longrightarrow> 0 < b \<Longrightarrow> bigint_div a b = a div b"
  by (cases "a = 0") (auto simp: bigint_div_def)

subsection \<open>List sums under an update\<close>

lemma sum_list_update_group [sum_update]:
  fixes f :: "'a \<Rightarrow> 'b :: ab_group_add"
  assumes "i < length xs"
  shows "sum_list (map f (xs[i := y])) = sum_list (map f xs) - f (xs ! i) + f y"
  using assms
proof (induction xs arbitrary: i)
  case Nil
  then show ?case by simp
next
  case (Cons x xs)
  then show ?case by (cases i) (auto simp: algebra_simps)
qed

text \<open>Two entries that change at once without changing what they hold together.\<close>

lemma sum_list_update_pair:
  fixes f :: "'a \<Rightarrow> 'b :: ab_group_add"
  assumes "i < length xs" and "j < length xs" and "i \<noteq> j" and "f x + f y = f (xs ! i) + f (xs ! j)"
  shows "sum_list (map f (xs[i := x, j := y])) = sum_list (map f xs)"
proof -
  have "sum_list (map f (xs[i := x, j := y])) = sum_list (map f xs) - f (xs ! i) + f x - f (xs ! j) + f y"
    using assms(1-3) by (simp add: sum_list_update_group)
  also have "\<dots> = sum_list (map f xs) + (f x + f y) - (f (xs ! i) + f (xs ! j))" by simp
  finally show ?thesis using assms(4) by simp
qed

lemma map_update_same: "f y = f (xs ! i) \<Longrightarrow> map f (xs[i := y]) = map f xs"
  by (metis list_update_beyond list_update_id map_update not_le_imp_less nth_map)

lemma list_all2_partner: "list_all2 R xs ys \<Longrightarrow> y \<in> set ys \<Longrightarrow> \<exists>x\<in>set xs. R x y"
  by (induction rule: list_all2_induct) auto

text \<open>Taking the entry at an index out.\<close>

definition remove_at :: "nat \<Rightarrow> 'a list \<Rightarrow> 'a list" where
  "remove_at i xs = take i xs @ drop (Suc i) xs"

lemma sum_list_remove_at:
  fixes f :: "'a \<Rightarrow> 'b :: ab_group_add"
  assumes "i < length xs"
  shows "sum_list (map f (remove_at i xs)) = sum_list (map f xs) - f (xs ! i)"
proof -
  have "sum_list (map f xs) = sum_list (map f (take i xs @ xs ! i # drop (Suc i) xs))"
    using id_take_nth_drop [OF assms] by simp
  then show ?thesis by (simp add: remove_at_def algebra_simps)
qed

lemma set_remove_at: "set (remove_at i xs) \<subseteq> set xs"
  by (auto simp: remove_at_def dest: in_set_takeD in_set_dropD)

lemma list_all_remove_at: "list_all P xs \<Longrightarrow> list_all P (remove_at i xs)"
  using set_remove_at by (fastforce simp: list_all_iff)

lemma sum_list_nonneg_int:
  fixes f :: "'a \<Rightarrow> int"
  assumes "\<forall>x\<in>set xs. 0 \<le> f x"
  shows "0 \<le> sum_list (map f xs)"
  using assms by (induction xs) auto

lemma list_all_update: "list_all P xs \<Longrightarrow> P y \<Longrightarrow> list_all P (xs[i := y])"
  using set_update_subset_insert [of xs i y] by (auto simp: list_all_iff)

lemma list_all_nth_iff: "list_all P xs \<Longrightarrow> i < length xs \<Longrightarrow> P (xs ! i)"
  by (simp add: list_all_length)

subsection \<open>Finding the first match\<close>

text \<open>\<open>Array.prototype.find\<close> by index, so that a mutation of the object found can be
  written as an update at that index.\<close>

fun find_index :: "('a \<Rightarrow> bool) \<Rightarrow> 'a list \<Rightarrow> nat option" where
  "find_index P [] = None"
| "find_index P (x # xs) = (if P x then Some 0 else map_option Suc (find_index P xs))"

lemma find_index_SomeD:
  "find_index P xs = Some i \<Longrightarrow> i < length xs \<and> P (xs ! i) \<and> (\<forall>j<i. \<not> P (xs ! j))"
proof (induction xs arbitrary: i)
  case Nil
  then show ?case by simp
next
  case (Cons x xs)
  show ?case
  proof (cases "P x")
    case True
    with Cons.prems show ?thesis by simp
  next
    case False
    with Cons.prems obtain k where k: "find_index P xs = Some k" "i = Suc k" by auto
    then show ?thesis using Cons.IH [OF k(1)] False by (auto simp: less_Suc_eq_0_disj)
  qed
qed

lemma find_index_None_iff: "find_index P xs = None \<longleftrightarrow> (\<forall>x\<in>set xs. \<not> P x)"
  by (induction xs) auto

lemma find_index_snoc: "\<forall>x\<in>set xs. \<not> P x \<Longrightarrow> P y \<Longrightarrow> find_index P (xs @ [y]) = Some (length xs)"
  by (induction xs) auto

lemma find_update_same: "find_index P xs = Some i \<Longrightarrow> P y \<Longrightarrow> List.find P (xs[i := y]) = Some y"
  by (induction xs arbitrary: i) (auto split: if_splits)

lemma find_update_other:
  "i < length xs \<Longrightarrow> \<not> Q (xs ! i) \<Longrightarrow> \<not> Q y \<Longrightarrow> List.find Q (xs[i := y]) = List.find Q xs"
proof (induction xs arbitrary: i)
  case Nil
  then show ?case by simp
next
  case (Cons x xs)
  then show ?case by (cases i) auto
qed

lemma find_append: "List.find P (xs @ ys) = (case List.find P xs of None \<Rightarrow> List.find P ys | r \<Rightarrow> r)"
  by (induction xs) auto

lemma find_find_index: "List.find P xs = map_option (nth xs) (find_index P xs)"
  by (induction xs) (auto simp: option.map_comp comp_def)

subsection \<open>Machines that run operations\<close>

fun run_ops :: "('op \<Rightarrow> 's \<Rightarrow> 'e + 's) \<Rightarrow> 'op list \<Rightarrow> 's \<Rightarrow> 's" where
  "run_ops step [] s = s"
| "run_ops step (x # xs) s =
     (case step x s of Inl _ \<Rightarrow> run_ops step xs s | Inr s' \<Rightarrow> run_ops step xs s')"

lemma run_ops_append: "run_ops step (xs @ ys) s = run_ops step ys (run_ops step xs s)"
  by (induction xs arbitrary: s) (auto split: sum.splits)

inductive reaches :: "('op \<Rightarrow> 's \<Rightarrow> 'e + 's) \<Rightarrow> ('op \<Rightarrow> bool) \<Rightarrow> 's \<Rightarrow> 's \<Rightarrow> bool"
  for step :: "'op \<Rightarrow> 's \<Rightarrow> 'e + 's" and ok :: "'op \<Rightarrow> bool" where
  reaches_refl: "reaches step ok s s"
| reaches_step: "reaches step ok s t \<Longrightarrow> ok x \<Longrightarrow> step x t = Inr u \<Longrightarrow> reaches step ok s u"

inductive_simps reaches_unfold: "reaches step ok s u"

lemma reaches_trans_front:
  assumes "reaches step ok t u" and "ok x" and "step x s = Inr t"
  shows "reaches step ok s u"
  using assms
proof (induction rule: reaches.induct)
  case (reaches_refl s0)
  then show ?case by (blast intro: reaches.intros)
next
  case (reaches_step s0 t0 y u0)
  then show ?case by (blast intro: reaches.reaches_step)
qed

lemma reaches_trans: "reaches step ok s t \<Longrightarrow> reaches step ok t u \<Longrightarrow> reaches step ok s u"
  by (rotate_tac, induction rule: reaches.induct) (auto intro: reaches.intros)

lemma run_ops_reaches: "list_all ok xs \<Longrightarrow> reaches step ok s (run_ops step xs s)"
proof (induction xs arbitrary: s)
  case Nil
  then show ?case by (simp add: reaches.reaches_refl)
next
  case (Cons x xs)
  then show ?case
    by (cases "step x s") (auto intro: reaches_trans_front)
qed

text \<open>
  The interface between a component and every client that drives it: an operation the client
  is allowed to issue, applied to a state satisfying the invariant, either throws or leads to
  a state satisfying it again.
\<close>

locale invariant_machine =
  fixes step :: "'op \<Rightarrow> 's \<Rightarrow> 'e + 's"
    and ok :: "'op \<Rightarrow> bool"
    and inv :: "'s \<Rightarrow> bool"
  assumes step_inv: "inv s \<Longrightarrow> ok x \<Longrightarrow> step x s = Inr s' \<Longrightarrow> inv s'"
begin

lemma reaches_inv: "reaches step ok s t \<Longrightarrow> inv s \<Longrightarrow> inv t"
  by (induction rule: reaches.induct) (auto intro: step_inv)

lemma run_inv: "inv s \<Longrightarrow> list_all ok xs \<Longrightarrow> inv (run_ops step xs s)"
  by (rule reaches_inv [OF run_ops_reaches])

end

text \<open>A machine whose steps can moreover only move a preorder forwards.\<close>

locale monotone_machine = invariant_machine step ok inv
  for step :: "'op \<Rightarrow> 's \<Rightarrow> 'e + 's" and ok :: "'op \<Rightarrow> bool" and inv :: "'s \<Rightarrow> bool" +
  fixes le :: "'s \<Rightarrow> 's \<Rightarrow> bool"
  assumes le_refl: "le s s"
    and le_trans: "le s t \<Longrightarrow> le t u \<Longrightarrow> le s u"
    and step_le: "inv s \<Longrightarrow> ok x \<Longrightarrow> step x s = Inr s' \<Longrightarrow> le s s'"
begin

lemma reaches_le: "reaches step ok s t \<Longrightarrow> inv s \<Longrightarrow> le s t"
proof (induction rule: reaches.induct)
  case (reaches_refl s)
  then show ?case by (simp add: le_refl)
next
  case (reaches_step s t x u)
  then have "inv t" by (blast intro: reaches_inv)
  with reaches_step show ?case by (blast intro: le_trans step_le)
qed

lemma run_le: "inv s \<Longrightarrow> list_all ok xs \<Longrightarrow> le s (run_ops step xs s)"
  by (rule reaches_le [OF run_ops_reaches])

end

end
