(* ===== verification/Er_Sim.thy ===== *)
theory Er_Sim
  imports Prelude
begin

text \<open>
  The round algorithm of the ephemeral-rollup arena: \<^verbatim>\<open>src/engine/src/er-sim.ts\<close>, the
  TypeScript mirror of the on-chain program. Entry with a fee, the hash-driven exchange of one
  tick, extraction with a decaying penalty, settlement, and the accounting identity the file
  calls THE invariant.

  \<open>bigint\<close> values are \<open>int\<close>, \<open>number\<close> counts are \<open>nat\<close>, a \<open>Buffer\<close>
  is a list of bytes. SHA-256 comes from node's crypto module, outside the repository: it is the
  argument \<open>sha256\<close> of every definition that hashes. An exception is a value of
  \<open>er_error\<close>; an operation that throws is not continued by any caller, so the partial
  writes before the throw are not part of the model.
\<close>

type_synonym bytes = "8 word list"
type_synonym hash_fun = "bytes \<Rightarrow> bytes"

datatype er_side = Side0 | Side1

record er_fighter =
  wallet :: string
  side :: er_side
  dead :: bool
  stake :: int
  hp :: int
  banked :: int

record er_round =
  seed :: bytes
  fighters :: "er_fighter list"
  tickCount :: int
  pot :: int
  penaltiesCollected :: int
  feesCollected :: int
  winner :: "er_side option"

datatype er_error = ZeroStake | RoundFull | NothingToExtract | DrawPairNeedsTwo nat | OutOfRange

subsection \<open>Constants and the penalty curve\<close>

definition BPS :: int where "BPS = 10000"
definition MAX_FIGHTERS :: nat where "MAX_FIGHTERS = 48"
definition DUST :: int where "DUST = 1000"
definition EXTRACT_PENALTY_START_BPS :: int where "EXTRACT_PENALTY_START_BPS = 2000"

definition PENALTY_HORIZON_STEPS :: "int list" where
  "PENALTY_HORIZON_STEPS =
     [71, 130, 200, 280, 367,
      463, 566, 675, 791, 912,
      1039, 1172, 1310, 1452, 1600,
      1752, 1909, 2070, 2236, 2406,
      2580, 2758, 2939, 3125, 3314,
      3507, 3704, 3904, 4108, 4315,
      4525, 4739, 4956, 5177, 5400,
      5627, 5856, 6089, 6325, 6563,
      6805, 7049, 7297, 7547, 7800,
      8055, 8314]"

definition clamp :: "nat \<Rightarrow> nat \<Rightarrow> nat \<Rightarrow> nat" where
  "clamp n lo hi = min (max n lo) hi"

definition penaltyHorizonSteps :: "nat \<Rightarrow> int" where
  "penaltyHorizonSteps fighterCount = PENALTY_HORIZON_STEPS ! (clamp fighterCount 2 MAX_FIGHTERS - 2)"

definition extractPenaltyBps :: "nat \<Rightarrow> int \<Rightarrow> int" where
  "extractPenaltyBps fighterCount cursor =
     (let horizon = penaltyHorizonSteps fighterCount;
          remaining = (if cursor \<ge> horizon then 0 else horizon - cursor)
      in bigint_div (EXTRACT_PENALTY_START_BPS * remaining) horizon)"

text \<open>The pair is \<open>(kept, penalty)\<close>.\<close>

definition splitExtraction :: "int \<Rightarrow> nat \<Rightarrow> int \<Rightarrow> int \<times> int" where
  "splitExtraction taken fighterCount cursor =
     (let penalty = bigint_div (taken * extractPenaltyBps fighterCount cursor) BPS
      in (taken - penalty, penalty))"

definition sat :: "int \<Rightarrow> int \<Rightarrow> int" where
  "sat a b = (if a > b then a - b else 0)"

subsection \<open>The hash chain\<close>

text \<open>\<open>Buffer.alloc(40)\<close>, then at most 32 bytes of the seed, then the cursor as a
  little-endian u64. \<open>writeBigUInt64LE\<close> throws outside \<open>0 .. 2^64 - 1\<close>.\<close>

definition le_u64 :: "int \<Rightarrow> bytes" where
  "le_u64 c = map (\<lambda>i. word_of_int (c div 256 ^ i)) [0..<8]"

definition tickHash :: "hash_fun \<Rightarrow> bytes \<Rightarrow> int \<Rightarrow> er_error + bytes" where
  "tickHash sha256 sd cursor =
     (if 0 \<le> cursor \<and> cursor < 2 ^ 64
      then Inr (sha256 (take 32 (sd @ replicate 32 0) @ le_u64 cursor))
      else Inl OutOfRange)"

definition readUInt32LE :: "bytes \<Rightarrow> nat \<Rightarrow> er_error + nat" where
  "readUInt32LE h off =
     (if off + 4 \<le> length h
      then Inr (unat (h ! off) + 256 * unat (h ! (off + 1)) +
                65536 * unat (h ! (off + 2)) + 16777216 * unat (h ! (off + 3)))
      else Inl OutOfRange)"

subsection \<open>Entering\<close>

definition enter :: "er_round \<Rightarrow> string \<Rightarrow> er_side \<Rightarrow> int \<Rightarrow> int \<Rightarrow> er_error + er_round" where
  "enter rd w s stk feeBps =
     (if stk \<le> 0 then Inl ZeroStake
      else
        let fee = bigint_div (stk * feeBps) BPS;
            net = stk - fee
        in rbind
             (case find_index (\<lambda>f. wallet f = w \<and> side f = s) (fighters rd) of
                Some i \<Rightarrow>
                  Inr (rd\<lparr>fighters := (fighters rd)
                         [i := (fighters rd ! i)
                                 \<lparr>stake := stake (fighters rd ! i) + net,
                                  hp := hp (fighters rd ! i) + net\<rparr>]\<rparr>)
              | None \<Rightarrow>
                  if length (fighters rd) \<ge> MAX_FIGHTERS then Inl RoundFull
                  else Inr (rd\<lparr>fighters := fighters rd @
                              [\<lparr>wallet = w, side = s, dead = False, stake = net, hp = net,
                                banked = 0\<rparr>]\<rparr>))
             (\<lambda>r. Inr (r\<lparr>pot := pot r + net, feesCollected := feesCollected r + fee\<rparr>)))"

subsection \<open>The exchange\<close>

definition drawPair :: "bytes \<Rightarrow> nat \<Rightarrow> er_error + (nat \<times> nat)" where
  "drawPair h n =
     (if n < 2 then Inl (DrawPairNeedsTwo n)
      else rbind (readUInt32LE h 0) (\<lambda>x.
           rbind (readUInt32LE h 4) (\<lambda>y.
             let a = x mod n;
                 d = y mod (n - 1);
                 d' = (if d \<ge> a then d + 1 else d)
             in Inr (a, d'))))"

definition CRIT_ONE_IN :: nat where "CRIT_ONE_IN = 32"
definition CRIT_ROLL :: int where "CRIT_ROLL = 90"
definition ROLL_BODY_LO :: int where "ROLL_BODY_LO = 1"
definition ROLL_BODY_SPAN :: nat where "ROLL_BODY_SPAN = 22"

definition rollOf :: "bytes \<Rightarrow> er_error + int" where
  "rollOf h =
     rbind (readUInt32LE h 24) (\<lambda>spike.
       if spike mod CRIT_ONE_IN = 0 then Inr CRIT_ROLL
       else rbind (readUInt32LE h 20) (\<lambda>body.
              Inr (ROLL_BODY_LO + int (body mod ROLL_BODY_SPAN))))"

definition damage :: "er_fighter \<Rightarrow> er_fighter \<Rightarrow> int \<Rightarrow> int" where
  "damage A D roll =
     (let basis = (if hp A < hp D then hp A else hp D);
          dmg = bigint_div (basis * roll) 100
      in if hp D \<le> DUST then hp D else dmg)"

text \<open>The three writes of an exchange, in the source's order, each reading the array as the
  write before it left it.\<close>

definition exchange :: "er_fighter list \<Rightarrow> nat \<Rightarrow> nat \<Rightarrow> int \<Rightarrow> er_fighter list" where
  "exchange fs a d dmg =
     (let fs1 = fs[d := (fs ! d)\<lparr>hp := sat (hp (fs ! d)) dmg\<rparr>];
          fs2 = fs1[a := (fs1 ! a)\<lparr>banked := banked (fs1 ! a) + dmg\<rparr>]
      in if hp (fs2 ! d) = 0 then fs2[d := (fs2 ! d)\<lparr>dead := True\<rparr>] else fs2)"

text \<open>What the loop body of \<open>tick\<close> does with a drawn pair, and the whole body. \<open>continue\<close>
  is returning the round with only the cursor moved.\<close>

definition resolve_pair :: "er_round \<Rightarrow> bytes \<Rightarrow> nat \<Rightarrow> nat \<Rightarrow> er_error + er_round" where
  "resolve_pair r h a d =
     (let A = fighters r ! a; D = fighters r ! d in
      if side A = side D then Inr r
      else if wallet A = wallet D then Inr r
      else if dead A \<or> dead D then Inr r
      else rbind (rollOf h) (\<lambda>roll.
        let dmg = damage A D roll in
        if dmg = 0 then Inr r
        else Inr (r\<lparr>fighters := exchange (fighters r) a d dmg\<rparr>)))"

definition tick_body :: "hash_fun \<Rightarrow> er_round \<Rightarrow> er_error + er_round" where
  "tick_body sha256 rd =
     (let n = length (fighters rd);
          cursor = tickCount rd;
          r = rd\<lparr>tickCount := cursor + 1\<rparr>
      in rbind (tickHash sha256 (seed r) cursor) (\<lambda>h.
         rbind (drawPair h n) (\<lambda>(a, d). resolve_pair r h a d)))"

fun tick :: "hash_fun \<Rightarrow> er_round \<Rightarrow> nat \<Rightarrow> er_error + er_round" where
  "tick sha256 rd 0 = Inr rd"
| "tick sha256 rd (Suc steps) =
     (if length (fighters rd) < 2 then Inr rd
      else rbind (tick_body sha256 rd) (\<lambda>r. tick sha256 r steps))"

subsection \<open>Leaving and settling\<close>

text \<open>The result carries \<open>(taken, kept, penalty)\<close> beside the round.\<close>

definition er_extract :: "er_round \<Rightarrow> string \<Rightarrow> er_error + er_round \<times> int \<times> int \<times> int" where
  "er_extract rd w =
     (case find_index (\<lambda>x. wallet x = w \<and> \<not> dead x \<and> hp x > 0) (fighters rd) of
        None \<Rightarrow> Inl NothingToExtract
      | Some i \<Rightarrow>
          let f = fighters rd ! i;
              taken = hp f;
              (kept, penalty) = splitExtraction taken (length (fighters rd)) (tickCount rd);
              f' = f\<lparr>banked := banked f + kept, hp := 0, dead := True\<rparr>
          in Inr (rd\<lparr>fighters := (fighters rd)[i := f'],
                        penaltiesCollected := penaltiesCollected rd + penalty\<rparr>,
                  taken, kept, penalty))"

definition worth :: "er_fighter \<Rightarrow> int" where
  "worth f = hp f + banked f"

definition settle :: "er_round \<Rightarrow> er_round" where
  "settle rd =
     (let (a, b) = foldl (\<lambda>(a, b) f.
                let v = hp f + banked f
                in if side f = Side0 then (a + v, b) else (a, b + v)) (0, 0) (fighters rd)
      in rd\<lparr>winner := Some (if a \<ge> b then Side0 else Side1)\<rparr>)"

definition newRound :: "bytes \<Rightarrow> er_round" where
  "newRound sd =
     \<lparr>seed = sd, fighters = [], tickCount = 0, pot = 0, penaltiesCollected = 0,
      feesCollected = 0, winner = None\<rparr>"

definition totalValue :: "er_round \<Rightarrow> int" where
  "totalValue rd = sum_list (map worth (fighters rd))"

definition houseTook :: "er_round \<Rightarrow> int" where
  "houseTook rd = penaltiesCollected rd + feesCollected rd"

definition grossDeposits :: "er_round \<Rightarrow> int" where
  "grossDeposits rd = pot rd + feesCollected rd"

definition conservationHolds :: "er_round \<Rightarrow> bool" where
  "conservationHolds rd \<longleftrightarrow> totalValue rd + houseTook rd = grossDeposits rd"

lemmas er_constants = BPS_def MAX_FIGHTERS_def DUST_def EXTRACT_PENALTY_START_BPS_def
  CRIT_ONE_IN_def CRIT_ROLL_def ROLL_BODY_LO_def ROLL_BODY_SPAN_def

subsection \<open>The penalty curve\<close>

lemma horizon_index: "clamp n 2 MAX_FIGHTERS - 2 < length PENALTY_HORIZON_STEPS"
  by (auto simp: clamp_def MAX_FIGHTERS_def PENALTY_HORIZON_STEPS_def)

lemma penaltyHorizonSteps_pos: "0 < penaltyHorizonSteps n"
proof -
  have "list_all (\<lambda>h. 0 < h) PENALTY_HORIZON_STEPS"
    by (simp add: PENALTY_HORIZON_STEPS_def)
  then show ?thesis
    unfolding penaltyHorizonSteps_def by (rule list_all_nth_iff) (rule horizon_index)
qed

lemma extractPenaltyBps_eq:
  "extractPenaltyBps n c =
     EXTRACT_PENALTY_START_BPS * max 0 (penaltyHorizonSteps n - c) div penaltyHorizonSteps n"
  using penaltyHorizonSteps_pos [of n]
  by (auto simp: extractPenaltyBps_def Let_def bigint_div_nonneg er_constants max_def)

lemma extractPenaltyBps_nonneg: "0 \<le> extractPenaltyBps n c"
  using penaltyHorizonSteps_pos [of n]
  by (simp add: extractPenaltyBps_eq er_constants pos_imp_zdiv_nonneg_iff)

lemma extractPenaltyBps_le:
  assumes "0 \<le> c"
  shows "extractPenaltyBps n c \<le> EXTRACT_PENALTY_START_BPS"
proof -
  let ?h = "penaltyHorizonSteps n"
  have "EXTRACT_PENALTY_START_BPS * max 0 (?h - c) \<le> EXTRACT_PENALTY_START_BPS * ?h"
    using assms penaltyHorizonSteps_pos [of n] by (auto simp: er_constants)
  then have "EXTRACT_PENALTY_START_BPS * max 0 (?h - c) div ?h
      \<le> EXTRACT_PENALTY_START_BPS * ?h div ?h"
    using penaltyHorizonSteps_pos [of n] by (intro zdiv_mono1) auto
  then show ?thesis
    using penaltyHorizonSteps_pos [of n] by (simp add: extractPenaltyBps_eq)
qed

lemma extractPenaltyBps_antimono:
  assumes "c \<le> c'"
  shows "extractPenaltyBps n c' \<le> extractPenaltyBps n c"
  unfolding extractPenaltyBps_eq
  using assms penaltyHorizonSteps_pos [of n]
  by (intro zdiv_mono1) (auto simp: er_constants)

lemma extractPenaltyBps_free: "penaltyHorizonSteps n \<le> c \<Longrightarrow> extractPenaltyBps n c = 0"
  by (simp add: extractPenaltyBps_eq)

lemma splitExtraction_eq:
  assumes "0 \<le> t"
  shows "splitExtraction t n c =
    (t - t * extractPenaltyBps n c div BPS, t * extractPenaltyBps n c div BPS)"
  using assms extractPenaltyBps_nonneg [of n c]
  by (simp add: splitExtraction_def Let_def bigint_div_nonneg er_constants)

lemma splitExtraction_bounds:
  assumes "0 \<le> t" and "0 \<le> c" and "splitExtraction t n c = (kept, penalty)"
  shows "kept + penalty = t" and "0 \<le> penalty" and "5 * penalty \<le> t" and "0 \<le> kept"
proof -
  let ?b = "extractPenaltyBps n c"
  have eq: "penalty = t * ?b div 10000" "kept = t - penalty"
    using assms(1,3) by (auto simp: splitExtraction_eq BPS_def)
  have b: "0 \<le> ?b" "?b \<le> 2000"
    using extractPenaltyBps_nonneg extractPenaltyBps_le [OF assms(2), of n]
    by (auto simp: er_constants)
  from eq show "kept + penalty = t" by simp
  have "t * ?b \<le> t * 2000" using assms(1) b by (intro mult_left_mono) auto
  then have le: "t * ?b div 10000 \<le> t * 2000 div 10000" by (rule zdiv_mono1) simp
  moreover have "t * 2000 div (5 * 2000) = t div 5" by (rule div_mult_mult2) simp
  then have "5 * (t * 2000 div 10000) \<le> t" by simp
  ultimately show five: "5 * penalty \<le> t" using eq by linarith
  show "0 \<le> penalty" using eq assms(1) b by (simp add: pos_imp_zdiv_nonneg_iff)
  with five eq show "0 \<le> kept" by simp
qed

subsection \<open>Draws\<close>

lemma readUInt32LE_ok_iff: "result_ok (readUInt32LE h off) \<longleftrightarrow> off + 4 \<le> length h"
  by (simp add: readUInt32LE_def)

lemma readUInt32LE_bound: "readUInt32LE h off = Inr x \<Longrightarrow> x < 2 ^ 32"
proof -
  have b: "unat (w :: 8 word) \<le> 255" for w
    using unsigned_less [of w, where ?'a = nat] by simp
  assume "readUInt32LE h off = Inr x"
  then have "x = unat (h ! off) + 256 * unat (h ! (off + 1)) +
      65536 * unat (h ! (off + 2)) + 16777216 * unat (h ! (off + 3))"
    by (simp add: readUInt32LE_def split: if_splits)
  with b [of "h ! off"] b [of "h ! (off + 1)"] b [of "h ! (off + 2)"] b [of "h ! (off + 3)"]
  show ?thesis by simp
qed

lemma drawPair_distinct:
  assumes "drawPair h n = Inr (a, d)"
  shows "2 \<le> n" and "a < n" and "d < n" and "a \<noteq> d"
proof -
  from assms show n: "2 \<le> n" by (simp add: drawPair_def split: if_splits)
  from assms n obtain x y where "Inr (x mod n, if y mod (n - 1) \<ge> x mod n
      then y mod (n - 1) + 1 else y mod (n - 1)) = (Inr (a, d) :: er_error + nat \<times> nat)"
    unfolding drawPair_def rbind_Inr_iff Let_def if_not_P [OF leD [OF n]] by blast
  then have xy: "a = x mod n"
    "d = (if y mod (n - 1) \<ge> a then y mod (n - 1) + 1 else y mod (n - 1))"
    by auto
  from n have m: "y mod (n - 1) < n - 1" by simp
  show "a < n" using xy n by simp
  show "d < n" and "a \<noteq> d" using xy m by (auto split: if_splits)
qed

lemma rollOf_range:
  assumes "rollOf h = Inr roll"
  shows "roll = CRIT_ROLL \<or> (1 \<le> roll \<and> roll \<le> 22)"
proof -
  have "body mod ROLL_BODY_SPAN \<le> 21" for body :: nat
    using mod_less_divisor [of 22 body] by (simp add: ROLL_BODY_SPAN_def)
  then show ?thesis
    using assms by (fastforce simp: rollOf_def rbind_Inr_iff ROLL_BODY_LO_def split: if_splits)
qed

lemma rollOf_pos_le: "rollOf h = Inr roll \<Longrightarrow> 0 < roll \<and> roll \<le> 90"
  using rollOf_range [of h roll] by (auto simp: CRIT_ROLL_def)

subsection \<open>One exchange\<close>

text \<open>Amounts never go negative: the well-formedness of one fighter.\<close>

definition wf_fighter :: "er_fighter \<Rightarrow> bool" where
  "wf_fighter f \<longleftrightarrow> 0 \<le> stake f \<and> 0 \<le> hp f \<and> 0 \<le> banked f"

lemma damage_bounds:
  assumes "0 \<le> hp A" and "0 \<le> hp D" and "0 < roll" and "roll \<le> 90"
  shows "0 \<le> damage A D roll" and "damage A D roll \<le> hp D"
    and "DUST < hp D \<Longrightarrow> 10 * damage A D roll \<le> 9 * min (hp A) (hp D)"
    and "hp D \<le> DUST \<Longrightarrow> damage A D roll = hp D"
proof -
  let ?m = "min (hp A) (hp D)"
  have basis: "(if hp A < hp D then hp A else hp D) = ?m" by (simp add: min_def)
  have m: "0 \<le> ?m" using assms(1,2) by simp
  have dmg: "damage A D roll = (if hp D \<le> DUST then hp D else ?m * roll div 100)"
    using m assms(3) by (simp add: damage_def Let_def basis bigint_div_nonneg)
  have "?m * roll \<le> ?m * 90" using m assms(4) by (intro mult_left_mono) auto
  then have "10 * (?m * roll div 100) \<le> 9 * ?m" by linarith
  moreover have "0 \<le> ?m * roll div 100"
    using m assms(3) by (simp add: pos_imp_zdiv_nonneg_iff)
  ultimately show "0 \<le> damage A D roll" and "damage A D roll \<le> hp D"
    and "DUST < hp D \<Longrightarrow> 10 * damage A D roll \<le> 9 * ?m"
    and "hp D \<le> DUST \<Longrightarrow> damage A D roll = hp D"
    using assms(1,2) dmg by (auto simp: min_def split: if_splits)
qed

lemma exchange_eq:
  assumes "a < length fs" and "d < length fs" and "a \<noteq> d" and "dmg \<le> hp (fs ! d)"
  shows "exchange fs a d dmg =
    fs[d := (fs ! d)\<lparr>hp := hp (fs ! d) - dmg, dead := dead (fs ! d) \<or> hp (fs ! d) = dmg\<rparr>,
       a := (fs ! a)\<lparr>banked := banked (fs ! a) + dmg\<rparr>]"
proof -
  have "sat (hp (fs ! d)) dmg = hp (fs ! d) - dmg"
    using assms(4) by (simp add: sat_def)
  then show ?thesis
    using assms by (auto simp: exchange_def Let_def list_update_swap)
qed

lemma exchange_length [simp]: "length (exchange fs a d dmg) = length fs"
  by (simp add: exchange_def Let_def)

lemma tick_body_cases:
  assumes "tick_body sha256 r = Inr r'" and wf: "list_all wf_fighter (fighters r)"
  obtains (idle) "r' = r\<lparr>tickCount := tickCount r + 1\<rparr>"
    | (blow) a d dmg where
        "a < length (fighters r)" and "d < length (fighters r)" and "a \<noteq> d"
        and "side (fighters r ! a) \<noteq> side (fighters r ! d)"
        and "wallet (fighters r ! a) \<noteq> wallet (fighters r ! d)"
        and "\<not> dead (fighters r ! a)" and "\<not> dead (fighters r ! d)"
        and "0 < dmg" and "dmg \<le> hp (fighters r ! d)"
        and "DUST < hp (fighters r ! d) \<Longrightarrow>
              10 * dmg \<le> 9 * min (hp (fighters r ! a)) (hp (fighters r ! d))"
        and "hp (fighters r ! d) \<le> DUST \<Longrightarrow> dmg = hp (fighters r ! d)"
        and "r' = r\<lparr>tickCount := tickCount r + 1,
                      fighters := exchange (fighters r) a d dmg\<rparr>"
proof -
  let ?r = "r\<lparr>tickCount := tickCount r + 1\<rparr>"
  from assms(1) obtain h a d where draw: "drawPair h (length (fighters r)) = Inr (a, d)"
    and rest: "resolve_pair ?r h a d = Inr r'"
    by (auto simp: tick_body_def Let_def rbind_Inr_iff)
  note ad = drawPair_distinct [OF draw]
  show thesis
  proof (cases "r' = ?r")
    case True
    then show thesis by (rule idle)
  next
    case False
    let ?A = "fighters r ! a" and ?D = "fighters r ! d"
    from rest False obtain roll where roll: "rollOf h = Inr roll"
      and live: "side ?A \<noteq> side ?D" "wallet ?A \<noteq> wallet ?D" "\<not> dead ?A" "\<not> dead ?D"
      and dmg: "damage ?A ?D roll \<noteq> 0"
      and r': "r' = r\<lparr>tickCount := tickCount r + 1,
                      fighters := exchange (fighters r) a d (damage ?A ?D roll)\<rparr>"
      by (auto simp: resolve_pair_def Let_def rbind_Inr_iff split: if_splits)
    have nn: "0 \<le> hp ?A" "0 \<le> hp ?D"
      using list_all_nth_iff [OF wf ad(2)] list_all_nth_iff [OF wf ad(3)]
      by (simp_all add: wf_fighter_def)
    have rl: "0 < roll" "roll \<le> 90" using rollOf_pos_le [OF roll] by auto
    note bounds = damage_bounds [OF nn rl]
    show thesis
      by (rule blow [OF ad(2,3,4) live _ bounds(2,3,4) r']) (use bounds(1) dmg in auto)
  qed
qed

subsection \<open>The round invariant\<close>

definition fighter_key :: "er_fighter \<Rightarrow> string \<times> er_side" where
  "fighter_key f = (wallet f, side f)"

definition er_inv :: "er_round \<Rightarrow> bool" where
  "er_inv r \<longleftrightarrow>
     list_all wf_fighter (fighters r) \<and>
     distinct (map fighter_key (fighters r)) \<and>
     length (fighters r) \<le> MAX_FIGHTERS \<and>
     0 \<le> tickCount r \<and> 0 \<le> penaltiesCollected r \<and> 0 \<le> feesCollected r \<and>
     totalValue r + penaltiesCollected r = pot r"

lemma er_inv_newRound: "er_inv (newRound sd)"
  by (simp add: er_inv_def newRound_def totalValue_def)

lemma er_inv_conservation: "er_inv r \<Longrightarrow> conservationHolds r"
  by (simp add: er_inv_def conservationHolds_def houseTook_def grossDeposits_def)

lemma map_key_update:
  "fighter_key y = fighter_key (fs ! i) \<Longrightarrow> map fighter_key (fs[i := y]) = map fighter_key fs"
  by (cases "i < length fs") (auto simp: map_update list_update_beyond intro: list_update_same_conv [THEN iffD2])

text \<open>A successful \<open>enter\<close>, taken apart.\<close>

lemma enter_cases:
  assumes "enter r w s stk feeBps = Inr r'"
  obtains (topup) i fee net where "0 < stk" "fee = bigint_div (stk * feeBps) BPS" "net = stk - fee"
      "find_index (\<lambda>f. wallet f = w \<and> side f = s) (fighters r) = Some i"
      "r' = r\<lparr>fighters := (fighters r)[i := (fighters r ! i)
               \<lparr>stake := stake (fighters r ! i) + net, hp := hp (fighters r ! i) + net\<rparr>],
             pot := pot r + net, feesCollected := feesCollected r + fee\<rparr>"
    | (fresh) fee net where "0 < stk" "fee = bigint_div (stk * feeBps) BPS" "net = stk - fee"
      "find_index (\<lambda>f. wallet f = w \<and> side f = s) (fighters r) = None"
      "length (fighters r) < MAX_FIGHTERS"
      "r' = r\<lparr>fighters := fighters r @
               [\<lparr>wallet = w, side = s, dead = False, stake = net, hp = net, banked = 0\<rparr>],
             pot := pot r + net, feesCollected := feesCollected r + fee\<rparr>"
  using assms unfolding enter_def Let_def
  by (auto simp: rbind_Inr_iff split: if_splits option.splits)

lemma fee_split:
  assumes "0 < stk" and "0 \<le> feeBps" and "feeBps \<le> BPS"
  shows "0 \<le> bigint_div (stk * feeBps) BPS" and "bigint_div (stk * feeBps) BPS \<le> stk"
proof -
  have eq: "bigint_div (stk * feeBps) BPS = stk * feeBps div 10000"
    using assms by (simp add: bigint_div_nonneg BPS_def)
  show "0 \<le> bigint_div (stk * feeBps) BPS"
    using assms by (simp add: eq pos_imp_zdiv_nonneg_iff)
  have "stk * feeBps \<le> stk * 10000" using assms by (intro mult_left_mono) (auto simp: BPS_def)
  then show "bigint_div (stk * feeBps) BPS \<le> stk" unfolding eq by linarith
qed

lemma enter_inv:
  assumes inv: "er_inv r" and fee: "0 \<le> feeBps" "feeBps \<le> BPS"
    and "enter r w s stk feeBps = Inr r'"
  shows "er_inv r'"
  using assms(4)
proof (cases rule: enter_cases)
  case (topup i fee net)
  let ?f = "fighters r ! i"
  let ?f' = "?f\<lparr>stake := stake ?f + net, hp := hp ?f + net\<rparr>"
  have i: "i < length (fighters r)" using topup(4) find_index_SomeD by blast
  have nn: "0 \<le> net" "0 \<le> fee" using fee_split [OF topup(1) fee] topup by auto
  have "wf_fighter ?f" using inv i by (auto simp: er_inv_def intro: list_all_nth_iff)
  then have "wf_fighter ?f'" using nn by (simp add: wf_fighter_def)
  then have "list_all wf_fighter (fighters r')"
    using inv topup(5) by (auto simp: er_inv_def intro: list_all_update)
  moreover have "map fighter_key (fighters r') = map fighter_key (fighters r)"
    using topup(5) by (simp add: map_key_update fighter_key_def)
  moreover have "totalValue r' = totalValue r + net"
    using i topup(5) by (simp add: totalValue_def sum_update worth_def)
  ultimately show ?thesis using inv nn topup(5) by (simp add: er_inv_def)
next
  case (fresh fee net)
  have nn: "0 \<le> net" "0 \<le> fee" using fee_split [OF fresh(1) fee] fresh by auto
  have "(w, s) \<notin> fighter_key ` set (fighters r)"
    using fresh(4) by (auto simp: find_index_None_iff fighter_key_def)
  then show ?thesis
    using inv nn fresh(5,6)
    by (simp add: er_inv_def totalValue_def worth_def wf_fighter_def fighter_key_def)
qed

lemma exchange_facts:
  assumes "a < length fs" and "d < length fs" and "a \<noteq> d" and "0 < dmg" and "dmg \<le> hp (fs ! d)"
  shows "sum_list (map worth (exchange fs a d dmg)) = sum_list (map worth fs)"
    and "map fighter_key (exchange fs a d dmg) = map fighter_key fs"
    and "list_all wf_fighter fs \<Longrightarrow> list_all wf_fighter (exchange fs a d dmg)"
proof -
  let ?D = "(fs ! d)\<lparr>hp := hp (fs ! d) - dmg, dead := dead (fs ! d) \<or> hp (fs ! d) = dmg\<rparr>"
  let ?A = "(fs ! a)\<lparr>banked := banked (fs ! a) + dmg\<rparr>"
  note eq = exchange_eq [OF assms(1,2,3,5)]
  show "sum_list (map worth (exchange fs a d dmg)) = sum_list (map worth fs)"
    using assms by (simp add: eq sum_update worth_def)
  show "map fighter_key (exchange fs a d dmg) = map fighter_key fs"
    using assms by (simp add: eq map_key_update fighter_key_def)
  assume wf: "list_all wf_fighter fs"
  then have "wf_fighter ?D" "wf_fighter ?A"
    using list_all_nth_iff [OF wf assms(1)] list_all_nth_iff [OF wf assms(2)] assms(4,5)
    by (auto simp: wf_fighter_def)
  then show "list_all wf_fighter (exchange fs a d dmg)"
    using wf by (auto simp: eq intro: list_all_update)
qed

lemma tick_body_inv:
  assumes inv: "er_inv r" and "tick_body sha256 r = Inr r'"
  shows "er_inv r'"
proof -
  have wf: "list_all wf_fighter (fighters r)" using inv by (simp add: er_inv_def)
  from assms(2) wf show ?thesis
  proof (cases rule: tick_body_cases)
    case idle
    with inv show ?thesis by (simp add: er_inv_def totalValue_def)
  next
    case (blow a d dmg)
    note ex = exchange_facts [OF blow(1,2,3,8,9)]
    show ?thesis
      using inv ex blow(12) by (simp add: er_inv_def totalValue_def)
  qed
qed

lemma tick_inv: "er_inv r \<Longrightarrow> tick sha256 r k = Inr r' \<Longrightarrow> er_inv r'"
proof (induction k arbitrary: r)
  case 0
  then show ?case by simp
next
  case (Suc k)
  then show ?case by (auto simp: rbind_Inr_iff split: if_splits intro: tick_body_inv)
qed

lemma er_extract_cases:
  assumes "er_extract r w = Inr (r', taken, kept, penalty)"
  obtains i where "find_index (\<lambda>x. wallet x = w \<and> \<not> dead x \<and> hp x > 0) (fighters r) = Some i"
    "taken = hp (fighters r ! i)"
    "splitExtraction taken (length (fighters r)) (tickCount r) = (kept, penalty)"
    "r' = r\<lparr>fighters := (fighters r)[i := (fighters r ! i)
             \<lparr>banked := banked (fighters r ! i) + kept, hp := 0, dead := True\<rparr>],
           penaltiesCollected := penaltiesCollected r + penalty\<rparr>"
  using assms unfolding er_extract_def Let_def
  by (auto split: option.splits prod.splits)

lemma er_extract_inv:
  assumes inv: "er_inv r" and "er_extract r w = Inr (r', taken, kept, penalty)"
  shows "er_inv r'"
  using assms(2)
proof (cases rule: er_extract_cases)
  case (1 i)
  let ?f = "fighters r ! i"
  let ?f' = "?f\<lparr>banked := banked ?f + kept, hp := 0, dead := True\<rparr>"
  have i: "i < length (fighters r)" and "0 < hp ?f" using 1(1) find_index_SomeD by force+
  have wf: "wf_fighter ?f" using inv i by (auto simp: er_inv_def intro: list_all_nth_iff)
  have tc: "0 \<le> taken" "0 \<le> tickCount r" using 1(2) \<open>0 < hp ?f\<close> inv by (auto simp: er_inv_def)
  note sp = splitExtraction_bounds [OF tc 1(3)]
  have "list_all wf_fighter (fighters r')"
    using inv 1(4) wf sp by (auto simp: er_inv_def wf_fighter_def intro: list_all_update)
  moreover have "map fighter_key (fighters r') = map fighter_key (fighters r)"
    using 1(4) by (simp add: map_key_update fighter_key_def)
  moreover have "totalValue r' = totalValue r - penalty"
    using i 1 sp(1) by (simp add: totalValue_def sum_update worth_def)
  ultimately show ?thesis using inv 1(4) sp by (simp add: er_inv_def)
qed

subsection \<open>The round as a machine\<close>

text \<open>The operations a caller can issue, in any order. The fee travels with each entry, as in the
  source; the only requirement on a caller is that it is a rate between 0 and 100 per cent.\<close>

datatype er_op = Enter string er_side int int | Tick nat | Extract string | Settle

fun er_step :: "hash_fun \<Rightarrow> er_op \<Rightarrow> er_round \<Rightarrow> er_error + er_round" where
  "er_step sha256 (Enter w s stk feeBps) r = enter r w s stk feeBps"
| "er_step sha256 (Tick steps) r = tick sha256 r steps"
| "er_step sha256 (Extract w) r = rbind (er_extract r w) (\<lambda>(r', _). Inr r')"
| "er_step sha256 Settle r = Inr (settle r)"

fun er_ok :: "er_op \<Rightarrow> bool" where
  "er_ok (Enter w s stk feeBps) = (0 \<le> feeBps \<and> feeBps \<le> BPS)"
| "er_ok _ = True"

lemma settle_fields [simp]:
  "fighters (settle r) = fighters r" "tickCount (settle r) = tickCount r" "pot (settle r) = pot r"
  "penaltiesCollected (settle r) = penaltiesCollected r" "feesCollected (settle r) = feesCollected r"
  "seed (settle r) = seed r"
  by (simp_all add: settle_def split: prod.splits)

lemma er_step_inv: "er_inv r \<Longrightarrow> er_ok x \<Longrightarrow> er_step sha256 x r = Inr r' \<Longrightarrow> er_inv r'"
proof (cases x)
  case Settle
  moreover assume "er_inv r" "er_step sha256 x r = Inr r'"
  ultimately show ?thesis by (auto simp: er_inv_def totalValue_def)
qed (auto simp: rbind_Inr_iff intro: enter_inv tick_inv er_extract_inv)

text \<open>What no operation ever undoes: seats keep their owner and side, a fighter that is out stays
  out, nothing already banked is lost, and the counters only grow.\<close>

definition fighter_le :: "er_fighter \<Rightarrow> er_fighter \<Rightarrow> bool" where
  "fighter_le f g \<longleftrightarrow> fighter_key f = fighter_key g \<and> (dead f \<longrightarrow> dead g) \<and>
     stake f \<le> stake g \<and> banked f \<le> banked g"

definition fighters_le :: "er_fighter list \<Rightarrow> er_fighter list \<Rightarrow> bool" where
  "fighters_le fs gs \<longleftrightarrow>
     length fs \<le> length gs \<and> (\<forall>i<length fs. fighter_le (fs ! i) (gs ! i))"

definition er_le :: "er_round \<Rightarrow> er_round \<Rightarrow> bool" where
  "er_le r r' \<longleftrightarrow> seed r = seed r' \<and> tickCount r \<le> tickCount r' \<and> pot r \<le> pot r' \<and>
     penaltiesCollected r \<le> penaltiesCollected r' \<and> feesCollected r \<le> feesCollected r' \<and>
     fighters_le (fighters r) (fighters r')"

lemma fighter_le_refl [simp]: "fighter_le f f"
  by (simp add: fighter_le_def)

lemma fighter_le_trans: "fighter_le f g \<Longrightarrow> fighter_le g h \<Longrightarrow> fighter_le f h"
  by (auto simp: fighter_le_def)

lemma fighters_le_refl [simp]: "fighters_le fs fs"
  by (simp add: fighters_le_def)

lemma fighters_le_update:
  assumes "fighter_le (fs ! i) y"
  shows "fighters_le fs (fs[i := y])"
proof -
  have "fighter_le (fs ! k) (fs[i := y] ! k)" if "k < length fs" for k
    using assms that by (cases "k = i") simp_all
  then show ?thesis by (simp add: fighters_le_def)
qed

lemma er_le_refl: "er_le r r"
  by (simp add: er_le_def)

lemma er_le_trans: "er_le r s \<Longrightarrow> er_le s t \<Longrightarrow> er_le r t"
  unfolding er_le_def fighters_le_def
  by (auto intro: fighter_le_trans order_trans order_less_le_trans)

lemma enter_le:
  assumes inv: "er_inv r" and fee: "0 \<le> feeBps" "feeBps \<le> BPS"
    and "enter r w s stk feeBps = Inr r'"
  shows "er_le r r'"
  using assms(4)
proof (cases rule: enter_cases)
  case (topup i fee net)
  have "0 \<le> net" "0 \<le> fee" using fee_split [OF topup(1) fee] topup by auto
  then show ?thesis
    using topup(5) by (simp add: er_le_def fighters_le_update fighter_le_def fighter_key_def)
next
  case (fresh fee net)
  have "0 \<le> net" "0 \<le> fee" using fee_split [OF fresh(1) fee] fresh by auto
  then show ?thesis using fresh(6) by (simp add: er_le_def fighters_le_def nth_append)
qed

lemma tick_body_le:
  assumes inv: "er_inv r" and "tick_body sha256 r = Inr r'"
  shows "er_le r r'"
proof -
  have wf: "list_all wf_fighter (fighters r)" using inv by (simp add: er_inv_def)
  from assms(2) wf show ?thesis
  proof (cases rule: tick_body_cases)
    case idle
    then show ?thesis by (simp add: er_le_def)
  next
    case (blow a d dmg)
    have "fighter_le (fighters r ! i) (exchange (fighters r) a d dmg ! i)"
      if "i < length (fighters r)" for i
      using that blow(1,2,3,8,9)
      by (auto simp: exchange_eq nth_list_update fighter_le_def fighter_key_def)
    then show ?thesis using blow(12) by (simp add: er_le_def fighters_le_def)
  qed
qed

lemma tick_le: "er_inv r \<Longrightarrow> tick sha256 r k = Inr r' \<Longrightarrow> er_le r r'"
proof (induction k arbitrary: r)
  case 0
  then show ?case by (simp add: er_le_refl)
next
  case (Suc k)
  then show ?case
    by (auto simp: rbind_Inr_iff er_le_refl split: if_splits
        intro: er_le_trans [OF tick_body_le] tick_body_inv)
qed

lemma er_extract_le:
  assumes inv: "er_inv r" and "er_extract r w = Inr (r', taken, kept, penalty)"
  shows "er_le r r'"
  using assms(2)
proof (cases rule: er_extract_cases)
  case (1 i)
  have "0 < hp (fighters r ! i)" using 1(1) find_index_SomeD by force
  then have tc: "0 \<le> taken" "0 \<le> tickCount r" using 1(2) inv by (auto simp: er_inv_def)
  from splitExtraction_bounds [OF tc 1(3)] 1(4) show ?thesis
    by (simp add: er_le_def fighters_le_update fighter_le_def fighter_key_def)
qed

lemma er_step_le: "er_inv r \<Longrightarrow> er_ok x \<Longrightarrow> er_step sha256 x r = Inr r' \<Longrightarrow> er_le r r'"
proof (cases x)
  case Settle
  moreover assume "er_step sha256 x r = Inr r'"
  ultimately show ?thesis by (auto simp: er_le_def)
qed (auto simp: rbind_Inr_iff intro: enter_le tick_le er_extract_le)

interpretation er: monotone_machine "er_step sha256" er_ok er_inv er_le for sha256
  by unfold_locales (blast intro: er_step_inv er_le_refl er_le_trans er_step_le)+

subsection \<open>Properties\<close>



text \<open>C21: Nothing is undone. Along any run of operations from any well-formed round, every seat keeps
  its wallet and side, a fighter that is out stays out, banked value and the house's counters
  never shrink, the cursor never goes back and the seed is never replaced.\<close>

theorem er_monotone:
  assumes "er_inv r" and "list_all er_ok ops"
  shows "er_le r (run_ops (er_step sha256) ops r)"
  using assms by (rule er.run_le)

theorem er_monotone_witness:
  "er_le (newRound [1, 2]) (run_ops (er_step (\<lambda>m. replicate 32 7))
     [Enter ''ann'' Side0 50000 100, Enter ''ann'' Side0 10 0, Tick 5] (newRound [1, 2]))"
proof -
  have "list_all er_ok [Enter ''ann'' Side0 50000 100, Enter ''ann'' Side0 10 0, Tick 5]"
    by (simp add: BPS_def)
  from er_monotone [OF er_inv_newRound this] show ?thesis by blast
qed

text \<open>What one tick may do. A step either moves only the cursor, or is one blow between two
  different living fighters of opposite sides and different wallets: the defender loses exactly what
  the attacker banks, at most nine tenths of the smaller ring unless the defender is down to dust,
  in which case it loses everything and is out.\<close>

theorem tick_body_effect:
  assumes "er_inv r" and "tick_body sha256 r = Inr r'"
  shows "r' = r\<lparr>tickCount := tickCount r + 1\<rparr> \<or>
    (\<exists>a d dmg. a < length (fighters r) \<and> d < length (fighters r) \<and>
      side (fighters r ! a) \<noteq> side (fighters r ! d) \<and>
      wallet (fighters r ! a) \<noteq> wallet (fighters r ! d) \<and>
      \<not> dead (fighters r ! a) \<and> \<not> dead (fighters r ! d) \<and>
      0 < dmg \<and> dmg \<le> hp (fighters r ! d) \<and>
      (if hp (fighters r ! d) \<le> DUST then dmg = hp (fighters r ! d)
       else 10 * dmg \<le> 9 * min (hp (fighters r ! a)) (hp (fighters r ! d))) \<and>
      r' = r\<lparr>tickCount := tickCount r + 1, fighters := (fighters r)
        [d := (fighters r ! d)\<lparr>hp := hp (fighters r ! d) - dmg,
                                dead := (hp (fighters r ! d) = dmg)\<rparr>,
         a := (fighters r ! a)\<lparr>banked := banked (fighters r ! a) + dmg\<rparr>]\<rparr>)"
proof -
  have wf: "list_all wf_fighter (fighters r)" using assms(1) by (simp add: er_inv_def)
  from assms(2) wf show ?thesis
  proof (cases rule: tick_body_cases)
    case idle
    then show ?thesis by simp
  next
    case (blow a d dmg)
    have "exchange (fighters r) a d dmg = (fighters r)
        [d := (fighters r ! d)\<lparr>hp := hp (fighters r ! d) - dmg, dead := (hp (fighters r ! d) = dmg)\<rparr>,
         a := (fighters r ! a)\<lparr>banked := banked (fighters r ! a) + dmg\<rparr>]"
      using exchange_eq [OF blow(1,2,3,9)] blow(7) by simp
    with blow show ?thesis
      by (intro disjI2 exI [of _ a] exI [of _ d] exI [of _ dmg]) auto
  qed
qed

text \<open>A duel for the witnesses: two fighters, one hash value.\<close>

definition duel :: er_round where
  "duel = \<lparr>seed = replicate 32 1,
     fighters = [\<lparr>wallet = ''ann'', side = Side0, dead = False, stake = 5000, hp = 5000, banked = 0\<rparr>,
                 \<lparr>wallet = ''bob'', side = Side1, dead = False, stake = 900, hp = 900, banked = 0\<rparr>],
     tickCount = 0, pot = 5900, penaltiesCollected = 0, feesCollected = 0, winner = None\<rparr>"

lemma duel_inv: "er_inv duel"
  by (simp add: er_inv_def duel_def wf_fighter_def totalValue_def worth_def fighter_key_def
      MAX_FIGHTERS_def)

lemma duel_tick: "tick_body (\<lambda>m. replicate 32 0) duel =
  Inr (duel\<lparr>tickCount := 1, fighters :=
     [(fighters duel ! 0)\<lparr>banked := 900\<rparr>, (fighters duel ! 1)\<lparr>hp := 0, dead := True\<rparr>]\<rparr>)"
  by (simp add: tick_body_def resolve_pair_def duel_def tickHash_def drawPair_def rollOf_def
      readUInt32LE_def damage_def exchange_def sat_def Let_def er_constants numeral_2_eq_2)

theorem tick_body_effect_witness:
  "\<exists>a d dmg. a < length (fighters duel) \<and> d < length (fighters duel) \<and>
     side (fighters duel ! a) \<noteq> side (fighters duel ! d) \<and>
     wallet (fighters duel ! a) \<noteq> wallet (fighters duel ! d) \<and>
     0 < dmg \<and> dmg \<le> hp (fighters duel ! d)"
  using tick_body_effect [OF duel_inv duel_tick] by (auto simp: duel_def)

text \<open>The fight does not depend on how it is cut into calls. Ticking \<open>j + k\<close> steps in one call
  is ticking \<open>j\<close> and then \<open>k\<close>, error or not: the outcome is a function of seed and cursor
  alone.\<close>

theorem tick_batching:
  "tick sha256 r (j + k) = rbind (tick sha256 r j) (\<lambda>r'. tick sha256 r' k)"
proof (induction j arbitrary: r)
  case 0
  then show ?case by simp
next
  case (Suc j)
  show ?case
  proof (cases "length (fighters r) < 2")
    case True
    then show ?thesis by (cases k) auto
  next
    case False
    then show ?thesis by (cases "tick_body sha256 r") (auto simp: Suc.IH)
  qed
qed

lemma tick_body_total:
  assumes "\<forall>m. length (sha256 m) = 32" and "0 \<le> tickCount r" and "tickCount r < 2 ^ 64"
    and "2 \<le> length (fighters r)"
  obtains r' where "tick_body sha256 r = Inr r'" and "tickCount r' = tickCount r + 1"
    and "length (fighters r') = length (fighters r)"
proof -
  define h where "h = sha256 (take 32 (seed r @ replicate 32 0) @ le_u64 (tickCount r))"
  have len: "length h = 32" using assms(1) by (simp add: h_def)
  have rd: "\<exists>x. readUInt32LE h k = Inr x" if "k \<le> 28" for k
    using that by (auto simp: readUInt32LE_def len)
  obtain a d where ad: "drawPair h (length (fighters r)) = Inr (a, d)"
    using rd [of 0] rd [of 4] assms(4) by (auto simp: drawPair_def Let_def)
  obtain x y where "readUInt32LE h 24 = Inr x" "readUInt32LE h 20 = Inr y"
    using rd [of 24] rd [of 20] by auto
  then have "result_ok (rollOf h)" by (simp add: rollOf_def)
  then obtain roll where roll: "rollOf h = Inr roll" by (auto simp: result_ok_def)
  have "\<exists>r'. resolve_pair (r\<lparr>tickCount := tickCount r + 1\<rparr>) h a d = Inr r' \<and>
      tickCount r' = tickCount r + 1 \<and> length (fighters r') = length (fighters r)"
    by (auto simp: resolve_pair_def Let_def roll)
  then show thesis
    using that assms(2,3) ad by (auto simp: tick_body_def tickHash_def Let_def h_def)
qed

lemma run_tick_total:
  assumes "\<forall>m. length (sha256 m) = 32" and "0 \<le> tickCount r" and "tickCount r + int k \<le> 2 ^ 64"
  shows "\<exists>r'. tick sha256 r k = Inr r' \<and>
    tickCount r' = (if length (fighters r) < 2 then tickCount r else tickCount r + int k)"
  using assms(2,3)
proof (induction k arbitrary: r)
  case 0
  then show ?case by simp
next
  case (Suc k)
  show ?case
  proof (cases "length (fighters r) < 2")
    case True
    then show ?thesis by simp
  next
    case False
    then obtain r1 where r1: "tick_body sha256 r = Inr r1" "tickCount r1 = tickCount r + 1"
      "length (fighters r1) = length (fighters r)"
      using Suc.prems by (auto intro: tick_body_total [OF assms(1), of r])
    with Suc.IH [of r1] Suc.prems False show ?thesis by auto
  qed
qed

text \<open>A fight of bounded length always runs. With a hash of 32 bytes and a cursor that stays
  inside a u64, \<open>tick\<close> never throws and moves the cursor by exactly the number of steps asked
  for, unless fewer than two fighters are in the ring, when it does nothing.\<close>

theorem tick_total:
  assumes "\<forall>m. length (sha256 m) = 32" and "0 \<le> tickCount r" and "tickCount r + int k \<le> 2 ^ 64"
  shows "\<exists>r'. tick sha256 r k = Inr r' \<and>
    tickCount r' = (if length (fighters r) < 2 then tickCount r else tickCount r + int k)"
  using run_tick_total assms by blast

theorem tick_total_witness:
  "\<exists>r'. tick (\<lambda>m. replicate 32 7) duel 17280 = Inr r' \<and> tickCount r' = 17280"
  using tick_total [of "\<lambda>m. replicate 32 7" duel 17280] by (simp add: duel_def)

text \<open>The price of leaving. From the opening bell the extraction rate is at most 20 per cent,
  never rises as the cursor advances, and is zero from the horizon on.\<close>

theorem penalty_curve:
  assumes "0 \<le> c" and "c \<le> c'"
  shows "extractPenaltyBps n 0 = EXTRACT_PENALTY_START_BPS \<and>
    0 \<le> extractPenaltyBps n c' \<and> extractPenaltyBps n c' \<le> extractPenaltyBps n c \<and>
    extractPenaltyBps n c \<le> EXTRACT_PENALTY_START_BPS \<and>
    (penaltyHorizonSteps n \<le> c \<longrightarrow> extractPenaltyBps n c = 0)"
proof -
  have "extractPenaltyBps n 0 = EXTRACT_PENALTY_START_BPS"
    using penaltyHorizonSteps_pos [of n] by (simp add: extractPenaltyBps_eq)
  then show ?thesis
    using assms extractPenaltyBps_nonneg extractPenaltyBps_antimono [OF assms(2)]
      extractPenaltyBps_le [OF assms(1)] extractPenaltyBps_free by blast
qed

theorem penalty_curve_witness:
  "extractPenaltyBps 16 100 \<le> extractPenaltyBps 16 0 \<and> extractPenaltyBps 16 1600 = 0"
  using penalty_curve [of 0 100 16] penalty_curve [of 1600 1600 16]
  by (simp add: penaltyHorizonSteps_def clamp_def MAX_FIGHTERS_def PENALTY_HORIZON_STEPS_def)

text \<open>The horizon table is the formula its comment states, \<open>round(25 n^1.5)\<close>, for every lineup
  from 2 to 48: squared, the half-integer bounds around each entry enclose \<open>625 n^3\<close>.\<close>

theorem horizon_is_rounded_power:
  "\<forall>n \<in> set [2..<49].
     (2 * penaltyHorizonSteps n - 1) ^ 2 \<le> 2500 * int n ^ 3 \<and>
     2500 * int n ^ 3 < (2 * penaltyHorizonSteps n + 1) ^ 2"
  unfolding penaltyHorizonSteps_def clamp_def MAX_FIGHTERS_def PENALTY_HORIZON_STEPS_def
  by code_simp

theorem horizon_is_rounded_power_witness:
  "(2 * penaltyHorizonSteps 16 - 1) ^ 2 \<le> 2500 * (16 :: int) ^ 3"
  using horizon_is_rounded_power [THEN bspec, of 16] by simp

text \<open>The bytes of a u32, to drive a draw with chosen words.\<close>

definition le_u32 :: "nat \<Rightarrow> bytes" where
  "le_u32 x = map (\<lambda>i. word_of_nat (x div 256 ^ i)) [0..<4]"

lemma le_u32_expand:
  "le_u32 x = [word_of_nat x, word_of_nat (x div 256), word_of_nat (x div 65536),
               word_of_nat (x div 16777216)]"
  by (simp add: le_u32_def upt_rec)

lemma le_digits:
  "x = 256 * q1 + m0 \<Longrightarrow> q1 = 256 * q2 + m1 \<Longrightarrow> q2 = 256 * q3 + m2 \<Longrightarrow>
     m0 + 256 * m1 + 65536 * m2 + 16777216 * q3 = (x :: nat)"
  by simp

lemma readUInt32LE_le_u32:
  assumes "x < 2 ^ 32" and "off = length p"
  shows "readUInt32LE (p @ le_u32 x @ q) off = Inr x"
proof -
  have d: "x div 65536 = x div 256 div 256" "x div 16777216 = x div 256 div 256 div 256"
    by (simp_all flip: div_mult2_eq)
  have "x div 256 div 256 div 256 < 256" using assms(1) by (simp flip: div_mult2_eq)
  moreover have "x mod 256 + 256 * (x div 256 mod 256) + 65536 * (x div 256 div 256 mod 256) +
      16777216 * (x div 256 div 256 div 256) = x"
    by (rule le_digits) (rule mult_div_mod_eq [symmetric])+
  ultimately have "x mod 256 + 256 * (x div 256 mod 256) + 65536 * (x div 256 div 256 mod 256) +
      16777216 * (x div 256 div 256 div 256 mod 256) = x"
    by simp
  then show ?thesis
    using assms(2)
    by (simp add: readUInt32LE_def le_u32_expand nth_append unat_of_nat d)
qed

text \<open>The draw favours no seat. For every lineup of at least two, each ordered pair of distinct
  seats comes from exactly one pair of residues of the two hash words, so the draw is uniform over
  all \<open>n (n - 1)\<close> ordered pairs and never pairs a fighter with itself.\<close>

theorem drawPair_uniform:
  assumes "2 \<le> n" and "n \<le> 2 ^ 32" and "a < n" and "d < n" and "a \<noteq> d"
  shows "\<exists>!(x, y). x < n \<and> y < n - 1 \<and> drawPair (le_u32 x @ le_u32 y) n = Inr (a, d)"
proof -
  have draw: "drawPair (le_u32 x @ le_u32 y) n = Inr (x, if y \<ge> x then y + 1 else y)"
    if "x < n" "y < n - 1" for x y
  proof -
    have "readUInt32LE (le_u32 x @ le_u32 y) 0 = Inr x"
      using readUInt32LE_le_u32 [of x 0 "[]" "le_u32 y"] that assms(2) by simp
    moreover have "readUInt32LE (le_u32 x @ le_u32 y) 4 = Inr y"
      using readUInt32LE_le_u32 [of y 4 "le_u32 x" "[]"] that assms(2) by (simp add: le_u32_expand)
    ultimately show ?thesis
      using that assms(1) by (simp add: drawPair_def Let_def)
  qed
  define y where "y = (if d > a then d - 1 else d)"
  have y: "y < n - 1" "(if y \<ge> a then y + 1 else y) = d"
    using assms by (auto simp: y_def)
  show ?thesis
  proof (rule ex1I [of _ "(a, y)"])
    show "case (a, y) of (x, y) \<Rightarrow> x < n \<and> y < n - 1 \<and> drawPair (le_u32 x @ le_u32 y) n = Inr (a, d)"
      using draw [OF assms(3) y(1)] y assms(3) by simp
  next
    fix p
    assume p: "case p of (x, y) \<Rightarrow> x < n \<and> y < n - 1 \<and> drawPair (le_u32 x @ le_u32 y) n = Inr (a, d)"
    obtain x' y' where p': "p = (x', y')" by (cases p)
    from p p' have xy: "x' < n" "y' < n - 1" "drawPair (le_u32 x' @ le_u32 y') n = Inr (a, d)"
      by auto
    from xy(3) draw [OF xy(1,2)] have "x' = a" "(if y' \<ge> a then y' + 1 else y') = d" by auto
    then show "p = (a, y)" using y(2) p' by (auto split: if_splits)
  qed
qed

theorem drawPair_uniform_witness:
  "\<exists>!(x, y). x < (48::nat) \<and> y < (48::nat) - 1 \<and> drawPair (le_u32 x @ le_u32 y) 48 = Inr (3, 40)"
  using drawPair_uniform [of 48 3 40] by simp

text \<open>Looking a seat up.\<close>

definition seat_of :: "er_round \<Rightarrow> string \<Rightarrow> er_side \<Rightarrow> er_fighter option" where
  "seat_of r w s = List.find (\<lambda>f. wallet f = w \<and> side f = s) (fighters r)"

lemma enter_refused:
  "enter r w s stk feeBps = Inl e \<Longrightarrow>
     e = ZeroStake \<and> stk \<le> 0 \<or>
     e = RoundFull \<and> 0 < stk \<and> seat_of r w s = None \<and> MAX_FIGHTERS \<le> length (fighters r)"
  by (auto simp: enter_def seat_of_def find_find_index Let_def split: if_splits option.splits)

lemma seat_of_topup:
  assumes "find_index (\<lambda>f. wallet f = w \<and> side f = s) (fighters r) = Some i"
    and "fighter_key y = fighter_key (fighters r ! i)" and "fighters r' = (fighters r)[i := y]"
  shows "seat_of r w s = Some (fighters r ! i)" and "seat_of r' w s = Some y"
    and "(w', s') \<noteq> (w, s) \<Longrightarrow> seat_of r' w' s' = seat_of r w' s'"
proof -
  note i = find_index_SomeD [OF assms(1)]
  show "seat_of r w s = Some (fighters r ! i)" by (simp add: seat_of_def find_find_index assms(1))
  show "seat_of r' w s = Some y"
    using assms i by (auto simp: seat_of_def fighter_key_def intro: find_update_same)
  assume "(w', s') \<noteq> (w, s)"
  then show "seat_of r' w' s' = seat_of r w' s'"
    using assms i by (auto simp: seat_of_def fighter_key_def intro: find_update_other)
qed

lemma seat_of_fresh:
  assumes "find_index (\<lambda>f. wallet f = w \<and> side f = s) (fighters r) = None"
    and "fighter_key y = (w, s)" and "fighters r' = fighters r @ [y]"
  shows "seat_of r w s = None" and "seat_of r' w s = Some y"
    and "(w', s') \<noteq> (w, s) \<Longrightarrow> seat_of r' w' s' = seat_of r w' s'"
proof -
  show none: "seat_of r w s = None" by (simp add: seat_of_def find_find_index assms(1))
  show "seat_of r' w s = Some y"
    using assms(2,3) none by (simp add: seat_of_def find_append fighter_key_def)
  assume "(w', s') \<noteq> (w, s)"
  then show "seat_of r' w' s' = seat_of r w' s'"
    using assms(2,3) by (auto simp: seat_of_def find_append fighter_key_def split: option.splits)
qed

text \<open>Entering. A stake of zero or less is refused, a new fighter is refused when the board is
  full, and nothing else is. Otherwise the fee and the net add up to the stake, the seat of that
  wallet and side is created or topped up by the net, every other seat is as it was, and pot and
  fees grow by net and fee.\<close>

theorem enter_effect:
  "case enter r w s stk feeBps of
     Inl e \<Rightarrow> e = ZeroStake \<and> stk \<le> 0 \<or>
       e = RoundFull \<and> 0 < stk \<and> seat_of r w s = None \<and> MAX_FIGHTERS \<le> length (fighters r)
   | Inr r' \<Rightarrow> 0 < stk \<and> (\<exists>fee net.
       fee = bigint_div (stk * feeBps) BPS \<and> fee + net = stk \<and>
       pot r' = pot r + net \<and> feesCollected r' = feesCollected r + fee \<and>
       seat_of r' w s = Some (case seat_of r w s of
           None \<Rightarrow> \<lparr>wallet = w, side = s, dead = False, stake = net, hp = net, banked = 0\<rparr>
         | Some f \<Rightarrow> f\<lparr>stake := stake f + net, hp := hp f + net\<rparr>) \<and>
       (\<forall>w' s'. (w', s') \<noteq> (w, s) \<longrightarrow> seat_of r' w' s' = seat_of r w' s'))"
proof (cases "enter r w s stk feeBps")
  case (Inl e)
  then show ?thesis using enter_refused by simp
next
  case (Inr r')
  then show ?thesis
  proof (cases rule: enter_cases)
    case (topup i fee net)
    let ?f = "fighters r ! i"
    let ?y = "?f\<lparr>stake := stake ?f + net, hp := hp ?f + net\<rparr>"
    have "fighter_key ?y = fighter_key ?f" "fighters r' = (fighters r)[i := ?y]"
      using topup(5) by (simp_all add: fighter_key_def)
    from seat_of_topup [OF topup(4) this] topup Inr show ?thesis
      by (auto intro!: exI [of _ fee] exI [of _ net])
  next
    case (fresh fee net)
    let ?y = "\<lparr>wallet = w, side = s, dead = False, stake = net, hp = net, banked = 0\<rparr>"
    have "fighter_key ?y = (w, s)" "fighters r' = fighters r @ [?y]"
      using fresh(6) by (simp_all add: fighter_key_def)
    from seat_of_fresh [OF fresh(4) this] fresh Inr show ?thesis
      by (auto intro!: exI [of _ fee] exI [of _ net])
  qed
qed

theorem enter_effect_witness:
  "case enter duel ''eve'' Side0 100 100 of Inl e \<Rightarrow> False | Inr r' \<Rightarrow> pot r' = 5999"
  using enter_effect [where r = duel and w = "''eve''" and s = Side0 and stk = 100 and feeBps = 100]
  by (auto simp: duel_def bigint_div_def BPS_def MAX_FIGHTERS_def seat_of_def split: sum.splits)

text \<open>Extracting. A wallet with no living fighter holding value is refused. Otherwise its first
  such fighter leaves the ring with everything it held: what it banks and what the house takes add
  up to that, the house takes at most a fifth, no other fighter is touched, and the house's counter
  grows by the penalty.\<close>

theorem extract_effect:
  assumes "er_inv r"
  shows "case er_extract r w of
     Inl e \<Rightarrow> e = NothingToExtract \<and>
       (\<forall>f \<in> set (fighters r). wallet f = w \<longrightarrow> dead f \<or> hp f \<le> 0)
   | Inr (r', taken, kept, penalty) \<Rightarrow> (\<exists>i < length (fighters r).
       wallet (fighters r ! i) = w \<and> \<not> dead (fighters r ! i) \<and>
       taken = hp (fighters r ! i) \<and> 0 < taken \<and>
       kept + penalty = taken \<and> 0 \<le> penalty \<and> 5 * penalty \<le> taken \<and>
       r' = r\<lparr>fighters := (fighters r)[i := (fighters r ! i)
              \<lparr>banked := banked (fighters r ! i) + kept, hp := 0, dead := True\<rparr>],
            penaltiesCollected := penaltiesCollected r + penalty\<rparr>)"
proof (cases "er_extract r w")
  case (Inl e)
  then show ?thesis
    by (auto simp: er_extract_def Let_def find_index_None_iff split: option.splits prod.splits)
next
  case (Inr res)
  obtain r' taken kept penalty where res: "res = (r', taken, kept, penalty)" by (cases res) auto
  from Inr res have "er_extract r w = Inr (r', taken, kept, penalty)" by simp
  then show ?thesis
  proof (cases rule: er_extract_cases)
    case (1 i)
    note i = find_index_SomeD [OF 1(1)]
    have tc: "0 \<le> taken" "0 \<le> tickCount r" using 1(2) i assms by (auto simp: er_inv_def)
    from splitExtraction_bounds [OF tc 1(3)] 1 i Inr res show ?thesis
      by (auto intro!: exI [of _ i])
  qed
qed

theorem extract_effect_witness:
  "case er_extract duel ''ann'' of Inl e \<Rightarrow> False
   | Inr (r', taken, kept, penalty) \<Rightarrow> kept + penalty = taken \<and> taken = 5000"
  using extract_effect [OF duel_inv, of "''ann''"]
  by (auto simp: duel_def less_Suc_eq split: sum.splits)

subsection \<open>The winner\<close>

definition side_worth :: "er_side \<Rightarrow> er_fighter list \<Rightarrow> int" where
  "side_worth s fs = sum_list (map worth (filter (\<lambda>f. side f = s) fs))"

lemma settle_fold:
  "foldl (\<lambda>(a, b) f. let v = hp f + banked f
            in if side f = Side0 then (a + v, b) else (a, b + v)) (x, y) fs =
   (x + side_worth Side0 fs, y + side_worth Side1 fs)"
proof (induction fs arbitrary: x y)
  case (Cons f fs)
  then show ?case by (cases "side f") (simp_all add: Let_def side_worth_def worth_def)
qed (simp add: side_worth_def)

lemma side_worth_total: "side_worth Side0 fs + side_worth Side1 fs = sum_list (map worth fs)"
proof (induction fs)
  case (Cons f fs)
  then show ?case by (cases "side f") (simp_all add: side_worth_def)
qed (simp add: side_worth_def)

text \<open>Settlement counts both the ring and the bank. The two sides' totals add up to everything
  the fighters own; the side holding more of it wins and a tie goes to side 0; settling again names
  the same winner and moves nothing.\<close>

theorem settle_winner:
  "side_worth Side0 (fighters r) + side_worth Side1 (fighters r) = totalValue r \<and>
   winner (settle r) =
     Some (if side_worth Side1 (fighters r) \<le> side_worth Side0 (fighters r) then Side0 else Side1) \<and>
   settle r = r\<lparr>winner := winner (settle r)\<rparr> \<and> settle (settle r) = settle r"
  using side_worth_total [of "fighters r"]
  by (simp add: settle_def settle_fold totalValue_def)

end
