(* ===== verification/Er_Port.thy ===== *)
theory Er_Port
  imports Er_Sim
begin

text \<open>
  The browser's copy of the round algorithm, \<^verbatim>\<open>src/er-demo/src/sim/erSim.ts\<close>, and the
  ordered hit events derived from it, \<^verbatim>\<open>src/er-demo/src/sim/hitEvents.ts\<close>. Apart from
  \<open>tick\<close> the copy is the same text as the engine's file and uses the definitions of
  \<open>Er_Sim\<close>; its \<open>tick\<close> reports each exchange to an observer, which the model collects
  in a list.
\<close>

record hit_event =
  ev_step :: int
  attackerId :: nat
  defenderId :: nat
  amount :: int

definition resolve_pair_hit ::
  "er_round \<Rightarrow> int \<Rightarrow> bytes \<Rightarrow> nat \<Rightarrow> nat \<Rightarrow> er_error + er_round \<times> hit_event list" where
  "resolve_pair_hit r cursor h a d =
     (let A = fighters r ! a; D = fighters r ! d in
      if side A = side D then Inr (r, [])
      else if wallet A = wallet D then Inr (r, [])
      else if dead A \<or> dead D then Inr (r, [])
      else rbind (rollOf h) (\<lambda>roll.
        let dmg = damage A D roll in
        if dmg = 0 then Inr (r, [])
        else Inr (r\<lparr>fighters := exchange (fighters r) a d dmg\<rparr>,
                  [\<lparr>ev_step = cursor, attackerId = a, defenderId = d, amount = dmg\<rparr>])))"

definition tick_hits_body :: "hash_fun \<Rightarrow> er_round \<Rightarrow> er_error + er_round \<times> hit_event list" where
  "tick_hits_body sha256 rd =
     (let n = length (fighters rd);
          cursor = tickCount rd;
          r = rd\<lparr>tickCount := cursor + 1\<rparr>
      in rbind (tickHash sha256 (seed r) cursor) (\<lambda>h.
         rbind (drawPair h n) (\<lambda>(a, d). resolve_pair_hit r cursor h a d)))"

fun tick_hits :: "hash_fun \<Rightarrow> er_round \<Rightarrow> nat \<Rightarrow> er_error + er_round \<times> hit_event list" where
  "tick_hits sha256 rd 0 = Inr (rd, [])"
| "tick_hits sha256 rd (Suc steps) =
     (if length (fighters rd) < 2 then Inr (rd, [])
      else rbind (tick_hits_body sha256 rd) (\<lambda>(r, es).
           rbind (tick_hits sha256 r steps) (\<lambda>(r', es'). Inr (r', es @ es'))))"

record hit_entry =
  he_wallet :: string
  he_side :: er_side
  he_stake :: int

definition buildRoundFromEntries :: "bytes \<Rightarrow> hit_entry list \<Rightarrow> er_round" where
  "buildRoundFromEntries sd entries =
     foldl (\<lambda>r e. r\<lparr>fighters := fighters r @
                     [\<lparr>wallet = he_wallet e, side = he_side e, dead = False,
                       stake = he_stake e, hp = he_stake e, banked = 0\<rparr>],
                   pot := pot r + he_stake e\<rparr>)
       (newRound sd) entries"

definition computeHitEvents ::
  "hash_fun \<Rightarrow> er_round \<Rightarrow> nat \<Rightarrow> er_error + er_round \<times> hit_event list" where
  "computeHitEvents sha256 r steps = tick_hits sha256 r steps"

definition runFullFight ::
  "hash_fun \<Rightarrow> bytes \<Rightarrow> hit_entry list \<Rightarrow> nat \<Rightarrow> er_error + er_round \<times> hit_event list" where
  "runFullFight sha256 sd entries steps =
     computeHitEvents sha256 (buildRoundFromEntries sd entries) steps"

text \<open>Reading a seat that does not exist is \<open>undefined\<close>, and writing through it throws:
  \<open>None\<close>.\<close>

definition applyHitEvent :: "er_fighter list \<Rightarrow> hit_event \<Rightarrow> er_fighter list option" where
  "applyHitEvent fs e =
     (let a = attackerId e; d = defenderId e in
      if a < length fs \<and> d < length fs then
        let fs1 = fs[d := (fs ! d)\<lparr>hp := hp (fs ! d) - amount e\<rparr>];
            fs2 = fs1[a := (fs1 ! a)\<lparr>banked := banked (fs1 ! a) + amount e\<rparr>]
        in Some (if hp (fs2 ! d) = 0 then fs2[d := (fs2 ! d)\<lparr>dead := True\<rparr>] else fs2)
      else None)"

text \<open>A consumer that rebuilds the fight from the events alone.\<close>

fun replay :: "er_fighter list \<Rightarrow> hit_event list \<Rightarrow> er_fighter list option" where
  "replay fs [] = Some fs"
| "replay fs (e # es) = Option.bind (applyHitEvent fs e) (\<lambda>fs'. replay fs' es)"

subsection \<open>The observer changes nothing\<close>

lemma resolve_pair_hit_eq:
  "rbind (resolve_pair_hit r c h a d) (\<lambda>(r', es). Inr r') = resolve_pair r h a d"
  by (cases "rollOf h") (auto simp: resolve_pair_hit_def resolve_pair_def Let_def)

lemma rbind_assoc: "rbind (rbind m f) g = rbind m (\<lambda>x. rbind (f x) g)"
  by (cases m) auto

lemma tick_hits_body_eq:
  "rbind (tick_hits_body sha256 r) (\<lambda>(r', es). Inr r') = tick_body sha256 r"
proof (cases "tickHash sha256 (seed r) (tickCount r)")
  case (Inr h)
  then show ?thesis
    by (cases "drawPair h (length (fighters r))")
      (auto simp: tick_hits_body_def tick_body_def Let_def resolve_pair_hit_eq)
qed (simp add: tick_hits_body_def tick_body_def)

lemma tick_round: "rbind (tick_hits sha256 r k) (\<lambda>(r', es). Inr r') = tick sha256 r k"
proof (induction k arbitrary: r)
  case 0
  then show ?case by simp
next
  case (Suc k)
  show ?case
  proof (cases "length (fighters r) < 2")
    case True
    then show ?thesis by simp
  next
    case False
    have "rbind (rbind (tick_hits sha256 q k) (\<lambda>(r', es'). Inr (r', es @ es'))) (\<lambda>(r', es). Inr r')
        = tick sha256 q k" for q and es :: "hit_event list"
      using Suc.IH [of q] by (cases "tick_hits sha256 q k") auto
    then show ?thesis
      using False
      by (cases "tick_hits_body sha256 r")
        (auto simp: tick_hits_body_eq [of sha256 r, symmetric] split: prod.splits)
  qed
qed

text \<open>C22: The two copies agree. The browser's instrumented \<open>tick\<close> leaves exactly the round the
  engine's \<open>tick\<close> leaves, and throws exactly when it throws.\<close>

theorem tick_parity: "rbind (tick_hits sha256 r k) (\<lambda>(r', es). Inr r') = tick sha256 r k"
  by (rule tick_round)

subsection \<open>The events carry the whole fight\<close>

definition ring :: "er_fighter list \<Rightarrow> int" where
  "ring fs = sum_list (map hp fs)"

lemma tick_hits_body_cases:
  assumes "tick_hits_body sha256 r = Inr (r', es)" and wf: "list_all wf_fighter (fighters r)"
  obtains (idle) "es = []" and "r' = r\<lparr>tickCount := tickCount r + 1\<rparr>"
    | (blow) a d dmg where
        "a < length (fighters r)" and "d < length (fighters r)" and "a \<noteq> d"
        and "\<not> dead (fighters r ! a)" and "\<not> dead (fighters r ! d)"
        and "0 < dmg" and "dmg \<le> hp (fighters r ! d)"
        and "r' = r\<lparr>tickCount := tickCount r + 1, fighters := exchange (fighters r) a d dmg\<rparr>"
        and "es = [\<lparr>ev_step = tickCount r, attackerId = a, defenderId = d, amount = dmg\<rparr>]"
proof -
  let ?r = "r\<lparr>tickCount := tickCount r + 1\<rparr>"
  from assms(1) obtain h a d where draw: "drawPair h (length (fighters r)) = Inr (a, d)"
    and res: "resolve_pair_hit ?r (tickCount r) h a d = Inr (r', es)"
    by (auto simp: tick_hits_body_def Let_def rbind_Inr_iff)
  note ad = drawPair_distinct [OF draw]
  have w: "0 \<le> hp (fighters r ! a)" "0 \<le> hp (fighters r ! d)"
    using list_all_nth_iff [OF wf ad(2)] list_all_nth_iff [OF wf ad(3)]
    by (simp_all add: wf_fighter_def)
  show thesis
  proof (cases "es = []")
    case True
    with res have "r' = ?r"
      by (cases "rollOf h") (auto simp: resolve_pair_hit_def Let_def split: if_splits)
    with True idle show thesis by blast
  next
    case False
    with res obtain roll where roll: "rollOf h = Inr roll"
      by (cases "rollOf h") (auto simp: resolve_pair_hit_def Let_def split: if_splits)
    let ?dmg = "damage (fighters r ! a) (fighters r ! d) roll"
    have "0 < roll" "roll \<le> 90" using rollOf_pos_le [OF roll] by auto
    note dmg = damage_bounds [OF w this]
    from res roll False dmg ad show thesis
      by (intro blow [of a d ?dmg]) (auto simp: resolve_pair_hit_def Let_def split: if_splits)
  qed
qed

lemma tick_hits_body_wf:
  assumes "tick_hits_body sha256 r = Inr (r', es)" and "list_all wf_fighter (fighters r)"
  shows "list_all wf_fighter (fighters r')"
  using assms
proof (cases rule: tick_hits_body_cases)
  case (blow a d dmg)
  then show ?thesis using exchange_facts(3) assms(2) by simp
qed (simp add: assms(2))

lemma tick_hits_Suc_cases:
  assumes "tick_hits sha256 r (Suc k) = Inr (r', es)"
  obtains (small) "length (fighters r) < 2" and "r' = r" and "es = []"
    | (step) q es1 es2 where "tick_hits_body sha256 r = Inr (q, es1)"
        and "tick_hits sha256 q k = Inr (r', es2)" and "es = es1 @ es2"
  using assms by (auto simp: rbind_Inr_iff split: if_splits)

lemma applyHitEvent_exchange:
  assumes "a < length fs" and "d < length fs" and "dmg \<le> hp (fs ! d)"
  shows "applyHitEvent fs \<lparr>ev_step = c, attackerId = a, defenderId = d, amount = dmg\<rparr> =
    Some (exchange fs a d dmg)"
proof -
  have "sat (hp (fs ! d)) dmg = hp (fs ! d) - dmg" using assms(3) by (simp add: sat_def)
  then show ?thesis using assms by (simp add: applyHitEvent_def exchange_def Let_def)
qed

lemma replay_append: "replay fs (es @ es') = Option.bind (replay fs es) (\<lambda>fs'. replay fs' es')"
  by (induction es arbitrary: fs) (auto split: bind_splits)

lemma replay_body:
  assumes "tick_hits_body sha256 r = Inr (r', es)" and "list_all wf_fighter (fighters r)"
  shows "replay (fighters r) es = Some (fighters r')"
  using assms by (cases rule: tick_hits_body_cases) (simp_all add: applyHitEvent_exchange)

lemma replay_run:
  assumes "list_all wf_fighter (fighters r)" and "tick_hits sha256 r k = Inr (r', es)"
  shows "replay (fighters r) es = Some (fighters r')"
  using assms
proof (induction k arbitrary: r es)
  case 0
  then show ?case by simp
next
  case (Suc k)
  from Suc.prems(2) show ?case
  proof (cases rule: tick_hits_Suc_cases)
    case small
    then show ?thesis by simp
  next
    case (step q es1 es2)
    then show ?thesis
      using Suc.IH [of q es2] replay_body [OF step(1) Suc.prems(1)]
        tick_hits_body_wf [OF step(1) Suc.prems(1)]
      by (simp add: replay_append)
  qed
qed

text \<open>C23: The event stream loses nothing. Applying the emitted events one by one to the fighters as
  they stood before the fight rebuilds exactly the fighters the chain's own loop ends with: no event
  addresses a missing seat, and the plain subtraction never disagrees with the saturating one.\<close>

theorem replay_exact:
  assumes "list_all wf_fighter (fighters r)" and "computeHitEvents sha256 r k = Inr (r', es)"
  shows "replay (fighters r) es = Some (fighters r')"
  using replay_run assms by (simp add: computeHitEvents_def)

text \<open>A duel at the keyboard: one step of the instrumented loop.\<close>

lemma duel_hits: "tick_hits (\<lambda>m. replicate 32 0) duel 1 =
  Inr (duel\<lparr>tickCount := 1, fighters :=
     [(fighters duel ! 0)\<lparr>banked := 900\<rparr>, (fighters duel ! 1)\<lparr>hp := 0, dead := True\<rparr>]\<rparr>,
   [\<lparr>ev_step = 0, attackerId = 0, defenderId = 1, amount = 900\<rparr>])"
  by (simp add: tick_hits_body_def resolve_pair_hit_def duel_def tickHash_def drawPair_def rollOf_def
      readUInt32LE_def damage_def exchange_def sat_def Let_def er_constants numeral_2_eq_2)

lemma duel_wf: "list_all wf_fighter (fighters duel)"
  using duel_inv by (simp add: er_inv_def)

theorem replay_exact_witness:
  "replay (fighters duel) [\<lparr>ev_step = 0, attackerId = 0, defenderId = 1, amount = 900\<rparr>] =
     Some [(fighters duel ! 0)\<lparr>banked := 900\<rparr>, (fighters duel ! 1)\<lparr>hp := 0, dead := True\<rparr>]"
  using replay_exact [OF duel_wf, unfolded computeHitEvents_def, OF duel_hits] by simp

subsection \<open>What a single event may be\<close>

lemma ring_exchange:
  assumes "a < length fs" and "d < length fs" and "a \<noteq> d" and "0 < dmg" and "dmg \<le> hp (fs ! d)"
  shows "ring (exchange fs a d dmg) = ring fs - dmg"
  using assms by (simp add: exchange_eq ring_def sum_update)

lemma ring_nonneg: "list_all wf_fighter fs \<Longrightarrow> 0 \<le> ring fs"
  unfolding ring_def by (rule sum_list_nonneg_int) (auto simp: list_all_iff wf_fighter_def)

lemma exchange_dead_mono:
  assumes "a < length fs" and "d < length fs" and "a \<noteq> d" and "dmg \<le> hp (fs ! d)"
    and "dead (fs ! i)" and "i < length fs"
  shows "dead (exchange fs a d dmg ! i)"
  using assms by (cases "i = a"; cases "i = d") (simp_all add: exchange_eq)

text \<open>What holds of the events of a stretch of ticks, relative to the fighters and the cursor at its
  two ends.\<close>

definition stretch_ok :: "er_round \<Rightarrow> hit_event list \<Rightarrow> er_round \<Rightarrow> bool" where
  "stretch_ok r es r' \<longleftrightarrow>
     sorted_wrt (\<lambda>e e'. ev_step e < ev_step e') es \<and>
     tickCount r \<le> tickCount r' \<and>
     (\<forall>e \<in> set es. tickCount r \<le> ev_step e \<and> ev_step e < tickCount r' \<and> 0 < amount e \<and>
        attackerId e < length (fighters r) \<and> defenderId e < length (fighters r) \<and>
        \<not> dead (fighters r ! attackerId e) \<and> \<not> dead (fighters r ! defenderId e)) \<and>
     sum_list (map amount es) + ring (fighters r') = ring (fighters r) \<and>
     length (fighters r') = length (fighters r) \<and>
     (\<forall>i < length (fighters r). dead (fighters r ! i) \<longrightarrow> dead (fighters r' ! i))"

lemma stretch_ok_refl: "stretch_ok r [] r"
  by (simp add: stretch_ok_def)

lemma stretch_ok_append:
  assumes "stretch_ok r es1 q" and "stretch_ok q es2 r'"
  shows "stretch_ok r (es1 @ es2) r'"
  using assms unfolding stretch_ok_def sorted_wrt_append by fastforce

lemma stretch_ok_body:
  assumes "tick_hits_body sha256 r = Inr (r', es)" and "list_all wf_fighter (fighters r)"
  shows "stretch_ok r es r'"
  using assms
proof (cases rule: tick_hits_body_cases)
  case idle
  then show ?thesis by (simp add: stretch_ok_def)
next
  case (blow a d dmg)
  then show ?thesis
    using ring_exchange [OF blow(1,2,3,6,7)] exchange_dead_mono [OF blow(1,2,3,7)]
    by (simp add: stretch_ok_def)
qed

lemma stretch_ok_tick:
  "tick_hits sha256 r k = Inr (r', es) \<Longrightarrow> list_all wf_fighter (fighters r) \<Longrightarrow>
     stretch_ok r es r' \<and> list_all wf_fighter (fighters r')"
proof (induction k arbitrary: r es)
  case 0
  then show ?case by (simp add: stretch_ok_refl)
next
  case (Suc k)
  from Suc.prems(1) show ?case
  proof (cases rule: tick_hits_Suc_cases)
    case small
    then show ?thesis using Suc.prems by (simp add: stretch_ok_refl)
  next
    case (step q es1 es2)
    note q = tick_hits_body_wf [OF step(1) Suc.prems(2)]
    show ?thesis
      using Suc.IH [OF step(2) q] stretch_ok_append stretch_ok_body [OF step(1) Suc.prems(2)] step(3)
      by blast
  qed
qed

lemma length_le_sum: "\<forall>e \<in> set es. 0 < amount e \<Longrightarrow> int (length es) \<le> sum_list (map amount es)"
  by (induction es) auto

text \<open>The order and the bound of a fight. Events come out in strictly increasing step order
  inside the stretch of ticks asked for; each moves a positive amount between two fighters that were
  alive when the stretch began, so a fighter that has extracted or died never appears again; what
  all events move is what the ring loses; hence a fight has at most as many events as there are units
  in the ring.\<close>

theorem hit_events_ordered:
  assumes "list_all wf_fighter (fighters r)" and "computeHitEvents sha256 r k = Inr (r', es)"
  shows "sorted_wrt (\<lambda>e e'. ev_step e < ev_step e') es \<and>
    (\<forall>e \<in> set es. tickCount r \<le> ev_step e \<and> ev_step e < tickCount r' \<and> 0 < amount e \<and>
        \<not> dead (fighters r ! attackerId e) \<and> \<not> dead (fighters r ! defenderId e)) \<and>
    sum_list (map amount es) = ring (fighters r) - ring (fighters r') \<and>
    int (length es) \<le> ring (fighters r)"
proof -
  have ok: "stretch_ok r es r'" and wf: "list_all wf_fighter (fighters r')"
    using stretch_ok_tick assms by (auto simp: computeHitEvents_def)
  have "int (length es) \<le> sum_list (map amount es)"
    using ok by (auto simp: stretch_ok_def intro: length_le_sum)
  with ok ring_nonneg [OF wf] show ?thesis by (auto simp: stretch_ok_def)
qed

theorem hit_events_ordered_witness:
  "int (length [\<lparr>ev_step = 0, attackerId = 0, defenderId = 1, amount = 900\<rparr>]) \<le> ring (fighters duel)"
  using hit_events_ordered [OF duel_wf, unfolded computeHitEvents_def, OF duel_hits] by simp

subsection \<open>The round the browser rebuilds\<close>

lemma build_fold:
  "foldl (\<lambda>r e. r\<lparr>fighters := fighters r @
                     [\<lparr>wallet = he_wallet e, side = he_side e, dead = False,
                       stake = he_stake e, hp = he_stake e, banked = 0\<rparr>],
                   pot := pot r + he_stake e\<rparr>) r0 entries =
   r0\<lparr>fighters := fighters r0 @ map (\<lambda>e. \<lparr>wallet = he_wallet e, side = he_side e, dead = False,
                       stake = he_stake e, hp = he_stake e, banked = 0\<rparr>) entries,
      pot := pot r0 + sum_list (map he_stake entries)\<rparr>"
  by (induction entries arbitrary: r0) simp_all

lemma build_worth:
  "totalValue (buildRoundFromEntries sd entries) = sum_list (map he_stake entries)"
  unfolding buildRoundFromEntries_def build_fold totalValue_def
  by (induction entries) (auto simp: newRound_def worth_def)

lemma build_inv:
  assumes "list_all (\<lambda>e. 0 \<le> he_stake e) entries"
    and "distinct (map (\<lambda>e. (he_wallet e, he_side e)) entries)"
    and "length entries \<le> MAX_FIGHTERS"
  shows "er_inv (buildRoundFromEntries sd entries)"
  using assms build_worth [of sd entries] unfolding er_inv_def
  by (auto simp: buildRoundFromEntries_def build_fold newRound_def list_all_iff wf_fighter_def
      fighter_key_def comp_def)

lemma tick_body_keeps:
  "tick_body sha256 r = Inr r' \<Longrightarrow>
     penaltiesCollected r' = penaltiesCollected r \<and> pot r' = pot r"
  by (auto simp: tick_body_def resolve_pair_def Let_def rbind_Inr_iff split: if_splits)

lemma tick_keeps:
  "tick sha256 r k = Inr r' \<Longrightarrow> penaltiesCollected r' = penaltiesCollected r \<and> pot r' = pot r"
proof (induction k arbitrary: r)
  case (Suc k)
  then show ?case by (fastforce simp: rbind_Inr_iff split: if_splits dest: tick_body_keeps)
qed simp

text \<open>Verification of a settled round. From the entries read off the chain, with no stake
  negative, no seat twice and at most 48 of them, the whole fight conserves every unit staked, and
  the events alone rebuild its outcome from the lineup.\<close>

theorem runFullFight_sound:
  assumes "list_all (\<lambda>e. 0 \<le> he_stake e) entries"
    and "distinct (map (\<lambda>e. (he_wallet e, he_side e)) entries)"
    and "length entries \<le> MAX_FIGHTERS"
    and "\<forall>m. length (sha256 m) = 32" and "k \<le> 2 ^ 64"
  shows "\<exists>r es. runFullFight sha256 sd entries k = Inr (r, es) \<and>
    conservationHolds r \<and> totalValue r = sum_list (map he_stake entries) \<and>
    replay (fighters (buildRoundFromEntries sd entries)) es = Some (fighters r)"
proof -
  let ?b = "buildRoundFromEntries sd entries"
  note inv = build_inv [OF assms(1,2,3), of sd]
  have b: "tickCount ?b = 0" "penaltiesCollected ?b = 0" "pot ?b = sum_list (map he_stake entries)"
    by (simp_all add: buildRoundFromEntries_def build_fold newRound_def)
  have "int k \<le> 2 ^ 64" using assms(5) by (simp flip: of_nat_power)
  with b obtain r where tick: "tick sha256 ?b k = Inr r"
    using run_tick_total [OF assms(4), of ?b k] by auto
  then obtain es where es: "tick_hits sha256 ?b k = Inr (r, es)"
    using tick_round [of sha256 ?b k] by (cases "tick_hits sha256 ?b k") auto
  have inv': "er_inv r" using tick_inv [OF inv tick] .
  have keep: "penaltiesCollected r = penaltiesCollected ?b \<and> pot r = pot ?b"
    using tick by (rule tick_keeps)
  have "replay (fighters ?b) es = Some (fighters r)"
    using replay_run [OF _ es] inv by (simp add: er_inv_def)
  with es inv' keep b er_inv_conservation [OF inv'] show ?thesis
    by (auto simp: runFullFight_def computeHitEvents_def er_inv_def)
qed

theorem runFullFight_sound_witness:
  "\<exists>r es. runFullFight (\<lambda>m. replicate 32 7) []
      [\<lparr>he_wallet = ''ann'', he_side = Side0, he_stake = 5000\<rparr>,
       \<lparr>he_wallet = ''bob'', he_side = Side1, he_stake = 900\<rparr>] 17280 = Inr (r, es) \<and>
    conservationHolds r \<and> totalValue r = 5900"
  using runFullFight_sound [where ?sha256.0 = "\<lambda>m. replicate 32 7" and sd = "[]" and k = 17280 and
      entries = "[\<lparr>he_wallet = ''ann'', he_side = Side0, he_stake = 5000\<rparr>,
                  \<lparr>he_wallet = ''bob'', he_side = Side1, he_stake = 900\<rparr>]"]
  by (auto simp: MAX_FIGHTERS_def)

end
