(* ===== verification/Chain_Clock.thy ===== *)
theory Chain_Clock
  imports Er_Sim
begin

text \<open>
  The clock of the chain as the client mirrors it (\<^verbatim>\<open>src/er-demo/src/chain/constants.ts\<close>):
  phases, pacing constants, the lobby deadline and the canonical cursor of a fight. A local instant
  is a rational number of seconds; an instant stamped by the chain is a whole number.
\<close>

datatype phase = Lobby | Drawing | Fight | Settled | Abandoned

definition MIN_RETAINED_ROUNDS :: nat where "MIN_RETAINED_ROUNDS = 20"
definition STEPS_PER_FIGHTER_PER_SECOND :: int where "STEPS_PER_FIGHTER_PER_SECOND = 2"
definition MAX_STEPS_PER_CALL :: int where "MAX_STEPS_PER_CALL = 3000"
definition FIGHT_TIMEOUT_SECONDS :: int where "FIGHT_TIMEOUT_SECONDS = 180"
definition MIN_LOBBY_SECONDS :: int where "MIN_LOBBY_SECONDS = 20"
definition MAX_LOBBY_SECONDS :: int where "MAX_LOBBY_SECONDS = 604800"
definition DEFAULT_LOBBY_SECONDS :: int where "DEFAULT_LOBBY_SECONDS = 60"

lemmas clock_constants = MIN_RETAINED_ROUNDS_def STEPS_PER_FIGHTER_PER_SECOND_def
  MAX_STEPS_PER_CALL_def FIGHT_TIMEOUT_SECONDS_def MIN_LOBBY_SECONDS_def MAX_LOBBY_SECONDS_def
  DEFAULT_LOBBY_SECONDS_def

definition stepsPerSecond :: "nat \<Rightarrow> int" where
  "stepsPerSecond fighterCount = int fighterCount * STEPS_PER_FIGHTER_PER_SECOND"

definition lobbyIsOpen :: "int \<Rightarrow> rat \<Rightarrow> bool" where
  "lobbyIsOpen lobbyClosesAtSec nowSec \<longleftrightarrow> \<lfloor>nowSec\<rfloor> < lobbyClosesAtSec"

definition lobbyIsDead :: "nat \<Rightarrow> int \<Rightarrow> rat \<Rightarrow> bool" where
  "lobbyIsDead fighterCount lobbyClosesAtSec nowSec \<longleftrightarrow>
     \<not> lobbyIsOpen lobbyClosesAtSec nowSec \<and> fighterCount < 2"

definition canonicalCursor :: "int \<Rightarrow> nat \<Rightarrow> rat \<Rightarrow> int" where
  "canonicalCursor fightStartedAtSec fighterCount nowSec =
     (let elapsed = max 0 (\<lfloor>nowSec\<rfloor> - fightStartedAtSec)
      in min elapsed FIGHT_TIMEOUT_SECONDS * stepsPerSecond fighterCount)"

definition finalCursor :: "nat \<Rightarrow> int" where
  "finalCursor fighterCount = FIGHT_TIMEOUT_SECONDS * stepsPerSecond fighterCount"

subsection \<open>The lobby clock\<close>

lemma lobbyIsOpen_iff: "lobbyIsOpen c t \<longleftrightarrow> t < of_int c"
  by (simp add: lobbyIsOpen_def floor_less_iff)

lemma stepsPerSecond_nonneg: "0 \<le> stepsPerSecond n"
  by (simp add: stepsPerSecond_def clock_constants)

subsection \<open>The cursor\<close>

lemma canonicalCursor_nonneg: "0 \<le> canonicalCursor s n t"
  by (simp add: canonicalCursor_def Let_def stepsPerSecond_nonneg clock_constants)

lemma canonicalCursor_le_final: "canonicalCursor s n t \<le> finalCursor n"
  unfolding canonicalCursor_def finalCursor_def Let_def
  by (intro mult_right_mono) (auto simp: stepsPerSecond_nonneg)

lemma canonicalCursor_mono: "t \<le> t' \<Longrightarrow> canonicalCursor s n t \<le> canonicalCursor s n t'"
  unfolding canonicalCursor_def Let_def
  using floor_mono [of t t'] by (intro mult_right_mono) (auto simp: stepsPerSecond_nonneg)

lemma canonicalCursor_bell:
  assumes "of_int (s + FIGHT_TIMEOUT_SECONDS) \<le> t"
  shows "canonicalCursor s n t = finalCursor n"
proof -
  have "s + FIGHT_TIMEOUT_SECONDS \<le> \<lfloor>t\<rfloor>" using assms by (simp add: le_floor_iff)
  then show ?thesis by (simp add: canonicalCursor_def finalCursor_def Let_def clock_constants)
qed

lemma canonicalCursor_step: "canonicalCursor s n (t + 1) \<le> canonicalCursor s n t + stepsPerSecond n"
proof -
  let ?e = "\<lambda>u. min (max 0 (\<lfloor>u\<rfloor> - s)) FIGHT_TIMEOUT_SECONDS"
  have "?e (t + 1) \<le> ?e t + 1" by auto
  then have "?e (t + 1) * stepsPerSecond n \<le> (?e t + 1) * stepsPerSecond n"
    by (rule mult_right_mono) (rule stepsPerSecond_nonneg)
  then show ?thesis by (simp add: canonicalCursor_def Let_def distrib_right)
qed

text \<open>The cursor of a fight. It never goes back, starts at zero, moves by at most one second's
  worth of steps per second, and from the bell on it rests on the final cursor of the lineup.\<close>

theorem canonicalCursor_clock:
  "(t \<le> t' \<longrightarrow> canonicalCursor s n t \<le> canonicalCursor s n t') \<and>
   (t < of_int s \<longrightarrow> canonicalCursor s n t = 0) \<and>
   canonicalCursor s n (t + 1) \<le> canonicalCursor s n t + stepsPerSecond n \<and>
   canonicalCursor s n t \<le> finalCursor n \<and>
   (of_int (s + FIGHT_TIMEOUT_SECONDS) \<le> t \<longrightarrow> canonicalCursor s n t = finalCursor n)"
proof -
  have "canonicalCursor s n t = 0" if "t < of_int s"
  proof -
    have "\<lfloor>t\<rfloor> < s" using that by (simp add: floor_less_iff)
    then show ?thesis by (simp add: canonicalCursor_def Let_def clock_constants)
  qed
  then show ?thesis
    using canonicalCursor_mono canonicalCursor_step canonicalCursor_le_final canonicalCursor_bell
    by blast
qed

theorem canonicalCursor_clock_witness:
  "canonicalCursor 100 2 99 = 0 \<and> canonicalCursor 100 2 280 = 720"
  using canonicalCursor_clock [of 99 99 100 2] canonicalCursor_clock [of 280 280 100 2]
  by (simp add: finalCursor_def stepsPerSecond_def clock_constants)

subsection \<open>The bell against the penalty horizon\<close>

lemma horizon_below_bell:
  assumes "2 \<le> n" and "n \<le> MAX_FIGHTERS"
  shows "penaltyHorizonSteps n \<le> finalCursor n"
proof -
  have "\<forall>m \<in> set [2..<49]. penaltyHorizonSteps m \<le> finalCursor m"
    unfolding penaltyHorizonSteps_def clamp_def MAX_FIGHTERS_def PENALTY_HORIZON_STEPS_def
      finalCursor_def stepsPerSecond_def clock_constants
    by code_simp
  moreover have "n \<in> set [2..<49]"
    using assms unfolding set_upt MAX_FIGHTERS_def by simp
  ultimately show ?thesis by (rule bspec)
qed

text \<open>Calls needed to run a fight from the first step to the bell, each at most
  \<open>MAX_STEPS_PER_CALL\<close> steps long.\<close>

definition calls_to_bell :: "nat \<Rightarrow> int" where
  "calls_to_bell n = (finalCursor n + MAX_STEPS_PER_CALL - 1) div MAX_STEPS_PER_CALL"

text \<open>Every lineup can leave for free before the bell, and no fight needs more than six
  transactions to be run to it.\<close>

theorem bell_reaches_free_exit:
  assumes "2 \<le> n" and "n \<le> MAX_FIGHTERS"
  shows "extractPenaltyBps n (finalCursor n) = 0 \<and> calls_to_bell n \<le> 6 \<and>
    finalCursor n \<le> calls_to_bell n * MAX_STEPS_PER_CALL"
proof -
  have fc: "finalCursor n = 360 * int n"
    by (simp add: finalCursor_def stepsPerSecond_def clock_constants)
  have le: "360 * int n \<le> 17280" using assms(2) by (simp add: MAX_FIGHTERS_def)
  have "calls_to_bell n \<le> 6"
    using le by (simp add: calls_to_bell_def fc clock_constants)
  moreover have "finalCursor n \<le> calls_to_bell n * MAX_STEPS_PER_CALL"
    by (simp add: calls_to_bell_def fc clock_constants)
  ultimately show ?thesis
    using extractPenaltyBps_free [OF horizon_below_bell [OF assms]] by blast
qed

theorem bell_reaches_free_exit_witness:
  "extractPenaltyBps 48 (finalCursor 48) = 0 \<and> calls_to_bell 48 \<le> 6"
  using bell_reaches_free_exit [of 48] by (simp add: MAX_FIGHTERS_def)

end
