(* ===== verification/Extract_Terms.thy ===== *)
theory Extract_Terms
  imports Chain_Clock
begin

text \<open>
  What the client says leaving costs: \<^verbatim>\<open>src/er-demo/src/v2/data/extractTerms.ts\<close>. The
  panel's quote (\<open>extractTerms\<close>) and the button's gate (\<open>extractEligibility\<close>) are
  compared with the extraction of \<open>Er_Sim\<close>, the operation the transaction runs. Of a
  \<open>LiveRound\<close> the record keeps the three fields the functions read. The steps on screen are a
  rational number, the basis points and bigint amounts are integers; a reason is a constructor
  where the source has a sentence.
\<close>

definition DECAY_PREVIEW_SECONDS :: "int list" where
  "DECAY_PREVIEW_SECONDS = [10, 20, 30]"

record terms_fighter =
  isYou :: bool
  tf_dead :: bool
  tf_hp :: int

record terms_input =
  ti_phase :: phase
  ti_fighters :: "terms_fighter list"
  stepsNow :: rat

record extract_terms =
  penaltyBps :: int
  freeAtStep :: int
  stepsToFree :: int
  secondsToFree :: rat
  decay :: "(int \<times> int) list"
  youKeep :: "int option"
  youForfeit :: "int option"

definition extractSplit :: "int \<Rightarrow> nat \<Rightarrow> rat \<Rightarrow> int \<times> int" where
  "extractSplit h fighterCount cursor = splitExtraction h fighterCount (max 0 \<lfloor>cursor\<rfloor>)"

definition terms_mine :: "terms_input \<Rightarrow> terms_fighter option" where
  "terms_mine inp =
     (if ti_phase inp = Fight
      then List.find (\<lambda>f. isYou f \<and> \<not> tf_dead f \<and> tf_hp f > 0) (ti_fighters inp)
      else None)"

definition terms_cursor :: "terms_input \<Rightarrow> int" where
  "terms_cursor inp = max 0 (min \<lfloor>stepsNow inp\<rfloor> (finalCursor (length (ti_fighters inp))))"

definition extractTerms :: "terms_input \<Rightarrow> extract_terms" where
  "extractTerms inp =
     (let n = length (ti_fighters inp);
          cursor = terms_cursor inp;
          rate = stepsPerSecond n;
          free = penaltyHorizonSteps n;
          toFree = max 0 (free - cursor);
          split = map_option (\<lambda>f. extractSplit (tf_hp f) n (of_int cursor)) (terms_mine inp)
      in \<lparr>penaltyBps = extractPenaltyBps n cursor,
          freeAtStep = free,
          stepsToFree = toFree,
          secondsToFree = (if rate > 0 then of_int toFree / of_int rate else 0),
          decay = (if ti_phase inp = Fight
                   then map (\<lambda>s. (s, extractPenaltyBps n (min (cursor + s * rate) (finalCursor n))))
                          DECAY_PREVIEW_SECONDS
                   else []),
          youKeep = map_option fst split,
          youForfeit = map_option snd split\<rparr>)"

datatype refusal = NotReady string | LoadingRound | OnlyDuringFight phase | NoFighterOfYours | AlreadyOut

record extract_eligibility =
  el_ok :: bool
  el_reason :: "refusal option"
  el_hp :: "int option"
  el_keep :: "int option"
  el_forfeit :: "int option"

definition eligible_none :: "refusal \<Rightarrow> extract_eligibility" where
  "eligible_none why =
     \<lparr>el_ok = False, el_reason = Some why, el_hp = None, el_keep = None, el_forfeit = None\<rparr>"

text \<open>An empty \<open>notReady\<close> string is falsy, like null.\<close>

definition extractEligibility :: "terms_input option \<Rightarrow> string option \<Rightarrow> extract_eligibility" where
  "extractEligibility live notReady =
     (case notReady of
        Some (c # cs) \<Rightarrow> eligible_none (NotReady (c # cs))
      | _ \<Rightarrow>
        (case live of
           None \<Rightarrow> eligible_none LoadingRound
         | Some l \<Rightarrow>
           if ti_phase l \<noteq> Fight then eligible_none (OnlyDuringFight (ti_phase l))
           else
             (case List.find isYou (ti_fighters l) of
                None \<Rightarrow> eligible_none NoFighterOfYours
              | Some mine \<Rightarrow>
                  if tf_dead mine \<or> tf_hp mine \<le> 0
                  then (eligible_none AlreadyOut)\<lparr>el_hp := Some (tf_hp mine)\<rparr>
                  else
                    let (keep, forfeit) =
                          extractSplit (tf_hp mine) (length (ti_fighters l)) (stepsNow l)
                    in \<lparr>el_ok = True, el_reason = None, el_hp = Some (tf_hp mine),
                        el_keep = Some keep, el_forfeit = Some forfeit\<rparr>)))"

subsection \<open>What the client shows of a round\<close>

definition view_fighter :: "string \<Rightarrow> er_fighter \<Rightarrow> terms_fighter" where
  "view_fighter w f = \<lparr>isYou = (wallet f = w), tf_dead = dead f, tf_hp = hp f\<rparr>"

definition fight_view :: "string \<Rightarrow> er_round \<Rightarrow> terms_input" where
  "fight_view w r = \<lparr>ti_phase = Fight, ti_fighters = map (view_fighter w) (fighters r),
     stepsNow = of_int (tickCount r)\<rparr>"

lemma find_map_index:
  "List.find P (map f xs) = map_option (\<lambda>i. f (xs ! i)) (find_index (\<lambda>x. P (f x)) xs)"
  by (induction xs) (auto simp: option.map_comp comp_def)

lemma terms_mine_view:
  "terms_mine (fight_view w r) = map_option (\<lambda>i. view_fighter w (fighters r ! i))
     (find_index (\<lambda>x. wallet x = w \<and> \<not> dead x \<and> hp x > 0) (fighters r))"
  by (simp add: terms_mine_def fight_view_def find_map_index view_fighter_def)

text \<open>Past the bell both cursors are past the horizon, so clamping changes no price.\<close>

lemma splitExtraction_clamp:
  assumes "2 \<le> n" and "n \<le> MAX_FIGHTERS" and "0 \<le> c"
  shows "splitExtraction t n (max 0 (min c (finalCursor n))) = splitExtraction t n c"
proof (cases "c \<le> finalCursor n")
  case True
  then show ?thesis using assms(3) by (simp add: max_def)
next
  case False
  have "0 \<le> finalCursor n" by (simp add: finalCursor_def stepsPerSecond_nonneg clock_constants)
  then have "extractPenaltyBps n (max 0 (min c (finalCursor n))) = extractPenaltyBps n c"
    using False extractPenaltyBps_free horizon_below_bell [OF assms(1,2)] by (simp add: max_def)
  then show ?thesis by (simp add: splitExtraction_def)
qed

lemma extractTerms_split:
  "youKeep (extractTerms inp) = map_option (\<lambda>f. fst (splitExtraction (tf_hp f)
      (length (ti_fighters inp)) (terms_cursor inp))) (terms_mine inp)"
  "youForfeit (extractTerms inp) = map_option (\<lambda>f. snd (splitExtraction (tf_hp f)
      (length (ti_fighters inp)) (terms_cursor inp))) (terms_mine inp)"
  by (simp_all add: extractTerms_def Let_def extractSplit_def option.map_comp comp_def terms_cursor_def)

text \<open>The panel quotes what the transaction pays. For every lineup a round can hold, the amounts
  shown to a player during a fight are exactly those \<open>extract\<close> banks and forfeits at that
  cursor, and nothing is quoted exactly when \<open>extract\<close> would refuse.\<close>

theorem quote_is_what_extract_pays:
  assumes "2 \<le> length (fighters r)" and "length (fighters r) \<le> MAX_FIGHTERS" and "0 \<le> tickCount r"
  shows "case er_extract r w of
      Inl e \<Rightarrow> youKeep (extractTerms (fight_view w r)) = None \<and>
               youForfeit (extractTerms (fight_view w r)) = None
    | Inr (r', taken, kept, penalty) \<Rightarrow>
               youKeep (extractTerms (fight_view w r)) = Some kept \<and>
               youForfeit (extractTerms (fight_view w r)) = Some penalty"
proof -
  have "splitExtraction t (length (ti_fighters (fight_view w r))) (terms_cursor (fight_view w r)) =
      splitExtraction t (length (fighters r)) (tickCount r)" for t
    using splitExtraction_clamp [OF assms] by (simp add: terms_cursor_def fight_view_def)
  then show ?thesis
    by (auto simp: er_extract_def Let_def extractTerms_split terms_mine_view view_fighter_def
        split: option.splits prod.splits)
qed

theorem quote_is_what_extract_pays_witness:
  "youKeep (extractTerms (fight_view ''ann'' duel)) = Some 4000 \<and>
   youForfeit (extractTerms (fight_view ''ann'' duel)) = Some 1000"
proof -
  have "\<exists>r'. er_extract duel ''ann'' = Inr (r', 5000, 4000, 1000)"
    by (simp add: er_extract_def duel_def Let_def splitExtraction_def extractPenaltyBps_def
        penaltyHorizonSteps_def clamp_def PENALTY_HORIZON_STEPS_def bigint_div_def er_constants)
  then show ?thesis
    using quote_is_what_extract_pays [of duel "''ann''"] by (auto simp: duel_def MAX_FIGHTERS_def)
qed

subsection \<open>The gate\<close>

lemma extractEligibility_fight:
  "extractEligibility (Some (fight_view w r)) None =
     (case find_index (\<lambda>x. wallet x = w) (fighters r) of
        None \<Rightarrow> eligible_none NoFighterOfYours
      | Some i \<Rightarrow>
          (let f = fighters r ! i in
           if dead f \<or> hp f \<le> 0 then (eligible_none AlreadyOut)\<lparr>el_hp := Some (hp f)\<rparr>
           else let (keep, forfeit) =
                  splitExtraction (hp f) (length (fighters r)) (max 0 (tickCount r))
                in \<lparr>el_ok = True, el_reason = None, el_hp = Some (hp f), el_keep = Some keep,
                    el_forfeit = Some forfeit\<rparr>))"
proof -
  have "List.find isYou (map (view_fighter w) (fighters r)) =
      map_option (\<lambda>i. view_fighter w (fighters r ! i)) (find_index (\<lambda>x. wallet x = w) (fighters r))"
    by (simp add: find_map_index view_fighter_def)
  then show ?thesis
    by (simp add: extractEligibility_def fight_view_def extractSplit_def view_fighter_def Let_def
        split: option.splits)
qed

lemma find_index_first:
  assumes "find_index P xs = Some i" and "P (xs ! i) \<Longrightarrow> Q (xs ! i)" and "\<And>x. Q x \<Longrightarrow> P x"
  shows "find_index Q xs = Some i"
  using assms
proof (induction xs arbitrary: i)
  case (Cons x xs)
  then show ?case by (cases "P x"; cases i) (auto split: if_splits)
qed simp

text \<open>The gate is sound. When the button is lit, the transaction lands, on the fighter the
  button describes and for the amounts it states.\<close>

theorem eligible_extract_lands:
  assumes "el_ok (extractEligibility (Some (fight_view w r)) None)" and "0 \<le> tickCount r"
  shows "\<exists>r' taken kept penalty. er_extract r w = Inr (r', taken, kept, penalty) \<and>
    extractEligibility (Some (fight_view w r)) None =
      \<lparr>el_ok = True, el_reason = None, el_hp = Some taken, el_keep = Some kept,
       el_forfeit = Some penalty\<rparr>"
proof -
  from assms(1) obtain i where i: "find_index (\<lambda>x. wallet x = w) (fighters r) = Some i"
    and alive: "\<not> dead (fighters r ! i)" "hp (fighters r ! i) > 0"
    by (auto simp: extractEligibility_fight eligible_none_def Let_def split: option.splits if_splits)
  have "find_index (\<lambda>x. wallet x = w \<and> \<not> dead x \<and> hp x > 0) (fighters r) = Some i"
    using alive by (intro find_index_first [OF i]) auto
  then show ?thesis
    using i alive assms(2)
    by (simp add: extractEligibility_fight er_extract_def Let_def split: prod.splits)
qed

theorem eligible_extract_lands_witness:
  "\<exists>r' taken kept penalty. er_extract duel ''ann'' = Inr (r', taken, kept, penalty)"
proof -
  have "el_ok (extractEligibility (Some (fight_view ''ann'' duel)) None)"
    by (simp add: extractEligibility_fight duel_def Let_def split: prod.splits)
  then show ?thesis
    using eligible_extract_lands [of "''ann''" duel] by (auto simp: duel_def)
qed

text \<open>A wallet with a fighter on each side, the first of them out.\<close>

definition two_sided :: er_round where
  "two_sided = \<lparr>seed = replicate 32 1,
     fighters = [\<lparr>wallet = ''ann'', side = Side0, dead = True, stake = 5000, hp = 0, banked = 0\<rparr>,
                 \<lparr>wallet = ''bob'', side = Side1, dead = False, stake = 900, hp = 900, banked = 5000\<rparr>,
                 \<lparr>wallet = ''ann'', side = Side1, dead = False, stake = 3000, hp = 3000, banked = 0\<rparr>],
     tickCount = 200, pot = 8900, penaltiesCollected = 0, feesCollected = 0, winner = None\<rparr>"

text \<open>The gate is not complete. It asks about the wallet's first fighter, the program about its
  first living one: there is a well-formed round in which the panel quotes a price and
  \<open>extract\<close> would pay it, while the gate keeps the button dark and says the fighter is out.
  In that refusal the hp is stated although there is nothing to split.\<close>

theorem gate_misses_second_fighter:
  "\<exists>r w. er_inv r \<and> (\<exists>r' taken kept penalty. er_extract r w = Inr (r', taken, kept, penalty) \<and> 0 < kept) \<and>
     youKeep (extractTerms (fight_view w r)) \<noteq> None \<and>
     extractEligibility (Some (fight_view w r)) None =
       \<lparr>el_ok = False, el_reason = Some AlreadyOut, el_hp = Some 0, el_keep = None, el_forfeit = None\<rparr>"
proof (intro exI conjI)
  show "er_inv two_sided"
    by (simp add: er_inv_def two_sided_def wf_fighter_def totalValue_def worth_def fighter_key_def
        MAX_FIGHTERS_def)
  show "er_extract two_sided ''ann'' = Inr (two_sided\<lparr>fighters := (fighters two_sided)
      [2 := (fighters two_sided ! 2)\<lparr>banked := 3000, hp := 0, dead := True\<rparr>]\<rparr>, 3000, 3000, 0)"
    by (simp add: er_extract_def two_sided_def Let_def splitExtraction_def extractPenaltyBps_def
        penaltyHorizonSteps_def clamp_def PENALTY_HORIZON_STEPS_def bigint_div_def er_constants
        numeral_2_eq_2)
  show "youKeep (extractTerms (fight_view ''ann'' two_sided)) \<noteq> None"
    by (simp add: extractTerms_split terms_mine_view two_sided_def)
  show "extractEligibility (Some (fight_view ''ann'' two_sided)) None =
      \<lparr>el_ok = False, el_reason = Some AlreadyOut, el_hp = Some 0, el_keep = None, el_forfeit = None\<rparr>"
    by (simp add: extractEligibility_fight two_sided_def eligible_none_def)
qed simp

end
