(* ===== verification/Js_Number.thy ===== *)
theory Js_Number
  imports Prelude
begin

text \<open>
  JavaScript numbers as far as the program looks at them. A \<open>number\<close> is a rational or one of
  the three non-finite values; arithmetic on the rationals is exact, so the rounding of IEEE doubles
  is outside the model (the quantities are seconds, small counts and amounts with at most nine
  decimals). Comparisons with \<open>NaN\<close> are false. \<open>js_Number\<close> is the conversion
  \<open>Number(text)\<close> the configuration relies on.
\<close>

datatype jsnum = Fin rat | PosInf | NegInf | NaN

fun js_isFinite :: "jsnum \<Rightarrow> bool" where
  "js_isFinite (Fin q) = True"
| "js_isFinite x = False"

fun js_less :: "jsnum \<Rightarrow> jsnum \<Rightarrow> bool" where
  "js_less (Fin a) (Fin b) = (a < b)"
| "js_less NegInf (Fin b) = True"
| "js_less NegInf PosInf = True"
| "js_less (Fin a) PosInf = True"
| "js_less x y = False"

fun js_le :: "jsnum \<Rightarrow> jsnum \<Rightarrow> bool" where
  "js_le NaN y = False"
| "js_le x NaN = False"
| "js_le x y = (\<not> js_less y x)"

definition is_whole :: "rat \<Rightarrow> bool" where
  "is_whole q \<longleftrightarrow> of_int \<lfloor>q\<rfloor> = q"

fun js_isInteger :: "jsnum \<Rightarrow> bool" where
  "js_isInteger (Fin q) = is_whole q"
| "js_isInteger x = False"

text \<open>\<open>Math.round\<close> rounds halves up.\<close>

definition math_round :: "rat \<Rightarrow> int" where
  "math_round q = \<lfloor>q + 1 / 2\<rfloor>"

lemma is_whole_of_int [simp]: "is_whole (of_int k)"
  by (simp add: is_whole_def)

lemma is_wholeD: "is_whole q \<Longrightarrow> q = of_int \<lfloor>q\<rfloor>"
  unfolding is_whole_def by (rule sym)

lemma math_round_of_int [simp]: "math_round (of_int k) = k"
  unfolding math_round_def by (simp add: floor_eq_iff)

lemma math_round_numeral [simp]: "math_round (numeral k) = numeral k"
  using math_round_of_int [of "numeral k"] by simp

lemma math_round_near: "\<bar>of_int (math_round q) - q\<bar> \<le> 1 / 2"
  unfolding math_round_def by linarith

fun js_add :: "jsnum \<Rightarrow> jsnum \<Rightarrow> jsnum" where
  "js_add (Fin a) (Fin b) = Fin (a + b)"
| "js_add NaN y = NaN"
| "js_add x NaN = NaN"
| "js_add PosInf NegInf = NaN"
| "js_add NegInf PosInf = NaN"
| "js_add PosInf y = PosInf"
| "js_add NegInf y = NegInf"
| "js_add x PosInf = PosInf"
| "js_add x NegInf = NegInf"

text \<open>Division by a positive whole number.\<close>

fun js_div_nat :: "jsnum \<Rightarrow> nat \<Rightarrow> jsnum" where
  "js_div_nat (Fin a) n = Fin (a / of_nat n)"
| "js_div_nat x n = x"

text \<open>A function on the finite values that passes the others through, as multiplying by a positive
  constant and rounding do.\<close>

fun js_lift :: "(rat \<Rightarrow> rat) \<Rightarrow> jsnum \<Rightarrow> jsnum" where
  "js_lift f (Fin q) = Fin (f q)"
| "js_lift f x = x"

lemma js_add_Fin_iff: "js_add x y = Fin c \<longleftrightarrow> (\<exists>a b. x = Fin a \<and> y = Fin b \<and> c = a + b)"
  by (cases "(x, y)" rule: js_add.cases) auto

lemma js_foldl_Fin:
  "foldl js_add (Fin z) xs = Fin c \<longleftrightarrow> (\<exists>qs. xs = map Fin qs \<and> c = z + sum_list qs)"
proof (induction xs arbitrary: z)
  case (Cons x xs)
  have stuck: "foldl js_add y xs \<noteq> Fin c" if "\<nexists>q. y = Fin q" for y
    using that
  proof (induction xs arbitrary: y)
    case (Cons w ws)
    have "\<nexists>q. js_add y w = Fin q" using Cons.prems by (auto simp: js_add_Fin_iff)
    then show ?case using Cons.IH by simp
  qed auto
  show ?case
  proof (cases x)
    case (Fin q)
    have "(\<exists>qs. Fin q # xs = map Fin qs \<and> c = z + sum_list qs) \<longleftrightarrow>
        (\<exists>qs. xs = map Fin qs \<and> c = z + q + sum_list qs)"
      by (auto simp: Cons_eq_map_conv add.assoc)
    then show ?thesis using Cons.IH [of "z + q"] Fin by simp
  qed (use stuck in \<open>auto simp: Cons_eq_map_conv\<close>)
qed auto

fun js_neg :: "jsnum \<Rightarrow> jsnum" where
  "js_neg (Fin q) = Fin (- q)"
| "js_neg PosInf = NegInf"
| "js_neg NegInf = PosInf"
| "js_neg NaN = NaN"

definition js_sub :: "jsnum \<Rightarrow> jsnum \<Rightarrow> jsnum" where
  "js_sub x y = js_add x (js_neg y)"

lemma js_sub_Fin [simp]: "js_sub (Fin a) (Fin b) = Fin (a - b)"
  by (simp add: js_sub_def)

lemma js_sub_Fin_iff: "js_sub x (Fin b) = Fin c \<longleftrightarrow> (\<exists>a. x = Fin a \<and> c = a - b)"
  by (cases x) (auto simp: js_sub_def)

fun js_sgn :: "jsnum \<Rightarrow> rat" where
  "js_sgn (Fin q) = sgn q"
| "js_sgn PosInf = 1"
| "js_sgn NegInf = -1"
| "js_sgn NaN = 0"

fun js_mul :: "jsnum \<Rightarrow> jsnum \<Rightarrow> jsnum" where
  "js_mul (Fin a) (Fin b) = Fin (a * b)"
| "js_mul x y =
     (if x = NaN \<or> y = NaN \<or> js_sgn x * js_sgn y = 0 then NaN
      else if js_sgn x * js_sgn y > 0 then PosInf else NegInf)"

text \<open>\<open>Math.min\<close> of two numbers, and \<open>Math.max(0, x)\<close>.\<close>

definition js_min :: "jsnum \<Rightarrow> jsnum \<Rightarrow> jsnum" where
  "js_min x y = (if x = NaN \<or> y = NaN then NaN else if js_less y x then y else x)"

definition js_max0 :: "jsnum \<Rightarrow> jsnum" where
  "js_max0 x = (if js_less x (Fin 0) then Fin 0 else x)"

lemma js_min_le:
  assumes "js_min x y = Fin c"
  shows "x = Fin a \<Longrightarrow> c \<le> a" and "y = Fin b \<Longrightarrow> c \<le> b"
  using assms by (cases x; cases y; auto simp: js_min_def split: if_splits)+

lemma js_min_attained: "js_min x y = Fin c \<Longrightarrow> x = Fin c \<or> y = Fin c"
  by (auto simp: js_min_def split: if_splits)

subsection \<open>Reading a number\<close>

definition js_space :: "char \<Rightarrow> bool" where
  "js_space c \<longleftrightarrow> c = CHR '' '' \<or> c = CHR 0x09 \<or> c = CHR 0x0A \<or> c = CHR 0x0B \<or> c = CHR 0x0C \<or> c = CHR 0x0D"

definition js_trim :: "string \<Rightarrow> string" where
  "js_trim s = rev (dropWhile js_space (rev (dropWhile js_space s)))"

definition digit_of :: "char \<Rightarrow> nat option" where
  "digit_of c = (let k = of_char c :: nat in
     if 48 \<le> k \<and> k \<le> 57 then Some (k - 48)
     else if 97 \<le> k \<and> k \<le> 102 then Some (k - 87)
     else if 65 \<le> k \<and> k \<le> 70 then Some (k - 55) else None)"

definition is_digit :: "nat \<Rightarrow> char \<Rightarrow> bool" where
  "is_digit base c \<longleftrightarrow> (case digit_of c of None \<Rightarrow> False | Some d \<Rightarrow> d < base)"

definition digits_val :: "nat \<Rightarrow> string \<Rightarrow> nat" where
  "digits_val base ds = foldl (\<lambda>a c. base * a + (case digit_of c of None \<Rightarrow> 0 | Some d \<Rightarrow> d)) 0 ds"

definition js_overflow :: rat where
  "js_overflow = 2 ^ 1024 - 2 ^ 970"

definition js_double :: "rat \<Rightarrow> jsnum" where
  "js_double q = (if js_overflow \<le> q then PosInf else Fin q)"

definition js_exponent :: "rat \<Rightarrow> string \<Rightarrow> jsnum" where
  "js_exponent mant cs =
     (let neg = (cs \<noteq> [] \<and> hd cs = CHR ''-'');
          ds = (if cs \<noteq> [] \<and> (hd cs = CHR ''-'' \<or> hd cs = CHR ''+'') then tl cs else cs)
      in if ds = [] \<or> \<not> list_all (is_digit 10) ds then NaN
         else if neg then Fin (mant / 10 ^ digits_val 10 ds)
         else js_double (mant * 10 ^ digits_val 10 ds))"

definition js_decimal :: "string \<Rightarrow> jsnum" where
  "js_decimal s =
     (if s = ''Infinity'' then PosInf
      else
        let ip = takeWhile (is_digit 10) s;
            r1 = dropWhile (is_digit 10) s;
            dot = (r1 \<noteq> [] \<and> hd r1 = CHR ''.'');
            fp = (if dot then takeWhile (is_digit 10) (tl r1) else []);
            r2 = (if dot then dropWhile (is_digit 10) (tl r1) else r1);
            mant = of_nat (digits_val 10 (ip @ fp)) / 10 ^ length fp
        in if ip @ fp = [] then NaN
           else case r2 of
               [] \<Rightarrow> js_double mant
             | c # cs \<Rightarrow> if c = CHR ''e'' \<or> c = CHR ''E'' then js_exponent mant cs else NaN)"

definition js_radix :: "nat \<Rightarrow> string \<Rightarrow> jsnum" where
  "js_radix base ds =
     (if ds = [] \<or> \<not> list_all (is_digit base) ds then NaN else js_double (of_nat (digits_val base ds)))"

definition js_Number :: "string \<Rightarrow> jsnum" where
  "js_Number raw =
     (case js_trim raw of
        [] \<Rightarrow> Fin 0
      | c # cs \<Rightarrow>
          if c = CHR ''-'' then js_neg (js_decimal cs)
          else if c = CHR ''+'' then js_decimal cs
          else if c = CHR ''0'' \<and> cs \<noteq> [] \<and> (hd cs = CHR ''x'' \<or> hd cs = CHR ''X'') then js_radix 16 (tl cs)
          else if c = CHR ''0'' \<and> cs \<noteq> [] \<and> (hd cs = CHR ''o'' \<or> hd cs = CHR ''O'') then js_radix 8 (tl cs)
          else if c = CHR ''0'' \<and> cs \<noteq> [] \<and> (hd cs = CHR ''b'' \<or> hd cs = CHR ''B'') then js_radix 2 (tl cs)
          else js_decimal (c # cs))"

text \<open>A text that begins like a command-line flag is no number.\<close>

lemma js_decimal_minus: "js_decimal (CHR ''-'' # cs) = NaN"
  by (simp add: js_decimal_def Let_def is_digit_def digit_of_def)

text \<open>\<open>s.startsWith(p)\<close>.\<close>

definition starts_with :: "string \<Rightarrow> string \<Rightarrow> bool" where
  "starts_with p s \<longleftrightarrow> take (length p) s = p"

subsection \<open>Decimal texts\<close>

text \<open>A whole number as \<open>String\<close> prints it, and \<open>padStart\<close> with zeros.\<close>

fun dec_digits :: "nat \<Rightarrow> string" where
  "dec_digits n = (if n < 10 then [char_of (48 + n)] else dec_digits (n div 10) @ [char_of (48 + n mod 10)])"

declare dec_digits.simps [simp del]

lemma digit_of_char: "d < 10 \<Longrightarrow> digit_of (char_of (48 + d)) = Some d"
  by (simp add: digit_of_def Let_def of_char_of)

lemma dec_digits_digits: "list_all (is_digit 10) (dec_digits n)"
proof (induction n rule: dec_digits.induct)
  case (1 n)
  have "is_digit 10 (char_of (48 + d))" if "d < 10" for d :: nat
    using that by (simp add: is_digit_def digit_of_char)
  then show ?case using 1 by (subst dec_digits.simps) simp
qed

lemma dec_digits_not_Nil: "dec_digits n \<noteq> []"
  by (subst dec_digits.simps) simp

lemma digits_val_snoc: "digits_val b (ds @ [c]) = b * digits_val b ds + (case digit_of c of None \<Rightarrow> 0 | Some d \<Rightarrow> d)"
  by (simp add: digits_val_def)

lemma digits_val_dec_digits: "digits_val 10 (dec_digits n) = n"
proof (induction n rule: dec_digits.induct)
  case (1 n)
  show ?case
  proof (cases "n < 10")
    case True
    then show ?thesis by (subst dec_digits.simps) (simp add: digits_val_def digit_of_char)
  next
    case False
    then show ?thesis using "1.IH" by (subst dec_digits.simps) (simp add: digits_val_snoc digit_of_char)
  qed
qed

lemma is_digit_plain:
  "is_digit 10 c \<Longrightarrow> \<not> js_space c \<and> c \<noteq> CHR ''-'' \<and> c \<noteq> CHR ''+'' \<and> c \<noteq> CHR ''x'' \<and> c \<noteq> CHR ''X'' \<and>
    c \<noteq> CHR ''o'' \<and> c \<noteq> CHR ''O'' \<and> c \<noteq> CHR ''b'' \<and> c \<noteq> CHR ''B'' \<and> c \<noteq> CHR ''I''"
  by (auto simp: is_digit_def digit_of_def js_space_def)

lemma js_trim_digits: "list_all (is_digit 10) ds \<Longrightarrow> js_trim ds = ds"
proof -
  assume ds: "list_all (is_digit 10) ds"
  have keep: "dropWhile js_space es = es" if "list_all (is_digit 10) es" for es
    using that by (cases es) (auto dest: is_digit_plain)
  show ?thesis using keep [OF ds] keep [of "rev ds"] ds by (simp add: js_trim_def)
qed

lemma js_decimal_digits:
  assumes "list_all (is_digit 10) ds" and "ds \<noteq> []"
  shows "js_decimal ds = js_double (of_nat (digits_val 10 ds))"
proof -
  have "ds \<noteq> ''Infinity''" using assms by (auto dest: is_digit_plain)
  have read: "takeWhile (is_digit 10) ds = ds" "dropWhile (is_digit 10) ds = []"
    using assms(1) by (simp_all add: list_all_iff)
  show ?thesis using assms(2) \<open>ds \<noteq> ''Infinity''\<close> by (simp add: js_decimal_def Let_def read)
qed

text \<open>A whole number of at most twenty-one digits is read back as it was printed.\<close>

lemma js_Number_dec_digits:
  assumes "n < 10 ^ 21"
  shows "js_Number (dec_digits n) = Fin (of_nat n)"
proof -
  let ?ds = "dec_digits n"
  note ds = dec_digits_digits [of n] dec_digits_not_Nil [of n]
  have "js_Number ?ds = js_decimal ?ds"
  proof (cases ?ds)
    case Nil
    then show ?thesis using ds(2) by simp
  next
    case (Cons c cs)
    then have c: "is_digit 10 c" "list_all (is_digit 10) cs" using ds(1) by simp_all
    have "cs \<noteq> [] \<Longrightarrow> is_digit 10 (hd cs)" using c(2) by (cases cs) auto
    then have x: "cs = [] \<or> hd cs \<noteq> CHR ''x'' \<and> hd cs \<noteq> CHR ''X'' \<and> hd cs \<noteq> CHR ''o'' \<and> hd cs \<noteq> CHR ''O'' \<and>
        hd cs \<noteq> CHR ''b'' \<and> hd cs \<noteq> CHR ''B''"
      using is_digit_plain by blast
    have "js_trim (c # cs) = c # cs" using js_trim_digits [OF ds(1)] Cons by simp
    then show ?thesis using is_digit_plain [OF c(1)] x by (auto simp: js_Number_def Cons)
  qed
  also have "\<dots> = js_double (of_nat n)" using js_decimal_digits [OF ds] by (simp add: digits_val_dec_digits)
  also have "\<dots> = Fin (of_nat n)"
  proof -
    have "(of_nat n :: rat) < of_nat (10 ^ 21)" using assms by (simp only: of_nat_less_iff)
    also have "\<dots> < js_overflow" by (simp add: js_overflow_def)
    finally show ?thesis by (simp only: js_double_def not_less [symmetric] simp_thms if_True if_False)
  qed
  finally show ?thesis .
qed

definition pad_left :: "nat \<Rightarrow> string \<Rightarrow> string" where
  "pad_left k s = replicate (k - length s) (CHR ''0'') @ s"

text \<open>\<open>toFixed(8)\<close> of a number below \<open>10^21\<close>: the nearest multiple of \<open>10^-8\<close>, the larger
  one when two are as near, the sign in front.\<close>

definition to_fixed8 :: "rat \<Rightarrow> string" where
  "to_fixed8 q =
     (let n = nat \<lfloor>\<bar>q\<bar> * 10 ^ 8 + 1 / 2\<rfloor>; t = pad_left 9 (dec_digits n); k = length t - 8
      in (if q < 0 then ''-'' else []) @ take k t @ ''.'' @ drop k t)"

end
