(* ===== verification/Keeper_Config.thy ===== *)
theory Keeper_Config
  imports Chain_Clock Js_Number
begin

text \<open>
  The keeper's configuration: \<^verbatim>\<open>src/er-demo/scripts/keeper/config.ts\<close>. The environment is a
  partial function from names to texts. Loading the module either throws at the first bad value
  or inconsistency, in source order, or yields the constants the policies read; \<open>boot\<close> is
  that load. The texts of the errors are reduced to the name they complain about. The command line
  parser is \<open>parseCliOptions\<close>.
\<close>

type_synonym environment = "string \<Rightarrow> string option"

datatype config_error =
    NotPositiveNumber string | NotBoolean string | NotWholeNumber string
  | Inconsistent string
  | RoundsNeedsNumber | Unrecognised string

definition CLOCK_SKEW_MARGIN_SECONDS :: int where "CLOCK_SKEW_MARGIN_SECONDS = 2"
definition MIN_FIGHTERS_TO_FIGHT :: nat where "MIN_FIGHTERS_TO_FIGHT = 2"
definition ERROR_BACKOFF_MAX_SECONDS :: rat where "ERROR_BACKOFF_MAX_SECONDS = 30"
definition HOUSE_WALLET_COUNT_MAX :: int where "HOUSE_WALLET_COUNT_MAX = 64"
definition LAMPORTS_PER_SOL :: rat where "LAMPORTS_PER_SOL = 1000000000"
definition ARENA_FEE_BPS :: int where "ARENA_FEE_BPS = 20"

lemmas config_constants = CLOCK_SKEW_MARGIN_SECONDS_def MIN_FIGHTERS_TO_FIGHT_def
  ERROR_BACKOFF_MAX_SECONDS_def HOUSE_WALLET_COUNT_MAX_def LAMPORTS_PER_SOL_def ARENA_FEE_BPS_def

definition envNumber :: "environment \<Rightarrow> string \<Rightarrow> rat \<Rightarrow> config_error + rat" where
  "envNumber env name fallback =
     (case env name of
        None \<Rightarrow> Inr fallback
      | Some [] \<Rightarrow> Inr fallback
      | Some raw \<Rightarrow>
          (case js_Number raw of
             Fin parsed \<Rightarrow> if parsed \<le> 0 then Inl (NotPositiveNumber name) else Inr parsed
           | _ \<Rightarrow> Inl (NotPositiveNumber name)))"

definition envFlag :: "environment \<Rightarrow> string \<Rightarrow> bool \<Rightarrow> config_error + bool" where
  "envFlag env name fallback =
     (case env name of
        None \<Rightarrow> Inr fallback
      | Some [] \<Rightarrow> Inr fallback
      | Some raw \<Rightarrow>
          if raw = ''1'' \<or> raw = ''true'' then Inr True
          else if raw = ''0'' \<or> raw = ''false'' then Inr False
          else Inl (NotBoolean name))"

definition envInt :: "environment \<Rightarrow> string \<Rightarrow> int \<Rightarrow> int \<Rightarrow> config_error + int" where
  "envInt env name fallback lo =
     (case env name of
        None \<Rightarrow> Inr fallback
      | Some [] \<Rightarrow> Inr fallback
      | Some raw \<Rightarrow>
          (case js_Number raw of
             Fin parsed \<Rightarrow>
               if \<not> is_whole parsed \<or> parsed < of_int lo then Inl (NotWholeNumber name)
               else Inr \<lfloor>parsed\<rfloor>
           | _ \<Rightarrow> Inl (NotWholeNumber name)))"

definition ensure :: "bool \<Rightarrow> string \<Rightarrow> config_error + unit" where
  "ensure good name = (if good then Inr () else Inl (Inconsistent name))"

subsection \<open>The module's constants\<close>

record lobby_config =
  RESULT_HOLD_SECONDS :: rat
  ABANDON_HOLD_SECONDS :: rat
  HOLD_OPEN_ENABLED_DEFAULT :: bool
  HOLD_OPEN_LOBBY_SECONDS :: rat
  REAL_PLAYER_GRACE_SECONDS :: rat
  HOUSE_ARRIVAL_TAIL_SECONDS :: rat

definition boot_lobby :: "environment \<Rightarrow> config_error + lobby_config" where
  "boot_lobby env =
     rbind (envNumber env ''KEEPER_RESULT_HOLD_SECONDS'' 12) (\<lambda>result.
     rbind (envNumber env ''KEEPER_ABANDON_HOLD_SECONDS'' 3) (\<lambda>abandon.
     rbind (envFlag env ''KEEPER_HOLD_OPEN'' False) (\<lambda>holdOpen.
     rbind (envNumber env ''KEEPER_HOLD_OPEN_LOBBY_SECONDS'' 3600) (\<lambda>hold.
     rbind (ensure (\<not> (hold < of_int MIN_LOBBY_SECONDS \<or> hold > of_int MAX_LOBBY_SECONDS))
              ''KEEPER_HOLD_OPEN_LOBBY_SECONDS'') (\<lambda>_.
     rbind (envNumber env ''KEEPER_REAL_PLAYER_GRACE_SECONDS'' 45) (\<lambda>grace.
     rbind (envNumber env ''KEEPER_HOUSE_ARRIVAL_TAIL_SECONDS'' 5) (\<lambda>tail.
     rbind (ensure (\<not> grace < of_int MIN_LOBBY_SECONDS) ''KEEPER_REAL_PLAYER_GRACE_SECONDS'') (\<lambda>_.
     rbind (ensure (\<not> grace > of_int MAX_LOBBY_SECONDS) ''KEEPER_REAL_PLAYER_GRACE_SECONDS'') (\<lambda>_.
     rbind (ensure (\<not> tail \<ge> grace) ''KEEPER_HOUSE_ARRIVAL_TAIL_SECONDS'') (\<lambda>_.
       Inr \<lparr>RESULT_HOLD_SECONDS = result, ABANDON_HOLD_SECONDS = abandon,
            HOLD_OPEN_ENABLED_DEFAULT = holdOpen,
            HOLD_OPEN_LOBBY_SECONDS = hold, REAL_PLAYER_GRACE_SECONDS = grace,
            HOUSE_ARRIVAL_TAIL_SECONDS = tail\<rparr>))))))))))"

record rent_config =
  DRAW_TIMEOUT_SECONDS :: rat
  HEARTBEAT_INTERVAL_SECONDS :: rat
  STALE_AFTER_SECONDS :: rat
  CLOSE_ROUNDS_ENABLED :: bool
  ROUND_RETENTION :: int
  CLOSE_RETRY_SECONDS :: rat
  HOUSE_ONLY_ROUNDS_ENABLED :: bool
  MAX_BURN_LAMPORTS_PER_ROUND :: int
  BURN_SAMPLE_ROUNDS :: int
  BURN_ARM_AFTER_ROUNDS :: int
  TREASURY_POLL_SECONDS :: rat
  SWEEP_GAP_STOP_ROUNDS :: int
  STRANDED_ALLOWANCE_ROUNDS :: int

definition boot_rent :: "environment \<Rightarrow> config_error + rent_config" where
  "boot_rent env =
     rbind (envNumber env ''KEEPER_DRAW_TIMEOUT_SECONDS'' 90) (\<lambda>draw.
     rbind (envNumber env ''KEEPER_HEARTBEAT_INTERVAL_SECONDS'' 2) (\<lambda>beat.
     rbind (envNumber env ''KEEPER_STALE_AFTER_SECONDS'' 15) (\<lambda>stale.
     rbind (envFlag env ''KEEPER_CLOSE_ROUNDS'' True) (\<lambda>closeRounds.
     rbind (envNumber env ''KEEPER_ROUND_RETENTION'' (of_nat MIN_RETAINED_ROUNDS)) (\<lambda>ret.
     rbind (ensure (\<not> (\<not> is_whole ret \<or> ret < of_nat MIN_RETAINED_ROUNDS)) ''KEEPER_ROUND_RETENTION'') (\<lambda>_.
     rbind (envNumber env ''KEEPER_CLOSE_RETRY_SECONDS'' 30) (\<lambda>closeRetry.
     rbind (envFlag env ''KEEPER_HOUSE_ONLY_ROUNDS'' False) (\<lambda>houseOnly.
     rbind (envNumber env ''KEEPER_MAX_BURN_SOL_PER_ROUND'' (5 / 1000)) (\<lambda>burn.
     let sample = ret; arm = 2 * ret + 5 in
     rbind (ensure (\<not> arm - sample < ret) ''BURN_ARM_AFTER_ROUNDS'') (\<lambda>_.
     rbind (envNumber env ''KEEPER_TREASURY_POLL_SECONDS'' 30) (\<lambda>poll.
     rbind (envNumber env ''KEEPER_SWEEP_GAP_STOP_ROUNDS'' 25) (\<lambda>gap.
     rbind (ensure (\<not> (\<not> is_whole gap \<or> gap \<le> ret)) ''KEEPER_SWEEP_GAP_STOP_ROUNDS'') (\<lambda>_.
     rbind (envNumber env ''KEEPER_STRANDED_ALLOWANCE_ROUNDS'' 25) (\<lambda>allow.
     rbind (ensure (\<not> (\<not> is_whole allow \<or> allow < 0)) ''KEEPER_STRANDED_ALLOWANCE_ROUNDS'') (\<lambda>_.
       Inr \<lparr>DRAW_TIMEOUT_SECONDS = draw, HEARTBEAT_INTERVAL_SECONDS = beat,
            STALE_AFTER_SECONDS = stale, CLOSE_ROUNDS_ENABLED = closeRounds,
            ROUND_RETENTION = \<lfloor>ret\<rfloor>, CLOSE_RETRY_SECONDS = closeRetry,
            HOUSE_ONLY_ROUNDS_ENABLED = houseOnly,
            MAX_BURN_LAMPORTS_PER_ROUND = math_round (burn * LAMPORTS_PER_SOL),
            BURN_SAMPLE_ROUNDS = \<lfloor>sample\<rfloor>, BURN_ARM_AFTER_ROUNDS = \<lfloor>arm\<rfloor>,
            TREASURY_POLL_SECONDS = poll,
            SWEEP_GAP_STOP_ROUNDS = \<lfloor>gap\<rfloor>, STRANDED_ALLOWANCE_ROUNDS = \<lfloor>allow\<rfloor>\<rparr>)))))))))))))))"

definition DEFAULT_HTTP_PORT :: int where "DEFAULT_HTTP_PORT = 8080"

definition envPort :: "environment \<Rightarrow> config_error + int" where
  "envPort env =
     (case env ''KEEPER_HTTP_PORT'' of
        None \<Rightarrow> Inr DEFAULT_HTTP_PORT
      | Some [] \<Rightarrow> Inr DEFAULT_HTTP_PORT
      | Some raw \<Rightarrow>
          (case js_Number raw of
             Fin parsed \<Rightarrow>
               if \<not> is_whole parsed \<or> parsed < 1 \<or> parsed > 65535
               then Inl (NotWholeNumber ''KEEPER_HTTP_PORT'') else Inr \<lfloor>parsed\<rfloor>
           | _ \<Rightarrow> Inl (NotWholeNumber ''KEEPER_HTTP_PORT'')))"

record loop_config =
  MIN_BALANCE_LAMPORTS :: int
  HTTP_PORT :: int
  LOOP_INTERVAL_SECONDS :: rat
  LOOP_STALL_PUBLISH_SECONDS :: rat
  LOOP_STALL_EXIT_SECONDS :: rat
  CLOCK_RESYNC_SECONDS :: rat

definition boot_loop :: "environment \<Rightarrow> config_error + loop_config" where
  "boot_loop env =
     rbind (envNumber env ''KEEPER_MIN_BALANCE_SOL'' (6 / 10)) (\<lambda>minSol.
     rbind (envPort env) (\<lambda>port.
     rbind (envNumber env ''KEEPER_LOOP_INTERVAL_SECONDS'' 1) (\<lambda>every.
     rbind (envNumber env ''KEEPER_LOOP_STALL_PUBLISH_SECONDS'' 300) (\<lambda>pub.
     rbind (envNumber env ''KEEPER_LOOP_STALL_EXIT_SECONDS'' 600) (\<lambda>ex.
     rbind (ensure (\<not> ex \<le> pub) ''KEEPER_LOOP_STALL_EXIT_SECONDS'') (\<lambda>_.
     rbind (ensure (\<not> pub \<le> ERROR_BACKOFF_MAX_SECONDS) ''KEEPER_LOOP_STALL_PUBLISH_SECONDS'') (\<lambda>_.
     rbind (envNumber env ''KEEPER_CLOCK_RESYNC_SECONDS'' 60) (\<lambda>resync.
       Inr \<lparr>MIN_BALANCE_LAMPORTS = math_round (minSol * LAMPORTS_PER_SOL), HTTP_PORT = port,
            LOOP_INTERVAL_SECONDS = every,
            LOOP_STALL_PUBLISH_SECONDS = pub, LOOP_STALL_EXIT_SECONDS = ex,
            CLOCK_RESYNC_SECONDS = resync\<rparr>))))))))"

record house_config =
  HOUSE_WALLET_COUNT :: int
  HOUSE_BOARD_TARGET :: int
  HOUSE_DISPLACEMENT :: int
  HOUSE_STAKE_MIN_USD :: int
  HOUSE_STAKE_MAX_USD :: int

definition PEAK_HOUSE_FIGHTERS :: "int \<Rightarrow> int \<Rightarrow> int" where
  "PEAK_HOUSE_FIGHTERS target displacement =
     max (int MIN_FIGHTERS_TO_FIGHT) (target - displacement)"

definition boot_house :: "environment \<Rightarrow> config_error + house_config" where
  "boot_house env =
     rbind (envInt env ''KEEPER_HOUSE_WALLET_COUNT'' 10 2) (\<lambda>wallets.
     rbind (ensure (\<not> wallets > HOUSE_WALLET_COUNT_MAX) ''KEEPER_HOUSE_WALLET_COUNT'') (\<lambda>_.
     rbind (envInt env ''KEEPER_HOUSE_BOARD_TARGET'' 10 1) (\<lambda>target.
     rbind (envInt env ''KEEPER_HOUSE_DISPLACEMENT'' 1 0) (\<lambda>disp.
     rbind (envInt env ''KEEPER_HOUSE_STAKE_MIN_USD'' 5 1) (\<lambda>lo.
     rbind (envInt env ''KEEPER_HOUSE_STAKE_MAX_USD'' 20 1) (\<lambda>hi.
     rbind (ensure (\<not> lo > hi) ''KEEPER_HOUSE_STAKE_MIN_USD'') (\<lambda>_.
     rbind (ensure (\<not> PEAK_HOUSE_FIGHTERS target disp > wallets) ''KEEPER_HOUSE_BOARD_TARGET'') (\<lambda>_.
       Inr \<lparr>HOUSE_WALLET_COUNT = wallets, HOUSE_BOARD_TARGET = target, HOUSE_DISPLACEMENT = disp,
            HOUSE_STAKE_MIN_USD = lo, HOUSE_STAKE_MAX_USD = hi\<rparr>))))))))"

definition boot_margin :: "lobby_config \<Rightarrow> config_error + unit" where
  "boot_margin lc =
     ensure (\<not> HOUSE_ARRIVAL_TAIL_SECONDS lc \<le> of_int CLOCK_SKEW_MARGIN_SECONDS)
       ''KEEPER_HOUSE_ARRIVAL_TAIL_SECONDS''"

definition REAL_SEATS_RESERVED :: "lobby_config \<Rightarrow> int" where
  "REAL_SEATS_RESERVED lc =
     max 4 \<lceil>4 * REAL_PLAYER_GRACE_SECONDS lc / of_int MIN_LOBBY_SECONDS\<rceil>"

definition boot_retired :: "environment \<Rightarrow> config_error + unit" where
  "boot_retired env =
     (case env ''KEEPER_HOUSE_FILL_LEAD_SECONDS'' of
        Some (c # cs) \<Rightarrow> Inl (Inconsistent ''KEEPER_HOUSE_FILL_LEAD_SECONDS'')
      | _ \<Rightarrow> Inr ())"

text \<open>The float of a house wallet: below the minimum it is refilled to the target.\<close>

definition boot_float :: "environment \<Rightarrow> config_error + rat \<times> rat" where
  "boot_float env =
     rbind (envNumber env ''KEEPER_HOUSE_WALLET_MIN_SOL'' (2 / 1000)) (\<lambda>lo.
     rbind (envNumber env ''KEEPER_HOUSE_WALLET_TARGET_SOL'' (1 / 100)) (\<lambda>target.
       Inr (lo, target)))"

record keeper_config =
  lobby_c :: lobby_config
  rent_c :: rent_config
  loop_c :: loop_config
  house_c :: house_config
  float_c :: "rat \<times> rat"

definition boot :: "environment \<Rightarrow> config_error + keeper_config" where
  "boot env =
     rbind (boot_lobby env) (\<lambda>lc.
     rbind (boot_rent env) (\<lambda>rc.
     rbind (boot_loop env) (\<lambda>oc.
     rbind (boot_margin lc) (\<lambda>_.
     rbind (boot_house env) (\<lambda>hc.
     rbind (boot_retired env) (\<lambda>_.
     rbind (boot_float env) (\<lambda>fc.
       Inr \<lparr>lobby_c = lc, rent_c = rc, loop_c = oc, house_c = hc, float_c = fc\<rparr>)))))))"

subsection \<open>The command line\<close>

record cli_options =
  cli_rounds :: "int option"
  dryRun :: bool
  holdOpen :: bool
  closeRounds :: bool
  houseOnlyRounds :: bool

definition cli_defaults :: "keeper_config \<Rightarrow> cli_options" where
  "cli_defaults c =
     \<lparr>cli_rounds = None, dryRun = False, holdOpen = HOLD_OPEN_ENABLED_DEFAULT (lobby_c c),
      closeRounds = CLOSE_ROUNDS_ENABLED (rent_c c),
      houseOnlyRounds = HOUSE_ONLY_ROUNDS_ENABLED (rent_c c)\<rparr>"

definition parse_rounds :: "string \<Rightarrow> config_error + int" where
  "parse_rounds raw =
     (case js_Number raw of
        Fin parsed \<Rightarrow> if \<not> is_whole parsed \<or> parsed \<le> 0 then Inl RoundsNeedsNumber else Inr \<lfloor>parsed\<rfloor>
      | _ \<Rightarrow> Inl RoundsNeedsNumber)"

text \<open>The loop over \<open>argv\<close>; \<open>--rounds\<close> consumes the word after it.\<close>

fun parse_args :: "cli_options \<Rightarrow> string list \<Rightarrow> config_error + cli_options" where
  "parse_args opts [] = Inr opts"
| "parse_args opts (arg # rest) =
     (if arg = ''--dry-run'' then parse_args (opts\<lparr>dryRun := True\<rparr>) rest
      else if arg = ''--no-close-rounds'' then parse_args (opts\<lparr>closeRounds := False\<rparr>) rest
      else if arg = ''--hold-open'' then parse_args (opts\<lparr>holdOpen := True\<rparr>) rest
      else if arg = ''--house-only-rounds'' then parse_args (opts\<lparr>houseOnlyRounds := True\<rparr>) rest
      else if starts_with ''--rounds='' arg then
        rbind (parse_rounds (drop (length ''--rounds='') arg)) (\<lambda>n.
          parse_args (opts\<lparr>cli_rounds := Some n\<rparr>) rest)
      else if arg = ''--rounds'' then
        (case rest of
           [] \<Rightarrow> Inl RoundsNeedsNumber
         | raw # rest' \<Rightarrow> rbind (parse_rounds raw) (\<lambda>n.
             parse_args (opts\<lparr>cli_rounds := Some n\<rparr>) rest'))
      else Inl (Unrecognised arg))"

definition parseCliOptions :: "keeper_config \<Rightarrow> string list \<Rightarrow> config_error + cli_options" where
  "parseCliOptions c argv = parse_args (cli_defaults c) argv"

subsection \<open>What a booted keeper can rely on\<close>

lemma ensure_Inr_iff [simp]: "ensure good name = Inr u \<longleftrightarrow> good"
  by (simp add: ensure_def)

lemma envNumber_pos: "envNumber env name fb = Inr x \<Longrightarrow> 0 < fb \<Longrightarrow> 0 < x"
  by (auto simp: envNumber_def split: option.splits list.splits jsnum.splits if_splits)

lemma envInt_ge: "envInt env name fb lo = Inr x \<Longrightarrow> lo \<le> fb \<Longrightarrow> lo \<le> x"
  by (auto simp: envInt_def is_whole_def le_floor_iff
      split: option.splits list.splits jsnum.splits if_splits)

lemma whole_less_floor: "is_whole a \<Longrightarrow> a < b \<Longrightarrow> \<lfloor>a\<rfloor> < \<lfloor>b\<rfloor> \<or> \<not> is_whole b"
  using is_wholeD [of a] is_wholeD [of b] by (metis of_int_less_iff)

lemma boot_lobby_facts:
  assumes "boot_lobby env = Inr c"
  shows "of_int MIN_LOBBY_SECONDS \<le> HOLD_OPEN_LOBBY_SECONDS c"
    and "HOLD_OPEN_LOBBY_SECONDS c \<le> of_int MAX_LOBBY_SECONDS"
    and "of_int MIN_LOBBY_SECONDS \<le> REAL_PLAYER_GRACE_SECONDS c"
    and "REAL_PLAYER_GRACE_SECONDS c \<le> of_int MAX_LOBBY_SECONDS"
    and "HOUSE_ARRIVAL_TAIL_SECONDS c < REAL_PLAYER_GRACE_SECONDS c"
  using assms by (auto simp: boot_lobby_def rbind_Inr_iff not_less not_le)

lemma boot_rent_facts:
  assumes "boot_rent env = Inr c"
  shows "int MIN_RETAINED_ROUNDS \<le> ROUND_RETENTION c"
    and "BURN_SAMPLE_ROUNDS c = ROUND_RETENTION c"
    and "BURN_ARM_AFTER_ROUNDS c = 2 * ROUND_RETENTION c + 5"
    and "ROUND_RETENTION c < SWEEP_GAP_STOP_ROUNDS c"
    and "1 \<le> STRANDED_ALLOWANCE_ROUNDS c"
proof -
  from assms obtain ret gap allow where
      whole: "is_whole ret" "is_whole gap" "is_whole allow"
    and ord: "of_nat MIN_RETAINED_ROUNDS \<le> ret" "ret < gap"
    and al: "envNumber env ''KEEPER_STRANDED_ALLOWANCE_ROUNDS'' 25 = Inr allow"
    and c: "ROUND_RETENTION c = \<lfloor>ret\<rfloor>" "BURN_SAMPLE_ROUNDS c = \<lfloor>ret\<rfloor>"
      "BURN_ARM_AFTER_ROUNDS c = \<lfloor>2 * ret + 5\<rfloor>" "SWEEP_GAP_STOP_ROUNDS c = \<lfloor>gap\<rfloor>"
      "STRANDED_ALLOWANCE_ROUNDS c = \<lfloor>allow\<rfloor>"
    by (auto simp: boot_rent_def rbind_Inr_iff not_less not_le Let_def)
  obtain r g a where i: "ret = of_int r" "gap = of_int g" "allow = of_int a"
    using whole by (auto dest: is_wholeD)
  have "2 * ret + 5 = of_int (2 * r + 5)" by (simp add: i)
  then have arm: "\<lfloor>2 * ret + 5\<rfloor> = 2 * r + 5" by (metis floor_of_int)
  have "0 < allow" using envNumber_pos [OF al] by simp
  then show "1 \<le> STRANDED_ALLOWANCE_ROUNDS c" using c i by simp
  show "int MIN_RETAINED_ROUNDS \<le> ROUND_RETENTION c"
    using ord(1) by (simp add: c(1) le_floor_iff)
  show "BURN_SAMPLE_ROUNDS c = ROUND_RETENTION c" using c(1,2) by simp
  show "ROUND_RETENTION c < SWEEP_GAP_STOP_ROUNDS c" using c(1,4) i ord(2) by simp
  have "BURN_ARM_AFTER_ROUNDS c = 2 * r + 5" using c(3) arm by (rule trans)
  then show "BURN_ARM_AFTER_ROUNDS c = 2 * ROUND_RETENTION c + 5" using c(1) i(1) by simp
qed

lemma boot_loop_facts:
  assumes "boot_loop env = Inr c"
  shows "ERROR_BACKOFF_MAX_SECONDS < LOOP_STALL_PUBLISH_SECONDS c"
    and "LOOP_STALL_PUBLISH_SECONDS c < LOOP_STALL_EXIT_SECONDS c"
  using assms by (auto simp: boot_loop_def rbind_Inr_iff not_less not_le)

lemma boot_house_facts:
  assumes "boot_house env = Inr c"
  shows "2 \<le> HOUSE_WALLET_COUNT c" and "HOUSE_WALLET_COUNT c \<le> 64"
    and "1 \<le> HOUSE_BOARD_TARGET c" and "0 \<le> HOUSE_DISPLACEMENT c"
    and "1 \<le> HOUSE_STAKE_MIN_USD c" and "HOUSE_STAKE_MIN_USD c \<le> HOUSE_STAKE_MAX_USD c"
    and "HOUSE_BOARD_TARGET c - HOUSE_DISPLACEMENT c \<le> HOUSE_WALLET_COUNT c"
  using assms
  by (auto simp: boot_house_def rbind_Inr_iff not_less not_le PEAK_HOUSE_FIGHTERS_def
      config_constants dest!: envInt_ge)

lemma bootE:
  assumes "boot env = Inr c"
  shows "boot_lobby env = Inr (lobby_c c)" and "boot_rent env = Inr (rent_c c)"
    and "boot_loop env = Inr (loop_c c)" and "boot_house env = Inr (house_c c)"
    and "of_int CLOCK_SKEW_MARGIN_SECONDS < HOUSE_ARRIVAL_TAIL_SECONDS (lobby_c c)"
  using assms by (auto simp: boot_def boot_margin_def rbind_Inr_iff not_le)

text \<open>A keeper that boots is consistent. Whatever the environment holds, the load either throws or
  yields constants in which the entry window is longer than its tail and the tail longer than the
  clock margin, the burn brake averages only over rounds whose rent was due, the sweep stop lies
  beyond the retention boundary, the stall exit comes after the stall notice, and the house has a
  wallet for every fighter its policy can ask for once a player is in.\<close>

theorem boot_consistent:
  assumes "boot env = Inr c"
  shows "of_int CLOCK_SKEW_MARGIN_SECONDS < HOUSE_ARRIVAL_TAIL_SECONDS (lobby_c c) \<and>
    HOUSE_ARRIVAL_TAIL_SECONDS (lobby_c c) < REAL_PLAYER_GRACE_SECONDS (lobby_c c) \<and>
    REAL_PLAYER_GRACE_SECONDS (lobby_c c) \<le> of_int MAX_LOBBY_SECONDS \<and>
    int MIN_RETAINED_ROUNDS \<le> ROUND_RETENTION (rent_c c) \<and>
    ROUND_RETENTION (rent_c c) \<le> BURN_ARM_AFTER_ROUNDS (rent_c c) - BURN_SAMPLE_ROUNDS (rent_c c) \<and>
    ROUND_RETENTION (rent_c c) < SWEEP_GAP_STOP_ROUNDS (rent_c c) \<and>
    ERROR_BACKOFF_MAX_SECONDS < LOOP_STALL_PUBLISH_SECONDS (loop_c c) \<and>
    LOOP_STALL_PUBLISH_SECONDS (loop_c c) < LOOP_STALL_EXIT_SECONDS (loop_c c) \<and>
    HOUSE_STAKE_MIN_USD (house_c c) \<le> HOUSE_STAKE_MAX_USD (house_c c) \<and>
    HOUSE_BOARD_TARGET (house_c c) - HOUSE_DISPLACEMENT (house_c c) \<le> HOUSE_WALLET_COUNT (house_c c)"
  using bootE(5) [OF assms] boot_lobby_facts [OF bootE(1) [OF assms]]
    boot_rent_facts [OF bootE(2) [OF assms]] boot_loop_facts [OF bootE(3) [OF assms]]
    boot_house_facts [OF bootE(4) [OF assms]]
  by (simp add: MIN_RETAINED_ROUNDS_def)

definition default_config :: keeper_config where
  "default_config =
     \<lparr>lobby_c = \<lparr>RESULT_HOLD_SECONDS = 12, ABANDON_HOLD_SECONDS = 3,
         HOLD_OPEN_ENABLED_DEFAULT = False, HOLD_OPEN_LOBBY_SECONDS = 3600,
         REAL_PLAYER_GRACE_SECONDS = 45, HOUSE_ARRIVAL_TAIL_SECONDS = 5\<rparr>,
      rent_c = \<lparr>DRAW_TIMEOUT_SECONDS = 90, HEARTBEAT_INTERVAL_SECONDS = 2,
         STALE_AFTER_SECONDS = 15, CLOSE_ROUNDS_ENABLED = True, ROUND_RETENTION = 20,
         CLOSE_RETRY_SECONDS = 30, HOUSE_ONLY_ROUNDS_ENABLED = False,
         MAX_BURN_LAMPORTS_PER_ROUND = 5000000, BURN_SAMPLE_ROUNDS = 20,
         BURN_ARM_AFTER_ROUNDS = 45, TREASURY_POLL_SECONDS = 30, SWEEP_GAP_STOP_ROUNDS = 25,
         STRANDED_ALLOWANCE_ROUNDS = 25\<rparr>,
      loop_c = \<lparr>MIN_BALANCE_LAMPORTS = 600000000, HTTP_PORT = 8080, LOOP_INTERVAL_SECONDS = 1,
         LOOP_STALL_PUBLISH_SECONDS = 300, LOOP_STALL_EXIT_SECONDS = 600,
         CLOCK_RESYNC_SECONDS = 60\<rparr>,
      house_c = \<lparr>HOUSE_WALLET_COUNT = 10, HOUSE_BOARD_TARGET = 10, HOUSE_DISPLACEMENT = 1,
         HOUSE_STAKE_MIN_USD = 5, HOUSE_STAKE_MAX_USD = 20\<rparr>,
      float_c = (2 / 1000, 1 / 100)\<rparr>"

lemma env_unset:
  assumes "env name = None"
  shows "envNumber env name fb = Inr fb" "envFlag env name b = Inr b" "envInt env name k lo = Inr k"
  using assms by (simp_all add: envNumber_def envFlag_def envInt_def)

lemma boot_default: "boot (\<lambda>_. None) = Inr default_config"
  by (simp add: boot_def boot_lobby_def boot_rent_def boot_loop_def boot_margin_def boot_house_def
      boot_retired_def boot_float_def env_unset ensure_def envPort_def config_constants
      clock_constants is_whole_def PEAK_HOUSE_FIGHTERS_def DEFAULT_HTTP_PORT_def
      default_config_def)

theorem boot_consistent_witness:
  "ROUND_RETENTION (rent_c default_config) < SWEEP_GAP_STOP_ROUNDS (rent_c default_config)"
  using boot_consistent [OF boot_default] by simp

text \<open>The allowance cannot be turned off. The refusal of a bad value tells the operator to set 0,
  but the reader of the variable accepts only positive numbers: with 0 the keeper does not start, and
  every keeper that starts excuses at least one round.\<close>

theorem allowance_zero_refused:
  "boot (\<lambda>n. if n = ''KEEPER_STRANDED_ALLOWANCE_ROUNDS'' then Some ''0'' else None) =
     Inl (NotPositiveNumber ''KEEPER_STRANDED_ALLOWANCE_ROUNDS'') \<and>
   (\<forall>env c. boot env = Inr c \<longrightarrow> 1 \<le> STRANDED_ALLOWANCE_ROUNDS (rent_c c))"
proof -
  have zero: "js_Number ''0'' = Fin 0"
    by (simp add: js_Number_def js_trim_def js_space_def js_decimal_def is_digit_def digit_of_def
        digits_val_def js_double_def js_overflow_def Let_def)
  show ?thesis
    using boot_rent_facts(5) [OF bootE(2)]
    by (auto simp: boot_def boot_lobby_def boot_rent_def envNumber_def envFlag_def ensure_def zero
        clock_constants is_whole_def)
qed

theorem allowance_zero_refused_witness: "1 \<le> STRANDED_ALLOWANCE_ROUNDS (rent_c default_config)"
  using allowance_zero_refused boot_default by blast

subsection \<open>What the command line sets\<close>

lemma parse_rounds_pos: "parse_rounds raw = Inr n \<Longrightarrow> 0 < n"
  by (auto simp: parse_rounds_def is_whole_def not_le split: jsnum.splits if_splits)

lemma parse_rounds_flag: "parse_rounds (CHR ''-'' # CHR ''-'' # cs) = Inl RoundsNeedsNumber"
proof -
  obtain t where t: "js_trim (CHR ''-'' # CHR ''-'' # cs) = CHR ''-'' # CHR ''-'' # t"
  proof -
    have "dropWhile js_space (rev cs @ [CHR ''-'', CHR ''-'']) =
        dropWhile js_space (rev cs) @ [CHR ''-'', CHR ''-'']"
      by (induction "rev cs") (auto simp: js_space_def dropWhile_append)
    then show thesis using that by (simp add: js_trim_def js_space_def)
  qed
  have "js_decimal (CHR ''-'' # t) = NaN" by (rule js_decimal_minus)
  then show ?thesis by (simp add: parse_rounds_def js_Number_def t)
qed

text \<open>What a parse leaves of each option. A flag that follows \<open>--rounds\<close> is not lost: it is no
  number, so the parse throws.\<close>

lemma parse_args_flags:
  "parse_args opts argv = Inr o' \<Longrightarrow>
     dryRun o' = (dryRun opts \<or> ''--dry-run'' \<in> set argv) \<and>
     holdOpen o' = (holdOpen opts \<or> ''--hold-open'' \<in> set argv) \<and>
     houseOnlyRounds o' = (houseOnlyRounds opts \<or> ''--house-only-rounds'' \<in> set argv) \<and>
     closeRounds o' = (closeRounds opts \<and> ''--no-close-rounds'' \<notin> set argv)"
proof (induction opts argv rule: parse_args.induct)
  case (2 opts arg rest)
  show ?case
  proof (cases "arg = ''--rounds''")
    case True
    with 2(7) obtain raw rest' n where r: "rest = raw # rest'" "parse_rounds raw = Inr n"
      "parse_args (opts\<lparr>cli_rounds := Some n\<rparr>) rest' = Inr o'"
      by (auto simp: starts_with_def rbind_Inr_iff split: list.splits)
    then have "raw \<noteq> CHR ''-'' # CHR ''-'' # cs" for cs using parse_rounds_flag by auto
    with 2(6) True r show ?thesis by (auto simp: starts_with_def)
  next
    case False
    with 2 show ?thesis
      by (auto simp: rbind_Inr_iff starts_with_def split: if_splits)
  qed
qed simp

lemma parse_args_Cons:
  assumes "parse_args opts (arg # rest) = Inr o'"
  obtains (flag) opts' where "parse_args opts' rest = Inr o'" and "cli_rounds opts' = cli_rounds opts"
    | (count) n rest' where "parse_args (opts\<lparr>cli_rounds := Some n\<rparr>) rest' = Inr o'" and "0 < n"
        and "length rest' \<le> length rest"
proof (cases "starts_with ''--rounds='' arg \<or> arg = ''--rounds''")
  case False
  with assms show thesis by (auto split: if_splits intro: flag)
next
  case True
  then have no: "arg \<noteq> ''--dry-run''" "arg \<noteq> ''--no-close-rounds''" "arg \<noteq> ''--hold-open''"
    "arg \<noteq> ''--house-only-rounds''"
    by (auto simp: starts_with_def)
  show thesis
  proof (cases "starts_with ''--rounds='' arg")
    case True
    with assms no obtain n where "parse_rounds (drop (length ''--rounds='') arg) = Inr n"
      "parse_args (opts\<lparr>cli_rounds := Some n\<rparr>) rest = Inr o'"
      unfolding parse_args.simps by (auto simp: rbind_Inr_iff)
    then show thesis using count parse_rounds_pos by blast
  next
    case no_eq: False
    with True assms no obtain raw rest' n where "rest = raw # rest'" "parse_rounds raw = Inr n"
      "parse_args (opts\<lparr>cli_rounds := Some n\<rparr>) rest' = Inr o'"
      unfolding parse_args.simps by (auto simp: rbind_Inr_iff split: list.splits)
    then show thesis using count [of n rest'] parse_rounds_pos by simp
  qed
qed

lemma parse_args_rounds:
  "parse_args opts argv = Inr o' \<Longrightarrow> (\<forall>n. cli_rounds opts = Some n \<longrightarrow> 0 < n) \<Longrightarrow>
     (\<forall>m. cli_rounds o' = Some m \<longrightarrow> 0 < m)"
proof (induction argv arbitrary: opts rule: length_induct)
  case (1 argv)
  show ?case
  proof (cases argv)
    case Nil
    then show ?thesis using 1 by simp
  next
    case (Cons arg rest)
    from 1(2) [unfolded Cons] show ?thesis
    proof (cases rule: parse_args_Cons)
      case (flag opts')
      then show ?thesis using 1 Cons by (metis length_Cons lessI)
    next
      case (count n rest')
      have "length rest' < length argv" using count(3) Cons by simp
      moreover have "\<forall>m. cli_rounds (opts\<lparr>cli_rounds := Some n\<rparr>) = Some m \<longrightarrow> 0 < m"
        using count(2) by simp
      ultimately show ?thesis using 1(1) count(1) by blast
    qed
  qed
qed

text \<open>The command line means what it says. If it parses, each switch is on exactly when the
  environment or the line asks for it, wherever on the line it stands, and a round limit is positive.\<close>

theorem parseCliOptions_flags:
  assumes "parseCliOptions c argv = Inr opts"
  shows "(dryRun opts \<longleftrightarrow> ''--dry-run'' \<in> set argv) \<and>
    (holdOpen opts \<longleftrightarrow> HOLD_OPEN_ENABLED_DEFAULT (lobby_c c) \<or> ''--hold-open'' \<in> set argv) \<and>
    (houseOnlyRounds opts \<longleftrightarrow>
       HOUSE_ONLY_ROUNDS_ENABLED (rent_c c) \<or> ''--house-only-rounds'' \<in> set argv) \<and>
    (closeRounds opts \<longleftrightarrow> CLOSE_ROUNDS_ENABLED (rent_c c) \<and> ''--no-close-rounds'' \<notin> set argv) \<and>
    (\<forall>n. cli_rounds opts = Some n \<longrightarrow> 0 < n)"
  using parse_args_flags [of "cli_defaults c" argv opts] parse_args_rounds [of "cli_defaults c" argv opts]
    assms
  by (simp add: parseCliOptions_def cli_defaults_def)

theorem parseCliOptions_flags_witness:
  "\<exists>opts. parseCliOptions default_config [''--rounds'', ''3'', ''--dry-run''] = Inr opts \<and> dryRun opts"
proof -
  have three: "js_Number ''3'' = Fin 3"
    by (simp add: js_Number_def js_trim_def js_space_def js_decimal_def is_digit_def digit_of_def
        digits_val_def js_double_def js_overflow_def Let_def)
  have "is_whole 3" using is_whole_of_int [of 3] by simp
  then have "\<exists>opts. parseCliOptions default_config [''--rounds'', ''3'', ''--dry-run''] = Inr opts"
    by (simp add: parseCliOptions_def starts_with_def parse_rounds_def three)
  then show ?thesis
    using parseCliOptions_flags [of default_config "[''--rounds'', ''3'', ''--dry-run'']"] by force
qed

end
