(* ===== verification/Lobby_Policy.thy ===== *)
theory Lobby_Policy
  imports Keeper_Config
begin

text \<open>
  What the keeper does with a lobby: \<^verbatim>\<open>src/er-demo/scripts/keeper/lobbyPolicy.ts\<close>. A
  decision is a function of one snapshot of the chain plus two observations the keeper latches. The
  transactions the decisions stand for are specified by the conditions under which the program
  accepts them, as the comments of the file and of \<^verbatim>\<open>chain/constants.ts\<close> state them.
\<close>

datatype lobby_step = Wait | CloseEarly | CloseToSchedule | Close | Abandon | WaitForFighters

record lobby_view =
  nowSec :: rat
  lobbyClosesAt :: int
  fighterCount :: nat
  realFighterCount :: nat
  firstRealEntryObservedAtSec :: "rat option"
  lv_holdOpen :: bool
  houseOnly :: bool
  scheduleCloseRetryAfterSec :: rat

record lobby_plan =
  step :: lobby_step
  heldOpen :: bool
  entriesCloseAt :: "rat option"
  drawAt :: rat

definition lobbyIsHeldOpen :: "phase \<Rightarrow> lobby_view \<Rightarrow> bool" where
  "lobbyIsHeldOpen phaseCode view \<longleftrightarrow>
     lv_holdOpen view \<and> \<not> houseOnly view \<and> phaseCode = Lobby \<and> realFighterCount view = 0 \<and>
     lobbyIsOpen (lobbyClosesAt view) (nowSec view)"

definition deadlineIsOffSchedule :: "lobby_view \<Rightarrow> bool" where
  "deadlineIsOffSchedule view \<longleftrightarrow>
     lv_holdOpen view \<and> houseOnly view \<and>
     of_int (lobbyClosesAt view) - nowSec view > of_int (DEFAULT_LOBBY_SECONDS + CLOCK_SKEW_MARGIN_SECONDS)"

definition scheduleCloseIsDue :: "lobby_view \<Rightarrow> bool" where
  "scheduleCloseIsDue view \<longleftrightarrow>
     deadlineIsOffSchedule view \<and> fighterCount view \<ge> MIN_FIGHTERS_TO_FIGHT \<and>
     nowSec view \<ge> scheduleCloseRetryAfterSec view"

definition entries_close :: "lobby_config \<Rightarrow> lobby_view \<Rightarrow> rat option" where
  "entries_close c view =
     (case firstRealEntryObservedAtSec view of
        Some t \<Rightarrow> if lv_holdOpen view
                  then Some (min (t + REAL_PLAYER_GRACE_SECONDS c) (of_int (lobbyClosesAt view)))
                  else None
      | None \<Rightarrow> None)"

definition lobby_decision :: "lobby_config \<Rightarrow> lobby_view \<Rightarrow> lobby_step" where
  "lobby_decision c view =
     (if \<not> lobbyIsOpen (lobbyClosesAt view) (nowSec view) then
        if nowSec view < of_int (lobbyClosesAt view + CLOCK_SKEW_MARGIN_SECONDS) then Wait
        else if fighterCount view < MIN_FIGHTERS_TO_FIGHT then Abandon else Close
      else
        case entries_close c view of
          None \<Rightarrow> if scheduleCloseIsDue view then CloseToSchedule else Wait
        | Some closeAt \<Rightarrow>
            if nowSec view < closeAt then Wait
            else if fighterCount view < MIN_FIGHTERS_TO_FIGHT then WaitForFighters
            else CloseEarly)"

definition planLobby :: "lobby_config \<Rightarrow> lobby_view \<Rightarrow> lobby_plan" where
  "planLobby c view =
     \<lparr>step = lobby_decision c view,
      heldOpen = lobbyIsHeldOpen Lobby view,
      entriesCloseAt = entries_close c view,
      drawAt = (case entries_close c view of None \<Rightarrow> of_int (lobbyClosesAt view) | Some t \<Rightarrow> t)\<rparr>"

subsection \<open>What the program accepts\<close>

text \<open>\<open>close_lobby_and_draw\<close> by anybody, by the authority, and \<open>abandon_round\<close>, at
  the instant the chain reads on its own clock.\<close>

definition accepts_close :: "lobby_view \<Rightarrow> rat \<Rightarrow> bool" where
  "accepts_close view t \<longleftrightarrow> \<not> lobbyIsOpen (lobbyClosesAt view) t \<and> 2 \<le> fighterCount view"

definition accepts_authority_close :: "lobby_view \<Rightarrow> bool" where
  "accepts_authority_close view \<longleftrightarrow> 2 \<le> fighterCount view"

definition accepts_abandon :: "lobby_view \<Rightarrow> rat \<Rightarrow> bool" where
  "accepts_abandon view t \<longleftrightarrow> lobbyIsDead (fighterCount view) (lobbyClosesAt view) t"

fun accepted :: "lobby_view \<Rightarrow> rat \<Rightarrow> lobby_step \<Rightarrow> bool" where
  "accepted view t Close = accepts_close view t"
| "accepted view t Abandon = accepts_abandon view t"
| "accepted view t CloseEarly = accepts_authority_close view"
| "accepted view t CloseToSchedule = accepts_authority_close view"
| "accepted view t Wait = True"
| "accepted view t WaitForFighters = True"

lemmas lobby_defs = planLobby_def lobby_decision_def entries_close_def lobbyIsOpen_iff lobbyIsDead_def
  accepts_close_def accepts_authority_close_def accepts_abandon_def config_constants

text \<open>C25: Nothing is sent that the program would refuse. Even if the chain's clock runs behind the
  keeper's by the whole skew margin, whatever step the plan names is one the program accepts.\<close>

theorem plan_is_accepted:
  assumes "nowSec view - of_int CLOCK_SKEW_MARGIN_SECONDS \<le> t"
  shows "accepted view t (step (planLobby c view))"
  using assms
  by (auto simp: lobby_defs scheduleCloseIsDue_def split: option.splits)

text \<open>A lobby nobody real has entered.\<close>

definition quiet_view :: lobby_view where
  "quiet_view = \<lparr>nowSec = 700, lobbyClosesAt = 600, fighterCount = 1, realFighterCount = 0,
     firstRealEntryObservedAtSec = None, lv_holdOpen = True, houseOnly = False,
     scheduleCloseRetryAfterSec = 0\<rparr>"

theorem plan_is_accepted_witness:
  "step (planLobby (lobby_c default_config) quiet_view) = Abandon \<and> accepts_abandon quiet_view 698"
proof -
  have "step (planLobby (lobby_c default_config) quiet_view) = Abandon"
    by (simp add: lobby_defs quiet_view_def)
  then show ?thesis
    using plan_is_accepted [of quiet_view 698 "lobby_c default_config"]
    by (simp add: quiet_view_def CLOCK_SKEW_MARGIN_SECONDS_def)
qed

text \<open>No lobby is left standing. Once the deadline and the margin are past, the plan ends the
  round: it is drawn if it can fight and abandoned if it cannot, whatever the mode, the observations
  and the retry clock say. And a lobby that a real player has entered and that can fight is never
  kept waiting beyond the grace, the margin aside.\<close>

theorem plan_ends_the_lobby:
  "(of_int (lobbyClosesAt view + CLOCK_SKEW_MARGIN_SECONDS) \<le> nowSec view \<longrightarrow>
      step (planLobby c view) = (if lobbyIsDead (fighterCount view) (lobbyClosesAt view) (nowSec view)
                                 then Abandon else Close)) \<and>
   (firstRealEntryObservedAtSec view = Some t0 \<and> lv_holdOpen view \<and>
      2 \<le> fighterCount view \<and> t0 + REAL_PLAYER_GRACE_SECONDS c \<le> nowSec view \<and>
      nowSec view < of_int (lobbyClosesAt view) \<longrightarrow>
      step (planLobby c view) = CloseEarly)"
  by (auto simp: lobby_defs)

theorem plan_ends_the_lobby_witness:
  "step (planLobby (lobby_c default_config) quiet_view) = Abandon"
  using plan_ends_the_lobby [of quiet_view "lobby_c default_config" 0]
  by (simp add: quiet_view_def CLOCK_SKEW_MARGIN_SECONDS_def lobbyIsDead_def lobbyIsOpen_iff)

text \<open>An early draw has a reason. Before the deadline the keeper closes only under the hold-open
  switch with at least two fighters, and then either because a real player was seen at least a full
  grace ago, or because the house-only mode inherited a deadline more than a default lobby and the
  margin away. A lobby the mode itself opened, its deadline at most a default lobby after a clock
  that disagrees by at most the margin, is never in the second case.\<close>

theorem early_close_has_a_reason:
  assumes "nowSec view < of_int (lobbyClosesAt view)"
    and "step (planLobby c view) \<notin> {Wait, WaitForFighters}"
  shows "lv_holdOpen view \<and> 2 \<le> fighterCount view \<and>
    (if step (planLobby c view) = CloseEarly
     then \<exists>t0. firstRealEntryObservedAtSec view = Some t0 \<and>
            t0 + REAL_PLAYER_GRACE_SECONDS c \<le> nowSec view
     else houseOnly view \<and> scheduleCloseRetryAfterSec view \<le> nowSec view \<and>
          \<not> (\<exists>opened. lobbyClosesAt view \<le> \<lfloor>opened\<rfloor> + DEFAULT_LOBBY_SECONDS \<and>
               opened \<le> nowSec view + of_int CLOCK_SKEW_MARGIN_SECONDS))"
proof -
  have far: "\<not> (\<exists>opened. k \<le> \<lfloor>opened\<rfloor> + DEFAULT_LOBBY_SECONDS \<and> opened \<le> t + of_int CLOCK_SKEW_MARGIN_SECONDS)"
    if "of_int k - t > of_int (DEFAULT_LOBBY_SECONDS + CLOCK_SKEW_MARGIN_SECONDS)" for k and t :: rat
  proof
    assume "\<exists>opened. k \<le> \<lfloor>opened\<rfloor> + DEFAULT_LOBBY_SECONDS \<and> opened \<le> t + of_int CLOCK_SKEW_MARGIN_SECONDS"
    then obtain opened where o: "k \<le> \<lfloor>opened\<rfloor> + DEFAULT_LOBBY_SECONDS"
      "opened \<le> t + of_int CLOCK_SKEW_MARGIN_SECONDS" by blast
    have "of_int k \<le> (of_int (\<lfloor>opened\<rfloor> + DEFAULT_LOBBY_SECONDS) :: rat)" using o(1) by (simp only: of_int_le_iff)
    also have "\<dots> \<le> opened + of_int DEFAULT_LOBBY_SECONDS" using of_int_floor_le [of opened] by simp
    finally show False using o(2) that by simp
  qed
  show ?thesis
  proof (cases "entries_close c view")
    case None
    then have "scheduleCloseIsDue view" "step (planLobby c view) = CloseToSchedule"
      using assms by (auto simp: planLobby_def lobby_decision_def lobbyIsOpen_iff split: if_splits)
    then show ?thesis
      using far by (auto simp: scheduleCloseIsDue_def deadlineIsOffSchedule_def MIN_FIGHTERS_TO_FIGHT_def)
  next
    case (Some closeAt)
    then have "closeAt \<le> nowSec view" "2 \<le> fighterCount view" "step (planLobby c view) = CloseEarly"
      using assms by (auto simp: planLobby_def lobby_decision_def lobbyIsOpen_iff MIN_FIGHTERS_TO_FIGHT_def
          split: if_splits)
    then show ?thesis
      using Some assms(1) by (auto simp: entries_close_def min_def split: option.splits if_splits)
  qed
qed

theorem early_close_has_a_reason_witness:
  "step (planLobby (lobby_c default_config)
     (quiet_view\<lparr>lobbyClosesAt := 4000, fighterCount := 9, firstRealEntryObservedAtSec := Some 650\<rparr>))
     = CloseEarly \<and> (\<exists>t0. Some (650 :: rat) = Some t0 \<and> t0 + 45 \<le> 700)"
proof -
  let ?v = "quiet_view\<lparr>lobbyClosesAt := 4000, fighterCount := 9, firstRealEntryObservedAtSec := Some 650\<rparr>"
  have s: "step (planLobby (lobby_c default_config) ?v) = CloseEarly"
    by (simp add: lobby_defs quiet_view_def default_config_def)
  then show ?thesis
    using early_close_has_a_reason [of ?v "lobby_c default_config"]
    by (simp add: quiet_view_def default_config_def)
qed

lemma drawAt_le_deadline: "drawAt (planLobby c view) \<le> of_int (lobbyClosesAt view)"
  by (simp add: planLobby_def entries_close_def split: option.splits)

end
