(* ===== verification/Contract.thy ===== *)
theory Contract
  imports Chain_Clock Js_Number
begin

text \<open>
  The vocabulary every screen and the keeper share: \<^verbatim>\<open>src/er-demo/src/v2/contract.ts\<close>. The
  conversion between dollars and the chain's integer units, the door fee, and whether a lobby still
  takes entries on a browser's clock.
\<close>

definition UNITS_PER_USD :: int where "UNITS_PER_USD = 1000000"
definition STAKE_CAP_USD :: rat where "STAKE_CAP_USD = 100"
definition MIN_STAKE_USD :: rat where "MIN_STAKE_USD = 1 / 100"
definition ENTRY_CLOSE_GUARD_MS :: rat where "ENTRY_CLOSE_GUARD_MS = 2000"

lemmas contract_constants = UNITS_PER_USD_def STAKE_CAP_USD_def MIN_STAKE_USD_def
  ENTRY_CLOSE_GUARD_MS_def

definition feeOn :: "int \<Rightarrow> int \<Rightarrow> int" where
  "feeOn stakeUnits bps = bigint_div (stakeUnits * bps) 10000"

definition unitsToUsd :: "int \<Rightarrow> rat" where
  "unitsToUsd units = of_int units / of_int UNITS_PER_USD"

definition usdToUnits :: "rat \<Rightarrow> int" where
  "usdToUnits usd = math_round (usd * of_int UNITS_PER_USD)"

lemma usdToUnits_of_int [simp]: "usdToUnits (of_int k) = k * 1000000"
  using math_round_of_int [of "k * 1000000"] by (simp add: usdToUnits_def UNITS_PER_USD_def)

lemma usdToUnits_unitsToUsd [simp]: "usdToUnits (unitsToUsd u) = u"
  by (simp add: usdToUnits_def unitsToUsd_def UNITS_PER_USD_def)

end
