(* ===== verification/House_Sizing.thy ===== *)
theory House_Sizing
  imports Keeper_Config Contract
begin

unbundle bit_operations_syntax

text \<open>
  How many house fighters a lobby gets, when, on which side and for how much:
  \<^verbatim>\<open>src/er-demo/scripts/keeper/houseSizing.ts\<close>. The hash behind the schedule and the stakes
  works on 32-bit words; instants and draws are rationals.
\<close>

record side_counts =
  side0 :: nat
  side1 :: nat

definition HOUSE_FLOOR :: int where "HOUSE_FLOOR = 2"
definition HOUSE_MAX_WITHOUT_REAL_PLAYER :: int where "HOUSE_MAX_WITHOUT_REAL_PLAYER = 1"

datatype empty_room_policy = Unfightable | HouseOnly

definition real_total :: "side_counts \<Rightarrow> int" where
  "real_total rl = int (side0 rl) + int (side1 rl)"

definition cover :: "side_counts \<Rightarrow> int" where
  "cover rl = (if side0 rl = 0 then 1 else 0) + (if side1 rl = 0 then 1 else 0)"

definition houseFighterCount :: "house_config \<Rightarrow> side_counts \<Rightarrow> empty_room_policy \<Rightarrow> int" where
  "houseFighterCount c rl policy =
     (let realTotal = real_total rl in
      if realTotal = 0 \<and> policy = Unfightable then HOUSE_MAX_WITHOUT_REAL_PLAYER
      else
        let throttled = max (HOUSE_FLOOR - realTotal)
                            (HOUSE_BOARD_TARGET c - HOUSE_DISPLACEMENT c * realTotal)
        in max 0 (min (HOUSE_WALLET_COUNT c) (max throttled (cover rl))))"

definition arrivalFraction :: "lobby_config \<Rightarrow> rat \<Rightarrow> rat \<Rightarrow> rat" where
  "arrivalFraction c now drawAt =
     (let windowStart = drawAt - REAL_PLAYER_GRACE_SECONDS c;
          windowEnd = drawAt - HOUSE_ARRIVAL_TAIL_SECONDS c;
          span = windowEnd - windowStart
      in if span \<le> 0 then 1
         else let fraction = (now - windowStart) / span
              in if fraction < 0 then 0 else if fraction > 1 then 1 else fraction)"

definition avalanche :: "32 word \<Rightarrow> 32 word" where
  "avalanche v =
     (let h1 = v XOR drop_bit 16 v;
          h2 = h1 * 0x21f0aaad;
          h3 = h2 XOR drop_bit 15 h2;
          h4 = h3 * 0x735a2d97
      in h4 XOR drop_bit 15 h4)"

definition mix :: "int \<Rightarrow> int \<Rightarrow> 32 word" where
  "mix roundNo walletIndex =
     (let combined = avalanche (word_of_int roundNo) XOR (avalanche (word_of_int walletIndex) + 0x9e3779b9)
      in avalanche combined)"

definition arrival_draws :: "int \<Rightarrow> nat \<Rightarrow> rat list" where
  "arrival_draws roundNo n = sort (map (\<lambda>k. of_int (uint (mix roundNo (int k))) / 2 ^ 32) [1..<Suc n])"

definition arrivalsDueBy :: "int \<Rightarrow> rat \<Rightarrow> rat \<Rightarrow> int" where
  "arrivalsDueBy roundNo target fraction =
     (let n = \<lfloor>target\<rfloor> in
      if n \<le> 0 then 0
      else if fraction \<ge> 1 then n
      else if n = 1 then 1
      else
        let draws = arrival_draws roundNo (nat n);
            first = draws ! 0;
            spread = draws ! (nat n - 1) - first
        in if spread \<le> 0 then n
           else let threshold = first + fraction * spread
                in int (length (takeWhile (\<lambda>x. x \<le> threshold) draws)))"

fun allocate_loop :: "nat \<Rightarrow> nat \<Rightarrow> nat \<Rightarrow> er_side list" where
  "allocate_loop 0 filled0 filled1 = []"
| "allocate_loop (Suc n) filled0 filled1 =
     (if filled1 < filled0 then Side1 # allocate_loop n filled0 (filled1 + 1)
      else Side0 # allocate_loop n (filled0 + 1) filled1)"

definition allocateHouseSides :: "rat \<Rightarrow> side_counts \<Rightarrow> er_side list" where
  "allocateHouseSides count rl =
     allocate_loop (nat (max 0 \<lfloor>count\<rfloor>)) (side0 rl) (side1 rl)"

definition houseStake :: "house_config \<Rightarrow> int \<Rightarrow> int \<Rightarrow> int" where
  "houseStake c roundNo walletIndex =
     (let span = HOUSE_STAKE_MAX_USD c - HOUSE_STAKE_MIN_USD c + 1;
          usd = HOUSE_STAKE_MIN_USD c + uint (mix roundNo walletIndex) mod span
      in usdToUnits (of_int usd))"

subsection \<open>The hash loses nothing\<close>

lemma xorshift16_inj: "v XOR drop_bit 16 v = w XOR drop_bit 16 w \<Longrightarrow> v = (w :: 32 word)"
proof -
  have undo: "(x XOR drop_bit 16 x) XOR drop_bit 16 (x XOR drop_bit 16 x) = x" for x :: "32 word"
    by (rule bit_word_eqI) (auto simp: bit_xor_iff bit_drop_bit_eq bit_imp_le_length dest: bit_imp_le_length)
  assume "v XOR drop_bit 16 v = w XOR drop_bit 16 w"
  from arg_cong [OF this, of "\<lambda>y. y XOR drop_bit 16 y"] show ?thesis unfolding undo .
qed

lemma xorshift15_inj: "v XOR drop_bit 15 v = w XOR drop_bit 15 w \<Longrightarrow> v = (w :: 32 word)"
proof -
  let ?undone = "\<lambda>y :: 32 word. y XOR drop_bit 15 y XOR drop_bit 30 y"
  have undo: "?undone (x XOR drop_bit 15 x) = x" for x :: "32 word"
    by (rule bit_word_eqI) (auto simp: bit_xor_iff bit_drop_bit_eq dest: bit_imp_le_length)
  assume "v XOR drop_bit 15 v = w XOR drop_bit 15 w"
  from arg_cong [OF this, of ?undone] show ?thesis unfolding undo .
qed

lemma odd_mult_inj:
  assumes "c * c' = (1 :: 32 word)" and "v * c = w * c"
  shows "v = w"
proof -
  have "v * c * c' = w * c * c'" using assms(2) by simp
  then show ?thesis using assms(1) by (simp add: mult.assoc)
qed

lemma avalanche_inj: "avalanche v = avalanche w \<Longrightarrow> v = w"
proof -
  have c1: "0x21f0aaad * 859588901 = (1 :: 32 word)" by simp
  have c2: "0x735a2d97 * 2534613543 = (1 :: 32 word)" by simp
  assume "avalanche v = avalanche w"
  then show ?thesis
    unfolding avalanche_def Let_def
    by (auto dest!: xorshift15_inj odd_mult_inj [OF c2] odd_mult_inj [OF c1] xorshift16_inj)
qed

lemma mix_inj:
  assumes "mix r a = mix r b" and "0 \<le> a" and "a < 2 ^ 32" and "0 \<le> b" and "b < 2 ^ 32"
  shows "a = b"
proof -
  let ?x = "avalanche (word_of_int r)"
  from assms(1) have "?x XOR (avalanche (word_of_int a) + 0x9e3779b9) =
      ?x XOR (avalanche (word_of_int b) + 0x9e3779b9)"
    unfolding mix_def Let_def by (rule avalanche_inj)
  then have "?x XOR (?x XOR (avalanche (word_of_int a) + 0x9e3779b9)) =
      ?x XOR (?x XOR (avalanche (word_of_int b) + 0x9e3779b9))"
    by (rule arg_cong)
  then have "avalanche (word_of_int a) = avalanche (word_of_int b)"
    by (simp flip: xor.assoc)
  then have "(word_of_int a :: 32 word) = word_of_int b" by (rule avalanche_inj)
  then have "uint (word_of_int a :: 32 word) = uint (word_of_int b :: 32 word)" by simp
  then show ?thesis using assms(2-5) by (simp add: uint_word_of_int)
qed

lemma arrival_draws_length [simp]: "length (arrival_draws roundNo n) = n"
  by (simp add: arrival_draws_def del: upt_Suc)

lemma draws_spread:
  assumes "n < 2 ^ 32"
  shows "distinct (arrival_draws roundNo n) \<and>
    (2 \<le> n \<longrightarrow> arrival_draws roundNo n ! 0 < arrival_draws roundNo n ! (n - 1))"
proof -
  let ?f = "\<lambda>k. of_int (uint (mix roundNo (int k))) / (2 ^ 32 :: rat)"
  let ?d = "arrival_draws roundNo n"
  have "inj_on ?f (set [1..<Suc n])"
  proof (rule inj_onI)
    fix a b
    assume ab: "a \<in> set [1..<Suc n]" "b \<in> set [1..<Suc n]" "?f a = ?f b"
    from ab(3) have "of_int (uint (mix roundNo (int a))) = (of_int (uint (mix roundNo (int b))) :: rat)"
      by (simp del: of_int_uint)
    then have "uint (mix roundNo (int a)) = uint (mix roundNo (int b))" by (simp only: of_int_eq_iff)
    then have "mix roundNo (int a) = mix roundNo (int b)" by (simp only: word_uint_eq_iff)
    moreover have "int a < 2 ^ 32" "int b < 2 ^ 32"
      using ab(1,2) assms by (auto simp flip: of_nat_power)
    ultimately show "a = b" using mix_inj [of roundNo "int a" "int b"] by simp
  qed
  then have dist: "distinct ?d" by (simp add: arrival_draws_def distinct_map)
  have len: "length ?d = n" by (simp add: arrival_draws_def)
  have "?d ! 0 < ?d ! (n - 1)" if "2 \<le> n"
  proof -
    have "sorted ?d" by (simp add: arrival_draws_def)
    then have "?d ! 0 \<le> ?d ! (n - 1)" using that len by (intro sorted_nth_mono) auto
    moreover have "?d ! 0 \<noteq> ?d ! (n - 1)"
      using that len dist by (subst nth_eq_iff_index_eq) auto
    ultimately show ?thesis by simp
  qed
  with dist show ?thesis by blast
qed

lemma spread_pos:
  "n < 2 ^ 32 \<Longrightarrow> 2 \<le> n \<Longrightarrow> arrival_draws roundNo n ! 0 < arrival_draws roundNo n ! (n - 1)"
  using draws_spread by blast

text \<open>Arrivals never collide. Within one round the hash gives different ordinals different values,
  so the schedule of every board up to four billion fighters has distinct instants; the branch for a
  schedule that sits on one instant is never taken, and stakes and schedule vary across the cast.\<close>

theorem arrival_draws_distinct:
  assumes "n < 2 ^ 32"
  shows "distinct (arrival_draws roundNo n) \<and>
    (2 \<le> n \<longrightarrow> arrival_draws roundNo n ! 0 < arrival_draws roundNo n ! (n - 1))"
  using draws_spread assms by blast

theorem arrival_draws_distinct_witness: "arrival_draws 7 9 ! 0 < arrival_draws 7 9 ! 8"
  using arrival_draws_distinct [of 9 7] by simp

subsection \<open>The schedule of arrivals\<close>

lemma length_takeWhile_mono:
  "(\<And>x. P x \<Longrightarrow> Q x) \<Longrightarrow> length (takeWhile P xs) \<le> length (takeWhile Q xs)"
  by (induction xs) auto

lemma length_takeWhile_less:
  "i < length xs \<Longrightarrow> \<not> P (xs ! i) \<Longrightarrow> length (takeWhile P xs) \<le> i"
  by (metis length_takeWhile_le not_le_imp_less nth_mem order_less_le_trans set_takeWhileD
      takeWhile_nth)

lemma arrivalsDueBy_early:
  assumes "fraction < 1" and "2 \<le> \<lfloor>target\<rfloor>" and "\<lfloor>target\<rfloor> < 2 ^ 32"
  shows "arrivalsDueBy roundNo target fraction =
    (let draws = arrival_draws roundNo (nat \<lfloor>target\<rfloor>);
         lo = draws ! 0; hi = draws ! (nat \<lfloor>target\<rfloor> - 1)
     in int (length (takeWhile (\<lambda>x. x \<le> lo + fraction * (hi - lo)) draws)))"
    and "arrival_draws roundNo (nat \<lfloor>target\<rfloor>) ! 0 < arrival_draws roundNo (nat \<lfloor>target\<rfloor>) ! (nat \<lfloor>target\<rfloor> - 1)"
proof -
  let ?n = "nat \<lfloor>target\<rfloor>"
  have "?n < nat (2 ^ 32)" by (subst nat_mono_iff) (simp, rule assms(3))
  then have "?n < 2 ^ 32" by simp
  moreover have "2 \<le> ?n" using assms(2) by linarith
  ultimately show less: "arrival_draws roundNo ?n ! 0 < arrival_draws roundNo ?n ! (?n - 1)"
    by (rule spread_pos)
  have "\<lfloor>target\<rfloor> \<noteq> 1" "\<not> \<lfloor>target\<rfloor> \<le> 0" using assms(2) by linarith+
  with less assms(1) show "arrivalsDueBy roundNo target fraction =
    (let draws = arrival_draws roundNo ?n; lo = draws ! 0; hi = draws ! (?n - 1)
     in int (length (takeWhile (\<lambda>x. x \<le> lo + fraction * (hi - lo)) draws)))"
    by (simp add: arrivalsDueBy_def Let_def)
qed

lemma arrivalsDueBy_full: "1 \<le> fraction \<Longrightarrow> arrivalsDueBy roundNo target fraction = max 0 \<lfloor>target\<rfloor>"
  by (simp add: arrivalsDueBy_def Let_def)

lemma arrivalsDueBy_bounds:
  assumes "0 \<le> fraction" and "fraction < 1" and "2 \<le> \<lfloor>target\<rfloor>" and "\<lfloor>target\<rfloor> < 2 ^ 32"
  shows "1 \<le> arrivalsDueBy roundNo target fraction" and "arrivalsDueBy roundNo target fraction < \<lfloor>target\<rfloor>"
proof -
  let ?n = "nat \<lfloor>target\<rfloor>"
  let ?d = "arrival_draws roundNo ?n"
  let ?t = "?d ! 0 + fraction * (?d ! (?n - 1) - ?d ! 0)"
  note early = arrivalsDueBy_early [OF assms(2-4), of roundNo, unfolded Let_def]
  have len: "length ?d = ?n" by simp
  then obtain x xs where d: "?d = x # xs" using assms(3) by (cases ?d) auto
  have "0 \<le> fraction * (?d ! (?n - 1) - ?d ! 0)"
    using assms(1) early(2) by (intro mult_nonneg_nonneg) auto
  then have "?d ! 0 \<le> ?t" by simp
  then have "1 \<le> length (takeWhile (\<lambda>x. x \<le> ?t) ?d)" using d by simp
  then show "1 \<le> arrivalsDueBy roundNo target fraction" unfolding early(1) by linarith
  have "fraction * (?d ! (?n - 1) - ?d ! 0) < 1 * (?d ! (?n - 1) - ?d ! 0)"
    using assms(2) early(2) by (intro mult_strict_right_mono) auto
  then have "\<not> ?d ! (?n - 1) \<le> ?t" by simp
  then have "length (takeWhile (\<lambda>x. x \<le> ?t) ?d) \<le> ?n - 1"
    using assms(3) len by (intro length_takeWhile_less) auto
  then show "arrivalsDueBy roundNo target fraction < \<lfloor>target\<rfloor>"
    unfolding early(1) using assms(3) by linarith
qed

text \<open>The board fills, and only at the end is it full. For a target of at least two the first
  fighter is due the moment the window opens, the number due never falls as time passes, something is
  still outstanding at every instant before the window ends, and from its end on everybody is due.\<close>

theorem arrivals_ramp:
  assumes "2 \<le> \<lfloor>target\<rfloor>" and "\<lfloor>target\<rfloor> < 2 ^ 32" and "0 \<le> f" and "f \<le> f'"
  shows "1 \<le> arrivalsDueBy roundNo target f \<and>
    arrivalsDueBy roundNo target f \<le> arrivalsDueBy roundNo target f' \<and>
    (if f < 1 then arrivalsDueBy roundNo target f < \<lfloor>target\<rfloor>
     else arrivalsDueBy roundNo target f = \<lfloor>target\<rfloor>)"
proof (cases "f < 1")
  case True
  note b = arrivalsDueBy_bounds [OF assms(3) True assms(1,2), of roundNo]
  have "arrivalsDueBy roundNo target f \<le> arrivalsDueBy roundNo target f'"
  proof (cases "f' < 1")
    case f': True
    let ?d = "arrival_draws roundNo (nat \<lfloor>target\<rfloor>)"
    let ?s = "?d ! (nat \<lfloor>target\<rfloor> - 1) - ?d ! 0"
    have "f * ?s \<le> f' * ?s"
      using assms(4) arrivalsDueBy_early(2) [OF True assms(1,2), of roundNo] by (intro mult_right_mono) auto
    then have "length (takeWhile (\<lambda>x. x \<le> ?d ! 0 + f * ?s) ?d) \<le> length (takeWhile (\<lambda>x. x \<le> ?d ! 0 + f' * ?s) ?d)"
      by (intro length_takeWhile_mono) auto
    then show ?thesis
      unfolding arrivalsDueBy_early(1) [OF True assms(1,2)] arrivalsDueBy_early(1) [OF f' assms(1,2)] Let_def
      by simp
  next
    case False
    then show ?thesis using b(2) assms(1) by (simp add: arrivalsDueBy_full)
  qed
  with b True show ?thesis by simp
next
  case False
  with assms show ?thesis by (simp add: arrivalsDueBy_full)
qed

theorem arrivals_ramp_witness: "1 \<le> arrivalsDueBy 7 9 (1 / 2) \<and> arrivalsDueBy 7 9 (1 / 2) < 9"
  using arrivals_ramp [of 9 "1 / 2" "1 / 2" 7] by simp

subsection \<open>Which side\<close>

text \<open>What the planner relies on when it asks for sides: as many as it asked for, never more than one
  past the other side, and never past it by choosing the second.\<close>

locale side_allocator =
  fixes alloc :: "nat \<Rightarrow> nat \<Rightarrow> nat \<Rightarrow> er_side list"
  assumes alloc_length: "length (alloc n a b) = n"
    and alloc_fair0: "Side0 \<in> set (alloc n a b) \<Longrightarrow>
      a + count_list (alloc n a b) Side0 \<le> b + count_list (alloc n a b) Side1 + 1"
    and alloc_fair1: "Side1 \<in> set (alloc n a b) \<Longrightarrow>
      b + count_list (alloc n a b) Side1 \<le> a + count_list (alloc n a b) Side0"
begin

lemma alloc_counts: "count_list (alloc n a b) Side0 + count_list (alloc n a b) Side1 = n"
proof -
  have "count_list xs Side0 + count_list xs Side1 = length xs" for xs
  proof (induction xs)
    case (Cons x xs)
    then show ?case by (cases x) auto
  qed simp
  then show ?thesis by (simp add: alloc_length)
qed

lemma alloc_covers:
  assumes "(if a = 0 then 1 else 0) + (if b = 0 then 1 else 0) \<le> n"
  shows "0 < a + count_list (alloc n a b) Side0" and "0 < b + count_list (alloc n a b) Side1"
proof -
  note facts = alloc_counts [of n a b] alloc_fair0 [of n a b] alloc_fair1 [of n a b]
    count_list_0_iff [of "alloc n a b" Side0] count_list_0_iff [of "alloc n a b" Side1]
  show "0 < a + count_list (alloc n a b) Side0"
    using facts assms by (cases "a = 0"; cases "count_list (alloc n a b) Side0") (auto split: if_splits)
  show "0 < b + count_list (alloc n a b) Side1"
    using facts assms by (cases "a = 0"; cases "b = 0"; cases "count_list (alloc n a b) Side1") (auto split: if_splits)
qed

lemma alloc_balances:
  assumes "a \<le> b + n" and "b \<le> a + n"
  shows "a + count_list (alloc n a b) Side0 \<le> b + count_list (alloc n a b) Side1 + 1"
    and "b + count_list (alloc n a b) Side1 \<le> a + count_list (alloc n a b) Side0 + 1"
proof -
  note facts = alloc_counts [of n a b] alloc_fair0 [of n a b] alloc_fair1 [of n a b]
    count_list_0_iff [of "alloc n a b" Side0] count_list_0_iff [of "alloc n a b" Side1]
  show "a + count_list (alloc n a b) Side0 \<le> b + count_list (alloc n a b) Side1 + 1"
    using facts assms by (cases "count_list (alloc n a b) Side0 = 0") auto
  show "b + count_list (alloc n a b) Side1 \<le> a + count_list (alloc n a b) Side0 + 1"
    using facts assms by (cases "count_list (alloc n a b) Side1 = 0") auto
qed

end

lemma allocate_loop_length: "length (allocate_loop n a b) = n"
  by (induction n a b rule: allocate_loop.induct) auto

lemma allocate_loop_fair:
  "(Side0 \<in> set (allocate_loop n a b) \<longrightarrow>
      a + count_list (allocate_loop n a b) Side0 \<le> b + count_list (allocate_loop n a b) Side1 + 1) \<and>
   (Side1 \<in> set (allocate_loop n a b) \<longrightarrow>
      b + count_list (allocate_loop n a b) Side1 \<le> a + count_list (allocate_loop n a b) Side0)"
proof (induction n a b rule: allocate_loop.induct)
  case (2 n a b)
  show ?case
  proof (cases "b < a")
    case True
    then show ?thesis
      using 2(1) count_list_0_iff [of "allocate_loop n a (b + 1)" Side1]
      by (cases "Side1 \<in> set (allocate_loop n a (b + 1))") auto
  next
    case False
    then show ?thesis
      using 2(2) count_list_0_iff [of "allocate_loop n (a + 1) b" Side0]
      by (cases "Side0 \<in> set (allocate_loop n (a + 1) b)") auto
  qed
qed simp

interpretation sides: side_allocator allocate_loop
  by unfold_locales (use allocate_loop_length allocate_loop_fair in auto)

lemma allocateHouseSides_eq:
  "0 \<le> k \<Longrightarrow> allocateHouseSides (of_int k) rl = allocate_loop (nat k) (side0 rl) (side1 rl)"
  by (simp add: allocateHouseSides_def)

subsection \<open>How many\<close>

lemma houseFighterCount_range:
  "2 \<le> HOUSE_WALLET_COUNT c \<Longrightarrow>
     0 \<le> houseFighterCount c rl p \<and> houseFighterCount c rl p \<le> HOUSE_WALLET_COUNT c"
  by (auto simp: houseFighterCount_def Let_def HOUSE_MAX_WITHOUT_REAL_PLAYER_def)

lemma cover_le_two: "cover rl \<le> 2"
  by (simp add: cover_def)

lemma houseFighterCount_covers:
  assumes "2 \<le> HOUSE_WALLET_COUNT c" and "0 < real_total rl \<or> p = HouseOnly"
  shows "cover rl \<le> houseFighterCount c rl p" and "2 \<le> real_total rl + houseFighterCount c rl p"
proof -
  have rt: "0 \<le> real_total rl" by (simp add: real_total_def)
  have eq: "houseFighterCount c rl p = max 0 (min (HOUSE_WALLET_COUNT c)
      (max (max (HOUSE_FLOOR - real_total rl) (HOUSE_BOARD_TARGET c - HOUSE_DISPLACEMENT c * real_total rl))
           (cover rl)))"
    using assms(2) by (auto simp: houseFighterCount_def Let_def)
  show "cover rl \<le> houseFighterCount c rl p"
    using cover_le_two [of rl] assms(1) unfolding eq by simp
  show "2 \<le> real_total rl + houseFighterCount c rl p"
    using rt assms(1) unfolding eq HOUSE_FLOOR_def by simp
qed

text \<open>The treasury rule and the market-making rule. Under the standing policy an empty room gets one
  house fighter, too few for the chain to draw. With a real player in it, or under the house-only
  mode, a room that receives the fighters the policy asks for on the sides the allocator picks holds
  at least two fighters and has somebody on both sides, and the house never asks for more fighters
  than it has wallets.\<close>

theorem house_makes_a_fight:
  assumes "boot env = Inr c"
  shows "(real_total rl = 0 \<longrightarrow> houseFighterCount (house_c c) rl Unfightable < int MIN_FIGHTERS_TO_FIGHT) \<and>
    0 \<le> houseFighterCount (house_c c) rl p \<and>
    houseFighterCount (house_c c) rl p \<le> HOUSE_WALLET_COUNT (house_c c) \<and>
    (0 < real_total rl \<or> p = HouseOnly \<longrightarrow>
      (let sides = allocateHouseSides (of_int (houseFighterCount (house_c c) rl p)) rl in
       0 < side0 rl + count_list sides Side0 \<and> 0 < side1 rl + count_list sides Side1 \<and>
       int MIN_FIGHTERS_TO_FIGHT \<le> real_total rl + int (length sides)))"
proof -
  let ?k = "houseFighterCount (house_c c) rl p"
  have w: "2 \<le> HOUSE_WALLET_COUNT (house_c c)" using boot_house_facts(1) [OF bootE(4) [OF assms]] .
  note range = houseFighterCount_range [OF w, of rl p]
  have "0 < side0 rl + count_list (allocateHouseSides (of_int ?k) rl) Side0 \<and>
      0 < side1 rl + count_list (allocateHouseSides (of_int ?k) rl) Side1 \<and>
      2 \<le> real_total rl + int (length (allocateHouseSides (of_int ?k) rl))"
    if p: "0 < real_total rl \<or> p = HouseOnly"
  proof -
    note cov = houseFighterCount_covers [OF w p]
    have "(if side0 rl = 0 then 1 else 0) + (if side1 rl = 0 then 1 else 0) \<le> nat ?k"
      using cov(1) range by (auto simp: cover_def split: if_splits)
    from sides.alloc_covers [OF this] cov(2) range show ?thesis
      by (simp add: allocateHouseSides_eq sides.alloc_length)
  qed
  moreover have "real_total rl = 0 \<longrightarrow> houseFighterCount (house_c c) rl Unfightable < 2"
    by (simp add: houseFighterCount_def HOUSE_MAX_WITHOUT_REAL_PLAYER_def)
  ultimately show ?thesis using range by (simp add: MIN_FIGHTERS_TO_FIGHT_def Let_def)
qed

theorem house_makes_a_fight_witness:
  "let sides = allocateHouseSides (of_int (houseFighterCount (house_c default_config)
       \<lparr>side0 = 11, side1 = 0\<rparr> Unfightable)) \<lparr>side0 = 11, side1 = 0\<rparr>
   in 0 < count_list sides Side1"
  using house_makes_a_fight [OF boot_default, of "\<lparr>side0 = 11, side1 = 0\<rparr>" Unfightable]
  by (simp add: real_total_def Let_def)

text \<open>Every entrant displaces, none attracts. With a displacement of one, while at most the target is
  in the room and both sides are taken, real players and house fighters together are exactly the
  target; and whatever the knobs, one more real player never raises the number of house fighters.\<close>

theorem house_displacement:
  assumes "boot env = Inr c" and "0 < real_total rl"
    and "side0 rl \<le> side0 rl'" and "side1 rl \<le> side1 rl'"
  shows "houseFighterCount (house_c c) rl' p \<le> houseFighterCount (house_c c) rl p \<and>
    (HOUSE_DISPLACEMENT (house_c c) = 1 \<and> 0 < side0 rl \<and> 0 < side1 rl \<and>
       real_total rl \<le> HOUSE_BOARD_TARGET (house_c c) \<longrightarrow>
     real_total rl + houseFighterCount (house_c c) rl p = HOUSE_BOARD_TARGET (house_c c))"
proof -
  note h = boot_house_facts [OF bootE(4) [OF assms(1)]]
  have eq: "houseFighterCount (house_c c) x p = max 0 (min (HOUSE_WALLET_COUNT (house_c c))
      (max (max (HOUSE_FLOOR - real_total x)
            (HOUSE_BOARD_TARGET (house_c c) - HOUSE_DISPLACEMENT (house_c c) * real_total x)) (cover x)))"
    if "0 < real_total x" for x
    using that by (auto simp: houseFighterCount_def Let_def)
  have le: "real_total rl \<le> real_total rl'" using assms(3,4) by (simp add: real_total_def)
  have "HOUSE_DISPLACEMENT (house_c c) * real_total rl \<le> HOUSE_DISPLACEMENT (house_c c) * real_total rl'"
    using le h(4) by (rule mult_left_mono)
  moreover have "cover rl' \<le> cover rl" using assms(3,4) by (auto simp: cover_def)
  ultimately have "houseFighterCount (house_c c) rl' p \<le> houseFighterCount (house_c c) rl p"
    using le assms(2) by (simp add: eq)
  moreover have "real_total rl + houseFighterCount (house_c c) rl p = HOUSE_BOARD_TARGET (house_c c)"
    if d: "HOUSE_DISPLACEMENT (house_c c) = 1" "0 < side0 rl" "0 < side1 rl"
      "real_total rl \<le> HOUSE_BOARD_TARGET (house_c c)"
  proof -
    have "cover rl = 0" "2 \<le> real_total rl" using d(2,3) by (simp_all add: cover_def real_total_def)
    then show ?thesis
      using d(1,4) h(7) by (simp add: eq HOUSE_FLOOR_def)
  qed
  ultimately show ?thesis by blast
qed

theorem house_displacement_witness:
  "real_total \<lparr>side0 = 2, side1 = 3\<rparr> +
     houseFighterCount (house_c default_config) \<lparr>side0 = 2, side1 = 3\<rparr> Unfightable = 10"
  using house_displacement [OF boot_default, of "\<lparr>side0 = 2, side1 = 3\<rparr>" "\<lparr>side0 = 2, side1 = 3\<rparr>" Unfightable]
  by (simp add: real_total_def default_config_def)

subsection \<open>How much\<close>

lemma houseStake_band:
  assumes "boot env = Inr c"
  shows "HOUSE_STAKE_MIN_USD (house_c c) * UNITS_PER_USD \<le> houseStake (house_c c) roundNo i"
    and "houseStake (house_c c) roundNo i \<le> HOUSE_STAKE_MAX_USD (house_c c) * UNITS_PER_USD"
    and "0 < houseStake (house_c c) roundNo i"
proof -
  note h = boot_house_facts [OF bootE(4) [OF assms]]
  let ?span = "HOUSE_STAKE_MAX_USD (house_c c) - HOUSE_STAKE_MIN_USD (house_c c) + 1"
  let ?m = "uint (mix roundNo i) mod ?span"
  have pos: "0 < ?span" using h(6) by simp
  have m: "0 \<le> ?m" "?m < ?span"
    using pos_mod_sign [OF pos] pos_mod_bound [OF pos] by auto
  have eq: "houseStake (house_c c) roundNo i = (HOUSE_STAKE_MIN_USD (house_c c) + ?m) * 1000000"
    unfolding houseStake_def Let_def by (rule usdToUnits_of_int)
  show "HOUSE_STAKE_MIN_USD (house_c c) * UNITS_PER_USD \<le> houseStake (house_c c) roundNo i"
    "houseStake (house_c c) roundNo i \<le> HOUSE_STAKE_MAX_USD (house_c c) * UNITS_PER_USD"
    "0 < houseStake (house_c c) roundNo i"
    using m h(5) unfolding eq UNITS_PER_USD_def by simp_all
qed

end
