(* ===== verification/House_Bank.thy ===== *)
theory House_Bank
  imports House_Sizing
begin

text \<open>
  The house's wallets and what they enter: \<^verbatim>\<open>src/er-demo/scripts/keeper/houseBank.ts\<close>. A
  keypair is its public key. The round account is its fixed array of seats and the number taken. The
  planner is a function of the account, the clock and the view \<open>planLobby\<close> publishes. Balances,
  generated keys, clock readings and the outcome of each sent transaction come from outside and are
  arguments.
\<close>

subsection \<open>Wallets and the split of a room\<close>

record house_wallet =
  hw_index :: nat
  hw_key :: string

record house_bank =
  active :: "house_wallet list"
  bankPubkeys :: "string list"

record seat =
  seat_wallet :: string
  seat_side :: er_side

record raw_round =
  rr_fighters :: "seat list"
  rr_fighterCount :: nat

record fighter_split =
  fs_real :: side_counts
  fs_house :: side_counts
  houseIn :: "string set"

definition houseCount :: "fighter_split \<Rightarrow> int" where
  "houseCount sp = int (side0 (fs_house sp)) + int (side1 (fs_house sp))"

definition realCount :: "fighter_split \<Rightarrow> int" where
  "realCount sp = int (side0 (fs_real sp)) + int (side1 (fs_real sp))"

definition houseBankFrom :: "house_config \<Rightarrow> string list \<Rightarrow> house_bank" where
  "houseBankFrom c keys =
     (let act = take (nat (HOUSE_WALLET_COUNT c)) keys
      in \<lparr>active = map (\<lambda>(i, k). \<lparr>hw_index = i, hw_key = k\<rparr>) (zip [0..<length act] act),
          bankPubkeys = keys\<rparr>)"

definition bump :: "er_side \<Rightarrow> side_counts \<Rightarrow> side_counts" where
  "bump s x = (case s of Side0 \<Rightarrow> x\<lparr>side0 := side0 x + 1\<rparr> | Side1 \<Rightarrow> x\<lparr>side1 := side1 x + 1\<rparr>)"

definition classify_one :: "string list \<Rightarrow> fighter_split \<Rightarrow> seat \<Rightarrow> fighter_split" where
  "classify_one keys sp f =
     (if seat_wallet f \<in> set keys
      then sp\<lparr>fs_house := bump (seat_side f) (fs_house sp),
              houseIn := insert (seat_wallet f) (houseIn sp)\<rparr>
      else sp\<lparr>fs_real := bump (seat_side f) (fs_real sp)\<rparr>)"

definition classify :: "house_bank \<Rightarrow> raw_round \<Rightarrow> fighter_split" where
  "classify bank r =
     foldl (classify_one (bankPubkeys bank))
       \<lparr>fs_real = \<lparr>side0 = 0, side1 = 0\<rparr>, fs_house = \<lparr>side0 = 0, side1 = 0\<rparr>, houseIn = {}\<rparr>
       (take (rr_fighterCount r) (rr_fighters r))"

datatype bank_error = EnvBankTooSmall | CannotPersist

datatype secret_source = FromEnv | FromFile

definition loadOrCreateHouseBank ::
  "house_config \<Rightarrow> (string list \<times> secret_source) option \<Rightarrow> bool \<Rightarrow> (nat \<Rightarrow> string) \<Rightarrow> bool
     \<Rightarrow> bank_error + house_bank" where
  "loadOrCreateHouseBank c stored dry_run generate writable =
     (let old = (case stored of None \<Rightarrow> [] | Some (keys, _) \<Rightarrow> keys);
          created = nat (max 0 (HOUSE_WALLET_COUNT c - int (length old)));
          keys = old @ map generate [0..<created]
      in if (0 < created \<or> stored = None) \<and> \<not> dry_run then
           if map_option snd stored = Some FromEnv then Inl EnvBankTooSmall
           else if writable then Inr (houseBankFrom c keys)
           else Inl CannotPersist
         else Inr (houseBankFrom c keys))"

subsection \<open>Planning entries\<close>

record house_entry =
  he_who :: house_wallet
  he_on :: er_side
  he_units :: int

record house_lobby_view =
  hl_drawAt :: rat
  emptyRoom :: empty_room_policy

record house_plan =
  entries :: "house_entry list"
  hp_split :: fighter_split
  houseTarget :: int

text \<open>The board, throttled by the clock.\<close>

definition board_target :: "keeper_config \<Rightarrow> fighter_split \<Rightarrow> nat \<Rightarrow> rat \<Rightarrow> house_lobby_view \<Rightarrow> int" where
  "board_target kc sp roundNo now lobby =
     (if realCount sp = 0 \<and> emptyRoom lobby = Unfightable then HOUSE_MAX_WITHOUT_REAL_PLAYER
      else
        let board = houseFighterCount (house_c kc) (fs_real sp) (emptyRoom lobby);
            due = arrivalsDueBy (int roundNo) (of_int board)
                    (arrivalFraction (lobby_c kc) now (hl_drawAt lobby));
            fightability = (if realCount sp < int MIN_FIGHTERS_TO_FIGHT then HOUSE_FLOOR else 0)
        in max fightability (min board due))"

definition houseCeiling :: "keeper_config \<Rightarrow> nat \<Rightarrow> fighter_split \<Rightarrow> int" where
  "houseCeiling kc seats sp = max 0 (int seats - realCount sp - REAL_SEATS_RESERVED (lobby_c kc))"

definition house_target ::
  "keeper_config \<Rightarrow> nat \<Rightarrow> fighter_split \<Rightarrow> nat \<Rightarrow> rat \<Rightarrow> house_lobby_view \<Rightarrow> int" where
  "house_target kc seats sp roundNo now lobby =
     min (board_target kc sp roundNo now lobby) (houseCeiling kc seats sp)"

definition roomMustBeFightable :: "fighter_split \<Rightarrow> house_lobby_view \<Rightarrow> bool" where
  "roomMustBeFightable sp lobby \<longleftrightarrow> realCount sp > 0 \<or> emptyRoom lobby = HouseOnly"

definition side_needs :: "int \<Rightarrow> fighter_split \<Rightarrow> int \<times> int" where
  "side_needs target sp =
     (let wanted = allocateHouseSides (of_int target) (fs_real sp)
      in (int (length (filter (\<lambda>s. s = Side0) wanted)) - int (side0 (fs_house sp)),
          int (length (filter (\<lambda>s. s = Side1) wanted)) - int (side1 (fs_house sp))))"

definition occupied0 :: "fighter_split \<Rightarrow> nat" where
  "occupied0 sp = side0 (fs_real sp) + side0 (fs_house sp)"

definition occupied1 :: "fighter_split \<Rightarrow> nat" where
  "occupied1 sp = side1 (fs_real sp) + side1 (fs_house sp)"

definition coverFloor :: "fighter_split \<Rightarrow> house_lobby_view \<Rightarrow> int" where
  "coverFloor sp lobby =
     (if roomMustBeFightable sp lobby \<and> (occupied0 sp = 0 \<or> occupied1 sp = 0) then 1 else 0)"

definition floored_needs :: "int \<Rightarrow> fighter_split \<Rightarrow> house_lobby_view \<Rightarrow> int \<times> int" where
  "floored_needs target sp lobby =
     (let (need0, need1) = side_needs target sp in
      if coverFloor sp lobby > 0 then
        if occupied0 sp = 0 then (max need0 1, need1) else (need0, max need1 1)
      else (need0, need1))"

definition house_shortfall :: "keeper_config \<Rightarrow> nat \<Rightarrow> int \<Rightarrow> fighter_split \<Rightarrow> house_lobby_view \<Rightarrow> int" where
  "house_shortfall kc seats target sp lobby =
     (let (need0, need1) = side_needs target sp;
          grow = (if roomMustBeFightable sp lobby then max 0 need0 + max 0 need1
                  else target - houseCount sp);
          ceilingRoom = max 0 (houseCeiling kc seats sp - houseCount sp);
          freeSeats = max 0 (int seats - realCount sp - houseCount sp)
      in min (max (min grow ceilingRoom) (coverFloor sp lobby)) freeSeats)"

text \<open>The loop over the rotated free wallets; the first argument is how many entries are still to be
  added before it breaks.\<close>

fun pick :: "house_config \<Rightarrow> nat \<Rightarrow> nat \<Rightarrow> int \<Rightarrow> int \<Rightarrow> house_wallet list \<Rightarrow> house_entry list" where
  "pick c roundNo k need0 need1 [] = []"
| "pick c roundNo k need0 need1 (w # ws) =
     (if k = 0 then []
      else if need0 \<ge> need1 then
        if need0 \<le> 0 then pick c roundNo k need0 need1 ws
        else \<lparr>he_who = w, he_on = Side0, he_units = houseStake c (int roundNo) (int (hw_index w))\<rparr>
               # pick c roundNo (k - 1) (need0 - 1) need1 ws
      else
        if need1 \<le> 0 then pick c roundNo k need0 need1 ws
        else \<lparr>he_who = w, he_on = Side1, he_units = houseStake c (int roundNo) (int (hw_index w))\<rparr>
               # pick c roundNo (k - 1) need0 (need1 - 1) ws)"

definition free_wallets :: "house_bank \<Rightarrow> fighter_split \<Rightarrow> house_wallet list" where
  "free_wallets bank sp = filter (\<lambda>w. hw_key w \<notin> houseIn sp) (active bank)"

definition rotated :: "nat \<Rightarrow> 'a list \<Rightarrow> 'a list" where
  "rotated roundNo free =
     (let offset = (if length free > 0 then roundNo mod length free else 0)
      in drop offset free @ take offset free)"

definition plannedHouseEntries ::
  "keeper_config \<Rightarrow> house_bank \<Rightarrow> raw_round \<Rightarrow> nat \<Rightarrow> rat \<Rightarrow> house_lobby_view \<Rightarrow> house_plan" where
  "plannedHouseEntries kc bank r roundNo now lobby =
     (let sp = classify bank r;
          seats = length (rr_fighters r)
      in if hl_drawAt lobby - now \<le> of_int CLOCK_SKEW_MARGIN_SECONDS
         then \<lparr>entries = [], hp_split = sp, houseTarget = 0\<rparr>
         else
           let target = house_target kc seats sp roundNo now lobby;
               shortfall = house_shortfall kc seats target sp lobby
           in if shortfall \<le> 0 then \<lparr>entries = [], hp_split = sp, houseTarget = target\<rparr>
              else
                let (need0, need1) = floored_needs target sp lobby
                in \<lparr>entries = pick (house_c kc) roundNo (nat shortfall) need0 need1
                               (rotated roundNo (free_wallets bank sp)),
                    hp_split = sp, houseTarget = target\<rparr>)"

subsection \<open>Sending and funding\<close>

text \<open>For each entry, the clock when its turn comes and whether the transaction lands. The result is
  \<open>(landed, failed, dropped)\<close>.\<close>

fun enterHouseFighters :: "rat \<Rightarrow> (house_entry \<times> rat \<times> bool) list \<Rightarrow> nat \<times> nat \<times> nat" where
  "enterHouseFighters draw [] = (0, 0, 0)"
| "enterHouseFighters draw ((e, now, lands) # rest) =
     (let (landed, failed, dropped) = enterHouseFighters draw rest in
      if draw - now \<le> of_int CLOCK_SKEW_MARGIN_SECONDS then (landed, failed, dropped + 1)
      else if lands then (landed + 1, failed, dropped) else (landed, failed + 1, dropped))"

definition SIGNATURE_FEE_LAMPORTS :: int where "SIGNATURE_FEE_LAMPORTS = 5000"
definition FUNDING_CHUNK :: nat where "FUNDING_CHUNK = 15"

definition funding_shortfalls :: "keeper_config \<Rightarrow> (string \<times> int) list \<Rightarrow> (string \<times> int) list" where
  "funding_shortfalls kc balances =
     (let minLamports = math_round (fst (float_c kc) * LAMPORTS_PER_SOL);
          targetLamports = math_round (snd (float_c kc) * LAMPORTS_PER_SOL)
      in map (\<lambda>(k, b). (k, targetLamports - b)) (filter (\<lambda>(k, b). b < minLamports) balances))"

fun chunks_of :: "nat \<Rightarrow> 'a list \<Rightarrow> 'a list list" where
  "chunks_of n xs = (if xs = [] \<or> n = 0 then [] else take n xs # chunks_of n (drop n xs))"

definition funding_needed :: "(string \<times> int) list \<Rightarrow> int \<Rightarrow> int" where
  "funding_needed short payerFloor =
     sum_list (map snd short) +
     SIGNATURE_FEE_LAMPORTS * max 1 (int ((length short + FUNDING_CHUNK - 1) div FUNDING_CHUNK)) + payerFloor"

datatype funding = NothingToFund | PayerTooPoor | DryRunFunding | Transfers "(string \<times> int) list list"

definition fundHouseBank :: "keeper_config \<Rightarrow> (string \<times> int) list \<Rightarrow> int \<Rightarrow> int \<Rightarrow> bool \<Rightarrow> funding" where
  "fundHouseBank kc balances payerBalance payerFloor dry_run =
     (let short = funding_shortfalls kc balances in
      if short = [] then NothingToFund
      else if payerBalance < funding_needed short payerFloor then PayerTooPoor
      else if dry_run then DryRunFunding
      else Transfers (chunks_of FUNDING_CHUNK short))"

declare chunks_of.simps [simp del]

subsection \<open>The split\<close>

definition split_ok :: "string list \<Rightarrow> fighter_split \<Rightarrow> bool" where
  "split_ok keys sp \<longleftrightarrow>
     houseIn sp \<subseteq> set keys \<and> int (card (houseIn sp)) \<le> houseCount sp"

lemma bump_total: "side0 (bump s x) + side1 (bump s x) = side0 x + side1 x + 1"
  by (cases s) (simp_all add: bump_def)

lemma classify_one_ok: "split_ok keys sp \<Longrightarrow> split_ok keys (classify_one keys sp f)"
proof -
  have "int (side0 (bump s x)) + int (side1 (bump s x)) = int (side0 x) + int (side1 x) + 1" for s x
    using bump_total [of s x] by linarith
  moreover assume "split_ok keys sp"
  moreover from this have "finite (houseIn sp)" by (auto simp: split_ok_def intro: finite_subset)
  ultimately show ?thesis
    using card_insert_le_m1 [of "Suc (card (houseIn sp))" "houseIn sp" "seat_wallet f"]
    by (auto simp: split_ok_def classify_one_def houseCount_def card_insert_if)
qed

lemma classify_one_total:
  "houseCount (classify_one keys sp f) + realCount (classify_one keys sp f) = houseCount sp + realCount sp + 1"
  using bump_total [of "seat_side f" "fs_house sp"] bump_total [of "seat_side f" "fs_real sp"]
  by (auto simp: classify_one_def houseCount_def realCount_def)

lemma classify_ok: "split_ok (bankPubkeys bank) (classify bank r)"
proof -
  have "split_ok keys sp \<Longrightarrow> split_ok keys (foldl (classify_one keys) sp fs)" for keys sp fs
    by (induction fs arbitrary: sp) (auto intro: classify_one_ok)
  then show ?thesis unfolding classify_def by (simp add: split_ok_def houseCount_def)
qed

lemma classify_total:
  "houseCount (classify bank r) + realCount (classify bank r) = int (min (rr_fighterCount r) (length (rr_fighters r)))"
proof -
  have "houseCount (foldl (classify_one keys) sp fs) + realCount (foldl (classify_one keys) sp fs) =
      houseCount sp + realCount sp + int (length fs)" for keys sp fs
    by (induction fs arbitrary: sp) (auto simp: classify_one_total)
  then show ?thesis unfolding classify_def by (simp add: houseCount_def realCount_def)
qed

lemma counts_nonneg [simp]: "0 \<le> houseCount sp" "0 \<le> realCount sp"
  by (simp_all add: houseCount_def realCount_def)

lemma real_total_split [simp]: "real_total (fs_real sp) = realCount sp"
  by (simp add: real_total_def realCount_def)

subsection \<open>The picking loop\<close>

lemma pick_length:
  "length (pick c roundNo k n0 n1 ws) = min (min k (length ws)) (nat n0 + nat n1)"
proof (induction ws arbitrary: k n0 n1)
  case (Cons w ws)
  have pos: "nat n = Suc (nat (n - 1))" if "0 < n" for n using that by simp
  show ?case
  proof (cases "k = 0 \<or> max n0 n1 \<le> 0")
    case True
    then show ?thesis using Cons.IH [of k n0 n1] by auto
  next
    case False
    then obtain k' where k: "k = Suc k'" by (cases k) auto
    show ?thesis
    proof (cases "n1 \<le> n0")
      case True
      with False k Cons.IH [of k' "n0 - 1" n1] pos [of n0] show ?thesis by simp
    next
      case less: False
      with False k Cons.IH [of k' n0 "n1 - 1"] pos [of n1] show ?thesis by simp
    qed
  qed
qed simp

lemma pick_counts:
  "count_list (map he_on (pick c roundNo k n0 n1 ws)) Side0 \<le> nat n0 \<and>
   count_list (map he_on (pick c roundNo k n0 n1 ws)) Side1 \<le> nat n1"
  by (induction c roundNo k n0 n1 ws rule: pick.induct) auto

lemma count_sides_length: "count_list xs Side0 + count_list xs Side1 = length xs"
proof (induction xs)
  case (Cons x xs)
  then show ?case by (cases x) auto
qed simp

lemma pick_full:
  assumes "nat n0 + nat n1 \<le> k" and "nat n0 + nat n1 \<le> length ws"
  shows "count_list (map he_on (pick c roundNo k n0 n1 ws)) Side0 = nat n0"
    and "count_list (map he_on (pick c roundNo k n0 n1 ws)) Side1 = nat n1"
  using pick_length [of c roundNo k n0 n1 ws] pick_counts [of c roundNo k n0 n1 ws]
    count_sides_length [of "map he_on (pick c roundNo k n0 n1 ws)"] assms
  by auto

lemma pick_first:
  assumes "0 < k" and "ws \<noteq> []"
  shows "n1 \<le> n0 \<Longrightarrow> 0 < n0 \<Longrightarrow> 0 < count_list (map he_on (pick c roundNo k n0 n1 ws)) Side0"
    and "n0 < n1 \<Longrightarrow> 0 < n1 \<Longrightarrow> 0 < count_list (map he_on (pick c roundNo k n0 n1 ws)) Side1"
  using assms by (cases ws; simp)+

lemma pick_who_in: "e \<in> set (pick c roundNo k n0 n1 ws) \<Longrightarrow> he_who e \<in> set ws"
  by (induction c roundNo k n0 n1 ws rule: pick.induct) (auto split: if_splits)

lemma pick_who_distinct: "distinct ws \<Longrightarrow> distinct (map he_who (pick c roundNo k n0 n1 ws))"
  by (induction c roundNo k n0 n1 ws rule: pick.induct) (auto dest: pick_who_in)

lemma pick_units:
  "e \<in> set (pick c roundNo k n0 n1 ws) \<Longrightarrow>
     he_units e = houseStake c (int roundNo) (int (hw_index (he_who e)))"
  by (induction c roundNo k n0 n1 ws rule: pick.induct) (auto split: if_splits)

lemma rotated_rotate: "rotated n xs = rotate n xs"
  by (cases "xs = []") (simp_all add: rotated_def rotate_drop_take Let_def)

lemma rotated_simps [simp]:
  "set (rotated n xs) = set xs" "length (rotated n xs) = length xs"
  "distinct (rotated n xs) \<longleftrightarrow> distinct xs"
  by (simp_all add: rotated_rotate)

subsection \<open>What the plan may ask for\<close>

lemma planned_cases:
  obtains (none) "entries (plannedHouseEntries kc bank r roundNo now lobby) = []"
    | (some) target n0 n1 where
        "\<not> hl_drawAt lobby - now \<le> of_int CLOCK_SKEW_MARGIN_SECONDS"
        and "target = house_target kc (length (rr_fighters r)) (classify bank r) roundNo now lobby"
        and "0 < house_shortfall kc (length (rr_fighters r)) target (classify bank r) lobby"
        and "floored_needs target (classify bank r) lobby = (n0, n1)"
        and "entries (plannedHouseEntries kc bank r roundNo now lobby) =
          pick (house_c kc) roundNo
            (nat (house_shortfall kc (length (rr_fighters r)) target (classify bank r) lobby)) n0 n1
            (rotated roundNo (free_wallets bank (classify bank r)))"
proof -
  let ?t = "house_target kc (length (rr_fighters r)) (classify bank r) roundNo now lobby"
  obtain n0 n1 where n: "floored_needs ?t (classify bank r) lobby = (n0, n1)" by fastforce
  show thesis
  proof (cases "hl_drawAt lobby - now \<le> of_int CLOCK_SKEW_MARGIN_SECONDS \<or>
      house_shortfall kc (length (rr_fighters r)) ?t (classify bank r) lobby \<le> 0")
    case True
    then show thesis by (intro none) (auto simp: plannedHouseEntries_def Let_def)
  next
    case False
    then show thesis using n by (intro some [OF _ refl]) (auto simp: plannedHouseEntries_def Let_def)
  qed
qed

lemma shortfall_bounds:
  "house_shortfall kc seats target sp lobby \<le> max 0 (int seats - realCount sp - houseCount sp)"
  "house_shortfall kc seats target sp lobby
     \<le> max (max 0 (houseCeiling kc seats sp - houseCount sp)) (coverFloor sp lobby)"
proof -
  have "min (max (min g c) f) s \<le> s" "min (max (min g c) f) s \<le> max c f" for g c f s :: int
    by linarith+
  then show "house_shortfall kc seats target sp lobby \<le> max 0 (int seats - realCount sp - houseCount sp)"
    "house_shortfall kc seats target sp lobby
       \<le> max (max 0 (houseCeiling kc seats sp - houseCount sp)) (coverFloor sp lobby)"
    unfolding house_shortfall_def Let_def case_prod_beta by blast+
qed

text \<open>The house never oversteps the room. Whatever the lobby looks like, the planned entries fit
  into the seats that are free; beyond the ceiling that keeps seats for people who have not arrived
  they reach by at most the one fighter that covers an empty side; they use different wallets of the
  active bank, none of which is seated already; every stake lies in the configured band; and nothing
  is planned once the draw is inside the clock margin.\<close>

theorem plan_fits_the_room:
  fixes kc bank r roundNo now lobby
  defines "es \<equiv> entries (plannedHouseEntries kc bank r roundNo now lobby)"
    and "sp \<equiv> classify bank r"
  assumes "boot env = Inr kc" and "distinct (map hw_key (active bank))"
  shows "int (length es) \<le> max 0 (int (length (rr_fighters r)) - realCount sp - houseCount sp) \<and>
    int (length es) \<le> max (max 0 (houseCeiling kc (length (rr_fighters r)) sp - houseCount sp))
                          (coverFloor sp lobby) \<and>
    distinct (map he_who es) \<and>
    (\<forall>e \<in> set es. he_who e \<in> set (active bank) \<and> hw_key (he_who e) \<notin> houseIn sp \<and>
       HOUSE_STAKE_MIN_USD (house_c kc) * UNITS_PER_USD \<le> he_units e \<and>
       he_units e \<le> HOUSE_STAKE_MAX_USD (house_c kc) * UNITS_PER_USD) \<and>
    (hl_drawAt lobby - now \<le> of_int CLOCK_SKEW_MARGIN_SECONDS \<longrightarrow> es = [])"
proof (cases rule: planned_cases [of kc bank r roundNo now lobby])
  case none
  then show ?thesis by (simp add: es_def)
next
  case (some target n0 n1)
  let ?k = "house_shortfall kc (length (rr_fighters r)) target sp lobby"
  have es: "es = pick (house_c kc) roundNo (nat ?k) n0 n1 (rotated roundNo (free_wallets bank sp))"
    using some(5) by (simp add: es_def sp_def)
  have "int (length es) \<le> ?k" using some(3) by (simp add: es pick_length sp_def)
  moreover have "distinct (active bank)" using assms(4) by (auto simp: distinct_map)
  then have "distinct (map he_who es)"
    unfolding es by (intro pick_who_distinct) (simp add: free_wallets_def)
  moreover have "he_who e \<in> set (active bank) \<and> hw_key (he_who e) \<notin> houseIn sp \<and>
      HOUSE_STAKE_MIN_USD (house_c kc) * UNITS_PER_USD \<le> he_units e \<and>
      he_units e \<le> HOUSE_STAKE_MAX_USD (house_c kc) * UNITS_PER_USD" if "e \<in> set es" for e
  proof -
    have "he_who e \<in> set (free_wallets bank sp)"
      using pick_who_in [OF that [unfolded es]] by simp
    then show ?thesis
      using houseStake_band(1,2) [OF assms(3)]
      by (simp add: pick_units [OF that [unfolded es]] free_wallets_def)
  qed
  ultimately show ?thesis
    using shortfall_bounds [of kc "length (rr_fighters r)" target sp lobby] some(1) by auto
qed

text \<open>The house never fights itself by its own doing. Under the standing policy, in a room with no
  real player and at most one house fighter, the plan leaves at most one fighter in the room, below
  what the chain needs to draw it.\<close>

theorem empty_room_stays_undrawable:
  fixes kc bank r roundNo now lobby
  defines "es \<equiv> entries (plannedHouseEntries kc bank r roundNo now lobby)"
    and "sp \<equiv> classify bank r"
  assumes "realCount sp = 0" and "emptyRoom lobby = Unfightable" and "houseCount sp \<le> 1"
  shows "realCount sp + houseCount sp + int (length es) < int MIN_FIGHTERS_TO_FIGHT"
proof (cases rule: planned_cases [of kc bank r roundNo now lobby])
  case none
  then show ?thesis using assms(3,5) by (simp add: es_def MIN_FIGHTERS_TO_FIGHT_def)
next
  case (some target n0 n1)
  have "target \<le> 1"
    using some(2) assms(3,4)
    by (simp add: sp_def house_target_def board_target_def HOUSE_MAX_WITHOUT_REAL_PLAYER_def)
  then have "house_shortfall kc (length (rr_fighters r)) target sp lobby \<le> max 0 (1 - houseCount sp)"
    using assms(3,4)
    by (auto simp: house_shortfall_def coverFloor_def roomMustBeFightable_def split: prod.splits)
  moreover have "int (length es) \<le> house_shortfall kc (length (rr_fighters r)) target sp lobby"
    using some(3) unfolding es_def sp_def some(5) by (simp add: pick_length)
  ultimately show ?thesis using assms(3,5) by (simp add: MIN_FIGHTERS_TO_FIGHT_def)
qed

subsection \<open>Every room that should fight can\<close>

lemma count_list_filter: "count_list xs y = length (filter (\<lambda>s. s = y) xs)"
  by (induction xs) auto

lemma side_needs_eq:
  assumes "0 \<le> target"
  shows "side_needs target sp =
    (int (count_list (allocate_loop (nat target) (side0 (fs_real sp)) (side1 (fs_real sp))) Side0) - int (side0 (fs_house sp)),
     int (count_list (allocate_loop (nat target) (side0 (fs_real sp)) (side1 (fs_real sp))) Side1) - int (side1 (fs_house sp)))"
  using assms by (simp add: side_needs_def allocateHouseSides_eq count_list_filter Let_def)

lemma card_filter_le:
  assumes "distinct (map f xs)" and "finite A"
  shows "length (filter (\<lambda>x. f x \<in> A) xs) \<le> card A"
proof -
  have "length (filter (\<lambda>x. f x \<in> A) xs) = card (set (map f (filter (\<lambda>x. f x \<in> A) xs)))"
    using assms(1) by (subst distinct_card) (simp_all add: distinct_map_filter)
  also have "\<dots> \<le> card A" using assms(2) by (intro card_mono) auto
  finally show ?thesis .
qed

lemma free_wallets_many:
  assumes "distinct (map hw_key (active bank))"
  shows "int (length (active bank)) \<le> int (length (free_wallets bank (classify bank r))) + houseCount (classify bank r)"
proof -
  let ?in = "houseIn (classify bank r)"
  have fin: "finite ?in" "int (card ?in) \<le> houseCount (classify bank r)"
    using classify_ok [of bank r] by (auto simp: split_ok_def intro: finite_subset)
  have "length (filter (\<lambda>w. hw_key w \<in> ?in) (active bank)) \<le> card ?in"
    using assms fin(1) by (rule card_filter_le)
  moreover have "length (filter (\<lambda>w. hw_key w \<in> ?in) (active bank)) + length (free_wallets bank (classify bank r))
      = length (active bank)"
    unfolding free_wallets_def by (rule sum_length_filter_compl)
  ultimately show ?thesis using fin(2) by linarith
qed

lemma board_target_le:
  assumes "2 \<le> HOUSE_WALLET_COUNT (house_c kc)"
  shows "board_target kc sp roundNo now lobby \<le> HOUSE_WALLET_COUNT (house_c kc)"
  using houseFighterCount_range [OF assms, of "fs_real sp" "emptyRoom lobby"] assms
  by (auto simp: board_target_def Let_def HOUSE_MAX_WITHOUT_REAL_PLAYER_def HOUSE_FLOOR_def)

text \<open>How the allocator's answer, less the fighters already standing, treats an empty side.\<close>

lemma needs_left_empty:
  assumes "alloc = allocate_loop n a b" and "a = 0"
  shows "int (count_list alloc Side1) - int h \<le> max (int (count_list alloc Side0)) 1"
  using sides.alloc_fair1 [of n a b] count_list_0_iff [of alloc Side1] assms
  by (cases "Side1 \<in> set alloc") auto

lemma needs_right_empty:
  assumes "alloc = allocate_loop n a b" and "b = 0" and "0 < a + h"
    and "n0 = int (count_list alloc Side0) - int h"
  shows "n0 < max (int (count_list alloc Side1)) 1 \<or>
    n0 = int (count_list alloc Side1) \<and> 0 < count_list alloc Side1 \<and>
    n0 + int (count_list alloc Side1) = int n - int h"
  using sides.alloc_fair0 [of n a b] sides.alloc_counts [of n a b] count_list_0_iff [of alloc Side0] assms
  by (cases "Side0 \<in> set alloc") auto

lemma house_target_bounds:
  assumes "2 \<le> HOUSE_WALLET_COUNT (house_c kc)"
  shows "0 \<le> house_target kc seats sp roundNo now lobby"
    and "house_target kc seats sp roundNo now lobby \<le> HOUSE_WALLET_COUNT (house_c kc)"
    and "house_target kc seats sp roundNo now lobby \<le> houseCeiling kc seats sp"
proof -
  have "0 \<le> arrivalsDueBy k t f" for k t f
    by (auto simp: arrivalsDueBy_def Let_def)
  then have "0 \<le> board_target kc sp roundNo now lobby"
    using houseFighterCount_range [OF assms, of "fs_real sp" "emptyRoom lobby"]
    by (auto simp: board_target_def Let_def HOUSE_MAX_WITHOUT_REAL_PLAYER_def HOUSE_FLOOR_def)
  then show "0 \<le> house_target kc seats sp roundNo now lobby"
    by (simp add: house_target_def houseCeiling_def)
  show "house_target kc seats sp roundNo now lobby \<le> HOUSE_WALLET_COUNT (house_c kc)"
    using board_target_le [OF assms, of sp roundNo now lobby] by (simp add: house_target_def)
  show "house_target kc seats sp roundNo now lobby \<le> houseCeiling kc seats sp"
    by (simp add: house_target_def)
qed

lemma REAL_SEATS_pos: "4 \<le> REAL_SEATS_RESERVED c"
  by (simp add: REAL_SEATS_RESERVED_def)

lemma ceiling_below_seats:
  "houseCeiling kc seats sp - houseCount sp \<le> max 0 (int seats - realCount sp - houseCount sp)"
  using REAL_SEATS_pos [of "lobby_c kc"] counts_nonneg [of sp] unfolding houseCeiling_def by linarith

text \<open>A shortfall the ceiling does not cut is met in full when the wallets reach.\<close>

lemma shortfall_uncut:
  assumes "roomMustBeFightable sp lobby" and "side_needs target sp = (n0, n1)"
    and "0 \<le> n0" and "0 \<le> n1" and "n0 + n1 = target - houseCount sp"
    and "target \<le> houseCeiling kc seats sp" and "0 < n0 + n1"
  shows "house_shortfall kc seats target sp lobby = target - houseCount sp"
proof -
  have "coverFloor sp lobby \<le> 1" by (simp add: coverFloor_def)
  then show ?thesis
    using assms ceiling_below_seats [of kc seats sp] by (simp add: house_shortfall_def)
qed

lemma shortfall_covers:
  assumes "coverFloor sp lobby = 1" and "realCount sp + houseCount sp < int seats"
  shows "0 < house_shortfall kc seats target sp lobby"
proof -
  have "0 < min (max g 1) (max 0 (int seats - realCount sp - houseCount sp))" for g
    using assms(2) by simp
  then show ?thesis using assms(1) unfolding house_shortfall_def Let_def case_prod_beta by simp
qed

text \<open>What a plan of a room that should fight looks like when there is a seat, a wallet and time.\<close>

lemma planned_pick:
  assumes "\<not> hl_drawAt lobby - now \<le> of_int CLOCK_SKEW_MARGIN_SECONDS"
    and "0 < house_shortfall kc (length (rr_fighters r)) target (classify bank r) lobby"
    and "target = house_target kc (length (rr_fighters r)) (classify bank r) roundNo now lobby"
    and "floored_needs target (classify bank r) lobby = (n0, n1)"
  shows "entries (plannedHouseEntries kc bank r roundNo now lobby) =
    pick (house_c kc) roundNo
      (nat (house_shortfall kc (length (rr_fighters r)) target (classify bank r) lobby)) n0 n1
      (rotated roundNo (free_wallets bank (classify bank r)))"
  using assms by (simp add: plannedHouseEntries_def Let_def)

lemma covers_left:
  assumes boot: "boot env = Inr kc"
    and time: "\<not> hl_drawAt lobby - now \<le> of_int CLOCK_SKEW_MARGIN_SECONDS"
    and fight: "roomMustBeFightable (classify bank r) lobby"
    and seat: "realCount (classify bank r) + houseCount (classify bank r) < int (length (rr_fighters r))"
    and wallet: "free_wallets bank (classify bank r) \<noteq> []"
    and empty: "occupied0 (classify bank r) = 0"
  shows "0 < count_list (map he_on (entries (plannedHouseEntries kc bank r roundNo now lobby))) Side0"
proof -
  let ?sp = "classify bank r" and ?seats = "length (rr_fighters r)"
  let ?t = "house_target kc ?seats ?sp roundNo now lobby"
  have w: "2 \<le> HOUSE_WALLET_COUNT (house_c kc)" using boot_house_facts(1) [OF bootE(4) [OF boot]] .
  have cf: "coverFloor ?sp lobby = 1" using fight empty by (simp add: coverFloor_def)
  obtain n0 n1 where n: "side_needs ?t ?sp = (n0, n1)" by fastforce
  have "side0 (fs_real ?sp) = 0" "side0 (fs_house ?sp) = 0" using empty by (simp_all add: occupied0_def)
  then have "n1 \<le> max n0 1"
    using n needs_left_empty [OF refl, of "side0 (fs_real ?sp)" "nat ?t"]
    unfolding side_needs_eq [OF house_target_bounds(1) [OF w]] by auto
  moreover have "floored_needs ?t ?sp lobby = (max n0 1, n1)"
    using n cf empty by (simp add: floored_needs_def)
  ultimately show ?thesis
    using planned_pick [OF time shortfall_covers [OF cf seat] refl]
      pick_first(1) [of _ _ n1 "max n0 1"] shortfall_covers [OF cf seat] wallet
    by (metis zero_less_nat_eq rotated_simps(2) length_0_conv less_max_iff_disj zero_less_one)
qed

text \<open>The case in which everything the target still lacks is sent.\<close>

lemma all_sent:
  assumes boot: "boot env = Inr kc"
    and dist: "distinct (map hw_key (active bank))"
    and full: "int (length (active bank)) = HOUSE_WALLET_COUNT (house_c kc)"
    and time: "\<not> hl_drawAt lobby - now \<le> of_int CLOCK_SKEW_MARGIN_SECONDS"
    and fight: "roomMustBeFightable (classify bank r) lobby"
    and t: "t = house_target kc (length (rr_fighters r)) (classify bank r) roundNo now lobby"
    and n: "side_needs t (classify bank r) = (n0, n1)"
      "floored_needs t (classify bank r) lobby = (n0, n1)"
    and pos: "0 \<le> n0" "0 \<le> n1" "0 < n0 + n1" "n0 + n1 = t - houseCount (classify bank r)"
  shows "count_list (map he_on (entries (plannedHouseEntries kc bank r roundNo now lobby))) Side0 = nat n0"
    and "count_list (map he_on (entries (plannedHouseEntries kc bank r roundNo now lobby))) Side1 = nat n1"
proof -
  let ?sp = "classify bank r" and ?seats = "length (rr_fighters r)"
  have w: "2 \<le> HOUSE_WALLET_COUNT (house_c kc)" using boot_house_facts(1) [OF bootE(4) [OF boot]] .
  note tb = house_target_bounds [OF w, of ?seats ?sp roundNo now lobby, folded t]
  have sf: "house_shortfall kc ?seats t ?sp lobby = t - houseCount ?sp"
    using shortfall_uncut [OF fight n(1) pos(1,2,4) tb(3) pos(3)] .
  then have sf_pos: "0 < house_shortfall kc ?seats t ?sp lobby" using pos(3,4) by simp
  note es = planned_pick [OF time sf_pos t n(2)]
  have "nat n0 + nat n1 \<le> length (rotated roundNo (free_wallets bank ?sp))"
    using free_wallets_many [OF dist, of r] tb(2) full pos by simp
  moreover have "nat n0 + nat n1 \<le> nat (house_shortfall kc ?seats t ?sp lobby)"
    using sf pos by simp
  ultimately show "count_list (map he_on (entries (plannedHouseEntries kc bank r roundNo now lobby))) Side0 = nat n0"
    "count_list (map he_on (entries (plannedHouseEntries kc bank r roundNo now lobby))) Side1 = nat n1"
    unfolding es using pick_full by blast+
qed

lemma covers_right:
  assumes boot: "boot env = Inr kc"
    and dist: "distinct (map hw_key (active bank))"
    and full: "int (length (active bank)) = HOUSE_WALLET_COUNT (house_c kc)"
    and time: "\<not> hl_drawAt lobby - now \<le> of_int CLOCK_SKEW_MARGIN_SECONDS"
    and fight: "roomMustBeFightable (classify bank r) lobby"
    and seat: "realCount (classify bank r) + houseCount (classify bank r) < int (length (rr_fighters r))"
    and wallet: "free_wallets bank (classify bank r) \<noteq> []"
    and empty: "occupied1 (classify bank r) = 0" and other: "0 < occupied0 (classify bank r)"
  shows "0 < count_list (map he_on (entries (plannedHouseEntries kc bank r roundNo now lobby))) Side1"
proof -
  let ?sp = "classify bank r" and ?seats = "length (rr_fighters r)"
  define t where "t = house_target kc ?seats ?sp roundNo now lobby"
  let ?al = "allocate_loop (nat t) (side0 (fs_real ?sp)) (side1 (fs_real ?sp))"
  have w: "2 \<le> HOUSE_WALLET_COUNT (house_c kc)" using boot_house_facts(1) [OF bootE(4) [OF boot]] .
  note tb = house_target_bounds [OF w, of ?seats ?sp roundNo now lobby, folded t_def]
  have cf: "coverFloor ?sp lobby = 1" using fight empty by (simp add: coverFloor_def)
  define n0 where "n0 = int (count_list ?al Side0) - int (side0 (fs_house ?sp))"
  have h1: "side1 (fs_real ?sp) = 0" "side1 (fs_house ?sp) = 0" using empty by (simp_all add: occupied1_def)
  have n: "side_needs t ?sp = (n0, int (count_list ?al Side1))"
    unfolding side_needs_eq [OF tb(1)] n0_def using h1 by simp
  have fn: "floored_needs t ?sp lobby = (n0, max (int (count_list ?al Side1)) 1)"
    using n cf empty other by (simp add: floored_needs_def)
  have "n0 < max (int (count_list ?al Side1)) 1 \<or>
      n0 = int (count_list ?al Side1) \<and> 0 < count_list ?al Side1 \<and>
      n0 + int (count_list ?al Side1) = int (nat t) - int (side0 (fs_house ?sp))"
    by (rule needs_right_empty [OF refl]) (use h1 other n0_def in \<open>simp_all add: occupied0_def\<close>)
  then show ?thesis
  proof
    assume less: "n0 < max (int (count_list ?al Side1)) 1"
    note es = planned_pick [OF time shortfall_covers [OF cf seat] t_def, unfolded fn, OF refl]
    have ws: "rotated roundNo (free_wallets bank ?sp) \<noteq> []"
      using wallet by (metis length_0_conv rotated_simps(2))
    have k: "0 < nat (house_shortfall kc ?seats t ?sp lobby)"
      using shortfall_covers [OF cf seat] by simp
    show ?thesis
      unfolding es by (rule pick_first(2) [OF k ws less]) simp
  next
    assume tie: "n0 = int (count_list ?al Side1) \<and> 0 < count_list ?al Side1 \<and>
      n0 + int (count_list ?al Side1) = int (nat t) - int (side0 (fs_house ?sp))"
    then have "max (int (count_list ?al Side1)) 1 = int (count_list ?al Side1)" by simp
    with fn have fn': "floored_needs t ?sp lobby = (n0, int (count_list ?al Side1))" by simp
    have "n0 + int (count_list ?al Side1) = t - houseCount ?sp"
      using tie tb(1) h1 by (simp add: houseCount_def)
    from all_sent(2) [OF boot dist full time fight t_def n fn' _ _ _ this] tie show ?thesis by simp
  qed
qed

lemma covers_both:
  assumes boot: "boot env = Inr kc"
    and dist: "distinct (map hw_key (active bank))"
    and full: "int (length (active bank)) = HOUSE_WALLET_COUNT (house_c kc)"
    and time: "\<not> hl_drawAt lobby - now \<le> of_int CLOCK_SKEW_MARGIN_SECONDS"
    and fight: "roomMustBeFightable (classify bank r) lobby"
    and empty: "occupied0 (classify bank r) = 0" "occupied1 (classify bank r) = 0"
    and room: "2 \<le> houseCeiling kc (length (rr_fighters r)) (classify bank r)"
  shows "0 < count_list (map he_on (entries (plannedHouseEntries kc bank r roundNo now lobby))) Side1"
proof -
  let ?sp = "classify bank r" and ?seats = "length (rr_fighters r)"
  define t where "t = house_target kc ?seats ?sp roundNo now lobby"
  let ?al = "allocate_loop (nat t) 0 0"
  have z: "side0 (fs_real ?sp) = 0" "side0 (fs_house ?sp) = 0" "side1 (fs_real ?sp) = 0"
    "side1 (fs_house ?sp) = 0" using empty by (simp_all add: occupied0_def occupied1_def)
  have rc: "realCount ?sp = 0" "houseCount ?sp = 0" using z by (simp_all add: realCount_def houseCount_def)
  then have only: "emptyRoom lobby = HouseOnly" using fight by (simp add: roomMustBeFightable_def)
  have "2 \<le> t" using room rc only
    by (simp add: t_def house_target_def board_target_def HOUSE_FLOOR_def MIN_FIGHTERS_TO_FIGHT_def Let_def)
  then have cov: "0 < count_list ?al Side0" "0 < count_list ?al Side1"
    using sides.alloc_covers [of 0 0 "nat t"] by auto
  have n: "side_needs t ?sp = (int (count_list ?al Side0), int (count_list ?al Side1))"
    using z \<open>2 \<le> t\<close> by (simp add: side_needs_eq)
  then have fn: "floored_needs t ?sp lobby = (int (count_list ?al Side0), int (count_list ?al Side1))"
    using cov empty by (simp add: floored_needs_def max_def)
  have sum: "int (count_list ?al Side0) + int (count_list ?al Side1) = t - houseCount ?sp"
    using sides.alloc_counts [of "nat t" 0 0] \<open>2 \<le> t\<close> rc by simp
  show ?thesis
    using all_sent(2) [OF boot dist full time fight t_def n fn _ _ _ sum] cov by simp
qed

text \<open>C16: No room that is meant to fight is left one-sided. While there is time, a free seat and a free
  wallet, a room with a real player in it, or any room under the house-only mode, has somebody on both
  sides once the planned entries have landed; for a room that is empty on both sides the ceiling must
  leave the house two seats.\<close>

theorem room_gets_both_sides:
  fixes kc bank r roundNo now lobby
  defines "es \<equiv> map he_on (entries (plannedHouseEntries kc bank r roundNo now lobby))"
    and "sp \<equiv> classify bank r"
  assumes "boot env = Inr kc" and "distinct (map hw_key (active bank))"
    and "int (length (active bank)) = HOUSE_WALLET_COUNT (house_c kc)"
    and "of_int CLOCK_SKEW_MARGIN_SECONDS < hl_drawAt lobby - now"
    and "0 < realCount sp \<or> emptyRoom lobby = HouseOnly"
    and "realCount sp + houseCount sp < int (length (rr_fighters r))"
    and "free_wallets bank sp \<noteq> []"
    and "occupied0 sp = 0 \<and> occupied1 sp = 0 \<longrightarrow> 2 \<le> houseCeiling kc (length (rr_fighters r)) sp"
  shows "0 < occupied0 sp + count_list es Side0 \<and> 0 < occupied1 sp + count_list es Side1"
proof -
  have time: "\<not> hl_drawAt lobby - now \<le> of_int CLOCK_SKEW_MARGIN_SECONDS" using assms(6) by simp
  have fight: "roomMustBeFightable (classify bank r) lobby"
    using assms(7) by (simp add: roomMustBeFightable_def sp_def)
  note left = covers_left [OF assms(3) time fight assms(8,9) [unfolded sp_def], of roundNo]
  note right = covers_right [OF assms(3,4,5) time fight assms(8,9) [unfolded sp_def], of roundNo]
  note both = covers_both [OF assms(3,4,5) time fight, of roundNo]
  show ?thesis
    unfolding es_def sp_def
    using left right both assms(10) [unfolded sp_def]
    by (cases "occupied0 (classify bank r) = 0"; cases "occupied1 (classify bank r) = 0") simp_all
qed

text \<open>A room for the witnesses: one real player on side 0 of an otherwise empty board of 48.\<close>

definition demo_bank :: house_bank where
  "demo_bank = houseBankFrom (house_c default_config)
     [''h0'', ''h1'', ''h2'', ''h3'', ''h4'', ''h5'', ''h6'', ''h7'', ''h8'', ''h9'']"

definition demo_room :: raw_round where
  "demo_room = \<lparr>rr_fighters = replicate 48 \<lparr>seat_wallet = ''ann'', seat_side = Side0\<rparr>, rr_fighterCount = 1\<rparr>"

definition demo_lobby :: house_lobby_view where
  "demo_lobby = \<lparr>hl_drawAt = 45, emptyRoom = Unfightable\<rparr>"

lemma demo_bank_keys:
  "map hw_key (active demo_bank) = [''h0'', ''h1'', ''h2'', ''h3'', ''h4'', ''h5'', ''h6'', ''h7'', ''h8'', ''h9'']"
  "bankPubkeys demo_bank = [''h0'', ''h1'', ''h2'', ''h3'', ''h4'', ''h5'', ''h6'', ''h7'', ''h8'', ''h9'']"
  by (simp_all add: demo_bank_def houseBankFrom_def default_config_def upt_rec)

lemma demo_bank_distinct: "distinct (map hw_key (active demo_bank))"
  unfolding demo_bank_keys by simp

lemma demo_bank_length: "length (active demo_bank) = 10"
  using arg_cong [OF demo_bank_keys(1), of length] by simp

lemma demo_split: "classify demo_bank demo_room =
  \<lparr>fs_real = \<lparr>side0 = 1, side1 = 0\<rparr>, fs_house = \<lparr>side0 = 0, side1 = 0\<rparr>, houseIn = {}\<rparr>"
  by (simp add: classify_def demo_room_def classify_one_def demo_bank_keys bump_def)

lemma demo_room_length: "length (rr_fighters demo_room) = 48"
  by (simp add: demo_room_def)

theorem plan_fits_the_room_witness:
  "int (length (entries (plannedHouseEntries default_config demo_bank demo_room 7 20 demo_lobby))) \<le> 47"
  using plan_fits_the_room [OF boot_default demo_bank_distinct, of demo_room 7 20 demo_lobby]
  by (simp add: demo_split demo_room_length realCount_def houseCount_def)

theorem empty_room_stays_undrawable_witness:
  "length (entries (plannedHouseEntries default_config demo_bank (demo_room\<lparr>rr_fighterCount := 0\<rparr>) 7 20 demo_lobby)) < 2"
proof -
  have "classify demo_bank (demo_room\<lparr>rr_fighterCount := 0\<rparr>) =
      \<lparr>fs_real = \<lparr>side0 = 0, side1 = 0\<rparr>, fs_house = \<lparr>side0 = 0, side1 = 0\<rparr>, houseIn = {}\<rparr>"
    by (simp add: classify_def)
  then show ?thesis
    using empty_room_stays_undrawable [of demo_bank "demo_room\<lparr>rr_fighterCount := 0\<rparr>" demo_lobby default_config 7 20]
    by (simp add: realCount_def houseCount_def demo_lobby_def MIN_FIGHTERS_TO_FIGHT_def)
qed

theorem room_gets_both_sides_witness:
  "0 < count_list (map he_on (entries (plannedHouseEntries default_config demo_bank demo_room 7 20 demo_lobby))) Side1"
proof -
  have "int (length (active demo_bank)) = HOUSE_WALLET_COUNT (house_c default_config)"
    by (simp add: demo_bank_length default_config_def)
  moreover have "free_wallets demo_bank (classify demo_bank demo_room) \<noteq> []"
    using demo_bank_length by (auto simp: demo_split free_wallets_def)
  ultimately show ?thesis
    using room_gets_both_sides [OF boot_default demo_bank_distinct, of demo_lobby 20 demo_room 7]
    by (simp add: demo_split demo_room_length demo_lobby_def realCount_def houseCount_def occupied0_def
        occupied1_def CLOCK_SKEW_MARGIN_SECONDS_def)
qed

subsection \<open>Sending and funding\<close>

lemma every_entry_is_counted:
  "enterHouseFighters draw xs = (landed, failed, dropped) \<Longrightarrow> landed + failed + dropped = length xs"
  by (induction draw xs arbitrary: landed failed dropped rule: enterHouseFighters.induct)
    (auto simp: Let_def split: prod.splits if_splits)

lemma chunks_concat: "0 < n \<Longrightarrow> concat (chunks_of n xs) = xs"
proof (induction n xs rule: chunks_of.induct)
  case (1 n xs)
  then show ?case by (cases "xs = []") (simp_all add: chunks_of.simps [of n xs] chunks_of.simps [of n "[]"])
qed

lemma chunks_small: "ch \<in> set (chunks_of n xs) \<Longrightarrow> length ch \<le> n \<and> ch \<noteq> []"
proof (induction n xs rule: chunks_of.induct)
  case (1 n xs)
  then show ?case by (cases "xs = [] \<or> n = 0") (auto simp: chunks_of.simps [of n xs])
qed

lemma chunks_count: "0 < n \<Longrightarrow> length (chunks_of n xs) = (length xs + n - 1) div n"
proof (induction n xs rule: chunks_of.induct)
  case (1 n xs)
  show ?case
  proof (cases "xs = []")
    case True
    then show ?thesis using 1(2) by (simp add: chunks_of.simps)
  next
    case False
    have "length xs + n - 1 = (length xs - 1) + n" using False by (cases xs) simp_all
    then have up: "(length xs + n - 1) div n = Suc ((length xs - 1) div n)"
      using 1(2) by (simp only: div_add_self2)
    have IH: "length (chunks_of n (drop n xs)) = (length xs - n + n - 1) div n"
      using 1 False by simp
    have "(length xs - n + n - 1) div n = (length xs - 1) div n"
    proof (cases "n \<le> length xs")
      case False
      then show ?thesis using 1(2) by simp
    qed simp
    then show ?thesis
      using IH up False 1(2) chunks_of.simps [of n xs] by simp
  qed
qed

text \<open>A top-up pays exactly what is missing and leaves the payer alive. Each transfer brings a wallet
  below the minimum to the target, every such wallet is paid once, a transaction carries at most
  fifteen transfers, and after all transfers and signature fees the payer still holds its rent-exempt
  minimum.\<close>

theorem funding_is_exact:
  assumes "fundHouseBank kc balances payer payerFloor dry_run = Transfers txs"
  shows "concat txs = funding_shortfalls kc balances \<and>
    (\<forall>tx \<in> set txs. tx \<noteq> [] \<and> length tx \<le> FUNDING_CHUNK) \<and>
    payerFloor \<le> payer - sum_list (map snd (concat txs)) - SIGNATURE_FEE_LAMPORTS * int (length txs) \<and>
    \<not> dry_run"
proof -
  let ?short = "funding_shortfalls kc balances"
  from assms have t: "txs = chunks_of FUNDING_CHUNK ?short"
    and rich: "funding_needed ?short payerFloor \<le> payer" and dry: "\<not> dry_run"
    by (auto simp: fundHouseBank_def Let_def split: if_splits)
  have c: "concat txs = ?short" unfolding t by (rule chunks_concat) (simp add: FUNDING_CHUNK_def)
  have "length txs = (length ?short + FUNDING_CHUNK - 1) div FUNDING_CHUNK"
    unfolding t by (rule chunks_count) (simp add: FUNDING_CHUNK_def)
  then have "int (length txs) \<le> max 1 (int ((length ?short + FUNDING_CHUNK - 1) div FUNDING_CHUNK))" by simp
  then have "SIGNATURE_FEE_LAMPORTS * int (length txs) \<le>
      SIGNATURE_FEE_LAMPORTS * max 1 (int ((length ?short + FUNDING_CHUNK - 1) div FUNDING_CHUNK))"
    by (rule mult_left_mono) (simp add: SIGNATURE_FEE_LAMPORTS_def)
  then have "payerFloor \<le> payer - sum_list (map snd ?short) - SIGNATURE_FEE_LAMPORTS * int (length txs)"
    using rich unfolding funding_needed_def by linarith
  then show ?thesis using c chunks_small dry unfolding t by fastforce
qed

theorem funding_is_exact_witness:
  "concat [[(''h1'', 9000000 :: int)]] = funding_shortfalls default_config [(''h0'', 5000000), (''h1'', 1000000)]"
proof -
  have "fundHouseBank default_config [(''h0'', 5000000), (''h1'', 1000000)] 20000000 890880 False =
      Transfers [[(''h1'', 9000000)]]"
    by (simp add: fundHouseBank_def funding_shortfalls_def default_config_def funding_needed_def
        LAMPORTS_PER_SOL_def SIGNATURE_FEE_LAMPORTS_def FUNDING_CHUNK_def Let_def chunks_of.simps)
  from funding_is_exact [OF this] show ?thesis by simp
qed

end
