(* ===== verification/Round_Closer.thy ===== *)
theory Round_Closer
  imports Keeper_Config
begin

text \<open>
  Reclaiming the rent of finished rounds: what to do with one round
  (\<^verbatim>\<open>src/er-demo/scripts/keeper/roundCloser.ts\<close>) and where to begin
  (\<^verbatim>\<open>src/er-demo/scripts/keeper/closeCursor.ts\<close>). The probe, an RPC read, and the clock are
  arguments: the answer to the \<open>i\<close>-th read, which may fail or stop short, and the \<open>i\<close>-th
  reading of the clock.
\<close>

record close_candidate =
  cc_round :: "(phase \<times> bool) option"
  delegated :: bool

datatype advance_reason = AlreadyClosed | NeverTerminal | StillDelegated

datatype close_action = CloseRound | SweepFirst | Advance advance_reason

definition decideClose :: "close_candidate \<Rightarrow> close_action" where
  "decideClose cand =
     (case cc_round cand of
        None \<Rightarrow> Advance AlreadyClosed
      | Some (ph, houseSwept) \<Rightarrow>
          if ph \<noteq> Settled \<and> ph \<noteq> Abandoned then Advance NeverTerminal
          else if delegated cand then Advance StillDelegated
          else if \<not> houseSwept then SweepFirst
          else CloseRound)"

definition isPastRetention :: "int \<Rightarrow> int \<Rightarrow> int \<Rightarrow> bool" where
  "isPastRetention roundNo roundCounter retention \<longleftrightarrow> roundNo + retention \<le> roundCounter"

definition housekeepingIsWelcome :: "phase option \<Rightarrow> bool" where
  "housekeepingIsWelcome ph \<longleftrightarrow> ph \<noteq> Some Drawing \<and> ph \<noteq> Some Fight"

subsection \<open>The cursor\<close>

definition CLOSE_CURSOR_PROBE_BATCH :: int where "CLOSE_CURSOR_PROBE_BATCH = 100"

definition probeIsWorthARead :: "int \<Rightarrow> int option \<Rightarrow> int \<Rightarrow> int \<Rightarrow> bool" where
  "probeIsWorthARead cursor knownLiveAt through batch \<longleftrightarrow>
     knownLiveAt \<noteq> Some cursor \<and> through - cursor + 1 \<ge> batch"

datatype close_cursor_stop = Found | CaughtUp | NoRounds | BatchCap | Deadline | Failed

record scan_options =
  sc_from :: int
  through :: int
  probe :: "nat \<Rightarrow> int list \<Rightarrow> bool list option"
  nowMs :: "nat \<Rightarrow> rat"
  budgetMs :: rat
  maxBatches :: nat
  batch :: int

record close_cursor_scan =
  cursor :: int
  stoppedBecause :: close_cursor_stop
  skipped :: int
  batches :: nat
  elapsedMs :: rat
  catchUpAhead :: bool

text \<open>\<open>done\<close>; its argument \<open>reads\<close> is how often the clock was read before.\<close>

definition scan_done :: "scan_options \<Rightarrow> int \<Rightarrow> close_cursor_stop \<Rightarrow> nat \<Rightarrow> nat \<Rightarrow> close_cursor_scan" where
  "scan_done opts c why b reads =
     \<lparr>cursor = c, stoppedBecause = why, skipped = c - sc_from opts, batches = b,
      elapsedMs = nowMs opts reads - nowMs opts 0,
      catchUpAhead = (why \<noteq> Found \<and> c > sc_from opts \<and> c \<le> through opts)\<rparr>"

definition probe_window :: "scan_options \<Rightarrow> int \<Rightarrow> int list" where
  "probe_window opts c = map (\<lambda>i. c + int i) [0..<nat (min (batch opts) (through opts - c + 1))]"

function scan_loop :: "scan_options \<Rightarrow> int \<Rightarrow> nat \<Rightarrow> close_cursor_scan" where
  "scan_loop opts c b =
     (if c \<le> through opts then
        if b \<ge> maxBatches opts then scan_done opts c BatchCap b (b + 1)
        else if nowMs opts (b + 1) - nowMs opts 0 \<ge> budgetMs opts then scan_done opts c Deadline b (b + 2)
        else
          let window = probe_window opts c in
          case probe opts b window of
            None \<Rightarrow> scan_done opts c Failed (b + 1) (b + 2)
          | Some exists \<Rightarrow>
              let answered = min (length exists) (length window) in
              case find_index (\<lambda>x. x) (take answered exists) of
                Some living \<Rightarrow> scan_done opts (window ! living) Found (b + 1) (b + 2)
              | None \<Rightarrow>
                  if answered = 0 then scan_done opts c Failed (b + 1) (b + 2)
                  else scan_loop opts (c + int answered) (b + 1)
      else scan_done opts c CaughtUp b (b + 1))"
  by pat_completeness auto

termination
  by (relation "measure (\<lambda>(opts, c, b). nat (through opts - c + 1))") (auto simp: Suc_le_eq)

declare scan_loop.simps [simp del]

definition findOldestLivingRound :: "scan_options \<Rightarrow> close_cursor_scan" where
  "findOldestLivingRound opts =
     (if through opts < sc_from opts then scan_done opts (sc_from opts) NoRounds 0 1
      else if batch opts < 1 then scan_done opts (sc_from opts) BatchCap 0 1
      else scan_loop opts (sc_from opts) 0)"

subsection \<open>What the decisions rest on\<close>

lemma decideClose_close_iff:
  "decideClose cand = CloseRound \<longleftrightarrow>
     (\<exists>ph. cc_round cand = Some (ph, True) \<and> (ph = Settled \<or> ph = Abandoned)) \<and> \<not> delegated cand"
  by (auto simp: decideClose_def split: option.splits if_splits)

lemma window_nth:
  assumes "i < length (probe_window opts c)"
  shows "probe_window opts c ! i = c + int i" and "c + int i \<le> through opts"
  using assms by (auto simp: probe_window_def)

text \<open>A probe is truthful when every answer it gives is the state of the round it was asked about. It
  may fail, and it may answer fewer rounds than asked.\<close>

definition truthful :: "(int \<Rightarrow> bool) \<Rightarrow> scan_options \<Rightarrow> bool" where
  "truthful alive opts \<longleftrightarrow>
     (\<forall>b ws xs i. probe opts b ws = Some xs \<and> i < length xs \<and> i < length ws \<longrightarrow> xs ! i = alive (ws ! i))"

definition scan_sound :: "(int \<Rightarrow> bool) \<Rightarrow> scan_options \<Rightarrow> int \<Rightarrow> close_cursor_scan \<Rightarrow> bool" where
  "scan_sound alive opts lo r \<longleftrightarrow>
     lo \<le> cursor r \<and> cursor r \<le> through opts + 1 \<and>
     (\<forall>n. lo \<le> n \<and> n < cursor r \<longrightarrow> \<not> alive n) \<and>
     (stoppedBecause r = Found \<longrightarrow> alive (cursor r) \<and> cursor r \<le> through opts) \<and>
     (stoppedBecause r = CaughtUp \<longleftrightarrow> cursor r = through opts + 1) \<and>
     batches r \<le> maxBatches opts"

lemma find_index_take:
  "find_index (\<lambda>x. x) (take k xs) = None \<Longrightarrow> i < k \<Longrightarrow> i < length xs \<Longrightarrow> \<not> xs ! i"
  by (auto simp: find_index_None_iff in_set_conv_nth)

lemma absent_prefix:
  assumes "truthful alive opts" and "probe opts b (probe_window opts c) = Some xs"
    and "\<forall>i<k. \<not> xs ! i" and "k \<le> length xs" and "k \<le> length (probe_window opts c)"
    and "c \<le> n" and "n < c + int k"
  shows "\<not> alive n"
proof -
  define i where "i = nat (n - c)"
  have i: "i < k" "n = c + int i" using assms(6,7) by (auto simp: i_def)
  then have "xs ! i = alive (probe_window opts c ! i)"
    using assms(1,2,4,5) unfolding truthful_def by (meson order_less_le_trans)
  then show ?thesis using i assms(3,5) window_nth(1) [of i opts c] by simp
qed

lemma found_alive:
  assumes "truthful alive opts" and "probe opts b (probe_window opts c) = Some xs"
    and "find_index (\<lambda>x. x) (take (min (length xs) (length (probe_window opts c))) xs) = Some i"
  shows "probe_window opts c ! i = c + int i" and "c + int i \<le> through opts"
    and "alive (c + int i)" and "c \<le> n \<Longrightarrow> n < c + int i \<Longrightarrow> \<not> alive n"
proof -
  note f = find_index_SomeD [OF assms(3)]
  have i: "i < length xs" "i < length (probe_window opts c)" "xs ! i" using f by auto
  show w: "probe_window opts c ! i = c + int i" "c + int i \<le> through opts"
    using window_nth [OF i(2)] by auto
  have "xs ! i = alive (probe_window opts c ! i)" using assms(1,2) i unfolding truthful_def by blast
  then show "alive (c + int i)" using w i by simp
  have "\<forall>j<i. \<not> xs ! j" using f i(1,2) by (auto simp: nth_take)
  then show "c \<le> n \<Longrightarrow> n < c + int i \<Longrightarrow> \<not> alive n"
    using absent_prefix [OF assms(1,2), of i n] i by simp
qed

lemma scan_sound_extend:
  assumes "scan_sound alive opts (c + int k) r" and "\<And>n. c \<le> n \<Longrightarrow> n < c + int k \<Longrightarrow> \<not> alive n"
  shows "scan_sound alive opts c r"
  using assms unfolding scan_sound_def by (meson not_less order_trans zle_iff_zadd)

lemma scan_loop_sound:
  "truthful alive opts \<Longrightarrow> c \<le> through opts + 1 \<Longrightarrow> b \<le> maxBatches opts \<Longrightarrow>
     scan_sound alive opts c (scan_loop opts c b)"
proof (induction opts c b rule: scan_loop.induct)
  case (1 opts c b)
  let ?w = "probe_window opts c"
  note unfold = scan_loop.simps [of opts c b]
  show ?case
  proof (cases "c \<le> through opts \<and> b < maxBatches opts \<and> \<not> nowMs opts (b + 1) - nowMs opts 0 \<ge> budgetMs opts")
    case False
    then show ?thesis using 1(3,4) by (auto simp: unfold scan_done_def scan_sound_def)
  next
    case go: True
    show ?thesis
    proof (cases "probe opts b ?w")
      case None
      then show ?thesis using go by (auto simp: unfold scan_done_def scan_sound_def)
    next
      case (Some xs)
      let ?k = "min (length xs) (length ?w)"
      show ?thesis
      proof (cases "find_index (\<lambda>x. x) (take ?k xs)")
        case (Some i)
        then show ?thesis
          using go found_alive [OF 1(2) \<open>probe opts b ?w = Some xs\<close> Some] \<open>probe opts b ?w = Some xs\<close>
          by (auto simp: unfold scan_done_def scan_sound_def)
      next
        case None
        show ?thesis
        proof (cases "?k = 0")
          case True
          then show ?thesis using go Some None by (auto simp: unfold scan_done_def scan_sound_def)
        next
          case False
          have le: "c + int ?k \<le> through opts + 1" using go by (auto simp: probe_window_def)
          have ext: "\<not> alive n" if "c \<le> n" "n < c + int ?k" for n
            using absent_prefix [OF 1(2) Some, of ?k n] find_index_take [OF None] that by simp
          have "scan_loop opts c b = scan_loop opts (c + int ?k) (b + 1)"
            using go Some None False by (auto simp: unfold Let_def min_def)
          moreover have "scan_sound alive opts (c + int ?k) (scan_loop opts (c + int ?k) (b + 1))"
            using 1(1) [OF _ _ _ refl Some refl None False] go le 1(2) by simp
          ultimately show ?thesis using scan_sound_extend ext by simp
        qed
      qed
    qed
  qed
qed

text \<open>C35: The cursor only ever passes rounds that are gone. If the probe's answers are true, however many
  reads fail, fall short or run out of time, every round between the start and the cursor returned was
  seen to be closed, a round reported as found is alive, the cursor never leaves the range it was
  given, and no more reads are made than allowed. When there is a range to scan, the scan says it caught
  up exactly when the cursor is past its last round, and then every round of it is gone; when the range
  is empty the scan says that there are no rounds and the cursor stays where it was.\<close>

theorem cursor_skips_only_closed_rounds:
  assumes "truthful alive opts"
  shows "let r = findOldestLivingRound opts in
    sc_from opts \<le> cursor r \<and> cursor r \<le> max (sc_from opts) (through opts + 1) \<and>
    (\<forall>n. sc_from opts \<le> n \<and> n < cursor r \<longrightarrow> \<not> alive n) \<and>
    (stoppedBecause r = Found \<longrightarrow> alive (cursor r) \<and> cursor r \<le> through opts) \<and>
    (stoppedBecause r = CaughtUp \<longrightarrow> (\<forall>n. sc_from opts \<le> n \<and> n \<le> through opts \<longrightarrow> \<not> alive n)) \<and>
    (sc_from opts \<le> through opts \<longrightarrow> (stoppedBecause r = CaughtUp \<longleftrightarrow> cursor r = through opts + 1)) \<and>
    (through opts < sc_from opts \<longrightarrow> stoppedBecause r = NoRounds \<and> cursor r = sc_from opts) \<and>
    batches r \<le> maxBatches opts"
proof (cases "through opts < sc_from opts \<or> batch opts < 1")
  case True
  then show ?thesis by (auto simp: findOldestLivingRound_def scan_done_def)
next
  case False
  then show ?thesis
    using scan_loop_sound [OF assms, of "sc_from opts" 0]
    by (auto simp: findOldestLivingRound_def scan_sound_def Let_def)
qed

text \<open>An arena of ten rounds whose first seven are closed.\<close>

definition demo_scan :: scan_options where
  "demo_scan = \<lparr>sc_from = 1, through = 10, probe = (\<lambda>b ws. Some (map (\<lambda>n. 7 < n) ws)),
     nowMs = (\<lambda>i. 0), budgetMs = 1000, maxBatches = 5, batch = 100\<rparr>"

theorem cursor_skips_only_closed_rounds_witness:
  "\<not> (7 :: int) < 7 \<and> sc_from demo_scan \<le> cursor (findOldestLivingRound demo_scan)"
proof -
  have "truthful (\<lambda>n. 7 < n) demo_scan" by (auto simp: truthful_def demo_scan_def)
  from cursor_skips_only_closed_rounds [OF this] show ?thesis by (simp add: Let_def)
qed

subsection \<open>The retention window\<close>

text \<open>The keeper's boundary is the chain's floor or later, so it never asks for a close the program
  refuses as too recent.\<close>

lemma retention_respects_chain:
  assumes "boot env = Inr c" and "isPastRetention roundNo counter (ROUND_RETENTION (rent_c c))"
  shows "roundNo + int MIN_RETAINED_ROUNDS \<le> counter"
  using assms(2) boot_rent_facts(1) [OF bootE(2) [OF assms(1)]] by (simp add: isPastRetention_def)

end
