(* ===== verification/Reclamation.thy ===== *)
theory Reclamation
  imports Keeper_Config
begin

text \<open>
  The two devices that stop the keeper from spending rent it does not get back, and the report that
  explains them: \<^verbatim>\<open>src/er-demo/scripts/keeper/reclamation.ts\<close>. Lamport samples and the
  counters that the source checks with \<open>Number.isFinite\<close> are \<open>jsnum\<close>; counters read off
  the chain are integers. A lamport amount published as a decimal text is the integer it denotes.
\<close>

definition ROUND_RENT_LAMPORTS :: int where "ROUND_RENT_LAMPORTS = 23497000"

record arena_counters =
  roundCounter :: int
  roundsSwept :: "int option"
  polledAtSec :: rat

record closer_state =
  cl_cursor :: int
  reclaimed :: int
  cl_skipped :: "int list"
  strandedNeverTerminal :: "int list"
  strandedStillDelegated :: "int list"
  closing :: bool
  caughtUpOnce :: bool
  skippedTotal :: jsnum
  strandedNeverTerminalTotal :: jsnum
  strandedStillDelegatedTotal :: jsnum

record reclamation_state =
  observedAtSec :: rat
  arena :: "arena_counters option"
  closer :: closer_state
  burnSamplesLamports :: "jsnum list"
  burnSamplingSuspended :: bool
  operatorLamports :: "rat option"
  sweepStoppedSinceSec :: "rat option"

record reclamation_thresholds =
  burnLamportsPerRound :: rat
  armAfterSamples :: int
  windowSamples :: int
  stopAtGapRounds :: rat
  strandedAllowanceRounds :: jsnum

subsection \<open>The burn brake\<close>

text \<open>\<open>xs.slice(-n)\<close> for a positive whole \<open>n\<close>.\<close>

definition slice_last :: "int \<Rightarrow> 'a list \<Rightarrow> 'a list" where
  "slice_last n xs = drop (length xs - nat n) xs"

definition recordBurnSample :: "jsnum list \<Rightarrow> jsnum \<Rightarrow> int \<Rightarrow> jsnum list" where
  "recordBurnSample samples lamports cap = (if cap \<le> 0 then [] else slice_last cap (samples @ [lamports]))"

record burn_verdict =
  armed :: bool
  bv_samples :: nat
  meanLamportsPerRound :: "rat option"
  bv_tripped :: bool

definition burnBrake :: "jsnum list \<Rightarrow> rat \<Rightarrow> int \<Rightarrow> int \<Rightarrow> burn_verdict" where
  "burnBrake samples threshold armAfter windowN =
     (let observed = int (length samples);
          isArmed = (armAfter > 0 \<and> observed \<ge> armAfter)
      in if windowN \<le> 0
         then \<lparr>armed = False, bv_samples = 0, meanLamportsPerRound = None, bv_tripped = False\<rparr>
         else
           let window = slice_last windowN samples in
           if window = []
           then \<lparr>armed = isArmed, bv_samples = 0, meanLamportsPerRound = None, bv_tripped = False\<rparr>
           else
             case js_div_nat (foldl js_add (Fin 0) window) (length window) of
               Fin mean \<Rightarrow>
                 \<lparr>armed = isArmed, bv_samples = length window, meanLamportsPerRound = Some mean,
                  bv_tripped = (isArmed \<and> mean > threshold)\<rparr>
             | _ \<Rightarrow>
                 \<lparr>armed = False, bv_samples = length window, meanLamportsPerRound = None,
                  bv_tripped = False\<rparr>)"

subsection \<open>The sweep-gap stop\<close>

record sweep_verdict =
  gap :: "int option"
  allowance :: int
  allowanceCapped :: bool
  ledgerComplete :: bool
  effectiveGap :: "int option"
  sv_tripped :: bool

definition sweepGapOf :: "arena_counters option \<Rightarrow> int option" where
  "sweepGapOf a =
     (case a of
        None \<Rightarrow> None
      | Some x \<Rightarrow> (case roundsSwept x of None \<Rightarrow> None | Some swept \<Rightarrow> Some (roundCounter x - swept)))"

definition latchedIn :: "reclamation_state \<Rightarrow> bool" where
  "latchedIn st \<longleftrightarrow> sweepStoppedSinceSec st \<noteq> None"

definition wholeCount :: "jsnum \<Rightarrow> int" where
  "wholeCount tot = (case tot of Fin q \<Rightarrow> if q > 0 then \<lfloor>q\<rfloor> else 0 | _ \<Rightarrow> 0)"

definition strandedLedgerIsComplete :: "closer_state \<Rightarrow> bool" where
  "strandedLedgerIsComplete c \<longleftrightarrow> \<not> closing c \<or> caughtUpOnce c"

definition allowance_cap :: "reclamation_thresholds \<Rightarrow> int" where
  "allowance_cap th =
     (case strandedAllowanceRounds th of Fin q \<Rightarrow> if q > 0 then \<lfloor>q\<rfloor> else 0 | _ \<Rightarrow> 0)"

definition sweepGapStop :: "reclamation_state \<Rightarrow> reclamation_thresholds \<Rightarrow> sweep_verdict" where
  "sweepGapStop st th =
     (let g = sweepGapOf (arena st);
          stranded = wholeCount (strandedNeverTerminalTotal (closer st)) +
                     wholeCount (strandedStillDelegatedTotal (closer st));
          cap = allowance_cap th;
          complete = strandedLedgerIsComplete (closer st);
          allow = (if complete then min stranded cap
                   else max 0 (min cap (case g of None \<Rightarrow> 0 | Some x \<Rightarrow> x)));
          eff = map_option (\<lambda>x. x - allow) g;
          verdict = \<lparr>gap = g, allowance = allow, allowanceCapped = (cap > 0 \<and> stranded > cap),
                     ledgerComplete = complete, effectiveGap = eff, sv_tripped = False\<rparr>
      in if latchedIn st then verdict\<lparr>sv_tripped := True\<rparr>
         else case eff of
             None \<Rightarrow> verdict
           | Some e \<Rightarrow> if stopAtGapRounds th \<le> 0 then verdict
                      else verdict\<lparr>sv_tripped := (of_int e \<ge> stopAtGapRounds th)\<rparr>)"

subsection \<open>The report\<close>

definition round_to :: "rat \<Rightarrow> nat \<Rightarrow> rat" where
  "round_to value places = of_int (math_round (value * 10 ^ places)) / 10 ^ places"

definition sol :: "rat \<Rightarrow> rat" where
  "sol lamports = round_to (lamports / LAMPORTS_PER_SOL) 6"

definition lamportString :: "rat \<Rightarrow> int" where
  "lamportString lamports = math_round lamports"

definition runwayDays :: "rat option \<Rightarrow> rat option \<Rightarrow> rat option" where
  "runwayDays operator burnPerDay =
     (case (operator, burnPerDay) of
        (Some l, Some b) \<Rightarrow> if \<not> b > 0 then None else Some (round_to (l / b) 2)
      | _ \<Rightarrow> None)"

record burn_report =
  br_armed :: bool
  br_tripped :: bool
  samplesObserved :: nat
  br_armAfterSamples :: int
  samplingSuspended :: bool
  samplesInWindow :: nat
  br_windowSamples :: int
  br_mean :: "int option"
  solPerDay :: "rat option"
  thresholdLamports :: int
  thresholdSolPerDay :: "rat option"
  roundsPerDay :: "rat option"

record sweep_report =
  sr_tripped :: bool
  sr_stopAtGapRounds :: rat
  sr_effectiveGap :: "int option"
  allowanceRounds :: int
  capRounds :: jsnum
  capped :: bool
  sr_ledgerComplete :: bool
  stoppedSinceSec :: "rat option"

record rounds_report =
  listed :: nat
  rr_count :: jsnum
  rr_lamports :: jsnum
  rr_sol :: jsnum

record reclamation_report =
  rp_observedAtSec :: rat
  sweepGap :: "int option"
  pollAgeSec :: "rat option"
  rp_cursor :: int
  rp_reclaimed :: int
  skippedRounds :: rounds_report
  strandedRounds :: rounds_report
  burn :: burn_report
  sweep :: sweep_report
  rp_operatorLamports :: "int option"
  operatorSol :: "rat option"
  rp_runwayDays :: "rat option"

definition rounds_summary :: "nat \<Rightarrow> jsnum \<Rightarrow> rounds_report" where
  "rounds_summary n tot =
     (let lamports = js_lift (\<lambda>q. q * of_int ROUND_RENT_LAMPORTS) tot
      in \<lparr>listed = n, rr_count = tot, rr_lamports = js_lift (\<lambda>q. of_int (lamportString q)) lamports,
          rr_sol = js_lift sol lamports\<rparr>)"

definition burn_summary :: "reclamation_state \<Rightarrow> reclamation_thresholds \<Rightarrow> rat \<Rightarrow> burn_report" where
  "burn_summary st th perDay =
     (let verdict = burnBrake (burnSamplesLamports st) (burnLamportsPerRound th) (armAfterSamples th)
                      (windowSamples th);
          measured = perDay > 0
      in \<lparr>br_armed = armed verdict, br_tripped = bv_tripped verdict,
          samplesObserved = length (burnSamplesLamports st), br_armAfterSamples = armAfterSamples th,
          samplingSuspended = burnSamplingSuspended st, samplesInWindow = bv_samples verdict,
          br_windowSamples = windowSamples th,
          br_mean = map_option lamportString (meanLamportsPerRound verdict),
          solPerDay = (if measured then map_option (\<lambda>m. sol (m * perDay)) (meanLamportsPerRound verdict) else None),
          thresholdLamports = lamportString (burnLamportsPerRound th),
          thresholdSolPerDay = (if measured then Some (sol (burnLamportsPerRound th * perDay)) else None),
          roundsPerDay = (if measured then Some perDay else None)\<rparr>)"

definition burn_per_day :: "reclamation_state \<Rightarrow> reclamation_thresholds \<Rightarrow> rat \<Rightarrow> rat option" where
  "burn_per_day st th perDay =
     (if perDay > 0
      then map_option (\<lambda>m. m * perDay)
             (meanLamportsPerRound (burnBrake (burnSamplesLamports st) (burnLamportsPerRound th)
                (armAfterSamples th) (windowSamples th)))
      else None)"

definition sweep_summary :: "reclamation_state \<Rightarrow> reclamation_thresholds \<Rightarrow> sweep_report" where
  "sweep_summary st th =
     (let v = sweepGapStop st th
      in \<lparr>sr_tripped = sv_tripped v, sr_stopAtGapRounds = stopAtGapRounds th,
          sr_effectiveGap = effectiveGap v, allowanceRounds = allowance v,
          capRounds = strandedAllowanceRounds th, capped = allowanceCapped v,
          sr_ledgerComplete = ledgerComplete v, stoppedSinceSec = sweepStoppedSinceSec st\<rparr>)"

definition summariseReclamation ::
  "reclamation_state \<Rightarrow> reclamation_thresholds \<Rightarrow> rat \<Rightarrow> reclamation_report" where
  "summariseReclamation st th perDay =
     \<lparr>rp_observedAtSec = observedAtSec st,
      sweepGap = sweepGapOf (arena st),
      pollAgeSec = map_option (\<lambda>a. observedAtSec st - polledAtSec a) (arena st),
      rp_cursor = cl_cursor (closer st),
      rp_reclaimed = reclaimed (closer st),
      skippedRounds = rounds_summary (length (cl_skipped (closer st))) (skippedTotal (closer st)),
      strandedRounds = rounds_summary
        (length (strandedNeverTerminal (closer st)) + length (strandedStillDelegated (closer st)))
        (js_add (strandedNeverTerminalTotal (closer st)) (strandedStillDelegatedTotal (closer st))),
      burn = burn_summary st th perDay,
      sweep = sweep_summary st th,
      rp_operatorLamports = map_option lamportString (operatorLamports st),
      operatorSol = map_option sol (operatorLamports st),
      rp_runwayDays = runwayDays (operatorLamports st) (burn_per_day st th perDay)\<rparr>"

subsection \<open>The brake\<close>

lemma slice_last_length: "length (slice_last n xs) = min (length xs) (nat n)"
  by (simp add: slice_last_def)

lemma slice_last_set: "set (slice_last n xs) \<subseteq> set xs"
  by (simp add: slice_last_def set_drop_subset)

lemma mean_exceeds_member:
  fixes qs :: "rat list"
  assumes "qs \<noteq> []" and "t < sum_list qs / of_nat (length qs)"
  shows "\<exists>q \<in> set qs. t < q"
proof (rule ccontr)
  assume "\<not> ?thesis"
  then have "\<forall>q \<in> set qs. q \<le> t" by auto
  then have "sum_list qs \<le> of_nat (length qs) * t"
    by (induction qs) (auto simp: distrib_right intro: add_mono)
  then have "sum_list qs / of_nat (length qs) \<le> t"
    using assms(1) by (simp add: divide_le_eq mult.commute)
  with assms(2) show False by simp
qed

text \<open>The brake only stops a keeper that is really burning. It never trips before its full number of
  samples, and when it trips at least one of the rounds in its window cost more than the threshold;
  so no window in which every round stayed within budget trips it, whatever top-ups lie between. One
  unreadable sample in the window disarms it.\<close>

theorem burnBrake_sound:
  "(bv_tripped (burnBrake samples threshold armAfter windowN) \<longrightarrow>
      0 < armAfter \<and> armAfter \<le> int (length samples) \<and>
      (\<exists>q. Fin q \<in> set (slice_last windowN samples) \<and> threshold < q)) \<and>
   (\<not> list_all js_isFinite (slice_last windowN samples) \<longrightarrow>
      \<not> armed (burnBrake samples threshold armAfter windowN) \<and>
      \<not> bv_tripped (burnBrake samples threshold armAfter windowN))"
proof -
  let ?w = "slice_last windowN samples"
  let ?m = "js_div_nat (foldl js_add (Fin 0) ?w) (length ?w)"
  have div: "js_div_nat x n = Fin y \<Longrightarrow> \<exists>q. x = Fin q \<and> y = q / of_nat n" for x n y
    by (cases x) auto
  have mean: "\<exists>qs. ?w = map Fin qs \<and> y = sum_list qs / of_nat (length ?w)" if "?m = Fin y" for y
    using div [OF that] js_foldl_Fin [of 0 ?w] by auto
  have "0 < armAfter \<and> armAfter \<le> int (length samples) \<and> (\<exists>q. Fin q \<in> set ?w \<and> threshold < q)"
    if trip: "bv_tripped (burnBrake samples threshold armAfter windowN)"
  proof -
    from trip obtain y where y: "?m = Fin y" "threshold < y" "0 < armAfter" "armAfter \<le> int (length samples)" "?w \<noteq> []"
      by (auto simp: burnBrake_def Let_def split: if_splits jsnum.splits)
    obtain qs where "?w = map Fin qs" "y = sum_list qs / of_nat (length qs)"
      using mean [OF y(1)] by auto
    then show ?thesis using mean_exceeds_member [of qs threshold] y by auto
  qed
  moreover have "\<not> armed (burnBrake samples threshold armAfter windowN) \<and>
      \<not> bv_tripped (burnBrake samples threshold armAfter windowN)"
    if bad: "\<not> list_all js_isFinite ?w"
  proof -
    have "?w \<noteq> []" using bad by auto
    moreover have "\<nexists>y. ?m = Fin y"
      using mean bad by (fastforce simp: list_all_iff)
    ultimately show ?thesis
      by (auto simp: burnBrake_def Let_def split: jsnum.splits)
  qed
  ultimately show ?thesis by blast
qed

theorem burnBrake_sound_witness:
  "bv_tripped (burnBrake [Fin 1, Fin 9, Fin 9] 5 3 2) \<and> (\<exists>q. Fin q \<in> {Fin 9} \<and> (5 :: rat) < q)"
proof -
  have "bv_tripped (burnBrake [Fin 1, Fin 9, Fin 9] 5 3 2)"
    by (simp add: burnBrake_def slice_last_def Let_def numeral_2_eq_2)
  then show ?thesis
    using burnBrake_sound [of "[Fin 1, Fin 9, Fin 9]" 5 3 2] by (simp add: slice_last_def)
qed

text \<open>The ring keeps the newest samples: pushing and then looking at the window is looking at the
  window of everything ever pushed.\<close>

lemma recordBurnSample_window:
  assumes "0 < windowN" and "windowN \<le> cap"
  shows "slice_last windowN (recordBurnSample samples x cap) = slice_last windowN (samples @ [x])"
proof -
  have "m - (m - nat cap) - nat windowN + (m - nat cap) = m - nat windowN" for m
    using assms by linarith
  then show ?thesis
    using assms by (simp only: recordBurnSample_def slice_last_def length_drop drop_drop) simp
qed

subsection \<open>The stop\<close>

lemma allowance_bounds:
  "0 \<le> allowance (sweepGapStop st th)" "allowance (sweepGapStop st th) \<le> allowance_cap th" "0 \<le> allowance_cap th"
proof -
  have w: "0 \<le> wholeCount x" for x by (auto simp: wholeCount_def split: jsnum.splits)
  show cap: "0 \<le> allowance_cap th" by (auto simp: allowance_cap_def split: jsnum.splits)
  have eq: "allowance (sweepGapStop st th) =
      (if strandedLedgerIsComplete (closer st)
       then min (wholeCount (strandedNeverTerminalTotal (closer st)) + wholeCount (strandedStillDelegatedTotal (closer st))) (allowance_cap th)
       else max 0 (min (allowance_cap th) (case sweepGapOf (arena st) of None \<Rightarrow> 0 | Some x \<Rightarrow> x)))"
    by (auto simp: sweepGapStop_def Let_def split: option.splits)
  show "0 \<le> allowance (sweepGapStop st th)"
    unfolding eq using w [of "strandedNeverTerminalTotal (closer st)"] w [of "strandedStillDelegatedTotal (closer st)"] cap
    by simp
  show "allowance (sweepGapStop st th) \<le> allowance_cap th" unfolding eq using cap by simp
qed

lemma sweepGapStop_tripped:
  "sv_tripped (sweepGapStop st th) \<longleftrightarrow>
     latchedIn st \<or>
     (\<exists>g. sweepGapOf (arena st) = Some g \<and> 0 < stopAtGapRounds th \<and>
        stopAtGapRounds th \<le> of_int (g - allowance (sweepGapStop st th)))"
  by (auto simp: sweepGapStop_def Let_def split: option.splits)

text \<open>The stop is neither early nor late. A keeper that has already stopped stays stopped. Otherwise
  it does not stop while the gap is below the threshold or unknown, and it has stopped by the time the
  gap reaches the threshold plus the whole allowance, however the ledger of unsweepable rounds stands;
  a threshold of zero or less turns the device off.\<close>

theorem sweep_stop_window:
  "(latchedIn st \<longrightarrow> sv_tripped (sweepGapStop st th)) \<and>
   (\<not> latchedIn st \<longrightarrow>
     (sv_tripped (sweepGapStop st th) \<longrightarrow>
        (\<exists>g. sweepGapOf (arena st) = Some g \<and> 0 < stopAtGapRounds th \<and> stopAtGapRounds th \<le> of_int g)) \<and>
     (\<forall>g. sweepGapOf (arena st) = Some g \<and> 0 < stopAtGapRounds th \<and>
        stopAtGapRounds th + of_int (allowance_cap th) \<le> of_int g \<longrightarrow> sv_tripped (sweepGapStop st th)))"
proof -
  have b: "(0 :: rat) \<le> of_int (allowance (sweepGapStop st th))"
    "(of_int (allowance (sweepGapStop st th)) :: rat) \<le> of_int (allowance_cap th)"
    using allowance_bounds(1,2) [of st th] by simp_all
  show ?thesis
    unfolding sweepGapStop_tripped using b by (auto simp: of_int_diff)
qed

definition demo_state :: reclamation_state where
  "demo_state = \<lparr>observedAtSec = 0, arena = Some \<lparr>roundCounter = 100, roundsSwept = Some 50, polledAtSec = 0\<rparr>,
     closer = \<lparr>cl_cursor = 80, reclaimed = 80, cl_skipped = [], strandedNeverTerminal = [],
       strandedStillDelegated = [], closing = True, caughtUpOnce = False, skippedTotal = Fin 0,
       strandedNeverTerminalTotal = Fin 0, strandedStillDelegatedTotal = Fin 0\<rparr>,
     burnSamplesLamports = [], burnSamplingSuspended = False, operatorLamports = None,
     sweepStoppedSinceSec = None\<rparr>"

definition demo_thresholds :: reclamation_thresholds where
  "demo_thresholds = \<lparr>burnLamportsPerRound = 5000000, armAfterSamples = 45, windowSamples = 20,
     stopAtGapRounds = 25, strandedAllowanceRounds = Fin 25\<rparr>"

theorem sweep_stop_window_witness: "sv_tripped (sweepGapStop demo_state demo_thresholds)"
  using sweep_stop_window [of demo_state demo_thresholds]
  by (simp add: demo_state_def demo_thresholds_def latchedIn_def sweepGapOf_def allowance_cap_def)

end
