(* ===== verification/Loop_Watchdog.thy ===== *)
theory Loop_Watchdog
  imports Keeper_Config
begin

text \<open>
  The watchdog of the keeper's main loop: \<^verbatim>\<open>src/er-demo/scripts/keeper/loopWatchdog.ts\<close>. The
  closure's variables are a record; the callbacks \<open>onStall\<close> and \<open>exit\<close> are what it
  emits, newest first. Every operation carries the reading of the monotonic clock it makes. A throwing
  \<open>onStall\<close> is caught by the source and changes nothing, and in the process \<open>exit\<close> does not
  return; the model goes on, as a test's stub would.
\<close>

datatype watchdog_output = OnStall | ExitOne

record watchdog =
  lastPassAtMs :: "rat option"
  stalled :: bool
  wd_armed :: bool
  emitted :: "watchdog_output list"

datatype watchdog_op = Arm rat | PassCompleted rat | Check rat | Disarm

definition createLoopWatchdog :: watchdog where
  "createLoopWatchdog = \<lparr>lastPassAtMs = None, stalled = False, wd_armed = False, emitted = []\<rparr>"

definition passAgeSeconds :: "watchdog \<Rightarrow> rat \<Rightarrow> rat" where
  "passAgeSeconds w now = (case lastPassAtMs w of None \<Rightarrow> 0 | Some t \<Rightarrow> (now - t) / 1000)"

definition liveness :: "watchdog \<Rightarrow> rat \<Rightarrow> rat \<times> bool" where
  "liveness w now = (passAgeSeconds w now, stalled w)"

definition wd_arm :: "rat \<Rightarrow> watchdog \<Rightarrow> watchdog" where
  "wd_arm now w = w\<lparr>lastPassAtMs := Some now, stalled := False, wd_armed := True\<rparr>"

definition passCompleted :: "rat \<Rightarrow> watchdog \<Rightarrow> watchdog" where
  "passCompleted now w = w\<lparr>lastPassAtMs := Some now, stalled := False\<rparr>"

definition wd_check :: "loop_config \<Rightarrow> rat \<Rightarrow> watchdog \<Rightarrow> watchdog" where
  "wd_check c now w =
     (if \<not> wd_armed w then w
      else
        let age = passAgeSeconds w now;
            w1 = (if age \<ge> LOOP_STALL_PUBLISH_SECONDS c \<and> \<not> stalled w
                  then w\<lparr>stalled := True, emitted := OnStall # emitted w\<rparr> else w)
        in if age \<ge> LOOP_STALL_EXIT_SECONDS c
           then w1\<lparr>emitted := ExitOne # emitted w1, wd_armed := False\<rparr> else w1)"

definition wd_disarm :: "watchdog \<Rightarrow> watchdog" where
  "wd_disarm w = w\<lparr>wd_armed := False\<rparr>"

fun wd_step :: "loop_config \<Rightarrow> watchdog_op \<Rightarrow> watchdog \<Rightarrow> unit + watchdog" where
  "wd_step c (Arm now) w = Inr (wd_arm now w)"
| "wd_step c (PassCompleted now) w = Inr (passCompleted now w)"
| "wd_step c (Check now) w = Inr (wd_check c now w)"
| "wd_step c Disarm w = Inr (wd_disarm w)"

lemmas wd_defs = wd_arm_def passCompleted_def wd_check_def wd_disarm_def createLoopWatchdog_def

subsection \<open>Every exit is announced\<close>

definition wd_inv :: "watchdog \<Rightarrow> bool" where
  "wd_inv w \<longleftrightarrow>
     count_list (emitted w) ExitOne + (if stalled w \<and> wd_armed w then 1 else 0)
       \<le> count_list (emitted w) OnStall"

lemma wd_check_inv:
  assumes "LOOP_STALL_PUBLISH_SECONDS c < LOOP_STALL_EXIT_SECONDS c" and "wd_inv w"
  shows "wd_inv (wd_check c now w)"
  using assms by (auto simp: wd_check_def wd_inv_def Let_def split: if_splits)

lemma wd_other_inv:
  assumes "wd_inv w"
  shows "wd_inv (wd_arm now w)" "wd_inv (passCompleted now w)" "wd_inv (wd_disarm w)"
  using assms by (auto simp: wd_inv_def wd_arm_def passCompleted_def wd_disarm_def split: if_splits)

interpretation wd: invariant_machine "wd_step c" "\<lambda>_. LOOP_STALL_PUBLISH_SECONDS c < LOOP_STALL_EXIT_SECONDS c" wd_inv
  for c
proof unfold_locales
  fix s x s'
  assume "wd_inv s" "LOOP_STALL_PUBLISH_SECONDS c < LOOP_STALL_EXIT_SECONDS c" "wd_step c x s = Inr s'"
  then show "wd_inv s'"
    by (cases x) (auto intro: wd_check_inv wd_other_inv)
qed

text \<open>The last instant the loop was armed or completed a pass.\<close>

fun last_progress :: "watchdog_op list \<Rightarrow> rat option" where
  "last_progress [] = None"
| "last_progress (x # xs) =
     (case last_progress xs of
        Some t \<Rightarrow> Some t
      | None \<Rightarrow> (case x of Arm t \<Rightarrow> Some t | PassCompleted t \<Rightarrow> Some t | _ \<Rightarrow> None))"

lemma wd_check_last [simp]: "lastPassAtMs (wd_check c now w) = lastPassAtMs w"
  by (simp add: wd_check_def Let_def)

lemma run_last_progress:
  "lastPassAtMs (run_ops (wd_step c) ops w) =
     (case last_progress ops of None \<Rightarrow> lastPassAtMs w | Some t \<Rightarrow> Some t)"
proof (induction ops arbitrary: w)
  case (Cons x ops)
  then show ?case
    by (cases x) (auto simp: wd_arm_def passCompleted_def wd_disarm_def split: option.splits)
qed simp

text \<open>The keeper dies only of silence, and says so first. After any sequence of operations, a check
  makes the process exit exactly when the watchdog is armed and the loop has made no progress for the
  configured time; and along every run there are at most as many exits as stall notices, so no exit
  comes unannounced.\<close>

theorem watchdog_exits_only_on_silence:
  assumes "boot env = Inr kc"
  shows "let w = run_ops (wd_step (loop_c kc)) ops createLoopWatchdog; w' = wd_check (loop_c kc) now w in
    (emitted w' \<noteq> emitted w \<and> hd (emitted w') = ExitOne \<longleftrightarrow>
      wd_armed w \<and> (\<exists>t. last_progress ops = Some t \<and>
        1000 * LOOP_STALL_EXIT_SECONDS (loop_c kc) \<le> now - t)) \<and>
    count_list (emitted w') ExitOne \<le> count_list (emitted w') OnStall"
proof -
  let ?c = "loop_c kc"
  let ?w = "run_ops (wd_step ?c) ops createLoopWatchdog"
  note lc = boot_loop_facts [OF bootE(3) [OF assms]]
  have pos: "0 < LOOP_STALL_EXIT_SECONDS ?c" using lc by (simp add: ERROR_BACKOFF_MAX_SECONDS_def)
  have inv: "wd_inv ?w"
    using lc by (intro wd.run_inv) (auto simp: wd_inv_def createLoopWatchdog_def list_all_iff)
  have "wd_inv (wd_check ?c now ?w)" by (rule wd_check_inv [OF lc(2) inv])
  then have "count_list (emitted (wd_check ?c now ?w)) ExitOne \<le> count_list (emitted (wd_check ?c now ?w)) OnStall"
    by (simp add: wd_inv_def split: if_splits)
  moreover have "emitted (wd_check ?c now ?w) \<noteq> emitted ?w \<and> hd (emitted (wd_check ?c now ?w)) = ExitOne \<longleftrightarrow>
      wd_armed ?w \<and> LOOP_STALL_EXIT_SECONDS ?c \<le> passAgeSeconds ?w now"
    by (auto simp: wd_check_def Let_def)
  moreover have "lastPassAtMs ?w = last_progress ops"
    by (simp add: run_last_progress createLoopWatchdog_def split: option.splits)
  then have "LOOP_STALL_EXIT_SECONDS ?c \<le> passAgeSeconds ?w now \<longleftrightarrow>
      (\<exists>t. last_progress ops = Some t \<and> 1000 * LOOP_STALL_EXIT_SECONDS ?c \<le> now - t)"
    using pos by (auto simp: passAgeSeconds_def le_divide_eq mult.commute split: option.splits)
  ultimately show ?thesis by (simp add: Let_def)
qed

theorem watchdog_exits_only_on_silence_witness:
  "hd (emitted (wd_check (loop_c default_config) 600000
     (run_ops (wd_step (loop_c default_config)) [Arm 0] createLoopWatchdog))) = ExitOne"
proof -
  have "wd_armed (run_ops (wd_step (loop_c default_config)) [Arm 0] createLoopWatchdog)"
    by (simp add: wd_arm_def)
  then show ?thesis
    using watchdog_exits_only_on_silence [OF boot_default, of "[Arm 0]" 600000]
    by (simp add: Let_def default_config_def)
qed

end
