(* ===== verification/Auto_Policy.thy ===== *)
theory Auto_Policy
  imports Contract
begin

text \<open>
  The limits of an unattended run: \<^verbatim>\<open>src/er-demo/src/v2/data/autoPolicy.ts\<close>, with the signing
  plan of \<^verbatim>\<open>src/er-demo/src/v2/data/autoSession.ts\<close>. A number the player types may be any
  \<open>jsnum\<close>; what the code adds up itself is rational; bigint amounts and round numbers are
  integers. Of a round in the log the record keeps what is read: its number, its phase, and what each
  player made. Sentences shown to the player are not modelled.
\<close>

subsection \<open>Who may sign\<close>

datatype session_off_reason = OffFixture | OffBurner | OffStopped | OffUnaffordable | OffBlocked

datatype signing_plan = PlanSession | PlanOpenThenSession | PlanWallet session_off_reason

record signing_plan_input =
  fixture :: bool
  burnerMode :: bool
  auto_on :: bool
  sessionActive :: bool
  gateBlocked :: bool
  solBalance :: "rat option"

definition ASSUMED_SESSION_START_SOL :: rat where "ASSUMED_SESSION_START_SOL = 21 / 1000"

definition canAffordSession :: "rat option \<Rightarrow> bool" where
  "canAffordSession b = (case b of None \<Rightarrow> True | Some x \<Rightarrow> x \<ge> ASSUMED_SESSION_START_SOL)"

definition signingPlan :: "signing_plan_input \<Rightarrow> signing_plan" where
  "signingPlan i =
     (if fixture i then PlanWallet OffFixture
      else if sessionActive i \<and> auto_on i then PlanSession
      else if \<not> auto_on i then PlanWallet OffStopped
      else if burnerMode i then PlanWallet OffBurner
      else if gateBlocked i then PlanWallet OffBlocked
      else if \<not> canAffordSession (solBalance i) then PlanWallet OffUnaffordable
      else PlanOpenThenSession)"

datatype unattended_block = NeedsSession | SessionStopped | SessionUnaffordable | NoSigner

datatype unattended_signing = Silent | Blocked unattended_block

definition unattendedSigning :: "signing_plan \<Rightarrow> unattended_signing" where
  "unattendedSigning plan =
     (case plan of
        PlanSession \<Rightarrow> Silent
      | PlanOpenThenSession \<Rightarrow> Blocked NeedsSession
      | PlanWallet OffBurner \<Rightarrow> Silent
      | PlanWallet OffFixture \<Rightarrow> Silent
      | PlanWallet OffStopped \<Rightarrow> Blocked SessionStopped
      | PlanWallet OffUnaffordable \<Rightarrow> Blocked SessionUnaffordable
      | PlanWallet OffBlocked \<Rightarrow> Blocked NoSigner)"

text \<open>\<open>Inl ()\<close> is the refusal to open a wallet dialog; \<open>Inr s\<close> is one call of
  \<open>send\<close> with that session, or with none.\<close>

definition runUnattendedEntry :: "signing_plan \<Rightarrow> 's option \<Rightarrow> unit + 's option" where
  "runUnattendedEntry plan session =
     (case unattendedSigning plan of
        Blocked _ \<Rightarrow> Inl ()
      | Silent \<Rightarrow>
          if plan = PlanSession then (case session of None \<Rightarrow> Inl () | Some s \<Rightarrow> Inr (Some s))
          else Inr None)"

subsection \<open>Limits\<close>

record auto_limits =
  budgetUsd :: jsnum
  perRoundCapUsd :: jsnum
  drawdownStopPct :: "jsnum option"
  maxRounds :: "jsnum option"

definition DEFAULT_LIMITS :: auto_limits where
  "DEFAULT_LIMITS =
     \<lparr>budgetUsd = Fin 250, perRoundCapUsd = Fin STAKE_CAP_USD, drawdownStopPct = Some (Fin 50),
      maxRounds = None\<rparr>"

datatype limit_block = DrawdownStopped | DrawdownUnknown | BudgetSpent | RoundCeiling

definition drawdownStopUsd :: "auto_limits \<Rightarrow> rat option" where
  "drawdownStopUsd l =
     (case drawdownStopPct l of
        None \<Rightarrow> None
      | Some pct \<Rightarrow>
          (case (pct, budgetUsd l) of
             (Fin p, Fin b) \<Rightarrow> Some (b * p / 100)
           | _ \<Rightarrow> None))"

subsection \<open>Profit and loss of a run\<close>

record run_pnl =
  settledUnits :: int
  bookedThrough :: "int option"
  pnl_wallet :: string
  lastEnteredRound :: "int option"

definition EMPTY_RUN_PNL :: run_pnl where
  "EMPTY_RUN_PNL = \<lparr>settledUnits = 0, bookedThrough = None, pnl_wallet = '''', lastEnteredRound = None\<rparr>"

datatype run_pnl_reading = Known rat | Unreadable rat | Gap int rat

record round_summary =
  rs_roundNo :: int
  rs_phase :: phase
  rs_players :: "(string \<times> int) list"

definition provenLossUsd :: "run_pnl_reading \<Rightarrow> rat" where
  "provenLossUsd pnl =
     (let u = (case pnl of Known x \<Rightarrow> x | Unreadable b \<Rightarrow> b | Gap _ b \<Rightarrow> b) in max 0 (- u))"

definition roundIsFinal :: "phase \<Rightarrow> bool" where
  "roundIsFinal ph \<longleftrightarrow> ph = Settled \<or> ph = Abandoned"

definition playerUnits :: "round_summary \<Rightarrow> string \<Rightarrow> int" where
  "playerUnits r you = sum_list (map snd (filter (\<lambda>p. fst p = you) (rs_players r)))"

definition pnlEntered :: "run_pnl \<Rightarrow> int \<Rightarrow> string \<Rightarrow> run_pnl" where
  "pnlEntered p roundNo w =
     (if pnl_wallet p \<noteq> '''' \<and> pnl_wallet p \<noteq> w then p
      else if (case lastEnteredRound p of None \<Rightarrow> False | Some l \<Rightarrow> roundNo \<le> l) then p
      else
        let square = (bookedThrough p = lastEnteredRound p)
        in p\<lparr>pnl_wallet := w,
             bookedThrough := (if square then Some (roundNo - 1) else bookedThrough p),
             lastEnteredRound := Some roundNo\<rparr>)"

text \<open>\<open>byRound\<close>: the last round of the log with that number.\<close>

definition byRound :: "round_summary list \<Rightarrow> int \<Rightarrow> round_summary option" where
  "byRound rounds r = List.find (\<lambda>x. rs_roundNo x = r) (rev rounds)"

fun book_loop :: "round_summary list \<Rightarrow> string \<Rightarrow> int \<Rightarrow> nat \<Rightarrow> int \<times> int option \<Rightarrow> int \<times> int option" where
  "book_loop rounds you r 0 acc = acc"
| "book_loop rounds you r (Suc k) (units, through) =
     (case byRound rounds r of
        None \<Rightarrow> (units, through)
      | Some x \<Rightarrow>
          if \<not> roundIsFinal (rs_phase x) then (units, through)
          else book_loop rounds you (r + 1) k (units + playerUnits x you, Some r))"

definition next_unbooked :: "run_pnl \<Rightarrow> int \<Rightarrow> int" where
  "next_unbooked p lastRound = (case bookedThrough p of None \<Rightarrow> lastRound | Some b \<Rightarrow> b + 1)"

definition bookSettledRounds :: "run_pnl \<Rightarrow> round_summary list \<Rightarrow> string \<Rightarrow> run_pnl" where
  "bookSettledRounds p rounds you =
     (case lastEnteredRound p of
        None \<Rightarrow> p
      | Some l \<Rightarrow>
          if you = '''' then p
          else if pnl_wallet p \<noteq> '''' \<and> pnl_wallet p \<noteq> you then p
          else
            let lo = next_unbooked p l in
            if lo > l then p
            else
              let (units, through) =
                    book_loop rounds you lo (nat (l - lo + 1)) (settledUnits p, bookedThrough p)
              in if through = bookedThrough p then p
                 else p\<lparr>settledUnits := units, bookedThrough := through\<rparr>)"

definition newest_round :: "round_summary list \<Rightarrow> int option" where
  "newest_round rounds =
     foldl (\<lambda>acc r. case acc of None \<Rightarrow> Some (rs_roundNo r)
              | Some n \<Rightarrow> if rs_roundNo r > n then Some (rs_roundNo r) else Some n) None rounds"

definition open_units :: "round_summary list \<Rightarrow> string \<Rightarrow> int \<Rightarrow> int \<Rightarrow> int" where
  "open_units rounds you lo hi =
     sum_list (map (\<lambda>r. playerUnits r you) (filter (\<lambda>r. lo \<le> rs_roundNo r \<and> rs_roundNo r \<le> hi) rounds))"

definition readRunPnl :: "run_pnl \<Rightarrow> round_summary list \<Rightarrow> string \<Rightarrow> run_pnl_reading" where
  "readRunPnl p rounds you =
     (case lastEnteredRound p of
        None \<Rightarrow> Known 0
      | Some l \<Rightarrow>
          let bookedUsd = unitsToUsd (settledUnits p) in
          if you = '''' then Unreadable bookedUsd
          else if pnl_wallet p \<noteq> '''' \<and> pnl_wallet p \<noteq> you then Unreadable bookedUsd
          else
            let nxt = next_unbooked p l in
            if nxt > l then Known bookedUsd
            else
              case newest_round rounds of
                None \<Rightarrow> Unreadable bookedUsd
              | Some newest \<Rightarrow>
                  let pending = unitsToUsd (settledUnits p + open_units rounds you nxt l) in
                  if \<exists>r \<in> set rounds. rs_roundNo r = nxt then Known pending
                  else if nxt > newest then Known pending
                  else
                    let guaranteed = (if newest > int MIN_RETAINED_ROUNDS
                                      then newest - int MIN_RETAINED_ROUNDS + 1 else 1)
                    in if nxt \<ge> guaranteed then Unreadable bookedUsd else Gap nxt bookedUsd)"

subsection \<open>The tally of a run\<close>

datatype tally_outcome = Entered | Missed

record run_tally =
  armedAtMs :: rat
  entered :: int
  spentUsd :: rat
  missed :: int
  firstRound :: "int option"
  lastRound :: "int option"
  lastOutcome :: "tally_outcome option"

definition EMPTY_TALLY :: run_tally where
  "EMPTY_TALLY = \<lparr>armedAtMs = 0, entered = 0, spentUsd = 0, missed = 0, firstRound = None,
     lastRound = None, lastOutcome = None\<rparr>"

definition first_or :: "'a option \<Rightarrow> 'a \<Rightarrow> 'a option" where
  "first_or x d = (case x of None \<Rightarrow> Some d | Some y \<Rightarrow> Some y)"

definition tallyEntered :: "run_tally \<Rightarrow> int \<Rightarrow> jsnum \<Rightarrow> run_tally" where
  "tallyEntered t roundNo amountUsd =
     (if (case lastRound t of None \<Rightarrow> False | Some l \<Rightarrow> roundNo < l) then t
      else
        let correctingAMiss = (lastRound t = Some roundNo \<and> lastOutcome t = Some Missed) in
        if lastRound t = Some roundNo \<and> \<not> correctingAMiss then t
        else t\<lparr>entered := entered t + 1,
               missed := (if correctingAMiss then missed t - 1 else missed t),
               spentUsd := spentUsd t + (case amountUsd of Fin q \<Rightarrow> q | _ \<Rightarrow> 0),
               firstRound := first_or (firstRound t) roundNo,
               lastRound := Some roundNo, lastOutcome := Some Entered\<rparr>)"

definition tallyMissed :: "run_tally \<Rightarrow> int \<Rightarrow> run_tally" where
  "tallyMissed t roundNo =
     (if (case lastRound t of None \<Rightarrow> False | Some l \<Rightarrow> roundNo \<le> l) then t
      else t\<lparr>missed := missed t + 1, firstRound := first_or (firstRound t) roundNo,
             lastRound := Some roundNo, lastOutcome := Some Missed\<rparr>)"

definition limitBlock :: "auto_limits \<Rightarrow> run_tally \<Rightarrow> run_pnl_reading \<Rightarrow> limit_block option" where
  "limitBlock l t pnl =
     (let stopUsd = drawdownStopUsd l;
          stopSet = (drawdownStopPct l \<noteq> None);
          knownUsd = (case pnl of Known u \<Rightarrow> Some u | _ \<Rightarrow> None);
          lostUsd = provenLossUsd pnl;
          budgetLeft = js_sub (budgetUsd l) (Fin (spentUsd t))
      in if (case stopUsd of None \<Rightarrow> False | Some s \<Rightarrow> lostUsd > 0 \<and> lostUsd \<ge> s) then Some DrawdownStopped
         else if \<not> js_isFinite budgetLeft \<or> js_less budgetLeft (Fin MIN_STAKE_USD) then Some BudgetSpent
         else if (case maxRounds l of None \<Rightarrow> False | Some m \<Rightarrow> \<not> js_less (Fin (of_int (entered t))) m)
           then Some RoundCeiling
         else if stopSet \<and> (stopUsd = None \<or> knownUsd = None) then Some DrawdownUnknown
         else None)"

definition clampToLimits :: "jsnum \<Rightarrow> auto_limits \<Rightarrow> rat \<Rightarrow> rat option" where
  "clampToLimits amountUsd l spent =
     (if \<not> js_isFinite amountUsd \<or> js_le amountUsd (Fin 0) then None
      else
        case js_min (js_min (js_min amountUsd (perRoundCapUsd l)) (js_sub (budgetUsd l) (Fin spent)))
               (Fin STAKE_CAP_USD) of
          Fin room \<Rightarrow>
            if room < MIN_STAKE_USD then None
            else
              let cents = math_round (room * 100);
                  cents' = (if of_int cents / 100 > room then cents - 1 else cents)
              in Some (of_int cents' / 100)
        | _ \<Rightarrow> None)"

subsection \<open>The runway\<close>

definition ASSUMED_ROUND_SECONDS :: rat where "ASSUMED_ROUND_SECONDS = 90"

datatype runway_bound = Money | Session | Rounds

record runway_report =
  feePerRoundUsd :: rat
  roundsIfBreakEven :: "int option"
  roundsIfAllLost :: int
  roundsThisSession :: "int option"
  roundsToCeiling :: "jsnum option"
  binding :: runway_bound

definition finiteOrZero :: "jsnum \<Rightarrow> rat" where
  "finiteOrZero n = (case n of Fin q \<Rightarrow> max 0 q | _ \<Rightarrow> 0)"

definition runway :: "jsnum \<Rightarrow> int \<Rightarrow> auto_limits \<Rightarrow> run_tally \<Rightarrow> jsnum option \<Rightarrow> runway_report" where
  "runway stk bps l t sessionMinutesLeft =
     (let stakeUsd = finiteOrZero stk;
          fee = unitsToUsd (feeOn (usdToUnits stakeUsd) bps);
          budgetLeft = finiteOrZero (js_sub (budgetUsd l) (Fin (spentUsd t)));
          allLost = (if stakeUsd \<le> 0 then 0 else \<lfloor>budgetLeft / stakeUsd\<rfloor>);
          thisSession = map_option (\<lambda>m. \<lfloor>finiteOrZero (js_mul m (Fin 60)) / ASSUMED_ROUND_SECONDS\<rfloor>)
                          sessionMinutesLeft;
          toCeiling = map_option (\<lambda>m. js_max0 (js_sub m (Fin (of_int (entered t))))) (maxRounds l);
          (bound1, least) = (case toCeiling of
              Some m \<Rightarrow> if js_less m (Fin (of_int allLost)) then (Rounds, m) else (Money, Fin (of_int allLost))
            | None \<Rightarrow> (Money, Fin (of_int allLost)));
          bound2 = (case thisSession of
              Some n \<Rightarrow> if js_less (Fin (of_int n)) least then Session else bound1
            | None \<Rightarrow> bound1)
      in \<lparr>feePerRoundUsd = fee,
          roundsIfBreakEven = (if fee \<le> 0 then None else Some \<lfloor>budgetLeft / fee\<rfloor>),
          roundsIfAllLost = allLost, roundsThisSession = thisSession, roundsToCeiling = toCeiling,
          binding = bound2\<rparr>)"

text \<open>The only side rule there is: repeat the last side.\<close>

datatype side_rule = Repeat

fun chooseSide :: "side_rule \<Rightarrow> er_side option \<Rightarrow> er_side option" where
  "chooseSide Repeat lastSide = lastSide"

subsection \<open>What the limits guarantee\<close>

lemma round_down:
  fixes r :: rat
  shows "(if of_int (math_round r) > r then math_round r - 1 else math_round r) = \<lfloor>r\<rfloor>"
proof (rule sym, rule floor_unique)
  let ?k = "if of_int (math_round r) > r then math_round r - 1 else math_round r"
  have m: "of_int (math_round r) \<le> r + 1 / 2" "r + 1 / 2 < of_int (math_round r) + 1"
    unfolding math_round_def by linarith+
  show "of_int ?k \<le> r" using m by (auto split: if_splits)
  show "r < of_int ?k + 1" using m by auto
qed

lemma clampToLimits_Some:
  assumes "clampToLimits amountUsd l spent = Some x"
  obtains room a where "amountUsd = Fin a" and "room \<le> a" and "room \<le> STAKE_CAP_USD"
    and "\<And>b. budgetUsd l = Fin b \<Longrightarrow> room \<le> b - spent"
    and "\<And>c. perRoundCapUsd l = Fin c \<Longrightarrow> room \<le> c"
    and "MIN_STAKE_USD \<le> room" and "x = of_int \<lfloor>room * 100\<rfloor> / 100"
proof -
  let ?m1 = "js_min amountUsd (perRoundCapUsd l)"
  let ?m2 = "js_min ?m1 (js_sub (budgetUsd l) (Fin spent))"
  from assms obtain a where a: "amountUsd = Fin a"
    by (cases amountUsd) (auto simp: clampToLimits_def)
  from assms obtain room where room: "js_min ?m2 (Fin STAKE_CAP_USD) = Fin room" "MIN_STAKE_USD \<le> room"
    and x: "x = of_int (if of_int (math_round (room * 100)) / 100 > room
                        then math_round (room * 100) - 1 else math_round (room * 100)) / 100"
    by (auto simp: clampToLimits_def Let_def split: jsnum.splits if_splits)
  have x': "x = of_int \<lfloor>room * 100\<rfloor> / 100"
    unfolding x using round_down [of "room * 100"] by (simp add: less_divide_eq)
  have cap: "room \<le> STAKE_CAP_USD" using js_min_le(2) [OF room(1)] by simp
  have below: "room \<le> q" if "?m2 = Fin q" for q using js_min_le(1) [OF room(1) that] .
  have m2: "?m2 \<noteq> NaN" "?m2 \<noteq> NegInf" using room(1) by (auto simp: js_min_def split: if_splits)
  have bud: "room \<le> b - spent" if b: "budgetUsd l = Fin b" for b
  proof -
    have "js_sub (budgetUsd l) (Fin spent) = Fin (b - spent)" using b by simp
    then have "\<exists>q. ?m2 = Fin q \<and> q \<le> b - spent"
      using m2 by (cases ?m1) (auto simp: js_min_def split: if_splits)
    then show ?thesis using below by force
  qed
  have m1: "?m1 \<noteq> NaN" "?m1 \<noteq> NegInf" using m2 by (auto simp: js_min_def split: if_splits)
  have low: "room \<le> q" if q: "?m1 = Fin q" for q
  proof -
    have "\<exists>q'. ?m2 = Fin q' \<and> q' \<le> q"
      using q m2 by (cases "js_sub (budgetUsd l) (Fin spent)") (auto simp: js_min_def split: if_splits)
    then show ?thesis using below by force
  qed
  have "\<exists>q. ?m1 = Fin q \<and> q \<le> a"
    using a m1 by (cases "perRoundCapUsd l") (auto simp: js_min_def split: if_splits)
  then have am: "room \<le> a" using low by force
  have per: "room \<le> c" if "perRoundCapUsd l = Fin c" for c
  proof -
    have "?m1 = Fin (min a c)" using a that by (auto simp: js_min_def min_def)
    then show ?thesis using low by force
  qed
  show thesis using that [OF a am cap bud per room(2) x'] by blast
qed

lemma clamp_facts:
  assumes "clampToLimits amountUsd l spent = Some x"
  shows "\<exists>a. amountUsd = Fin a \<and> x \<le> a \<and> x \<le> STAKE_CAP_USD \<and> MIN_STAKE_USD \<le> x \<and>
    is_whole (x * 100) \<and>
    (\<forall>b. budgetUsd l = Fin b \<longrightarrow> spent + x \<le> b) \<and> (\<forall>c. perRoundCapUsd l = Fin c \<longrightarrow> x \<le> c)"
  using assms
proof (rule clampToLimits_Some)
  fix room a
  assume h: "amountUsd = Fin a" "room \<le> a" "room \<le> STAKE_CAP_USD"
    "\<And>b. budgetUsd l = Fin b \<Longrightarrow> room \<le> b - spent"
    "\<And>c. perRoundCapUsd l = Fin c \<Longrightarrow> room \<le> c"
    "MIN_STAKE_USD \<le> room" "x = of_int \<lfloor>room * 100\<rfloor> / 100"
  have x: "x * 100 = of_int \<lfloor>room * 100\<rfloor>" using h(7) by simp
  have "of_int \<lfloor>room * 100\<rfloor> \<le> room * 100" by (rule of_int_floor_le)
  then have "x * 100 \<le> room * 100" unfolding x .
  then have le: "x \<le> room" by simp
  have "1 \<le> \<lfloor>room * 100\<rfloor>" using h(6) by (simp add: MIN_STAKE_USD_def le_floor_iff)
  then have "(1 :: rat) \<le> of_int \<lfloor>room * 100\<rfloor>" by simp
  then have ge: "MIN_STAKE_USD \<le> x" using x by (simp add: MIN_STAKE_USD_def)
  have "is_whole (x * 100)" unfolding x by simp
  moreover have "spent + x \<le> b" if "budgetUsd l = Fin b" for b using h(4) [OF that] le by simp
  moreover have "x \<le> c" if "perRoundCapUsd l = Fin c" for c using h(5) [OF that] le by simp
  ultimately show ?thesis using h(1,2,3) le ge by (intro exI [of _ a]) auto
qed

text \<open>An unattended stake is never more than any of its limits. What is sent is at most what the rule
  asked for, the cap per round, the stake cap and what is left of the budget; it is a whole number of
  cents and at least the minimum stake; and if less than the minimum is left nothing is sent.\<close>

theorem clamp_within_limits:
  assumes "clampToLimits amountUsd l spent = Some x"
  shows "\<exists>a. amountUsd = Fin a \<and> x \<le> a \<and> x \<le> STAKE_CAP_USD \<and> MIN_STAKE_USD \<le> x \<and>
    is_whole (x * 100) \<and>
    (\<forall>b. budgetUsd l = Fin b \<longrightarrow> spent + x \<le> b) \<and> (\<forall>c. perRoundCapUsd l = Fin c \<longrightarrow> x \<le> c)"
  by (rule clamp_facts [OF assms])

theorem clamp_within_limits_witness:
  "clampToLimits (Fin 25) DEFAULT_LIMITS 240 = Some 10 \<and> 240 + (10 :: rat) \<le> 250"
proof -
  have c: "clampToLimits (Fin 25) DEFAULT_LIMITS 240 = Some 10"
    by (simp add: clampToLimits_def DEFAULT_LIMITS_def contract_constants js_min_def Let_def)
  then show ?thesis using clamp_within_limits [OF c] by (simp add: DEFAULT_LIMITS_def)
qed

lemma limitBlock_None:
  assumes "limitBlock l t pnl = None"
  shows "\<exists>b. budgetUsd l = Fin b \<and> spentUsd t + MIN_STAKE_USD \<le> b"
    and "maxRounds l = Some (Fin m) \<Longrightarrow> of_int (entered t) < m"
    and "drawdownStopPct l \<noteq> None \<Longrightarrow>
      \<exists>s u. drawdownStopUsd l = Some s \<and> pnl = Known u \<and> (u < 0 \<longrightarrow> - u < s)"
proof -
  show "\<exists>b. budgetUsd l = Fin b \<and> spentUsd t + MIN_STAKE_USD \<le> b"
    using assms by (cases "budgetUsd l") (auto simp: limitBlock_def Let_def js_sub_def split: if_splits)
  show "maxRounds l = Some (Fin m) \<Longrightarrow> of_int (entered t) < m"
    using assms by (auto simp: limitBlock_def Let_def split: if_splits)
  assume "drawdownStopPct l \<noteq> None"
  then show "\<exists>s u. drawdownStopUsd l = Some s \<and> pnl = Known u \<and> (u < 0 \<longrightarrow> - u < s)"
    using assms
    by (cases pnl; cases "drawdownStopUsd l") (auto simp: limitBlock_def Let_def provenLossUsd_def max_def split: if_splits)
qed

subsection \<open>Booking does not move the figure\<close>

lemma card_filter_one: "distinct (map f xs) \<Longrightarrow> length (filter (\<lambda>y. f y = k) xs) \<le> 1"
proof (induction xs)
  case (Cons x xs)
  show ?case
  proof (cases "f x = k")
    case True
    with Cons.prems have "filter (\<lambda>y. f y = k) xs = []"
      unfolding filter_empty_conv by (metis distinct.simps(2) image_eqI list.simps(9) set_map)
    with True show ?thesis by simp
  next
    case False
    with Cons show ?thesis by simp
  qed
qed simp

lemma filter_unique:
  assumes "distinct (map f xs)" and "List.find (\<lambda>x. f x = k) (rev xs) = Some x"
  shows "filter (\<lambda>x. f x = k) xs = [x]"
proof -
  from assms(2) have x: "x \<in> set xs" "f x = k" by (auto simp: find_Some_iff set_rev)
      (metis nth_mem set_rev length_rev)
  have "length (filter (\<lambda>y. f y = k) xs) \<le> 1"
    by (rule card_filter_one [OF assms(1)])
  moreover have "x \<in> set (filter (\<lambda>y. f y = k) xs)" using x by simp
  ultimately show ?thesis by (cases "filter (\<lambda>y. f y = k) xs") (auto simp: Suc_le_eq)
qed

lemma open_units_split:
  assumes "lo \<le> hi"
  shows "open_units rounds you lo hi =
    sum_list (map (\<lambda>r. playerUnits r you) (filter (\<lambda>r. rs_roundNo r = lo) rounds)) +
    open_units rounds you (lo + 1) hi"
  using assms by (induction rounds) (auto simp: open_units_def)

lemma open_units_empty: "hi < lo \<Longrightarrow> open_units rounds you lo hi = 0"
  by (induction rounds) (auto simp: open_units_def)

lemma open_units_next:
  assumes "distinct (map rs_roundNo rounds)" and "byRound rounds lo = Some x" and "lo \<le> hi"
  shows "open_units rounds you lo hi = playerUnits x you + open_units rounds you (lo + 1) hi"
  using open_units_split [OF assms(3), of rounds you]
    filter_unique [OF assms(1), of lo x] assms(2) by (simp add: byRound_def)

lemma book_loop_exact:
  assumes "distinct (map rs_roundNo rounds)"
  shows "book_loop rounds you r k (units, th) = (units', th') \<Longrightarrow> hi = r + int k - 1 \<Longrightarrow>
    \<exists>j \<le> k. units' + open_units rounds you (r + int j) hi = units + open_units rounds you r hi \<and>
      th' = (if j = 0 then th else Some (r + int j - 1))"
proof (induction k arbitrary: r units th)
  case 0
  then show ?case by simp
next
  case (Suc k)
  show ?case
  proof (cases "\<exists>x. byRound rounds r = Some x \<and> roundIsFinal (rs_phase x)")
    case False
    with Suc.prems(1) have "units' = units \<and> th' = th" by (auto split: option.splits if_splits)
    then show ?thesis by (intro exI [of _ 0]) simp
  next
    case True
    then obtain x where x: "byRound rounds r = Some x" "roundIsFinal (rs_phase x)" by blast
    with Suc.prems have "book_loop rounds you (r + 1) k (units + playerUnits x you, Some r) = (units', th')"
      "hi = r + 1 + int k - 1" by simp_all
    from Suc.IH [OF this] obtain j where j: "j \<le> k"
      "units' + open_units rounds you (r + 1 + int j) hi =
         units + playerUnits x you + open_units rounds you (r + 1) hi"
      "th' = (if j = 0 then Some r else Some (r + 1 + int j - 1))" by blast
    have "open_units rounds you r hi = playerUnits x you + open_units rounds you (r + 1) hi"
      using open_units_next [OF assms x(1)] Suc.prems(2) by simp
    with j show ?thesis by (intro exI [of _ "Suc j"]) (auto simp: algebra_simps)
  qed
qed

lemma booked_cases:
  assumes "distinct (map rs_roundNo rounds)"
  obtains (same) "bookSettledRounds p rounds you = p"
    | (moved) l lo j units where "lastEnteredRound p = Some l" and "lo = next_unbooked p l" and "lo \<le> l"
        and "you \<noteq> ''''" and "pnl_wallet p = '''' \<or> pnl_wallet p = you"
        and "0 < j" and "lo + int j \<le> l + 1"
        and "bookSettledRounds p rounds you = p\<lparr>settledUnits := units, bookedThrough := Some (lo + int j - 1)\<rparr>"
        and "units + open_units rounds you (lo + int j) l = settledUnits p + open_units rounds you lo l"
proof (cases "bookSettledRounds p rounds you = p")
  case True
  then show thesis by (rule same)
next
  case False
  then obtain l where l: "lastEnteredRound p = Some l" by (cases "lastEnteredRound p") (auto simp: bookSettledRounds_def)
  define lo where "lo = next_unbooked p l"
  obtain units th where bl: "book_loop rounds you lo (nat (l - lo + 1)) (settledUnits p, bookedThrough p) = (units, th)"
    by fastforce
  from False l bl have g: "you \<noteq> ''''" "pnl_wallet p = '''' \<or> pnl_wallet p = you" "lo \<le> l" "th \<noteq> bookedThrough p"
    and eq: "bookSettledRounds p rounds you = p\<lparr>settledUnits := units, bookedThrough := th\<rparr>"
    by (auto simp: bookSettledRounds_def Let_def lo_def split: if_splits)
  have "l = lo + int (nat (l - lo + 1)) - 1" using g(3) by simp
  from book_loop_exact [OF assms bl this] obtain j where j: "j \<le> nat (l - lo + 1)"
    "units + open_units rounds you (lo + int j) l = settledUnits p + open_units rounds you lo l"
    "th = (if j = 0 then bookedThrough p else Some (lo + int j - 1))" by blast
  with g(4) have "0 < j" by (cases j) auto
  then show thesis using moved [OF l lo_def g(3,1,2) _ _ _ j(2)] j(1,3) eq g(3) by auto
qed

lemma readRunPnl_known:
  assumes "lastEnteredRound p = Some l" and "readRunPnl p rounds you = Known x" and "you \<noteq> ''''"
  shows "x = unitsToUsd (settledUnits p + open_units rounds you (next_unbooked p l) l)"
  using assms open_units_empty [of l "next_unbooked p l" rounds you]
  by (auto simp: readRunPnl_def Let_def split: if_splits option.splits)

text \<open>Booking does not change the books. Moving finished rounds from the open to the settled column
  never changes the profit or loss of a run: whenever the figure can be read before and after, it is the
  same, and the bookmark only moves forward, never past the last round entered.\<close>

theorem booking_keeps_the_figure:
  assumes "distinct (map rs_roundNo rounds)"
    and "readRunPnl p rounds you = Known x" and "readRunPnl (bookSettledRounds p rounds you) rounds you = Known y"
  shows "x = y \<and> (\<forall>b l. bookedThrough p = Some b \<and> lastEnteredRound p = Some l \<and> b \<le> l \<longrightarrow>
    (\<exists>b'. bookedThrough (bookSettledRounds p rounds you) = Some b' \<and> b \<le> b' \<and> b' \<le> l))"
  using assms(1)
proof (cases rule: booked_cases [where p = p and you = you])
  case same
  then show ?thesis using assms(2,3) by simp
next
  case (moved l lo j units)
  let ?p' = "bookSettledRounds p rounds you"
  have l': "lastEnteredRound ?p' = Some l" "next_unbooked ?p' l = lo + int j" "settledUnits ?p' = units"
    using moved(1,8) by (simp_all add: next_unbooked_def)
  have "x = unitsToUsd (settledUnits p + open_units rounds you lo l)"
    using readRunPnl_known [OF moved(1) assms(2) moved(4)] moved(2) by simp
  moreover have "y = unitsToUsd (units + open_units rounds you (lo + int j) l)"
    using readRunPnl_known [OF l'(1) assms(3) moved(4)] l' by simp
  moreover have "b \<le> lo + int j - 1 \<and> lo + int j - 1 \<le> l" if "bookedThrough p = Some b" for b
    using that moved(2,6,7) by (simp add: next_unbooked_def)
  ultimately show ?thesis using moved(1,8,9) by simp
qed

definition demo_pnl :: run_pnl where
  "demo_pnl = \<lparr>settledUnits = 5, bookedThrough = Some 6, pnl_wallet = ''me'', lastEnteredRound = Some 7\<rparr>"

definition demo_log :: "round_summary list" where
  "demo_log = [\<lparr>rs_roundNo = 7, rs_phase = Settled, rs_players = [(''me'', -2), (''you'', 2)]\<rparr>]"

theorem booking_keeps_the_figure_witness:
  "readRunPnl demo_pnl demo_log ''me'' = readRunPnl (bookSettledRounds demo_pnl demo_log ''me'') demo_log ''me''"
proof -
  have b: "bookSettledRounds demo_pnl demo_log ''me'' = demo_pnl\<lparr>settledUnits := 3, bookedThrough := Some 7\<rparr>"
    by (simp add: bookSettledRounds_def demo_pnl_def demo_log_def next_unbooked_def byRound_def
        roundIsFinal_def playerUnits_def)
  have x: "readRunPnl demo_pnl demo_log ''me'' = Known (unitsToUsd 3)"
    by (simp add: readRunPnl_def demo_pnl_def demo_log_def next_unbooked_def newest_round_def
        open_units_def playerUnits_def)
  have "readRunPnl (bookSettledRounds demo_pnl demo_log ''me'') demo_log ''me'' = Known (unitsToUsd 3)"
    unfolding b by (simp add: readRunPnl_def demo_pnl_def next_unbooked_def)
  then show ?thesis
    using booking_keeps_the_figure [OF _ x] x by (simp add: demo_log_def)
qed

subsection \<open>Nothing unattended opens a dialog\<close>

lemma unattended_is_silent:
  assumes "runUnattendedEntry plan session = Inr s"
  shows "plan = PlanSession \<and> s \<noteq> None \<or> plan = PlanWallet OffBurner \<or> plan = PlanWallet OffFixture"
  using assms
  by (auto simp: runUnattendedEntry_def unattendedSigning_def
      split: signing_plan.splits session_off_reason.splits option.splits if_splits)

end
