(* ===== verification/Auto_Deploy.thy ===== *)
theory Auto_Deploy
  imports Auto_Policy
begin

text \<open>
  The repeat rule that deposits with nobody watching:
  \<^verbatim>\<open>src/er-demo/src/v2/data/autoDeploy.ts\<close> (its state, its decision and its transitions) and the
  hook that drives it, \<^verbatim>\<open>useAutoDeploy.ts\<close>. The first half is those pure functions. The second half
  puts them into a world: the page's props, the deposit in flight, the ones the page stopped waiting
  for, and the callbacks in whatever order they arrive. Sentences and toasts are not modelled; how a
  wallet's refusal is classified from its text is the argument of the event that reports it.
\<close>

subsection \<open>The state of the rule\<close>

definition MAX_TRIES :: nat where "MAX_TRIES = 3"
definition RETRY_BACKOFF_MS :: rat where "RETRY_BACKOFF_MS = 2000"

datatype amount_rule = Fixed jsnum | Pct jsnum

datatype attempt_outcome = Sending | Landed | Retrying | WrittenOff

datatype abandon_reason = EntriesClosed | PhaseMovedOn | RetriesExhausted | RoundMovedOn | SessionLapsed

record attempt_rec =
  at_roundNo :: int
  at_outcome :: attempt_outcome
  tries :: nat
  nextTryAtMs :: "rat option"
  at_signature :: "string option"
  at_error :: "string option"
  abandonedBecause :: "abandon_reason option"

record auto_state =
  armed :: bool
  ad_side :: "er_side option"
  ad_rule :: amount_rule
  floorRound :: "int option"
  attempt :: "attempt_rec option"
  sideRule :: side_rule
  limits :: auto_limits
  tally :: run_tally
  pnl :: run_pnl
  deadSessionEpoch :: "int option"

definition ARMED_BY_DEFAULT :: bool where "ARMED_BY_DEFAULT = False"

definition INITIAL_AUTO_DEPLOY :: auto_state where
  "INITIAL_AUTO_DEPLOY =
     \<lparr>armed = ARMED_BY_DEFAULT, ad_side = None, ad_rule = Fixed (Fin 5), floorRound = None,
      attempt = None, sideRule = Repeat, limits = DEFAULT_LIMITS, tally = EMPTY_TALLY,
      pnl = EMPTY_RUN_PNL, deadSessionEpoch = None\<rparr>"

definition simBankrollUsd :: "jsnum \<Rightarrow> jsnum \<Rightarrow> jsnum" where
  "simBankrollUsd ansem uwu = js_min ansem uwu"

definition resolveAmountUsd :: "amount_rule \<Rightarrow> jsnum \<Rightarrow> rat option" where
  "resolveAmountUsd r simWalletUsd =
     (let raw = (case r of Fixed usd \<Rightarrow> usd | Pct pct \<Rightarrow> js_div_nat (js_mul simWalletUsd pct) 100)
      in case raw of
           Fin q \<Rightarrow>
             if q < MIN_STAKE_USD then None
             else Some (min STAKE_CAP_USD (of_int (math_round (q * 100)) / 100))
         | _ \<Rightarrow> None)"

subsection \<open>The decision\<close>

datatype hold_reason =
    Disarmed | NoSide | NoRound | RoundChanging | WaitingForNextRound | DeployedThisRound
  | MissedThisRound | InFlight | AlreadyIn | AmountUnusable | Busy | BackingOff | LapsedSession
  | Signing unattended_block | Limited limit_block

datatype auto_decision =
    Fire (fire_round: int) (fire_side: er_side) (fire_usd: rat) (fire_no: nat)
  | Abandon int abandon_reason
  | Hold hold_reason

record auto_input =
  in_roundNo :: "int option"
  in_target :: "int option"
  in_phase :: "phase option"
  in_entriesOpen :: bool
  in_alreadyIn :: bool
  in_entering :: bool
  in_amountUsd :: "rat option"
  in_signing :: unattended_signing
  in_sessionEpoch :: int
  in_roundLog :: "round_summary list"
  in_you :: string
  in_nowMs :: rat

text \<open>The attempt record, if it is about that round.\<close>

definition attempt_for :: "auto_state \<Rightarrow> int \<Rightarrow> attempt_rec option" where
  "attempt_for s r =
     (case attempt s of None \<Rightarrow> None | Some a \<Rightarrow> if at_roundNo a = r then Some a else None)"

text \<open>The rungs below the identity of the round: limits, the amount, then whether the lobby can
  still be entered, and only then the transient reasons to wait.\<close>

definition decide_send :: "auto_state \<Rightarrow> auto_input \<Rightarrow> int \<Rightarrow> er_side \<Rightarrow> auto_decision" where
  "decide_send s i r sd =
     (let att = attempt_for s r in
      case limitBlock (limits s) (tally s) (readRunPnl (pnl s) (in_roundLog i) (in_you i)) of
        Some b \<Rightarrow> Hold (Limited b)
      | None \<Rightarrow>
        (case in_amountUsd i of
           None \<Rightarrow> Hold AmountUnusable
         | Some usd \<Rightarrow>
           (case clampToLimits (Fin usd) (limits s) (spentUsd (tally s)) of
              None \<Rightarrow> Hold AmountUnusable
            | Some sendable \<Rightarrow>
                if in_phase i \<noteq> Some Lobby then Abandon r PhaseMovedOn
                else if \<not> in_entriesOpen i then Abandon r EntriesClosed
                else if (case att of None \<Rightarrow> False | Some a \<Rightarrow> tries a \<ge> MAX_TRIES)
                  then Abandon r RetriesExhausted
                else if in_entering i then Hold Busy
                else if (case att of None \<Rightarrow> False
                         | Some a \<Rightarrow> (case nextTryAtMs a of None \<Rightarrow> False | Some t \<Rightarrow> in_nowMs i < t))
                  then Hold BackingOff
                else Fire r sd sendable ((case att of None \<Rightarrow> 0 | Some a \<Rightarrow> tries a) + 1))))"

definition decideAutoDeploy :: "auto_state \<Rightarrow> auto_input \<Rightarrow> auto_decision" where
  "decideAutoDeploy s i =
     (if \<not> armed s then Hold Disarmed
      else
        case chooseSide (sideRule s) (ad_side s) of
          None \<Rightarrow> Hold NoSide
        | Some sd \<Rightarrow>
          (case in_roundNo i of
             None \<Rightarrow> Hold NoRound
           | Some r \<Rightarrow>
               if in_target i \<noteq> Some r then Hold RoundChanging
               else if (case floorRound s of None \<Rightarrow> False | Some f \<Rightarrow> r \<le> f) then Hold WaitingForNextRound
               else
                 let out = map_option at_outcome (attempt_for s r) in
                 if out = Some Landed then Hold DeployedThisRound
                 else if out = Some WrittenOff then Hold MissedThisRound
                 else if out = Some Sending then Hold InFlight
                 else if map_option at_outcome (attempt s) = Some Sending then Hold InFlight
                 else if in_alreadyIn i then Hold AlreadyIn
                 else if deadSessionEpoch s = Some (in_sessionEpoch i) then Hold LapsedSession
                 else
                   case in_signing i of
                     Blocked b \<Rightarrow> Hold (Signing b)
                   | Silent \<Rightarrow> decide_send s i r sd))"

subsection \<open>The transitions\<close>

definition armWith :: "amount_rule \<Rightarrow> side_rule \<Rightarrow> auto_limits \<Rightarrow> int option \<Rightarrow> rat \<Rightarrow> auto_state \<Rightarrow> auto_state" where
  "armWith amount sr l visibleRoundNo nowMs s =
     s\<lparr>armed := True, ad_rule := amount, sideRule := sr, limits := l, floorRound := visibleRoundNo,
       attempt := None, tally := EMPTY_TALLY\<lparr>armedAtMs := nowMs\<rparr>, pnl := EMPTY_RUN_PNL,
       deadSessionEpoch := None\<rparr>"

definition arm :: "amount_rule \<Rightarrow> int option \<Rightarrow> rat \<Rightarrow> auto_state \<Rightarrow> auto_state" where
  "arm r visibleRoundNo nowMs s = armWith r (sideRule s) (limits s) visibleRoundNo nowMs s"

definition disarm :: "auto_state \<Rightarrow> auto_state" where
  "disarm s = s\<lparr>armed := False\<rparr>"

text \<open>\<open>===\<close> on numbers: \<open>NaN\<close> is not even itself.\<close>

definition js_same :: "jsnum \<Rightarrow> jsnum \<Rightarrow> bool" where
  "js_same a b \<longleftrightarrow> a = b \<and> a \<noteq> NaN"

fun js_same_opt :: "jsnum option \<Rightarrow> jsnum option \<Rightarrow> bool" where
  "js_same_opt None None = True"
| "js_same_opt (Some a) (Some b) = js_same a b"
| "js_same_opt _ _ = False"

fun sameRule :: "amount_rule \<Rightarrow> amount_rule \<Rightarrow> bool" where
  "sameRule (Fixed a) (Fixed b) = js_same a b"
| "sameRule (Pct a) (Pct b) = js_same a b"
| "sameRule _ _ = False"

definition setRule :: "amount_rule \<Rightarrow> auto_state \<Rightarrow> auto_state" where
  "setRule r s = (if sameRule (ad_rule s) r then s else s\<lparr>ad_rule := r\<rparr>)"

definition sameLimits :: "auto_limits \<Rightarrow> auto_limits \<Rightarrow> bool" where
  "sameLimits a b \<longleftrightarrow>
     js_same (budgetUsd a) (budgetUsd b) \<and> js_same (perRoundCapUsd a) (perRoundCapUsd b) \<and>
     js_same_opt (drawdownStopPct a) (drawdownStopPct b) \<and> js_same_opt (maxRounds a) (maxRounds b)"

definition setLimits :: "auto_limits \<Rightarrow> auto_state \<Rightarrow> auto_state" where
  "setLimits l s = (if sameLimits (limits s) l then s else s\<lparr>limits := l\<rparr>)"

definition noteDeploy :: "er_side \<Rightarrow> auto_state \<Rightarrow> auto_state" where
  "noteDeploy sd s = (if ad_side s = Some sd then s else s\<lparr>ad_side := Some sd\<rparr>)"

definition noteRoundEntered :: "int \<Rightarrow> auto_state \<Rightarrow> auto_state" where
  "noteRoundEntered r s =
     (if (case attempt s of None \<Rightarrow> False | Some a \<Rightarrow> r < at_roundNo a) then s
      else
        let prior = attempt_for s r in
        if map_option at_outcome prior = Some Landed then s
        else s\<lparr>attempt := Some
               \<lparr>at_roundNo = r, at_outcome = Landed, tries = (case prior of None \<Rightarrow> 0 | Some a \<Rightarrow> tries a),
                nextTryAtMs = None, at_signature = (case prior of None \<Rightarrow> None | Some a \<Rightarrow> at_signature a),
                at_error = None, abandonedBecause = None\<rparr>\<rparr>)"

definition beginAttempt :: "int \<Rightarrow> auto_state \<Rightarrow> auto_state" where
  "beginAttempt r s =
     (let prior = attempt_for s r in
      s\<lparr>attempt := Some
         \<lparr>at_roundNo = r, at_outcome = Sending, tries = (case prior of None \<Rightarrow> 0 | Some a \<Rightarrow> tries a),
          nextTryAtMs = None, at_signature = None,
          at_error = (case prior of None \<Rightarrow> None | Some a \<Rightarrow> at_error a), abandonedBecause = None\<rparr>\<rparr>)"

definition attemptLanded :: "int \<Rightarrow> string \<Rightarrow> rat \<Rightarrow> string \<Rightarrow> auto_state \<Rightarrow> auto_state" where
  "attemptLanded r sig usd w s =
     (case attempt_for s r of
        None \<Rightarrow> s
      | Some a \<Rightarrow>
          s\<lparr>attempt := Some (a\<lparr>at_outcome := Landed, tries := tries a + 1, nextTryAtMs := None,
                                at_signature := Some sig, at_error := None\<rparr>),
            tally := tallyEntered (tally s) r (Fin usd), pnl := pnlEntered (pnl s) r w\<rparr>)"

definition bookRunPnl :: "round_summary list \<Rightarrow> string \<Rightarrow> auto_state \<Rightarrow> auto_state" where
  "bookRunPnl roundLog you s =
     (let p = bookSettledRounds (pnl s) roundLog you in if p = pnl s then s else s\<lparr>pnl := p\<rparr>)"

definition attemptFailed :: "int \<Rightarrow> string \<Rightarrow> rat \<Rightarrow> auto_state \<Rightarrow> auto_state" where
  "attemptFailed r err nowMs s =
     (case attempt_for s r of
        None \<Rightarrow> s
      | Some a \<Rightarrow>
          if at_outcome a = Landed then s
          else s\<lparr>attempt := Some (a\<lparr>at_outcome := Retrying, tries := tries a + 1,
                   nextTryAtMs := Some (nowMs + RETRY_BACKOFF_MS), at_error := Some err\<rparr>)\<rparr>)"

definition abandonAttempt :: "int \<Rightarrow> abandon_reason \<Rightarrow> auto_state \<Rightarrow> auto_state" where
  "abandonAttempt r reason s =
     (let prior = attempt_for s r in
      s\<lparr>attempt := Some
         \<lparr>at_roundNo = r, at_outcome = WrittenOff, tries = (case prior of None \<Rightarrow> 0 | Some a \<Rightarrow> tries a),
          nextTryAtMs = None, at_signature = None,
          at_error = (case prior of None \<Rightarrow> None | Some a \<Rightarrow> at_error a), abandonedBecause = Some reason\<rparr>,
        tally := tallyMissed (tally s) r\<rparr>)"

definition noteSessionRefused :: "int \<Rightarrow> int \<Rightarrow> auto_state \<Rightarrow> auto_state" where
  "noteSessionRefused r epoch s = (abandonAttempt r SessionLapsed s)\<lparr>deadSessionEpoch := Some epoch\<rparr>"

definition expireStaleAttempt :: "int option \<Rightarrow> auto_state \<Rightarrow> auto_state" where
  "expireStaleAttempt roundNo s =
     (case (attempt s, roundNo) of
        (Some a, Some r) \<Rightarrow>
          if at_roundNo a \<ge> r then s
          else if at_outcome a \<noteq> Retrying then s
          else abandonAttempt (at_roundNo a) RoundMovedOn s
      | _ \<Rightarrow> s)"

subsection \<open>The hook: one deposit confirmed, one send resolved\<close>

definition sending_now :: "auto_state \<Rightarrow> bool" where
  "sending_now s \<longleftrightarrow> map_option at_outcome (attempt s) = Some Sending"

definition bookConfirmedDeposit :: "er_side \<Rightarrow> int option \<Rightarrow> auto_state \<Rightarrow> auto_state" where
  "bookConfirmedDeposit sd roundNo s =
     (let withSide = noteDeploy sd s in
      case roundNo of
        None \<Rightarrow> withSide
      | Some r \<Rightarrow> if sending_now s then withSide else noteRoundEntered r withSide)"

definition lostRound :: "auto_state \<Rightarrow> auto_state \<Rightarrow> attempt_rec option" where
  "lostRound before after =
     (case attempt after of
        None \<Rightarrow> None
      | Some lost \<Rightarrow>
          if at_outcome lost \<noteq> WrittenOff then None
          else if (case attempt before of None \<Rightarrow> False
                   | Some a \<Rightarrow> at_roundNo a = at_roundNo lost \<and> at_outcome a = WrittenOff) then None
          else Some lost)"

definition walletSwapped :: "string \<Rightarrow> string \<Rightarrow> bool" where
  "walletSwapped previous nxt \<longleftrightarrow> previous \<noteq> '''' \<and> nxt \<noteq> '''' \<and> previous \<noteq> nxt"

datatype send_failure = FailedSession | FailedRetry

text \<open>How a send ended: with a signature, or with an error whose class and wording are given.\<close>

datatype send_result = Signature string | Failure send_failure string

record send =
  sd_roundNo :: int
  sd_side :: er_side
  sd_usd :: rat
  sd_epoch :: int
  sd_wallet :: string

definition applySendOutcome :: "send \<Rightarrow> send_result \<Rightarrow> rat \<Rightarrow> auto_state \<Rightarrow> auto_state" where
  "applySendOutcome d res nowMs s =
     (case res of
        Signature sig \<Rightarrow> attemptLanded (sd_roundNo d) sig (sd_usd d) (sd_wallet d) s
      | Failure FailedSession _ \<Rightarrow> noteSessionRefused (sd_roundNo d) (sd_epoch d) s
      | Failure FailedRetry msg \<Rightarrow> attemptFailed (sd_roundNo d) msg nowMs s)"

subsection \<open>The world the hook lives in\<close>

text \<open>
  \<open>live_round\<close> is what is read of the round on screen, \<open>params\<close> the hook's props as of the
  last render. \<open>inflight\<close> is the deposit \<open>enterUnattended\<close> is waiting for; while there is one,
  \<open>entering\<close> is set (\<^verbatim>\<open>useActions.ts\<close> sets it before the send and clears it after).
  \<open>late\<close> are the deposits the page stopped waiting for after \<open>SEND_PATIENCE_MS\<close>, whose
  transactions may still land. \<open>counter\<close> is the newest round any render targeted. Four ghosts, which no step reads to decide anything, start afresh when
  a run is armed: the sends it made (newest first), the dollars confirmed while the page still waited,
  the largest finite budget it was given, and \<open>heldOver\<close>, the deposit of an earlier run that
  was still in flight when this one was armed (the page lets a run be armed at any time). A fifth,
  \<open>tookUsd\<close>, is every dollar of these deposits that landed, waited for or not, since the page loaded.
\<close>

record live_round =
  lr_roundNo :: int
  lr_phase :: phase
  lobbyClosesAtMs :: "rat option"
  lr_isYou :: "bool list"

definition entriesOpen :: "live_round option \<Rightarrow> rat \<Rightarrow> bool" where
  "entriesOpen live nowMs =
     (case live of
        None \<Rightarrow> False
      | Some l \<Rightarrow>
          lr_phase l = Lobby \<and>
          (case lobbyClosesAtMs l of None \<Rightarrow> True | Some t \<Rightarrow> nowMs + ENTRY_CLOSE_GUARD_MS < t))"

record params =
  p_live :: "live_round option"
  p_target :: "int option"
  p_entering :: bool
  p_simWalletUsd :: jsnum
  p_signing :: unattended_signing
  p_sessionEpoch :: int
  p_roundLog :: "round_summary list"
  p_you :: string

record auto_world =
  auto :: auto_state
  props :: params
  runWallet :: string
  inflight :: "send option"
  late :: "send list"
  counter :: "int option"
  sent :: "send list"
  confirmedUsd :: rat
  tookUsd :: rat
  budgetHigh :: rat
  heldOver :: "send option"

definition auto_input_of :: "params \<Rightarrow> bool \<Rightarrow> rat \<Rightarrow> auto_state \<Rightarrow> auto_input" where
  "auto_input_of p busy nowMs s =
     \<lparr>in_roundNo = map_option lr_roundNo (p_live p), in_target = p_target p,
      in_phase = map_option lr_phase (p_live p), in_entriesOpen = entriesOpen (p_live p) nowMs,
      in_alreadyIn = (case p_live p of None \<Rightarrow> False | Some l \<Rightarrow> list_ex id (lr_isYou l)),
      in_entering = (p_entering p \<or> busy), in_amountUsd = resolveAmountUsd (ad_rule s) (p_simWalletUsd p),
      in_signing = p_signing p, in_sessionEpoch = p_sessionEpoch p, in_roundLog = p_roundLog p,
      in_you = p_you p, in_nowMs = nowMs\<rparr>"

text \<open>The two settlements made before every decision.\<close>

definition before_decision :: "params \<Rightarrow> auto_state \<Rightarrow> auto_state" where
  "before_decision p s =
     bookRunPnl (p_roundLog p) (p_you p) (expireStaleAttempt (map_option lr_roundNo (p_live p)) s)"

definition evaluate :: "rat \<Rightarrow> auto_world \<Rightarrow> auto_world" where
  "evaluate nowMs w =
     (let p = props w in
      if p_you p \<noteq> runWallet w then w
      else
        let s = before_decision p (auto w) in
        case decideAutoDeploy s (auto_input_of p (inflight w \<noteq> None) nowMs s) of
          Hold _ \<Rightarrow> w\<lparr>auto := s\<rparr>
        | Abandon r reason \<Rightarrow> w\<lparr>auto := abandonAttempt r reason s\<rparr>
        | Fire r sd usd _ \<Rightarrow>
            let d = \<lparr>sd_roundNo = r, sd_side = sd, sd_usd = usd, sd_epoch = p_sessionEpoch p,
                     sd_wallet = p_you p\<rparr>
            in w\<lparr>auto := beginAttempt r s, inflight := Some d, sent := d # sent w\<rparr>)"

text \<open>A press on Start, and the effect that ends the run when the wallet became another one.\<close>

definition finite_budget :: "auto_limits \<Rightarrow> rat" where
  "finite_budget l = (case budgetUsd l of Fin b \<Rightarrow> b | _ \<Rightarrow> 0)"

definition press_armWith :: "amount_rule \<Rightarrow> side_rule \<Rightarrow> auto_limits \<Rightarrow> rat \<Rightarrow> auto_world \<Rightarrow> auto_world" where
  "press_armWith r sr l nowMs w =
     w\<lparr>auto := armWith r sr l (map_option lr_roundNo (p_live (props w))) nowMs (auto w),
       sent := [], confirmedUsd := 0, budgetHigh := max 0 (finite_budget l),
       heldOver := inflight w\<rparr>"

definition press_arm :: "amount_rule \<Rightarrow> rat \<Rightarrow> auto_world \<Rightarrow> auto_world" where
  "press_arm r nowMs w =
     w\<lparr>auto := arm r (map_option lr_roundNo (p_live (props w))) nowMs (auto w),
       sent := [], confirmedUsd := 0, budgetHigh := max 0 (finite_budget (limits (auto w))),
       heldOver := inflight w\<rparr>"

definition press_setLimits :: "auto_limits \<Rightarrow> auto_world \<Rightarrow> auto_world" where
  "press_setLimits l w =
     w\<lparr>auto := setLimits l (auto w), budgetHigh := max (budgetHigh w) (finite_budget l)\<rparr>"

definition wallet_effect :: "auto_world \<Rightarrow> auto_world" where
  "wallet_effect w =
     (let previous = runWallet w; you = p_you (props w); w' = w\<lparr>runWallet := you\<rparr> in
      if \<not> walletSwapped previous you then w'
      else if \<not> armed (auto w) then w'
      else w'\<lparr>auto := disarm (auto w)\<rparr>)"

text \<open>The deposit in flight resolves while the page waits: for a success the confirmed-enter callback
  runs first, then the hook's own.\<close>

definition send_resolves :: "send_result \<Rightarrow> rat \<Rightarrow> send \<Rightarrow> auto_world \<Rightarrow> auto_world" where
  "send_resolves res nowMs d w =
     (case res of
        Signature _ \<Rightarrow>
          w\<lparr>auto := applySendOutcome d res nowMs (bookConfirmedDeposit (sd_side d) (Some (sd_roundNo d)) (auto w)),
            inflight := None, confirmedUsd := confirmedUsd w + sd_usd d,
            tookUsd := tookUsd w + sd_usd d\<rparr>
      | Failure _ _ \<Rightarrow> w\<lparr>auto := applySendOutcome d res nowMs (auto w), inflight := None\<rparr>)"

text \<open>The page stops waiting: a failure that may be tried again, and the transaction stays open.\<close>

definition stop_waiting :: "string \<Rightarrow> rat \<Rightarrow> send \<Rightarrow> auto_world \<Rightarrow> auto_world" where
  "stop_waiting msg nowMs d w =
     w\<lparr>auto := applySendOutcome d (Failure FailedRetry msg) nowMs (auto w), inflight := None,
       late := d # late w\<rparr>"

definition late_lands :: "nat \<Rightarrow> auto_world \<Rightarrow> auto_world" where
  "late_lands k w =
     (let d = late w ! k in
      w\<lparr>auto := bookConfirmedDeposit (sd_side d) (Some (sd_roundNo d)) (auto w),
        late := take k (late w) @ drop (Suc k) (late w),
        tookUsd := tookUsd w + sd_usd d\<rparr>)"

datatype auto_op =
    Render params | Evaluate rat | WalletEffect
  | PressArmWith amount_rule side_rule auto_limits rat | PressArm amount_rule rat | PressDisarm
  | PressRule amount_rule | PressLimits auto_limits
  | HandDeposit er_side "int option"
  | SendResolves send_result rat | StopWaiting string rat
  | LateLands nat | LateFails nat

text \<open>
  The environment's side of the bargain is in the guards that answer \<open>Inl\<close>: the chain's round
  counter never goes back, so neither does the targeted round from one render to the next; a deposit
  made by hand names a round that was targeted when it was sent; and a send resolves only when there
  is one.
\<close>

definition no_later :: "int option \<Rightarrow> int option \<Rightarrow> bool" where
  "no_later a b \<longleftrightarrow> (case a of None \<Rightarrow> True | Some x \<Rightarrow> (case b of None \<Rightarrow> False | Some y \<Rightarrow> x \<le> y))"

fun auto_step :: "auto_op \<Rightarrow> auto_world \<Rightarrow> unit + auto_world" where
  "auto_step (Render p) w =
     (case p_target p of
        None \<Rightarrow> Inr (w\<lparr>props := p\<rparr>)
      | Some t \<Rightarrow>
          if no_later (counter w) (Some t) then Inr (w\<lparr>props := p, counter := Some t\<rparr>) else Inl ())"
| "auto_step (Evaluate nowMs) w = Inr (evaluate nowMs w)"
| "auto_step WalletEffect w = Inr (wallet_effect w)"
| "auto_step (PressArmWith r sr l nowMs) w = Inr (press_armWith r sr l nowMs w)"
| "auto_step (PressArm r nowMs) w = Inr (press_arm r nowMs w)"
| "auto_step PressDisarm w = Inr (w\<lparr>auto := disarm (auto w)\<rparr>)"
| "auto_step (PressRule r) w = Inr (w\<lparr>auto := setRule r (auto w)\<rparr>)"
| "auto_step (PressLimits l) w = Inr (press_setLimits l w)"
| "auto_step (HandDeposit sd r) w =
     (if no_later r (counter w) then Inr (w\<lparr>auto := bookConfirmedDeposit sd r (auto w)\<rparr>) else Inl ())"
| "auto_step (SendResolves res nowMs) w =
     (case inflight w of None \<Rightarrow> Inl () | Some d \<Rightarrow> Inr (send_resolves res nowMs d w))"
| "auto_step (StopWaiting msg nowMs) w =
     (case inflight w of None \<Rightarrow> Inl () | Some d \<Rightarrow> Inr (stop_waiting msg nowMs d w))"
| "auto_step (LateLands k) w = (if k < length (late w) then Inr (late_lands k w) else Inl ())"
| "auto_step (LateFails k) w =
     (if k < length (late w) then Inr (w\<lparr>late := take k (late w) @ drop (Suc k) (late w)\<rparr>) else Inl ())"

definition auto_start :: "params \<Rightarrow> auto_world" where
  "auto_start p =
     \<lparr>auto = INITIAL_AUTO_DEPLOY, props = p, runWallet = p_you p, inflight = None, late = [],
      counter = p_target p, sent = [],
      confirmedUsd = 0, tookUsd = 0, budgetHigh = max 0 (finite_budget DEFAULT_LIMITS),
      heldOver = None\<rparr>"

subsection \<open>What it takes to fire\<close>

lemma attempt_for_Some: "attempt_for s r = Some a \<longleftrightarrow> attempt s = Some a \<and> at_roundNo a = r"
  by (auto simp: attempt_for_def split: option.splits)

lemma attempt_for_None: "attempt_for s r = None \<longleftrightarrow> (\<forall>a. attempt s = Some a \<longrightarrow> at_roundNo a \<noteq> r)"
  by (auto simp: attempt_for_def split: option.splits)

lemma decide_send_fire:
  assumes "decide_send s i r sd = Fire r' sd' x n"
  shows "r' = r \<and> sd' = sd"
    and "limitBlock (limits s) (tally s) (readRunPnl (pnl s) (in_roundLog i) (in_you i)) = None"
    and "\<exists>usd. in_amountUsd i = Some usd \<and> clampToLimits (Fin usd) (limits s) (spentUsd (tally s)) = Some x"
    and "in_phase i = Some Lobby" and "in_entriesOpen i" and "\<not> in_entering i"
    and "n = (case attempt_for s r of None \<Rightarrow> 0 | Some a \<Rightarrow> tries a) + 1"
    and "attempt_for s r = Some a \<Longrightarrow> tries a < MAX_TRIES"
    and "attempt_for s r = Some a \<Longrightarrow> nextTryAtMs a = Some t \<Longrightarrow> t \<le> in_nowMs i"
  using assms by (auto simp: decide_send_def Let_def split: option.splits if_splits)

lemma decide_fire:
  assumes "decideAutoDeploy s i = Fire r sd x n"
  shows "armed s" and "ad_side s = Some sd" and "in_roundNo i = Some r" and "in_target i = Some r"
    and "floorRound s = Some f \<Longrightarrow> f < r"
    and "attempt_for s r = Some a \<Longrightarrow> at_outcome a = Retrying"
    and "\<not> sending_now s" and "\<not> in_alreadyIn i" and "deadSessionEpoch s \<noteq> Some (in_sessionEpoch i)"
    and "in_signing i = Silent" and "decide_send s i r sd = Fire r sd x n"
proof -
  obtain sd0 r0 where g: "armed s" "ad_side s = Some sd0" "in_roundNo i = Some r0" "in_target i = Some r0"
    "\<not> (case floorRound s of None \<Rightarrow> False | Some f \<Rightarrow> r0 \<le> f)"
    "map_option at_outcome (attempt_for s r0) \<notin> {Some Landed, Some WrittenOff, Some Sending}"
    "\<not> sending_now s" "\<not> in_alreadyIn i" "deadSessionEpoch s \<noteq> Some (in_sessionEpoch i)"
    "in_signing i = Silent" "decide_send s i r0 sd0 = Fire r sd x n"
    using assms by (cases "sideRule s")
      (auto simp: decideAutoDeploy_def Let_def sending_now_def
        split: option.splits if_splits unattended_signing.splits)
  moreover have "r0 = r" "sd0 = sd" using decide_send_fire(1) [OF g(11)] by auto
  ultimately show "armed s" "ad_side s = Some sd" "in_roundNo i = Some r" "in_target i = Some r"
    "\<not> sending_now s" "\<not> in_alreadyIn i" "deadSessionEpoch s \<noteq> Some (in_sessionEpoch i)"
    "in_signing i = Silent" "decide_send s i r sd = Fire r sd x n" by auto
  show "floorRound s = Some f \<Longrightarrow> f < r" using g(5) \<open>r0 = r\<close> by auto
  show "attempt_for s r = Some a \<Longrightarrow> at_outcome a = Retrying"
    using g(6) \<open>r0 = r\<close> by (cases "at_outcome a") auto
qed

text \<open>C32: When the rule fires, everything the player and the chain asked for holds. It is armed, the round
  on screen is the targeted one and newer than the round it was armed in, its lobby still takes
  entries, the player is not in it, nothing is being sent and no wallet dialog can open; it is at most
  the third try; and the stake is within the budget left, the cap per round, the stake cap, the ceiling
  on rounds, and the drawdown stop, whose loss is known exactly.\<close>

theorem fire_is_within_limits:
  assumes "decideAutoDeploy s i = Fire r sd x n"
  shows "armed s \<and> in_roundNo i = Some r \<and> in_target i = Some r \<and> (\<forall>f. floorRound s = Some f \<longrightarrow> f < r) \<and>
    in_phase i = Some Lobby \<and> in_entriesOpen i \<and> \<not> in_alreadyIn i \<and> \<not> in_entering i \<and> \<not> sending_now s \<and>
    in_signing i = Silent \<and> ad_side s = Some sd \<and> n \<le> MAX_TRIES \<and> MIN_STAKE_USD \<le> x \<and> x \<le> STAKE_CAP_USD \<and>
    (\<exists>b. budgetUsd (limits s) = Fin b \<and> spentUsd (tally s) + x \<le> b) \<and>
    (\<forall>c. perRoundCapUsd (limits s) = Fin c \<longrightarrow> x \<le> c) \<and>
    (\<forall>m. maxRounds (limits s) = Some (Fin m) \<longrightarrow> of_int (entered (tally s)) < m) \<and>
    (drawdownStopPct (limits s) \<noteq> None \<longrightarrow>
      (\<exists>stop u. drawdownStopUsd (limits s) = Some stop \<and>
        readRunPnl (pnl s) (in_roundLog i) (in_you i) = Known u \<and> (u < 0 \<longrightarrow> - u < stop)))"
proof -
  note d = decide_fire [OF assms] and e = decide_send_fire [OF decide_fire(11) [OF assms]]
  obtain usd where c: "clampToLimits (Fin usd) (limits s) (spentUsd (tally s)) = Some x"
    using e(3) by blast
  note cl = clamp_facts [OF c]
  have "n \<le> MAX_TRIES" using e(7,8) by (auto simp: MAX_TRIES_def split: option.splits)
  then show ?thesis
    using d(1-5,7,8,10) e(4-6) cl limitBlock_None [OF e(2)] by auto
qed

subsection \<open>The books of a run\<close>

definition sends_of :: "int \<Rightarrow> send list \<Rightarrow> nat" where
  "sends_of r ds = length (filter (\<lambda>d. sd_roundNo d = r) ds)"

lemma sends_of_simps [simp]:
  "sends_of r [] = 0"
  "sends_of r (d # ds) = sends_of r ds + (if sd_roundNo d = r then 1 else 0)"
  by (simp_all add: sends_of_def)

lemma sends_of_later: "\<forall>d\<in>set ds. sd_roundNo d \<le> k \<Longrightarrow> k < r \<Longrightarrow> sends_of r ds = 0"
  by (induction ds) auto

lemma no_later_simps [simp]:
  "no_later None b" "\<not> no_later (Some x) None" "no_later (Some x) (Some y) \<longleftrightarrow> x \<le> y"
  by (simp_all add: no_later_def)

lemma no_later_Some: "no_later a (Some y) \<longleftrightarrow> (\<forall>x. a = Some x \<longrightarrow> x \<le> y)"
  by (cases a) auto

lemma no_later_trans: "no_later a b \<Longrightarrow> no_later b c \<Longrightarrow> no_later a c"
  by (cases a; cases b; cases c) auto

text \<open>The attempt slot against the sends made: \<open>c\<close> is the round counter, \<open>ds\<close> the sends. That the
  tally has not yet counted the round in the slot is kept only for a run that inherited no deposit
  (\<open>k\<close>): the refusal of an inherited one can put an older round back into the slot.\<close>

definition slot_ok :: "bool \<Rightarrow> int option \<Rightarrow> send list \<Rightarrow> run_tally \<Rightarrow> attempt_rec \<Rightarrow> bool" where
  "slot_ok k c ds t a \<longleftrightarrow>
     no_later (Some (at_roundNo a)) c \<and> (\<forall>d\<in>set ds. sd_roundNo d \<le> at_roundNo a) \<and>
     (at_outcome a = Sending \<longrightarrow> sends_of (at_roundNo a) ds \<le> tries a + 1) \<and>
     (at_outcome a = Retrying \<longrightarrow> sends_of (at_roundNo a) ds \<le> tries a) \<and>
     (k \<longrightarrow> no_later (lastRound t) (Some (at_roundNo a))) \<and>
     (k \<longrightarrow> at_outcome a \<in> {Sending, Retrying} \<longrightarrow> lastRound t \<noteq> Some (at_roundNo a))"

definition books_ok :: "bool \<Rightarrow> int option \<Rightarrow> send list \<Rightarrow> auto_state \<Rightarrow> bool" where
  "books_ok k c ds s \<longleftrightarrow>
     (\<forall>r. sends_of r ds \<le> MAX_TRIES) \<and>
     (case attempt s of
        None \<Rightarrow> ds = [] \<and> (k \<longrightarrow> lastRound (tally s) = None)
      | Some a \<Rightarrow> slot_ok k c ds (tally s) a)"

lemma books_no_sends:
  "books_ok False c [] s \<longleftrightarrow> (\<forall>a. attempt s = Some a \<longrightarrow> no_later (Some (at_roundNo a)) c)"
  by (auto simp: books_ok_def slot_ok_def split: option.splits)

lemma books_cong: "attempt s' = attempt s \<Longrightarrow> tally s' = tally s \<Longrightarrow> books_ok k c ds s' = books_ok k c ds s"
  by (auto simp: books_ok_def split: option.split)

lemma books_counter: "books_ok k c ds s \<Longrightarrow> no_later c c' \<Longrightarrow> books_ok k c' ds s"
  by (auto simp: books_ok_def slot_ok_def split: option.splits intro: no_later_trans)

text \<open>A fresh record for a round that is the slot's own or a later one.\<close>

lemma slot_fresh:
  assumes "books_ok k c ds s" and "no_later (Some r) c" and "\<And>a. attempt s = Some a \<Longrightarrow> at_roundNo a \<le> r"
  shows "(\<forall>d\<in>set ds. sd_roundNo d \<le> r)" and "k \<longrightarrow> no_later (lastRound (tally s)) (Some r)"
    and "(\<And>a. attempt_for s r = Some a \<Longrightarrow> at_outcome a = Retrying) \<Longrightarrow>
      sends_of r ds \<le> (case attempt_for s r of None \<Rightarrow> 0 | Some a \<Rightarrow> tries a)"
proof -
  show "\<forall>d\<in>set ds. sd_roundNo d \<le> r"
    using assms by (cases "attempt s") (fastforce simp: books_ok_def slot_ok_def)+
  show "k \<longrightarrow> no_later (lastRound (tally s)) (Some r)"
    using assms by (cases "attempt s") (fastforce simp: books_ok_def slot_ok_def no_later_Some)+
  show "sends_of r ds \<le> (case attempt_for s r of None \<Rightarrow> 0 | Some a \<Rightarrow> tries a)"
    if retry: "\<And>a. attempt_for s r = Some a \<Longrightarrow> at_outcome a = Retrying"
  proof (cases "attempt s")
    case None
    then show ?thesis using assms(1) by (simp add: books_ok_def attempt_for_def)
  next
    case (Some a)
    then have sl: "slot_ok k c ds (tally s) a" using assms(1) by (simp add: books_ok_def)
    show ?thesis
    proof (cases "at_roundNo a = r")
      case True
      then show ?thesis using sl Some retry [of a] by (auto simp: slot_ok_def attempt_for_def)
    next
      case False
      with assms(3) Some have "at_roundNo a < r" by fastforce
      with sl False Some show ?thesis
        by (auto simp: slot_ok_def attempt_for_def intro: sends_of_later)
    qed
  qed
qed

lemma books_noteRoundEntered:
  assumes "books_ok k c ds s" and "no_later (Some r) c" and "\<not> sending_now s"
  shows "books_ok k c ds (noteRoundEntered r s)" and "\<not> sending_now (noteRoundEntered r s)"
    and "tally (noteRoundEntered r s) = tally s" and "limits (noteRoundEntered r s) = limits s"
proof -
  show "books_ok k c ds (noteRoundEntered r s)"
  proof (cases "\<exists>a. attempt s = Some a \<and> r < at_roundNo a")
    case True
    then show ?thesis using assms(1) by (auto simp: noteRoundEntered_def)
  next
    case False
    then have "at_roundNo a \<le> r" if "attempt s = Some a" for a using that by fastforce
    note f = slot_fresh(1,2) [OF assms(1,2) this]
    show ?thesis
      using assms f False
      by (auto simp: noteRoundEntered_def Let_def books_ok_def slot_ok_def split: option.splits)
  qed
  show "\<not> sending_now (noteRoundEntered r s)"
    using assms(3) by (auto simp: noteRoundEntered_def Let_def sending_now_def split: option.splits)
qed (simp_all add: noteRoundEntered_def Let_def)

lemma noteDeploy_same [simp]:
  "attempt (noteDeploy sd s) = attempt s" "tally (noteDeploy sd s) = tally s"
  "limits (noteDeploy sd s) = limits s" "sending_now (noteDeploy sd s) = sending_now s"
  by (simp_all add: noteDeploy_def sending_now_def)

lemma books_bookConfirmedDeposit:
  assumes "books_ok k c ds s" and "no_later r c"
  shows "books_ok k c ds (bookConfirmedDeposit sd r s)"
    and "sending_now s \<Longrightarrow> attempt (bookConfirmedDeposit sd r s) = attempt s"
    and "sending_now (bookConfirmedDeposit sd r s) = sending_now s"
    and "tally (bookConfirmedDeposit sd r s) = tally s" and "limits (bookConfirmedDeposit sd r s) = limits s"
proof -
  have b: "books_ok k c ds (noteDeploy sd s)" using assms(1) books_cong [of "noteDeploy sd s" s] by simp
  show "books_ok k c ds (bookConfirmedDeposit sd r s)"
    using b assms(2) by (auto simp: bookConfirmedDeposit_def Let_def split: option.splits
        intro: books_noteRoundEntered(1))
  show "sending_now (bookConfirmedDeposit sd r s) = sending_now s"
    using books_noteRoundEntered(2) [OF b] assms(2)
    by (auto simp: bookConfirmedDeposit_def Let_def split: option.splits)
  show "tally (bookConfirmedDeposit sd r s) = tally s" "limits (bookConfirmedDeposit sd r s) = limits s"
    by (auto simp: bookConfirmedDeposit_def Let_def noteRoundEntered_def split: option.splits)
qed (auto simp: bookConfirmedDeposit_def Let_def split: option.splits)

lemma books_abandonAttempt:
  assumes "books_ok k c ds s" and "no_later (Some r) c" and "\<And>a. attempt s = Some a \<Longrightarrow> at_roundNo a \<le> r"
    and "\<not> sending_now s"
  shows "books_ok k c ds (abandonAttempt r why s)"
proof -
  note f = slot_fresh(1,2) [OF assms(1-3)]
  show ?thesis
    using assms(1,2,4) f
    by (auto simp: abandonAttempt_def Let_def books_ok_def slot_ok_def tallyMissed_def split: option.splits)
qed

lemma abandonAttempt_same [simp]:
  "limits (abandonAttempt r why s) = limits s" "spentUsd (tally (abandonAttempt r why s)) = spentUsd (tally s)"
  "\<not> sending_now (abandonAttempt r why s)"
  by (simp_all add: abandonAttempt_def tallyMissed_def Let_def sending_now_def)

lemma expire_cases:
  obtains (same) "expireStaleAttempt r s = s"
    | (gone) a where "attempt s = Some a" and "at_outcome a = Retrying"
        and "expireStaleAttempt r s = abandonAttempt (at_roundNo a) RoundMovedOn s"
  using that by (fastforce simp: expireStaleAttempt_def split: option.splits if_splits)

lemma before_same [simp]:
  "limits (before_decision p s) = limits s" "spentUsd (tally (before_decision p s)) = spentUsd (tally s)"
  "ad_rule (before_decision p s) = ad_rule s"
  by (auto simp: before_decision_def bookRunPnl_def Let_def expireStaleAttempt_def abandonAttempt_def
      tallyMissed_def split: option.splits)

lemma bookRunPnl_same [simp]:
  "attempt (bookRunPnl l y s) = attempt s" "tally (bookRunPnl l y s) = tally s"
  by (simp_all add: bookRunPnl_def Let_def)

lemma books_before:
  assumes "books_ok k c ds s"
  shows "books_ok k c ds (before_decision p s)" and "sending_now (before_decision p s) = sending_now s"
    and "sending_now s \<Longrightarrow> attempt (before_decision p s) = attempt s"
proof -
  let ?r = "map_option lr_roundNo (p_live p)"
  have e: "books_ok k c ds (expireStaleAttempt ?r s) \<and> sending_now (expireStaleAttempt ?r s) = sending_now s \<and>
    (sending_now s \<longrightarrow> attempt (expireStaleAttempt ?r s) = attempt s)"
  proof (cases rule: expire_cases [of ?r s])
    case same
    then show ?thesis using assms by simp
  next
    case (gone a)
    then have "\<not> sending_now s" by (simp add: sending_now_def)
    moreover have "no_later (Some (at_roundNo a)) c"
      using assms gone(1) by (simp add: books_ok_def slot_ok_def)
    ultimately show ?thesis using books_abandonAttempt [OF assms] gone by auto
  qed
  then show "books_ok k c ds (before_decision p s)"
    using books_cong [of "before_decision p s" "expireStaleAttempt ?r s"] by (simp add: before_decision_def)
  show "sending_now (before_decision p s) = sending_now s"
    "sending_now s \<Longrightarrow> attempt (before_decision p s) = attempt s"
    using e by (simp_all add: before_decision_def sending_now_def)
qed

lemma books_beginAttempt:
  assumes "books_ok k c ds s" and "no_later (Some (sd_roundNo d)) c" and "\<not> sending_now s"
    and "\<And>a. attempt s = Some a \<Longrightarrow> at_roundNo a \<le> sd_roundNo d"
    and "\<And>a. attempt_for s (sd_roundNo d) = Some a \<Longrightarrow> at_outcome a = Retrying \<and> tries a < MAX_TRIES"
  shows "books_ok k c (d # ds) (beginAttempt (sd_roundNo d) s)"
proof -
  let ?r = "sd_roundNo d"
  note f = slot_fresh [OF assms(1,2,4)]
  have n: "sends_of ?r ds \<le> (case attempt_for s ?r of None \<Rightarrow> 0 | Some a \<Rightarrow> tries a)"
    using f(3) assms(5) by blast
  then have "sends_of ?r ds < MAX_TRIES" using assms(5) by (fastforce simp: MAX_TRIES_def split: option.splits)
  then have m: "\<forall>r. sends_of r (d # ds) \<le> MAX_TRIES" using assms(1) by (auto simp: books_ok_def)
  have "k \<longrightarrow> lastRound (tally s) \<noteq> Some ?r"
  proof (cases "attempt_for s ?r")
    case (Some a)
    then show ?thesis using assms(1) assms(5) [OF Some] by (auto simp: attempt_for_Some books_ok_def slot_ok_def)
  next
    case None
    then show ?thesis using assms(1,4)
      by (cases "attempt s") (fastforce simp: attempt_for_None books_ok_def slot_ok_def)+
  qed
  then show ?thesis
    using m n f(1,2) assms(2) by (simp add: beginAttempt_def Let_def books_ok_def slot_ok_def)
qed

text \<open>How the three outcomes of a send leave the books.\<close>

definition in_slot :: "send \<Rightarrow> auto_state \<Rightarrow> bool" where
  "in_slot d s \<longleftrightarrow> sending_now s \<and> map_option at_roundNo (attempt s) = Some (sd_roundNo d)"

lemma in_slotE:
  assumes "in_slot d s" and "books_ok k c ds s"
  obtains a where "attempt s = Some a" and "at_outcome a = Sending" and "at_roundNo a = sd_roundNo d"
    and "attempt_for s (sd_roundNo d) = Some a" and "slot_ok k c ds (tally s) a"
  using assms that by (auto simp: in_slot_def sending_now_def attempt_for_def books_ok_def)

lemma tallyEntered_fresh:
  assumes "no_later (lastRound t) (Some r)" and "lastRound t \<noteq> Some r"
  shows "spentUsd (tallyEntered t r (Fin x)) = spentUsd t + x" and "lastRound (tallyEntered t r (Fin x)) = Some r"
  using assms by (auto simp: tallyEntered_def Let_def split: option.splits)

lemma books_landed:
  assumes "in_slot d s" and "books_ok k c ds s"
    and s'_def: "s' = attemptLanded (sd_roundNo d) sig (sd_usd d) w s"
  shows "books_ok k c ds s'" and "\<not> sending_now s'" and "limits s' = limits s"
    and "k \<Longrightarrow> spentUsd (tally s') = spentUsd (tally s) + sd_usd d"
proof -
  obtain a where a: "attempt s = Some a" "at_outcome a = Sending" "at_roundNo a = sd_roundNo d"
    "attempt_for s (sd_roundNo d) = Some a" "slot_ok k c ds (tally s) a"
    using in_slotE [OF assms(1,2)] .
  have l: "no_later (lastRound (tally s)) (Some (sd_roundNo d))" "lastRound (tally s) \<noteq> Some (sd_roundNo d)" if k
    using that a(2,3,5) by (auto simp: slot_ok_def)
  note t = tallyEntered_fresh [OF l, of "sd_usd d"]
  show "books_ok k c ds s'" using a t assms(2) by (auto simp: s'_def attemptLanded_def books_ok_def slot_ok_def)
  show "\<not> sending_now s'" "limits s' = limits s" and "k \<Longrightarrow> spentUsd (tally s') = spentUsd (tally s) + sd_usd d"
    using a(4) t by (simp_all add: s'_def attemptLanded_def sending_now_def)
qed

lemma books_failed:
  assumes "in_slot d s" and "books_ok k c ds s"
    and s'_def: "s' = applySendOutcome d (Failure cls msg) nowMs s"
  shows "books_ok k c ds s'" and "\<not> sending_now s'" and "limits s' = limits s"
    and "spentUsd (tally s') = spentUsd (tally s)"
proof -
  obtain a where a: "attempt s = Some a" "at_outcome a = Sending" "at_roundNo a = sd_roundNo d"
    "attempt_for s (sd_roundNo d) = Some a" "slot_ok k c ds (tally s) a"
    using in_slotE [OF assms(1,2)] .
  have "slot_ok k c ds (tally s) (a\<lparr>at_outcome := Retrying, tries := tries a + 1, nextTryAtMs := x, at_error := y\<rparr>)"
    for x y
    using a(2,5) by (simp add: slot_ok_def)
  then show "books_ok k c ds s'"
    using a assms(2)
    by (cases cls) (auto simp: s'_def applySendOutcome_def attemptFailed_def noteSessionRefused_def
        abandonAttempt_def Let_def tallyMissed_def books_ok_def slot_ok_def split: option.splits)
  show "\<not> sending_now s'" "limits s' = limits s" "spentUsd (tally s') = spentUsd (tally s)"
    using a(2,4) by (cases cls; simp add: s'_def applySendOutcome_def attemptFailed_def noteSessionRefused_def
        abandonAttempt_def Let_def tallyMissed_def sending_now_def)+
qed

subsection \<open>The invariant of the world\<close>

definition pending_usd :: "auto_world \<Rightarrow> rat" where
  "pending_usd w = (case inflight w of None \<Rightarrow> 0 | Some d \<Rightarrow> sd_usd d)"

text \<open>The deposit in flight is the one in the slot, or one an earlier run left behind; then this run has
  sent nothing yet.\<close>

definition flight_ok :: "auto_world \<Rightarrow> bool" where
  "flight_ok w \<longleftrightarrow>
     (case inflight w of
        None \<Rightarrow> \<not> sending_now (auto w)
      | Some d \<Rightarrow> in_slot d (auto w) \<or> (heldOver w \<noteq> None \<and> sent w = [] \<and> \<not> sending_now (auto w)))"

definition money_ok :: "auto_world \<Rightarrow> bool" where
  "money_ok w \<longleftrightarrow>
     spentUsd (tally (auto w)) = confirmedUsd w \<and> 0 \<le> pending_usd w \<and>
     confirmedUsd w + pending_usd w \<le> budgetHigh w \<and>
     (\<forall>b. budgetUsd (limits (auto w)) = Fin b \<longrightarrow> b \<le> budgetHigh w)"

definition chain_ok :: "auto_world \<Rightarrow> bool" where
  "chain_ok w \<longleftrightarrow>
     (\<forall>t. p_target (props w) = Some t \<longrightarrow> counter w = Some t) \<and>
     no_later (map_option sd_roundNo (inflight w)) (counter w) \<and>
     (\<forall>d\<in>set (late w). no_later (Some (sd_roundNo d)) (counter w))"

definition auto_inv :: "auto_world \<Rightarrow> bool" where
  "auto_inv w \<longleftrightarrow>
     books_ok (heldOver w = None) (counter w) (sent w) (auto w) \<and> flight_ok w \<and>
     (heldOver w = None \<longrightarrow> money_ok w) \<and> chain_ok w"

lemmas auto_inv_defs = auto_inv_def flight_ok_def money_ok_def chain_ok_def pending_usd_def

lemma evaluate_cases:
  obtains (hold) "evaluate nowMs w = w"
    | (settled) "evaluate nowMs w = w\<lparr>auto := before_decision (props w) (auto w)\<rparr>"
    | (lost) r why where "p_target (props w) = Some r"
        and "\<not> sending_now (before_decision (props w) (auto w))"
        and "evaluate nowMs w = w\<lparr>auto := abandonAttempt r why (before_decision (props w) (auto w))\<rparr>"
    | (fired) d n where "p_target (props w) = Some (sd_roundNo d)"
        and "decideAutoDeploy (before_decision (props w) (auto w))
              (auto_input_of (props w) (inflight w \<noteq> None) nowMs (before_decision (props w) (auto w)))
             = Fire (sd_roundNo d) (sd_side d) (sd_usd d) n"
        and "evaluate nowMs w = w\<lparr>auto := beginAttempt (sd_roundNo d) (before_decision (props w) (auto w)),
              inflight := Some d, sent := d # sent w\<rparr>"
proof (cases "p_you (props w) = runWallet w")
  case False
  then show thesis using hold by (simp add: evaluate_def Let_def)
next
  case you: True
  let ?s = "before_decision (props w) (auto w)"
  let ?i = "auto_input_of (props w) (inflight w \<noteq> None) nowMs ?s"
  show thesis
  proof (cases "decideAutoDeploy ?s ?i")
    case (Hold h)
    then show thesis using you settled by (simp add: evaluate_def Let_def)
  next
    case (Abandon r why)
    then have "in_target ?i = Some r \<and> \<not> sending_now ?s"
      by (auto simp: decideAutoDeploy_def decide_send_def Let_def sending_now_def
          split: option.splits if_splits unattended_signing.splits)
    then have "p_target (props w) = Some r" "\<not> sending_now ?s" by (simp_all add: auto_input_of_def)
    moreover have "evaluate nowMs w = w\<lparr>auto := abandonAttempt r why ?s\<rparr>"
      using you Abandon by (simp add: evaluate_def Let_def)
    ultimately show thesis by (rule lost)
  next
    case (Fire r sd usd n)
    let ?d = "\<lparr>sd_roundNo = r, sd_side = sd, sd_usd = usd, sd_epoch = p_sessionEpoch (props w),
               sd_wallet = p_you (props w)\<rparr>"
    have "p_target (props w) = Some (sd_roundNo ?d)"
      using decide_fire(4) [OF Fire] by (simp add: auto_input_of_def)
    moreover have "decideAutoDeploy ?s ?i = Fire (sd_roundNo ?d) (sd_side ?d) (sd_usd ?d) n" using Fire by simp
    moreover have "evaluate nowMs w = w\<lparr>auto := beginAttempt (sd_roundNo ?d) ?s, inflight := Some ?d,
        sent := ?d # sent w\<rparr>"
      using you Fire by (simp add: evaluate_def Let_def)
    ultimately show thesis by (rule fired)
  qed
qed

lemma fire_money:
  assumes "decideAutoDeploy s i = Fire r sd x n"
  shows "0 \<le> x \<and> (\<exists>b. budgetUsd (limits s) = Fin b \<and> spentUsd (tally s) + x \<le> b)"
proof -
  note e = decide_send_fire [OF decide_fire(11) [OF assms]]
  obtain usd where "clampToLimits (Fin usd) (limits s) (spentUsd (tally s)) = Some x" using e(3) by blast
  from clamp_facts [OF this] limitBlock_None(1) [OF e(2)] show ?thesis by (auto simp: MIN_STAKE_USD_def)
qed

lemma idle_inv:
  assumes i: "auto_inv w" and idle: "\<not> sending_now (auto w)" "\<not> sending_now s"
    and books: "books_ok (heldOver w = None) (counter w) (sent w) s"
    and same: "limits s = limits (auto w)" "spentUsd (tally s) = spentUsd (tally (auto w))"
  shows "auto_inv (w\<lparr>auto := s\<rparr>)"
proof -
  have "\<not> in_slot d (auto w)" for d using idle(1) by (simp add: in_slot_def)
  then have "flight_ok (w\<lparr>auto := s\<rparr>)"
    using i idle(2) by (cases "inflight w") (simp_all add: auto_inv_def flight_ok_def)
  then show ?thesis using i books same
    by (simp add: auto_inv_def money_ok_def chain_ok_def pending_usd_def)
qed

lemma evaluate_inv:
  assumes "auto_inv w"
  shows "auto_inv (evaluate nowMs w)"
proof -
  let ?s = "before_decision (props w) (auto w)"
  have books: "books_ok (heldOver w = None) (counter w) (sent w) (auto w)" using assms by (simp add: auto_inv_def)
  note b = books_before [OF books, of "props w"]
  have up: "at_roundNo a \<le> r" if "p_target (props w) = Some r" "attempt ?s = Some a" for a r
    using that b(1) assms by (auto simp: auto_inv_defs books_ok_def slot_ok_def)
  have cnt: "no_later (Some r) (counter w)" if "p_target (props w) = Some r" for r
    using that assms by (auto simp: auto_inv_defs)
  have slot: "in_slot d ?s \<longleftrightarrow> in_slot d (auto w)" for d
    using b(2,3) unfolding in_slot_def by metis
  show ?thesis
  proof (cases rule: evaluate_cases [of nowMs w])
    case hold
    then show ?thesis using assms by simp
  next
    case settled
    then show ?thesis using assms b slot by (simp add: auto_inv_defs split: option.splits)
  next
    case (lost r why)
    have "books_ok (heldOver w = None) (counter w) (sent w) (abandonAttempt r why ?s)"
      using books_abandonAttempt [OF b(1) cnt [OF lost(1)] up [OF lost(1)] lost(2)] .
    moreover have "\<not> sending_now (auto w)" using lost(2) b(2) by blast
    ultimately show ?thesis unfolding lost(3) by (intro idle_inv [OF assms]) simp_all
  next
    case (fired d n)
    note f = decide_fire [OF fired(2)] decide_send_fire [OF decide_fire(11) [OF fired(2)]]
    have none: "inflight w = None"
      using decide_send_fire(6) [OF decide_fire(11) [OF fired(2)]] by (simp add: auto_input_of_def)
    have bk: "books_ok (heldOver w = None) (counter w) (d # sent w) (beginAttempt (sd_roundNo d) ?s)"
      using books_beginAttempt [OF b(1) cnt [OF fired(1)] f(7) up [OF fired(1)]] f(6,19) by simp
    have slot': "in_slot d (beginAttempt (sd_roundNo d) ?s)"
      by (simp add: in_slot_def sending_now_def beginAttempt_def Let_def)
    obtain x where x: "0 \<le> sd_usd d" "budgetUsd (limits ?s) = Fin x" "spentUsd (tally ?s) + sd_usd d \<le> x"
      using fire_money [OF fired(2)] by blast
    have same: "limits (beginAttempt (sd_roundNo d) ?s) = limits (auto w)"
      "spentUsd (tally (beginAttempt (sd_roundNo d) ?s)) = spentUsd (tally (auto w))"
      by (simp_all add: beginAttempt_def Let_def)
    have "confirmedUsd w + sd_usd d \<le> budgetHigh w" if "heldOver w = None"
      using that assms x by (fastforce simp: auto_inv_defs)
    then show ?thesis using assms cnt [OF fired(1)] x(1) bk slot' unfolding fired(3)
      by (simp add: auto_inv_defs same)
  qed
qed

lemma hand_inv:
  assumes "auto_inv w" and "no_later r (counter w)"
  shows "auto_inv (w\<lparr>auto := bookConfirmedDeposit sd r (auto w)\<rparr>)"
proof -
  have books: "books_ok (heldOver w = None) (counter w) (sent w) (auto w)" using assms by (simp add: auto_inv_def)
  note b = books_bookConfirmedDeposit [OF books assms(2), of sd]
  show ?thesis using assms b by (auto simp: auto_inv_defs in_slot_def split: option.splits)
qed

text \<open>A deposit of an earlier run reports: whatever it writes into the slot, this run has sent nothing.\<close>

lemma foreign_outcome:
  assumes "books_ok False c [] s" and "no_later (Some (sd_roundNo d)) c" and "\<not> sending_now s"
    and s'_def: "s' = applySendOutcome d res nowMs s"
  shows "books_ok False c [] s'" and "\<not> sending_now s'"
proof -
  show "books_ok False c [] s'"
    using assms(1,2)
    by (auto simp: s'_def books_no_sends applySendOutcome_def attemptLanded_def attemptFailed_def
        noteSessionRefused_def abandonAttempt_def Let_def attempt_for_Some
        split: send_result.splits send_failure.splits option.splits)
  show "\<not> sending_now s'"
    using assms(3)
    by (auto simp: s'_def sending_now_def applySendOutcome_def attemptLanded_def attemptFailed_def
        noteSessionRefused_def abandonAttempt_def Let_def attempt_for_Some
        split: send_result.splits send_failure.splits option.splits)
qed

lemma foreign_inv:
  assumes "auto_inv w" and "inflight w = Some d" and "\<not> in_slot d (auto w)"
  shows "auto_inv (send_resolves res nowMs d w)" and "auto_inv (stop_waiting msg nowMs d w)"
proof -
  obtain e where e: "heldOver w = Some e" using assms by (auto simp: auto_inv_defs)
  have f: "sent w = []" "\<not> sending_now (auto w)" "no_later (Some (sd_roundNo d)) (counter w)"
    and b: "books_ok False (counter w) [] (auto w)"
    using assms by (auto simp: auto_inv_defs)
  note h = books_bookConfirmedDeposit [OF b f(3), of "sd_side d"]
  have hs: "\<not> sending_now (bookConfirmedDeposit (sd_side d) (Some (sd_roundNo d)) (auto w))"
    using h(3) f(2) by simp
  note landed = foreign_outcome [OF h(1) f(3) hs refl, where nowMs = nowMs and res = res]
  note failed = foreign_outcome [OF b f(3,2) refl, where nowMs = nowMs]
  show "auto_inv (send_resolves res nowMs d w)"
    using assms e f landed failed [where res = res]
    by (cases res) (simp_all add: send_resolves_def auto_inv_defs)
  show "auto_inv (stop_waiting msg nowMs d w)"
    using assms e f failed [where res = "Failure FailedRetry msg"]
    by (simp add: stop_waiting_def auto_inv_defs)
qed

lemma own_inv:
  assumes "auto_inv w" and "inflight w = Some d" and slot: "in_slot d (auto w)"
  shows "auto_inv (send_resolves res nowMs d w)" and "auto_inv (stop_waiting msg nowMs d w)"
proof -
  have books: "books_ok (heldOver w = None) (counter w) (sent w) (auto w)"
    and cnt: "no_later (Some (sd_roundNo d)) (counter w)"
    using assms by (simp_all add: auto_inv_defs)
  let ?h = "bookConfirmedDeposit (sd_side d) (Some (sd_roundNo d)) (auto w)"
  note h = books_bookConfirmedDeposit [OF books cnt, of "sd_side d"]
  have slot': "in_slot d ?h" using slot h(2,3) by (simp add: in_slot_def)
  note fl = books_failed [OF slot books refl]
  show "auto_inv (send_resolves res nowMs d w)"
  proof (cases res)
    case (Signature sig)
    note ld = books_landed [OF slot' h(1) refl, of sig "sd_wallet d"]
    show ?thesis using assms(1,2) Signature ld h(4,5)
      by (simp add: send_resolves_def applySendOutcome_def auto_inv_defs algebra_simps)
  next
    case (Failure cls m)
    show ?thesis using assms(1,2) Failure fl [where cls = cls and msg = m and nowMs = nowMs]
      by (auto simp: send_resolves_def auto_inv_defs)
  qed
  show "auto_inv (stop_waiting msg nowMs d w)"
    using assms(1,2) cnt fl [where cls = FailedRetry and msg = msg and nowMs = nowMs]
    by (auto simp: stop_waiting_def auto_inv_defs)
qed

lemma resolves_inv:
  assumes "auto_inv w" and "inflight w = Some d"
  shows "auto_inv (send_resolves res nowMs d w)" and "auto_inv (stop_waiting msg nowMs d w)"
  using foreign_inv [OF assms] own_inv [OF assms] by blast+

lemma press_inv:
  assumes "auto_inv w"
  shows "auto_inv (press_armWith r sr l nowMs w)" and "auto_inv (press_arm r nowMs w)"
  using assms
  by (auto simp: press_armWith_def press_arm_def arm_def armWith_def auto_inv_defs books_ok_def sending_now_def
      EMPTY_TALLY_def finite_budget_def split: option.splits)

lemma quiet_inv:
  assumes "auto_inv w" and "attempt s = attempt (auto w)" and "tally s = tally (auto w)"
    and "\<And>b. heldOver w = None \<Longrightarrow> budgetUsd (limits s) = Fin b \<Longrightarrow> b \<le> m" and "budgetHigh w \<le> m"
  shows "auto_inv (w\<lparr>auto := s, budgetHigh := m\<rparr>)"
proof -
  have "books_ok (heldOver w = None) (counter w) (sent w) s" using assms(1,2,3) books_cong [of s "auto w"] by (simp add: auto_inv_def)
  moreover have "sending_now s = sending_now (auto w)" "\<And>d. in_slot d s = in_slot d (auto w)"
    using assms(2) by (simp_all add: sending_now_def in_slot_def)
  ultimately show ?thesis using assms by (auto simp: auto_inv_defs split: option.splits)
qed

lemma step_inv_presses:
  assumes "auto_inv w"
  shows "auto_inv (w\<lparr>auto := disarm (auto w)\<rparr>)" and "auto_inv (w\<lparr>auto := setRule r (auto w)\<rparr>)"
    and "auto_inv (press_setLimits l w)" and "auto_inv (wallet_effect w)"
proof -
  have b: "heldOver w = None \<Longrightarrow> budgetUsd (limits (auto w)) = Fin b \<Longrightarrow> b \<le> budgetHigh w" for b
    using assms by (simp add: auto_inv_defs)
  note q = quiet_inv [OF assms, where m = "budgetHigh w"]
  show dis: "auto_inv (w\<lparr>auto := disarm (auto w)\<rparr>)" using q [of "disarm (auto w)"] b by (simp add: disarm_def)
  show "auto_inv (w\<lparr>auto := setRule r (auto w)\<rparr>)" using q [of "setRule r (auto w)"] b assms
    by (cases "sameRule (ad_rule (auto w)) r") (simp_all add: setRule_def)
  have "auto_inv (w\<lparr>auto := setLimits l (auto w), budgetHigh := max (budgetHigh w) (finite_budget l)\<rparr>)"
    using b by (intro quiet_inv [OF assms]) (fastforce simp: setLimits_def finite_budget_def split: if_splits)+
  then show "auto_inv (press_setLimits l w)" by (simp add: press_setLimits_def)
  have "auto_inv (v\<lparr>runWallet := x\<rparr>)" if "auto_inv v" for v x
    using that by (simp add: auto_inv_defs split: option.splits)
  from this [OF assms] this [OF dis] show "auto_inv (wallet_effect w)"
    by (cases w) (simp add: wallet_effect_def Let_def)
qed

lemma late_inv:
  assumes "auto_inv w" and "k < length (late w)"
  shows "auto_inv (late_lands k w)" and "auto_inv (w\<lparr>late := take k (late w) @ drop (Suc k) (late w)\<rparr>)"
proof -
  have fewer: "auto_inv (v\<lparr>late := take k (late w) @ drop (Suc k) (late w), tookUsd := x\<rparr>)"
    if "auto_inv v" "late v = late w" for v x
    using that by (auto simp: auto_inv_defs dest: in_set_takeD in_set_dropD split: option.splits)
  have "late w ! k \<in> set (late w)" using assms(2) by simp
  then have "no_later (Some (sd_roundNo (late w ! k))) (counter w)" using assms(1) by (simp add: auto_inv_defs)
  from fewer [OF hand_inv [OF assms(1) this], of "sd_side (late w ! k)"]
  show "auto_inv (late_lands k w)" by (simp add: late_lands_def Let_def)
  show "auto_inv (w\<lparr>late := take k (late w) @ drop (Suc k) (late w)\<rparr>)"
    using fewer [OF assms(1) refl, of "tookUsd w"] by simp
qed

lemma render_inv:
  assumes "auto_inv w" and "auto_step (Render p) w = Inr w'"
  shows "auto_inv w'"
proof (cases "p_target p")
  case None
  then show ?thesis using assms by (auto simp: auto_inv_defs split: option.splits)
next
  case (Some t)
  then have w': "w' = w\<lparr>props := p, counter := Some t\<rparr>" "no_later (counter w) (Some t)"
    using assms(2) by (auto split: if_splits)
  have "books_ok (heldOver w = None) (Some t) (sent w) (auto w)"
    using assms(1) w'(2) by (auto simp: auto_inv_def intro: books_counter)
  moreover have "\<forall>d\<in>set (late w). sd_roundNo d \<le> t"
    using assms(1) w'(2) by (fastforce simp: auto_inv_defs dest: no_later_trans)
  moreover have "no_later (map_option sd_roundNo (inflight w)) (Some t)"
    using assms(1) w'(2) no_later_trans by (auto simp: auto_inv_defs)
  ultimately show ?thesis using assms(1) w' Some by (simp add: auto_inv_defs split: option.splits)
qed

interpretation repeat_rule: invariant_machine auto_step "\<lambda>_. True" auto_inv
proof unfold_locales
  fix w x w'
  assume i: "auto_inv w" and s: "auto_step x w = Inr w'"
  show "auto_inv w'"
  proof (cases x)
    case (Render p)
    then show ?thesis using render_inv [OF i] s by simp
  qed (use i s in \<open>auto split: option.splits if_splits
        intro: evaluate_inv hand_inv resolves_inv late_inv step_inv_presses press_inv\<close>)
qed

lemma start_inv: "auto_inv (auto_start p)"
  by (auto simp: auto_inv_defs auto_start_def INITIAL_AUTO_DEPLOY_def books_ok_def sending_now_def EMPTY_TALLY_def
      finite_budget_def)

text \<open>A small run to evaluate the model on: a page in round 1, a hand deposit, a run armed with a
  five-dollar budget, and the first deposit sent in round 2.\<close>

definition demo_params :: "int \<Rightarrow> params" where
  "demo_params r =
     \<lparr>p_live = Some \<lparr>lr_roundNo = r, lr_phase = Lobby, lobbyClosesAtMs = None, lr_isYou = [False]\<rparr>,
      p_target = Some r, p_entering = False, p_simWalletUsd = Fin 0, p_signing = Silent, p_sessionEpoch = 0,
      p_roundLog = [], p_you = ''me''\<rparr>"

definition demo_limits :: auto_limits where
  "demo_limits = \<lparr>budgetUsd = Fin 5, perRoundCapUsd = Fin 100, drawdownStopPct = None, maxRounds = None\<rparr>"

definition demo_ops :: "auto_op list" where
  "demo_ops = [HandDeposit Side0 (Some 1), PressArmWith (Fixed (Fin 5)) Repeat demo_limits 0,
     Render (demo_params 2), Evaluate 0]"

definition demo_send :: "int \<Rightarrow> send" where
  "demo_send r = \<lparr>sd_roundNo = r, sd_side = Side0, sd_usd = 5, sd_epoch = 0, sd_wallet = ''me''\<rparr>"

definition demo_world :: auto_world where
  "demo_world = run_ops auto_step demo_ops (auto_start (demo_params 1))"

lemmas demo_defs = demo_params_def demo_limits_def demo_ops_def demo_send_def demo_world_def

lemmas auto_eval = auto_start_def INITIAL_AUTO_DEPLOY_def ARMED_BY_DEFAULT_def EMPTY_TALLY_def
  EMPTY_RUN_PNL_def bookConfirmedDeposit_def noteDeploy_def noteRoundEntered_def attempt_for_def sending_now_def
  press_armWith_def armWith_def finite_budget_def evaluate_def before_decision_def bookRunPnl_def
  bookSettledRounds_def expireStaleAttempt_def decideAutoDeploy_def auto_input_of_def decide_send_def
  entriesOpen_def limitBlock_def drawdownStopUsd_def readRunPnl_def provenLossUsd_def resolveAmountUsd_def
  clampToLimits_def contract_constants js_min_def MAX_TRIES_def beginAttempt_def Let_def
  send_resolves_def stop_waiting_def late_lands_def applySendOutcome_def attemptLanded_def attemptFailed_def
  tallyEntered_def first_or_def

lemma demo_run:
  "inflight demo_world = Some (demo_send 2)" "sent demo_world = [demo_send 2]" "budgetHigh demo_world = 5"
  "late demo_world = []" "tookUsd demo_world = 0" "confirmedUsd demo_world = 0" "heldOver demo_world = None"
  by (simp_all add: demo_defs auto_eval)

definition demo_armed :: auto_state where
  "demo_armed = armWith (Fixed (Fin 5)) Repeat demo_limits (Some 1) 0 (noteDeploy Side0 INITIAL_AUTO_DEPLOY)"

theorem fire_is_within_limits_witness:
  "decideAutoDeploy demo_armed (auto_input_of (demo_params 2) False 0 demo_armed) = Fire 2 Side0 5 1 \<and>
   armed demo_armed \<and> spentUsd (tally demo_armed) + 5 \<le> 5"
proof -
  have f: "decideAutoDeploy demo_armed (auto_input_of (demo_params 2) False 0 demo_armed) = Fire 2 Side0 5 1"
    by (simp add: demo_armed_def demo_defs auto_eval)
  have "budgetUsd (limits demo_armed) = Fin 5" by (simp add: demo_armed_def demo_limits_def armWith_def)
  then show ?thesis using fire_is_within_limits [OF f] f by simp
qed

text \<open>C18: No round is tried more than three times, and never twice at once. Whatever the order of renders,
  evaluations, presses (a new run may be armed while the last one's deposit is still in flight), hand
  deposits, confirmations, refusals, timeouts and late confirmations, a run sends at most three deposits
  into any one round, and an evaluation sends none while any deposit is in flight, the run's own or an
  earlier run's.\<close>

theorem at_most_three_sends:
  assumes "reaches auto_step (\<lambda>_. True) (auto_start p) w"
  shows "sends_of r (sent w) \<le> MAX_TRIES \<and> (inflight w \<noteq> None \<longrightarrow> sent (evaluate nowMs w) = sent w)"
proof -
  have i: "auto_inv w" by (rule repeat_rule.reaches_inv [OF assms start_inv])
  have "sent (evaluate nowMs w) = sent w" if f: "inflight w \<noteq> None"
  proof (cases rule: evaluate_cases [of nowMs w])
    case (fired d n)
    then show ?thesis using decide_send_fire(6) [OF decide_fire(11) [OF fired(2)]] f
      by (simp add: auto_input_of_def)
  qed simp_all
  then show ?thesis using i by (simp add: auto_inv_def books_ok_def)
qed

text \<open>C17: A run that inherits no deposit never spends more than it was given. Take any reachable state
  whose present run was armed with nothing in flight (the page does not insist on that, and a run armed
  over a deposit in flight is charged for it); earlier runs may have been armed in any way. Then the
  dollars in the tally are exactly the dollars of the run's deposits that confirmed while the page
  waited for them, each counted once, and they and the deposit in flight together fit the largest
  budget the player has set since the run began. Deposits that land after the page stopped waiting are
  outside these books.\<close>

theorem run_stays_in_budget:
  assumes "reaches auto_step (\<lambda>_. True) (auto_start p) w" and "heldOver w = None"
  shows "spentUsd (tally (auto w)) = confirmedUsd w \<and>
    confirmedUsd w + (case inflight w of None \<Rightarrow> 0 | Some d \<Rightarrow> sd_usd d) \<le> budgetHigh w"
  using repeat_rule.reaches_inv [OF assms(1) start_inv] assms(2) by (simp add: auto_inv_defs)

text \<open>A run armed while the last run's deposit is still in flight pays for it. The confirmed-enter
  callback fills the slot that arming had cleared, so the old deposit is charged to the budget of a run
  that has sent nothing.\<close>

theorem rearmed_run_pays_for_the_old_deposit:
  assumes "inflight w = Some d"
  shows "let w' = send_resolves (Signature sig) t d (press_armWith r sr l nowMs w)
    in sent w' = [] \<and> spentUsd (tally (auto w')) = sd_usd d \<and> entered (tally (auto w')) = 1"
  by (simp add: send_resolves_def applySendOutcome_def press_armWith_def armWith_def bookConfirmedDeposit_def
      noteDeploy_def noteRoundEntered_def attemptLanded_def attempt_for_def sending_now_def tallyEntered_def
      EMPTY_TALLY_def Let_def)

lemma demo_reached: "reaches auto_step (\<lambda>_. True) (auto_start (demo_params 1)) demo_world"
  unfolding demo_world_def by (rule run_ops_reaches) (simp add: demo_ops_def)

theorem at_most_three_sends_witness:
  "sends_of 2 (sent demo_world) = 1 \<and> sends_of 2 (sent demo_world) \<le> MAX_TRIES \<and>
   sent (evaluate 9000 demo_world) = sent demo_world"
  using at_most_three_sends [OF demo_reached, of 2 9000] by (simp add: demo_run, simp add: demo_send_def)

theorem run_stays_in_budget_witness:
  "confirmedUsd demo_world + sd_usd (demo_send 2) \<le> budgetHigh demo_world \<and> budgetHigh demo_world = 5"
  using run_stays_in_budget [OF demo_reached demo_run(7)] by (simp add: demo_run)

theorem rearmed_run_pays_for_the_old_deposit_witness:
  "let w' = send_resolves (Signature ''sig'') 0 (demo_send 2)
      (press_armWith (Fixed (Fin 1)) Repeat demo_limits 0 (demo_world\<lparr>auto := disarm (auto demo_world)\<rparr>))
   in sent w' = [] \<and> spentUsd (tally (auto w')) = 5"
  using rearmed_run_pays_for_the_old_deposit
    [of "demo_world\<lparr>auto := disarm (auto demo_world)\<rparr>" "demo_send 2" "''sig''" 0 "Fixed (Fin 1)" Repeat demo_limits 0]
  by (simp add: demo_run Let_def demo_send_def)

text \<open>A run whose every deposit lands late: round after round the rule sends its whole budget, the page stops
  waiting, the deposit lands, and the books stay empty.\<close>

definition late_round :: "int \<Rightarrow> auto_op list" where
  "late_round r = [Render (demo_params r), Evaluate 0, StopWaiting ''gave up'' 120000, LateLands 0]"

definition late_ready :: "int \<Rightarrow> auto_world \<Rightarrow> bool" where
  "late_ready r w \<longleftrightarrow>
     armed (auto w) \<and> ad_side (auto w) = Some Side0 \<and> ad_rule (auto w) = Fixed (Fin 5) \<and>
     floorRound (auto w) = Some 1 \<and> sideRule (auto w) = Repeat \<and> limits (auto w) = demo_limits \<and>
     tally (auto w) = EMPTY_TALLY\<lparr>armedAtMs := 0\<rparr> \<and> pnl (auto w) = EMPTY_RUN_PNL \<and>
     deadSessionEpoch (auto w) = None \<and> runWallet w = ''me'' \<and> inflight w = None \<and> late w = [] \<and>
     no_later (counter w) (Some r) \<and> budgetHigh w = 5 \<and> heldOver w = None \<and>
     (\<forall>a. attempt (auto w) = Some a \<longrightarrow> at_roundNo a \<le> r \<and> at_outcome a = Landed)"

lemma late_round_lands:
  assumes "late_ready r w" and "0 < r"
  shows "late_ready (r + 1) (run_ops auto_step (late_round (r + 1)) w)"
    and "tookUsd (run_ops auto_step (late_round (r + 1)) w) = tookUsd w + 5"
proof -
  have "no_later (counter w) (Some (r + 1))" using assms(1) by (auto simp: late_ready_def no_later_Some)
  then show "late_ready (r + 1) (run_ops auto_step (late_round (r + 1)) w)"
    and "tookUsd (run_ops auto_step (late_round (r + 1)) w) = tookUsd w + 5"
    using assms by (cases "attempt (auto w)"; simp add: late_ready_def late_round_def demo_params_def demo_limits_def auto_eval)+
qed

lemma late_rounds:
  "\<exists>w. reaches auto_step (\<lambda>_. True) (auto_start (demo_params 1)) w \<and> late_ready (int n + 1) w \<and>
     tookUsd w = of_nat n * 5"
proof (induction n)
  case 0
  let ?ops = "[HandDeposit Side0 (Some 1), PressArmWith (Fixed (Fin 5)) Repeat demo_limits 0]"
  have "reaches auto_step (\<lambda>_. True) (auto_start (demo_params 1)) (run_ops auto_step ?ops (auto_start (demo_params 1)))"
    by (rule run_ops_reaches) simp
  moreover have "late_ready 1 (run_ops auto_step ?ops (auto_start (demo_params 1)))"
    by (simp add: late_ready_def demo_params_def demo_limits_def auto_eval)
  moreover have "tookUsd (run_ops auto_step ?ops (auto_start (demo_params 1))) = 0" by (simp add: auto_eval)
  ultimately show ?case by auto
next
  case (Suc n)
  then obtain w where w: "reaches auto_step (\<lambda>_. True) (auto_start (demo_params 1)) w"
    "late_ready (int n + 1) w" "tookUsd w = of_nat n * 5" by blast
  let ?v = "run_ops auto_step (late_round (int n + 1 + 1)) w"
  have "reaches auto_step (\<lambda>_. True) w ?v" by (rule run_ops_reaches) (simp add: late_round_def)
  with w(1) have "reaches auto_step (\<lambda>_. True) (auto_start (demo_params 1)) ?v" by (rule reaches_trans)
  moreover have "late_ready (int (Suc n) + 1) ?v" "tookUsd ?v = of_nat (Suc n) * 5"
    using late_round_lands [OF w(2)] w(3) by (simp_all add: algebra_simps)
  ultimately show ?case by blast
qed

lemma failed_books:
  "tally (attemptFailed r err t s) = tally s" "limits (attemptFailed r err t s) = limits s"
  by (simp_all add: attemptFailed_def split: option.split)

lemma confirmed_books:
  "tally (bookConfirmedDeposit sd r s) = tally s" "limits (bookConfirmedDeposit sd r s) = limits s"
  by (simp_all add: bookConfirmedDeposit_def noteRoundEntered_def Let_def split: option.split)

lemma late_books:
  "tally (auto (late_lands 0 (stop_waiting msg t d w))) = tally (auto w) \<and>
   limits (auto (late_lands 0 (stop_waiting msg t d w))) = limits (auto w)"
  by (simp add: late_lands_def stop_waiting_def applySendOutcome_def failed_books confirmed_books Let_def)

text \<open>C40: A deposit that lands late escapes the budget. Whatever deposit is in flight in whatever state: if
  the page stops waiting for it and it lands after all, its dollars have left the wallet, while the
  run's tally, its count of rounds entered and its limits are what they were, so nothing of the budget
  is used and the next deposit may be as large. Hence no budget bounds what a run takes: for every n
  there is a run given five dollars, armed with nothing in flight, that took n times five dollars with
  a tally that reads nothing spent.\<close>

theorem late_deposit_escapes_the_budget:
  assumes "inflight w = Some d"
  shows "(let v = late_lands 0 (stop_waiting msg t d w) in
       reaches auto_step (\<lambda>_. True) w v \<and> inflight v = None \<and> tookUsd v = tookUsd w + sd_usd d \<and>
       tally (auto v) = tally (auto w) \<and> limits (auto v) = limits (auto w) \<and>
       clampToLimits x (limits (auto v)) (spentUsd (tally (auto v))) =
         clampToLimits x (limits (auto w)) (spentUsd (tally (auto w)))) \<and>
     (\<exists>u. reaches auto_step (\<lambda>_. True) (auto_start (demo_params 1)) u \<and> tookUsd u = of_nat n * 5 \<and>
       budgetHigh u = 5 \<and> heldOver u = None \<and> spentUsd (tally (auto u)) = 0 \<and> entered (tally (auto u)) = 0)"
proof -
  let ?v = "late_lands 0 (stop_waiting msg t d w)"
  have "run_ops auto_step [StopWaiting msg t, LateLands 0] w = ?v"
    using assms by (simp add: stop_waiting_def)
  then have "reaches auto_step (\<lambda>_. True) w ?v"
    using run_ops_reaches [of "\<lambda>_. True" "[StopWaiting msg t, LateLands 0]" auto_step w] by simp
  moreover have "tally (auto ?v) = tally (auto w)" "limits (auto ?v) = limits (auto w)"
    using late_books [of msg t d w] by simp_all
  moreover have "inflight ?v = None" "tookUsd ?v = tookUsd w + sd_usd d"
    by (simp_all add: late_lands_def stop_waiting_def Let_def)
  moreover obtain u where "reaches auto_step (\<lambda>_. True) (auto_start (demo_params 1)) u"
    "late_ready (int n + 1) u" "tookUsd u = of_nat n * 5"
    using late_rounds by blast
  moreover have "budgetHigh u = 5" "heldOver u = None" "spentUsd (tally (auto u)) = 0" "entered (tally (auto u)) = 0"
    using \<open>late_ready (int n + 1) u\<close> by (simp_all add: late_ready_def EMPTY_TALLY_def)
  ultimately show ?thesis by (simp add: Let_def) blast
qed

theorem late_deposit_escapes_the_budget_witness:
  "let v = late_lands 0 (stop_waiting ''gave up'' 120000 (demo_send 2) demo_world)
   in tookUsd v = 5 \<and> inflight v = None \<and> spentUsd (tally (auto v)) = 0 \<and>
     clampToLimits (Fin 5) (limits (auto v)) (spentUsd (tally (auto v))) = Some 5"
proof -
  have "spentUsd (tally (auto demo_world)) = 0" "sd_usd (demo_send 2) = 5"
    "clampToLimits (Fin 5) (limits (auto demo_world)) 0 = Some 5"
    by (simp_all add: demo_defs auto_eval math_round_def floor_eq_iff)
  then show ?thesis
    using late_deposit_escapes_the_budget [OF demo_run(1), of "''gave up''" 120000 "Fin 5" 2]
    by (simp add: Let_def demo_run)
qed

end
