(* ===== verification/Link_Store.thy ===== *)
theory Link_Store
  imports Prelude "HOL-Library.Multiset"
begin

text \<open>
  What the service that links a wallet to an X account asks of its storage:
  \<^verbatim>\<open>src/er-demo/api/src/writeStore.ts\<close> and \<^verbatim>\<open>store.ts\<close> (the interfaces) and the in-memory
  implementations \<^verbatim>\<open>memoryWriteStore.ts\<close> and \<^verbatim>\<open>memoryStore.ts\<close>, whose headers say that they
  enforce every rule the Postgres ones do. A JavaScript \<open>Map\<close> whose iteration order is looked at is
  a list of rows in insertion order; one that is only looked up is a map. Texts are lists of characters, so
  a length is that of an ASCII text. The three interfaces are locales: what a client may rely on. Their
  interpretations discharge the laws for the in-memory implementations.
\<close>

subsection \<open>The table's character classes\<close>

definition char_code :: "char \<Rightarrow> nat" where "char_code c = of_char c"

definition is_dec :: "char \<Rightarrow> bool" where "is_dec c \<longleftrightarrow> 48 \<le> char_code c \<and> char_code c \<le> 57"
definition is_upper :: "char \<Rightarrow> bool" where "is_upper c \<longleftrightarrow> 65 \<le> char_code c \<and> char_code c \<le> 90"
definition is_lower :: "char \<Rightarrow> bool" where "is_lower c \<longleftrightarrow> 97 \<le> char_code c \<and> char_code c \<le> 122"

definition NONCE_RE :: "string \<Rightarrow> bool" where
  "NONCE_RE s \<longleftrightarrow> length s = 64 \<and> list_all (\<lambda>c. is_dec c \<or> (97 \<le> char_code c \<and> char_code c \<le> 102)) s"

definition base58_char :: "char \<Rightarrow> bool" where
  "base58_char c \<longleftrightarrow> (is_dec c \<and> c \<noteq> CHR ''0'') \<or> (is_upper c \<and> c \<noteq> CHR ''I'' \<and> c \<noteq> CHR ''O'') \<or>
     (is_lower c \<and> c \<noteq> CHR ''l'')"

definition WALLET_RE :: "string \<Rightarrow> bool" where
  "WALLET_RE s \<longleftrightarrow> 32 \<le> length s \<and> length s \<le> 44 \<and> list_all base58_char s"

definition X_ID_RE :: "string \<Rightarrow> bool" where
  "X_ID_RE s \<longleftrightarrow> 1 \<le> length s \<and> length s \<le> 20 \<and> list_all is_dec s"

definition HANDLE_RE :: "string \<Rightarrow> bool" where
  "HANDLE_RE s \<longleftrightarrow> 1 \<le> length s \<and> length s \<le> 15 \<and>
     list_all (\<lambda>c. is_dec c \<or> is_upper c \<or> is_lower c \<or> c = CHR ''_'') s"

definition AVATAR_URL_PREFIX :: string where "AVATAR_URL_PREFIX = ''https://pbs.twimg.com/''"

definition avatar_ok :: "string option \<Rightarrow> bool" where
  "avatar_ok u = (case u of None \<Rightarrow> True
     | Some v \<Rightarrow> take (length AVATAR_URL_PREFIX) v = AVATAR_URL_PREFIX)"

subsection \<open>Challenges\<close>

record x_identity =
  xId :: string
  handle :: string
  displayName :: string
  avatarUrl :: "string option"

record challenge_base =
  nonce :: string
  ch_wallet :: string
  message :: string
  issuedAtSec :: int
  expiresAtSec :: int

datatype challenge = LinkChallenge challenge_base x_identity | UnlinkChallenge challenge_base

fun base :: "challenge \<Rightarrow> challenge_base" where
  "base (LinkChallenge b i) = b"
| "base (UnlinkChallenge b) = b"

fun is_link :: "challenge \<Rightarrow> bool" where
  "is_link (LinkChallenge b i) = True"
| "is_link (UnlinkChallenge b) = False"

definition identity_storable :: "x_identity \<Rightarrow> bool" where
  "identity_storable i \<longleftrightarrow>
     X_ID_RE (xId i) \<and> HANDLE_RE (handle i) \<and> length (displayName i) \<le> 100 \<and> avatar_ok (avatarUrl i)"

definition assertChallengeIsStorable :: "challenge \<Rightarrow> bool" where
  "assertChallengeIsStorable c \<longleftrightarrow>
     NONCE_RE (nonce (base c)) \<and> WALLET_RE (ch_wallet (base c)) \<and>
     message (base c) \<noteq> '''' \<and> length (message (base c)) \<le> 2000 \<and>
     issuedAtSec (base c) < expiresAtSec (base c) \<and>
     (case c of LinkChallenge b i \<Rightarrow> identity_storable i | UnlinkChallenge b \<Rightarrow> True)"

text \<open>\<open>Inl ()\<close> is a thrown constraint.\<close>

definition put :: "challenge \<Rightarrow> challenge list \<Rightarrow> unit + challenge list" where
  "put c rows =
     (if \<not> assertChallengeIsStorable c then Inl ()
      else if list_ex (\<lambda>r. nonce (base r) = nonce (base c)) rows then Inl ()
      else Inr (rows @ [c]))"

definition consume :: "string \<Rightarrow> int \<Rightarrow> challenge list \<Rightarrow> challenge option \<times> challenge list" where
  "consume n nowSec rows =
     (case List.find (\<lambda>r. nonce (base r) = n) rows of
        None \<Rightarrow> (None, rows)
      | Some r \<Rightarrow>
          if expiresAtSec (base r) \<le> nowSec then (None, rows)
          else (Some r, filter (\<lambda>q. nonce (base q) \<noteq> n) rows))"

text \<open>
  The contract of a challenge store: a redeemed challenge was held, bears the nonce asked for, is not
  expired, and is gone afterwards. A store may sweep other rows away at any time.
\<close>

locale challenge_store =
  fixes put :: "challenge \<Rightarrow> 'c \<Rightarrow> unit + 'c"
    and consume :: "string \<Rightarrow> int \<Rightarrow> 'c \<Rightarrow> challenge option \<times> 'c"
    and held :: "'c \<Rightarrow> challenge multiset"
    and cinv :: "'c \<Rightarrow> bool"
  assumes put_held: "cinv c \<Longrightarrow> put ch c = Inr c' \<Longrightarrow> cinv c' \<and> held c' \<subseteq># add_mset ch (held c)"
    and consume_held: "cinv c \<Longrightarrow> consume n t c = (r, c') \<Longrightarrow> cinv c' \<and>
      (case r of None \<Rightarrow> held c' \<subseteq># held c
       | Some ch \<Rightarrow> nonce (base ch) = n \<and> t < expiresAtSec (base ch) \<and> add_mset ch (held c') \<subseteq># held c)"

definition distinct_nonces :: "challenge list \<Rightarrow> bool" where
  "distinct_nonces rows \<longleftrightarrow> distinct (map (\<lambda>r. nonce (base r)) rows)"

lemma find_removes:
  assumes "List.find P rows = Some r"
  shows "P r" and "add_mset r (mset (filter (\<lambda>q. \<not> P q) rows)) \<subseteq># mset rows"
proof -
  have r: "r \<in> set rows" "P r" using assms by (auto simp: find_Some_iff)
  then show "P r" by simp
  have "r \<in># mset (filter P rows)" using r by simp
  then have "{#r#} \<subseteq># mset (filter P rows)" by simp
  then have "{#r#} + mset (filter (\<lambda>q. \<not> P q) rows) \<subseteq># mset (filter P rows) + mset (filter (\<lambda>q. \<not> P q) rows)"
    by (rule subset_mset.add_right_mono)
  also have "\<dots> = mset rows" by (simp add: multiset_partition [symmetric])
  finally show "add_mset r (mset (filter (\<lambda>q. \<not> P q) rows)) \<subseteq># mset rows" by simp
qed

interpretation memory_challenges: challenge_store put consume mset distinct_nonces
proof unfold_locales
  fix rows ch rows'
  assume "distinct_nonces rows" and "put ch rows = Inr rows'"
  then show "distinct_nonces rows' \<and> mset rows' \<subseteq># add_mset ch (mset rows)"
    by (fastforce simp: put_def distinct_nonces_def list_ex_iff split: if_splits)
next
  fix rows n t r rows'
  assume d: "distinct_nonces rows" and c: "consume n t rows = (r, rows')"
  have f: "distinct_nonces (filter Q rows)" for Q
    using d by (simp add: distinct_nonces_def distinct_map_filter)
  show "distinct_nonces rows' \<and>
    (case r of None \<Rightarrow> mset rows' \<subseteq># mset rows
     | Some ch \<Rightarrow> nonce (base ch) = n \<and> t < expiresAtSec (base ch) \<and> add_mset ch (mset rows') \<subseteq># mset rows)"
    using d c f find_removes [where rows = rows and P = "\<lambda>r. nonce (base r) = n"]
    by (auto simp: consume_def split: option.splits if_splits)
qed

subsection \<open>The rate counter\<close>

type_synonym rate_table = "string \<rightharpoonup> int \<times> nat"

definition next_count :: "rate_table \<Rightarrow> int \<Rightarrow> string \<Rightarrow> nat" where
  "next_count t start b =
     (case t b of None \<Rightarrow> 1 | Some (w, h) \<Rightarrow> if w \<noteq> start then 1 else h + 1)"

fun hit_all :: "string list \<Rightarrow> int \<Rightarrow> rate_table \<Rightarrow> nat list \<times> rate_table" where
  "hit_all [] start t = ([], t)"
| "hit_all (b # bs) start t =
     (let h = next_count t start b; (hs, t') = hit_all bs start (t(b \<mapsto> (start, h))) in (h # hs, t'))"

definition hit :: "string list \<Rightarrow> int \<Rightarrow> rate_table \<Rightarrow> unit + nat list \<times> rate_table" where
  "hit bs start t = (if \<not> distinct bs then Inl () else Inr (hit_all bs start t))"

text \<open>The hits a bucket has in a window.\<close>

definition hits_in :: "rate_table \<Rightarrow> string \<Rightarrow> int \<Rightarrow> nat" where
  "hits_in t b start = (case t b of None \<Rightarrow> 0 | Some (w, h) \<Rightarrow> if w = start then h else 0)"

locale rate_counter =
  fixes hit :: "string list \<Rightarrow> int \<Rightarrow> 'r \<Rightarrow> unit + nat list \<times> 'r"
    and hits :: "'r \<Rightarrow> string \<Rightarrow> int \<Rightarrow> nat"
  assumes hit_distinct: "hit bs s t = Inr x \<Longrightarrow> distinct bs"
    and hit_counts: "hit bs s t = Inr (ns, t') \<Longrightarrow> ns = map (\<lambda>b. hits t b s + 1) bs"
    and hit_adds: "hit bs s t = Inr (ns, t') \<Longrightarrow>
      hits t' b s = hits t b s + (if b \<in> set bs then 1 else 0)"

lemma hit_all_facts:
  assumes "distinct bs" and "hit_all bs s t = (ns, t')"
  shows "ns = map (\<lambda>b. hits_in t b s + 1) bs"
    and "hits_in t' b s = hits_in t b s + (if b \<in> set bs then 1 else 0)"
  using assms
proof (induction bs arbitrary: t ns t')
  case Nil
  { case 1 then show ?case by simp }
  { case 2 then show ?case by simp }
next
  case (Cons x bs)
  have other: "hits_in (t(x \<mapsto> (s, next_count t s x))) c s =
      (if c = x then hits_in t x s + 1 else hits_in t c s)" for c t
    by (auto simp: hits_in_def next_count_def split: option.splits)
  have first: "next_count t s x = hits_in t x s + 1" for t
    by (auto simp: hits_in_def next_count_def split: option.splits)
  { case 1
    obtain hs t1 where h1: "hit_all bs s (t(x \<mapsto> (s, next_count t s x))) = (hs, t1)" by fastforce
    have ns: "ns = next_count t s x # hs" using 1(2) h1 by simp
    have "hs = map (\<lambda>b. hits_in (t(x \<mapsto> (s, next_count t s x))) b s + 1) bs"
      by (rule Cons.IH(1) [OF _ h1]) (use 1(1) in simp)
    then show ?case using ns 1(1) other first by auto }
  { case 2
    obtain hs t1 where h1: "hit_all bs s (t(x \<mapsto> (s, next_count t s x))) = (hs, t1)" by fastforce
    have "t' = t1" using 2(2) h1 by simp
    moreover have "hits_in t1 b s = hits_in (t(x \<mapsto> (s, next_count t s x))) b s + (if b \<in> set bs then 1 else 0)"
      by (rule Cons.IH(2) [OF _ h1]) (use 2(1) in simp)
    ultimately show ?case using 2(1) other by auto }
qed

interpretation memory_rate: rate_counter hit hits_in
proof unfold_locales
  fix bs s t x
  assume "hit bs s t = Inr x"
  then show "distinct bs" by (auto simp: hit_def split: if_splits)
next
  fix bs s t ns t'
  assume h: "hit bs s t = Inr (ns, t')"
  then have f: "distinct bs" "hit_all bs s t = (ns, t')" by (auto simp: hit_def split: if_splits)
  show "ns = map (\<lambda>b. hits_in t b s + 1) bs" by (rule hit_all_facts(1) [OF f])
  show "hits_in t' b s = hits_in t b s + (if b \<in> set bs then 1 else 0)" for b by (rule hit_all_facts(2) [OF f])
qed

subsection \<open>The register\<close>

text \<open>A row of the register; \<open>rows\<close> is the \<open>Map\<close> in insertion order, keyed by \<open>xId\<close>.\<close>

record link_row =
  lr_xId :: string
  lr_wallet :: string
  lr_handle :: string
  lr_displayName :: string
  lr_avatarUrl :: "string option"
  avatarHash :: "string option"
  avatarBytes :: "nat list option"
  avatarAt :: "int option"
  linkedAt :: int
  suppressed :: bool

record register =
  rows :: "link_row list"
  suppressedXIds :: "string set"

definition row_of :: "register \<Rightarrow> string \<Rightarrow> link_row option" where
  "row_of g x = List.find (\<lambda>r. lr_xId r = x) (rows g)"

definition put_row :: "link_row \<Rightarrow> link_row list \<Rightarrow> link_row list" where
  "put_row r rs =
     (if list_ex (\<lambda>q. lr_xId q = lr_xId r) rs
      then map (\<lambda>q. if lr_xId q = lr_xId r then r else q) rs else rs @ [r])"

definition findByWallets :: "string list \<Rightarrow> register \<Rightarrow> link_row list" where
  "findByWallets ws g = filter (\<lambda>r. lr_wallet r \<in> set ws \<and> \<not> suppressed r) (rows g)"

definition findAvatar :: "string \<Rightarrow> string \<Rightarrow> register \<Rightarrow> nat list option" where
  "findAvatar x h g =
     (case row_of g x of
        None \<Rightarrow> None
      | Some r \<Rightarrow> if suppressed r \<or> avatarHash r \<noteq> Some h then None else avatarBytes r)"

definition findForIngest :: "string \<Rightarrow> register \<Rightarrow> (string option \<times> bool) option" where
  "findForIngest x g = map_option (\<lambda>r. (lr_avatarUrl r, suppressed r)) (row_of g x)"

definition putAvatar :: "string \<Rightarrow> string \<Rightarrow> nat list \<Rightarrow> int \<Rightarrow> register \<Rightarrow> bool \<times> register" where
  "putAvatar x h bytes atSec g =
     (case row_of g x of
        None \<Rightarrow> (False, g)
      | Some r \<Rightarrow> (True, g\<lparr>rows := put_row
          (r\<lparr>avatarHash := Some h, avatarBytes := Some bytes, avatarAt := Some atSec\<rparr>) (rows g)\<rparr>))"

definition setSuppressed :: "string \<Rightarrow> bool \<Rightarrow> register \<Rightarrow> bool \<times> register" where
  "setSuppressed x on g =
     (let g1 = (if on then g else g\<lparr>suppressedXIds := suppressedXIds g - {x}\<rparr>) in
      case row_of g1 x of
        None \<Rightarrow> (False, g1)
      | Some r \<Rightarrow>
          let g2 = (if on then g1\<lparr>suppressedXIds := insert x (suppressedXIds g1)\<rparr> else g1)
          in (True, g2\<lparr>rows := put_row (r\<lparr>suppressed := on\<rparr>) (rows g2)\<rparr>))"

datatype link_outcome = Linked | WalletTaken

definition new_row :: "string \<Rightarrow> x_identity \<Rightarrow> int \<Rightarrow> bool \<Rightarrow> link_row" where
  "new_row w i t supp =
     \<lparr>lr_xId = xId i, lr_wallet = w, lr_handle = handle i, lr_displayName = displayName i,
      lr_avatarUrl = avatarUrl i, avatarHash = None, avatarBytes = None, avatarAt = None,
      linkedAt = t, suppressed = supp\<rparr>"

definition moved_row :: "string \<Rightarrow> x_identity \<Rightarrow> int \<Rightarrow> link_row \<Rightarrow> link_row" where
  "moved_row w i t r =
     (let gone = (avatarUrl i = None) in
      r\<lparr>lr_wallet := w, lr_handle := handle i, lr_displayName := displayName i,
        lr_avatarUrl := avatarUrl i,
        avatarHash := (if gone then None else avatarHash r),
        avatarBytes := (if gone then None else avatarBytes r),
        avatarAt := (if gone then None else avatarAt r),
        linkedAt := (if lr_wallet r \<noteq> w then t else linkedAt r)\<rparr>)"

definition link :: "string \<Rightarrow> x_identity \<Rightarrow> int \<Rightarrow> register \<Rightarrow> unit + link_outcome \<times> register" where
  "link w i t g =
     (if \<not> (identity_storable i \<and> WALLET_RE w) then Inl ()
      else if list_ex (\<lambda>r. lr_wallet r = w \<and> lr_xId r \<noteq> xId i) (rows g) then Inr (WalletTaken, g)
      else
        case row_of g (xId i) of
          None \<Rightarrow>
            Inr (Linked, g\<lparr>rows := put_row (new_row w i t (xId i \<in> suppressedXIds g)) (rows g)\<rparr>)
        | Some r \<Rightarrow> Inr (Linked, g\<lparr>rows := put_row (moved_row w i t r) (rows g)\<rparr>))"

definition unlink :: "string \<Rightarrow> register \<Rightarrow> string option \<times> register" where
  "unlink w g =
     (case List.find (\<lambda>r. lr_wallet r = w) (rows g) of
        None \<Rightarrow> (None, g)
      | Some r \<Rightarrow> (Some (lr_xId r), g\<lparr>rows := filter (\<lambda>q. lr_xId q \<noteq> lr_xId r) (rows g)\<rparr>))"

text \<open>The contract of a register, over the pairs it holds.\<close>

locale link_writer =
  fixes link :: "string \<Rightarrow> x_identity \<Rightarrow> int \<Rightarrow> 'l \<Rightarrow> unit + link_outcome \<times> 'l"
    and unlink :: "string \<Rightarrow> 'l \<Rightarrow> string option \<times> 'l"
    and pairs :: "'l \<Rightarrow> (string \<times> string) set"
    and linv :: "'l \<Rightarrow> bool"
  assumes pairs_unique: "linv l \<Longrightarrow> (x, w) \<in> pairs l \<Longrightarrow> (x', w') \<in> pairs l \<Longrightarrow> (x = x') = (w = w')"
    and link_pairs: "linv l \<Longrightarrow> link w i t l = Inr (r, l') \<Longrightarrow> linv l' \<and>
      pairs l' = (if r = Linked then insert (xId i, w) {p \<in> pairs l. fst p \<noteq> xId i} else pairs l)"
    and unlink_pairs: "linv l \<Longrightarrow> unlink w l = (gone, l') \<Longrightarrow> linv l' \<and> pairs l' = {p \<in> pairs l. snd p \<noteq> w}"

definition row_pairs :: "register \<Rightarrow> (string \<times> string) set" where
  "row_pairs g = (\<lambda>r. (lr_xId r, lr_wallet r)) ` set (rows g)"

definition register_ok :: "register \<Rightarrow> bool" where
  "register_ok g \<longleftrightarrow> distinct (map lr_xId (rows g)) \<and> distinct (map lr_wallet (rows g))"

lemma image_where: "f ` {q \<in> S. P (f q)} = {p \<in> f ` S. P p}"
  by auto

lemma set_put_row:
  "distinct (map lr_xId rs) \<Longrightarrow> set (put_row r rs) = insert r {q \<in> set rs. lr_xId q \<noteq> lr_xId r}"
  by (auto simp: put_row_def list_ex_iff)

lemma map_put_row:
  "map lr_xId (put_row r rs) =
     (if lr_xId r \<in> lr_xId ` set rs then map lr_xId rs else map lr_xId rs @ [lr_xId r])"
proof -
  have "list_ex (\<lambda>q. lr_xId q = lr_xId r) rs \<longleftrightarrow> lr_xId r \<in> lr_xId ` set rs"
    by (metis (mono_tags, lifting) imageE image_eqI list_ex_iff)
  then show ?thesis by (simp add: put_row_def)
qed

lemma distinct_put_row:
  assumes "distinct (map lr_xId rs)"
  shows "distinct (map lr_xId (put_row r rs))"
  using assms by (simp add: map_put_row)

lemma register_ok_iff:
  "register_ok g \<longleftrightarrow> distinct (map lr_xId (rows g)) \<and> inj_on lr_wallet (set (rows g))"
  by (auto simp: register_ok_def distinct_map)

lemma put_row_ok:
  assumes "register_ok g" and "\<And>q. q \<in> set (rows g) \<Longrightarrow> lr_wallet q = lr_wallet r \<Longrightarrow> lr_xId q = lr_xId r"
  shows "register_ok (g\<lparr>rows := put_row r (rows g)\<rparr>)"
    and "row_pairs (g\<lparr>rows := put_row r (rows g)\<rparr>) =
      insert (lr_xId r, lr_wallet r) {p \<in> row_pairs g. fst p \<noteq> lr_xId r}"
proof -
  have d: "distinct (map lr_xId (rows g))" and i: "inj_on lr_wallet (set (rows g))"
    using assms(1) by (simp_all add: register_ok_iff)
  note sp = set_put_row [OF d, of r]
  have "lr_wallet q \<noteq> lr_wallet r" if "q \<in> set (rows g)" "lr_xId q \<noteq> lr_xId r" for q
    using assms(2) that by blast
  then have "inj_on lr_wallet (set (put_row r (rows g)))"
    unfolding sp using i by (fastforce simp: inj_on_def)
  then show "register_ok (g\<lparr>rows := put_row r (rows g)\<rparr>)"
    using distinct_put_row [OF d] by (simp add: register_ok_iff)
  show "row_pairs (g\<lparr>rows := put_row r (rows g)\<rparr>) =
      insert (lr_xId r, lr_wallet r) {p \<in> row_pairs g. fst p \<noteq> lr_xId r}"
    using image_where [where f = "\<lambda>q. (lr_xId q, lr_wallet q)" and P = "\<lambda>p. fst p \<noteq> lr_xId r" and S = "set (rows g)"]
    by (simp add: row_pairs_def sp)
qed

lemma row_of_SomeD: "row_of g x = Some r \<Longrightarrow> r \<in> set (rows g) \<and> lr_xId r = x"
  by (auto simp: row_of_def find_Some_iff)

lemma row_of_unique: "register_ok g \<Longrightarrow> r \<in> set (rows g) \<Longrightarrow> row_of g (lr_xId r) = Some r"
  by (auto simp: register_ok_def row_of_def find_Some_iff in_set_conv_nth distinct_conv_nth)

lemma moved_row_same [simp]:
  "lr_xId (moved_row w i t r) = lr_xId r" "lr_wallet (moved_row w i t r) = w"
  "suppressed (moved_row w i t r) = suppressed r"
  by (simp_all add: moved_row_def Let_def)

lemma new_row_same [simp]:
  "lr_xId (new_row w i t b) = xId i" "lr_wallet (new_row w i t b) = w" "suppressed (new_row w i t b) = b"
  by (simp_all add: new_row_def)

lemma link_cases:
  assumes "link w i t g = Inr (r, g')"
  obtains (taken) "r = WalletTaken" and "g' = g"
    | (written) q where "r = Linked" and "g' = g\<lparr>rows := put_row q (rows g)\<rparr>" and "lr_xId q = xId i"
        and "lr_wallet q = w" and "\<And>p. p \<in> set (rows g) \<Longrightarrow> lr_wallet p = w \<Longrightarrow> lr_xId p = xId i"
        and "suppressed q = (case row_of g (xId i) of None \<Rightarrow> xId i \<in> suppressedXIds g | Some o' \<Rightarrow> suppressed o')"
proof (cases "list_ex (\<lambda>r. lr_wallet r = w \<and> lr_xId r \<noteq> xId i) (rows g)")
  case True
  then show thesis using assms taken by (auto simp: link_def split: if_splits)
next
  case False
  then have u: "\<And>p. p \<in> set (rows g) \<Longrightarrow> lr_wallet p = w \<Longrightarrow> lr_xId p = xId i" by (auto simp: list_ex_iff)
  show thesis
  proof (cases "row_of g (xId i)")
    case None
    then show thesis using assms False u written [of "new_row w i t (xId i \<in> suppressedXIds g)"]
      by (auto simp: link_def split: if_splits)
  next
    case (Some o')
    then show thesis using assms False u row_of_SomeD [OF Some] written [of "moved_row w i t o'"]
      by (auto simp: link_def split: if_splits)
  qed
qed

lemma unlink_cases:
  assumes "register_ok g" and "unlink w g = (r, g')"
  shows "register_ok g'" and "row_pairs g' = {p \<in> row_pairs g. snd p \<noteq> w}"
    and "set (rows g') \<subseteq> set (rows g)" and "suppressedXIds g' = suppressedXIds g"
proof -
  have i: "inj_on lr_wallet (set (rows g))" "inj_on lr_xId (set (rows g))" "distinct (map lr_xId (rows g))"
    using assms(1) by (auto simp: register_ok_iff register_ok_def distinct_map)
  have "register_ok g' \<and> row_pairs g' = {p \<in> row_pairs g. snd p \<noteq> w} \<and> set (rows g') \<subseteq> set (rows g) \<and>
    suppressedXIds g' = suppressedXIds g"
  proof (cases "List.find (\<lambda>r. lr_wallet r = w) (rows g)")
    case None
    then have "g' = g" using assms(2) by (simp add: unlink_def)
    moreover have "\<forall>r\<in>set (rows g). lr_wallet r \<noteq> w" using None by (auto simp: find_None_iff)
    ultimately show ?thesis using assms(1) by (auto simp: row_pairs_def)
  next
    case (Some q)
    then have q: "q \<in> set (rows g)" "lr_wallet q = w" by (auto simp: find_Some_iff)
    then have same: "lr_xId p = lr_xId q \<longleftrightarrow> lr_wallet p = w" if "p \<in> set (rows g)" for p
      using i that by (auto dest: inj_onD)
    have g': "g' = g\<lparr>rows := filter (\<lambda>p. lr_xId p \<noteq> lr_xId q) (rows g)\<rparr>"
      using assms(2) Some by (simp add: unlink_def)
    show ?thesis unfolding g' using i same
      by (auto simp: register_ok_iff row_pairs_def distinct_map_filter inj_on_def)
  qed
  then show "register_ok g'" "row_pairs g' = {p \<in> row_pairs g. snd p \<noteq> w}" "set (rows g') \<subseteq> set (rows g)"
    "suppressedXIds g' = suppressedXIds g" by simp_all
qed

interpretation memory_links: link_writer link unlink row_pairs register_ok
proof unfold_locales
  fix g x w x' w'
  assume "register_ok g" and "(x, w) \<in> row_pairs g" and "(x', w') \<in> row_pairs g"
  then show "(x = x') = (w = w')"
    by (auto simp: register_ok_def row_pairs_def distinct_map dest: inj_onD)
next
  fix g w i t r g'
  assume ok: "register_ok g" and l: "link w i t g = Inr (r, g')"
  from l show "register_ok g' \<and>
    row_pairs g' = (if r = Linked then insert (xId i, w) {p \<in> row_pairs g. fst p \<noteq> xId i} else row_pairs g)"
  proof (cases rule: link_cases)
    case taken
    then show ?thesis using ok by simp
  next
    case (written q)
    have u: "\<And>p. p \<in> set (rows g) \<Longrightarrow> lr_wallet p = lr_wallet q \<Longrightarrow> lr_xId p = lr_xId q"
      using written(3-5) by simp
    show ?thesis using put_row_ok [OF ok u] written(1-4) by simp
  qed
next
  fix g w r g'
  assume "register_ok g" and "unlink w g = (r, g')"
  from unlink_cases(1,2) [OF this] show "register_ok g' \<and> row_pairs g' = {p \<in> row_pairs g. snd p \<noteq> w}" by simp
qed

subsection \<open>The kill switch\<close>

text \<open>A row is hidden exactly when its X account is on the list of suppressed ones, which outlives
  rows.\<close>

definition suppression_ok :: "register \<Rightarrow> bool" where
  "suppression_ok g \<longleftrightarrow> (\<forall>r\<in>set (rows g). suppressed r \<longleftrightarrow> lr_xId r \<in> suppressedXIds g)"

lemma suppression_put_row:
  assumes "suppression_ok g" and "register_ok g" and "suppressed q \<longleftrightarrow> lr_xId q \<in> suppressedXIds g"
  shows "suppression_ok (g\<lparr>rows := put_row q (rows g)\<rparr>)"
proof -
  have "distinct (map lr_xId (rows g))" using assms(2) by (simp add: register_ok_def)
  from set_put_row [OF this, of q] show ?thesis using assms(1,3) by (simp add: suppression_ok_def)
qed

lemma suppression_link:
  assumes "suppression_ok g" and "register_ok g" and "link w i t g = Inr (r, g')"
  shows "suppression_ok g'" and "suppressedXIds g' = suppressedXIds g"
proof -
  from assms(3) have "suppression_ok g' \<and> suppressedXIds g' = suppressedXIds g"
  proof (cases rule: link_cases)
    case taken
    then show ?thesis using assms(1) by simp
  next
    case (written q)
    have "suppressed q \<longleftrightarrow> lr_xId q \<in> suppressedXIds g"
      using written(3,6) assms(1) row_of_SomeD [of g "xId i"]
      by (auto simp: suppression_ok_def split: option.splits)
    then show ?thesis using suppression_put_row [OF assms(1,2)] written(2) by simp
  qed
  then show "suppression_ok g'" "suppressedXIds g' = suppressedXIds g" by simp_all
qed

lemma suppression_unlink:
  assumes "suppression_ok g" and "register_ok g" and "unlink w g = (r, g')"
  shows "suppression_ok g'" and "suppressedXIds g' = suppressedXIds g"
  using unlink_cases(3,4) [OF assms(2,3)] assms(1) by (auto simp: suppression_ok_def)

lemma setSuppressed_facts:
  assumes "suppression_ok g" and "register_ok g" and "setSuppressed x on g = (ok, g')"
  shows "suppression_ok g'" and "register_ok g'" and "row_pairs g' = row_pairs g"
    and "suppressedXIds g' = (if on then if ok then insert x (suppressedXIds g) else suppressedXIds g
                              else suppressedXIds g - {x})"
    and "ok = (row_of g x \<noteq> None)"
proof -
  let ?g1 = "if on then g else g\<lparr>suppressedXIds := suppressedXIds g - {x}\<rparr>"
  have same: "row_of ?g1 x = row_of g x" "rows ?g1 = rows g" by (simp_all add: row_of_def)
  have "suppression_ok g' \<and> register_ok g' \<and> row_pairs g' = row_pairs g \<and>
    suppressedXIds g' = (if on then if ok then insert x (suppressedXIds g) else suppressedXIds g
                              else suppressedXIds g - {x}) \<and> ok = (row_of g x \<noteq> None)"
  proof (cases "row_of g x")
    case None
    then have "x \<notin> lr_xId ` set (rows g)" by (auto simp: row_of_def find_None_iff)
    moreover have "ok = False" "g' = ?g1"
      using assms(3) None unfolding setSuppressed_def Let_def same(1) by auto
    ultimately show ?thesis using assms(1,2) None
      by (auto simp: suppression_ok_def register_ok_def row_pairs_def)
  next
    case (Some r)
    let ?g2 = "if on then ?g1\<lparr>suppressedXIds := insert x (suppressedXIds ?g1)\<rparr> else ?g1"
    let ?r = "r\<lparr>suppressed := on\<rparr>"
    have r: "r \<in> set (rows g)" "lr_xId r = x" using row_of_SomeD [OF Some] by auto
    have g': "ok = True" "g' = ?g2\<lparr>rows := put_row ?r (rows g)\<rparr>"
      using assms(3) Some unfolding setSuppressed_def Let_def same(1) by auto
    have ok: "register_ok (g\<lparr>rows := put_row ?r (rows g)\<rparr>)"
      and pairs: "row_pairs (g\<lparr>rows := put_row ?r (rows g)\<rparr>) =
        insert (lr_xId r, lr_wallet r) {p \<in> row_pairs g. fst p \<noteq> lr_xId r}"
      using put_row_ok [OF assms(2), of ?r] r assms(2)
      by (auto simp: register_ok_iff dest: inj_onD)
    have "row_pairs g = insert (lr_xId r, lr_wallet r) {p \<in> row_pairs g. fst p \<noteq> lr_xId r}"
      using r(1) assms(2) by (auto simp: row_pairs_def register_ok_def distinct_map dest: inj_onD)
    moreover have "row_pairs g' = row_pairs (g\<lparr>rows := put_row ?r (rows g)\<rparr>)"
      "register_ok g' = register_ok (g\<lparr>rows := put_row ?r (rows g)\<rparr>)"
      using g'(2) by (simp_all add: row_pairs_def register_ok_def)
    moreover have "suppression_ok g'"
    proof -
      have "distinct (map lr_xId (rows g))" using assms(2) by (simp add: register_ok_def)
      from set_put_row [OF this, of ?r] show ?thesis
        using assms(1) g'(2) r(2) by (auto simp: suppression_ok_def)
    qed
    ultimately show ?thesis using ok pairs g' Some by simp
  qed
  then show "suppression_ok g'" "register_ok g'" "row_pairs g' = row_pairs g"
    "suppressedXIds g' = (if on then if ok then insert x (suppressedXIds g) else suppressedXIds g
                              else suppressedXIds g - {x})"
    "ok = (row_of g x \<noteq> None)" by simp_all
qed

lemma putAvatar_facts:
  assumes "suppression_ok g" and "register_ok g" and "putAvatar x h b t g = (ok, g')"
  shows "suppression_ok g'" and "register_ok g'" and "suppressedXIds g' = suppressedXIds g"
proof -
  have "suppression_ok g' \<and> register_ok g' \<and> suppressedXIds g' = suppressedXIds g"
  proof (cases "row_of g x")
    case None
    then show ?thesis using assms by (simp add: putAvatar_def)
  next
    case (Some r)
    let ?q = "r\<lparr>avatarHash := Some h, avatarBytes := Some b, avatarAt := Some t\<rparr>"
    have r: "r \<in> set (rows g)" "lr_xId r = x" using row_of_SomeD [OF Some] by auto
    have g': "g' = g\<lparr>rows := put_row ?q (rows g)\<rparr>" using assms(3) Some by (simp add: putAvatar_def)
    have u: "lr_wallet q = lr_wallet ?q \<Longrightarrow> lr_xId q = lr_xId ?q" if "q \<in> set (rows g)" for q
      using assms(2) that r(1) by (auto simp: register_ok_iff dest: inj_onD)
    have "suppressed ?q \<longleftrightarrow> lr_xId ?q \<in> suppressedXIds g" using assms(1) r by (simp add: suppression_ok_def)
    then show ?thesis unfolding g'
      using suppression_put_row [OF assms(1,2), of ?q] put_row_ok(1) [OF assms(2) u] by simp
  qed
  then show "suppression_ok g'" "register_ok g'" "suppressedXIds g' = suppressedXIds g" by simp_all
qed

lemma hidden_is_not_served:
  assumes "suppression_ok g" and "x \<in> suppressedXIds g"
  shows "r \<in> set (findByWallets ws g) \<Longrightarrow> lr_xId r \<noteq> x" and "findAvatar x h g = None"
  using assms row_of_SomeD [of g x]
  by (auto simp: findByWallets_def findAvatar_def suppression_ok_def split: option.splits)

text \<open>Everything that can happen to the register after it is built.\<close>

datatype register_op =
    DoLink string x_identity int | DoUnlink string | DoSuppress string bool | DoAvatar string string "nat list" int

fun register_step :: "register_op \<Rightarrow> register \<Rightarrow> unit + register" where
  "register_step (DoLink w i t) g = (case link w i t g of Inl _ \<Rightarrow> Inl () | Inr (r, g') \<Rightarrow> Inr g')"
| "register_step (DoUnlink w) g = Inr (snd (unlink w g))"
| "register_step (DoSuppress x on) g = Inr (snd (setSuppressed x on g))"
| "register_step (DoAvatar x h b t) g = Inr (snd (putAvatar x h b t g))"

definition register_inv :: "register \<Rightarrow> bool" where
  "register_inv g \<longleftrightarrow> register_ok g \<and> suppression_ok g"

lemma register_step_facts:
  assumes "register_inv g" and "register_step op g = Inr g'"
  shows "register_inv g'" and "x \<in> suppressedXIds g \<Longrightarrow> op \<noteq> DoSuppress x False \<Longrightarrow> x \<in> suppressedXIds g'"
proof -
  have ok: "register_ok g" "suppression_ok g" using assms(1) by (simp_all add: register_inv_def)
  have "register_inv g' \<and> (x \<in> suppressedXIds g \<and> op \<noteq> DoSuppress x False \<longrightarrow> x \<in> suppressedXIds g')"
  proof (cases op)
    case (DoLink w i t)
    then obtain r where l: "link w i t g = Inr (r, g')" using assms(2) by (auto split: sum.splits)
    show ?thesis using memory_links.link_pairs [OF ok(1) l] suppression_link [OF ok(2,1) l]
      by (simp add: register_inv_def)
  next
    case (DoUnlink w)
    then obtain r where u: "unlink w g = (r, g')" using assms(2) by (metis register_step.simps(2) sum.inject(2) surj_pair snd_conv)
    show ?thesis using unlink_cases(1) [OF ok(1) u] suppression_unlink [OF ok(2,1) u] by (simp add: register_inv_def)
  next
    case (DoSuppress y on)
    then obtain b where u: "setSuppressed y on g = (b, g')"
      using assms(2) by (metis register_step.simps(3) sum.inject(2) surj_pair snd_conv)
    note f = setSuppressed_facts [OF ok(2,1) u]
    show ?thesis using f(1,2,4) DoSuppress by (auto simp: register_inv_def)
  next
    case (DoAvatar y h b t)
    then obtain k where u: "putAvatar y h b t g = (k, g')"
      using assms(2) by (metis register_step.simps(4) sum.inject(2) surj_pair snd_conv)
    show ?thesis using putAvatar_facts [OF ok(2,1) u] by (simp add: register_inv_def)
  qed
  then show "register_inv g'" and "x \<in> suppressedXIds g \<Longrightarrow> op \<noteq> DoSuppress x False \<Longrightarrow> x \<in> suppressedXIds g'"
    by blast+
qed

interpretation register_machine: invariant_machine register_step "\<lambda>op. True" register_inv
  by unfold_locales (rule register_step_facts(1))

interpretation suppressed_machine: invariant_machine register_step "\<lambda>op. op \<noteq> DoSuppress x False"
    "\<lambda>g. register_inv g \<and> x \<in> suppressedXIds g" for x
  by unfold_locales (auto dest: register_step_facts)

definition empty_register :: register where "empty_register = \<lparr>rows = [], suppressedXIds = {}\<rparr>"

lemma empty_register_inv: "register_inv empty_register"
  by (simp add: register_inv_def register_ok_def suppression_ok_def empty_register_def)

text \<open>The kill switch survives a relink. Once an operator has hidden an X account that is in the
  register, no sequence of links, unlinks, pictures and other accounts' switches shows it again, neither
  in a lookup by wallet nor through its picture, until the switch itself is turned back.\<close>

theorem kill_switch_outlives_relink:
  assumes "setSuppressed x True (run_ops register_step before empty_register) = (True, g)"
    and "DoSuppress x False \<notin> set after"
  defines "g' \<equiv> run_ops register_step after g"
  shows "(\<forall>r\<in>set (findByWallets ws g'). lr_xId r \<noteq> x) \<and> findAvatar x h g' = None"
proof -
  have i: "register_inv (run_ops register_step before empty_register)"
    by (rule register_machine.run_inv [OF empty_register_inv]) (simp add: list_all_iff)
  have "register_inv g \<and> x \<in> suppressedXIds g"
    using setSuppressed_facts [OF _ _ assms(1)] i by (simp add: register_inv_def)
  then have "register_inv g' \<and> x \<in> suppressedXIds g'"
    unfolding g'_def by (rule suppressed_machine.run_inv) (use assms(2) in \<open>auto simp: list_all_iff\<close>)
  then show ?thesis using hidden_is_not_served [of g' x] by (auto simp: register_inv_def)
qed

definition demo_linked :: "register_op list" where
  "demo_linked = [DoLink (replicate 32 (CHR ''1''))
     \<lparr>xId = ''42'', handle = ''ann'', displayName = '''', avatarUrl = None\<rparr> 0]"

lemma demo_linked_run:
  "run_ops register_step demo_linked empty_register = empty_register\<lparr>rows := [new_row (replicate 32 (CHR ''1''))
     \<lparr>xId = ''42'', handle = ''ann'', displayName = '''', avatarUrl = None\<rparr> 0 False]\<rparr>"
  by (simp add: demo_linked_def link_def identity_storable_def X_ID_RE_def HANDLE_RE_def avatar_ok_def
      WALLET_RE_def base58_char_def is_dec_def is_upper_def is_lower_def char_code_def list_all_iff
      empty_register_def row_of_def put_row_def)

theorem kill_switch_outlives_relink_witness:
  "fst (setSuppressed ''42'' True (run_ops register_step demo_linked empty_register)) \<and>
   findAvatar ''42'' ''ab'' (run_ops register_step (DoUnlink (replicate 32 (CHR ''1'')) # demo_linked)
     (snd (setSuppressed ''42'' True (run_ops register_step demo_linked empty_register)))) = None"
proof -
  have f: "fst (setSuppressed ''42'' True (run_ops register_step demo_linked empty_register))"
    unfolding demo_linked_run by (simp add: setSuppressed_def row_of_def new_row_def)
  then have "setSuppressed ''42'' True (run_ops register_step demo_linked empty_register) =
      (True, snd (setSuppressed ''42'' True (run_ops register_step demo_linked empty_register)))"
    by (metis prod.collapse)
  from kill_switch_outlives_relink [OF this, of "DoUnlink (replicate 32 (CHR ''1'')) # demo_linked" _ "''ab''"] f
  show ?thesis by (simp add: demo_linked_def)
qed

subsection \<open>The register as a partial bijection\<close>

text \<open>What the register is meant to be: a set of pairs of an X account and a wallet. A link moves the
  account, and is refused when the wallet wears another one; an unlink takes the wallet's pair away.\<close>

definition spec_link :: "string \<Rightarrow> string \<Rightarrow> (string \<times> string) set \<Rightarrow> link_outcome \<times> (string \<times> string) set" where
  "spec_link w x P =
     (if \<exists>y. (y, w) \<in> P \<and> y \<noteq> x then (WalletTaken, P) else (Linked, insert (x, w) {p \<in> P. fst p \<noteq> x}))"

definition spec_unlink :: "string \<Rightarrow> (string \<times> string) set \<Rightarrow> (string \<times> string) set" where
  "spec_unlink w P = {p \<in> P. snd p \<noteq> w}"

definition partial_bijection :: "(string \<times> string) set \<Rightarrow> bool" where
  "partial_bijection P \<longleftrightarrow> (\<forall>x w x' w'. (x, w) \<in> P \<and> (x', w') \<in> P \<longrightarrow> (x = x') = (w = w'))"

lemma unlink_answer:
  assumes "register_ok g"
  shows "fst (unlink w g) = Some x \<longleftrightarrow> (x, w) \<in> row_pairs g"
proof (cases "List.find (\<lambda>r. lr_wallet r = w) (rows g)")
  case None
  then have "fst (unlink w g) = None" by (simp add: unlink_def)
  moreover have "lr_wallet r \<noteq> w" if "r \<in> set (rows g)" for r
    using None that unfolding find_None_iff by blast
  ultimately show ?thesis by (auto simp: row_pairs_def)
next
  case (Some q)
  then have q: "q \<in> set (rows g)" "lr_wallet q = w" unfolding find_Some_iff by auto
  have inj: "inj_on lr_wallet (set (rows g))" using assms by (simp add: register_ok_def distinct_map)
  have u: "r = q" if "r \<in> set (rows g)" "lr_wallet r = w" for r
    by (rule inj_onD [OF inj _ that(1) q(1)]) (simp add: that(2) q(2))
  have "(x, w) \<in> row_pairs g \<longleftrightarrow> (\<exists>r\<in>set (rows g). lr_xId r = x \<and> lr_wallet r = w)"
    unfolding row_pairs_def by (simp add: image_iff) blast
  then have "(x, w) \<in> row_pairs g \<longleftrightarrow> lr_xId q = x" using q u by blast
  moreover have "fst (unlink w g) = Some (lr_xId q)" using Some by (simp add: unlink_def)
  ultimately show ?thesis by auto
qed

lemma putAvatar_pairs:
  assumes "register_ok g"
  shows "row_pairs (snd (putAvatar x h bytes t g)) = row_pairs g"
proof (cases "row_of g x")
  case None
  then show ?thesis by (simp add: putAvatar_def)
next
  case (Some r)
  let ?q = "r\<lparr>avatarHash := Some h, avatarBytes := Some bytes, avatarAt := Some t\<rparr>"
  have d: "distinct (map lr_xId (rows g))" using assms by (simp add: register_ok_def)
  have m: "r \<in> set (rows g)" using row_of_SomeD [OF Some] by simp
  have u: "p = r" if "p \<in> set (rows g)" "lr_xId p = lr_xId r" for p
    using d m that by (auto simp: distinct_map dest: inj_onD)
  have "(\<lambda>p. (lr_xId p, lr_wallet p)) ` set (put_row ?q (rows g)) = (\<lambda>p. (lr_xId p, lr_wallet p)) ` set (rows g)"
    unfolding set_put_row [OF d] using m u by (force simp: image_iff)
  then show ?thesis using Some by (simp add: putAvatar_def row_pairs_def)
qed

text \<open>C24: The register is a partial bijection between X accounts and wallets. In every state that
  operations can reach, each account has at most one wallet and each wallet at most one account; a
  link that is storable does to the pairs exactly what the specification does, with the same answer; an
  unlink takes away the wallet's pair and answers the account the wallet had, if it had one; and neither
  suppressing an account nor storing its picture touches the pairs.\<close>

theorem register_refines_bijection:
  assumes "g = run_ops register_step ops empty_register"
  shows "partial_bijection (row_pairs g) \<and>
    (\<forall>w i t r g'. link w i t g = Inr (r, g') \<longrightarrow> (r, row_pairs g') = spec_link w (xId i) (row_pairs g)) \<and>
    (\<forall>w. row_pairs (snd (unlink w g)) = spec_unlink w (row_pairs g)) \<and>
    (\<forall>w x. fst (unlink w g) = Some x \<longleftrightarrow> (x, w) \<in> row_pairs g) \<and>
    (\<forall>x on. row_pairs (snd (setSuppressed x on g)) = row_pairs g) \<and>
    (\<forall>x h bytes t. row_pairs (snd (putAvatar x h bytes t g)) = row_pairs g)"
proof -
  have "register_inv g"
    unfolding assms by (rule register_machine.run_inv [OF empty_register_inv]) (simp add: list_all_iff)
  then have ok: "register_ok g" "suppression_ok g" by (simp_all add: register_inv_def)
  have "partial_bijection (row_pairs g)"
    using memory_links.pairs_unique [OF ok(1)] unfolding partial_bijection_def by blast
  moreover have "(r, row_pairs g') = spec_link w (xId i) (row_pairs g)" if l: "link w i t g = Inr (r, g')" for w i t r g'
  proof -
    have taken: "r = WalletTaken \<longleftrightarrow> (\<exists>y. (y, w) \<in> row_pairs g \<and> y \<noteq> xId i)"
      using l by (auto simp: link_def row_pairs_def list_ex_iff split: if_splits option.splits)
    show ?thesis using memory_links.link_pairs [OF ok(1) l] taken by (cases r) (auto simp: spec_link_def)
  qed
  moreover have "row_pairs (snd (unlink w g)) = spec_unlink w (row_pairs g)" for w
    using unlink_cases(2) [OF ok(1), of w] by (cases "unlink w g") (simp add: spec_unlink_def)
  moreover have "fst (unlink w g) = Some x \<longleftrightarrow> (x, w) \<in> row_pairs g" for w x
    using unlink_answer [OF ok(1)] .
  moreover have "row_pairs (snd (setSuppressed x on g)) = row_pairs g" for x on
    using setSuppressed_facts(3) [OF ok(2,1), of x on] by (cases "setSuppressed x on g") simp
  moreover have "row_pairs (snd (putAvatar x h bytes t g)) = row_pairs g" for x h bytes t
    by (rule putAvatar_pairs [OF ok(1)])
  ultimately show ?thesis by blast
qed

theorem register_refines_bijection_witness:
  "partial_bijection (row_pairs (run_ops register_step demo_linked empty_register)) \<and>
   row_pairs (run_ops register_step demo_linked empty_register) = {(''42'', replicate 32 (CHR ''1''))}"
  using register_refines_bijection [OF refl, of demo_linked]
  unfolding demo_linked_run by (simp add: row_pairs_def new_row_def)

end
