(* ===== verification/Link_Ceremony.thy ===== *)
theory Link_Ceremony
  imports Link_Store Js_Number
begin

text \<open>
  Linking a wallet to an X account: \<^verbatim>\<open>src/er-demo/api/src/challengeHandler.ts\<close> issues a challenge
  after an identity proof, \<^verbatim>\<open>linkWriteHandler.ts\<close> redeems it with the wallet's signature, with
  \<^verbatim>\<open>rateLimit.ts\<close>, \<^verbatim>\<open>challenge.ts\<close>, \<^verbatim>\<open>wallets.ts\<close>, \<^verbatim>\<open>reserved.ts\<close> and
  \<^verbatim>\<open>writeHttp.ts\<close>. The handlers take their storage as arguments, as the code does. The packages the
  code calls are arguments too, in \<open>ceremony_env\<close>: the verification of an identity token, the
  validity of a public key, ed25519 and the HMAC of a bucket. So are the clock, the random bytes, the
  list of house wallets at that moment, the network a request comes from and what \<open>JSON.parse\<close> makes
  of its body. Headers and the wording of refusals are left out; a refusal is its status and its code.
\<close>

subsection \<open>Refusals and bodies\<close>

datatype response =
    Refused nat string
  | Limited int
  | MethodNotAllowed
  | Issued string string int
  | LinkedOk
  | Unlinked bool

definition unavailable :: response where "unavailable = Refused 503 ''unavailable''"

definition malformed :: response where "malformed = Refused 400 ''malformed''"

definition MAX_BODY_BYTES :: nat where "MAX_BODY_BYTES = 8192"

datatype jval = JString string | JOther

text \<open>What \<open>JSON.parse\<close> gives: nothing, a value that is no object, or an object's fields.\<close>

datatype json_text = NotJson | NotAnObject | JObject "string \<rightharpoonup> jval"

record http_request =
  rq_method :: string
  rq_contentType :: "string option"
  rq_contentLength :: "string option"
  rq_text :: "string option"
  rq_json :: json_text
  rq_host :: "string option"
  rq_network :: string

definition lower_char :: "char \<Rightarrow> char" where
  "lower_char c = (if is_upper c then char_of (char_code c + 32) else c)"

definition lower :: "string \<Rightarrow> string" where "lower s = map lower_char s"

definition readJsonBody :: "http_request \<Rightarrow> response + (string \<rightharpoonup> jval)" where
  "readJsonBody q =
     (if \<not> starts_with ''application/json'' (lower (case rq_contentType q of None \<Rightarrow> '''' | Some t \<Rightarrow> t))
        then Inl (Refused 415 ''content-type'')
      else if (case rq_contentLength q of None \<Rightarrow> False
               | Some d \<Rightarrow> js_isFinite (js_Number d) \<and> js_less (Fin (of_nat MAX_BODY_BYTES)) (js_Number d))
        then Inl (Refused 413 ''too-large'')
      else
        case rq_text q of
          None \<Rightarrow> Inl malformed
        | Some t \<Rightarrow>
            if length t > MAX_BODY_BYTES then Inl (Refused 413 ''too-large'')
            else
              case rq_json q of
                NotJson \<Rightarrow> Inl malformed
              | NotAnObject \<Rightarrow> Inl malformed
              | JObject f \<Rightarrow> Inr f)"

subsection \<open>Signatures, wallets, reserved names\<close>

definition b64_val :: "char \<Rightarrow> nat option" where
  "b64_val c =
     (if is_upper c then Some (char_code c - 65)
      else if is_lower c then Some (char_code c - 71)
      else if is_dec c then Some (char_code c + 4)
      else if c = CHR ''+'' then Some 62
      else if c = CHR ''/'' then Some 63 else None)"

definition SIG_RE :: "string \<Rightarrow> bool" where
  "SIG_RE s \<longleftrightarrow> length s = 88 \<and> list_all (\<lambda>c. b64_val c \<noteq> None) (take 86 s) \<and> drop 86 s = ''==''"

definition bits_of :: "nat \<Rightarrow> nat \<Rightarrow> bool list" where
  "bits_of w k = map (\<lambda>i. odd (k div 2 ^ (w - 1 - i))) [0..<w]"

definition byte_of :: "bool list \<Rightarrow> nat" where
  "byte_of bs = foldl (\<lambda>a b. 2 * a + (if b then 1 else 0)) 0 bs"

definition atob64 :: "string \<Rightarrow> nat list" where
  "atob64 s =
     (let bits = concat (map (\<lambda>c. bits_of 6 (case b64_val c of None \<Rightarrow> 0 | Some v \<Rightarrow> v)) (take 86 s))
      in map (\<lambda>i. byte_of (take 8 (drop (8 * i) bits))) [0..<64])"

definition signatureBytes :: "jval option \<Rightarrow> nat list option" where
  "signatureBytes raw =
     (case raw of Some (JString s) \<Rightarrow> if SIG_RE s then Some (atob64 s) else None | _ \<Rightarrow> None)"

definition parseWallet :: "(string \<Rightarrow> bool) \<Rightarrow> jval option \<Rightarrow> string option" where
  "parseWallet isBase58Pubkey raw =
     (case raw of
        Some (JString s) \<Rightarrow>
          let t = js_trim s in if t = '''' \<or> \<not> isBase58Pubkey t then None else Some t
      | _ \<Rightarrow> None)"

definition RESERVED_MOCK_X_IDS :: "string list" where
  "RESERVED_MOCK_X_IDS = [''9990000000000001'', ''9990000000000002'', ''9990000000000003'',
     ''9990000000000004'', ''9990000000000005'', ''9990000000000006'']"

definition RESERVED_HANDLES :: "string list" where
  "RESERVED_HANDLES = [''bullsvsunicorns'', ''bullsvunicorns'', ''admin'', ''administrator'', ''help'',
     ''helpdesk'', ''moderator'', ''official'', ''security'', ''staff'', ''support'', ''team'']"

definition isReservedXId :: "string \<Rightarrow> bool" where
  "isReservedXId x \<longleftrightarrow> x \<in> set RESERVED_MOCK_X_IDS"

definition isReservedHandle :: "string \<Rightarrow> bool" where
  "isReservedHandle h \<longleftrightarrow> lower (js_trim h) \<in> set RESERVED_HANDLES"

subsection \<open>The challenge\<close>

definition CHALLENGE_TTL_SECONDS :: int where "CHALLENGE_TTL_SECONDS = 300"
definition NONCE_BYTES :: nat where "NONCE_BYTES = 32"
definition DEFAULT_ORIGIN :: string where "DEFAULT_ORIGIN = ''bullsvsunicorns.fun''"

definition host_char :: "char \<Rightarrow> bool" where
  "host_char c \<longleftrightarrow> is_dec c \<or> is_upper c \<or> is_lower c \<or> c = CHR ''.'' \<or> c = CHR ''-''"

definition originFrom :: "string option \<Rightarrow> string" where
  "originFrom host =
     (case host of
        None \<Rightarrow> DEFAULT_ORIGIN
      | Some h \<Rightarrow>
          let t = js_trim h; name = takeWhile (\<lambda>c. c \<noteq> CHR '':'') t; port = dropWhile (\<lambda>c. c \<noteq> CHR '':'') t
          in if 1 \<le> length name \<and> length name \<le> 80 \<and> list_all host_char name \<and>
                (port = [] \<or> (2 \<le> length port \<and> length port \<le> 6 \<and> list_all is_dec (tl port)))
             then t else DEFAULT_ORIGIN)"

definition hex_digit :: "nat \<Rightarrow> char" where
  "hex_digit k = (if k < 10 then char_of (48 + k) else char_of (87 + k))"

text \<open>\<open>newNonce\<close>: two hexadecimal digits per byte the generator filled in.\<close>

definition newNonce :: "nat list \<Rightarrow> string" where
  "newNonce bytes = concat (map (\<lambda>b. [hex_digit (b div 16), hex_digit (b mod 16)]) bytes)"

text \<open>The calendar of \<open>Date.toISOString\<close>: year, month and day of a day number.\<close>

definition civil :: "int \<Rightarrow> int \<times> nat \<times> nat" where
  "civil days =
     (let z = days + 719468; era = z div 146097; doe = z mod 146097;
          yoe = (doe - doe div 1460 + doe div 36524 - doe div 146096) div 365;
          doy = doe - (365 * yoe + yoe div 4 - yoe div 100);
          mp = (5 * doy + 2) div 153;
          d = doy - (153 * mp + 2) div 5 + 1;
          m = (if mp < 10 then mp + 3 else mp - 9)
      in (yoe + era * 400 + (if m \<le> 2 then 1 else 0), nat m, nat d))"

definition iso_year :: "int \<Rightarrow> string" where
  "iso_year y =
     (if 0 \<le> y \<and> y \<le> 9999 then pad_left 4 (dec_digits (nat y))
      else (if y < 0 then CHR ''-'' else CHR ''+'') # pad_left 6 (dec_digits (nat \<bar>y\<bar>)))"

definition isoSecond :: "int \<Rightarrow> string" where
  "isoSecond t =
     (let (y, m, d) = civil (t div 86400); s = nat (t mod 86400);
          two = (\<lambda>k. pad_left 2 (dec_digits k))
      in iso_year y @ ''-'' @ two m @ ''-'' @ two d @ ''T'' @
         two (s div 3600) @ '':'' @ two (s div 60 mod 60) @ '':'' @ two (s mod 60) @ ''Z'')"

definition nl :: string where "nl = [CHR 0x0A]"

text \<open>The message a player signs; the identity is there exactly for a link.\<close>

definition challengeMessage :: "string \<Rightarrow> string \<Rightarrow> x_identity option \<Rightarrow> string \<Rightarrow> int \<Rightarrow> int \<Rightarrow> string" where
  "challengeMessage origin w who n issuedAt expiresAt =
     (case who of
        Some _ \<Rightarrow> origin @ '' wants to link your X account.''
      | None \<Rightarrow> origin @ '' wants to unlink your X account.'') @ nl @ nl @
     ''Wallet:  '' @ w @ nl @
     (case who of Some i \<Rightarrow> ''X:       @'' @ handle i @ ''  (id '' @ xId i @ '')'' @ nl | None \<Rightarrow> '''') @
     ''Nonce:   '' @ n @ nl @
     ''Issued:  '' @ isoSecond issuedAt @ nl @
     ''Expires: '' @ isoSecond expiresAt @ nl @ nl @
     (case who of
        Some _ \<Rightarrow>
          ''Signing this proves you control this wallet. It is not a'' @ nl @
          ''transaction, it moves no funds, and it costs nothing.'' @ nl @ nl @
          ''Anyone will then be able to see that this wallet belongs to'' @ nl @
          ''your X account, including its entire on-chain history.''
      | None \<Rightarrow>
          ''Signing this removes your X account from this wallet. It is'' @ nl @
          ''not a transaction, it moves no funds, and it costs nothing.'' @ nl @ nl @
          ''It cannot undo what anyone has already seen or copied.'')"

text \<open>The clock face at the epoch, checked by evaluation.\<close>

lemma civil_epoch: "civil 0 = (1970, 1, 1)"
  by code_simp

lemma digit_examples:
  "dec_digits 1970 = ''1970''" "dec_digits 0 = ''0''" "dec_digits (Suc 0) = ''1''" "dec_digits 5 = ''5''"
  by code_simp+

lemma pad_examples:
  "pad_left 2 ''1'' = ''01''" "pad_left 4 ''1970'' = ''1970''" "pad_left 2 ''0'' = ''00''"
  "pad_left 2 ''5'' = ''05''"
  by (simp_all add: pad_left_def)

lemma isoSecond_epoch: "isoSecond 0 = ''1970-01-01T00:00:00Z''" "isoSecond 300 = ''1970-01-01T00:05:00Z''"
  by (simp_all add: isoSecond_def Let_def civil_epoch digit_examples pad_examples iso_year_def)

subsection \<open>The rate limit\<close>

definition WINDOW_SECONDS :: int where "WINDOW_SECONDS = 600"
definition LIMIT_PER_WALLET :: nat where "LIMIT_PER_WALLET = 20"
definition LIMIT_PER_NETWORK :: nat where "LIMIT_PER_NETWORK = 60"

text \<open>\<open>nowSec % WINDOW_SECONDS\<close> takes the sign of the dividend.\<close>

definition windowStart :: "int \<Rightarrow> int" where
  "windowStart nowSec = WINDOW_SECONDS * bigint_div nowSec WINDOW_SECONDS"

datatype bucket_kind = WalletBucket | NetworkBucket

definition bucketKey :: "(string \<Rightarrow> string) \<Rightarrow> bucket_kind \<Rightarrow> string \<Rightarrow> string" where
  "bucketKey hmac kind subject =
     hmac ((case kind of WalletBucket \<Rightarrow> ''wallet'' | NetworkBucket \<Rightarrow> ''network'') @ '':'' @ subject)"

datatype rate_verdict = RateOk | RateLimited int

definition enforceRateLimit ::
    "(string list \<Rightarrow> int \<Rightarrow> 'r \<Rightarrow> unit + nat list \<times> 'r) \<Rightarrow> (string \<Rightarrow> string) \<Rightarrow> string \<Rightarrow> string \<Rightarrow> int \<Rightarrow> 'r
      \<Rightarrow> (unit + rate_verdict) \<times> 'r" where
  "enforceRateLimit hit_op hmac w network nowSec r =
     (let start = windowStart nowSec;
          walletBucket = bucketKey hmac WalletBucket (network @ ''|'' @ w);
          networkBucket = bucketKey hmac NetworkBucket network
      in case hit_op [walletBucket, networkBucket] start r of
           Inl e \<Rightarrow> (Inl (), r)
         | Inr (counts, r') \<Rightarrow>
             (case counts of
                [walletHits, networkHits] \<Rightarrow>
                  if walletHits > LIMIT_PER_WALLET \<or> networkHits > LIMIT_PER_NETWORK
                  then (Inr (RateLimited (max 1 (start + WINDOW_SECONDS - nowSec))), r')
                  else (Inr RateOk, r')
              | _ \<Rightarrow> (Inl (), r')))"

subsection \<open>The handlers\<close>

datatype privy_verdict = PrivyOk x_identity | PrivyRejected string

record ceremony_env =
  privyVerify :: "string \<Rightarrow> int \<Rightarrow> privy_verdict"
  isBase58Pubkey :: "string \<Rightarrow> bool"
  ed25519_verify :: "nat list \<Rightarrow> string \<Rightarrow> string \<Rightarrow> bool"
  bucketHmac :: "string \<Rightarrow> string"

record house_list =
  house_wallets :: "string list"
  house_unknown :: bool

record ('c, 'r, 'l) deps =
  d_put :: "challenge \<Rightarrow> 'c \<Rightarrow> unit + 'c"
  d_consume :: "string \<Rightarrow> int \<Rightarrow> 'c \<Rightarrow> challenge option \<times> 'c"
  d_hit :: "string list \<Rightarrow> int \<Rightarrow> 'r \<Rightarrow> unit + nat list \<times> 'r"
  d_link :: "string \<Rightarrow> x_identity \<Rightarrow> int \<Rightarrow> 'l \<Rightarrow> unit + link_outcome \<times> 'l"
  d_unlink :: "string \<Rightarrow> 'l \<Rightarrow> string option \<times> 'l"

record ('c, 'r, 'l) stores =
  challenges :: 'c
  rates :: 'r
  links :: 'l

definition refuseProof :: "string \<Rightarrow> response" where
  "refuseProof reason =
     (if reason = ''keys-unavailable'' then unavailable
      else if reason = ''no-x-account'' then Refused 401 ''no-x-account''
      else if reason = ''stale'' then Refused 401 ''stale-proof''
      else Refused 401 ''bad-proof'')"

text \<open>The identity a challenge is about: proven and not reserved for a link, none for an unlink.\<close>

definition challenge_identity :: "ceremony_env \<Rightarrow> string \<Rightarrow> jval option \<Rightarrow> int \<Rightarrow> response + x_identity option" where
  "challenge_identity e purpose proof_field nowSec =
     (if purpose = ''link'' then
        (case proof_field of
           Some (JString tok) \<Rightarrow>
             if tok = '''' then Inl malformed
             else
               (case privyVerify e tok nowSec of
                  PrivyRejected reason \<Rightarrow> Inl (refuseProof reason)
                | PrivyOk i \<Rightarrow>
                    if isReservedXId (xId i) \<or> isReservedHandle (handle i) then Inl (Refused 403 ''refused'')
                    else Inr (Some i))
         | _ \<Rightarrow> Inl malformed)
      else if proof_field \<noteq> None then Inl malformed
      else Inr None)"

definition make_challenge :: "string option \<Rightarrow> string \<Rightarrow> x_identity option \<Rightarrow> nat list \<Rightarrow> int \<Rightarrow> challenge" where
  "make_challenge host w who bytes nowSec =
     (let n = newNonce bytes; until = nowSec + CHALLENGE_TTL_SECONDS;
          b = \<lparr>nonce = n, ch_wallet = w,
               message = challengeMessage (originFrom host) w who n nowSec until,
               issuedAtSec = nowSec, expiresAtSec = until\<rparr>
      in case who of None \<Rightarrow> UnlinkChallenge b | Some i \<Rightarrow> LinkChallenge b i)"

definition purpose_of :: "jval option \<Rightarrow> string option" where
  "purpose_of v =
     (case v of Some (JString s) \<Rightarrow> if s = ''link'' \<or> s = ''unlink'' then Some s else None | _ \<Rightarrow> None)"

text \<open>A throw becomes \<open>unavailable\<close> in \<open>guarded\<close>, with what was written before it kept.\<close>

definition issue :: "ceremony_env \<Rightarrow> ('c, 'r, 'l) deps \<Rightarrow> http_request \<Rightarrow> string \<Rightarrow> string \<Rightarrow> jval option \<Rightarrow> int
    \<Rightarrow> nat list \<Rightarrow> ('c, 'r, 'l) stores \<Rightarrow> response \<times> ('c, 'r, 'l) stores" where
  "issue e d q w purpose proof_field nowSec bytes s =
     (case challenge_identity e purpose proof_field nowSec of
        Inl resp \<Rightarrow> (resp, s)
      | Inr who \<Rightarrow>
          let c = make_challenge (rq_host q) w who bytes nowSec in
          case d_put d c (challenges s) of
            Inl _ \<Rightarrow> (unavailable, s)
          | Inr c' \<Rightarrow> (Issued (message (base c)) (nonce (base c)) (expiresAtSec (base c)), s\<lparr>challenges := c'\<rparr>))"

definition handleChallenge :: "ceremony_env \<Rightarrow> ('c, 'r, 'l) deps \<Rightarrow> http_request \<Rightarrow> int \<Rightarrow> nat list
    \<Rightarrow> ('c, 'r, 'l) stores \<Rightarrow> response \<times> ('c, 'r, 'l) stores" where
  "handleChallenge e d q nowSec bytes s =
     (if rq_method q \<noteq> ''POST'' then (MethodNotAllowed, s)
      else
        case readJsonBody q of
          Inl resp \<Rightarrow> (resp, s)
        | Inr f \<Rightarrow>
          (case parseWallet (isBase58Pubkey e) (f ''wallet'') of
             None \<Rightarrow> (malformed, s)
           | Some w \<Rightarrow>
             (case purpose_of (f ''purpose'') of
                None \<Rightarrow> (malformed, s)
              | Some purpose \<Rightarrow>
                  let (v, r') = enforceRateLimit (d_hit d) (bucketHmac e) w (rq_network q) nowSec (rates s);
                      s1 = s\<lparr>rates := r'\<rparr>
                  in case v of
                       Inl _ \<Rightarrow> (unavailable, s1)
                     | Inr (RateLimited k) \<Rightarrow> (Limited k, s1)
                     | Inr RateOk \<Rightarrow> issue e d q w purpose (f ''proof'') nowSec bytes s1)))"

record redemption =
  rd_wallet :: string
  rd_nonce :: string
  rd_signature :: "nat list"

definition parseRedemption :: "ceremony_env \<Rightarrow> (string \<rightharpoonup> jval) \<Rightarrow> redemption option" where
  "parseRedemption e f =
     (case parseWallet (isBase58Pubkey e) (f ''wallet'') of
        None \<Rightarrow> None
      | Some w \<Rightarrow>
        (case f ''nonce'' of
           Some (JString n) \<Rightarrow>
             if \<not> NONCE_RE n then None
             else map_option (\<lambda>sig. \<lparr>rd_wallet = w, rd_nonce = n, rd_signature = sig\<rparr>)
                    (signatureBytes (f ''signature''))
         | _ \<Rightarrow> None))"

definition signatureVerifies :: "ceremony_env \<Rightarrow> challenge \<Rightarrow> nat list \<Rightarrow> bool" where
  "signatureVerifies e c sig \<longleftrightarrow>
     isBase58Pubkey e (ch_wallet (base c)) \<and> ed25519_verify e sig (message (base c)) (ch_wallet (base c))"

text \<open>What happens with a challenge that was redeemed.\<close>

definition settle_redemption :: "ceremony_env \<Rightarrow> ('c, 'r, 'l) deps \<Rightarrow> bool \<Rightarrow> redemption \<Rightarrow> challenge \<Rightarrow> int
    \<Rightarrow> house_list \<Rightarrow> 'l \<Rightarrow> response \<times> 'l" where
  "settle_redemption e d wanted_link rd c nowSec house l =
     (if is_link c \<noteq> wanted_link then (malformed, l)
      else if ch_wallet (base c) \<noteq> rd_wallet rd then (malformed, l)
      else if \<not> signatureVerifies e c (rd_signature rd) then (Refused 401 ''bad-signature'', l)
      else if house_unknown house then (unavailable, l)
      else
        case c of
          UnlinkChallenge b \<Rightarrow> (let (gone, l') = d_unlink d (ch_wallet b) l in (Unlinked (gone \<noteq> None), l'))
        | LinkChallenge b i \<Rightarrow>
            if ch_wallet b \<in> set (house_wallets house) then (unavailable, l)
            else if isReservedXId (xId i) \<or> isReservedHandle (handle i) then (Refused 403 ''refused'', l)
            else
              case d_link d (ch_wallet b) i nowSec l of
                Inl _ \<Rightarrow> (unavailable, l)
              | Inr (WalletTaken, l') \<Rightarrow> (Refused 409 ''wallet-taken'', l')
              | Inr (Linked, l') \<Rightarrow> (LinkedOk, l'))"

definition redeem :: "ceremony_env \<Rightarrow> ('c, 'r, 'l) deps \<Rightarrow> bool \<Rightarrow> redemption \<Rightarrow> int \<Rightarrow> house_list
    \<Rightarrow> ('c, 'r, 'l) stores \<Rightarrow> response \<times> ('c, 'r, 'l) stores" where
  "redeem e d wanted_link rd nowSec house s =
     (case d_consume d (rd_nonce rd) nowSec (challenges s) of
        (None, c') \<Rightarrow> (Refused 400 ''expired'', s\<lparr>challenges := c'\<rparr>)
      | (Some c, c') \<Rightarrow>
          let (resp, l') = settle_redemption e d wanted_link rd c nowSec house (links s)
          in (resp, s\<lparr>challenges := c', links := l'\<rparr>))"

definition handleLinkWrite :: "ceremony_env \<Rightarrow> ('c, 'r, 'l) deps \<Rightarrow> http_request \<Rightarrow> int \<Rightarrow> house_list
    \<Rightarrow> ('c, 'r, 'l) stores \<Rightarrow> response \<times> ('c, 'r, 'l) stores" where
  "handleLinkWrite e d q nowSec house s =
     (if rq_method q \<noteq> ''POST'' \<and> rq_method q \<noteq> ''DELETE'' then (MethodNotAllowed, s)
      else
        case readJsonBody q of
          Inl resp \<Rightarrow> (resp, s)
        | Inr f \<Rightarrow>
          (case parseRedemption e f of
             None \<Rightarrow> (malformed, s)
           | Some rd \<Rightarrow>
               let (v, r') = enforceRateLimit (d_hit d) (bucketHmac e) (rd_wallet rd) (rq_network q) nowSec (rates s);
                   s1 = s\<lparr>rates := r'\<rparr>
               in case v of
                    Inl _ \<Rightarrow> (unavailable, s1)
                  | Inr (RateLimited k) \<Rightarrow> (Limited k, s1)
                  | Inr RateOk \<Rightarrow> redeem e d (rq_method q = ''POST'') rd nowSec house s1))"

subsection \<open>Runs of the service\<close>

datatype ceremony_op = AskChallenge http_request int "nat list" | WriteLink http_request int house_list

fun ceremony_step :: "ceremony_env \<Rightarrow> ('c, 'r, 'l) deps \<Rightarrow> ceremony_op \<Rightarrow> ('c, 'r, 'l) stores
    \<Rightarrow> response \<times> ('c, 'r, 'l) stores" where
  "ceremony_step e d (AskChallenge q t bytes) s = handleChallenge e d q t bytes s"
| "ceremony_step e d (WriteLink q t house) s = handleLinkWrite e d q t house s"

fun ceremony_run :: "ceremony_env \<Rightarrow> ('c, 'r, 'l) deps \<Rightarrow> ceremony_op list \<Rightarrow> ('c, 'r, 'l) stores
    \<Rightarrow> (ceremony_op \<times> response) list \<times> ('c, 'r, 'l) stores" where
  "ceremony_run e d [] s = ([], s)"
| "ceremony_run e d (x # xs) s =
     (let (r, s') = ceremony_step e d x s; (tr, s'') = ceremony_run e d xs s' in ((x, r) # tr, s''))"

text \<open>The nonce a request redeems, and whether a response says that one was issued or put to use.\<close>

definition redeems :: "ceremony_env \<Rightarrow> string \<Rightarrow> ceremony_op \<times> response \<Rightarrow> bool" where
  "redeems e n p =
     (case p of
        (WriteLink q t house, LinkedOk) \<Rightarrow>
          (\<exists>f rd. readJsonBody q = Inr f \<and> parseRedemption e f = Some rd \<and> rd_nonce rd = n)
      | (WriteLink q t house, Unlinked b) \<Rightarrow>
          (\<exists>f rd. readJsonBody q = Inr f \<and> parseRedemption e f = Some rd \<and> rd_nonce rd = n)
      | _ \<Rightarrow> False)"

definition issues :: "string \<Rightarrow> ceremony_op \<times> response \<Rightarrow> bool" where
  "issues n p = (case snd p of Issued m n' t \<Rightarrow> n' = n | _ \<Rightarrow> False)"

definition how_often :: "('a \<Rightarrow> bool) \<Rightarrow> 'a list \<Rightarrow> nat" where "how_often P xs = length (filter P xs)"

lemma how_often_simps [simp]: "how_often P [] = 0" "how_often P (x # xs) = (if P x then 1 else 0) + how_often P xs"
  by (simp_all add: how_often_def)

text \<open>What the body of a request for a link's challenge and of a write carries.\<close>

definition asks_link_for :: "ceremony_env \<Rightarrow> http_request \<Rightarrow> string \<Rightarrow> string \<Rightarrow> bool" where
  "asks_link_for e q w tok \<longleftrightarrow>
     (case readJsonBody q of
        Inl _ \<Rightarrow> False
      | Inr f \<Rightarrow> parseWallet (isBase58Pubkey e) (f ''wallet'') = Some w \<and>
                 f ''purpose'' = Some (JString ''link'') \<and> f ''proof'' = Some (JString tok))"

definition presents :: "ceremony_env \<Rightarrow> http_request \<Rightarrow> redemption \<Rightarrow> bool" where
  "presents e q rd \<longleftrightarrow>
     rq_method q = ''POST'' \<and> (case readJsonBody q of Inl _ \<Rightarrow> False | Inr f \<Rightarrow> parseRedemption e f = Some rd)"

text \<open>The evidence behind a row: a challenge asked for with an identity token, in that request, that the
  verifier accepted; and a write of the row's wallet that names the challenge's nonce and carries a
  signature over its message, before it expired.\<close>

definition asked :: "ceremony_env \<Rightarrow> ceremony_op set \<Rightarrow> challenge \<Rightarrow> bool" where
  "asked e A c \<longleftrightarrow> (\<exists>q t bytes tok i w.
     AskChallenge q t bytes \<in> A \<and> asks_link_for e q w tok \<and> c = make_challenge (rq_host q) w (Some i) bytes t \<and>
     privyVerify e tok t = PrivyOk i \<and> \<not> isReservedXId (xId i) \<and> \<not> isReservedHandle (handle i))"

definition signed :: "ceremony_env \<Rightarrow> ceremony_op set \<Rightarrow> challenge \<Rightarrow> bool" where
  "signed e A c \<longleftrightarrow> (\<exists>q t house rd.
     WriteLink q t house \<in> A \<and> presents e q rd \<and> rd_wallet rd = ch_wallet (base c) \<and>
     rd_nonce rd = nonce (base c) \<and> signatureVerifies e c (rd_signature rd) \<and> t < expiresAtSec (base c) \<and>
     \<not> house_unknown house \<and> ch_wallet (base c) \<notin> set (house_wallets house))"

definition proven :: "ceremony_env \<Rightarrow> ceremony_op set \<Rightarrow> string \<times> string \<Rightarrow> bool" where
  "proven e A p \<longleftrightarrow> (\<exists>b i. xId i = fst p \<and> ch_wallet b = snd p \<and>
     asked e A (LinkChallenge b i) \<and> signed e A (LinkChallenge b i))"

lemma base_make_challenge:
  "base (make_challenge h w who bytes t) =
     \<lparr>nonce = newNonce bytes, ch_wallet = w,
      message = challengeMessage (originFrom h) w who (newNonce bytes) t (t + CHALLENGE_TTL_SECONDS),
      issuedAtSec = t, expiresAtSec = t + CHALLENGE_TTL_SECONDS\<rparr>"
  by (simp add: make_challenge_def Let_def split: option.splits)

lemma is_link_make_challenge: "is_link (make_challenge h w who bytes t) \<longleftrightarrow> who \<noteq> None"
  by (simp add: make_challenge_def Let_def split: option.splits)

lemma challenge_identity_Some:
  assumes "challenge_identity e purpose pf t = Inr (Some i)"
  shows "purpose = ''link'' \<and> (\<exists>tok. pf = Some (JString tok) \<and> privyVerify e tok t = PrivyOk i \<and>
    \<not> isReservedXId (xId i) \<and> \<not> isReservedHandle (handle i))"
  using assms by (auto simp: challenge_identity_def split: if_splits option.splits jval.splits privy_verdict.splits)

lemma issue_cases:
  assumes "issue e d q w purpose pf t bytes s = (resp, s')"
  obtains (quiet) "s' = s" and "\<And>m n x. resp \<noteq> Issued m n x" and "resp \<noteq> LinkedOk"
  | (put) who c' where "d_put d (make_challenge (rq_host q) w who bytes t) (challenges s) = Inr c'"
      and "s' = s\<lparr>challenges := c'\<rparr>" and "\<exists>m x. resp = Issued m (newNonce bytes) x"
      and "\<And>i. who = Some i \<Longrightarrow> purpose = ''link'' \<and> (\<exists>tok. pf = Some (JString tok) \<and>
             privyVerify e tok t = PrivyOk i \<and> \<not> isReservedXId (xId i) \<and> \<not> isReservedHandle (handle i))"
proof (cases "challenge_identity e purpose pf t")
  case (Inl r)
  have "(\<forall>m n x. r \<noteq> Issued m n x) \<and> r \<noteq> LinkedOk"
    using Inl by (auto simp: challenge_identity_def malformed_def refuseProof_def unavailable_def
        split: if_splits option.splits jval.splits privy_verdict.splits)
  then show thesis using quiet assms Inl by (auto simp: issue_def)
next
  case (Inr who)
  show thesis
  proof (cases "d_put d (make_challenge (rq_host q) w who bytes t) (challenges s)")
    case (Inl u)
    then show thesis using quiet assms Inr by (auto simp: issue_def Let_def unavailable_def)
  next
    case c': (Inr c')
    show thesis
    proof (rule put [OF c'])
      show "s' = s\<lparr>challenges := c'\<rparr>" "\<exists>m x. resp = Issued m (newNonce bytes) x"
        using assms Inr c' by (auto simp: issue_def Let_def base_make_challenge)
      show "purpose = ''link'' \<and> (\<exists>tok. pf = Some (JString tok) \<and> privyVerify e tok t = PrivyOk i \<and>
          \<not> isReservedXId (xId i) \<and> \<not> isReservedHandle (handle i))" if "who = Some i" for i
        using challenge_identity_Some Inr that by blast
    qed
  qed
qed

lemma readJsonBody_refuses:
  assumes "readJsonBody q = Inl r"
  shows "\<exists>k c. r = Refused k c"
  using assms by (auto simp: readJsonBody_def malformed_def split: if_splits option.splits json_text.splits)

lemma handleChallenge_cases:
  assumes "handleChallenge e d q t bytes s = (resp, s')"
  obtains (quiet) "challenges s' = challenges s" and "links s' = links s"
      and "\<And>m n x. resp \<noteq> Issued m n x" and "resp \<noteq> LinkedOk"
  | (put) w who where "d_put d (make_challenge (rq_host q) w who bytes t) (challenges s) = Inr (challenges s')"
      and "links s' = links s" and "\<exists>m x. resp = Issued m (newNonce bytes) x"
      and "\<And>i. who = Some i \<Longrightarrow> \<exists>tok. asks_link_for e q w tok \<and> privyVerify e tok t = PrivyOk i \<and>
             \<not> isReservedXId (xId i) \<and> \<not> isReservedHandle (handle i)"
proof -
  consider (early) "s' = s" "(\<forall>m n x. resp \<noteq> Issued m n x) \<and> resp \<noteq> LinkedOk"
    | (rated) r' where "s' = s\<lparr>rates := r'\<rparr>" "(\<forall>m n x. resp \<noteq> Issued m n x) \<and> resp \<noteq> LinkedOk"
    | (issued) f w purpose r' where "issue e d q w purpose (f ''proof'') t bytes (s\<lparr>rates := r'\<rparr>) = (resp, s')"
        "readJsonBody q = Inr f" "parseWallet (isBase58Pubkey e) (f ''wallet'') = Some w"
        "purpose_of (f ''purpose'') = Some purpose"
    using assms readJsonBody_refuses [of q] unfolding handleChallenge_def malformed_def unavailable_def
    by (fastforce simp: Let_def split: if_splits sum.splits option.splits prod.splits rate_verdict.splits)
  then show thesis
  proof cases
    case early
    then show thesis using quiet by simp
  next
    case rated
    then show thesis using quiet by simp
  next
    case issued
    have body: "asks_link_for e q w tok" if "purpose = ''link''" "f ''proof'' = Some (JString tok)" for tok
      using issued(2-4) that
      by (auto simp: asks_link_for_def purpose_of_def split: option.splits jval.splits if_splits)
    from issued(1) show thesis
    proof (cases rule: issue_cases)
      case quiet': quiet
      then show thesis using quiet by simp
    next
      case put': (put who c')
      have "\<exists>tok. asks_link_for e q w tok \<and> privyVerify e tok t = PrivyOk i \<and> \<not> isReservedXId (xId i) \<and>
          \<not> isReservedHandle (handle i)" if "who = Some i" for i
        using put'(4) [OF that] body by blast
      then show thesis using put [of w who] put' by simp
    qed
  qed
qed

lemma settle_cases:
  assumes "settle_redemption e d wanted rd c t house l = (resp, l')"
  obtains (quiet) "l' = l" and "resp \<noteq> LinkedOk" and "\<And>m n x. resp \<noteq> Issued m n x"
  | (unlinked) gone where "d_unlink d (ch_wallet (base c)) l = (gone, l')" and "resp = Unlinked (gone \<noteq> None)"
  | (tried) b i r where "c = LinkChallenge b i" and "wanted" and "ch_wallet b = rd_wallet rd" and "d_link d (ch_wallet b) i t l = Inr (r, l')"
      and "signatureVerifies e c (rd_signature rd)" and "\<not> house_unknown house"
      and "ch_wallet b \<notin> set (house_wallets house)"
      and "resp = (case r of Linked \<Rightarrow> LinkedOk | WalletTaken \<Rightarrow> Refused 409 ''wallet-taken'')"
proof (cases "is_link c \<noteq> wanted \<or> ch_wallet (base c) \<noteq> rd_wallet rd \<or>
    \<not> signatureVerifies e c (rd_signature rd) \<or> house_unknown house")
  case True
  then show thesis using assms quiet
    by (auto simp: settle_redemption_def malformed_def unavailable_def split: if_splits)
next
  case ok: False
  show thesis
  proof (cases c)
    case (UnlinkChallenge b)
    then show thesis using assms ok unlinked by (auto simp: settle_redemption_def split: prod.splits)
  next
    case (LinkChallenge b i)
    then have eq: "(resp, l') =
      (if ch_wallet b \<in> set (house_wallets house) then (unavailable, l)
       else if isReservedXId (xId i) \<or> isReservedHandle (handle i) then (Refused 403 ''refused'', l)
       else case d_link d (ch_wallet b) i t l of
           Inl _ \<Rightarrow> (unavailable, l)
         | Inr (WalletTaken, l') \<Rightarrow> (Refused 409 ''wallet-taken'', l')
         | Inr (Linked, l') \<Rightarrow> (LinkedOk, l'))"
      using assms ok by (auto simp: settle_redemption_def)
    show thesis
    proof (cases "ch_wallet b \<in> set (house_wallets house) \<or> isReservedXId (xId i) \<or> isReservedHandle (handle i)")
      case True
      then show thesis using eq quiet by (auto simp: unavailable_def split: if_splits)
    next
      case False
      show thesis
      proof (cases "d_link d (ch_wallet b) i t l")
        case (Inl u)
        then show thesis using False eq quiet by (auto simp: unavailable_def)
      next
        case (Inr p)
        obtain r l2 where "p = (r, l2)" by fastforce
        moreover have "wanted" "ch_wallet b = rd_wallet rd" using ok LinkChallenge by simp_all
        ultimately show thesis using False eq tried [OF LinkChallenge, of r] Inr ok
          by (cases r) auto
      qed
    qed
  qed
qed

lemma handleLinkWrite_cases:
  assumes "handleLinkWrite e d q t house s = (resp, s')"
  obtains (quiet) "challenges s' = challenges s" and "links s' = links s"
      and "\<And>m n x. resp \<noteq> Issued m n x" and "resp \<noteq> LinkedOk" and "\<And>b. resp \<noteq> Unlinked b"
  | (dead) n where "d_consume d n t (challenges s) = (None, challenges s')" and "links s' = links s"
      and "\<And>m n x. resp \<noteq> Issued m n x" and "resp \<noteq> LinkedOk" and "\<And>b. resp \<noteq> Unlinked b"
  | (redeemed) f rd c where "readJsonBody q = Inr f" and "parseRedemption e f = Some rd"
      and "d_consume d (rd_nonce rd) t (challenges s) = (Some c, challenges s')"
      and "settle_redemption e d (rq_method q = ''POST'') rd c t house (links s) = (resp, links s')"
proof -
  consider (early) r' where "s' = s\<lparr>rates := r'\<rparr>" "(\<exists>k c. resp = Refused k c) \<or> resp = MethodNotAllowed \<or> (\<exists>z. resp = Limited z)"
    | (go) f rd r' where "readJsonBody q = Inr f" "parseRedemption e f = Some rd"
        "redeem e d (rq_method q = ''POST'') rd t house (s\<lparr>rates := r'\<rparr>) = (resp, s')"
  proof (cases "readJsonBody q")
    case (Inl r)
    then show thesis using assms that(1) [of "rates s"] readJsonBody_refuses [OF Inl]
      by (auto simp: handleLinkWrite_def split: if_splits)
  next
    case (Inr f)
    show thesis
    proof (cases "rq_method q \<noteq> ''POST'' \<and> rq_method q \<noteq> ''DELETE'' \<or> parseRedemption e f = None")
      case True
      then show thesis using assms Inr that(1) [of "rates s"]
        by (auto simp: handleLinkWrite_def malformed_def split: if_splits)
    next
      case False
      then obtain rd where rd: "parseRedemption e f = Some rd" by auto
      obtain v r' where v: "enforceRateLimit (d_hit d) (bucketHmac e) (rd_wallet rd) (rq_network q) t (rates s) = (v, r')"
        by fastforce
      show thesis using assms Inr rd v False that(1) [of r'] that(2) [OF Inr rd, of r']
        by (auto simp: handleLinkWrite_def Let_def unavailable_def split: if_splits sum.splits rate_verdict.splits)
    qed
  qed
  then show thesis
  proof cases
    case early
    then show thesis using quiet by auto
  next
    case go
    obtain r c' where c': "d_consume d (rd_nonce rd) t (challenges s) = (r, c')" by fastforce
    show thesis
    proof (cases r)
      case None
      then show thesis using go(3) c' dead [of "rd_nonce rd"] by (auto simp: redeem_def)
    next
      case (Some c)
      obtain r2 l' where "settle_redemption e d (rq_method q = ''POST'') rd c t house (links s) = (r2, l')" by fastforce
      then show thesis using go c' Some redeemed [OF go(1,2), of c] by (auto simp: redeem_def)
    qed
  qed
qed

subsection \<open>What holds for any storage that keeps its contract\<close>

definition ceremony_inv ::
    "ceremony_env \<Rightarrow> ceremony_op set \<Rightarrow> ('c \<Rightarrow> challenge multiset) \<Rightarrow> ('c \<Rightarrow> bool) \<Rightarrow>
     ('l \<Rightarrow> (string \<times> string) set) \<Rightarrow> ('l \<Rightarrow> bool) \<Rightarrow> ('c, 'r, 'l) stores \<Rightarrow> bool" where
  "ceremony_inv e A held cinv pairs linv s \<longleftrightarrow>
     cinv (challenges s) \<and> linv (links s) \<and>
     (\<forall>c\<in>#held (challenges s). is_link c \<longrightarrow> asked e A c) \<and> (\<forall>p\<in>pairs (links s). proven e A p)"

definition held_as :: "string \<Rightarrow> challenge multiset \<Rightarrow> nat" where
  "held_as n M = size (filter_mset (\<lambda>c. nonce (base c) = n) M)"

lemma held_as_mono: "M \<subseteq># N \<Longrightarrow> held_as n M \<le> held_as n N"
  by (simp add: held_as_def size_mset_mono multiset_filter_mono)

lemma held_as_add [simp]: "held_as n (add_mset c M) = (if nonce (base c) = n then 1 else 0) + held_as n M"
  by (simp add: held_as_def)

text \<open>The verdicts of a sequence of calls; a throw is no verdict and lets nothing through.\<close>

record rate_call =
  rc_wallet :: string
  rc_network :: string
  rc_now :: int

fun rate_run :: "(string list \<Rightarrow> int \<Rightarrow> 'r \<Rightarrow> unit + nat list \<times> 'r) \<Rightarrow> (string \<Rightarrow> string) \<Rightarrow> rate_call list \<Rightarrow> 'r
    \<Rightarrow> (rate_call \<times> (unit + rate_verdict)) list" where
  "rate_run hit_op hmac [] r = []"
| "rate_run hit_op hmac (c # cs) r =
     (let (v, r') = enforceRateLimit hit_op hmac (rc_wallet c) (rc_network c) (rc_now c) r
      in (c, v) # rate_run hit_op hmac cs r')"

text \<open>A request of a network let through in the window that starts at \<open>t0\<close>.\<close>

definition passes_network :: "string \<Rightarrow> int \<Rightarrow> rate_call \<times> (unit + rate_verdict) \<Rightarrow> bool" where
  "passes_network net t0 p \<longleftrightarrow> rc_network (fst p) = net \<and> windowStart (rc_now (fst p)) = t0 \<and> snd p = Inr RateOk"

definition passes_wallet :: "string \<Rightarrow> string \<Rightarrow> int \<Rightarrow> rate_call \<times> (unit + rate_verdict) \<Rightarrow> bool" where
  "passes_wallet net w t0 p \<longleftrightarrow> passes_network net t0 p \<and> rc_wallet (fst p) = w"

text \<open>Time does not go back: the windows of the calls come in order. \<open>P\<close> picks requests let
  through in the window \<open>t0\<close> that all count against the bucket \<open>k\<close> with the limit \<open>L\<close>.\<close>

definition counts_on :: "(string \<Rightarrow> string) \<Rightarrow> int \<Rightarrow> string \<Rightarrow> nat \<Rightarrow> (rate_call \<times> (unit + rate_verdict) \<Rightarrow> bool) \<Rightarrow> bool" where
  "counts_on hmac t0 k L P \<longleftrightarrow> (\<forall>c v. P (c, v) \<longrightarrow> windowStart (rc_now c) = t0 \<and> v = Inr RateOk \<and>
     (k = bucketKey hmac NetworkBucket (rc_network c) \<and> L = LIMIT_PER_NETWORK \<or>
      k = bucketKey hmac WalletBucket (rc_network c @ ''|'' @ rc_wallet c) \<and> L = LIMIT_PER_WALLET))"

context rate_counter
begin

lemma enforce_ok:
  assumes "enforceRateLimit hit hmac w net now r = (v, r')"
  defines "b \<equiv> bucketKey hmac NetworkBucket net" and "c \<equiv> bucketKey hmac WalletBucket (net @ ''|'' @ w)"
  shows "hits r x (windowStart now) \<le> hits r' x (windowStart now)"
    and "v = Inr RateOk \<Longrightarrow> hits r' b (windowStart now) = hits r b (windowStart now) + 1 \<and>
      hits r' c (windowStart now) = hits r c (windowStart now) + 1 \<and>
      hits r' b (windowStart now) \<le> LIMIT_PER_NETWORK \<and> hits r' c (windowStart now) \<le> LIMIT_PER_WALLET"
proof -
  let ?s = "windowStart now"
  have "hits r x ?s \<le> hits r' x ?s \<and> (v = Inr RateOk \<longrightarrow> hits r' b ?s = hits r b ?s + 1 \<and>
      hits r' c ?s = hits r c ?s + 1 \<and> hits r' b ?s \<le> LIMIT_PER_NETWORK \<and> hits r' c ?s \<le> LIMIT_PER_WALLET)"
  proof (cases "hit [c, b] ?s r")
    case (Inl u)
    then show ?thesis using assms(1) by (auto simp: enforceRateLimit_def b_def c_def Let_def)
  next
    case (Inr p)
    obtain ns r2 where p: "p = (ns, r2)" by fastforce
    with Inr have h: "hit [c, b] ?s r = Inr (ns, r2)" by simp
    have ns: "ns = [hits r c ?s + 1, hits r b ?s + 1]" using hit_counts [OF h] by simp
    have add: "hits r2 y ?s = hits r y ?s + (if y \<in> set [c, b] then 1 else 0)" for y by (rule hit_adds [OF h])
    have "v = (if hits r c ?s + 1 > LIMIT_PER_WALLET \<or> hits r b ?s + 1 > LIMIT_PER_NETWORK
        then Inr (RateLimited (max 1 (?s + WINDOW_SECONDS - now))) else Inr RateOk) \<and> r' = r2"
      using assms(1) h ns by (auto simp: enforceRateLimit_def b_def c_def Let_def split: if_splits)
    then show ?thesis using add [of x] add [of b] add [of c] by (auto split: if_splits)
  qed
  then show "hits r x ?s \<le> hits r' x ?s"
    and "v = Inr RateOk \<Longrightarrow> hits r' b ?s = hits r b ?s + 1 \<and> hits r' c ?s = hits r c ?s + 1 \<and>
      hits r' b ?s \<le> LIMIT_PER_NETWORK \<and> hits r' c ?s \<le> LIMIT_PER_WALLET" by blast+
qed

lemma none_elsewhere:
  assumes "counts_on hmac t0 k L P" and "\<forall>c\<in>set cs. windowStart (rc_now c) \<noteq> t0"
  shows "how_often P (rate_run hit hmac cs r) = 0"
  using assms(2)
proof (induction cs arbitrary: r)
  case (Cons x cs)
  obtain v r' where "enforceRateLimit hit hmac (rc_wallet x) (rc_network x) (rc_now x) r = (v, r')" by fastforce
  then show ?case using Cons assms(1) by (auto simp: counts_on_def)
qed simp

lemma bound_from:
  assumes "counts_on hmac t0 k L P" and "sorted (map (\<lambda>c. windowStart (rc_now c)) cs)"
    and "\<forall>c\<in>set cs. t0 \<le> windowStart (rc_now c)"
  shows "how_often P (rate_run hit hmac cs r) \<le> L - hits r k t0"
  using assms(2,3)
proof (induction cs arbitrary: r)
  case (Cons x cs)
  obtain v r' where v: "enforceRateLimit hit hmac (rc_wallet x) (rc_network x) (rc_now x) r = (v, r')" by fastforce
  show ?case
  proof (cases "windowStart (rc_now x) = t0")
    case True
    note e = enforce_ok [OF v, unfolded True]
    have ih: "how_often P (rate_run hit hmac cs r') \<le> L - hits r' k t0" using Cons by simp
    show ?thesis
    proof (cases "P (x, v)")
      case P: True
      then have "hits r' k t0 = hits r k t0 + 1" "hits r' k t0 \<le> L"
        using assms(1) e(2) unfolding counts_on_def by blast+
      then show ?thesis using ih v P by simp
    next
      case False
      then show ?thesis using ih v e(1) [of k] by simp
    qed
  next
    case False
    then have "\<forall>c\<in>set (x # cs). windowStart (rc_now c) \<noteq> t0" using Cons.prems by fastforce
    then show ?thesis using none_elsewhere [OF assms(1)] by (metis le0)
  qed
qed simp

lemma window_bound:
  assumes "counts_on hmac t0 k L P" and "sorted (map (\<lambda>c. windowStart (rc_now c)) cs)"
  shows "how_often P (rate_run hit hmac cs r) \<le> L"
  using assms(2)
proof (induction cs arbitrary: r)
  case (Cons x cs)
  obtain v r' where v: "enforceRateLimit hit hmac (rc_wallet x) (rc_network x) (rc_now x) r = (v, r')" by fastforce
  show ?case
  proof (cases "t0 \<le> windowStart (rc_now x)")
    case True
    then have "how_often P (rate_run hit hmac (x # cs) r) \<le> L - hits r k t0"
      using Cons.prems by (intro bound_from [OF assms(1)]) auto
    then show ?thesis by simp
  next
    case False
    then have "\<not> P (x, v)" using assms(1) by (auto simp: counts_on_def)
    then show ?thesis using Cons v by simp
  qed
qed simp

end

locale ceremony = challenge_store put consume held cinv + rate_counter hit hits + link_writer link unlink pairs linv
  for put :: "challenge \<Rightarrow> 'c \<Rightarrow> unit + 'c" and consume :: "string \<Rightarrow> int \<Rightarrow> 'c \<Rightarrow> challenge option \<times> 'c"
    and held :: "'c \<Rightarrow> challenge multiset" and cinv :: "'c \<Rightarrow> bool"
    and hit :: "string list \<Rightarrow> int \<Rightarrow> 'r \<Rightarrow> unit + nat list \<times> 'r" and hits :: "'r \<Rightarrow> string \<Rightarrow> int \<Rightarrow> nat"
    and link :: "string \<Rightarrow> x_identity \<Rightarrow> int \<Rightarrow> 'l \<Rightarrow> unit + link_outcome \<times> 'l"
    and unlink :: "string \<Rightarrow> 'l \<Rightarrow> string option \<times> 'l" and pairs :: "'l \<Rightarrow> (string \<times> string) set"
    and linv :: "'l \<Rightarrow> bool" +
  fixes e :: ceremony_env and d :: "('c, 'r, 'l) deps"
  assumes deps: "d = \<lparr>d_put = put, d_consume = consume, d_hit = hit, d_link = link, d_unlink = unlink\<rparr>"
begin

lemma deps_simps: "d_put d = put" "d_consume d = consume" "d_link d = link" "d_unlink d = unlink" "d_hit d = hit"
  by (simp_all add: deps)

lemma step_keeps:
  assumes inv: "ceremony_inv e A held cinv pairs linv s" and "x \<in> A" and st: "ceremony_step e d x s = (r, s')"
  shows "ceremony_inv e A held cinv pairs linv s'"
proof (cases x)
  case (AskChallenge q t bytes)
  from st AskChallenge have "handleChallenge e d q t bytes s = (r, s')" by simp
  then show ?thesis
  proof (cases rule: handleChallenge_cases)
    case quiet
    then show ?thesis using inv by (simp add: ceremony_inv_def)
  next
    case (put w who)
    have "asked e A (make_challenge (rq_host q) w who bytes t)" if "who \<noteq> None"
      using put(4) that assms(2) AskChallenge unfolding asked_def by blast
    moreover have "cinv (challenges s') \<and>
        held (challenges s') \<subseteq># add_mset (make_challenge (rq_host q) w who bytes t) (held (challenges s))"
      using put_held [OF _ put(1) [unfolded deps_simps]] inv by (simp add: ceremony_inv_def)
    ultimately show ?thesis using inv put(2)
      by (auto simp: ceremony_inv_def is_link_make_challenge dest!: mset_subset_eqD)
  qed
next
  case (WriteLink q t house)
  from st WriteLink have "handleLinkWrite e d q t house s = (r, s')" by simp
  then show ?thesis
  proof (cases rule: handleLinkWrite_cases)
    case quiet
    then show ?thesis using inv by (simp add: ceremony_inv_def)
  next
    case (dead n)
    then show ?thesis using inv consume_held [of "challenges s" n t None "challenges s'"]
      by (auto simp: ceremony_inv_def deps_simps dest: mset_subset_eqD)
  next
    case (redeemed f rd c)
    have con: "cinv (challenges s')" "t < expiresAtSec (base c)"
        "add_mset c (held (challenges s')) \<subseteq># held (challenges s)"
      using consume_held [of "challenges s" "rd_nonce rd" t "Some c" "challenges s'"] redeemed(3) inv
      by (auto simp: ceremony_inv_def deps_simps)
    have c: "c \<in># held (challenges s)" using con(3) by (auto simp: insert_subset_eq_iff)
    have "held (challenges s') \<subseteq># add_mset c (held (challenges s'))" by (simp add: subseteq_mset_def)
    then have sub: "held (challenges s') \<subseteq># held (challenges s)" using con(3) by (rule subset_mset.order_trans)
    have keep: "(\<forall>c\<in>#held (challenges s'). is_link c \<longrightarrow> asked e A c)"
      using inv sub by (auto simp: ceremony_inv_def dest: mset_subset_eqD)
    from redeemed(4) show ?thesis
    proof (cases rule: settle_cases)
      case quiet
      then show ?thesis using inv con keep by (simp add: ceremony_inv_def)
    next
      case (unlinked gone)
      then show ?thesis
        using inv con keep unlink_pairs [of "links s" "ch_wallet (base c)" gone "links s'"]
        by (auto simp: ceremony_inv_def deps_simps)
    next
      case (tried b i o')
      have "presents e q rd" using redeemed(1,2) tried(2) by (simp add: presents_def)
      moreover have "rd_nonce rd = nonce (base c)"
        using consume_held [of "challenges s" "rd_nonce rd" t "Some c" "challenges s'"] redeemed(3) inv
        by (simp add: ceremony_inv_def deps_simps)
      ultimately have "signed e A c"
        using tried(1,3,5,6,7) con(2) assms(2) WriteLink unfolding signed_def by force
      moreover have "asked e A c" using inv c tried(1) by (auto simp: ceremony_inv_def)
      ultimately have "proven e A (xId i, ch_wallet b)" using tried(1) unfolding proven_def by force
      then show ?thesis
        using inv con keep link_pairs [of "links s" "ch_wallet b" i t o' "links s'"] tried(4)
        by (auto simp: ceremony_inv_def deps_simps split: if_splits)
    qed
  qed
qed

lemma run_keeps:
  assumes "ceremony_inv e A held cinv pairs linv s" and "set xs \<subseteq> A"
  shows "ceremony_inv e A held cinv pairs linv (snd (ceremony_run e d xs s))"
  using assms
proof (induction xs arbitrary: s)
  case Nil
  then show ?case by simp
next
  case (Cons x xs)
  obtain r s' where st: "ceremony_step e d x s = (r, s')" by fastforce
  have "ceremony_inv e A held cinv pairs linv s'"
    by (rule step_keeps [OF Cons.prems(1) _ st]) (use Cons.prems(2) in simp)
  from Cons.IH [OF this] Cons.prems(2) st show ?case
    by (cases "ceremony_run e d xs s'") (simp add: Let_def)
qed

lemma step_burns:
  assumes "cinv (challenges s)" and st: "ceremony_step e d x s = (r, s')"
  shows "cinv (challenges s')" and
    "held_as n (held (challenges s')) + (if redeems e n (x, r) then 1 else 0)
      \<le> held_as n (held (challenges s)) + (if issues n (x, r) then 1 else 0)"
proof -
  have "cinv (challenges s') \<and>
    held_as n (held (challenges s')) + (if redeems e n (x, r) then 1 else 0)
      \<le> held_as n (held (challenges s)) + (if issues n (x, r) then 1 else 0)"
  proof (cases x)
    case (AskChallenge q t bytes)
    from st AskChallenge have "handleChallenge e d q t bytes s = (r, s')" by simp
    then show ?thesis
    proof (cases rule: handleChallenge_cases)
      case quiet
      then show ?thesis using assms(1) AskChallenge by (simp add: redeems_def)
    next
      case (put w who)
      let ?c = "make_challenge (rq_host q) w who bytes t"
      have h: "cinv (challenges s')" "held (challenges s') \<subseteq># add_mset ?c (held (challenges s))"
        using put_held [OF assms(1) put(1) [unfolded deps_simps]] by auto
      have i: "issues n (x, r) \<longleftrightarrow> nonce (base ?c) = n" using put(3) by (auto simp: issues_def base_make_challenge)
      show ?thesis using h(1) held_as_mono [OF h(2), of n] i AskChallenge by (simp add: redeems_def)
    qed
  next
    case (WriteLink q t house)
    from st WriteLink have "handleLinkWrite e d q t house s = (r, s')" by simp
    then show ?thesis
    proof (cases rule: handleLinkWrite_cases)
      case quiet
      then have "\<not> redeems e n (x, r)" using WriteLink by (auto simp: redeems_def split: response.splits)
      then show ?thesis using assms(1) quiet(1) by simp
    next
      case (dead k)
      then have "\<not> redeems e n (x, r)" using WriteLink by (auto simp: redeems_def split: response.splits)
      moreover have "cinv (challenges s') \<and> held (challenges s') \<subseteq># held (challenges s)"
        using consume_held [of "challenges s" k t None "challenges s'"] dead(1) assms(1) by (simp add: deps_simps)
      ultimately show ?thesis using held_as_mono [of "held (challenges s')" "held (challenges s)" n] by simp
    next
      case (redeemed f rd c)
      have con: "cinv (challenges s')" "nonce (base c) = rd_nonce rd"
          "add_mset c (held (challenges s')) \<subseteq># held (challenges s)"
        using consume_held [of "challenges s" "rd_nonce rd" t "Some c" "challenges s'"] redeemed(3) assms(1)
        by (auto simp: deps_simps)
      have "redeems e n (x, r) \<Longrightarrow> rd_nonce rd = n"
        using redeemed(1,2) WriteLink by (auto simp: redeems_def split: response.splits)
      then show ?thesis using con(1,2) held_as_mono [OF con(3), of n] by auto
    qed
  qed
  then show "cinv (challenges s')"
    "held_as n (held (challenges s')) + (if redeems e n (x, r) then 1 else 0)
      \<le> held_as n (held (challenges s)) + (if issues n (x, r) then 1 else 0)" by blast+
qed

lemma run_burns:
  assumes "cinv (challenges s)" and "ceremony_run e d xs s = (tr, s')"
  shows "how_often (redeems e n) tr + held_as n (held (challenges s')) \<le>
    how_often (issues n) tr + held_as n (held (challenges s))"
  using assms
proof (induction xs arbitrary: s tr)
  case Nil
  then show ?case by simp
next
  case (Cons x xs)
  obtain r s1 where st: "ceremony_step e d x s = (r, s1)" by fastforce
  obtain tr1 where tr: "ceremony_run e d xs s1 = (tr1, s')" "tr = (x, r) # tr1"
    using Cons.prems(2) st by (auto simp: Let_def split: prod.splits)
  note b = step_burns [OF Cons.prems(1) st]
  from Cons.IH [OF b(1) tr(1)] b(2) [of n] tr(2) show ?case by simp
qed

end

subsection \<open>The service on the in-memory storage\<close>

definition memory_deps :: "(challenge list, rate_table, register) deps" where
  "memory_deps = \<lparr>d_put = put, d_consume = consume, d_hit = hit, d_link = link, d_unlink = unlink\<rparr>"

definition empty_stores :: "(challenge list, rate_table, register) stores" where
  "empty_stores = \<lparr>challenges = [], rates = Map.empty, links = \<lparr>rows = [], suppressedXIds = {}\<rparr>\<rparr>"

interpretation memory: ceremony put consume mset distinct_nonces hit hits_in link unlink row_pairs register_ok
    e memory_deps for e
  by unfold_locales (simp add: memory_deps_def)

lemma empty_inv: "ceremony_inv e A mset distinct_nonces row_pairs register_ok empty_stores"
  by (simp add: ceremony_inv_def empty_stores_def distinct_nonces_def register_ok_def row_pairs_def)

lemma run_from_empty:
  "ceremony_inv e (set ops) mset distinct_nonces row_pairs register_ok
     (snd (ceremony_run e memory_deps ops empty_stores))"
  by (rule memory.run_keeps [OF empty_inv]) simp

text \<open>A small run to evaluate the model on: one challenge, one write.\<close>

definition demo_wallet :: string where "demo_wallet = replicate 32 (CHR ''1'')"

definition demo_identity :: x_identity where
  "demo_identity = \<lparr>xId = ''42'', handle = ''ann'', displayName = ''Ann'', avatarUrl = None\<rparr>"

definition demo_env :: ceremony_env where
  "demo_env = \<lparr>privyVerify = (\<lambda>tok t. PrivyOk demo_identity), isBase58Pubkey = (\<lambda>s. True),
     ed25519_verify = (\<lambda>sig m w. True), bucketHmac = (\<lambda>m. m)\<rparr>"

definition demo_post :: "(string \<rightharpoonup> jval) \<Rightarrow> http_request" where
  "demo_post f = \<lparr>rq_method = ''POST'', rq_contentType = Some ''application/json'', rq_contentLength = None,
     rq_text = Some ''{}'', rq_json = JObject f, rq_host = None, rq_network = ''10.0.0.0/24''\<rparr>"

definition demo_ask :: http_request where
  "demo_ask = demo_post [''wallet'' \<mapsto> JString demo_wallet, ''purpose'' \<mapsto> JString ''link'',
     ''proof'' \<mapsto> JString ''token'']"

definition demo_signature :: string where "demo_signature = replicate 86 (CHR ''A'') @ ''==''"

definition demo_write :: http_request where
  "demo_write = demo_post [''wallet'' \<mapsto> JString demo_wallet, ''nonce'' \<mapsto> JString (newNonce (replicate 32 0)),
     ''signature'' \<mapsto> JString demo_signature]"

definition nobody :: house_list where "nobody = \<lparr>house_wallets = [], house_unknown = False\<rparr>"

definition demo_ceremony :: "ceremony_op list" where
  "demo_ceremony = [AskChallenge demo_ask 0 (replicate 32 0), WriteLink demo_write 100 nobody,
     WriteLink demo_write 101 nobody]"

definition demo_challenge :: challenge where
  "demo_challenge = make_challenge None demo_wallet (Some demo_identity) (replicate 32 0) 0"

lemma demo_trim: "js_trim demo_wallet = demo_wallet"
  by (simp add: js_trim_def demo_wallet_def js_space_def dropWhile_replicate)

lemma hex_digit_zero: "hex_digit 0 = CHR ''0''"
  by code_simp

lemma newNonce_zeros: "newNonce (replicate n 0) = replicate (2 * n) (CHR ''0'')"
  by (induction n) (simp_all add: newNonce_def hex_digit_zero)

lemma demo_nonce: "newNonce (replicate 32 0) = replicate 64 (CHR ''0'')"
  by (simp add: newNonce_zeros)

lemma demo_body: "readJsonBody (demo_post f) = Inr f"
  by (simp add: readJsonBody_def demo_post_def starts_with_def lower_def lower_char_def is_upper_def char_code_def
      MAX_BODY_BYTES_def)

lemma demo_chars:
  "NONCE_RE (replicate 64 (CHR ''0''))" "WALLET_RE demo_wallet" "SIG_RE demo_signature"
  by (simp_all add: NONCE_RE_def WALLET_RE_def SIG_RE_def demo_wallet_def demo_signature_def list_all_iff
      base58_char_def b64_val_def is_dec_def is_upper_def char_code_def)

lemma demo_identity_storable: "identity_storable demo_identity"
  by (simp add: identity_storable_def demo_identity_def X_ID_RE_def HANDLE_RE_def avatar_ok_def is_dec_def
      is_upper_def is_lower_def char_code_def)

lemma demo_message: "length (message (base demo_challenge)) \<le> 2000" "message (base demo_challenge) \<noteq> ''''"
  by (simp_all add: demo_challenge_def base_make_challenge challengeMessage_def demo_nonce demo_wallet_def
      demo_identity_def nl_def isoSecond_epoch CHALLENGE_TTL_SECONDS_def originFrom_def DEFAULT_ORIGIN_def)

lemma demo_storable: "assertChallengeIsStorable demo_challenge"
proof -
  have "demo_challenge = LinkChallenge (base demo_challenge) demo_identity"
    by (simp add: demo_challenge_def make_challenge_def Let_def)
  moreover have "nonce (base demo_challenge) = replicate 64 (CHR ''0'')" "ch_wallet (base demo_challenge) = demo_wallet"
    "issuedAtSec (base demo_challenge) = 0" "expiresAtSec (base demo_challenge) = 300"
    by (simp_all add: demo_challenge_def base_make_challenge demo_nonce CHALLENGE_TTL_SECONDS_def)
  ultimately show ?thesis
    using demo_chars demo_message demo_identity_storable unfolding assertChallengeIsStorable_def
    by (metis (no_types, lifting) challenge.simps(5) zero_less_numeral)
qed

definition demo_rates :: "nat \<Rightarrow> rate_table" where
  "demo_rates k = [bucketKey (\<lambda>m. m) WalletBucket (''10.0.0.0/24'' @ ''|'' @ demo_wallet) \<mapsto> (0, k),
     bucketKey (\<lambda>m. m) NetworkBucket ''10.0.0.0/24'' \<mapsto> (0, k)]"

lemma demo_rate_start: "enforceRateLimit hit (\<lambda>m. m) demo_wallet ''10.0.0.0/24'' 0 Map.empty = (Inr RateOk, demo_rates 1)"
  by (simp add: enforceRateLimit_def bucketKey_def hit_def next_count_def Let_def LIMIT_PER_WALLET_def
      LIMIT_PER_NETWORK_def demo_rates_def windowStart_def bigint_div_def)

lemma demo_rate_next:
  assumes "windowStart t = 0" and "k < 20"
  shows "enforceRateLimit hit (\<lambda>m. m) demo_wallet ''10.0.0.0/24'' t (demo_rates k) = (Inr RateOk, demo_rates (k + 1))"
  using assms
  by (simp add: enforceRateLimit_def bucketKey_def hit_def next_count_def Let_def LIMIT_PER_WALLET_def
      LIMIT_PER_NETWORK_def demo_rates_def fun_upd_twist)

lemma demo_parse: "parseWallet (\<lambda>s. True) (Some (JString demo_wallet)) = Some demo_wallet"
  by (simp add: parseWallet_def demo_trim, simp add: demo_wallet_def)

lemma demo_signature_bytes: "signatureBytes (Some (JString demo_signature)) = Some (atob64 demo_signature)"
  by (simp add: signatureBytes_def demo_chars)

definition demo_stores :: "nat \<Rightarrow> challenge list \<Rightarrow> link_row list \<Rightarrow> (challenge list, rate_table, register) stores" where
  "demo_stores k cs rs = \<lparr>challenges = cs, rates = demo_rates k, links = \<lparr>rows = rs, suppressedXIds = {}\<rparr>\<rparr>"

lemma demo_identity_step: "challenge_identity demo_env ''link'' (Some (JString ''token'')) t = Inr (Some demo_identity)"
  by (simp add: challenge_identity_def demo_env_def isReservedXId_def RESERVED_MOCK_X_IDS_def isReservedHandle_def
      RESERVED_HANDLES_def demo_identity_def js_trim_def js_space_def lower_def lower_char_def is_upper_def char_code_def)

lemma demo_proj:
  "isBase58Pubkey demo_env = (\<lambda>s. True)" "bucketHmac demo_env = (\<lambda>m. m)"
  "ed25519_verify demo_env = (\<lambda>sig m w. True)"
  "d_put memory_deps = put" "d_consume memory_deps = consume" "d_hit memory_deps = hit" "d_link memory_deps = link"
  "rates empty_stores = Map.empty" "empty_stores\<lparr>rates := demo_rates k\<rparr> = demo_stores k [] []"
  "rates (demo_stores k cs rs) = demo_rates k" "challenges (demo_stores k cs rs) = cs"
  "(demo_stores k cs rs)\<lparr>rates := demo_rates j\<rparr> = demo_stores j cs rs"
  "(demo_stores k cs rs)\<lparr>challenges := ds\<rparr> = demo_stores k ds rs"
  "rq_method (demo_post f) = ''POST''" "rq_network (demo_post f) = ''10.0.0.0/24''" "rq_host (demo_post f) = None"
  by (simp_all add: demo_env_def memory_deps_def empty_stores_def demo_stores_def demo_post_def)

lemma demo_asks:
  "ceremony_step demo_env memory_deps (AskChallenge demo_ask 0 (replicate 32 0)) empty_stores =
     (Issued (message (base demo_challenge)) (newNonce (replicate 32 0)) 300, demo_stores 1 [demo_challenge] [])"
proof -
  have "handleChallenge demo_env memory_deps demo_ask 0 (replicate 32 0) empty_stores =
      issue demo_env memory_deps demo_ask demo_wallet ''link'' (Some (JString ''token'')) 0 (replicate 32 0)
        (demo_stores 1 [] [])"
    unfolding handleChallenge_def demo_ask_def demo_body
    by (simp add: demo_proj demo_parse demo_rate_start [simplified] purpose_of_def)
  also have "\<dots> = (Issued (message (base demo_challenge)) (newNonce (replicate 32 0)) 300, demo_stores 1 [demo_challenge] [])"
  proof -
    have c: "make_challenge (rq_host demo_ask) demo_wallet (Some demo_identity) (replicate 32 0) 0 = demo_challenge"
      by (simp add: demo_challenge_def demo_ask_def demo_proj)
    have "put demo_challenge [] = Inr [demo_challenge]" using demo_storable by (simp add: put_def)
    moreover have "nonce (base demo_challenge) = newNonce (replicate 32 0)" "expiresAtSec (base demo_challenge) = 300"
      by (simp_all add: demo_challenge_def base_make_challenge CHALLENGE_TTL_SECONDS_def)
    ultimately show ?thesis
      unfolding issue_def demo_identity_step sum.case c Let_def by (simp add: demo_proj)
  qed
  finally show ?thesis by simp
qed

definition demo_redemption :: redemption where
  "demo_redemption = \<lparr>rd_wallet = demo_wallet, rd_nonce = newNonce (replicate 32 0),
     rd_signature = atob64 demo_signature\<rparr>"

lemma demo_write_step:
  assumes "windowStart t = 0" and "k < 20"
  shows "ceremony_step demo_env memory_deps (WriteLink demo_write t nobody) (demo_stores k cs rs) =
     redeem demo_env memory_deps True demo_redemption t nobody (demo_stores (k + 1) cs rs)"
  unfolding ceremony_step.simps handleLinkWrite_def demo_write_def demo_body
  using demo_chars(1) demo_rate_next [OF assms]
  by (simp add: demo_proj demo_parse parseRedemption_def demo_nonce demo_signature_bytes demo_redemption_def)

lemma demo_row: "link demo_wallet demo_identity t \<lparr>rows = [], suppressedXIds = {}\<rparr> =
    Inr (Linked, \<lparr>rows = [new_row demo_wallet demo_identity t False], suppressedXIds = {}\<rparr>)"
  using demo_chars(2) demo_identity_storable by (simp add: link_def row_of_def put_row_def)

lemma demo_redeems:
  "redeem demo_env memory_deps True demo_redemption 100 nobody (demo_stores 2 [demo_challenge] []) =
     (LinkedOk, demo_stores 2 [] [new_row demo_wallet demo_identity 100 False])"
proof -
  have d: "demo_challenge = LinkChallenge (base demo_challenge) demo_identity"
    "nonce (base demo_challenge) = newNonce (replicate 32 0)" "ch_wallet (base demo_challenge) = demo_wallet"
    "expiresAtSec (base demo_challenge) = 300"
    by (simp_all add: demo_challenge_def base_make_challenge CHALLENGE_TTL_SECONDS_def make_challenge_def Let_def)
  have "consume (newNonce (replicate 32 0)) 100 [demo_challenge] = (Some demo_challenge, [])"
    using d(2,4) by (simp add: consume_def)
  moreover have "settle_redemption demo_env memory_deps True demo_redemption demo_challenge 100 nobody
      \<lparr>rows = [], suppressedXIds = {}\<rparr> =
      (LinkedOk, \<lparr>rows = [new_row demo_wallet demo_identity 100 False], suppressedXIds = {}\<rparr>)"
    using demo_identity_step [of 0] d(3)
    by (subst d(1), subst settle_redemption_def)
      (simp add: demo_redemption_def signatureVerifies_def demo_proj nobody_def demo_row
        challenge_identity_def demo_env_def split: if_splits)
  ultimately show ?thesis
    by (simp add: redeem_def demo_redemption_def demo_proj, simp add: demo_stores_def)
qed

lemma demo_expired:
  "redeem demo_env memory_deps True demo_redemption t nobody (demo_stores k [] rs) =
     (Refused 400 ''expired'', demo_stores k [] rs)"
  by (simp add: redeem_def demo_proj consume_def)

lemma demo_ceremony_run:
  "ceremony_run demo_env memory_deps demo_ceremony empty_stores =
     ([(AskChallenge demo_ask 0 (replicate 32 0), Issued (message (base demo_challenge)) (newNonce (replicate 32 0)) 300),
       (WriteLink demo_write 100 nobody, LinkedOk), (WriteLink demo_write 101 nobody, Refused 400 ''expired'')],
      demo_stores 3 [] [new_row demo_wallet demo_identity 100 False])"
proof -
  have w: "windowStart 100 = 0" "windowStart 101 = 0"
    by (simp_all add: windowStart_def bigint_div_def WINDOW_SECONDS_def)
  have s2: "ceremony_step demo_env memory_deps (WriteLink demo_write 100 nobody) (demo_stores 1 [demo_challenge] []) =
      (LinkedOk, demo_stores 2 [] [new_row demo_wallet demo_identity 100 False])"
    using demo_write_step [OF w(1), of 1 "[demo_challenge]" "[]"] demo_redeems by (simp add: numeral_2_eq_2)
  have s3: "ceremony_step demo_env memory_deps (WriteLink demo_write 101 nobody)
      (demo_stores 2 [] [new_row demo_wallet demo_identity 100 False]) =
      (Refused 400 ''expired'', demo_stores 3 [] [new_row demo_wallet demo_identity 100 False])"
    using demo_write_step [OF w(2), of 2] demo_expired by simp
  show ?thesis by (simp add: demo_ceremony_def demo_asks s2 [unfolded One_nat_def] s3 del: ceremony_step.simps)
qed

text \<open>C19: No face without proof. For every link in the register there was a request for a challenge whose
  body named exactly that wallet and carried an identity token that the verifier accepted for exactly
  that X account, not a reserved one; and a POST whose body named that wallet and the nonce of that
  challenge and carried a signature of exactly that wallet over exactly the message of that challenge,
  less than five minutes after it was issued, at a moment when the house list was known and did not
  name the wallet.\<close>

theorem link_is_proven:
  assumes "(x, w) \<in> row_pairs (links (snd (ceremony_run e memory_deps ops empty_stores)))"
  shows "\<exists>i tok q0 t0 bytes q1 t1 house rd.
    AskChallenge q0 t0 bytes \<in> set ops \<and> asks_link_for e q0 w tok \<and>
    privyVerify e tok t0 = PrivyOk i \<and> xId i = x \<and> \<not> isReservedXId x \<and> \<not> isReservedHandle (handle i) \<and>
    WriteLink q1 t1 house \<in> set ops \<and> presents e q1 rd \<and> rd_wallet rd = w \<and> rd_nonce rd = newNonce bytes \<and>
    t1 < t0 + CHALLENGE_TTL_SECONDS \<and>
    ed25519_verify e (rd_signature rd) (challengeMessage (originFrom (rq_host q0)) w (Some i) (newNonce bytes) t0
      (t0 + CHALLENGE_TTL_SECONDS)) w \<and>
    \<not> house_unknown house \<and> w \<notin> set (house_wallets house)"
proof -
  have "proven e (set ops) (x, w)" using run_from_empty assms by (auto simp: ceremony_inv_def)
  then obtain b i where p: "xId i = x" "ch_wallet b = w" "asked e (set ops) (LinkChallenge b i)"
      "signed e (set ops) (LinkChallenge b i)" by (auto simp: proven_def)
  from p(3) obtain q t bytes tok i' w' where a: "AskChallenge q t bytes \<in> set ops" "asks_link_for e q w' tok"
      "LinkChallenge b i = make_challenge (rq_host q) w' (Some i') bytes t"
      "privyVerify e tok t = PrivyOk i'" "\<not> isReservedXId (xId i')" "\<not> isReservedHandle (handle i')"
    unfolding asked_def by blast
  have i: "i' = i" using a(3) by (simp add: make_challenge_def Let_def)
  have b: "b = base (make_challenge (rq_host q) w' (Some i') bytes t)" using a(3) by (metis base.simps(1))
  then have w: "w' = w" using p(2) by (simp add: base_make_challenge)
  from p(4) obtain q1 t1 house rd where s: "WriteLink q1 t1 house \<in> set ops" "presents e q1 rd"
      "rd_wallet rd = ch_wallet b" "rd_nonce rd = nonce b" "signatureVerifies e (LinkChallenge b i) (rd_signature rd)"
      "t1 < expiresAtSec b" "\<not> house_unknown house" "ch_wallet b \<notin> set (house_wallets house)"
    unfolding signed_def by auto
  have m: "message b = challengeMessage (originFrom (rq_host q)) w (Some i) (newNonce bytes) t
      (t + CHALLENGE_TTL_SECONDS)" "nonce b = newNonce bytes" "expiresAtSec b = t + CHALLENGE_TTL_SECONDS"
    using b by (simp_all add: base_make_challenge i w)
  from s(5) have "ed25519_verify e (rd_signature rd) (message b) w"
    by (simp add: signatureVerifies_def p(2))
  with a s show ?thesis unfolding m i w p(1,2) using p(1) by blast
qed

theorem link_is_proven_witness:
  "(''42'', demo_wallet) \<in> row_pairs (links (snd (ceremony_run demo_env memory_deps demo_ceremony empty_stores))) \<and>
   (\<exists>q t b. AskChallenge q t b \<in> set demo_ceremony) \<and> \<not> isReservedXId ''42''"
proof -
  have row: "(''42'', demo_wallet) \<in> row_pairs (links (snd (ceremony_run demo_env memory_deps demo_ceremony empty_stores)))"
    by (simp add: demo_ceremony_run row_pairs_def demo_stores_def) (simp add: demo_identity_def)
  from link_is_proven [OF row] row show ?thesis by blast
qed

text \<open>C20: A challenge is good for one write. In every run of the service, at most as many writes succeed
  with a nonce as challenges were issued with it: a signed message that was used once is worth
  nothing afterwards.\<close>

theorem challenge_used_once:
  "how_often (redeems e n) (fst (ceremony_run e memory_deps ops empty_stores)) \<le>
     how_often (issues n) (fst (ceremony_run e memory_deps ops empty_stores))"
proof -
  obtain tr s' where r: "ceremony_run e memory_deps ops empty_stores = (tr, s')" by fastforce
  have "distinct_nonces (challenges empty_stores)" by (simp add: empty_stores_def distinct_nonces_def)
  from memory.run_burns [OF this r, of n] show ?thesis using r by (simp add: empty_stores_def held_as_def)
qed

text \<open>C34: The rate limit bounds what gets through. Whatever the calls, as long as their windows come in
  order, at most sixty requests of one network and at most twenty of one wallet from it pass in one
  window of ten minutes, even if the keyed hash confuses buckets.\<close>

theorem rate_limit_holds:
  assumes "sorted (map (\<lambda>c. windowStart (rc_now c)) calls)"
  shows "how_often (passes_network net t0) (rate_run hit hmac calls Map.empty) \<le> LIMIT_PER_NETWORK \<and>
    how_often (passes_wallet net w t0) (rate_run hit hmac calls Map.empty) \<le> LIMIT_PER_WALLET"
proof
  have "counts_on hmac t0 (bucketKey hmac NetworkBucket net) LIMIT_PER_NETWORK (passes_network net t0)"
    by (simp add: counts_on_def passes_network_def)
  from memory_rate.window_bound [OF this assms]
  show "how_often (passes_network net t0) (rate_run hit hmac calls Map.empty) \<le> LIMIT_PER_NETWORK" .
  have "counts_on hmac t0 (bucketKey hmac WalletBucket (net @ ''|'' @ w)) LIMIT_PER_WALLET (passes_wallet net w t0)"
    by (simp add: counts_on_def passes_wallet_def passes_network_def)
  from memory_rate.window_bound [OF this assms]
  show "how_often (passes_wallet net w t0) (rate_run hit hmac calls Map.empty) \<le> LIMIT_PER_WALLET" .
qed

definition demo_calls :: "rate_call list" where
  "demo_calls = replicate 21 \<lparr>rc_wallet = ''w'', rc_network = ''n'', rc_now = 0\<rparr>"

theorem rate_limit_holds_witness:
  "sorted (map (\<lambda>c. windowStart (rc_now c)) demo_calls) \<and>
   how_often (passes_wallet ''n'' ''w'' 0) (rate_run hit (\<lambda>m. m) demo_calls Map.empty) \<le> 20"
proof -
  have s: "sorted (map (\<lambda>c. windowStart (rc_now c)) demo_calls)" by (simp add: demo_calls_def)
  then show ?thesis
    using rate_limit_holds [OF s, where net = "''n''" and ?t0.0 = 0 and w = "''w''" and hmac = "\<lambda>m. m"]
    by (simp add: LIMIT_PER_WALLET_def)
qed

end
