(* ===== verification/Engine_Rng.thy ===== *)
theory Engine_Rng
  imports Prelude
begin

text \<open>
  The seeded random stream of the engine's simulations (\<open>xmur3\<close> and \<open>sfc32\<close> of
  \<open>engine/src/game.ts\<close>; \<open>gameN.ts\<close> has the same text), on 32-bit words as the
  code keeps them: \<open>Math.imul\<close> and \<open>|0\<close> wrap, \<open>>>>\<close> shifts in zeros. A
  generator is a state passed on, \<open>rnd()\<close> returns the draw and the next state. A draw is the
  rational \<open>t / 2^32\<close>, which a double holds exactly.
\<close>

unbundle bit_operations_syntax

subsection \<open>The hash that spreads the seed\<close>

fun xmur3_chars :: "32 word \<Rightarrow> string \<Rightarrow> 32 word" where
  "xmur3_chars h [] = h"
| "xmur3_chars h (c # cs) =
     (let h1 = (h XOR of_char c) * 3432918353
      in xmur3_chars (push_bit 13 h1 OR drop_bit 19 h1) cs)"

definition xmur3 :: "string \<Rightarrow> 32 word" where
  "xmur3 str = xmur3_chars (1779033703 XOR of_nat (length str)) str"

definition xmur3_next :: "32 word \<Rightarrow> 32 word" where
  "xmur3_next h =
     (let h1 = (h XOR drop_bit 16 h) * 2246822507;
          h2 = (h1 XOR drop_bit 13 h1) * 3266489909
      in h2 XOR drop_bit 16 h2)"

subsection \<open>The stream\<close>

record sfc =
  sfc_a :: "32 word"
  sfc_b :: "32 word"
  sfc_c :: "32 word"
  sfc_d :: "32 word"

definition sfc32 :: "sfc \<Rightarrow> rat \<times> sfc" where
  "sfc32 g =
     (let t = sfc_a g + sfc_b g;
          a = sfc_b g XOR drop_bit 9 (sfc_b g);
          b = sfc_c g + push_bit 3 (sfc_c g);
          c = push_bit 21 (sfc_c g) OR drop_bit 11 (sfc_c g);
          d = sfc_d g + 1;
          t = t + d
      in (of_int (uint t) / 4294967296, \<lparr>sfc_a = a, sfc_b = b, sfc_c = c + t, sfc_d = d\<rparr>))"

definition rngFromSeed :: "string \<Rightarrow> sfc" where
  "rngFromSeed seed =
     (let a = xmur3_next (xmur3 seed); b = xmur3_next a; c = xmur3_next b; d = xmur3_next c
      in \<lparr>sfc_a = a, sfc_b = b, sfc_c = c, sfc_d = d\<rparr>)"

definition rand :: "rat \<Rightarrow> rat \<Rightarrow> sfc \<Rightarrow> rat \<times> sfc" where
  "rand lo hi g = (let (u, g') = sfc32 g in (lo + u * (hi - lo), g'))"

text \<open>The strength of a blow: usually small, seldom large.\<close>

definition roll :: "sfc \<Rightarrow> rat \<times> sfc" where
  "roll g =
     (let (u, g') = sfc32 g
      in if u < 88 / 100 then rand (2 / 10) (15 / 10) g'
         else if u < 97 / 100 then rand (15 / 10) 4 g'
         else rand 4 13 g')"

subsection \<open>Ranges\<close>

lemma sfc32_range: "0 \<le> fst (sfc32 g) \<and> fst (sfc32 g) < 1"
proof -
  have "0 \<le> uint (w :: 32 word) \<and> uint w < 4294967296" for w
    using uint_lt2p [of w] by simp
  then have "(0 :: rat) \<le> of_int (uint (w :: 32 word)) / 4294967296 \<and>
      (of_int (uint w) :: rat) / 4294967296 < 1" for w
    by (metis divide_less_eq_1_pos divide_nonneg_pos of_int_0_le_iff of_int_less_iff of_int_numeral
        zero_less_numeral)
  then show ?thesis by (simp add: sfc32_def Let_def)
qed

lemma rand_range:
  assumes "lo < hi"
  shows "lo \<le> fst (rand lo hi g) \<and> fst (rand lo hi g) < hi"
proof -
  let ?u = "fst (sfc32 g)"
  have "fst (rand lo hi g) = lo + ?u * (hi - lo)"
    by (simp add: rand_def case_prod_beta)
  moreover have "0 \<le> ?u * (hi - lo)" using sfc32_range [of g] assms by simp
  moreover have "?u * (hi - lo) < hi - lo"
    using mult_strict_right_mono [of ?u 1 "hi - lo"] sfc32_range [of g] assms by simp
  ultimately show ?thesis by simp
qed

lemma roll_range: "2 / 10 \<le> fst (roll g) \<and> fst (roll g) < 13"
  using rand_range [of "2 / 10" "15 / 10" "snd (sfc32 g)"] rand_range [of "15 / 10" 4 "snd (sfc32 g)"]
    rand_range [of 4 13 "snd (sfc32 g)"]
  by (auto simp: roll_def case_prod_beta)

end
