(* ===== verification/Engine_Sim.thy ===== *)
theory Engine_Sim
  imports Engine_Rng "HOL-Library.AList" "HOL-Library.List_Lexorder" "HOL-Library.Char_ord"
begin

text \<open>
  The two-sided battle of the engine, \<open>engine/src/game.ts\<close>: \<open>createSim\<close> with its
  matched book, one tick of physics and blows (\<open>stepSim\<close>), the settlement
  (\<open>finishSim\<close>), a whole round (\<open>simulateRound\<close>) and its check
  (\<open>verifyRound\<close>).

  Numbers are exact rationals. \<open>Math.sqrt\<close> and \<open>Math.hypot\<close>, which the language leaves
  to the implementation to approximate, and the SHA-256 of the runtime are the fields of
  \<open>host\<close>, an argument of everything that calls them; nothing is assumed of them. A fighter is
  named by its place in the list \<open>F\<close>, since the code shares the objects by reference. The maps
  \<open>byId\<close> of the state, which the simulation never reads, and the unused argument of
  \<open>aliveF\<close> are left out.
\<close>

subsection \<open>Data\<close>

datatype side = Bull | Uwu

datatype arena_mode = Normal | Extraction

record entry =
  e_id :: string
  e_side :: side
  e_stake :: rat

record sim_fighter =
  f_id :: string
  f_side :: side
  bull :: rat
  uwu :: rat
  sBull :: rat
  sUwu :: rat
  deposited :: rat
  raided :: rat
  dmgDealt :: rat
  dmgTaken :: rat
  bestHit :: rat
  f_dead :: bool
  unmatched :: rat
  pos_x :: rat
  pos_y :: rat
  vel_x :: rat
  vel_y :: rat
  rad :: rat

record round_config =
  cf_mode :: arena_mode
  multiplier :: rat
  cf_base :: rat
  hitCapFrac :: rat
  battleMs :: rat
  tickMs :: rat
  cf_dust :: rat
  matchTol :: "rat option"

record hit_log =
  h_t :: int
  h_atk :: string
  h_def :: string
  h_amt :: rat
  h_tk :: side

record sim_state =
  rnd :: sfc
  F :: "sim_fighter list"
  hits :: "hit_log list"
  tick :: int
  steps :: int
  cfg :: round_config
  pairCd :: "string \<rightharpoonup> rat"
  endTick :: int
  finished :: bool

type_synonym settlement = "(string \<times> rat \<times> rat) list"

record round_result =
  rr_seedHash :: string
  rr_fighters :: "sim_fighter list"
  rr_winner :: side
  rr_hits :: "hit_log list"
  rr_settlement :: settlement
  rr_endTick :: int

record host =
  m_sqrt :: "rat \<Rightarrow> rat"
  m_hypot :: "rat \<Rightarrow> rat \<Rightarrow> rat"
  sha256_hex :: "string \<Rightarrow> string"

definition ARENA_w :: rat where "ARENA_w = 900"
definition ARENA_h :: rat where "ARENA_h = 560"
definition COMBAT_speed :: rat where "COMBAT_speed = 112"
definition COMBAT_accel :: rat where "COMBAT_accel = 300"
definition COMBAT_hitCd :: rat where "COMBAT_hitCd = 380"
definition COMBAT_knock :: rat where "COMBAT_knock = 46"
definition FINISH_RATIO :: rat where "FINISH_RATIO = 8 / 100"
definition SMALL_EDGE :: rat where "SMALL_EDGE = 103 / 100"
definition DUST_FRAC :: rat where "DUST_FRAC = 3 / 100"
definition SIZE_WEIGHT :: rat where "SIZE_WEIGHT = 9 / 10"

definition dustFor :: "sim_fighter \<Rightarrow> rat" where
  "dustFor f = max (5 / 1000) (deposited f * DUST_FRAC)"

definition ring_value :: "sim_fighter \<Rightarrow> rat" where
  "ring_value f = bull f + uwu f"

definition aliveF :: "sim_fighter \<Rightarrow> bool" where
  "aliveF f \<longleftrightarrow> \<not> f_dead f \<and> ring_value f > dustFor f"

definition clamp_to :: "rat \<Rightarrow> rat \<Rightarrow> rat \<Rightarrow> rat" where
  "clamp_to v a b = (if v < a then a else if v > b then b else v)"

definition radiusFor :: "host \<Rightarrow> sim_fighter \<Rightarrow> rat" where
  "radiusFor m f = clamp_to (13 + 19 / 10 * m_sqrt m (ring_value f)) 13 30"

text \<open>\<open>id.split("|")[0]\<close>. Strings are ordered by their code units, the lexicographic order of
  the library on lists of characters.\<close>

definition wallet_of :: "string \<Rightarrow> string" where
  "wallet_of i = takeWhile (\<lambda>c. c \<noteq> CHR ''|'') i"

subsection \<open>The matched book\<close>

fun side_total :: "side \<Rightarrow> entry list \<Rightarrow> rat" where
  "side_total sd [] = 0"
| "side_total sd (e # es) = (if e_side e = sd then e_stake e else 0) + side_total sd es"

fun other_side :: "side \<Rightarrow> side" where
  "other_side Bull = Uwu"
| "other_side Uwu = Bull"

definition capFor2 :: "round_config \<Rightarrow> entry list \<Rightarrow> side \<Rightarrow> rat" where
  "capFor2 c es sd = side_total (other_side sd) es * (1 + (case matchTol c of None \<Rightarrow> 0 | Some q \<Rightarrow> q))"

definition inPlayFrac :: "round_config \<Rightarrow> entry list \<Rightarrow> side \<Rightarrow> rat" where
  "inPlayFrac c es sd =
     (if side_total sd es > 0 then min 1 (capFor2 c es sd / side_total sd es) else 1)"

definition new_fighter :: "host \<Rightarrow> round_config \<Rightarrow> entry list \<Rightarrow> entry \<Rightarrow> sfc \<Rightarrow> sim_fighter \<times> sfc" where
  "new_fighter m c es e g =
     (let inPlay = e_stake e * inPlayFrac c es (e_side e);
          (vx, g1) = rand (- 1) 1 g;
          (vy, g2) = rand (- 1) 1 g1;
          (px, g3) = (if e_side e = Bull then rand 30 (ARENA_w * (34 / 100)) g2
                      else rand (ARENA_w * (66 / 100)) (ARENA_w - 30) g2);
          (py, g4) = rand 40 (ARENA_h - 40) g3;
          f = \<lparr>f_id = e_id e, f_side = e_side e,
               bull = (if e_side e = Bull then inPlay else 0), uwu = (if e_side e = Uwu then inPlay else 0),
               sBull = 0, sUwu = 0, deposited = e_stake e, raided = 0, dmgDealt = 0, dmgTaken = 0,
               bestHit = 0, f_dead = False, unmatched = e_stake e - inPlay,
               pos_x = px, pos_y = py, vel_x = vx, vel_y = vy, rad = 12\<rparr>
      in (f\<lparr>rad := radiusFor m f\<rparr>, g4))"

fun new_fighters :: "host \<Rightarrow> round_config \<Rightarrow> entry list \<Rightarrow> entry list \<Rightarrow> sfc \<Rightarrow> sim_fighter list \<times> sfc" where
  "new_fighters m c es [] g = ([], g)"
| "new_fighters m c es (e # rest) g =
     (let (f, g1) = new_fighter m c es e g; (fs, g2) = new_fighters m c es rest g1 in (f # fs, g2))"

definition createSim :: "host \<Rightarrow> string \<Rightarrow> entry list \<Rightarrow> round_config \<Rightarrow> sim_state" where
  "createSim m seed es c =
     (let (fs, g) = new_fighters m c es es (rngFromSeed seed); n = \<lfloor>battleMs c / tickMs c\<rfloor>
      in \<lparr>rnd = g, F = fs, hits = [], tick = 0, steps = n, cfg = c, pairCd = Map.empty,
          endTick = n, finished = False\<rparr>)"

subsection \<open>Movement\<close>

text \<open>Who a fighter walks towards: the enemy with the least distance, a difference in size counted as
  distance. Fighters of one wallet never seek each other.\<close>

definition seek_score :: "host \<Rightarrow> sim_fighter \<Rightarrow> sim_fighter \<Rightarrow> rat" where
  "seek_score m p q =
     (let dx = pos_x q - pos_x p; dy = pos_y q - pos_y p; d = m_sqrt m (dx * dx + dy * dy);
          rp = max (1 / 100) (ring_value p); rq = max (1 / 100) (ring_value q);
          ratio = min (if rp > rq then rp / rq else rq / rp) 8
      in d * (1 + SIZE_WEIGHT * (ratio - 1)))"

definition seek_step :: "host \<Rightarrow> sim_fighter \<Rightarrow> sim_fighter \<Rightarrow> rat \<times> sim_fighter option
    \<Rightarrow> rat \<times> sim_fighter option" where
  "seek_step m p q best =
     (if f_side q = f_side p then best
      else if wallet_of (f_id q) = wallet_of (f_id p) then best
      else if seek_score m p q < fst best then (seek_score m p q, Some q) else best)"

definition seek :: "host \<Rightarrow> sim_fighter \<Rightarrow> sim_fighter list \<Rightarrow> sim_fighter option" where
  "seek m p qs = snd (fold (seek_step m p) qs (10 ^ 18, None))"

definition or_else :: "rat \<Rightarrow> rat \<Rightarrow> rat" where
  "or_else v d = (if v = 0 then d else v)"

definition steer :: "host \<Rightarrow> rat \<Rightarrow> rat \<Rightarrow> sim_fighter option \<Rightarrow> sim_fighter \<Rightarrow> sim_fighter" where
  "steer m ramp dt tgt p =
     (case tgt of None \<Rightarrow> p
      | Some q \<Rightarrow>
          let ax = pos_x q - pos_x p; ay = pos_y q - pos_y p; al = or_else (m_hypot m ax ay) 1
          in p\<lparr>vel_x := vel_x p + ax / al * COMBAT_accel * ramp * dt,
               vel_y := vel_y p + ay / al * COMBAT_accel * ramp * dt\<rparr>)"

definition drift :: "host \<Rightarrow> rat \<Rightarrow> rat \<Rightarrow> rat \<Rightarrow> rat \<Rightarrow> sim_fighter \<Rightarrow> sim_fighter" where
  "drift m ramp dt wx wy p =
     (let p1 = p\<lparr>vel_x := vel_x p + wx * dt, vel_y := vel_y p + wy * dt\<rparr>;
          sp = or_else (m_hypot m (vel_x p1) (vel_y p1)) (1 / 1000);
          mx = COMBAT_speed * ramp * (14 / 10);
          p2 = (if sp > mx then p1\<lparr>vel_x := vel_x p1 * (mx / sp), vel_y := vel_y p1 * (mx / sp)\<rparr> else p1)
      in p2\<lparr>pos_x := pos_x p2 + vel_x p2 * dt, pos_y := pos_y p2 + vel_y p2 * dt\<rparr>)"

definition walls :: "sim_fighter \<Rightarrow> sim_fighter" where
  "walls p =
     (let p1 = (if pos_x p < rad p then p\<lparr>pos_x := rad p, vel_x := \<bar>vel_x p\<bar>\<rparr> else p);
          p2 = (if pos_x p1 > ARENA_w - rad p1
                then p1\<lparr>pos_x := ARENA_w - rad p1, vel_x := - \<bar>vel_x p1\<bar>\<rparr> else p1);
          p3 = (if pos_y p2 < rad p2 then p2\<lparr>pos_y := rad p2, vel_y := \<bar>vel_y p2\<bar>\<rparr> else p2)
      in if pos_y p3 > ARENA_h - rad p3
         then p3\<lparr>pos_y := ARENA_h - rad p3, vel_y := - \<bar>vel_y p3\<bar>\<rparr> else p3)"

definition move :: "host \<Rightarrow> rat \<Rightarrow> rat \<Rightarrow> nat list \<Rightarrow> nat \<Rightarrow> sim_state \<Rightarrow> sim_state" where
  "move m ramp dt A i s =
     (let p = F s ! i;
          p1 = p\<lparr>rad := rad p + (radiusFor m p - rad p) * (15 / 100)\<rparr>;
          tgt = seek m p1 (map (nth (F s)) A);
          (wx, g1) = rand (- 8) 8 (rnd s);
          (wy, g2) = rand (- 8) 8 g1
      in s\<lparr>rnd := g2, F := (F s)[i := walls (drift m ramp dt wx wy (steer m ramp dt tgt p1))]\<rparr>)"

subsection \<open>Blows\<close>

record hit_plan =
  pl_tk :: side
  pl_amt :: rat

fun purse :: "side \<Rightarrow> sim_fighter \<Rightarrow> rat" where
  "purse Bull f = bull f"
| "purse Uwu f = uwu f"

text \<open>\<open>planHit\<close> reads the defender as it stood before either blow, so the snapshot of the code is
  the fighter itself: stolen coins are lost before a fighter's own.\<close>

definition planHit :: "sim_fighter \<Rightarrow> rat \<Rightarrow> hit_plan" where
  "planHit def dmg =
     (let takeEnemy = (if f_side def = Bull then uwu def else bull def) > 5 / 100;
          tk = (if takeEnemy then other_side (f_side def) else f_side def)
      in \<lparr>pl_tk = tk, pl_amt = min dmg (purse tk def)\<rparr>)"

fun lose :: "side \<Rightarrow> rat \<Rightarrow> sim_fighter \<Rightarrow> sim_fighter" where
  "lose Bull amt f = f\<lparr>bull := bull f - amt\<rparr>"
| "lose Uwu amt f = f\<lparr>uwu := uwu f - amt\<rparr>"

fun gain :: "arena_mode \<Rightarrow> side \<Rightarrow> rat \<Rightarrow> sim_fighter \<Rightarrow> sim_fighter" where
  "gain Extraction Bull amt f = f\<lparr>sBull := sBull f + amt\<rparr>"
| "gain Extraction Uwu amt f = f\<lparr>sUwu := sUwu f + amt\<rparr>"
| "gain Normal Bull amt f = f\<lparr>bull := bull f + amt\<rparr>"
| "gain Normal Uwu amt f = f\<lparr>uwu := uwu f + amt\<rparr>"

definition applyHit :: "arena_mode \<Rightarrow> int \<Rightarrow> hit_plan \<Rightarrow> sim_fighter \<Rightarrow> sim_fighter
    \<Rightarrow> sim_fighter \<times> sim_fighter \<times> hit_log list" where
  "applyHit mode t hit atk def =
     (let amt = min (pl_amt hit) (purse (pl_tk hit) def)
      in if amt \<le> 1 / 100 then (atk, def, [])
         else
           let def1 = lose (pl_tk hit) amt def;
               atk1 = gain mode (pl_tk hit) amt atk;
               atk2 = atk1\<lparr>raided := raided atk1 + amt, dmgDealt := dmgDealt atk1 + amt,
                           bestHit := (if amt > bestHit atk1 then amt else bestHit atk1)\<rparr>;
               def2 = def1\<lparr>dmgTaken := dmgTaken def1 + amt\<rparr>
           in (atk2, def2, [\<lparr>h_t = t, h_atk = f_id atk, h_def = f_id def, h_amt = amt, h_tk = pl_tk hit\<rparr>]))"

definition bounce :: "rat \<Rightarrow> rat \<Rightarrow> rat \<Rightarrow> sim_fighter \<Rightarrow> sim_fighter \<Rightarrow> sim_fighter \<times> sim_fighter" where
  "bounce dx dy d a b =
     (let nx = dx / d; ny = dy / d; ov = (rad a + rad b - d) / 2;
          a1 = a\<lparr>pos_x := pos_x a - nx * ov, pos_y := pos_y a - ny * ov\<rparr>;
          b1 = b\<lparr>pos_x := pos_x b + nx * ov, pos_y := pos_y b + ny * ov\<rparr>;
          va = vel_x a1 * nx + vel_y a1 * ny; vb = vel_x b1 * nx + vel_y b1 * ny; diff = vb - va;
          a2 = a1\<lparr>vel_x := vel_x a1 + nx * diff, vel_y := vel_y a1 + ny * diff\<rparr>;
          b2 = b1\<lparr>vel_x := vel_x b1 - nx * diff, vel_y := vel_y b1 - ny * diff\<rparr>
      in (a2\<lparr>vel_x := vel_x a2 - nx * COMBAT_knock, vel_y := vel_y a2 - ny * COMBAT_knock\<rparr>,
          b2\<lparr>vel_x := vel_x b2 + nx * COMBAT_knock, vel_y := vel_y b2 + ny * COMBAT_knock\<rparr>))"

definition pair_key :: "sim_fighter \<Rightarrow> sim_fighter \<Rightarrow> string" where
  "pair_key a b = (if f_id a < f_id b then f_id a @ ''|'' @ f_id b else f_id b @ ''|'' @ f_id a)"

definition hit_cap :: "round_config \<Rightarrow> bool \<Rightarrow> rat \<Rightarrow> rat \<Rightarrow> sim_fighter \<Rightarrow> sim_fighter \<Rightarrow> rat" where
  "hit_cap c lateGame small duelBoost def atk =
     (if lateGame \<and> ring_value def < ring_value atk * FINISH_RATIO then ring_value def
      else min (ring_value def) (small * hitCapFrac c * duelBoost))"

definition bury :: "sim_fighter \<Rightarrow> sim_fighter" where
  "bury f = (if ring_value f \<le> dustFor f then f\<lparr>f_dead := True\<rparr> else f)"

text \<open>Both blows are planned on the fighters as the clash finds them, then applied.\<close>

definition strike :: "host \<Rightarrow> bool \<Rightarrow> rat \<Rightarrow> sim_state \<Rightarrow> sim_fighter \<Rightarrow> sim_fighter
    \<Rightarrow> sim_fighter \<times> sim_fighter \<times> hit_log list \<times> sfc" where
  "strike m duel ramp s a b =
     (let c = cfg s;
          base = cf_base c * min (multiplier c) 4 * (7 / 10 + 3 / 10 * ramp);
          gm = m_sqrt m (ring_value a * ring_value b) * base;
          small = min (ring_value a) (ring_value b);
          duelBoost = (if duel then 1 + 3 * (of_int (tick s) / of_int (steps s)) else 1);
          lateGame = of_int (tick s) > (of_int (steps s) * (1 / 2) :: rat);
          edgeA = (if ring_value a < ring_value b then SMALL_EDGE else 1);
          edgeB = (if ring_value b < ring_value a then SMALL_EDGE else 1);
          (rA, g1) = roll (rnd s);
          dAB = min (gm * rA * edgeA) (hit_cap c lateGame small duelBoost b a);
          (rB, g2) = roll g1;
          dBA = min (gm * rB * edgeB) (hit_cap c lateGame small duelBoost a b);
          hitOnB = planHit b dAB; hitOnA = planHit a dBA;
          (a1, b1, h1) = applyHit (cf_mode c) (tick s) hitOnB a b;
          (b2, a2, h2) = applyHit (cf_mode c) (tick s) hitOnA b1 a1
      in (bury a2, bury b2, h1 @ h2, g2))"

definition clash :: "host \<Rightarrow> bool \<Rightarrow> rat \<Rightarrow> nat \<times> nat \<Rightarrow> sim_state \<Rightarrow> sim_state" where
  "clash m duel ramp ij s =
     (let i = fst ij; j = snd ij; a = F s ! i; b = F s ! j in
      if f_dead a \<or> f_dead b then s
      else
        let dx = pos_x b - pos_x a; dy = pos_y b - pos_y a; d = m_hypot m dx dy in
        if d \<ge> rad a + rad b \<or> d \<le> 0 then s
        else
          let (a1, b1) = bounce dx dy d a b; s1 = s\<lparr>F := (F s)[i := a1, j := b1]\<rparr> in
          if f_side a1 = f_side b1 then s1
          else if wallet_of (f_id a1) = wallet_of (f_id b1) then s1
          else
            let key = pair_key a1 b1; nowMs = of_int (tick s) * tickMs (cfg s);
                since = nowMs - (case pairCd s key of None \<Rightarrow> - (10 ^ 9) | Some v \<Rightarrow> v) in
            if since < COMBAT_hitCd / ramp then s1
            else
              let (a2, b2, hs, g) = strike m duel ramp s1 a1 b1
              in s1\<lparr>F := (F s1)[i := a2, j := b2], rnd := g, hits := hits s1 @ hs,
                    pairCd := (pairCd s1)(key \<mapsto> nowMs)\<rparr>)"

subsection \<open>A tick, a round\<close>

fun pairs :: "nat list \<Rightarrow> (nat \<times> nat) list" where
  "pairs [] = []"
| "pairs (i # js) = map (Pair i) js @ pairs js"

definition alive_at :: "sim_state \<Rightarrow> nat list" where
  "alive_at s = filter (\<lambda>i. aliveF (F s ! i)) [0..<length (F s)]"

definition side_at :: "side \<Rightarrow> sim_state \<Rightarrow> nat list \<Rightarrow> nat list" where
  "side_at sd s A = filter (\<lambda>i. f_side (F s ! i) = sd) A"

definition stop_at :: "int \<Rightarrow> sim_state \<Rightarrow> sim_state" where
  "stop_at t s = s\<lparr>endTick := t, finished := True\<rparr>"

definition battle_tick :: "host \<Rightarrow> nat list \<Rightarrow> sim_state \<Rightarrow> sim_state" where
  "battle_tick m A s =
     (let dt = tickMs (cfg s) / 1000;
          ramp = 1 + 16 / 10 * (of_int (tick s) / of_int (steps s));
          duel = (length (side_at Bull s A) = 1 \<and> length (side_at Uwu s A) = 1);
          s1 = fold (move m ramp dt A) A s
      in fold (clash m duel ramp) (pairs A) s1)"

definition stepSim :: "host \<Rightarrow> sim_state \<Rightarrow> hit_log list \<times> sim_state" where
  "stepSim m s =
     (if finished s then ([], s)
      else
        let A = alive_at s in
        if side_at Bull s A = [] \<or> side_at Uwu s A = [] then ([], stop_at (tick s) s)
        else if tick s \<ge> steps s then ([], stop_at (steps s) s)
        else
          let s1 = battle_tick m A s;
              s2 = s1\<lparr>tick := tick s1 + 1\<rparr>
          in (drop (length (hits s)) (hits s2), if tick s2 \<ge> steps s2 then stop_at (steps s2) s2 else s2))"

text \<open>What a fighter holds of a coin, in the ring and banked, and what it takes home of it.\<close>

fun holds :: "side \<Rightarrow> sim_fighter \<Rightarrow> rat" where
  "holds Bull f = bull f + sBull f"
| "holds Uwu f = uwu f + sUwu f"

definition payout :: "side \<Rightarrow> sim_fighter \<Rightarrow> rat" where
  "payout sd f = holds sd f + (if f_side f = sd then unmatched f else 0)"

definition value_of :: "sim_fighter \<Rightarrow> rat" where
  "value_of f = ring_value f + sBull f + sUwu f"

definition finishSim :: "sim_state \<Rightarrow> round_result" where
  "finishSim s =
     (let bullV = sum_list (map value_of (filter (\<lambda>f. f_side f = Bull) (F s)));
          uwuV = sum_list (map value_of (filter (\<lambda>f. f_side f = Uwu) (F s)));
          st = fold (\<lambda>f acc. AList.update (f_id f) (payout Bull f, payout Uwu f) acc) (F s) []
      in \<lparr>rr_seedHash = [], rr_fighters = F s, rr_winner = (if bullV \<ge> uwuV then Bull else Uwu),
          rr_hits = hits s, rr_settlement = st, rr_endTick = endTick s\<rparr>)"

subsection \<open>What a tick leaves alone\<close>

definition frame :: "sim_state \<Rightarrow> int \<times> int \<times> round_config \<times> bool \<times> nat" where
  "frame s = (tick s, steps s, cfg s, finished s, length (F s))"

lemma move_frame: "frame (move m ramp dt A i s) = frame s"
  by (simp add: move_def frame_def Let_def case_prod_beta)

lemma clash_frame: "frame (clash m duel ramp ij s) = frame s"
  by (simp add: clash_def frame_def Let_def case_prod_beta)

lemma fold_keeps:
  assumes "\<And>x s. g (f x s) = g s"
  shows "g (fold f xs s) = g s"
  by (induction xs arbitrary: s) (simp_all add: assms)

lemma battle_tick_frame: "frame (battle_tick m A s) = frame s"
  unfolding battle_tick_def Let_def by (simp add: fold_keeps [of frame] move_frame clash_frame)

function run_sim :: "host \<Rightarrow> sim_state \<Rightarrow> sim_state" where
  "run_sim m s = (if finished s then s else run_sim m (snd (stepSim m s)))"
  by pat_completeness auto

lemma stepSim_progress:
  assumes "\<not> finished s"
  shows "finished (snd (stepSim m s)) \<or>
    tick (snd (stepSim m s)) = tick s + 1 \<and> steps (snd (stepSim m s)) = steps s \<and> tick s + 1 < steps s"
proof -
  have b: "tick (battle_tick m A s) = tick s" "steps (battle_tick m A s) = steps s" for A
    using battle_tick_frame [of m A s] by (simp_all add: frame_def)
  show ?thesis using assms by (simp add: stepSim_def Let_def stop_at_def b)
qed

termination run_sim
proof (relation "measure (\<lambda>(m, s). if finished s then 0 else Suc (nat (steps s - tick s)))", goal_cases)
  case 1
  then show ?case by simp
next
  case (2 m s)
  then show ?case using stepSim_progress [OF 2, of m] by auto
qed

declare run_sim.simps [simp del]

definition seedHash :: "host \<Rightarrow> string \<Rightarrow> string" where
  "seedHash m seed = sha256_hex m seed"

definition simulateRound :: "host \<Rightarrow> string \<Rightarrow> entry list \<Rightarrow> round_config \<Rightarrow> round_result" where
  "simulateRound m seed es c = (finishSim (run_sim m (createSim m seed es c)))\<lparr>rr_seedHash := seedHash m seed\<rparr>"

text \<open>The code compares the JSON texts of the settlements; an association list in insertion order has
  the same text exactly when it is the same list.\<close>

definition verifyRound :: "host \<Rightarrow> string \<Rightarrow> entry list \<Rightarrow> round_config \<Rightarrow> round_result \<Rightarrow> bool" where
  "verifyRound m seed es c claimed =
     (if seedHash m seed \<noteq> rr_seedHash claimed then False
      else
        let re = simulateRound m seed es c
        in rr_settlement re = rr_settlement claimed \<and> rr_winner re = rr_winner claimed)"

subsection \<open>Nothing is created or lost\<close>

definition tag :: "sim_fighter \<Rightarrow> string \<times> side \<times> rat \<times> rat" where
  "tag f = (f_id f, f_side f, deposited f, unmatched f)"

definition solid :: "sim_fighter \<Rightarrow> bool" where
  "solid f \<longleftrightarrow> 0 \<le> bull f \<and> 0 \<le> uwu f \<and> 0 \<le> sBull f \<and> 0 \<le> sUwu f"

definition coins :: "side \<Rightarrow> sim_state \<Rightarrow> rat" where
  "coins sd s = sum_list (map (holds sd) (F s))"

definition solvent :: "sim_state \<Rightarrow> bool" where
  "solvent s \<longleftrightarrow> list_all solid (F s)"

text \<open>Physics moves bodies only: whom a fighter belongs to and what it holds is untouched.\<close>

definition inner :: "sim_fighter \<Rightarrow> (string \<times> side \<times> rat \<times> rat) \<times> rat \<times> rat \<times> rat \<times> rat \<times> bool" where
  "inner f = (tag f, bull f, uwu f, sBull f, sUwu f, f_dead f)"

lemma inner_holds: "inner f = inner g \<Longrightarrow> holds sd f = holds sd g"
  by (cases sd) (auto simp: inner_def)

lemma inner_tag: "inner f = inner g \<Longrightarrow> tag f = tag g"
  by (simp add: inner_def)

lemma inner_solid: "inner f = inner g \<Longrightarrow> solid f = solid g"
  by (simp add: inner_def solid_def)

lemma inner_moves [simp]:
  "inner (p\<lparr>pos_x := x\<rparr>) = inner p" "inner (p\<lparr>pos_y := x\<rparr>) = inner p"
  "inner (p\<lparr>vel_x := x\<rparr>) = inner p" "inner (p\<lparr>vel_y := x\<rparr>) = inner p"
  "inner (p\<lparr>rad := x\<rparr>) = inner p"
  by (simp_all add: inner_def tag_def)

lemma inner_steer [simp]: "inner (steer m ramp dt tgt p) = inner p"
  by (simp add: steer_def Let_def split: option.split)

lemma inner_drift [simp]: "inner (drift m ramp dt wx wy p) = inner p"
  by (simp add: drift_def Let_def)

lemma inner_walls [simp]: "inner (walls p) = inner p"
  by (simp add: walls_def Let_def)

lemma inner_bounce [simp]:
  "inner (fst (bounce dx dy d a b)) = inner a" "inner (snd (bounce dx dy d a b)) = inner b"
  by (simp_all add: bounce_def Let_def)

lemma bury_facts [simp]: "tag (bury f) = tag f" "holds sd (bury f) = holds sd f" "solid (bury f) = solid f"
  by (cases sd; simp add: bury_def tag_def solid_def)+

lemma lose_facts:
  "holds sd (lose tk amt f) = holds sd f - (if sd = tk then amt else 0)"
  "tag (lose tk amt f) = tag f"
  "solid f \<Longrightarrow> amt \<le> purse tk f \<Longrightarrow> solid (lose tk amt f)"
  by (cases tk; cases sd; simp add: tag_def solid_def)+

lemma gain_facts:
  "holds sd (gain mode tk amt f) = holds sd f + (if sd = tk then amt else 0)"
  "tag (gain mode tk amt f) = tag f"
  "solid f \<Longrightarrow> 0 \<le> amt \<Longrightarrow> solid (gain mode tk amt f)"
  by (cases mode; cases tk; cases sd; simp add: tag_def solid_def)+

lemma score_facts [simp]:
  "holds sd (f\<lparr>raided := x, dmgDealt := y, bestHit := z\<rparr>) = holds sd f"
  "holds sd (f\<lparr>dmgTaken := x\<rparr>) = holds sd f"
  "tag (f\<lparr>raided := x, dmgDealt := y, bestHit := z\<rparr>) = tag f" "tag (f\<lparr>dmgTaken := x\<rparr>) = tag f"
  "solid (f\<lparr>raided := x, dmgDealt := y, bestHit := z\<rparr>) = solid f"
  "solid (f\<lparr>dmgTaken := x\<rparr>) = solid f"
  by (cases sd; simp add: tag_def solid_def)+

lemma applyHit_facts:
  assumes "applyHit mode t hit atk def = (atk', def', hs)"
  shows "holds sd atk' + holds sd def' = holds sd atk + holds sd def"
    and "tag atk' = tag atk" and "tag def' = tag def"
    and "solid atk \<Longrightarrow> solid def \<Longrightarrow> solid atk' \<and> solid def'"
proof -
  define amt where "amt = min (pl_amt hit) (purse (pl_tk hit) def)"
  have c: "atk' = atk \<and> def' = def \<or>
      (\<exists>x y z w. 0 \<le> amt \<and> atk' = (gain mode (pl_tk hit) amt atk)\<lparr>raided := x, dmgDealt := y, bestHit := z\<rparr> \<and>
         def' = (lose (pl_tk hit) amt def)\<lparr>dmgTaken := w\<rparr>)"
    using assms unfolding applyHit_def amt_def [symmetric] Let_def by (cases "amt \<le> 1 / 100") auto
  have le: "amt \<le> purse (pl_tk hit) def" by (simp add: amt_def)
  show "holds sd atk' + holds sd def' = holds sd atk + holds sd def" "tag atk' = tag atk" "tag def' = tag def"
    using c by (auto simp: lose_facts gain_facts)
  show "solid atk' \<and> solid def'" if "solid atk" "solid def"
    using c that le by (auto simp: lose_facts gain_facts)
qed

lemma strike_facts:
  assumes "strike m duel ramp s a b = (a', b', hs, g)"
  shows "holds sd a' + holds sd b' = holds sd a + holds sd b"
    and "tag a' = tag a" and "tag b' = tag b"
    and "solid a \<Longrightarrow> solid b \<Longrightarrow> solid a' \<and> solid b'"
proof -
  obtain hitOnB hitOnA a1 b1 h1 a2 b2 h2 where
    1: "applyHit (cf_mode (cfg s)) (tick s) hitOnB a b = (a1, b1, h1)" and
    2: "applyHit (cf_mode (cfg s)) (tick s) hitOnA b1 a1 = (b2, a2, h2)" and
    3: "a' = bury a2" "b' = bury b2"
    using assms unfolding strike_def Let_def
    by (auto split: prod.splits)
  show "holds sd a' + holds sd b' = holds sd a + holds sd b"
    using applyHit_facts(1) [OF 1, of sd] applyHit_facts(1) [OF 2, of sd] by (simp add: 3)
  show "tag a' = tag a" "tag b' = tag b"
    using applyHit_facts(2,3) [OF 1] applyHit_facts(2,3) [OF 2] by (simp_all add: 3)
  show "solid a' \<and> solid b'" if "solid a" "solid b"
    using applyHit_facts(4) [OF 1] applyHit_facts(4) [OF 2] that by (simp add: 3)
qed

text \<open>The contract of a part of a tick: it works on fighters of the list and leaves their identity, the
  totals of both coins and everybody's solvency as they were.\<close>

definition books :: "sim_state \<Rightarrow> (string \<times> side \<times> rat \<times> rat) list \<times> rat \<times> rat" where
  "books s = (map tag (F s), coins Bull s, coins Uwu s)"

lemma books_length: "books s = books s' \<Longrightarrow> length (F s) = length (F s')"
  unfolding books_def by (metis length_map prod.inject)

locale book_keeping =
  fixes part :: "'x \<Rightarrow> sim_state \<Rightarrow> sim_state"
    and valid :: "'x \<Rightarrow> nat \<Rightarrow> bool"
  assumes part_books: "valid x (length (F s)) \<Longrightarrow> books (part x s) = books s"
    and part_solvent: "valid x (length (F s)) \<Longrightarrow> solvent s \<Longrightarrow> solvent (part x s)"
begin

lemma fold_keeps_books:
  assumes "\<forall>x\<in>set xs. valid x (length (F s))"
  shows "books (fold part xs s) = books s \<and> (solvent s \<longrightarrow> solvent (fold part xs s))"
  using assms
proof (induction xs arbitrary: s)
  case (Cons x xs)
  then have b: "books (part x s) = books s" "solvent s \<longrightarrow> solvent (part x s)"
    using part_books part_solvent by auto
  have "\<forall>y\<in>set xs. valid y (length (F (part x s)))"
    using Cons.prems books_length [OF b(1)] by simp
  with Cons.IH [of "part x s"] b show ?case by simp
qed simp

end

lemma books_one:
  assumes "i < length (F s)" and "inner p = inner (F s ! i)"
  shows "books (s\<lparr>F := (F s)[i := p]\<rparr>) = books s"
    and "solvent s \<Longrightarrow> solvent (s\<lparr>F := (F s)[i := p]\<rparr>)"
proof -
  show "books (s\<lparr>F := (F s)[i := p]\<rparr>) = books s"
    using inner_tag [OF assms(2)] inner_holds [OF assms(2)]
    by (simp add: books_def coins_def map_update_same)
  show "solvent (s\<lparr>F := (F s)[i := p]\<rparr>)" if "solvent s"
    using that assms by (simp add: solvent_def list_all_update inner_solid list_all_nth_iff)
qed

lemma books_two:
  assumes "i < length (F s)" "j < length (F s)" "i \<noteq> j"
    and "tag a = tag (F s ! i)" "tag b = tag (F s ! j)"
    and "holds Bull a + holds Bull b = holds Bull (F s ! i) + holds Bull (F s ! j)"
    and "holds Uwu a + holds Uwu b = holds Uwu (F s ! i) + holds Uwu (F s ! j)"
  shows "books (s\<lparr>F := (F s)[i := a, j := b]\<rparr>) = books s"
proof -
  have "map tag ((F s)[i := a, j := b]) = map tag (F s)"
    using assms(3-5) by (simp add: map_update_same)
  moreover have "sum_list (map (holds sd) ((F s)[i := a, j := b])) = sum_list (map (holds sd) (F s))" for sd
    using assms(1-3) by (rule sum_list_update_pair) (use assms(6,7) in \<open>cases sd; simp only:\<close>)
  ultimately show ?thesis by (simp add: books_def coins_def)
qed

lemma open_books_cong [simp]:
  "books (s\<lparr>rnd := x\<rparr>) = books s" "books (s\<lparr>hits := y\<rparr>) = books s" "books (s\<lparr>pairCd := z\<rparr>) = books s"
  "books (s\<lparr>tick := t\<rparr>) = books s" "books (stop_at t s) = books s"
  "solvent (s\<lparr>rnd := x\<rparr>) = solvent s" "solvent (s\<lparr>hits := y\<rparr>) = solvent s"
  "solvent (s\<lparr>pairCd := z\<rparr>) = solvent s" "solvent (s\<lparr>tick := t\<rparr>) = solvent s"
  "solvent (stop_at t s) = solvent s"
  by (simp_all add: books_def coins_def solvent_def stop_at_def)

interpretation moving: book_keeping "move m ramp dt A" "\<lambda>i n. i < n" for m ramp dt A
proof (unfold_locales, goal_cases)
  case (1 i s)
  define p where "p = F (move m ramp dt A i s) ! i"
  have m: "move m ramp dt A i s = (s\<lparr>F := (F s)[i := p]\<rparr>)\<lparr>rnd := rnd (move m ramp dt A i s)\<rparr>"
    using 1 by (simp add: p_def move_def Let_def case_prod_beta)
  have "inner p = inner (F s ! i)"
    using 1 by (simp add: p_def move_def Let_def case_prod_beta)
  then show ?case by (subst m) (simp add: books_one 1)
next
  case (2 i s)
  define p where "p = F (move m ramp dt A i s) ! i"
  have m: "move m ramp dt A i s = (s\<lparr>F := (F s)[i := p]\<rparr>)\<lparr>rnd := rnd (move m ramp dt A i s)\<rparr>"
    using 2 by (simp add: p_def move_def Let_def case_prod_beta)
  have "inner p = inner (F s ! i)"
    using 2 by (simp add: p_def move_def Let_def case_prod_beta)
  then show ?case by (subst m) (simp add: books_one 2)
qed

text \<open>Whatever a clash does, it replaces the two fighters by two with the same identity that hold the
  same coins together.\<close>

definition same_pair :: "sim_fighter \<times> sim_fighter \<Rightarrow> sim_fighter \<times> sim_fighter \<Rightarrow> bool" where
  "same_pair p q \<longleftrightarrow>
     tag (fst q) = tag (fst p) \<and> tag (snd q) = tag (snd p) \<and>
     holds Bull (fst q) + holds Bull (snd q) = holds Bull (fst p) + holds Bull (snd p) \<and>
     holds Uwu (fst q) + holds Uwu (snd q) = holds Uwu (fst p) + holds Uwu (snd p) \<and>
     (solid (fst p) \<and> solid (snd p) \<longrightarrow> solid (fst q) \<and> solid (snd q))"

lemma bounce_same_pair: "same_pair (a, b) (bounce dx dy d a b)"
  using inner_bounce [of dx dy d a b, THEN inner_tag] inner_bounce [of dx dy d a b, THEN inner_solid]
    inner_bounce [of dx dy d a b, THEN inner_holds]
  by (simp add: same_pair_def del: holds.simps)

lemma strike_same_pair: "strike m duel ramp s a b = (a', b', hs, g) \<Longrightarrow> same_pair (a, b) (a', b')"
  using strike_facts [of m duel ramp s a b a' b' hs g] by (simp add: same_pair_def del: holds.simps)

lemma same_pair_trans: "same_pair p q \<Longrightarrow> same_pair q r \<Longrightarrow> same_pair p r"
  by (auto simp: same_pair_def)

lemma clash_cases:
  assumes "i \<noteq> j" "i < length (F s)" "j < length (F s)"
  shows "clash m duel ramp (i, j) s = s \<or>
    (\<exists>a' b' g hs pc. same_pair (F s ! i, F s ! j) (a', b') \<and>
       clash m duel ramp (i, j) s = s\<lparr>F := (F s)[i := a', j := b'], rnd := g, hits := hs, pairCd := pc\<rparr>)"
proof -
  define a b where "a = F s ! i" and "b = F s ! j"
  define dx dy d where "dx = pos_x b - pos_x a" and "dy = pos_y b - pos_y a" and "d = m_hypot m dx dy"
  obtain a1 b1 where ab: "bounce dx dy d a b = (a1, b1)" by fastforce
  define s1 where "s1 = s\<lparr>F := (F s)[i := a1, j := b1]\<rparr>"
  obtain a2 b2 hs g where st: "strike m duel ramp s1 a1 b1 = (a2, b2, hs, g)" by (metis prod_cases4)
  have p1: "same_pair (a, b) (a1, b1)" using bounce_same_pair [of a b dx dy d] ab by simp
  have p2: "same_pair (a, b) (a2, b2)" using same_pair_trans [OF p1 strike_same_pair [OF st]] .
  have swap: "(F s)[i := a1, j := b1, i := a2, j := b2] = (F s)[i := a2, j := b2]"
    using assms(1) by (simp add: list_update_swap)
  have e1: "s1 = s\<lparr>F := (F s)[i := a1, j := b1], rnd := rnd s, hits := hits s, pairCd := pairCd s\<rparr>"
    by (simp add: s1_def)
  have e2: "s1\<lparr>F := (F s1)[i := a2, j := b2], rnd := g, hits := hits s1 @ hs, pairCd := (pairCd s1)(k \<mapsto> v)\<rparr> =
      s\<lparr>F := (F s)[i := a2, j := b2], rnd := g, hits := hits s @ hs, pairCd := (pairCd s)(k \<mapsto> v)\<rparr>" for k v
    by (simp add: s1_def swap)
  have c: "clash m duel ramp (i, j) s \<in> {s, s1} \<or> (\<exists>k v. clash m duel ramp (i, j) s =
      s1\<lparr>F := (F s1)[i := a2, j := b2], rnd := g, hits := hits s1 @ hs, pairCd := (pairCd s1)(k \<mapsto> v)\<rparr>)"
    unfolding clash_def fst_conv snd_conv Let_def
    by (simp add: a_def [symmetric] b_def [symmetric] dx_def [symmetric] dy_def [symmetric] d_def [symmetric]
        ab s1_def [symmetric] st) blast
  then show ?thesis
    unfolding a_def [symmetric] b_def [symmetric] using p1 p2 e1 e2 by (metis insertE singletonD)
qed

interpretation clashing: book_keeping "clash m duel ramp"
    "\<lambda>ij n. fst ij \<noteq> snd ij \<and> fst ij < n \<and> snd ij < n" for m duel ramp
proof (unfold_locales, goal_cases)
  case (1 ij s)
  obtain i j where ij: "ij = (i, j)" by fastforce
  from clash_cases [of i j s m duel ramp] 1 show ?case
    unfolding ij same_pair_def fst_conv snd_conv
    by (auto simp del: holds.simps intro!: books_two)
next
  case (2 ij s)
  obtain i j where ij: "ij = (i, j)" by fastforce
  have "solid (F s ! i)" "solid (F s ! j)" using 2 ij by (auto simp: solvent_def list_all_length)
  with clash_cases [of i j s m duel ramp] 2 show ?case
    unfolding ij same_pair_def fst_conv snd_conv
    by (auto simp: solvent_def list_all_update)
qed

lemma pairs_distinct: "distinct A \<Longrightarrow> (i, j) \<in> set (pairs A) \<Longrightarrow> i \<noteq> j \<and> i \<in> set A \<and> j \<in> set A"
  by (induction A rule: pairs.induct) auto

lemma battle_tick_books:
  assumes "distinct A" and "\<forall>i\<in>set A. i < length (F s)"
  shows "books (battle_tick m A s) = books s \<and> (solvent s \<longrightarrow> solvent (battle_tick m A s))"
proof -
  let ?dt = "tickMs (cfg s) / 1000" and ?ramp = "1 + 16 / 10 * (of_int (tick s) / of_int (steps s)) :: rat"
  let ?s1 = "fold (move m ?ramp ?dt A) A s"
  have 1: "books ?s1 = books s \<and> (solvent s \<longrightarrow> solvent ?s1)"
    by (rule moving.fold_keeps_books) (rule assms(2))
  have "\<forall>ij\<in>set (pairs A). fst ij \<noteq> snd ij \<and> fst ij < length (F ?s1) \<and> snd ij < length (F ?s1)"
    using pairs_distinct [OF assms(1)] assms(2) books_length [OF conjunct1 [OF 1]] by fastforce
  from clashing.fold_keeps_books [OF this] 1 show ?thesis
    unfolding battle_tick_def Let_def by auto
qed

lemma alive_at_facts: "distinct (alive_at s) \<and> (\<forall>i\<in>set (alive_at s). i < length (F s))"
  by (simp add: alive_at_def)

lemma stepSim_books: "books (snd (stepSim m s)) = books s \<and> (solvent s \<longrightarrow> solvent (snd (stepSim m s)))"
  using battle_tick_books [of "alive_at s" s m] alive_at_facts [of s] by (simp add: stepSim_def Let_def)

lemma run_sim_books: "books (run_sim m s) = books s \<and> (solvent s \<longrightarrow> solvent (run_sim m s))"
proof (induction m s rule: run_sim.induct)
  case (1 m s)
  then show ?case using stepSim_books [of m s] by (subst (1 2) run_sim.simps) auto
qed

lemma run_sim_finished: "finished (run_sim m s)"
proof (induction m s rule: run_sim.induct)
  case (1 m s)
  then show ?case by (subst run_sim.simps) auto
qed

subsection \<open>The fighters a round starts with\<close>

definition enters_as :: "round_config \<Rightarrow> entry list \<Rightarrow> entry \<Rightarrow> sim_fighter \<Rightarrow> bool" where
  "enters_as c es e f \<longleftrightarrow>
     (let inPlay = e_stake e * inPlayFrac c es (e_side e)
      in tag f = (e_id e, e_side e, e_stake e, e_stake e - inPlay) \<and> \<not> f_dead f \<and> sBull f = 0 \<and> sUwu f = 0 \<and>
         bull f = (if e_side e = Bull then inPlay else 0) \<and> uwu f = (if e_side e = Uwu then inPlay else 0))"

lemma new_fighter_enters: "enters_as c es e (fst (new_fighter m c es e g))"
  by (simp add: new_fighter_def enters_as_def tag_def Let_def case_prod_beta)

lemma new_fighters_enter: "list_all2 (enters_as c es) rest (fst (new_fighters m c es rest g))"
  by (induction rest arbitrary: g) (auto simp: case_prod_beta Let_def new_fighter_enters)

lemma createSim_enters: "list_all2 (enters_as c es) es (F (createSim m seed es c))"
  using new_fighters_enter by (simp add: createSim_def case_prod_beta Let_def)

lemma createSim_fields:
  "tick (createSim m seed es c) = 0" "steps (createSim m seed es c) = \<lfloor>battleMs c / tickMs c\<rfloor>"
  "finished (createSim m seed es c) = False" "cfg (createSim m seed es c) = c"
  "endTick (createSim m seed es c) = \<lfloor>battleMs c / tickMs c\<rfloor>"
  by (simp_all add: createSim_def case_prod_beta Let_def)

lemma enters_total:
  assumes "list_all2 (enters_as c es) rest fs"
  shows "sum_list (map (payout sd) fs) = side_total sd rest" and "map f_id fs = map e_id rest"
  using assms
  by (induction rest fs rule: list_all2_induct)
    (cases sd; auto simp: enters_as_def Let_def payout_def tag_def)+

text \<open>What a fighter takes home in coin \<open>sd\<close> depends on its holdings and its tag.\<close>

definition refund :: "side \<Rightarrow> string \<times> side \<times> rat \<times> rat \<Rightarrow> rat" where
  "refund sd t = (case t of (i, s, d, u) \<Rightarrow> if s = sd then u else 0)"

lemma payout_sum: "sum_list (map (payout sd) (F s)) = coins sd s + sum_list (map (refund sd) (map tag (F s)))"
  unfolding coins_def payout_def by (simp add: refund_def tag_def sum_list_addf o_def)

lemma books_payout: "books s = books s' \<Longrightarrow> sum_list (map (payout sd) (F s)) = sum_list (map (payout sd) (F s'))"
  unfolding payout_sum by (cases sd) (simp_all add: books_def)

lemma books_ids: "books s = books s' \<Longrightarrow> map f_id (F s) = map f_id (F s')"
proof -
  assume "books s = books s'"
  then have "map tag (F s) = map tag (F s')" by (simp add: books_def)
  then have "map fst (map tag (F s)) = map fst (map tag (F s'))" by (rule arg_cong)
  then show ?thesis by (simp add: tag_def o_def)
qed

lemma update_absent: "k \<notin> fst ` set al \<Longrightarrow> AList.update k v al = al @ [(k, v)]"
  by (induction al) auto

lemma fold_update_distinct:
  assumes "distinct (map k xs)" and "\<forall>x\<in>set xs. k x \<notin> fst ` set acc"
  shows "fold (\<lambda>x. AList.update (k x) (v x)) xs acc = acc @ map (\<lambda>x. (k x, v x)) xs"
  using assms
proof (induction xs arbitrary: acc)
  case (Cons x xs)
  have new: "AList.update (k x) (v x) acc = acc @ [(k x, v x)]"
    using Cons.prems(2) by (simp add: update_absent)
  have "fold (\<lambda>x. AList.update (k x) (v x)) xs (acc @ [(k x, v x)]) =
      (acc @ [(k x, v x)]) @ map (\<lambda>x. (k x, v x)) xs"
    using Cons.prems by (intro Cons.IH) (auto simp: image_iff)
  then show ?case by (simp add: new)
qed simp

lemma settlement_of:
  assumes "distinct (map e_id es)"
  shows "rr_settlement (simulateRound m seed es c) =
    map (\<lambda>f. (f_id f, payout Bull f, payout Uwu f)) (F (run_sim m (createSim m seed es c)))"
    and "map f_id (F (run_sim m (createSim m seed es c))) = map e_id es"
proof -
  let ?s = "run_sim m (createSim m seed es c)"
  have "books ?s = books (createSim m seed es c)" by (simp add: run_sim_books)
  then show i: "map f_id (F ?s) = map e_id es"
    using books_ids enters_total(2) [OF createSim_enters] by metis
  then have "distinct (map f_id (F ?s))" using assms by simp
  then show "rr_settlement (simulateRound m seed es c) =
    map (\<lambda>f. (f_id f, payout Bull f, payout Uwu f)) (F ?s)"
    by (simp add: simulateRound_def finishSim_def Let_def fold_update_distinct)
qed

definition bull_total :: "settlement \<Rightarrow> rat" where
  "bull_total st = sum_list (map (\<lambda>(i, b, u). b) st)"

definition uwu_total :: "settlement \<Rightarrow> rat" where
  "uwu_total st = sum_list (map (\<lambda>(i, b, u). u) st)"

lemma engine_settled_coins:
  assumes "distinct (map e_id es)" and "tickMs c \<noteq> 0"
  shows "map fst (rr_settlement (simulateRound m seed es c)) = map e_id es"
    and "bull_total (rr_settlement (simulateRound m seed es c)) = side_total Bull es"
    and "uwu_total (rr_settlement (simulateRound m seed es c)) = side_total Uwu es"
proof -
  let ?init = "createSim m seed es c"
  have b: "books (run_sim m ?init) = books ?init" by (simp add: run_sim_books)
  have t: "sum_list (map (payout sd) (F (run_sim m ?init))) = side_total sd es" for sd
    using books_payout [OF b, of sd] enters_total(1) [OF createSim_enters, of sd m seed es c] by simp
  show "map fst (rr_settlement (simulateRound m seed es c)) = map e_id es"
    "bull_total (rr_settlement (simulateRound m seed es c)) = side_total Bull es"
    "uwu_total (rr_settlement (simulateRound m seed es c)) = side_total Uwu es"
    using settlement_of [OF assms(1), of m seed c] t [of Bull] t [of Uwu]
    by (simp_all add: bull_total_def uwu_total_def o_def)
qed

text \<open>C4: A round of the engine settles every coin exactly. Whatever the seed, the mode, the multiplier and the
  fight, the settlement names the entries in their order and pays out of each coin precisely what was
  staked in it. The entries' ids are distinct, as the server's are, and the tick length is not zero.\<close>

theorem engine_settles_every_coin:
  assumes "distinct (map e_id es)" and "tickMs c \<noteq> 0"
  shows "map fst (rr_settlement (simulateRound m seed es c)) = map e_id es \<and>
    bull_total (rr_settlement (simulateRound m seed es c)) = side_total Bull es \<and>
    uwu_total (rr_settlement (simulateRound m seed es c)) = side_total Uwu es"
  using engine_settled_coins [OF assms] by blast

definition still_host :: host where
  "still_host = \<lparr>m_sqrt = (\<lambda>q. q), m_hypot = (\<lambda>x y. \<bar>x\<bar> + \<bar>y\<bar>), sha256_hex = (\<lambda>s. s)\<rparr>"

definition demo_entries :: "entry list" where
  "demo_entries =
     [\<lparr>e_id = ''a|bull'', e_side = Bull, e_stake = 100\<rparr>, \<lparr>e_id = ''b|uwu'', e_side = Uwu, e_stake = 40\<rparr>,
      \<lparr>e_id = ''c|uwu'', e_side = Uwu, e_stake = 20\<rparr>]"

definition demo_config :: round_config where
  "demo_config = \<lparr>cf_mode = Normal, multiplier = 2, cf_base = 85 / 1000, hitCapFrac = 1 / 4,
     battleMs = 40000, tickMs = 50, cf_dust = 12 / 10, matchTol = None\<rparr>"

theorem engine_settles_every_coin_witness:
  "bull_total (rr_settlement (simulateRound still_host ''seed'' demo_entries demo_config)) = 100 \<and>
   uwu_total (rr_settlement (simulateRound still_host ''seed'' demo_entries demo_config)) = 60"
  using engine_settles_every_coin [of demo_entries demo_config still_host "''seed''"]
  by (simp add: demo_entries_def demo_config_def)

subsection \<open>The matched book\<close>

text \<open>What a side has at risk when the round starts.\<close>

definition at_risk :: "side \<Rightarrow> sim_state \<Rightarrow> rat" where
  "at_risk sd s = sum_list (map ring_value (filter (\<lambda>f. f_side f = sd) (F s)))"

definition tolerance :: "round_config \<Rightarrow> rat" where
  "tolerance c = (case matchTol c of None \<Rightarrow> 0 | Some q \<Rightarrow> q)"

lemma enters_ring: "enters_as c es e f \<Longrightarrow> ring_value f = e_stake e * inPlayFrac c es (e_side e) \<and> f_side f = e_side e"
  by (cases "e_side e") (auto simp: enters_as_def Let_def tag_def ring_value_def)

lemma enters_at_risk:
  assumes "list_all2 (enters_as c es) rest fs"
  shows "sum_list (map ring_value (filter (\<lambda>f. f_side f = sd) fs)) = side_total sd rest * inPlayFrac c es sd"
  using assms
  by (induction rest fs rule: list_all2_induct) (auto simp: enters_ring algebra_simps)

lemma side_total_nonneg: "\<forall>e\<in>set es. 0 \<le> e_stake e \<Longrightarrow> 0 \<le> side_total sd es"
  by (induction es) auto

lemma side_total_zero:
  "\<forall>e\<in>set es. 0 \<le> e_stake e \<Longrightarrow> side_total sd es = 0 \<Longrightarrow> \<forall>e\<in>set es. e_side e = sd \<longrightarrow> e_stake e = 0"
  by (induction es) (auto simp: add_nonneg_eq_0_iff side_total_nonneg)

lemma inPlayFrac_range:
  assumes "\<forall>e\<in>set es. 0 \<le> e_stake e" and "0 \<le> tolerance c"
  shows "0 \<le> inPlayFrac c es sd \<and> inPlayFrac c es sd \<le> 1"
  using assms side_total_nonneg [OF assms(1)]
  by (auto simp: inPlayFrac_def capFor2_def tolerance_def min_def)

text \<open>C5: The book is matched before the first blow. With a tolerance \<open>tol\<close> a side has at risk
  exactly the lesser of what it staked and what the other side staked times \<open>1 + tol\<close>; in the strict
  book of the arenas (no tolerance) two sides that both staked therefore meet with equal sums.\<close>

theorem book_is_matched:
  assumes "\<forall>e\<in>set es. 0 \<le> e_stake e" and "0 \<le> tolerance c"
  shows "at_risk sd (createSim m seed es c) =
      min (side_total sd es) (side_total (other_side sd) es * (1 + tolerance c)) \<and>
    (tolerance c = 0 \<longrightarrow> at_risk Bull (createSim m seed es c) = at_risk Uwu (createSim m seed es c))"
proof -
  have r: "at_risk x (createSim m seed es c) =
      min (side_total x es) (side_total (other_side x) es * (1 + tolerance c))" for x
  proof (cases "0 < side_total x es")
    case True
    have "side_total x es * min 1 (q / side_total x es) = min (side_total x es) q" for q
      using True by (auto simp: min_def field_simps)
    then show ?thesis
      using True enters_at_risk [OF createSim_enters, of x m seed es c]
      by (simp add: at_risk_def inPlayFrac_def capFor2_def tolerance_def)
  next
    case False
    then have "side_total x es = 0" using side_total_nonneg [OF assms(1), of x] by simp
    moreover have "0 \<le> side_total (other_side x) es * (1 + tolerance c)"
      using side_total_nonneg [OF assms(1)] assms(2) by simp
    ultimately show ?thesis
      using enters_at_risk [OF createSim_enters, of x m seed es c] by (simp add: at_risk_def)
  qed
  show ?thesis using r [of sd] r [of Bull] r [of Uwu] by (auto simp: min.commute)
qed

theorem book_is_matched_witness:
  "at_risk Bull (createSim still_host ''seed'' demo_entries demo_config) = 60 \<and>
   at_risk Uwu (createSim still_host ''seed'' demo_entries demo_config) = 60"
proof -
  have "at_risk Bull (createSim still_host ''seed'' demo_entries demo_config) = 60"
    using book_is_matched [of demo_entries demo_config Bull still_host "''seed''"]
    by (simp add: demo_entries_def demo_config_def tolerance_def)
  moreover have "at_risk Uwu (createSim still_host ''seed'' demo_entries demo_config) = 60"
    using book_is_matched [of demo_entries demo_config Uwu still_host "''seed''"]
    by (simp add: demo_entries_def demo_config_def tolerance_def)
  ultimately show ?thesis by simp
qed

subsection \<open>Nobody owes anything\<close>

lemma createSim_solvent:
  assumes "\<forall>e\<in>set es. 0 \<le> e_stake e" and "0 \<le> tolerance c"
  shows "solvent (createSim m seed es c)"
proof -
  have "solid f" if "e \<in> set es" and "enters_as c es e f" for e f
    using that assms(1) inPlayFrac_range [OF assms] by (auto simp: enters_as_def Let_def solid_def)
  then show ?thesis
    unfolding solvent_def list_all_iff by (blast dest: list_all2_partner [OF createSim_enters])
qed

lemma createSim_refunds:
  assumes "\<forall>e\<in>set es. 0 \<le> e_stake e" and "0 \<le> tolerance c"
  shows "list_all2 (\<lambda>e t. snd (snd (snd t)) = e_stake e * (1 - inPlayFrac c es (e_side e)) \<and>
      fst (snd t) = e_side e \<and> fst t = e_id e) es (map tag (F (createSim m seed es c)))"
proof -
  have "enters_as c es e f \<Longrightarrow> snd (snd (snd (tag f))) = e_stake e * (1 - inPlayFrac c es (e_side e)) \<and>
      fst (snd (tag f)) = e_side e \<and> fst (tag f) = e_id e" for e f
    by (simp add: enters_as_def Let_def algebra_simps)
  then show ?thesis
    unfolding list.rel_map using createSim_enters [of c es m seed] by (rule list_all2_mono [rotated])
qed

text \<open>C6: The fight can cost a player no more than was at risk. Every payout is at least zero in both
  coins, and in the coin it was staked in each entry gets at least the part of its stake the book did
  not match.\<close>

theorem loss_is_bounded_by_the_match:
  assumes "\<forall>e\<in>set es. 0 \<le> e_stake e" and "0 \<le> tolerance c" and "distinct (map e_id es)"
    and "tickMs c \<noteq> 0"
  shows "list_all2 (\<lambda>e (i, b, u). i = e_id e \<and> 0 \<le> b \<and> 0 \<le> u \<and>
      e_stake e * (1 - inPlayFrac c es (e_side e)) \<le> (if e_side e = Bull then b else u))
    es (rr_settlement (simulateRound m seed es c))"
proof -
  let ?init = "createSim m seed es c" and ?last = "run_sim m (createSim m seed es c)"
  have t: "map tag (F ?last) = map tag (F ?init)" using run_sim_books [of m ?init] by (simp add: books_def)
  have "solvent ?last" using run_sim_books [of m ?init] createSim_solvent [OF assms(1,2)] by simp
  then have sol: "\<forall>f\<in>set (F ?last). solid f" by (simp add: solvent_def list_all_iff)
  have r: "list_all2 (\<lambda>e f. unmatched f = e_stake e * (1 - inPlayFrac c es (e_side e)) \<and>
      f_side f = e_side e \<and> f_id f = e_id e) es (F ?last)"
    using createSim_refunds [OF assms(1,2), of m seed] unfolding t [symmetric]
    by (simp add: list.rel_map tag_def)
  have ge: "0 \<le> e_stake e * (1 - inPlayFrac c es (e_side e))" if "e \<in> set es" for e
    using assms(1) that inPlayFrac_range [OF assms(1,2)] by simp
  show ?thesis
    unfolding settlement_of(1) [OF assms(3)] list.rel_map
  proof (rule list.rel_mono_strong [OF r], goal_cases)
    case (1 e f)
    then have "solid f" "0 \<le> e_stake e * (1 - inPlayFrac c es (e_side e))" using ge sol by auto
    with 1 show ?case by (cases "e_side e") (auto simp: payout_def solid_def)
  qed
qed

theorem loss_is_bounded_by_the_match_witness:
  "0 \<le> fst (snd (rr_settlement (simulateRound still_host ''seed'' demo_entries demo_config) ! 0)) - 40"
proof -
  have "inPlayFrac demo_config demo_entries Bull = 6 / 10"
    by (simp add: inPlayFrac_def capFor2_def demo_entries_def demo_config_def)
  with loss_is_bounded_by_the_match [of demo_entries demo_config still_host "''seed''"] show ?thesis
    by (auto simp: demo_entries_def demo_config_def tolerance_def list_all2_Cons1)
qed

subsection \<open>A round nobody opposes\<close>

lemma enters_payout:
  assumes "enters_as c es e f" and "e_stake e * inPlayFrac c es (e_side e) = 0"
  shows "payout Bull f = (if e_side e = Bull then e_stake e else 0) \<and>
    payout Uwu f = (if e_side e = Uwu then e_stake e else 0) \<and> f_id f = e_id e \<and> ring_value f = 0"
  using assms by (cases "e_side e") (auto simp: enters_as_def Let_def payout_def tag_def ring_value_def)

lemma no_ring_no_fight:
  assumes "\<forall>f\<in>set (F s). ring_value f = 0" and "\<not> finished s"
  shows "run_sim m s = stop_at (tick s) s"
proof -
  have "alive_at s = []"
    using assms(1) by (auto simp: alive_at_def aliveF_def dustFor_def filter_empty_conv)
  then have "snd (stepSim m s) = stop_at (tick s) s"
    using assms(2) by (simp add: stepSim_def side_at_def)
  then show ?thesis
    using assms(2) by (subst run_sim.simps) (simp add: run_sim.simps stop_at_def)
qed

text \<open>Stakes nobody matched come back untouched. When the other side staked nothing the settlement
  returns every entry exactly its stake, in its own coin.\<close>

theorem unopposed_stakes_come_back:
  assumes "\<forall>e\<in>set es. 0 \<le> e_stake e" and "distinct (map e_id es)" and "tickMs c \<noteq> 0"
    and "side_total (other_side sd) es = 0"
  shows "rr_settlement (simulateRound m seed es c) =
    map (\<lambda>e. (e_id e, if e_side e = Bull then e_stake e else 0, if e_side e = Uwu then e_stake e else 0)) es"
proof -
  let ?init = "createSim m seed es c"
  have idle: "e_stake e * inPlayFrac c es (e_side e) = 0" if "e \<in> set es" for e
  proof (cases "e_side e = sd")
    case True
    then show ?thesis
      using assms(4) side_total_zero [OF assms(1), of sd] side_total_nonneg [OF assms(1), of sd] that
      by (auto simp: inPlayFrac_def capFor2_def)
  next
    case False
    then have "e_side e = other_side sd" by (cases sd; cases "e_side e") auto
    then show ?thesis using side_total_zero [OF assms(1,4)] that by simp
  qed
  have a: "list_all2 (\<lambda>e f. payout Bull f = (if e_side e = Bull then e_stake e else 0) \<and>
      payout Uwu f = (if e_side e = Uwu then e_stake e else 0) \<and> f_id f = e_id e \<and> ring_value f = 0) es (F ?init)"
    by (rule list.rel_mono_strong [OF createSim_enters]) (use idle enters_payout in blast)
  have "\<forall>f\<in>set (F ?init). ring_value f = 0" using list_all2_partner [OF a] by blast
  then have "F (run_sim m ?init) = F ?init"
    using no_ring_no_fight [of ?init m] by (simp add: createSim_fields stop_at_def)
  moreover have "list_all2 (=)
      (map (\<lambda>e. (e_id e, if e_side e = Bull then e_stake e else 0, if e_side e = Uwu then e_stake e else 0)) es)
      (map (\<lambda>f. (f_id f, payout Bull f, payout Uwu f)) (F ?init))"
    unfolding list.rel_map by (rule list.rel_mono_strong [OF a]) simp
  ultimately show ?thesis
    unfolding settlement_of(1) [OF assms(2)] by (simp add: list.rel_eq)
qed

theorem unopposed_stakes_come_back_witness:
  "rr_settlement (simulateRound still_host ''seed'' (tl demo_entries) demo_config) =
   [(''b|uwu'', 0, 40), (''c|uwu'', 0, 20)]"
  using unopposed_stakes_come_back [of "tl demo_entries" demo_config Uwu still_host "''seed''"]
  by (simp add: demo_entries_def demo_config_def)

subsection \<open>Blows of a clash do not see each other\<close>

lemma gain_purse: "0 \<le> amt \<Longrightarrow> purse k f \<le> purse k (gain mode tk amt f)"
  by (cases mode; cases tk; cases k; simp)

lemma purse_score [simp]:
  "purse k (f\<lparr>raided := x, dmgDealt := y, bestHit := z\<rparr>) = purse k f"
  by (cases k) simp_all

lemma applyHit_planned:
  assumes "planHit def x = p"
  shows "applyHit mode t p atk def =
    (if pl_amt p \<le> 1 / 100 then (atk, def, [])
     else ((gain mode (pl_tk p) (pl_amt p) atk)\<lparr>raided := raided (gain mode (pl_tk p) (pl_amt p) atk) + pl_amt p,
              dmgDealt := dmgDealt (gain mode (pl_tk p) (pl_amt p) atk) + pl_amt p,
              bestHit := max (bestHit (gain mode (pl_tk p) (pl_amt p) atk)) (pl_amt p)\<rparr>,
           (lose (pl_tk p) (pl_amt p) def)\<lparr>dmgTaken := dmgTaken (lose (pl_tk p) (pl_amt p) def) + pl_amt p\<rparr>,
           [\<lparr>h_t = t, h_atk = f_id atk, h_def = f_id def, h_amt = pl_amt p, h_tk = pl_tk p\<rparr>]))"
proof -
  have "pl_amt p \<le> purse (pl_tk p) def" using assms by (auto simp: planHit_def Let_def)
  then show ?thesis by (auto simp: applyHit_def Let_def max_def min_absorb1)
qed

lemma applyHit_small: "pl_amt p \<le> 1 / 100 \<Longrightarrow> applyHit mode t p atk def = (atk, def, [])"
  by (simp add: applyHit_def Let_def min_def)

lemma gain_scores:
  "raided (gain mode k x f) = raided f" "dmgDealt (gain mode k x f) = dmgDealt f"
  "bestHit (gain mode k x f) = bestHit f" "dmgTaken (gain mode k x f) = dmgTaken f"
  "f_id (gain mode k x f) = f_id f"
  by (cases mode; cases k; simp)+

lemma lose_scores:
  "raided (lose k x f) = raided f" "dmgDealt (lose k x f) = dmgDealt f"
  "bestHit (lose k x f) = bestHit f" "dmgTaken (lose k x f) = dmgTaken f" "f_id (lose k x f) = f_id f"
  by (cases k; simp)+

lemma gain_lose_swap: "gain mode j x (lose k y f) = lose k y (gain mode j x f)"
  by (cases mode; cases j; cases k; simp)

lemma score_swap:
  "lose k x (f\<lparr>raided := u, dmgDealt := v, bestHit := w\<rparr>) = (lose k x f)\<lparr>raided := u, dmgDealt := v, bestHit := w\<rparr>"
  "gain mode k x (f\<lparr>dmgTaken := u\<rparr>) = (gain mode k x f)\<lparr>dmgTaken := u\<rparr>"
  by (cases mode; cases k; simp)+

lemma planned_blows_commute:
  "let onB = planHit b x; onA = planHit a y;
       (a1, b1, h1) = applyHit mode t onB a b; (b2, a2, h2) = applyHit mode t onA b1 a1;
       (b3, a3, h3) = applyHit mode t onA b a; (a4, b4, h4) = applyHit mode t onB a3 b3
   in a4 = a2 \<and> b4 = b2 \<and> h4 = h1 \<and> h3 = h2"
proof -
  define onB onA where "onB = planHit b x" and "onA = planHit a y"
  have second: "min (pl_amt p) (purse (pl_tk p) (gain mode k z f)) = pl_amt p"
    if "planHit f w = p" "0 \<le> z" for f w p k z
    using that gain_purse [of z "pl_tk p" f mode k] by (auto simp: planHit_def Let_def min_def)
  note first = applyHit_planned [OF onB_def [symmetric], of mode t a]
    applyHit_planned [OF onA_def [symmetric], of mode t b]
  show ?thesis
    unfolding onB_def [symmetric] onA_def [symmetric] Let_def
  proof (cases "pl_amt onB \<le> 1 / 100"; cases "pl_amt onA \<le> 1 / 100")
    assume "\<not> pl_amt onB \<le> 1 / 100" "\<not> pl_amt onA \<le> 1 / 100"
    then show "case applyHit mode t onB a b of (a1, b1, h1) \<Rightarrow> case applyHit mode t onA b1 a1 of (b2, a2, h2) \<Rightarrow>
        case applyHit mode t onA b a of (b3, a3, h3) \<Rightarrow> case applyHit mode t onB a3 b3 of (a4, b4, h4) \<Rightarrow>
          a4 = a2 \<and> b4 = b2 \<and> h4 = h1 \<and> h3 = h2"
      using second [OF onA_def [symmetric], of "pl_amt onB" "pl_tk onB"]
        second [OF onB_def [symmetric], of "pl_amt onA" "pl_tk onA"]
      by (simp add: first) (simp add: applyHit_def Let_def gain_scores lose_scores gain_lose_swap score_swap max_def)
  qed (simp_all add: first applyHit_small)
qed

text \<open>The reference: what a clash would be if the blow of \<open>b\<close> landed first. The draws and the
  strengths are those of \<open>strike\<close>; the log keeps the order of the code.\<close>

definition strike_from_b :: "host \<Rightarrow> bool \<Rightarrow> rat \<Rightarrow> sim_state \<Rightarrow> sim_fighter \<Rightarrow> sim_fighter
    \<Rightarrow> sim_fighter \<times> sim_fighter \<times> hit_log list \<times> sfc" where
  "strike_from_b m duel ramp s a b =
     (let c = cfg s;
          gm = m_sqrt m (ring_value a * ring_value b) * (cf_base c * min (multiplier c) 4 * (7 / 10 + 3 / 10 * ramp));
          small = min (ring_value a) (ring_value b);
          duelBoost = (if duel then 1 + 3 * (of_int (tick s) / of_int (steps s)) else 1);
          lateGame = of_int (tick s) > (of_int (steps s) * (1 / 2) :: rat);
          (rA, g1) = roll (rnd s);
          (rB, g2) = roll g1;
          strengthA = min (gm * rA * (if ring_value a < ring_value b then SMALL_EDGE else 1))
            (hit_cap c lateGame small duelBoost b a);
          strengthB = min (gm * rB * (if ring_value b < ring_value a then SMALL_EDGE else 1))
            (hit_cap c lateGame small duelBoost a b);
          (b1, a1, hB) = applyHit (cf_mode c) (tick s) (planHit a strengthB) b a;
          (a2, b2, hA) = applyHit (cf_mode c) (tick s) (planHit b strengthA) a1 b1
      in (bury a2, bury b2, hA @ hB, g2))"

text \<open>C7: A clash is resolved atomically: it gives neither fighter the first blow. What \<open>strike\<close> makes of
  two fighters, what it logs and what it leaves of the random stream is exactly what comes out when the
  same two strengths are drawn and the other fighter's blow lands first, each blow taken from the
  defender as it stood when the two met.\<close>

theorem clash_is_atomic: "strike m duel ramp s a b = strike_from_b m duel ramp s a b"
proof -
  have swap: "(case applyHit mode t (planHit b x) a b of (a1, b1, h1) \<Rightarrow>
        case applyHit mode t (planHit a y) b1 a1 of (b2, a2, h2) \<Rightarrow> (bury a2, bury b2, h1 @ h2, g)) =
      (case applyHit mode t (planHit a y) b a of (b1, a1, h1) \<Rightarrow>
        case applyHit mode t (planHit b x) a1 b1 of (a2, b2, h2) \<Rightarrow> (bury a2, bury b2, h2 @ h1, g))"
    for mode t x y and g :: sfc
    using planned_blows_commute [of b x a y mode t] by (auto simp: Let_def split: prod.splits)
  show ?thesis
    unfolding strike_def strike_from_b_def Let_def
    by (cases "roll (rnd s)"; cases "roll (snd (roll (rnd s)))") (simp add: swap)
qed

subsection \<open>The loop ends\<close>

lemma run_sim_ticks:
  "\<exists>n \<le> nat (steps s - tick s) + 1. run_sim m s = ((\<lambda>u. snd (stepSim m u)) ^^ n) s"
proof (induction m s rule: run_sim.induct)
  case (1 m s)
  show ?case
  proof (cases "finished s")
    case True
    then show ?thesis by (intro exI [of _ 0]) (simp add: run_sim.simps)
  next
    case False
    let ?u = "snd (stepSim m s)"
    have r: "run_sim m s = run_sim m ?u" using False by (subst run_sim.simps) simp
    show ?thesis
    proof (cases "finished ?u")
      case True
      then show ?thesis
        by (intro exI [of _ 1]) (simp add: r run_sim.simps [of m ?u])
    next
      case nf: False
      then have p: "steps ?u = steps s" "tick ?u = tick s + 1" "tick s + 1 < steps s"
        using stepSim_progress [OF False, of m] by auto
      obtain n where n: "n \<le> nat (steps ?u - tick ?u) + 1" "run_sim m ?u = ((\<lambda>u. snd (stepSim m u)) ^^ n) ?u"
        using "1.IH" [OF False] by blast
      have "Suc n \<le> nat (steps s - tick s) + 1" using n(1) p by simp
      moreover have "run_sim m s = ((\<lambda>u. snd (stepSim m u)) ^^ Suc n) s"
        using n(2) r by (simp add: funpow_Suc_right del: funpow.simps)
      ultimately show ?thesis by blast
    qed
  qed
qed

definition clock_ok :: "sim_state \<Rightarrow> bool" where
  "clock_ok s \<longleftrightarrow> 0 \<le> tick s \<and> tick s \<le> max 0 (steps s) \<and> (finished s \<longrightarrow> endTick s \<le> max 0 (steps s)) \<and>
     (finished s \<longrightarrow> min 0 (steps s) \<le> endTick s)"

lemma stepSim_clock: "clock_ok s \<Longrightarrow> clock_ok (snd (stepSim m s)) \<and> steps (snd (stepSim m s)) = steps s"
proof -
  assume c: "clock_ok s"
  have b: "tick (battle_tick m A s) = tick s" "steps (battle_tick m A s) = steps s"
    "finished (battle_tick m A s) = finished s" for A
    using battle_tick_frame [of m A s] by (simp_all add: frame_def)
  show ?thesis using c by (auto simp: stepSim_def Let_def stop_at_def clock_ok_def b)
qed

lemma run_sim_clock: "clock_ok s \<Longrightarrow> clock_ok (run_sim m s) \<and> steps (run_sim m s) = steps s"
proof (induction m s rule: run_sim.induct)
  case (1 m s)
  then show ?case using stepSim_clock [of s m] by (subst (1 2) run_sim.simps) auto
qed

text \<open>C8: A round always ends. With a positive tick length the loop of \<open>simulateRound\<close> stops
  after at most one call of \<open>stepSim\<close> more than the battle has ticks, whatever the fighters do,
  and the tick the result names lies within the battle.\<close>

theorem engine_round_ends:
  assumes "0 < tickMs c" and "0 \<le> battleMs c"
  shows "(\<exists>n \<le> nat \<lfloor>battleMs c / tickMs c\<rfloor> + 1.
       finished (((\<lambda>u. snd (stepSim m u)) ^^ n) (createSim m seed es c)) \<and>
       run_sim m (createSim m seed es c) = ((\<lambda>u. snd (stepSim m u)) ^^ n) (createSim m seed es c)) \<and>
    0 \<le> rr_endTick (simulateRound m seed es c) \<and>
    rr_endTick (simulateRound m seed es c) \<le> \<lfloor>battleMs c / tickMs c\<rfloor>"
proof -
  let ?init = "createSim m seed es c"
  have nn: "0 \<le> \<lfloor>battleMs c / tickMs c\<rfloor>" using assms by simp
  have "clock_ok ?init" by (simp add: clock_ok_def createSim_fields)
  then have k: "clock_ok (run_sim m ?init) \<and> steps (run_sim m ?init) = \<lfloor>battleMs c / tickMs c\<rfloor>"
    using run_sim_clock by (auto simp: createSim_fields)
  have e: "rr_endTick (simulateRound m seed es c) = endTick (run_sim m ?init)"
    by (simp add: simulateRound_def finishSim_def Let_def)
  obtain n where n: "n \<le> nat (steps ?init - tick ?init) + 1"
    "run_sim m ?init = ((\<lambda>u. snd (stepSim m u)) ^^ n) ?init"
    using run_sim_ticks by blast
  show ?thesis
    using n k nn run_sim_finished [of m ?init] by (auto simp: e clock_ok_def createSim_fields)
qed

theorem engine_round_ends_witness:
  "\<exists>n \<le> 801. finished (((\<lambda>u. snd (stepSim still_host u)) ^^ n)
     (createSim still_host ''seed'' demo_entries demo_config))"
  using engine_round_ends [of demo_config still_host "''seed''" demo_entries] by (auto simp: demo_config_def)
end
