(* ===== verification/Engine_Round.thy ===== *)
theory Engine_Round
  imports Engine_Sim Js_Number "HOL-Library.Multiset"
begin

text \<open>
  The life of an arena's rounds, \<open>engine/src/round.ts\<close>: a lobby whose secret is committed by its
  hash, a battle whose seed is derived from that secret and the locked entries, the settlement, the
  next lobby. The clock, the random bytes and the random number of the multiplier are inputs of the
  operations; the callback \<open>onSettle\<close> is represented by whether its promise resolves, and by the
  list of the calls made to it. Durations of the environment (\<open>LOBBY_MS\<close>,
  \<open>BATTLE_MS\<close>) are a parameter.
\<close>

subsection \<open>The seed\<close>

fun side_name :: "side \<Rightarrow> string" where
  "side_name Bull = ''bull''"
| "side_name Uwu = ''uwu''"

fun join_with :: "string \<Rightarrow> string list \<Rightarrow> string" where
  "join_with sep [] = []"
| "join_with sep [x] = x"
| "join_with sep (x # y # ys) = x @ sep @ join_with sep (y # ys)"

definition entry_line :: "entry \<Rightarrow> string" where
  "entry_line e = e_id e @ ''|'' @ side_name (e_side e) @ ''|'' @ to_fixed8 (e_stake e)"

definition deriveSeed :: "host \<Rightarrow> string \<Rightarrow> entry list \<Rightarrow> string" where
  "deriveSeed m secret es =
     (let canon = join_with '';'' (sort (map entry_line es)) in sha256_hex m (secret @ ''|'' @ canon))"

subsection \<open>State\<close>

datatype arena_phase = Lobby | Battle | Settle

record round_state =
  rs_round :: nat
  rs_mode :: arena_mode
  phase :: arena_phase
  seedHashPublished :: string
  rs_seed :: "string option"
  secretRevealed :: "string option"
  entries :: "entry list"
  result :: "round_result option"
  rs_multiplier :: rat
  openedAt :: rat
  closesAt :: rat
  rs_battleMs :: "rat option"

record durations =
  LOBBY_MS :: rat
  BATTLE_MS :: rat

record runner =
  state :: round_state
  r_mode :: arena_mode
  r_secret :: string
  r_seed :: string

text \<open>What the host supplies when a lobby opens: the random bytes in hexadecimal, a random number, the
  time.\<close>

record fresh_input =
  fr_secret :: string
  fr_u :: rat
  fr_now :: rat

definition newRoundConfig :: "durations \<Rightarrow> arena_mode \<Rightarrow> rat \<Rightarrow> round_config" where
  "newRoundConfig du mode k =
     \<lparr>cf_mode = mode, multiplier = k, cf_base = 85 / 1000, hitCapFrac = 25 / 100,
      battleMs = BATTLE_MS du, tickMs = 50, cf_dust = 12 / 10, matchTol = None\<rparr>"

definition rollMultiplier :: "rat \<Rightarrow> rat" where
  "rollMultiplier u =
     (if u < 7 / 10 then 1 else if u < 85 / 100 then 2 else if u < 93 / 100 then 4
      else if u < 97 / 100 then 6 else if u < 99 / 100 then 8 else 10)"

definition freshLobby :: "host \<Rightarrow> durations \<Rightarrow> fresh_input \<Rightarrow> nat \<Rightarrow> runner \<Rightarrow> runner" where
  "freshLobby m du fr n r =
     r\<lparr>r_secret := fr_secret fr,
       state := \<lparr>rs_round = n, rs_mode = r_mode r, phase = Lobby,
                 seedHashPublished = seedHash m (fr_secret fr), rs_seed = None, secretRevealed = None,
                 entries = [], result = None, rs_multiplier = rollMultiplier (fr_u fr),
                 openedAt = fr_now fr, closesAt = fr_now fr + LOBBY_MS du, rs_battleMs = None\<rparr>\<rparr>"

text \<open>The constructor. The record it fills is overwritten field by field before anyone reads it.\<close>

definition new_runner :: "host \<Rightarrow> durations \<Rightarrow> fresh_input \<Rightarrow> arena_mode \<Rightarrow> nat \<Rightarrow> runner" where
  "new_runner m du fr mode startRound =
     freshLobby m du fr startRound
       \<lparr>state = \<lparr>rs_round = 0, rs_mode = mode, phase = Lobby, seedHashPublished = [], rs_seed = None,
                 secretRevealed = None, entries = [], result = None, rs_multiplier = 0, openedAt = 0,
                 closesAt = 0, rs_battleMs = None\<rparr>,
        r_mode = mode, r_secret = [], r_seed = []\<rparr>"

subsection \<open>Operations\<close>

definition same_fighter :: "string \<Rightarrow> side \<Rightarrow> entry \<Rightarrow> bool" where
  "same_fighter i sd e \<longleftrightarrow> e_id e = i \<and> e_side e = sd"

definition enter_entries :: "string \<Rightarrow> side \<Rightarrow> rat \<Rightarrow> entry list \<Rightarrow> entry list" where
  "enter_entries i sd stake es =
     (case find_index (same_fighter i sd) es of
        Some k \<Rightarrow> es[k := (es ! k)\<lparr>e_stake := e_stake (es ! k) + stake\<rparr>]
      | None \<Rightarrow> es @ [\<lparr>e_id = i, e_side = sd, e_stake = stake\<rparr>])"

definition enter_lobby :: "string \<Rightarrow> side \<Rightarrow> rat \<Rightarrow> runner \<Rightarrow> bool \<times> runner" where
  "enter_lobby i sd stake r =
     (if phase (state r) \<noteq> Lobby then (False, r)
      else (True, r\<lparr>state := (state r)\<lparr>entries := enter_entries i sd stake (entries (state r))\<rparr>\<rparr>))"

text \<open>A tick returns what its promise does (resolve to a boolean or reject) and the call it made to
  \<open>onSettle\<close>, if any; \<open>ok\<close> says whether that call resolves, \<open>fr\<close> is what the next
  lobby draws.\<close>

datatype tick_outcome = Rejected | Resolved bool

definition start_battle :: "host \<Rightarrow> durations \<Rightarrow> rat \<Rightarrow> runner \<Rightarrow> runner" where
  "start_battle m du now r =
     (let s = state r;
          seed = deriveSeed m (r_secret r) (entries s);
          c = newRoundConfig du (rs_mode s) (rs_multiplier s);
          res = simulateRound m seed (entries s) c;
          b = min (BATTLE_MS du) ((of_int (rr_endTick res) + 2) * tickMs c + 900)
      in r\<lparr>r_seed := seed,
           state := s\<lparr>phase := Battle, secretRevealed := Some (r_secret r), rs_seed := Some seed,
                      result := Some res, rs_battleMs := Some b, closesAt := now + b\<rparr>\<rparr>)"

definition run_tick :: "host \<Rightarrow> durations \<Rightarrow> rat \<Rightarrow> bool \<Rightarrow> fresh_input \<Rightarrow> runner
    \<Rightarrow> tick_outcome \<times> (round_result \<times> round_state) option \<times> runner" where
  "run_tick m du now ok fr r =
     (let s = state r in
      if phase s = Lobby \<and> now \<ge> closesAt s then (Resolved False, None, start_battle m du now r)
      else if phase s = Battle \<and> now \<ge> closesAt s then
        let s1 = s\<lparr>phase := Settle\<rparr>; r1 = r\<lparr>state := s1\<rparr> in
        case result s1 of
          None \<Rightarrow> (Resolved True, None, freshLobby m du fr (rs_round s1 + 1) r1)
        | Some res \<Rightarrow>
            if ok then (Resolved True, Some (res, s1), freshLobby m du fr (rs_round s1 + 1) r1)
            else (Rejected, Some (res, s1), r1)
      else (Resolved False, None, r))"

text \<open>An arena over time: its runner and the calls its \<open>onSettle\<close> has received, newest first.\<close>

datatype arena_op =
    Enter string side rat
  | Tick rat bool fresh_input

record arena_run =
  run_of :: runner
  settled :: "(round_result \<times> round_state) list"

fun arena_step :: "host \<Rightarrow> durations \<Rightarrow> arena_op \<Rightarrow> arena_run \<Rightarrow> unit + arena_run" where
  "arena_step m du (Enter i sd stake) a = Inr (a\<lparr>run_of := snd (enter_lobby i sd stake (run_of a))\<rparr>)"
| "arena_step m du (Tick now ok fr) a =
     (let (out, call, r) = run_tick m du now ok fr (run_of a)
      in Inr (a\<lparr>run_of := r, settled := (case call of None \<Rightarrow> settled a | Some c \<Rightarrow> c # settled a)\<rparr>))"

definition boot_arena :: "host \<Rightarrow> durations \<Rightarrow> fresh_input \<Rightarrow> arena_mode \<Rightarrow> nat \<Rightarrow> arena_run" where
  "boot_arena m du fr mode n = \<lparr>run_of = new_runner m du fr mode n, settled = []\<rparr>"

subsection \<open>The seed does not depend on the order of the entries\<close>

lemma sorted_mset_unique:
  fixes xs ys :: "string list"
  assumes "mset xs = mset ys"
  shows "sort xs = sort ys"
  using assms by (metis mset_sort properties_for_sort sorted_sort)

text \<open>The seed is canonical. Whoever recomputes it needs the secret and the entries with their
  stakes to eight decimals, but not their order.\<close>

theorem seed_is_canonical:
  assumes "mset (map entry_line es) = mset (map entry_line es')"
  shows "deriveSeed m secret es = deriveSeed m secret es'"
  unfolding deriveSeed_def using sorted_mset_unique [OF assms] by simp

theorem seed_is_canonical_witness:
  "deriveSeed still_host ''s'' demo_entries = deriveSeed still_host ''s'' (rev demo_entries)"
  by (rule seed_is_canonical) (simp add: demo_entries_def)

subsection \<open>Every round is played by its commitment\<close>

definition played :: "host \<Rightarrow> durations \<Rightarrow> round_state \<Rightarrow> round_result \<Rightarrow> bool" where
  "played m du s res \<longleftrightarrow>
     (case secretRevealed s of None \<Rightarrow> False
      | Some sec \<Rightarrow>
          seedHashPublished s = seedHash m sec \<and> rs_seed s = Some (deriveSeed m sec (entries s)) \<and>
          res = simulateRound m (deriveSeed m sec (entries s)) (entries s)
            (newRoundConfig du (rs_mode s) (rs_multiplier s)))"

definition round_ok :: "host \<Rightarrow> durations \<Rightarrow> runner \<Rightarrow> bool" where
  "round_ok m du r \<longleftrightarrow>
     (let s = state r in
      if phase s = Lobby then
        seedHashPublished s = seedHash m (r_secret r) \<and> rs_seed s = None \<and> secretRevealed s = None \<and>
        result s = None
      else (case result s of None \<Rightarrow> False | Some res \<Rightarrow> played m du s res))"

text \<open>The numbers of the settled rounds, newest first: they fall, and stay behind the current round.\<close>

definition newer :: "nat list \<Rightarrow> nat \<Rightarrow> arena_phase \<Rightarrow> bool" where
  "newer ns n p \<longleftrightarrow> sorted_wrt (>) ns \<and> (\<forall>k\<in>set ns. k < n \<or> k = n \<and> p = Settle)"

definition numbers :: "arena_run \<Rightarrow> nat list" where
  "numbers a = map (\<lambda>c. rs_round (snd c)) (settled a)"

definition arena_inv :: "host \<Rightarrow> durations \<Rightarrow> arena_run \<Rightarrow> bool" where
  "arena_inv m du a \<longleftrightarrow>
     round_ok m du (run_of a) \<and>
     newer (numbers a) (rs_round (state (run_of a))) (phase (state (run_of a))) \<and> (\<forall>(res, s)\<in>set (settled a). played m du s res)"

lemma freshLobby_ok: "round_ok m du (freshLobby m du fr n r)"
  by (simp add: round_ok_def freshLobby_def)

lemma freshLobby_fields [simp]:
  "rs_round (state (freshLobby m du fr n r)) = n" "phase (state (freshLobby m du fr n r)) = Lobby"
  "entries (state (freshLobby m du fr n r)) = []"
  by (simp_all add: freshLobby_def)

lemma start_battle_ok: "round_ok m du r \<Longrightarrow> phase (state r) = Lobby \<Longrightarrow> round_ok m du (start_battle m du now r)"
  by (simp add: round_ok_def start_battle_def played_def Let_def)

lemma start_battle_fields [simp]:
  "rs_round (state (start_battle m du now r)) = rs_round (state r)"
  "phase (state (start_battle m du now r)) = Battle"
  "entries (state (start_battle m du now r)) = entries (state r)"
  "seedHashPublished (state (start_battle m du now r)) = seedHashPublished (state r)"
  "rs_multiplier (state (start_battle m du now r)) = rs_multiplier (state r)"
  by (simp_all add: start_battle_def Let_def)

lemma enter_ok: "round_ok m du r \<Longrightarrow> round_ok m du (snd (enter_lobby i sd stake r))"
  by (auto simp: enter_lobby_def round_ok_def Let_def split: option.splits if_splits)

lemma enter_fields [simp]:
  "rs_round (state (snd (enter_lobby i sd stake r))) = rs_round (state r)"
  "phase (state (snd (enter_lobby i sd stake r))) = phase (state r)"
  "seedHashPublished (state (snd (enter_lobby i sd stake r))) = seedHashPublished (state r)"
  "rs_multiplier (state (snd (enter_lobby i sd stake r))) = rs_multiplier (state r)"
  by (simp_all add: enter_lobby_def)

text \<open>The three things a tick can do.\<close>

lemma run_tick_cases:
  assumes "run_tick m du now ok fr r = (out, call, r')" and "round_ok m du r"
  obtains (idle) "out = Resolved False" "call = None" "r' = r"
  | (start) "phase (state r) = Lobby" "closesAt (state r) \<le> now" "out = Resolved False" "call = None"
      "r' = start_battle m du now r"
  | (settle) res s1 where "phase (state r) = Battle" "closesAt (state r) \<le> now"
      "result (state r) = Some res" "s1 = (state r)\<lparr>phase := Settle\<rparr>" "call = Some (res, s1)"
      "played m du s1 res"
      "if ok then out = Resolved True \<and> r' = freshLobby m du fr (rs_round (state r) + 1) (r\<lparr>state := s1\<rparr>)
       else out = Rejected \<and> r' = r\<lparr>state := s1\<rparr>"
proof (cases "phase (state r) = Battle \<and> closesAt (state r) \<le> now")
  case True
  then obtain res where res: "result (state r) = Some res" "played m du (state r) res"
    using assms(2) by (auto simp: round_ok_def Let_def split: option.splits)
  have "played m du ((state r)\<lparr>phase := Settle\<rparr>) res"
    using res(2) by (simp add: played_def split: option.splits)
  then show ?thesis
    using True res(1) assms(1) settle [of res "(state r)\<lparr>phase := Settle\<rparr>"]
    by (auto simp: run_tick_def Let_def split: if_splits)
next
  case False
  then show ?thesis
    using assms(1) idle start by (auto simp: run_tick_def Let_def split: if_splits)
qed

lemma newer_settle: "newer ns n Battle \<Longrightarrow> newer (n # ns) n Settle \<and> newer (n # ns) (n + 1) Lobby"
  by (auto simp: newer_def)

lemma newer_move: "newer ns n Lobby \<Longrightarrow> newer ns n Battle"
  by (auto simp: newer_def)

interpretation arena: invariant_machine "arena_step m du" "\<lambda>x. True" "arena_inv m du" for m du
proof (unfold_locales, goal_cases)
  case (1 a x a')
  show ?case
  proof (cases x)
    case (Enter i sd stake)
    then show ?thesis using 1 by (auto simp: arena_inv_def numbers_def enter_ok)
  next
    case (Tick now ok fr)
    obtain out call r' where t: "run_tick m du now ok fr (run_of a) = (out, call, r')" by (metis prod_cases3)
    have ok: "round_ok m du (run_of a)" using 1 by (simp add: arena_inv_def)
    from t ok show ?thesis
    proof (cases rule: run_tick_cases)
      case idle
      then show ?thesis using 1 Tick t by (auto simp: arena_inv_def numbers_def)
    next
      case start
      then show ?thesis using 1 Tick t start_battle_ok [OF ok] newer_move
        by (auto simp: arena_inv_def numbers_def)
    next
      case (settle res s1)
      have r: "round_ok m du r'"
        using settle ok freshLobby_ok by (auto simp: round_ok_def Let_def split: if_splits)
      have n: "newer (rs_round s1 # numbers a) (rs_round (state r')) (phase (state r'))"
        using 1 settle newer_settle [of "numbers a" "rs_round (state (run_of a))"]
        by (auto simp: arena_inv_def split: if_splits)
      show ?thesis using 1 Tick t settle(5,6) r n by (auto simp: arena_inv_def numbers_def)
    qed
  qed
qed

lemma boot_inv: "arena_inv m du (boot_arena m du fr mode n)"
  by (simp add: arena_inv_def boot_arena_def new_runner_def freshLobby_ok newer_def numbers_def)

lemma falling_distinct: "sorted_wrt (>) (ns :: nat list) \<Longrightarrow> distinct ns"
  by (induction ns) auto

text \<open>C10: Every settled round can be checked. Whatever enters and however the clock ticks, a round whose
  settlement was handed out has published its secret, the hash committed when its lobby opened is that
  secret's, its seed is the one derived from the secret and the entries, and \<open>verifyRound\<close> accepts
  its result; and no round is settled twice.\<close>

theorem settled_rounds_verify:
  "(\<forall>(res, s)\<in>set (settled (run_ops (arena_step m du) ops (boot_arena m du fr mode n))).
      \<exists>sec. secretRevealed s = Some sec \<and> seedHashPublished s = seedHash m sec \<and>
        rs_seed s = Some (deriveSeed m sec (entries s)) \<and>
        verifyRound m (deriveSeed m sec (entries s)) (entries s)
          (newRoundConfig du (rs_mode s) (rs_multiplier s)) res) \<and>
   distinct (map (\<lambda>c. rs_round (snd c)) (settled (run_ops (arena_step m du) ops (boot_arena m du fr mode n))))"
proof -
  let ?a = "run_ops (arena_step m du) ops (boot_arena m du fr mode n)"
  have i: "arena_inv m du ?a" by (rule arena.run_inv [OF boot_inv]) (simp add: list_all_iff)
  have "distinct (numbers ?a)"
    using i falling_distinct by (simp add: arena_inv_def newer_def)
  moreover have "\<exists>sec. secretRevealed s = Some sec \<and> seedHashPublished s = seedHash m sec \<and>
        rs_seed s = Some (deriveSeed m sec (entries s)) \<and>
        verifyRound m (deriveSeed m sec (entries s)) (entries s)
          (newRoundConfig du (rs_mode s) (rs_multiplier s)) res"
    if "(res, s) \<in> set (settled ?a)" for res s
  proof -
    have "played m du s res" using i that by (auto simp: arena_inv_def)
    then show ?thesis
      by (auto simp: played_def verifyRound_def Let_def simulateRound_def split: option.splits)
  qed
  ultimately show ?thesis unfolding numbers_def by blast
qed

subsection \<open>A commitment binds its round\<close>

text \<open>What cannot change any more while a round lasts: the commitment and the multiplier from the moment
  the lobby opens, the entries, the secret, the seed and the result from the moment it closes.\<close>

definition holds_to :: "round_state \<Rightarrow> round_state \<Rightarrow> bool" where
  "holds_to s t \<longleftrightarrow>
     rs_round s < rs_round t \<or>
     rs_round s = rs_round t \<and> seedHashPublished s = seedHashPublished t \<and>
     rs_multiplier s = rs_multiplier t \<and>
     (phase s \<noteq> Lobby \<longrightarrow> phase t \<noteq> Lobby \<and> entries s = entries t \<and> secretRevealed s = secretRevealed t \<and>
        rs_seed s = rs_seed t \<and> result s = result t)"

lemma holds_to_refl: "holds_to s s"
  by (simp add: holds_to_def)

lemma holds_to_trans: "holds_to s t \<Longrightarrow> holds_to t u \<Longrightarrow> holds_to s u"
  by (auto simp: holds_to_def)

interpretation binding: monotone_machine "arena_step m du" "\<lambda>x. True" "arena_inv m du"
    "\<lambda>a b. holds_to (state (run_of a)) (state (run_of b))" for m du
proof (unfold_locales, goal_cases)
  case (1 a)
  show ?case by (rule holds_to_refl)
next
  case (2 a b c)
  then show ?case by (rule holds_to_trans)
next
  case (3 a x a')
  show ?case
  proof (cases x)
    case (Enter i sd stake)
    then show ?thesis using 3 by (auto simp: holds_to_def enter_lobby_def)
  next
    case (Tick now ok fr)
    obtain out call r' where t: "run_tick m du now ok fr (run_of a) = (out, call, r')" by (metis prod_cases3)
    have ok: "round_ok m du (run_of a)" using 3 by (simp add: arena_inv_def)
    have a': "run_of a' = r'" using 3 Tick t by (auto simp: Let_def)
    from t ok show ?thesis
      unfolding a' by (cases rule: run_tick_cases) (auto simp: holds_to_def split: if_splits)
  qed
qed

text \<open>C9: The commitment binds. However an arena goes on, as long as it is in the same round the hash
  it published for it and the multiplier stay what they were when anybody last looked, and once the
  lobby has closed so do the entries, the secret, the seed and the result.\<close>

theorem commitment_binds:
  assumes "a = run_ops (arena_step m du) ops (boot_arena m du fr mode n)"
    and "b = run_ops (arena_step m du) later a"
    and "rs_round (state (run_of b)) = rs_round (state (run_of a))"
  shows "seedHashPublished (state (run_of b)) = seedHashPublished (state (run_of a)) \<and>
    rs_multiplier (state (run_of b)) = rs_multiplier (state (run_of a)) \<and>
    (phase (state (run_of a)) \<noteq> Lobby \<longrightarrow>
       entries (state (run_of b)) = entries (state (run_of a)) \<and>
       secretRevealed (state (run_of b)) = secretRevealed (state (run_of a)) \<and>
       rs_seed (state (run_of b)) = rs_seed (state (run_of a)) \<and>
       result (state (run_of b)) = result (state (run_of a)))"
proof -
  have "arena_inv m du a" unfolding assms(1) by (rule arena.run_inv [OF boot_inv]) (simp add: list_all_iff)
  then have "holds_to (state (run_of a)) (state (run_of b))"
    unfolding assms(2) by (intro binding.reaches_le [OF run_ops_reaches]) (simp add: list_all_iff)
  then show ?thesis using assms(3) by (auto simp: holds_to_def)
qed

definition demo_durations :: durations where
  "demo_durations = \<lparr>LOBBY_MS = 9000, BATTLE_MS = 40000\<rparr>"

definition demo_fresh :: fresh_input where
  "demo_fresh = \<lparr>fr_secret = ''secret'', fr_u = 8 / 10, fr_now = 0\<rparr>"

theorem commitment_binds_witness:
  "seedHashPublished (state (run_of (run_ops (arena_step still_host demo_durations)
     [Enter ''a|bull'' Bull 5] (boot_arena still_host demo_durations demo_fresh Normal 1)))) = ''secret''"
proof -
  let ?a = "boot_arena still_host demo_durations demo_fresh Normal 1"
  have "?a = run_ops (arena_step still_host demo_durations) [] ?a" by simp
  from commitment_binds [OF this refl, of "[Enter ''a|bull'' Bull 5]"] show ?thesis
    by (simp add: boot_arena_def new_runner_def freshLobby_def demo_fresh_def seedHash_def still_host_def)
qed

subsection \<open>What is settled is what was entered\<close>

lemma side_total_append: "side_total sd (xs @ ys) = side_total sd xs + side_total sd ys"
  by (induction xs) auto

lemma side_total_update:
  "k < length es \<Longrightarrow> side_total sd (es[k := e]) =
     side_total sd es - (if e_side (es ! k) = sd then e_stake (es ! k) else 0) + (if e_side e = sd then e_stake e else 0)"
proof (induction es arbitrary: k)
  case (Cons x xs)
  then show ?case by (cases k) auto
qed simp

lemma enter_entries_total:
  "side_total sd (enter_entries i sd' stake es) = side_total sd es + (if sd = sd' then stake else 0)"
proof (cases "find_index (same_fighter i sd') es")
  case None
  then show ?thesis by (auto simp: enter_entries_def side_total_append)
next
  case (Some k)
  then have "k < length es" "e_side (es ! k) = sd'"
    using find_index_SomeD [OF Some] by (auto simp: same_fighter_def)
  then show ?thesis using Some by (auto simp: enter_entries_def side_total_update)
qed

text \<open>The server names a fighter by its wallet and its side, \<open>wallet|side\<close>.\<close>

definition server_id :: "string \<Rightarrow> side \<Rightarrow> bool" where
  "server_id i sd \<longleftrightarrow> i = wallet_of i @ ''|'' @ side_name sd"

fun server_op :: "arena_op \<Rightarrow> bool" where
  "server_op (Enter i sd stake) = server_id i sd"
| "server_op (Tick now ok fr) = True"

definition named_entries :: "entry list \<Rightarrow> bool" where
  "named_entries es \<longleftrightarrow> distinct (map e_id es) \<and> list_all (\<lambda>e. server_id (e_id e) (e_side e)) es"

lemma side_name_inject: "side_name x = side_name y \<longleftrightarrow> x = y"
  by (cases x; cases y; simp)

lemma server_id_side: "server_id i x \<Longrightarrow> server_id i y \<Longrightarrow> x = y"
  unfolding server_id_def by (metis append_same_eq same_append_eq side_name_inject)

lemma enter_entries_named:
  assumes "named_entries es" and "server_id i sd"
  shows "named_entries (enter_entries i sd stake es)"
proof (cases "find_index (same_fighter i sd) es")
  case None
  then have "\<not> same_fighter i sd e" if "e \<in> set es" for e using that by (simp add: find_index_None_iff)
  moreover have "same_fighter i sd e" if "e \<in> set es" "e_id e = i" for e
    using assms that server_id_side by (auto simp: named_entries_def list_all_iff same_fighter_def)
  ultimately have "i \<notin> e_id ` set es" by auto
  then show ?thesis using assms None by (simp add: enter_entries_def named_entries_def)
next
  case (Some k)
  then have k: "k < length es" "e_id (es ! k) = i" using find_index_SomeD [OF Some] by (auto simp: same_fighter_def)
  let ?P = "\<lambda>e. server_id (e_id e) (e_side e)"
  have "list_all ?P (es[k := (es ! k)\<lparr>e_stake := e_stake (es ! k) + stake\<rparr>])"
    using assms(1) k(1) list_all_nth_iff [of ?P es k]
    by (intro list_all_update) (simp_all add: named_entries_def)
  then show ?thesis
    using assms(1) Some by (simp add: enter_entries_def named_entries_def map_update_same)
qed

definition named_inv :: "arena_run \<Rightarrow> bool" where
  "named_inv a \<longleftrightarrow> named_entries (entries (state (run_of a))) \<and> (\<forall>(res, s)\<in>set (settled a). named_entries (entries s))"

interpretation named: invariant_machine "arena_step m du" server_op
    "\<lambda>a. arena_inv m du a \<and> named_inv a" for m du
proof (unfold_locales, goal_cases)
  case (1 a x a')
  have i: "arena_inv m du a'" using 1 arena.step_inv by blast
  have "named_inv a'"
  proof (cases x)
    case (Enter i sd stake)
    then show ?thesis using 1 enter_entries_named by (auto simp: named_inv_def enter_lobby_def)
  next
    case (Tick now ok fr)
    obtain out call r' where t: "run_tick m du now ok fr (run_of a) = (out, call, r')" by (metis prod_cases3)
    have ok: "round_ok m du (run_of a)" using 1 by (simp add: arena_inv_def)
    have e: "named_entries []" by (simp add: named_entries_def)
    have a': "run_of a' = r'" "settled a' = (case call of None \<Rightarrow> settled a | Some c \<Rightarrow> c # settled a)"
      using 1 Tick t by (auto simp: Let_def)
    from t ok show ?thesis
      using 1 e unfolding named_inv_def a'
      by (cases rule: run_tick_cases) (auto split: if_splits)
  qed
  with i show ?case by simp
qed

text \<open>C11: A settled round pays out what was entered. With fighters named as the server names them, the
  settlement of every round that was settled lists the round's entries and pays, in each coin,
  precisely the sum of the stakes entered in it.\<close>

theorem settlement_pays_the_entries:
  assumes "list_all server_op ops"
    and "(res, s) \<in> set (settled (run_ops (arena_step m du) ops (boot_arena m du fr mode n)))"
  shows "map fst (rr_settlement res) = map e_id (entries s) \<and>
    bull_total (rr_settlement res) = side_total Bull (entries s) \<and>
    uwu_total (rr_settlement res) = side_total Uwu (entries s)"
proof -
  let ?a = "run_ops (arena_step m du) ops (boot_arena m du fr mode n)"
  have "named_inv (boot_arena m du fr mode n)"
    by (simp add: named_inv_def boot_arena_def new_runner_def named_entries_def)
  then have "arena_inv m du ?a \<and> named_inv ?a"
    by (intro named.run_inv) (use boot_inv assms(1) in auto)
  then have p: "played m du s res" "named_entries (entries s)"
    using assms(2) by (auto simp: arena_inv_def named_inv_def)
  have t: "tickMs (newRoundConfig du k x) \<noteq> 0" for k x by (simp add: newRoundConfig_def)
  show ?thesis
    using p engine_settled_coins [OF _ t] by (auto simp: played_def named_entries_def split: option.splits)
qed

lemma start_battle_closes: "closesAt (state (start_battle m du now r)) \<le> now + BATTLE_MS du"
  by (simp add: start_battle_def Let_def)

definition arena_demo_ops :: "arena_op list" where
  "arena_demo_ops = [Enter ''a|bull'' Bull 5, Enter ''b|uwu'' Uwu 3, Tick 9000 True demo_fresh]"

lemma demo_battle:
  obtains r where "run_ops (arena_step still_host demo_durations) arena_demo_ops
      (boot_arena still_host demo_durations demo_fresh Normal 1) = \<lparr>run_of = start_battle still_host demo_durations 9000 r, settled = []\<rparr>"
    and "entries (state r) = [\<lparr>e_id = ''a|bull'', e_side = Bull, e_stake = 5\<rparr>, \<lparr>e_id = ''b|uwu'', e_side = Uwu, e_stake = 3\<rparr>]"
    and "rs_round (state r) = 1"
proof -
  let ?b = "boot_arena still_host demo_durations demo_fresh Normal 1"
  define r where "r = snd (enter_lobby ''b|uwu'' Uwu 3 (snd (enter_lobby ''a|bull'' Bull 5 (run_of ?b))))"
  have "phase (state r) = Lobby" "closesAt (state r) = 9000" "rs_round (state r) = 1"
    "entries (state r) = [\<lparr>e_id = ''a|bull'', e_side = Bull, e_stake = 5\<rparr>, \<lparr>e_id = ''b|uwu'', e_side = Uwu, e_stake = 3\<rparr>]"
    by (simp_all add: r_def enter_lobby_def boot_arena_def new_runner_def freshLobby_def demo_fresh_def
        demo_durations_def enter_entries_def same_fighter_def)
  moreover have two: "run_ops (arena_step still_host demo_durations)
      [Enter ''a|bull'' Bull 5, Enter ''b|uwu'' Uwu 3] ?b = \<lparr>run_of = r, settled = []\<rparr>"
    by (simp add: r_def boot_arena_def)
  moreover have ops: "arena_demo_ops = [Enter ''a|bull'' Bull 5, Enter ''b|uwu'' Uwu 3] @ [Tick 9000 True demo_fresh]"
    by (simp add: arena_demo_ops_def)
  have "run_ops (arena_step still_host demo_durations) arena_demo_ops ?b =
      run_ops (arena_step still_host demo_durations) [Tick 9000 True demo_fresh] \<lparr>run_of = r, settled = []\<rparr>"
    unfolding ops run_ops_append two ..
  then have "run_ops (arena_step still_host demo_durations) arena_demo_ops ?b =
      \<lparr>run_of = start_battle still_host demo_durations 9000 r, settled = []\<rparr>"
    using calculation(1,2) by (simp add: run_tick_def Let_def)
  ultimately show ?thesis by (intro that [of r]) simp_all
qed

lemma demo_settled:
  obtains res s where "(res, s) \<in> set (settled (run_ops (arena_step still_host demo_durations)
      (arena_demo_ops @ [Tick 100000 True demo_fresh]) (boot_arena still_host demo_durations demo_fresh Normal 1)))"
    and "entries s = [\<lparr>e_id = ''a|bull'', e_side = Bull, e_stake = 5\<rparr>, \<lparr>e_id = ''b|uwu'', e_side = Uwu, e_stake = 3\<rparr>]"
    and "secretRevealed s \<noteq> None"
proof -
  let ?run = "run_ops (arena_step still_host demo_durations)"
  let ?b = "boot_arena still_host demo_durations demo_fresh Normal 1"
  obtain r where r: "?run arena_demo_ops ?b = \<lparr>run_of = start_battle still_host demo_durations 9000 r, settled = []\<rparr>"
    "entries (state r) = [\<lparr>e_id = ''a|bull'', e_side = Bull, e_stake = 5\<rparr>, \<lparr>e_id = ''b|uwu'', e_side = Uwu, e_stake = 3\<rparr>]"
    "rs_round (state r) = 1" by (rule demo_battle)
  let ?s = "state (start_battle still_host demo_durations 9000 r)"
  have c: "closesAt ?s \<le> 100000"
    using start_battle_closes [of still_host demo_durations 9000 r] by (simp add: demo_durations_def)
  obtain res where res: "result ?s = Some res" by (simp add: start_battle_def Let_def)
  have "(res, ?s\<lparr>phase := Settle\<rparr>) \<in> set (settled (?run (arena_demo_ops @ [Tick 100000 True demo_fresh]) ?b))"
    unfolding run_ops_append r(1) by (simp add: run_tick_def c res Let_def)
  then show ?thesis by (rule that) (simp_all add: start_battle_def Let_def r(2))
qed

theorem settlement_pays_the_entries_witness:
  "\<exists>res s. (res, s) \<in> set (settled (run_ops (arena_step still_host demo_durations)
       (arena_demo_ops @ [Tick 100000 True demo_fresh]) (boot_arena still_host demo_durations demo_fresh Normal 1))) \<and>
     bull_total (rr_settlement res) = 5 \<and> uwu_total (rr_settlement res) = 3"
proof -
  obtain res s where mem: "(res, s) \<in> set (settled (run_ops (arena_step still_host demo_durations)
      (arena_demo_ops @ [Tick 100000 True demo_fresh]) (boot_arena still_host demo_durations demo_fresh Normal 1)))"
    and e: "entries s = [\<lparr>e_id = ''a|bull'', e_side = Bull, e_stake = 5\<rparr>, \<lparr>e_id = ''b|uwu'', e_side = Uwu, e_stake = 3\<rparr>]"
    by (rule demo_settled)
  have "list_all server_op (arena_demo_ops @ [Tick 100000 True demo_fresh])"
    by (simp add: arena_demo_ops_def server_id_def wallet_of_def)
  from settlement_pays_the_entries [OF this mem] e mem show ?thesis by auto
qed

theorem settled_rounds_verify_witness:
  "\<exists>res s sec. (res, s) \<in> set (settled (run_ops (arena_step still_host demo_durations)
       (arena_demo_ops @ [Tick 100000 True demo_fresh]) (boot_arena still_host demo_durations demo_fresh Normal 1))) \<and>
     seedHashPublished s = seedHash still_host sec \<and>
     verifyRound still_host (deriveSeed still_host sec (entries s)) (entries s)
       (newRoundConfig demo_durations (rs_mode s) (rs_multiplier s)) res"
proof -
  obtain res s where mem: "(res, s) \<in> set (settled (run_ops (arena_step still_host demo_durations)
      (arena_demo_ops @ [Tick 100000 True demo_fresh]) (boot_arena still_host demo_durations demo_fresh Normal 1)))"
    by (rule demo_settled)
  with conjunct1 [OF settled_rounds_verify, THEN bspec, OF mem] show ?thesis by auto
qed

end
