(* ===== verification/Engine_Ledger.thy ===== *)
theory Engine_Ledger
  imports Engine_Sim
begin

text \<open>
  The engine's book of accounts and the house money in it: \<open>engine/src/ledger.ts\<close> (accounts,
  the treasury account), \<open>bot-bank.ts\<close> (drawing stakes from the pool of funded wallets and giving
  them back) and \<open>recover-float.ts\<close> (the corrections that re-anchor the house's balances to what
  the vault holds).

  The \<open>Map\<close> from ids to accounts is a list of accounts in insertion order, an account being the
  entry with its id; a mutation of an account is an update of that entry. Amounts are exact rationals,
  and a field the code reads as \<open>a.x || 0\<close> is zero when it is missing.
\<close>

subsection \<open>Accounts\<close>

datatype field = FBull | FUwu | FSol

record account =
  ac_id :: string
  ac_name :: string
  ac_side :: side
  ac_bull :: rat
  ac_uwu :: rat
  ac_sol :: rat
  isBot :: bool
  dep :: rat
  ret :: rat
  games :: nat
  wins :: nat
  ac_raided :: rat
  ac_best :: rat
  depIn :: rat
  wOut :: rat
  depInSol :: rat
  wOutSol :: rat
  refBy :: "string option"
  refEarned :: rat
  avatar :: "string option"
  retired :: bool
  ac_temper :: "rat option"
  ac_skip :: "rat option"
  ac_nteam :: "nat option"

type_synonym ledger = "account list"

fun bal :: "field \<Rightarrow> account \<Rightarrow> rat" where
  "bal FBull a = ac_bull a"
| "bal FUwu a = ac_uwu a"
| "bal FSol a = ac_sol a"

fun set_bal :: "field \<Rightarrow> rat \<Rightarrow> account \<Rightarrow> account" where
  "set_bal FBull v a = a\<lparr>ac_bull := v\<rparr>"
| "set_bal FUwu v a = a\<lparr>ac_uwu := v\<rparr>"
| "set_bal FSol v a = a\<lparr>ac_sol := v\<rparr>"

definition add_bal :: "field \<Rightarrow> rat \<Rightarrow> account \<Rightarrow> account" where
  "add_bal f v a = set_bal f (bal f a + v) a"

definition get :: "ledger \<Rightarrow> string \<Rightarrow> account option" where
  "get l i = List.find (\<lambda>a. ac_id a = i) l"

definition upd :: "string \<Rightarrow> (account \<Rightarrow> account) \<Rightarrow> ledger \<Rightarrow> ledger" where
  "upd i g l = (case find_index (\<lambda>a. ac_id a = i) l of None \<Rightarrow> l | Some k \<Rightarrow> l[k := g (l ! k)])"

definition new_account :: "string \<Rightarrow> string \<Rightarrow> side \<Rightarrow> bool \<Rightarrow> account" where
  "new_account i n sd robot =
     \<lparr>ac_id = i, ac_name = n, ac_side = sd, ac_bull = 0, ac_uwu = 0, ac_sol = 0, isBot = robot, dep = 0,
      ret = 0, games = 0, wins = 0, ac_raided = 0, ac_best = 0, depIn = 0, wOut = 0, depInSol = 0,
      wOutSol = 0, refBy = None, refEarned = 0, avatar = None, retired = False,
      ac_temper = None, ac_skip = None, ac_nteam = None\<rparr>"

definition acct :: "string \<Rightarrow> side \<Rightarrow> ledger \<Rightarrow> ledger" where
  "acct w sd l = (if get l w = None then l @ [new_account w ''You'' sd False] else l)"

definition TREASURY_ID :: string where "TREASURY_ID = ''__versus_treasury__''"

definition treasuryAcct :: "ledger \<Rightarrow> ledger" where
  "treasuryAcct l =
     (if get l TREASURY_ID = None then l @ [new_account TREASURY_ID ''Versus Treasury'' Bull True] else l)"

definition bankFee :: "field \<Rightarrow> rat \<Rightarrow> ledger \<Rightarrow> ledger" where
  "bankFee f tokens l =
     (if \<not> tokens > 0 then l else upd TREASURY_ID (add_bal f tokens) (treasuryAcct l))"

definition resetLifetimeStats :: "ledger \<Rightarrow> nat \<times> ledger" where
  "resetLifetimeStats l =
     (let used = (\<lambda>a. dep a \<noteq> 0 \<or> ret a \<noteq> 0 \<or> games a \<noteq> 0 \<or> wins a \<noteq> 0 \<or> ac_raided a \<noteq> 0 \<or> ac_best a \<noteq> 0)
      in (length (filter used l),
          map (\<lambda>a. if used a then a\<lparr>dep := 0, ret := 0, games := 0, wins := 0, ac_raided := 0, ac_best := 0\<rparr>
                   else a) l))"

text \<open>The reconciliation \<open>restore\<close> makes after loading: no player may claim more SOL units than it
  deposited and has not withdrawn. The result carries what was written off and how many accounts.\<close>

definition sol_backed :: "account \<Rightarrow> rat" where
  "sol_backed a = max 0 (depInSol a - wOutSol a)"

definition overclaims :: "account \<Rightarrow> bool" where
  "overclaims a \<longleftrightarrow> \<not> isBot a \<and> ac_sol a > sol_backed a + 1 / 10000"

definition restore_sol :: "ledger \<Rightarrow> (rat \<times> nat) \<times> ledger" where
  "restore_sol l =
     ((sum_list (map (\<lambda>a. ac_sol a - sol_backed a) (filter overclaims l)), length (filter overclaims l)),
      map (\<lambda>a. if overclaims a then a\<lparr>ac_sol := sol_backed a\<rparr> else a) l)"

subsection \<open>The pool of funded wallets\<close>

text \<open>\<open>poolIds\<close> is the list the environment configures; an id may have no account yet.\<close>

definition initBotBank :: "string list \<Rightarrow> ledger \<Rightarrow> ledger" where
  "initBotBank pool l =
     fold (\<lambda>i. upd i (\<lambda>a. a\<lparr>isBot := True,
        ac_name := (if ac_name a = [] \<or> ac_name a = ''You'' then ''house'' else ac_name a)\<rparr>)) pool l"

definition poolAccounts :: "string list \<Rightarrow> ledger \<Rightarrow> account list" where
  "poolAccounts pool l = List.map_filter (get l) pool"

definition poolBalance :: "string list \<Rightarrow> field \<Rightarrow> ledger \<Rightarrow> rat" where
  "poolBalance pool f l = sum_list (map (bal f) (poolAccounts pool l))"

text \<open>The loop of \<open>drawBank\<close> and \<open>takeExact\<close>: wallet after wallet, until no more than
  \<open>eps\<close> is missing.\<close>

fun take_from :: "rat \<Rightarrow> field \<Rightarrow> string list \<Rightarrow> rat \<Rightarrow> ledger \<Rightarrow> rat \<times> ledger" where
  "take_from eps f [] left l = (left, l)"
| "take_from eps f (i # is) left l =
     (case get l i of
        None \<Rightarrow> take_from eps f is left l
      | Some a \<Rightarrow>
          if left \<le> eps then (left, l)
          else
            let k = min (bal f a) left in
            if k \<le> 0 then take_from eps f is left l
            else take_from eps f is (left - k) (upd i (add_bal f (- k)) l))"

definition drawBank :: "string list \<Rightarrow> field \<Rightarrow> rat \<Rightarrow> rat \<Rightarrow> ledger \<Rightarrow> rat \<times> ledger" where
  "drawBank pool f want spread l =
     (if \<not> want > 0 then (0, l)
      else
        let share = poolBalance pool f l / max 1 spread; target = min want share in
        if \<not> target > 0 then (0, l)
        else let (left, l') = take_from 0 f pool target l in (target - left, l'))"

definition takeExact :: "string list \<Rightarrow> field \<Rightarrow> rat \<Rightarrow> ledger \<Rightarrow> bool \<times> ledger" where
  "takeExact pool f amount l =
     (if \<not> amount > 0 then (False, l)
      else if poolBalance pool f l + 1 / 10 ^ 9 < amount then (False, l)
      else let (left, l') = take_from (1 / 10 ^ 12) f pool amount l in (left \<le> 1 / 10 ^ 9, l'))"

fun poorest :: "field \<Rightarrow> account \<Rightarrow> account list \<Rightarrow> account" where
  "poorest f best [] = best"
| "poorest f best (a # as) = poorest f (if bal f a < bal f best then a else best) as"

definition returnBank :: "string list \<Rightarrow> field \<Rightarrow> rat \<Rightarrow> ledger \<Rightarrow> ledger" where
  "returnBank pool f amount l =
     (if \<not> amount > 0 then l
      else
        case poolAccounts pool l of
          [] \<Rightarrow> l
        | a # as \<Rightarrow> upd (ac_id (poorest f a (a # as))) (add_bal f amount) l)"

definition botBankReady :: "string list \<Rightarrow> ledger \<Rightarrow> bool" where
  "botBankReady pool l \<longleftrightarrow>
     pool \<noteq> [] \<and> poolBalance pool FBull l + poolBalance pool FUwu l + poolBalance pool FSol l > 0"

subsection \<open>Corrections against the chain\<close>

record vault_held =
  held_uwu :: rat
  held_solUsd :: rat

datatype no_recovery = AlreadyRecovered | NothingToRecover | UwuNotBacked | SolUnpriced | SolNotBacked

definition wiped :: "rat \<Rightarrow> rat \<Rightarrow> bool" where
  "wiped b d \<longleftrightarrow> d > 0 \<and> b \<le> d * (1 / 100)"

definition token_backed :: "account \<Rightarrow> rat" where
  "token_backed a = max 0 (depIn a - wOut a - sol_backed a)"

definition addUwu :: "account \<Rightarrow> rat" where
  "addUwu a = (if wiped (ac_uwu a) (token_backed a) then max 0 (token_backed a - ac_uwu a) else 0)"

definition addSol :: "account \<Rightarrow> rat" where
  "addSol a = (if wiped (ac_sol a) (sol_backed a) then max 0 (sol_backed a - ac_sol a) else 0)"

definition in_plan :: "string list \<Rightarrow> account \<Rightarrow> bool" where
  "in_plan pool a \<longleftrightarrow> ac_id a \<in> set pool \<and> (addUwu a > 1 / 10000 \<or> addSol a > 1 / 10000)"

definition recoverInPlace :: "ledger \<Rightarrow> string list \<Rightarrow> vault_held \<Rightarrow> bool
    \<Rightarrow> (no_recovery + nat \<times> rat \<times> rat) \<times> ledger" where
  "recoverInPlace l pool held already =
     (if already then (Inl AlreadyRecovered, l)
      else
        let plan = filter (in_plan pool) l;
            wantUwu = sum_list (map addUwu plan); wantSol = sum_list (map addSol plan);
            others = filter (\<lambda>a. \<not> (ac_id a \<in> set pool \<or> isBot a)) l;
            otherUwu = sum_list (map ac_uwu others); otherSol = sum_list (map ac_sol others)
        in if plan = [] then (Inl NothingToRecover, l)
           else if otherUwu + wantUwu > held_uwu held + 1 / 10 ^ 6 then (Inl UwuNotBacked, l)
           else if wantSol > 1 / 10000 \<and> \<not> held_solUsd held > 0 then (Inl SolUnpriced, l)
           else if otherSol + wantSol > held_solUsd held + 1 / 10 ^ 6 then (Inl SolNotBacked, l)
           else (Inr (length plan, wantUwu, wantSol),
                 map (\<lambda>a. if in_plan pool a then add_bal FSol (addSol a) (add_bal FUwu (addUwu a) a) else a) l))"

text \<open>The two sums both corrections start from: what the house claims (pool wallets and bots) and what
  the players do.\<close>

definition pool_accts :: "string list \<Rightarrow> ledger \<Rightarrow> ledger" where
  "pool_accts pool l = filter (\<lambda>a. ac_id a \<in> set pool) l"

definition house_claim :: "string list \<Rightarrow> field \<Rightarrow> ledger \<Rightarrow> rat" where
  "house_claim pool f l = sum_list (map (\<lambda>a. if ac_id a \<in> set pool \<or> isBot a then bal f a else 0) l)"

definition player_claim :: "string list \<Rightarrow> field \<Rightarrow> ledger \<Rightarrow> rat" where
  "player_claim pool f l = sum_list (map (\<lambda>a. if ac_id a \<in> set pool \<or> isBot a then 0 else bal f a) l)"

datatype no_resync = NoPoolWallets | NothingForHouse | Insolvent | InSync | BelowMinimum

definition resyncPoolToChain :: "ledger \<Rightarrow> string list \<Rightarrow> field \<Rightarrow> rat \<Rightarrow> rat \<Rightarrow> rat
    \<Rightarrow> (no_resync + rat \<times> rat \<times> rat) \<times> ledger" where
  "resyncPoolToChain l pool f chainHeld minGap openStake =
     (let house = house_claim pool f l; player = player_claim pool f l; n = length (pool_accts pool l) in
      if n = 0 then (Inl NoPoolWallets, l)
      else
        let target = chainHeld - player - openStake in
        if \<not> target > 0 then (Inl NothingForHouse, l)
        else
          let gap = target - house in
          if gap \<le> 1 / 10000 then (Inl (if gap < - (1 / 10000) then Insolvent else InSync), l)
          else if gap < minGap then (Inl BelowMinimum, l)
          else
            let each = gap / of_nat n in
            (Inr (gap, house, house + gap),
             map (\<lambda>a. if ac_id a \<in> set pool then add_bal f each a else a) l))"

datatype no_writedown = NoPool | NoChainReading | NoExcess | PlayersShort | ExceedsPool | TooLarge

definition writeDownOverclaim :: "ledger \<Rightarrow> string list \<Rightarrow> field \<Rightarrow> rat \<Rightarrow> rat \<Rightarrow> rat \<Rightarrow> rat
    \<Rightarrow> (no_writedown + rat \<times> rat \<times> rat) \<times> ledger" where
  "writeDownOverclaim l pool f chainHeld openStake maxFrac minExcess =
     (let house = house_claim pool f l; player = player_claim pool f l in
      if pool_accts pool l = [] then (Inl NoPool, l)
      else if \<not> chainHeld > 0 then (Inl NoChainReading, l)
      else
        let claimed = house + player + openStake; excess = claimed - chainHeld in
        if excess \<le> minExcess then (Inl NoExcess, l)
        else if chainHeld < player then (Inl PlayersShort, l)
        else
          let poolHeld = sum_list (map (bal f) (pool_accts pool l)) in
          if poolHeld < excess then (Inl ExceedsPool, l)
          else if house > 0 \<and> excess / house > maxFrac then (Inl TooLarge, l)
          else
            (Inr (excess, house, house - excess),
             map (\<lambda>a. if ac_id a \<in> set pool
                      then set_bal f (max 0 (bal f a - excess * (bal f a / poolHeld))) a else a) l))"

subsection \<open>Totals\<close>

definition coin_sum :: "field \<Rightarrow> ledger \<Rightarrow> rat" where
  "coin_sum f l = sum_list (map (bal f) l)"

lemma bal_set [simp]: "bal f (set_bal g v a) = (if f = g then v else bal f a)"
  by (cases f; cases g; simp)

lemma bal_add [simp]: "bal f (add_bal g v a) = bal f a + (if f = g then v else 0)"
  by (simp add: add_bal_def)

lemma set_bal_keeps [simp]: "ac_id (set_bal f v a) = ac_id a" "isBot (set_bal f v a) = isBot a"
  by (cases f; simp)+

lemma add_bal_keeps [simp]: "ac_id (add_bal f v a) = ac_id a" "isBot (add_bal f v a) = isBot a"
  by (simp_all add: add_bal_def)

lemma get_upd_cases:
  assumes "get l i = Some a"
  obtains k where "find_index (\<lambda>a. ac_id a = i) l = Some k" "k < length l" "l ! k = a" "ac_id a = i"
    "\<And>g. upd i g l = l[k := g a]"
proof -
  obtain k where k: "find_index (\<lambda>a. ac_id a = i) l = Some k" "l ! k = a"
    using assms by (auto simp: get_def find_find_index)
  then show ?thesis using that find_index_SomeD [OF k(1)] by (auto simp: upd_def)
qed

lemma total_upd:
  "get l i = Some a \<Longrightarrow> coin_sum f (upd i g l) = coin_sum f l - bal f a + bal f (g a)"
  by (erule get_upd_cases) (simp add: coin_sum_def sum_list_update_group)

lemma total_upd_add:
  "get l i = Some a \<Longrightarrow> coin_sum f (upd i (add_bal g v) l) = coin_sum f l + (if f = g then v else 0)"
  by (simp add: total_upd)

lemma get_upd: 
  assumes "\<And>a. ac_id (g a) = ac_id a"
  shows "get (upd i g l) j = (if i = j then map_option g (get l i) else get l j)"
proof (cases "find_index (\<lambda>a. ac_id a = i) l")
  case None
  then have "get l i = None" by (simp add: get_def find_find_index)
  then show ?thesis using None by (auto simp: upd_def)
next
  case (Some k)
  then have k: "k < length l" "ac_id (l ! k) = i" using find_index_SomeD [OF Some] by auto
  show ?thesis
  proof (cases "i = j")
    case True
    then show ?thesis
      using Some k assms find_update_same [OF Some] by (simp add: upd_def get_def find_find_index [of _ l])
  next
    case False
    then show ?thesis
      using Some k assms find_update_other [of k l "\<lambda>a. ac_id a = j" "g (l ! k)"] by (simp add: upd_def get_def)
  qed
qed

lemma get_treasury: "get (treasuryAcct l) TREASURY_ID \<noteq> None"
  by (auto simp: treasuryAcct_def get_def find_append new_account_def split: option.splits)

lemma total_new [simp]: "coin_sum f (l @ [new_account i n sd b]) = coin_sum f l"
  by (cases f) (simp_all add: coin_sum_def new_account_def)

lemma total_acct [simp]: "coin_sum f (acct w sd l) = coin_sum f l"
  by (simp add: acct_def)

lemma total_treasuryAcct [simp]: "coin_sum f (treasuryAcct l) = coin_sum f l"
  by (simp add: treasuryAcct_def)

lemma total_bankFee: "coin_sum f (bankFee g v l) = coin_sum f l + (if f = g then max 0 v else 0)"
  using get_treasury [of l] by (auto simp: bankFee_def total_upd_add)

subsection \<open>Drawing and returning\<close>

text \<open>What every ledger operation of the house keeps: the accounts and everybody's balances in the other
  coins; and that nobody is below zero.\<close>

definition above_zero :: "field \<Rightarrow> ledger \<Rightarrow> bool" where
  "above_zero f l \<longleftrightarrow> list_all (\<lambda>a. 0 \<le> bal f a) l"

lemma above_zero_upd:
  "above_zero f l \<Longrightarrow> get l i = Some a \<Longrightarrow> 0 \<le> bal f (g a) \<Longrightarrow> above_zero f (upd i g l)"
  by (erule get_upd_cases) (simp add: above_zero_def list_all_update)

lemma above_zero_get: "above_zero f l \<Longrightarrow> get l i = Some a \<Longrightarrow> 0 \<le> bal f a"
  by (erule get_upd_cases) (auto simp: above_zero_def list_all_length)

lemma take_from_total:
  "take_from eps f is left l = (left', l') \<Longrightarrow>
    coin_sum g l' = coin_sum g l - (if f = g then left - left' else 0) \<and> left' \<le> left \<and>
    (0 \<le> left \<longrightarrow> 0 \<le> left') \<and> (above_zero g l \<longrightarrow> above_zero g l')"
proof (induction "is" arbitrary: left l)
  case (Cons i "is")
  show ?case
  proof (cases "get l i")
    case None
    then show ?thesis using Cons by simp
  next
    case (Some a)
    define k where "k = min (bal f a) left"
    consider "left \<le> eps" | "left > eps" "k \<le> 0" | "left > eps" "k > 0" by linarith
    then show ?thesis
    proof cases
      case 3
      let ?l = "upd i (add_bal f (- k)) l"
      have t: "take_from eps f is (left - k) ?l = (left', l')"
        using Cons.prems Some 3 by (simp add: k_def Let_def min_le_iff_disj)
      have "above_zero g l \<longrightarrow> above_zero g ?l"
        using Some above_zero_upd [of g l i a "add_bal f (- k)"] above_zero_get [of g l i a]
        by (auto simp: k_def min_def)
      then show ?thesis
        using Cons.IH [OF t] total_upd_add [OF Some, of g f "- k"] 3 by (auto simp: k_def)
    qed (use Cons Some in \<open>auto simp: k_def Let_def\<close>)
  qed
qed simp

text \<open>With a pool of distinct wallets nothing is missed: all that is there is found.\<close>

lemma poolBalance_Cons:
  "poolBalance (i # is) f l = (case get l i of None \<Rightarrow> 0 | Some a \<Rightarrow> bal f a) + poolBalance is f l"
  by (simp add: poolBalance_def poolAccounts_def List.map_filter_simps split: option.split)

lemma poolBalance_upd_other:
  "i \<notin> set is \<Longrightarrow> poolBalance is f (upd i (add_bal g v) l) = poolBalance is f l"
proof (induction "is")
  case (Cons j js)
  then show ?case by (simp add: poolBalance_Cons get_upd)
qed (simp add: poolBalance_def poolAccounts_def List.map_filter_simps)

lemma poolBalance_nonneg: "above_zero f l \<Longrightarrow> 0 \<le> poolBalance is f l"
proof (induction "is")
  case (Cons j js)
  then show ?case by (simp add: poolBalance_Cons above_zero_get split: option.split)
qed (simp add: poolBalance_def poolAccounts_def List.map_filter_simps)

lemma take_from_finds:
  assumes "distinct is" and "above_zero f l" and "0 \<le> eps" and "take_from eps f is left l = (left', l')"
  shows "left' \<le> max eps (left - poolBalance is f l)"
  using assms
proof (induction "is" arbitrary: left l)
  case Nil
  then show ?case by (simp add: poolBalance_def poolAccounts_def List.map_filter_simps)
next
  case (Cons i "is")
  show ?case
  proof (cases "get l i")
    case None
    then show ?thesis using Cons by (simp add: poolBalance_Cons)
  next
    case (Some a)
    define k where "k = min (bal f a) left"
    have b: "0 \<le> bal f a" using Cons.prems(2) Some by (rule above_zero_get)
    have p: "0 \<le> poolBalance is f l" using Cons.prems(2) by (rule poolBalance_nonneg)
    consider "left \<le> eps" | "left > eps" "k \<le> 0" | "left > eps" "k > 0" by linarith
    then show ?thesis
    proof cases
      case 1
      then show ?thesis using Cons.prems Some by simp
    next
      case 2
      then have "bal f a = 0" using b Cons.prems(3) by (auto simp: k_def min_def split: if_splits)
      then show ?thesis using Cons 2 Some by (simp add: poolBalance_Cons k_def)
    next
      case 3
      let ?l = "upd i (add_bal f (- k)) l"
      have t: "take_from eps f is (left - k) ?l = (left', l')"
        using Cons.prems Some 3 by (simp add: k_def Let_def min_le_iff_disj)
      have "above_zero f ?l"
        using Cons.prems(2) Some above_zero_upd [of f l i a "add_bal f (- k)"] by (auto simp: k_def)
      then have ih: "left' \<le> max eps (left - k - poolBalance is f l)"
        using Cons.IH [OF _ _ Cons.prems(3) t] Cons.prems(1) by (simp add: poolBalance_upd_other)
      show ?thesis
      proof (cases "bal f a \<le> left")
        case True
        then show ?thesis using ih Some by (simp add: poolBalance_Cons k_def algebra_simps)
      next
        case False
        then have "left - k - poolBalance is f l \<le> 0" using p by (simp add: k_def)
        then show ?thesis using ih Cons.prems(3) by simp
      qed
    qed
  qed
qed

text \<open>The interface of a reservoir of house money: what is drawn leaves it, what is returned is back in
  it, nothing else moves. Its client is whatever funds a fighter and later collects it.\<close>

locale reservoir =
  fixes draw :: "rat \<Rightarrow> 's \<Rightarrow> rat \<times> 's"
    and give :: "rat \<Rightarrow> 's \<Rightarrow> 's"
    and level :: "'s \<Rightarrow> rat"
    and ready :: "'s \<Rightarrow> bool"
  assumes draw_level: "draw v s = (k, s') \<Longrightarrow> level s' = level s - k \<and> 0 \<le> k"
    and draw_ready: "ready s \<Longrightarrow> draw v s = (k, s') \<Longrightarrow> ready s'"
    and give_level: "ready s \<Longrightarrow> level (give w s) = level s + max 0 w"
    and give_ready: "ready s \<Longrightarrow> ready (give w s)"
begin

lemma refuse_restores:
  assumes "ready s" and "draw v s = (k, s')"
  shows "level (give k s') = level s"
  using give_level [OF draw_ready [OF assms], of k] draw_level [OF assms(2)] by simp

end

lemma get_id: "get l i = Some a \<Longrightarrow> ac_id a = i"
  by (erule get_upd_cases) simp

lemma poolAccounts_get:
  "a \<in> set (poolAccounts pool l) \<Longrightarrow> get l (ac_id a) = Some a"
  by (auto simp: poolAccounts_def List.map_filter_def) (metis get_id)

lemma poorest_in: "poorest f b as \<in> insert b (set as)"
proof (induction "as" arbitrary: b)
  case (Cons a "as")
  then show ?case using Cons.IH [of a] Cons.IH [of b] by auto
qed simp

lemma poorest_least: "\<forall>x\<in>insert b (set as). bal f (poorest f b as) \<le> bal f x"
proof (induction "as" arbitrary: b)
  case (Cons a "as")
  show ?case
  proof (cases "bal f a < bal f b")
    case True
    then show ?thesis using Cons.IH [of a] by auto
  next
    case False
    then show ?thesis using Cons.IH [of b] by auto
  qed
qed simp

lemma returnBank_total:
  "poolAccounts pool l \<noteq> [] \<Longrightarrow> coin_sum g (returnBank pool f v l) = coin_sum g l + (if f = g then max 0 v else 0)"
proof -
  assume "poolAccounts pool l \<noteq> []"
  then obtain a as where p: "poolAccounts pool l = a # as" by (cases "poolAccounts pool l") auto
  have "poorest f a (a # as) \<in> set (poolAccounts pool l)" using poorest_in [of f a "a # as"] p by auto
  then have "get l (ac_id (poorest f a (a # as))) = Some (poorest f a (a # as))" by (rule poolAccounts_get)
  from total_upd_add [OF this, of g f v] show ?thesis
    unfolding returnBank_def p list.case by (cases "f = g") auto
qed

lemma drawBank_total:
  assumes "drawBank pool f want spread l = (granted, l')"
  shows "coin_sum g l' = coin_sum g l - (if f = g then granted else 0)" and "0 \<le> granted"
    and "granted \<le> max 0 (min want (poolBalance pool f l / max 1 spread))"
    and "above_zero g l \<Longrightarrow> above_zero g l'"
proof -
  define t where "t = min want (poolBalance pool f l / max 1 spread)"
  consider "granted = 0" "l' = l"
    | left where "0 < t" "take_from 0 f pool t l = (left, l')" "granted = t - left"
    using assms by (auto simp: drawBank_def Let_def t_def split: if_splits prod.splits)
  then have "coin_sum g l' = coin_sum g l - (if f = g then granted else 0) \<and> 0 \<le> granted \<and>
    granted \<le> max 0 t \<and> (above_zero g l \<longrightarrow> above_zero g l')"
  proof cases
    case (2 left)
    then show ?thesis using take_from_total [OF 2(2), of g] by auto
  qed simp
  then show "coin_sum g l' = coin_sum g l - (if f = g then granted else 0)" "0 \<le> granted"
    "granted \<le> max 0 (min want (poolBalance pool f l / max 1 spread))"
    "above_zero g l \<Longrightarrow> above_zero g l'" by (simp_all add: t_def)
qed

lemma poolAccounts_Cons:
  "poolAccounts (i # is) l = (case get l i of None \<Rightarrow> [] | Some a \<Rightarrow> [a]) @ poolAccounts is l"
  by (simp add: poolAccounts_def List.map_filter_simps split: option.split)

lemma poolAccounts_Nil [simp]: "poolAccounts [] l = []"
  by (simp add: poolAccounts_def List.map_filter_simps)

lemma upd_ready: "poolAccounts pool (upd i (add_bal f v) l) = [] \<longleftrightarrow> poolAccounts pool l = []"
  by (induction pool) (auto simp: poolAccounts_Cons get_upd split: option.split)

lemma take_from_ready:
  "take_from eps f is left l = (left', l') \<Longrightarrow> poolAccounts pool l' = [] \<longleftrightarrow> poolAccounts pool l = []"
proof (induction "is" arbitrary: left l)
  case (Cons i "is")
  show ?case
  proof (cases "get l i")
    case None
    then show ?thesis using Cons by simp
  next
    case (Some a)
    then show ?thesis
      using Cons.prems Cons.IH [of left l]
        Cons.IH [of "left - min (bal f a) left" "upd i (add_bal f (- min (bal f a) left)) l"]
      by (auto simp: upd_ready Let_def split: if_splits)
  qed
qed simp

lemma take_from_get:
  "take_from eps f is left l = (left', l') \<Longrightarrow> i \<notin> set is \<Longrightarrow> get l' i = get l i"
proof (induction "is" arbitrary: left l)
  case (Cons j "is")
  show ?case
  proof (cases "get l j")
    case None
    then show ?thesis using Cons by simp
  next
    case (Some a)
    then show ?thesis
      using Cons.prems Cons.IH [of left l]
        Cons.IH [of "left - min (bal f a) left" "upd j (add_bal f (- min (bal f a) left)) l"]
      by (auto simp: get_upd Let_def split: if_splits)
  qed
qed simp

interpretation bank: reservoir "\<lambda>v l. drawBank pool f v spread l" "returnBank pool f" "coin_sum f"
    "\<lambda>l. poolAccounts pool l \<noteq> []" for pool f spread
proof (unfold_locales, goal_cases)
  case (1 v s k s')
  then show ?case using drawBank_total(1) [OF 1, of f] drawBank_total(2) [OF 1] by simp
next
  case (2 s v k s')
  then show ?case
    using take_from_ready [of 0 f pool _ s _ s' pool]
    by (auto simp: drawBank_def Let_def split: if_splits prod.splits)
next
  case (3 s w)
  then show ?case by (simp add: returnBank_total)
next
  case (4 s w)
  then show ?case by (auto simp: returnBank_def upd_ready split: list.split)
qed

text \<open>Whose coins a draw moves.\<close>

lemma add_bal_twice: "add_bal f v (add_bal f w a) = add_bal f (w + v) a"
  by (cases f) (simp_all add: add_bal_def)

lemma add_bal_none [simp]: "add_bal f 0 a = a"
  by (cases f) (simp_all add: add_bal_def)

lemma take_from_lowers:
  "take_from eps f is left l = (left', l') \<Longrightarrow> get l i = Some a \<Longrightarrow>
    \<exists>v\<ge>0. get l' i = Some (add_bal f (- v) a)"
proof (induction "is" arbitrary: left l a)
  case Nil
  then show ?case by (intro exI [of _ 0]) simp
next
  case (Cons j "is")
  show ?case
  proof (cases "get l j")
    case None
    then show ?thesis using Cons by simp
  next
    case (Some b)
    define k where "k = min (bal f b) left"
    consider "left \<le> eps" | "left > eps" "k \<le> 0" | "left > eps" "k > 0" by linarith
    then show ?thesis
    proof cases
      case 1
      then show ?thesis using Cons.prems Some by (intro exI [of _ 0]) simp
    next
      case 2
      then have "take_from eps f is left l = (left', l')" using Cons.prems(1) Some by (simp add: k_def Let_def)
      then show ?thesis using Cons.IH Cons.prems(2) by blast
    next
      case 3
      then have t: "take_from eps f is (left - k) (upd j (add_bal f (- k)) l) = (left', l')"
        using Cons.prems(1) Some by (simp add: k_def Let_def min_le_iff_disj)
      show ?thesis
      proof (cases "i = j")
        case True
        then have "get (upd j (add_bal f (- k)) l) i = Some (add_bal f (- k) a)"
          using Cons.prems(2) by (simp add: get_upd)
        from Cons.IH [OF t this] obtain v where "0 \<le> v" "get l' i = Some (add_bal f (- v) (add_bal f (- k) a))"
          by blast
        then show ?thesis using 3 by (intro exI [of _ "k + v"]) (simp add: add_bal_twice)
      next
        case False
        then have "get (upd j (add_bal f (- k)) l) i = Some a" using Cons.prems(2) by (simp add: get_upd)
        from Cons.IH [OF t this] show ?thesis .
      qed
    qed
  qed
qed

lemma poolBalance_upd_in:
  assumes "distinct pool" and "i \<in> set pool" and "get l i \<noteq> None"
  shows "poolBalance pool f (upd i (add_bal f v) l) = poolBalance pool f l + v"
  using assms(1,2)
proof (induction pool)
  case (Cons j js)
  then show ?case using assms(3) by (auto simp: poolBalance_Cons poolBalance_upd_other get_upd split: option.split)
qed simp

lemma take_from_pool:
  "take_from eps f is left l = (left', l') \<Longrightarrow> distinct pool \<Longrightarrow> set is \<subseteq> set pool \<Longrightarrow>
    poolBalance pool f l' = poolBalance pool f l - (left - left')"
proof (induction "is" arbitrary: left l)
  case (Cons i "is")
  show ?case
  proof (cases "get l i")
    case None
    then show ?thesis using Cons by simp
  next
    case (Some a)
    define k where "k = min (bal f a) left"
    consider "left \<le> eps" | "left > eps" "k \<le> 0" | "left > eps" "k > 0" by linarith
    then show ?thesis
    proof cases
      case 3
      let ?l = "upd i (add_bal f (- k)) l"
      have t: "take_from eps f is (left - k) ?l = (left', l')"
        using Cons.prems(1) Some 3 by (simp add: k_def Let_def min_le_iff_disj)
      have "poolBalance pool f ?l = poolBalance pool f l - k"
        using poolBalance_upd_in [of pool i l f "- k"] Cons.prems(2,3) Some by simp
      then show ?thesis using Cons.IH [OF t Cons.prems(2)] Cons.prems(3) by simp
    qed (use Cons Some in \<open>auto simp: k_def Let_def\<close>)
  qed
qed simp

lemma drawBank_whose:
  assumes "drawBank pool f want spread l = (granted, l')"
  shows "i \<notin> set pool \<Longrightarrow> get l' i = get l i"
    and "get l i = Some a \<Longrightarrow> \<exists>v\<ge>0. get l' i = Some (add_bal f (- v) a)"
    and "distinct pool \<Longrightarrow> poolBalance pool f l' = poolBalance pool f l - granted"
proof -
  consider "granted = 0" "l' = l" | t left where "take_from 0 f pool t l = (left, l')" "granted = t - left"
    using assms by (auto simp: drawBank_def Let_def split: if_splits prod.splits)
  then have "(i \<notin> set pool \<longrightarrow> get l' i = get l i) \<and>
    (get l i = Some a \<longrightarrow> (\<exists>v\<ge>0. get l' i = Some (add_bal f (- v) a))) \<and>
    (distinct pool \<longrightarrow> poolBalance pool f l' = poolBalance pool f l - granted)" for a i
  proof cases
    case 1
    then show ?thesis by (auto intro!: exI [of _ 0])
  next
    case 2
    then show ?thesis using take_from_get take_from_lowers take_from_pool [OF 2(1), of pool] by simp
  qed
  then show "i \<notin> set pool \<Longrightarrow> get l' i = get l i"
    "get l i = Some a \<Longrightarrow> \<exists>v\<ge>0. get l' i = Some (add_bal f (- v) a)"
    "distinct pool \<Longrightarrow> poolBalance pool f l' = poolBalance pool f l - granted" by blast+
qed

lemma returnBank_whose: "i \<notin> set pool \<Longrightarrow> get (returnBank pool f v l) i = get l i"
proof (cases "0 < v \<and> poolAccounts pool l \<noteq> []")
  case True
  then obtain a as where p: "poolAccounts pool l = a # as" by (cases "poolAccounts pool l") auto
  let ?b = "poorest f a (a # as)"
  have "?b \<in> set (poolAccounts pool l)" using poorest_in [of f a "a # as"] p by auto
  then have "ac_id ?b \<in> set pool" by (auto simp: poolAccounts_def List.map_filter_def dest: get_id)
  moreover assume "i \<notin> set pool"
  ultimately show ?thesis
    using True unfolding returnBank_def p list.case by (auto simp: get_upd simp del: poorest.simps)
qed (auto simp: returnBank_def)

text \<open>C29: House money is only moved, never made, and only out of the pool's wallets. A draw grants at
  least nothing, and no more than was asked or than the fair share of the float. Each account keeps
  everything but may hold less of the coin drawn, and one that is not the pool's is exactly what it was;
  what the book holds of the coin falls by what was granted, and so does the float when no wallet is
  listed twice; nobody goes below zero. Handed back to a pool that has an account, as a bot that cannot
  afford a stake hands back its bank, the coin's total is what it was and still no account outside the
  pool has changed.\<close>

theorem bank_draws_are_real:
  assumes "drawBank pool f want spread l = (granted, l')" and "above_zero f l"
  shows "0 \<le> granted \<and> granted \<le> max 0 (min want (poolBalance pool f l / max 1 spread)) \<and>
    (\<forall>i. i \<notin> set pool \<longrightarrow> get l' i = get l i \<and> get (returnBank pool f granted l') i = get l i) \<and>
    (\<forall>i a. get l i = Some a \<longrightarrow> (\<exists>v\<ge>0. get l' i = Some (add_bal f (- v) a))) \<and>
    (distinct pool \<longrightarrow> poolBalance pool f l' = poolBalance pool f l - granted) \<and>
    coin_sum f l' = coin_sum f l - granted \<and> above_zero f l' \<and>
    (\<forall>g. g \<noteq> f \<longrightarrow> coin_sum g l' = coin_sum g l) \<and>
    (poolAccounts pool l \<noteq> [] \<longrightarrow> coin_sum f (returnBank pool f granted l') = coin_sum f l)"
proof (intro conjI)
  show "0 \<le> granted" "granted \<le> max 0 (min want (poolBalance pool f l / max 1 spread))"
    "coin_sum f l' = coin_sum f l - granted" "above_zero f l'" "\<forall>g. g \<noteq> f \<longrightarrow> coin_sum g l' = coin_sum g l"
    using drawBank_total(1,4) [OF assms(1)] drawBank_total(2,3) [OF assms(1)] assms(2) by auto
  show "poolAccounts pool l \<noteq> [] \<longrightarrow> coin_sum f (returnBank pool f granted l') = coin_sum f l"
    using bank.refuse_restores [OF _ assms(1)] by simp
  show "\<forall>i. i \<notin> set pool \<longrightarrow> get l' i = get l i \<and> get (returnBank pool f granted l') i = get l i"
    using drawBank_whose(1) [OF assms(1)] returnBank_whose by simp
  show "\<forall>i a. get l i = Some a \<longrightarrow> (\<exists>v\<ge>0. get l' i = Some (add_bal f (- v) a))"
    "distinct pool \<longrightarrow> poolBalance pool f l' = poolBalance pool f l - granted"
    using drawBank_whose(2,3) [OF assms(1)] by blast+
qed

definition pool_wallet :: "string \<Rightarrow> rat \<Rightarrow> account" where
  "pool_wallet i v = (new_account i ''house'' Bull True)\<lparr>ac_uwu := v, depIn := v\<rparr>"

theorem bank_draws_are_real_witness:
  "drawBank [''w'', ''v''] FUwu 30 1 [pool_wallet ''w'' 20, pool_wallet ''v'' 40] =
     (30, [pool_wallet ''w'' 20\<lparr>ac_uwu := 0\<rparr>, pool_wallet ''v'' 40\<lparr>ac_uwu := 30\<rparr>]) \<and>
   coin_sum FUwu [pool_wallet ''w'' 20\<lparr>ac_uwu := 0\<rparr>, pool_wallet ''v'' 40\<lparr>ac_uwu := 30\<rparr>] = 60 - 30"
proof -
  have d: "drawBank [''w'', ''v''] FUwu 30 1 [pool_wallet ''w'' 20, pool_wallet ''v'' 40] =
     (30, [pool_wallet ''w'' 20\<lparr>ac_uwu := 0\<rparr>, pool_wallet ''v'' 40\<lparr>ac_uwu := 30\<rparr>])"
    by (simp add: drawBank_def poolBalance_def poolAccounts_def List.map_filter_simps get_def upd_def
        add_bal_def pool_wallet_def new_account_def)
  moreover have "above_zero FUwu [pool_wallet ''w'' 20, pool_wallet ''v'' 40]"
    by (simp add: above_zero_def pool_wallet_def)
  ultimately show ?thesis
    using bank_draws_are_real [OF d] by (simp add: coin_sum_def pool_wallet_def new_account_def)
qed

lemma takeExact_cases:
  assumes "takeExact pool f amount l = (ok, l')"
  obtains (refused) "\<not> ok" "l' = l"
  | (taken) left where "0 < amount" "amount \<le> poolBalance pool f l + 1 / 10 ^ 9"
      "take_from (1 / 10 ^ 12) f pool amount l = (left, l')" "ok \<longleftrightarrow> left \<le> 1 / 10 ^ 9"
  using assms by (auto simp: takeExact_def Let_def not_less split: if_splits prod.splits)

text \<open>An exact amount or nothing, as long as the pool lists every wallet once and nobody is below
  zero: \<open>takeExact\<close> says yes when it has taken the amount up to a billionth, and when it says no
  it has not touched the book.\<close>

theorem exact_or_nothing:
  assumes "distinct pool" and "above_zero f l" and "takeExact pool f amount l = (ok, l')"
  shows "if ok then amount - 1 / 10 ^ 9 \<le> coin_sum f l - coin_sum f l' \<and> coin_sum f l - coin_sum f l' \<le> amount
      \<and> above_zero f l'
    else l' = l"
  using assms(3)
proof (cases rule: takeExact_cases)
  case refused
  then show ?thesis by simp
next
  case (taken left)
  have "left \<le> max (1 / 10 ^ 12) (amount - poolBalance pool f l)"
    using take_from_finds [OF assms(1,2) _ taken(3)] by simp
  then have "left \<le> 1 / 10 ^ 9" using taken(2) by auto
  then show ?thesis using take_from_total [OF taken(3), of f] taken assms(2) by auto
qed

theorem exact_or_nothing_witness:
  "fst (takeExact [''w'', ''v''] FUwu 30 [pool_wallet ''w'' 20, pool_wallet ''v'' 5]) = False \<and>
   snd (takeExact [''w'', ''v''] FUwu 30 [pool_wallet ''w'' 20, pool_wallet ''v'' 5]) =
     [pool_wallet ''w'' 20, pool_wallet ''v'' 5]"
proof -
  have d: "takeExact [''w'', ''v''] FUwu 30 [pool_wallet ''w'' 20, pool_wallet ''v'' 5] =
     (False, snd (takeExact [''w'', ''v''] FUwu 30 [pool_wallet ''w'' 20, pool_wallet ''v'' 5]))"
    by (simp add: takeExact_def poolBalance_def poolAccounts_def List.map_filter_simps get_def
        pool_wallet_def new_account_def)
  have "above_zero FUwu [pool_wallet ''w'' 20, pool_wallet ''v'' 5]"
    by (simp add: above_zero_def pool_wallet_def)
  from exact_or_nothing [OF _ this d] d show ?thesis by (auto dest: arg_cong [of _ _ fst])
qed

text \<open>The list of the pool comes from the environment as it is written there. A wallet listed twice is
  counted twice, so a request the pool cannot meet passes the first check, takes all there is and then
  reports that it took nothing.\<close>

theorem duplicate_wallet_burns_the_float:
  "fst (takeExact [''w'', ''w''] FUwu 100 [pool_wallet ''w'' 60]) = False \<and>
   coin_sum FUwu (snd (takeExact [''w'', ''w''] FUwu 100 [pool_wallet ''w'' 60])) = 0"
  by (simp add: takeExact_def poolBalance_def poolAccounts_def List.map_filter_simps get_def upd_def
      add_bal_def pool_wallet_def new_account_def coin_sum_def)

subsection \<open>Re-anchoring to the chain\<close>

lemma claims_split: "coin_sum f l = house_claim pool f l + player_claim pool f l"
  unfolding coin_sum_def house_claim_def player_claim_def
  by (induction l) auto

lemma player_claim_map:
  assumes "\<And>a. ac_id (g a) = ac_id a" and "\<And>a. isBot (g a) = isBot a"
    and "\<And>a. ac_id a \<notin> set pool \<Longrightarrow> g a = a"
  shows "player_claim pool f (map g l) = player_claim pool f l"
  unfolding player_claim_def using assms by (induction l) auto

lemma pool_accts_map:
  "(\<And>a. ac_id (g a) = ac_id a) \<Longrightarrow> length (pool_accts pool (map g l)) = length (pool_accts pool l)"
  by (induction l) (simp_all add: pool_accts_def)

lemma sum_each:
  "sum_list (map (\<lambda>a. bal f (if ac_id a \<in> set pool then add_bal f v a else a)) l) =
    coin_sum f l + of_nat (length (pool_accts pool l)) * v"
  by (induction l) (auto simp: coin_sum_def pool_accts_def algebra_simps)

text \<open>A resync credits the house exactly what the vault holds beyond all claims. When it moves
  anything, the whole book, players, house and the stakes still on the table, afterwards adds up to the
  chain reading; players and bots keep their balances to the unit, every pool wallet gets the same
  positive amount, and a second resync finds nothing to do. When the book claims more than the vault
  holds, nothing is written.\<close>

theorem resync_is_exact:
  assumes "resyncPoolToChain l pool f chainHeld minGap openStake = (r, l')"
  shows "(case r of
      Inr (moved, from', to') \<Rightarrow>
        coin_sum f l' + openStake = chainHeld \<and> 1 / 10000 < moved \<and> minGap \<le> moved \<and>
        player_claim pool f l' = player_claim pool f l \<and>
        (\<forall>a\<in>set l. ac_id a \<notin> set pool \<longrightarrow> a \<in> set l') \<and>
        l' = map (\<lambda>a. if ac_id a \<in> set pool
                       then add_bal f (moved / of_nat (length (pool_accts pool l))) a else a) l \<and>
        fst (resyncPoolToChain l' pool f chainHeld minGap openStake) = Inl InSync
    | Inl why \<Rightarrow> l' = l) \<and>
    (chainHeld < coin_sum f l + openStake \<longrightarrow> l' = l)"
proof (cases r)
  case (Inl why)
  then show ?thesis using assms by (auto simp: resyncPoolToChain_def Let_def split: if_splits)
next
  case (Inr m)
  define n where "n = length (pool_accts pool l)"
  define gap where "gap = chainHeld - player_claim pool f l - openStake - house_claim pool f l"
  have n: "n \<noteq> 0" and g: "1 / 10000 < gap" "minGap \<le> gap"
    and target: "0 < chainHeld - player_claim pool f l - openStake"
    and m: "m = (gap, house_claim pool f l, house_claim pool f l + gap)"
    and l': "l' = map (\<lambda>a. if ac_id a \<in> set pool then add_bal f (gap / of_nat n) a else a) l"
    using assms Inr by (auto simp: resyncPoolToChain_def Let_def n_def gap_def not_le split: if_splits)
  have s: "coin_sum f l' = coin_sum f l + gap"
    using sum_each [of f pool "gap / of_nat n" l] n by (simp add: l' coin_sum_def n_def [symmetric] o_def)
  have total: "coin_sum f l' + openStake = chainHeld"
    using s claims_split [of f l pool] by (simp add: gap_def)
  have p: "player_claim pool f l' = player_claim pool f l"
    unfolding l' by (rule player_claim_map) auto
  have "house_claim pool f l' = chainHeld - player_claim pool f l' - openStake"
    using total claims_split [of f l' pool] by simp
  moreover have "length (pool_accts pool l') = n"
    unfolding l' n_def by (rule pool_accts_map) simp
  ultimately have again: "fst (resyncPoolToChain l' pool f chainHeld minGap openStake) = Inl InSync"
    using n target p by (simp add: resyncPoolToChain_def Let_def)
  have keep: "\<forall>a\<in>set l. ac_id a \<notin> set pool \<longrightarrow> a \<in> set l'" by (auto simp: l' image_iff)
  show ?thesis
    using Inr m total g p again keep l' s by (auto simp: n_def)
qed

theorem resync_is_exact_witness:
  "coin_sum FUwu (snd (resyncPoolToChain [pool_wallet ''w'' 20] [''w''] FUwu 100 1 30)) + 30 = 100"
proof -
  define l' where "l' = snd (resyncPoolToChain [pool_wallet ''w'' 20] [''w''] FUwu 100 1 30)"
  have d: "resyncPoolToChain [pool_wallet ''w'' 20] [''w''] FUwu 100 1 30 = (Inr (50, 20, 70), l')"
    unfolding l'_def by (simp add: resyncPoolToChain_def house_claim_def player_claim_def pool_accts_def
        pool_wallet_def new_account_def)
  show ?thesis
    using resync_is_exact [OF d] unfolding l'_def [symmetric] sum.case prod.case by (elim conjE)
qed

lemma house_pool_split:
  "house_claim pool f l = sum_list (map (bal f) (pool_accts pool l)) +
     sum_list (map (\<lambda>a. if ac_id a \<notin> set pool \<and> isBot a then bal f a else 0) l)"
  unfolding house_claim_def pool_accts_def by (induction l) auto

lemma scaled_pool_sum:
  assumes "0 < held" and "0 \<le> e" and "e \<le> held" and "\<forall>a\<in>set (pool_accts pool l). 0 \<le> bal f a"
  shows "sum_list (map (\<lambda>a. bal f (if ac_id a \<in> set pool
            then set_bal f (max 0 (bal f a - e * (bal f a / held))) a else a)) l) =
    coin_sum f l - e * (sum_list (map (bal f) (pool_accts pool l)) / held)"
  using assms(4)
proof (induction l)
  case (Cons a l)
  have "0 \<le> bal f a - e * (bal f a / held)" if "0 \<le> bal f a"
  proof -
    have "e * (bal f a / held) \<le> held * (bal f a / held)"
      using assms(1,3) that by (intro mult_right_mono) auto
    then show ?thesis using assms(1) by simp
  qed
  then show ?case
    using Cons by (cases "ac_id a \<in> set pool") (auto simp: coin_sum_def pool_accts_def algebra_simps add_divide_distrib max_def)
qed (simp add: coin_sum_def pool_accts_def)

text \<open>Writing down the house's phantom float ends at the chain reading. When the correction writes
  anything off, the whole book afterwards adds up to what the vault holds, no player's and no bot's
  balance has moved, no pool wallet is below zero, and the players are fully backed; in every refused
  case, a shortfall of the players among them, the book is untouched.\<close>

theorem write_down_is_exact:
  assumes "writeDownOverclaim l pool f chainHeld openStake maxFrac minExcess = (r, l')"
    and "\<forall>a\<in>set (pool_accts pool l). 0 \<le> bal f a" and "0 \<le> minExcess"
  shows "(case r of
      Inr (wrote, from', to') \<Rightarrow>
        coin_sum f l' + openStake = chainHeld \<and> minExcess < wrote \<and>
        player_claim pool f l' = player_claim pool f l \<and> player_claim pool f l' \<le> chainHeld \<and>
        (\<forall>a\<in>set l. ac_id a \<notin> set pool \<longrightarrow> a \<in> set l') \<and>
        (\<forall>a\<in>set (pool_accts pool l'). 0 \<le> bal f a)
    | Inl why \<Rightarrow> l' = l) \<and>
    (chainHeld < player_claim pool f l \<longrightarrow> l' = l)"
proof (cases r)
  case (Inl why)
  then show ?thesis using assms(1) by (auto simp: writeDownOverclaim_def Let_def split: if_splits)
next
  case (Inr m)
  define excess where "excess = house_claim pool f l + player_claim pool f l + openStake - chainHeld"
  define held where "held = sum_list (map (bal f) (pool_accts pool l))"
  have e: "minExcess < excess" "excess \<le> held" and b: "player_claim pool f l \<le> chainHeld"
    and m: "m = (excess, house_claim pool f l, house_claim pool f l - excess)"
    and l': "l' = map (\<lambda>a. if ac_id a \<in> set pool
                 then set_bal f (max 0 (bal f a - excess * (bal f a / held))) a else a) l"
    using assms(1) Inr by (auto simp: writeDownOverclaim_def Let_def held_def excess_def not_le not_less split: if_splits)
  have "coin_sum f l' = coin_sum f l - excess"
    using scaled_pool_sum [of held excess pool l f] e assms(2,3)
    by (simp add: l' coin_sum_def held_def [symmetric] o_def)
  then have total: "coin_sum f l' + openStake = chainHeld"
    using claims_split [of f l pool] by (simp add: excess_def)
  have p: "player_claim pool f l' = player_claim pool f l"
    unfolding l' by (rule player_claim_map) auto
  have "\<forall>a\<in>set l. ac_id a \<notin> set pool \<longrightarrow> a \<in> set l'" by (auto simp: l' image_iff)
  moreover have "\<forall>a\<in>set (pool_accts pool l'). 0 \<le> bal f a" by (auto simp: l' pool_accts_def)
  ultimately show ?thesis using Inr m total e b p by auto
qed

theorem write_down_is_exact_witness:
  "coin_sum FUwu (snd (writeDownOverclaim [pool_wallet ''w'' 60] [''w''] FUwu 70 20 (1 / 4) 0)) + 20 = 70"
proof -
  define l' where "l' = snd (writeDownOverclaim [pool_wallet ''w'' 60] [''w''] FUwu 70 20 (1 / 4) 0)"
  have d: "writeDownOverclaim [pool_wallet ''w'' 60] [''w''] FUwu 70 20 (1 / 4) 0 = (Inr (10, 60, 50), l')"
    unfolding l'_def by (simp add: writeDownOverclaim_def house_claim_def player_claim_def pool_accts_def
        pool_wallet_def new_account_def)
  have n: "\<forall>a\<in>set (pool_accts [''w''] [pool_wallet ''w'' 60]). 0 \<le> bal FUwu a"
    by (simp add: pool_accts_def pool_wallet_def)
  show ?thesis
    using write_down_is_exact [OF d n] unfolding l'_def [symmetric] sum.case prod.case by simp
qed

subsection \<open>The one-shot recovery\<close>

definition recovered_ok :: "string list \<Rightarrow> account \<Rightarrow> account \<Rightarrow> bool" where
  "recovered_ok pool a a' \<longleftrightarrow>
     (a' = a \<or> ac_id a \<in> set pool \<and> ac_bull a' = ac_bull a \<and>
        (ac_uwu a' = ac_uwu a \<or> ac_uwu a' = token_backed a) \<and> (ac_sol a' = ac_sol a \<or> ac_sol a' = sol_backed a))"

text \<open>The recovery restores deposits, once. An account it changes is a pool wallet, and a balance it
  changes goes to exactly what that wallet's own deposit record says; with the marker set, nothing
  changes. But the check that is to keep it within the vault adds the recovered amounts to the players'
  balances only: the pool wallets that were never wiped are left out of the sum, so a recovery that
  passes the check can leave the book owing twice what the vault holds.\<close>

theorem recovery_overlooks_the_pool:
  "list_all2 (recovered_ok pool) l (snd (recoverInPlace l pool held already)) \<and>
   snd (recoverInPlace l pool held True) = l \<and>
   (let book = [pool_wallet ''w'' 100, (pool_wallet ''v'' 100)\<lparr>ac_uwu := 0\<rparr>];
        out = recoverInPlace book [''w'', ''v''] \<lparr>held_uwu = 100, held_solUsd = 0\<rparr> False
    in fst out = Inr (1, 100, 0) \<and> coin_sum FUwu (snd out) = 200)"
proof -
  have same: "list_all2 (recovered_ok pool) l l"
    by (rule list_all2_refl) (simp add: recovered_ok_def)
  have one: "recovered_ok pool a (if in_plan pool a then add_bal FSol (addSol a) (add_bal FUwu (addUwu a) a) else a)" for a
    by (auto simp: recovered_ok_def in_plan_def add_bal_def addUwu_def addSol_def max_def)
  have "list_all2 (recovered_ok pool) l
      (map (\<lambda>a. if in_plan pool a then add_bal FSol (addSol a) (add_bal FUwu (addUwu a) a) else a) l)"
    unfolding list.rel_map by (rule list.rel_refl_strong) (rule one)
  then have "list_all2 (recovered_ok pool) l (snd (recoverInPlace l pool held already))"
    using same by (auto simp: recoverInPlace_def Let_def)
  then show ?thesis
    by (simp add: recoverInPlace_def in_plan_def addUwu_def addSol_def wiped_def token_backed_def
        sol_backed_def pool_wallet_def new_account_def add_bal_def coin_sum_def)
qed

end
