(* ===== verification/Engine_Gate.thy ===== *)
theory Engine_Gate
  imports Js_Number
begin

text \<open>
  What stands between a socket and the engine's money: the budgets of \<open>engine/src/limits.ts\<close> and
  of the HTTP surface of \<open>server.ts\<close>, the connection cap and the way the server wires it to a
  socket's events, and the proof of wallet ownership of \<open>auth.ts\<close> with the guard the message
  handler applies.

  Sockets are named by numbers. The clock (\<open>Date.now()\<close>, milliseconds), the random part of a
  nonce, the curve's signature check, the key parser, the base64 codecs and the HMAC of the runtime are
  inputs or the fields of \<open>crypto\<close>; nothing is assumed of them except where a theorem says so.
\<close>

subsection \<open>Budgets\<close>

record limits =
  ratePerSec :: rat
  burst :: rat
  maxPerIp :: nat
  limits_off :: bool

lemma js_NaN:
  "js_add NaN x = NaN" "js_add x NaN = NaN" "\<not> js_less NaN x" "\<not> js_less x NaN"
  by (cases x; simp)+

lemma js_min_simps [simp]:
  "js_min NaN y = NaN" "js_min x NaN = NaN"
  "js_min (Fin a) (Fin b) = (if b < a then Fin b else Fin a)"
  "js_min (Fin a) PosInf = Fin a" "js_min (Fin a) NegInf = NegInf"
  by (simp_all add: js_min_def)

record bucket =
  tokens :: jsnum
  last :: rat
  dropped :: nat

text \<open>The table of costs is an object literal, and \<open>COST[type]\<close> also finds what every object inherits.
  Those values are functions (one is an object): not falsy, and \<open>NaN\<close> in arithmetic and in
  comparisons.\<close>

definition inherited_name :: "string \<Rightarrow> bool" where
  "inherited_name t \<longleftrightarrow>
     t \<in> {''constructor'', ''toString'', ''toLocaleString'', ''valueOf'', ''hasOwnProperty'', ''isPrototypeOf'',
           ''propertyIsEnumerable'', ''__proto__'', ''__defineGetter__'', ''__defineSetter__'',
           ''__lookupGetter__'', ''__lookupSetter__''}"

definition COST :: "string \<Rightarrow> jsnum option" where
  "COST t =
     (if t = ''authChallenge'' then Some (Fin 4) else if t = ''authVerify'' then Some (Fin 8)
      else if t \<in> {''buildDeposit'', ''buildSolDeposit'', ''deposit'', ''depositSol'', ''withdraw'', ''withdrawSol''}
      then Some (Fin 6)
      else if t = ''fundMe'' \<or> t = ''faucet'' then Some (Fin 10)
      else if t = ''chainBalance'' \<or> t = ''solBalance'' then Some (Fin 4)
      else if inherited_name t then Some NaN
      else None)"

definition DEFAULT_COST :: rat where "DEFAULT_COST = 1"

text \<open>\<open>(type && COST[type]) || DEFAULT_COST\<close>; the empty type is falsy.\<close>

definition message_cost :: "string option \<Rightarrow> jsnum" where
  "message_cost t =
     (case t of None \<Rightarrow> Fin DEFAULT_COST
      | Some s \<Rightarrow> if s = [] then Fin DEFAULT_COST
                   else case COST s of None \<Rightarrow> Fin DEFAULT_COST | Some k \<Rightarrow> k)"

record gate =
  buckets :: "nat \<rightharpoonup> bucket"
  perIp :: "string \<rightharpoonup> nat"

definition bucket_of :: "limits \<Rightarrow> nat \<Rightarrow> rat \<Rightarrow> gate \<Rightarrow> bucket" where
  "bucket_of c ws now g =
     (case buckets g ws of None \<Rightarrow> \<lparr>tokens = Fin (burst c), last = now, dropped = 0\<rparr> | Some b \<Rightarrow> b)"

definition charge :: "limits \<Rightarrow> rat \<Rightarrow> jsnum \<Rightarrow> bucket \<Rightarrow> bool \<times> bucket" where
  "charge c now cost b =
     (let b1 = b\<lparr>tokens := js_min (Fin (burst c))
                            (js_add (tokens b) (Fin ((now - last b) / 1000 * ratePerSec c))), last := now\<rparr>
      in if js_less (tokens b1) cost then (False, b1\<lparr>dropped := dropped b1 + 1\<rparr>)
         else (True, b1\<lparr>tokens := js_sub (tokens b1) cost\<rparr>))"

definition allowMessage :: "limits \<Rightarrow> nat \<Rightarrow> string option \<Rightarrow> rat \<Rightarrow> gate \<Rightarrow> bool \<times> gate" where
  "allowMessage c ws t now g =
     (if limits_off c then (True, g)
      else
        let (ok, b) = charge c now (message_cost t) (bucket_of c ws now g)
        in (ok, g\<lparr>buckets := (buckets g)(ws \<mapsto> b)\<rparr>))"

definition droppedFor :: "nat \<Rightarrow> gate \<Rightarrow> nat" where
  "droppedFor ws g = (case buckets g ws of None \<Rightarrow> 0 | Some b \<Rightarrow> dropped b)"

definition connectionsFor :: "string \<Rightarrow> gate \<Rightarrow> nat" where
  "connectionsFor ip g = (case perIp g ip of None \<Rightarrow> 0 | Some n \<Rightarrow> n)"

definition connectionAllowed :: "limits \<Rightarrow> string \<Rightarrow> gate \<Rightarrow> bool \<times> gate" where
  "connectionAllowed c ip g =
     (if limits_off c then (True, g)
      else if connectionsFor ip g \<ge> maxPerIp c then (False, g)
      else (True, g\<lparr>perIp := (perIp g)(ip \<mapsto> connectionsFor ip g + 1)\<rparr>))"

text \<open>\<open>(perIp.get(ip) || 1) - 1\<close>; a count of zero is never stored.\<close>

definition releaseConnection :: "limits \<Rightarrow> nat \<Rightarrow> string \<Rightarrow> gate \<Rightarrow> gate" where
  "releaseConnection c ws ip g =
     (let g1 = g\<lparr>buckets := (buckets g)(ws := None)\<rparr> in
      if limits_off c then g1
      else
        let n = (if connectionsFor ip g = 0 then 1 else connectionsFor ip g) - 1
        in if n = 0 then g1\<lparr>perIp := (perIp g1)(ip := None)\<rparr> else g1\<lparr>perIp := (perIp g1)(ip \<mapsto> n)\<rparr>)"

definition resetLimits :: "gate \<Rightarrow> gate" where
  "resetLimits g = g\<lparr>buckets := Map.empty, perIp := Map.empty\<rparr>"

text \<open>The budget of the HTTP surface, per address. Its table is bounded: when it is full the stalest half
  goes before a new address is entered. The table is a list of rows in insertion order.\<close>

record http_row =
  h_ip :: string
  h_tokens :: rat
  h_at :: rat

definition RL_MAX_KEYS :: nat where "RL_MAX_KEYS = 5000"

definition http_sweep :: "http_row list \<Rightarrow> http_row list" where
  "http_sweep rows =
     (if length rows \<ge> RL_MAX_KEYS
      then let stale = map h_ip (take (RL_MAX_KEYS div 2) (sort_key h_at rows))
           in filter (\<lambda>r. h_ip r \<notin> set stale) rows
      else rows)"

definition http_find :: "string \<Rightarrow> http_row list \<Rightarrow> http_row option" where
  "http_find ip rows = List.find (\<lambda>r. h_ip r = ip) rows"

definition http_spend :: "rat \<Rightarrow> rat \<Rightarrow> rat \<Rightarrow> http_row \<Rightarrow> bool \<times> http_row" where
  "http_spend rlBurst rlPerSec now b =
     (let t = min rlBurst (h_tokens b + (now - h_at b) / 1000 * rlPerSec)
      in if t < 1 then (False, b\<lparr>h_tokens := t, h_at := now\<rparr>)
         else (True, b\<lparr>h_tokens := t - 1, h_at := now\<rparr>))"

definition rateLimited :: "rat \<Rightarrow> rat \<Rightarrow> string \<Rightarrow> rat \<Rightarrow> http_row list \<Rightarrow> bool \<times> http_row list" where
  "rateLimited rlBurst rlPerSec ip now rows =
     (let rows1 = (if http_find ip rows = None
                   then http_sweep rows @ [\<lparr>h_ip = ip, h_tokens = rlBurst, h_at = now\<rparr>] else rows)
      in case find_index (\<lambda>r. h_ip r = ip) rows1 of
           None \<Rightarrow> (False, rows1)
         | Some k \<Rightarrow> let (ok, b) = http_spend rlBurst rlPerSec now (rows1 ! k) in (\<not> ok, rows1[k := b]))"

subsection \<open>The law of a token bucket\<close>

text \<open>What both budgets promise of a bucket in order. \<open>level\<close> and \<open>stamp\<close> read a bucket,
  \<open>spend now k\<close> asks it for a message \<open>k\<close>, which has a \<open>price\<close>.\<close>

locale token_bucket =
  fixes sound :: "'b \<Rightarrow> bool"
    and level :: "'b \<Rightarrow> rat"
    and stamp :: "'b \<Rightarrow> rat"
    and price :: "'k \<Rightarrow> rat"
    and spend :: "rat \<Rightarrow> 'k \<Rightarrow> 'b \<Rightarrow> bool \<times> 'b"
    and speed :: rat
  assumes spend_sound: "sound b \<Longrightarrow> spend now k b = (ok, b') \<Longrightarrow> sound b' \<and> stamp b' = now"
    and spend_level: "sound b \<Longrightarrow> spend now k b = (ok, b') \<Longrightarrow>
      level b' \<le> level b + (now - stamp b) / 1000 * speed - (if ok then price k else 0)"
    and spend_covers: "sound b \<Longrightarrow> spend now k b = (True, b') \<Longrightarrow> 0 \<le> level b'"
begin

fun granted :: "(rat \<times> 'k) list \<Rightarrow> 'b \<Rightarrow> rat \<times> 'b" where
  "granted [] b = (0, b)"
| "granted ((now, k) # rest) b =
     (let (ok, b1) = spend now k b; (v, b2) = granted rest b1 in ((if ok then price k else 0) + v, b2))"

lemma granted_level:
  "sound b \<Longrightarrow> granted ms b = (v, b') \<Longrightarrow>
    sound b' \<and> v + level b' \<le> level b + (stamp b' - stamp b) / 1000 * speed"
proof (induction ms arbitrary: b v)
  case (Cons m ms)
  obtain now k where m: "m = (now, k)" by fastforce
  obtain ok b1 where s: "spend now k b = (ok, b1)" by fastforce
  obtain w where g: "granted ms b1 = (w, b')" "v = (if ok then price k else 0) + w"
    using Cons.prems m s by (auto split: prod.splits)
  have b1: "sound b1" "stamp b1 = now" using spend_sound [OF Cons.prems(1) s] by simp_all
  have "(stamp b' - stamp b) / 1000 * speed =
      (stamp b' - stamp b1) / 1000 * speed + (now - stamp b) / 1000 * speed"
    unfolding b1(2) [symmetric] by (simp add: field_simps)
  then show ?case
    using Cons.IH [OF b1(1) g(1)] spend_level [OF Cons.prems(1) s] unfolding g(2) by linarith
qed simp

text \<open>What a bucket grants up to and including a message it grants is at most its fill plus the refill of
  the time since.\<close>

lemma granted_bound:
  assumes "sound b" and "granted ms b = (v, b1)" and "spend now k b1 = (True, b2)"
  shows "v + price k \<le> level b + (now - stamp b) / 1000 * speed"
proof -
  have e: "(now - stamp b) / 1000 * speed =
      (stamp b1 - stamp b) / 1000 * speed + (now - stamp b1) / 1000 * speed"
    by (simp add: field_simps)
  have s: "sound b1" and "v + level b1 \<le> level b + (stamp b1 - stamp b) / 1000 * speed"
    using granted_level [OF assms(1,2)] by simp_all
  moreover have "level b2 \<le> level b1 + (now - stamp b1) / 1000 * speed - price k"
    using spend_level [OF s assms(3)] by simp
  moreover have "0 \<le> level b2" by (rule spend_covers [OF s assms(3)])
  ultimately show ?thesis unfolding e by linarith
qed

end

fun fill :: "jsnum \<Rightarrow> rat" where
  "fill (Fin q) = q"
| "fill x = 0"

interpretation socket_budget: token_bucket "\<lambda>b. js_isFinite (tokens b)" "\<lambda>b. fill (tokens b)" last "\<lambda>k. k"
    "\<lambda>now k. charge c now (Fin k)" "ratePerSec c" for c
proof (unfold_locales, goal_cases)
  case (1 b now k ok b')
  then obtain q where "tokens b = Fin q" by (cases "tokens b") auto
  with 1 show ?case by (auto simp: charge_def Let_def split: if_splits)
next
  case (2 b now k ok b')
  then obtain q where "tokens b = Fin q" by (cases "tokens b") auto
  with 2 show ?case by (auto simp: charge_def Let_def split: if_splits)
next
  case (3 b now k b')
  then obtain q where "tokens b = Fin q" by (cases "tokens b") auto
  with 3 show ?case by (auto simp: charge_def Let_def split: if_splits)
qed

interpretation http_budget: token_bucket "\<lambda>b. True" h_tokens h_at "\<lambda>k :: unit. 1"
    "\<lambda>now k. http_spend rlBurst rlPerSec now" rlPerSec for rlBurst rlPerSec
  by unfold_locales (auto simp: http_spend_def Let_def split: if_splits)

subsection \<open>A socket and its budget\<close>

type_synonym message = "nat \<times> string option \<times> rat"

fun gate_run :: "limits \<Rightarrow> message list \<Rightarrow> gate \<Rightarrow> bool list \<times> gate" where
  "gate_run c [] g = ([], g)"
| "gate_run c ((ws, t, now) # ms) g =
     (let (ok, g1) = allowMessage c ws t now g; (oks, g2) = gate_run c ms g1 in (ok # oks, g2))"

text \<open>The cost of a message with an ordinary name, and what a socket was granted of a run.\<close>

definition ordinary :: "string option \<Rightarrow> bool" where
  "ordinary t \<longleftrightarrow> js_isFinite (message_cost t)"

definition cost_of :: "string option \<Rightarrow> rat" where
  "cost_of t = fill (message_cost t)"

definition granted_to :: "limits \<Rightarrow> nat \<Rightarrow> message list \<Rightarrow> gate \<Rightarrow> rat" where
  "granted_to c ws ms g =
     sum_list (map (\<lambda>((w, t, now), ok). if w = ws \<and> ok then cost_of t else 0) (zip ms (fst (gate_run c ms g))))"

definition own :: "nat \<Rightarrow> message list \<Rightarrow> (rat \<times> rat) list" where
  "own ws ms = map (\<lambda>(w, t, now). (now, cost_of t)) (filter (\<lambda>(w, t, now). w = ws) ms)"

lemma ordinary_cost: "ordinary t \<Longrightarrow> message_cost t = Fin (cost_of t)"
  by (cases "message_cost t") (simp_all add: ordinary_def cost_of_def)

lemma allowMessage_other: "w \<noteq> ws \<Longrightarrow> buckets (snd (allowMessage c w t now g)) ws = buckets g ws"
  by (auto simp: allowMessage_def Let_def case_prod_beta)

lemma granted_to_Cons:
  "granted_to c ws ((w, t, now) # ms) g =
     (if w = ws \<and> fst (allowMessage c w t now g) then cost_of t else 0) +
     granted_to c ws ms (snd (allowMessage c w t now g))"
  by (cases "w = ws") (simp_all add: granted_to_def case_prod_beta)

lemma gate_run_Cons:
  "fst (gate_run c ((w, t, now) # ms) g) =
     fst (allowMessage c w t now g) # fst (gate_run c ms (snd (allowMessage c w t now g)))"
  "snd (gate_run c ((w, t, now) # ms) g) = snd (gate_run c ms (snd (allowMessage c w t now g)))"
  by (simp_all add: case_prod_beta)

lemma granted_to_snoc:
  "granted_to c ws (ms @ [(w, t, now)]) g =
     granted_to c ws ms g +
     (if w = ws \<and> fst (allowMessage c w t now (snd (gate_run c ms g))) then cost_of t else 0)"
proof (induction ms arbitrary: g)
  case Nil
  then show ?case by (simp add: granted_to_Cons) (simp add: granted_to_def)
next
  case (Cons m ms)
  obtain v s n where "m = (v, s, n)" by (metis prod_cases3)
  then show ?case using Cons.IH by (simp add: granted_to_Cons gate_run_Cons del: gate_run.simps)
qed

lemma last_granted:
  "List.last (fst (gate_run c (ms @ [(w, t, now)]) g)) = fst (allowMessage c w t now (snd (gate_run c ms g)))"
proof (induction ms arbitrary: g)
  case Nil
  then show ?case by (simp add: case_prod_beta)
next
  case (Cons m ms)
  obtain v s n where m: "m = (v, s, n)" by (metis prod_cases3)
  have "fst (gate_run c (ms @ [(w, t, now)]) g) \<noteq> []" for g
    by (cases ms) (auto simp: case_prod_beta)
  then show ?case using Cons.IH by (simp add: m gate_run_Cons del: gate_run.simps)
qed

lemma gate_run_bucket:
  assumes "\<not> limits_off c" and "buckets g ws = Some b"
    and "list_all (\<lambda>(w, t, now). w = ws \<longrightarrow> ordinary t) ms"
  shows "granted_to c ws ms g = fst (socket_budget.granted c (own ws ms) b) \<and>
    buckets (snd (gate_run c ms g)) ws = Some (snd (socket_budget.granted c (own ws ms) b))"
  using assms(2,3)
proof (induction ms arbitrary: g b)
  case Nil
  then show ?case by (simp add: granted_to_def own_def)
next
  case (Cons m ms)
  obtain w t now where m: "m = (w, t, now)" by (metis prod_cases3)
  show ?case
  proof (cases "w = ws")
    case False
    then have "buckets (snd (allowMessage c w t now g)) ws = Some b"
      using allowMessage_other Cons.prems(1) by metis
    then show ?thesis
      using Cons.IH Cons.prems(2) False
      by (simp add: m granted_to_Cons gate_run_Cons own_def del: gate_run.simps)
  next
    case True
    let ?r = "charge c now (message_cost t) b"
    have c: "fst (allowMessage c w t now g) = fst ?r" "buckets (snd (allowMessage c w t now g)) ws = Some (snd ?r)"
      using assms(1) Cons.prems(1) True by (simp_all add: allowMessage_def bucket_of_def case_prod_beta)
    have "message_cost t = Fin (cost_of t)" using Cons.prems(2) True m by (auto intro: ordinary_cost)
    then show ?thesis
      using Cons.IH [OF c(2)] Cons.prems(2) c(1) True
      by (simp add: m granted_to_Cons gate_run_Cons own_def case_prod_beta del: gate_run.simps)
  qed
qed

definition with_bucket :: "nat \<Rightarrow> bucket \<Rightarrow> gate \<Rightarrow> gate" where
  "with_bucket ws b g = g\<lparr>buckets := (buckets g)(ws \<mapsto> b)\<rparr>"

text \<open>The bucket a message of the socket at \<open>t1\<close> is charged to, after its refill: no fuller than the
  burst, whatever went before.\<close>

definition topped_up :: "limits \<Rightarrow> nat \<Rightarrow> rat \<Rightarrow> gate \<Rightarrow> bucket" where
  "topped_up c ws t1 g =
     (let b = bucket_of c ws t1 g
      in b\<lparr>tokens := js_min (Fin (burst c)) (js_add (tokens b) (Fin ((t1 - last b) / 1000 * ratePerSec c))),
           last := t1\<rparr>)"

definition in_order :: "nat \<Rightarrow> gate \<Rightarrow> bool" where
  "in_order ws g \<longleftrightarrow> (case buckets g ws of None \<Rightarrow> True | Some b \<Rightarrow> js_isFinite (tokens b))"

lemma in_order_bucket: "in_order ws g \<Longrightarrow> \<exists>q. tokens (bucket_of c ws now g) = Fin q"
  by (cases "buckets g ws"; cases "tokens (the (buckets g ws))") (auto simp: in_order_def bucket_of_def)

lemma charge_finite: "tokens b = Fin q \<Longrightarrow> js_isFinite (tokens (snd (charge c now (Fin k) b)))"
  by (simp add: charge_def Let_def)

lemma gate_run_in_order:
  assumes "\<not> limits_off c" and "in_order ws g" and "list_all (\<lambda>(w, t, now). w = ws \<longrightarrow> ordinary t) ms"
  shows "in_order ws (snd (gate_run c ms g))"
  using assms(2,3)
proof (induction ms arbitrary: g)
  case (Cons m ms)
  obtain w t now where m: "m = (w, t, now)" by (metis prod_cases3)
  have "in_order ws (snd (allowMessage c w t now g))"
  proof (cases "w = ws")
    case True
    obtain q where q: "tokens (bucket_of c ws now g) = Fin q" using in_order_bucket [OF Cons.prems(1)] by blast
    have "message_cost t = Fin (cost_of t)" using Cons.prems(2) True m by (auto intro: ordinary_cost)
    then show ?thesis
      using charge_finite [OF q] assms(1) True by (simp add: allowMessage_def in_order_def case_prod_beta)
  next
    case False
    then have "buckets (snd (allowMessage c w t now g)) ws = buckets g ws" by (rule allowMessage_other)
    with Cons.prems(1) show ?thesis by (simp add: in_order_def)
  qed
  with Cons show ?case by (simp add: m gate_run_Cons del: gate_run.simps)
qed simp

text \<open>A socket's run from its first message at \<open>t1\<close> on behaves as if the bucket had been topped up
  before.\<close>

lemma gate_run_topped:
  assumes "\<not> limits_off c" and "in_order ws g" and "own ws ms = (t1, k) # rest"
  shows "fst (gate_run c ms g) = fst (gate_run c ms (with_bucket ws (topped_up c ws t1 g) g))"
  using assms(2,3)
proof (induction ms arbitrary: g)
  case (Cons m ms)
  obtain w t now where m: "m = (w, t, now)" by (metis prod_cases3)
  let ?b = "topped_up c ws t1 g"
  show ?case
  proof (cases "w = ws")
    case True
    then have n: "now = t1" using Cons.prems(2) m by (simp add: own_def)
    obtain q where q: "tokens (bucket_of c ws t1 g) = Fin q" using in_order_bucket [OF Cons.prems(1)] by blast
    have "bucket_of c ws t1 (with_bucket ws ?b g) = ?b" by (simp add: bucket_of_def with_bucket_def)
    moreover have "charge c t1 (message_cost t) ?b = charge c t1 (message_cost t) (bucket_of c ws t1 g)"
      by (simp add: charge_def topped_up_def Let_def q)
    ultimately have "allowMessage c ws t t1 (with_bucket ws ?b g) = allowMessage c ws t t1 g"
      using assms(1) by (simp add: allowMessage_def case_prod_beta with_bucket_def)
    then show ?thesis by (simp add: m n True)
  next
    case False
    have "bucket_of c w now (with_bucket ws ?b g) = bucket_of c w now g"
      using False by (simp add: bucket_of_def with_bucket_def)
    then have a: "fst (allowMessage c w t now (with_bucket ws ?b g)) = fst (allowMessage c w t now g)"
      "snd (allowMessage c w t now (with_bucket ws ?b g)) = with_bucket ws ?b (snd (allowMessage c w t now g))"
      using assms(1) False by (simp_all add: allowMessage_def with_bucket_def case_prod_beta fun_upd_twist)
    have same: "buckets (snd (allowMessage c w t now g)) ws = buckets g ws" by (rule allowMessage_other [OF False])
    then have "in_order ws (snd (allowMessage c w t now g))"
      "topped_up c ws t1 (snd (allowMessage c w t now g)) = ?b"
      using Cons.prems(1) by (simp_all add: in_order_def topped_up_def bucket_of_def)
    moreover have "own ws ms = (t1, k) # rest" using Cons.prems(2) False m by (simp add: own_def)
    ultimately show ?thesis using Cons.IH by (simp add: m gate_run_Cons a del: gate_run.simps)
  qed
qed simp

text \<open>C33: A socket cannot outrun its budget with ordinary messages, over any stretch of its life. Whatever
  ordinary messages it sent before, however slowly, and however the messages of all sockets interleave:
  what it is granted of the messages it sends from time \<open>t0\<close> on, until one it is granted at
  \<open>now\<close>, costs no more than the burst plus the refill of that stretch. Nothing can be saved up
  beyond the burst.\<close>

theorem socket_budget_holds:
  assumes "\<not> limits_off c" and "0 \<le> ratePerSec c" and "buckets g0 ws = None"
    and "list_all (\<lambda>(w, s, n). w = ws \<longrightarrow> ordinary s) before"
    and "list_all (\<lambda>(w, s, n). w = ws \<longrightarrow> ordinary s \<and> t0 \<le> n) (ms @ [(ws, t, now)])"
    and "g = snd (gate_run c before g0)"
    and "List.last (fst (gate_run c (ms @ [(ws, t, now)]) g))"
  shows "granted_to c ws (ms @ [(ws, t, now)]) g \<le> burst c + (now - t0) / 1000 * ratePerSec c"
proof -
  let ?all = "ms @ [(ws, t, now)]"
  have io: "in_order ws g"
    unfolding assms(6) by (rule gate_run_in_order [OF assms(1) _ assms(4)]) (simp add: in_order_def assms(3))
  have "own ws ?all = own ws ms @ [(now, cost_of t)]" by (simp add: own_def)
  then obtain t1 k rest where o: "own ws ?all = (t1, k) # rest" by (cases "own ws ms") auto
  have "(t1, k) \<in> set (own ws ?all)" by (simp add: o)
  then have t1: "t0 \<le> t1" using assms(5) by (auto simp: own_def list_all_iff)
  define b where "b = topped_up c ws t1 g"
  define g1 where "g1 = with_bucket ws b g"
  obtain q where q: "tokens (bucket_of c ws t1 g) = Fin q" using in_order_bucket [OF io] by blast
  then have b: "js_isFinite (tokens b)" "fill (tokens b) \<le> burst c" "last b = t1"
    by (simp_all add: b_def topped_up_def Let_def)
  have run: "fst (gate_run c ?all g) = fst (gate_run c ?all g1)"
    unfolding g1_def b_def by (rule gate_run_topped [OF assms(1) io o])
  then have same: "granted_to c ws ?all g = granted_to c ws ?all g1" by (simp only: granted_to_def)
  have ok: "fst (allowMessage c ws t now (snd (gate_run c ms g1)))"
    using assms(7) run last_granted by metis
  have "buckets g1 ws = Some b" by (simp add: g1_def with_bucket_def)
  moreover have "list_all (\<lambda>(w, t, n). w = ws \<longrightarrow> ordinary t) ms" using assms(5) by (auto simp: list_all_iff)
  ultimately obtain v b1 where v: "socket_budget.granted c (own ws ms) b = (v, b1)"
    "granted_to c ws ms g1 = v" "buckets (snd (gate_run c ms g1)) ws = Some b1"
    using gate_run_bucket [OF assms(1), of g1 ws b ms] by (metis prod.collapse)
  have "message_cost t = Fin (cost_of t)" using assms(5) by (auto intro: ordinary_cost)
  then obtain b2 where b2: "charge c now (Fin (cost_of t)) b1 = (True, b2)"
    using ok v(3) assms(1) by (auto simp: allowMessage_def bucket_of_def case_prod_beta prod_eq_iff)
  have "v + cost_of t \<le> fill (tokens b) + (now - last b) / 1000 * ratePerSec c"
    by (rule socket_budget.granted_bound [OF b(1) v(1) b2])
  also have "\<dots> \<le> burst c + (now - t0) / 1000 * ratePerSec c"
    using t1 assms(2) b(2) by (auto simp: b(3) intro!: add_mono mult_right_mono divide_right_mono)
  finally show ?thesis using same ok v(2) by (simp add: granted_to_snoc)
qed

definition shipped_limits :: limits where
  "shipped_limits = \<lparr>ratePerSec = 25, burst = 60, maxPerIp = 2, limits_off = False\<rparr>"

definition empty_gate :: gate where
  "empty_gate = \<lparr>buckets = Map.empty, perIp = Map.empty\<rparr>"

theorem socket_budget_holds_witness:
  "granted_to shipped_limits 7 [(7, Some ''enter'', 90000), (8, None, 90005), (7, Some ''withdraw'', 90010)]
     (snd (gate_run shipped_limits [(7, Some ''enter'', 0)] empty_gate)) \<le> 60 + 10 / 1000 * 25"
  using socket_budget_holds [of shipped_limits empty_gate 7 "[(7, Some ''enter'', 0)]" 90000
      "[(7, Some ''enter'', 90000), (8, None, 90005)]" "Some ''withdraw''" 90010, OF _ _ _ _ _ refl]
  by (simp add: shipped_limits_def empty_gate_def ordinary_def message_cost_def COST_def inherited_name_def
      DEFAULT_COST_def allowMessage_def charge_def bucket_of_def js_sub_def)

text \<open>One message lifts a socket's limit for good. A message whose type is a name every object
  inherits, \<open>constructor\<close> for one, is always let through, even by an empty bucket, and its cost
  turns the bucket into \<open>NaN\<close>: from then on every message of that socket is let through, whatever
  it costs and however fast they come.\<close>

theorem inherited_name_lifts_the_limit:
  assumes "inherited_name x" and "list_all (\<lambda>(w, s, n). w = ws) ms"
  shows "list_all (\<lambda>ok. ok) (fst (gate_run c ((ws, Some x, now) # ms) g))"
proof (cases "limits_off c")
  case True
  have "list_all (\<lambda>ok. ok) (fst (gate_run c ms g))" for ms g
    using True by (induction ms arbitrary: g) (auto simp: allowMessage_def case_prod_beta)
  then show ?thesis by blast
next
  case False
  have "message_cost (Some x) = NaN"
    using assms(1) unfolding inherited_name_def
    by (elim insertE emptyE) (simp_all add: message_cost_def COST_def inherited_name_def)
  then have r: "fst (charge c now (message_cost (Some x)) b)"
    "tokens (snd (charge c now (message_cost (Some x)) b)) = NaN" for b
    by (simp_all add: charge_def Let_def js_sub_def js_NaN)
  have nan: "fst (charge c n k b) \<and> tokens (snd (charge c n k b)) = NaN" if "tokens b = NaN" for n k b
    using that by (simp add: charge_def Let_def js_sub_def js_NaN)
  have stays: "list_all (\<lambda>ok. ok) (fst (gate_run c ms g))"
    if "buckets g ws = Some b" "tokens b = NaN" for g b
    using assms(2) that
  proof (induction ms arbitrary: g b)
    case (Cons m ms)
    obtain w s n where m: "m = (w, s, n)" by (metis prod_cases3)
    then have w: "w = ws" using Cons.prems(1) by simp
    have "fst (allowMessage c ws s n g)"
      "buckets (snd (allowMessage c ws s n g)) ws = Some (snd (charge c n (message_cost s) b))"
      using Cons.prems(2,3) False nan by (simp_all add: allowMessage_def bucket_of_def case_prod_beta)
    then show ?case
      using Cons.IH [of "snd (allowMessage c ws s n g)"] Cons.prems nan [of b n "message_cost s"]
      by (simp add: m w gate_run_Cons del: gate_run.simps)
  qed simp
  have "fst (allowMessage c ws (Some x) now g)"
    "buckets (snd (allowMessage c ws (Some x) now g)) ws =
       Some (snd (charge c now (message_cost (Some x)) (bucket_of c ws now g)))"
    using False r by (simp_all add: allowMessage_def case_prod_beta)
  then show ?thesis using stays r by (simp add: gate_run_Cons del: gate_run.simps)
qed

theorem inherited_name_lifts_the_limit_witness:
  "fst (gate_run shipped_limits ((7, Some ''constructor'', 0) # replicate 100 (7, Some ''faucet'', 0)) empty_gate) =
     replicate 101 True"
proof -
  let ?oks = "fst (gate_run shipped_limits ((7, Some ''constructor'', 0) # replicate 100 (7, Some ''faucet'', 0)) empty_gate)"
  have "length (fst (gate_run c ms g)) = length ms" for c ms g
    by (induction ms arbitrary: g) (auto simp: case_prod_beta)
  then have l: "length ?oks = 101" by (simp del: gate_run.simps)
  have "list_all (\<lambda>ok. ok) ?oks"
    by (rule inherited_name_lifts_the_limit) (simp_all add: inherited_name_def list_all_iff)
  then have "\<forall>ok\<in>set ?oks. ok = True" by (simp only: list_all_iff) simp
  with l show ?thesis by (metis replicate_eqI)
qed

subsection \<open>The connection cap\<close>

text \<open>The server registers one \<open>cleanup\<close> for the events \<open>error\<close> and \<open>close\<close> of an accepted
  socket. A socket is open from its acceptance to its \<open>close\<close>; the library \<open>ws\<close> emits
  \<open>close\<close> once for every accepted socket, also after an \<open>error\<close>.\<close>

datatype socket_event =
    Connect nat string
  | ErrorEvent nat
  | CloseEvent nat

record front =
  fr_gate :: gate
  open_sockets :: "(nat \<times> string) list"

definition cleanup :: "limits \<Rightarrow> nat \<Rightarrow> front \<Rightarrow> front" where
  "cleanup c ws s =
     (case map_of (open_sockets s) ws of
        None \<Rightarrow> s
      | Some ip \<Rightarrow> s\<lparr>fr_gate := releaseConnection c ws ip (fr_gate s)\<rparr>)"

fun front_step :: "limits \<Rightarrow> socket_event \<Rightarrow> front \<Rightarrow> unit + front" where
  "front_step c (Connect ws ip) s =
     (if map_of (open_sockets s) ws \<noteq> None then Inl ()
      else let (ok, g) = connectionAllowed c ip (fr_gate s)
           in if ok then Inr (s\<lparr>fr_gate := g, open_sockets := (ws, ip) # open_sockets s\<rparr>) else Inl ())"
| "front_step c (ErrorEvent ws) s = Inr (cleanup c ws s)"
| "front_step c (CloseEvent ws) s =
     (let s1 = cleanup c ws s in Inr (s1\<lparr>open_sockets := filter (\<lambda>p. fst p \<noteq> ws) (open_sockets s1)\<rparr>))"

definition open_from :: "string \<Rightarrow> front \<Rightarrow> nat" where
  "open_from ip s = length (filter (\<lambda>p. snd p = ip) (open_sockets s))"

definition new_front :: front where
  "new_front = \<lparr>fr_gate = empty_gate, open_sockets = []\<rparr>"

fun no_error :: "socket_event \<Rightarrow> bool" where
  "no_error (ErrorEvent ws) = False"
| "no_error e = True"

definition front_inv :: "limits \<Rightarrow> front \<Rightarrow> bool" where
  "front_inv c s \<longleftrightarrow>
     distinct (map fst (open_sockets s)) \<and>
     (\<not> limits_off c \<longrightarrow> (\<forall>ip. connectionsFor ip (fr_gate s) = open_from ip s \<and> open_from ip s \<le> maxPerIp c))"

lemma connectionAllowed_count:
  "\<not> limits_off c \<Longrightarrow> connectionAllowed c ip g = (True, g') \<Longrightarrow>
    connectionsFor ip g < maxPerIp c \<and>
    connectionsFor q g' = connectionsFor q g + (if q = ip then 1 else 0)"
  by (auto simp: connectionAllowed_def connectionsFor_def split: if_splits)

lemma releaseConnection_count:
  "\<not> limits_off c \<Longrightarrow>
    connectionsFor q (releaseConnection c ws ip g) = connectionsFor q g - (if q = ip then 1 else 0)"
  by (auto simp: releaseConnection_def connectionsFor_def Let_def split: option.splits)

lemma open_from_filter:
  assumes "distinct (map fst xs)" and "(ws, ip) \<in> set xs"
  shows "length (filter (\<lambda>p. snd p = q) (filter (\<lambda>p. fst p \<noteq> ws) xs)) =
    length (filter (\<lambda>p. snd p = q) xs) - (if q = ip then 1 else 0)"
  using assms
proof (induction xs)
  case (Cons x xs)
  show ?case
  proof (cases "x = (ws, ip)")
    case True
    then have "\<forall>p\<in>set xs. fst p \<noteq> ws" using Cons.prems(1) by force
    then have "filter (\<lambda>p. fst p \<noteq> ws) xs = xs" by (simp add: filter_id_conv)
    then show ?thesis using True by simp
  next
    case False
    then have "(ws, ip) \<in> set xs" using Cons.prems by auto
    moreover from this have "ws \<in> fst ` set xs" by force
    ultimately have m: "(ws, ip) \<in> set xs" "fst x \<noteq> ws" using Cons.prems(1) by auto
    have "q = ip \<Longrightarrow> filter (\<lambda>p. snd p = q) xs \<noteq> []" using m(1) by (force simp: filter_empty_conv)
    then show ?thesis using Cons.IH m Cons.prems(1) by (cases "filter (\<lambda>p. snd p = q) xs") auto
  qed
qed simp

interpretation front: invariant_machine "front_step c" no_error "front_inv c" for c
proof (unfold_locales, goal_cases)
  case (1 s x s')
  show ?case
  proof (cases x)
    case (Connect ws ip)
    then obtain g where g: "map_of (open_sockets s) ws = None" "connectionAllowed c ip (fr_gate s) = (True, g)"
      "s' = s\<lparr>fr_gate := g, open_sockets := (ws, ip) # open_sockets s\<rparr>"
      using 1 by (auto simp: Let_def split: if_splits prod.splits)
    have "ws \<notin> fst ` set (open_sockets s)" using g(1) by (simp add: map_of_eq_None_iff)
    then show ?thesis
      using 1 g connectionAllowed_count [OF _ g(2)] by (auto simp: front_inv_def open_from_def Suc_le_eq)
  next
    case (ErrorEvent ws)
    then show ?thesis using 1 by simp
  next
    case (CloseEvent ws)
    show ?thesis
    proof (cases "map_of (open_sockets s) ws")
      case None
      then have "filter (\<lambda>p. fst p \<noteq> ws) (open_sockets s) = open_sockets s"
        by (force simp: filter_id_conv map_of_eq_None_iff)
      then show ?thesis using 1 CloseEvent None by (simp add: cleanup_def front_inv_def open_from_def Let_def)
    next
      case (Some ip)
      have m: "(ws, ip) \<in> set (open_sockets s)" using Some by (rule map_of_SomeD)
      have d: "distinct (map fst (open_sockets s))" using 1 by (simp add: front_inv_def)
      show ?thesis
        using 1 CloseEvent Some open_from_filter [OF d m] releaseConnection_count [of c]
        by (auto simp: cleanup_def front_inv_def open_from_def Let_def distinct_map_filter intro!: le_diff_conv [THEN iffD2] trans_le_add1)
    qed
  qed
qed

text \<open>The connection cap counts what is open. As long as sockets only ever close, the count the
  server keeps of an address is the number of its open sockets, which never passes the cap. But a
  socket that errs is released twice, by its \<open>error\<close> and by the \<open>close\<close> that follows:
  with a cap of two, one failing socket lets an address hold three.\<close>

theorem connection_cap_counts_open_sockets:
  assumes "\<not> limits_off c" and "list_all no_error es"
  defines "s \<equiv> run_ops (front_step c) es new_front"
  shows "connectionsFor ip (fr_gate s) = open_from ip s \<and> open_from ip s \<le> maxPerIp c \<and>
    open_from ''ip'' (run_ops (front_step shipped_limits)
      [Connect 1 ''ip'', Connect 2 ''ip'', ErrorEvent 1, CloseEvent 1, Connect 3 ''ip'', Connect 4 ''ip'']
      new_front) = maxPerIp shipped_limits + 1"
proof -
  have "front_inv c new_front"
    by (simp add: front_inv_def new_front_def open_from_def connectionsFor_def empty_gate_def)
  then have "front_inv c s" unfolding s_def by (rule front.run_inv) (rule assms(2))
  moreover have "open_from ''ip'' (run_ops (front_step shipped_limits)
      [Connect 1 ''ip'', Connect 2 ''ip'', ErrorEvent 1, CloseEvent 1, Connect 3 ''ip'', Connect 4 ''ip'']
      new_front) = maxPerIp shipped_limits + 1"
    by (simp add: new_front_def empty_gate_def shipped_limits_def connectionAllowed_def connectionsFor_def
        cleanup_def releaseConnection_def open_from_def)
  ultimately show ?thesis using assms(1) by (simp add: front_inv_def)
qed

theorem connection_cap_counts_open_sockets_witness:
  "open_from ''ip'' (run_ops (front_step shipped_limits)
     [Connect 1 ''ip'', Connect 2 ''ip'', CloseEvent 1, Connect 3 ''ip'', Connect 4 ''ip''] new_front) \<le> 2"
  using connection_cap_counts_open_sockets [of shipped_limits
      "[Connect 1 ''ip'', Connect 2 ''ip'', CloseEvent 1, Connect 3 ''ip'', Connect 4 ''ip'']" "''ip''"]
  by (simp add: shipped_limits_def del: front_step.simps run_ops.simps)

end
