(* ===== verification/Engine_Auth.thy ===== *)
theory Engine_Auth
  imports Js_Number
begin

text \<open>
  Proof of wallet ownership, \<open>engine/src/auth.ts\<close>, the launch list of \<open>allowlist.ts\<close> and the
  guard the server's message handler applies (\<open>server.ts\<close>): a socket signs a nonce, gets a session
  token for its wallet, and may resume with the token on another socket.

  Sockets are named by numbers; the nonce's random part and the clock are inputs. The key parser, the
  curve's signature check, the base64 codecs and the HMAC under the deployment's secret are the fields of
  \<open>crypto\<close>. Nothing is assumed of them except what a theorem names. A thrown exception is caught by
  the functions themselves, and is the refusal they return.
\<close>

record crypto =
  pk_ok :: "string \<Rightarrow> bool"
  b64_bytes :: "string \<Rightarrow> nat list"
  ed25519_ok :: "string \<Rightarrow> nat list \<Rightarrow> string \<Rightarrow> bool"
  hmac_b64url :: "string \<Rightarrow> string"
  enc_b64url :: "string \<Rightarrow> string"
  dec_b64url :: "string \<Rightarrow> string"

record auth_state =
  authed :: "nat \<Rightarrow> string set"
  nonces :: "nat \<rightharpoonup> string"

definition no_auth :: auth_state where
  "no_auth = \<lparr>authed = (\<lambda>ws. {}), nonces = Map.empty\<rparr>"

fun split_at :: "char \<Rightarrow> string \<Rightarrow> string list" where
  "split_at c [] = [[]]"
| "split_at c (x # xs) =
     (if x = c then [] # split_at c xs
      else case split_at c xs of [] \<Rightarrow> [[x]] | p # ps \<Rightarrow> (x # p) # ps)"

subsection \<open>Sessions\<close>

definition session_payload :: "crypto \<Rightarrow> string \<Rightarrow> nat \<Rightarrow> string" where
  "session_payload k w expires = enc_b64url k w @ ''.'' @ dec_digits expires"

definition mintSession :: "crypto \<Rightarrow> nat \<Rightarrow> nat \<Rightarrow> string \<Rightarrow> string" where
  "mintSession k ttl now w =
     (let payload = session_payload k w (now + ttl) in payload @ ''.'' @ hmac_b64url k payload)"

text \<open>The wallet a token proves at a time, if it proves one.\<close>

definition token_wallet :: "crypto \<Rightarrow> nat \<Rightarrow> string \<Rightarrow> string option" where
  "token_wallet k now token =
     (case split_at (CHR ''.'') token of
        [a, b, c] \<Rightarrow>
          let payload = a @ ''.'' @ b in
          if c \<noteq> hmac_b64url k payload then None
          else if \<not> js_less (Fin (of_nat now)) (js_Number b) then None
          else Some (dec_b64url k a)
      | _ \<Rightarrow> None)"

definition resume :: "crypto \<Rightarrow> nat \<Rightarrow> nat \<Rightarrow> string \<Rightarrow> string \<Rightarrow> auth_state \<Rightarrow> bool \<times> auth_state" where
  "resume k now ws w token s =
     (case token_wallet k now token of
        None \<Rightarrow> (False, s)
      | Some sw \<Rightarrow>
          if sw \<noteq> w then (False, s)
          else (True, s\<lparr>authed := (authed s)(ws := insert sw (authed s ws))\<rparr>))"

subsection \<open>Challenge and signature\<close>

definition isAuthed :: "nat \<Rightarrow> string \<Rightarrow> auth_state \<Rightarrow> bool" where
  "isAuthed ws w s \<longleftrightarrow> w \<in> authed s ws"

definition challenge_nonce :: "nat \<Rightarrow> nat \<Rightarrow> string \<Rightarrow> auth_state \<Rightarrow> string \<times> auth_state" where
  "challenge_nonce now ws random36 s =
     (let n = ''Bulls vs Unicorns login '' @ dec_digits now @ '' '' @ random36
      in (n, s\<lparr>nonces := (nonces s)(ws \<mapsto> n)\<rparr>))"

datatype verify_result = NoChallenge | BadKey | Verified bool

definition signature_ok :: "crypto \<Rightarrow> string \<Rightarrow> string \<Rightarrow> string \<Rightarrow> bool" where
  "signature_ok k nonce w sig64 \<longleftrightarrow>
     length (b64_bytes k sig64) = 64 \<and> ed25519_ok k nonce (b64_bytes k sig64) w"

definition verify :: "crypto \<Rightarrow> nat \<Rightarrow> string \<Rightarrow> string \<Rightarrow> auth_state \<Rightarrow> verify_result \<times> auth_state" where
  "verify k ws w sig64 s =
     (case nonces s ws of
        None \<Rightarrow> (NoChallenge, s)
      | Some n \<Rightarrow>
          if n = [] then (NoChallenge, s)
          else if \<not> pk_ok k w then (BadKey, s)
          else if signature_ok k n w sig64
          then (Verified True, s\<lparr>authed := (authed s)(ws := insert w (authed s ws)), nonces := (nonces s)(ws := None)\<rparr>)
          else (Verified False, s))"

definition forget :: "nat \<Rightarrow> auth_state \<Rightarrow> auth_state" where
  "forget ws s = s\<lparr>authed := (authed s)(ws := {}), nonces := (nonces s)(ws := None)\<rparr>"

subsection \<open>The server's use of it\<close>

definition GUARDED :: "string set" where
  "GUARDED = {''enter'', ''enterN'', ''withdraw'', ''withdrawSol'', ''convert'', ''buildDeposit'', ''buildSolDeposit'',
     ''deposit'', ''depositSol'', ''setName'', ''fundMe'', ''relayTx'', ''faucet''}"

text \<open>The launch list: every wallet may play unless the list is enforced.\<close>

record launch_list =
  enforced :: bool
  allow :: "string list"

definition isAllowed :: "launch_list \<Rightarrow> string \<Rightarrow> bool" where
  "isAllowed al w \<longleftrightarrow> \<not> enforced al \<or> w \<in> set (allow al)"

datatype auth_op =
    AuthChallenge nat nat string
  | AuthVerify nat string string launch_list
  | AuthResume nat nat string string
  | Gone nat

fun auth_step :: "crypto \<Rightarrow> auth_op \<Rightarrow> auth_state \<Rightarrow> unit + auth_state" where
  "auth_step k (AuthChallenge now ws r) s = Inr (snd (challenge_nonce now ws r s))"
| "auth_step k (AuthVerify ws w sig64 al) s =
     (if \<not> isAllowed al w then Inl () else Inr (snd (verify k ws w sig64 s)))"
| "auth_step k (AuthResume now ws w token) s = Inr (snd (resume k now ws w token s))"
| "auth_step k (Gone ws) s = Inr (forget ws s)"

text \<open>Whether the handler goes on with a message of type \<open>t\<close> for wallet \<open>w\<close>.\<close>

definition admits :: "nat \<Rightarrow> string \<Rightarrow> string \<Rightarrow> auth_state \<Rightarrow> bool" where
  "admits ws t w s \<longleftrightarrow> \<not> (t \<in> GUARDED \<and> \<not> isAuthed ws w s)"

subsection \<open>Whoever moves money has proven the wallet\<close>

fun proves :: "crypto \<Rightarrow> nat \<Rightarrow> string \<Rightarrow> auth_op \<Rightarrow> auth_state \<Rightarrow> bool" where
  "proves k ws w (AuthVerify ws' w' sig64 al) s \<longleftrightarrow>
     ws' = ws \<and> w' = w \<and> isAllowed al w \<and>
     (case nonces s ws of None \<Rightarrow> False | Some n \<Rightarrow> n \<noteq> [] \<and> signature_ok k n w sig64)"
| "proves k ws w (AuthResume now ws' w' token) s \<longleftrightarrow>
     ws' = ws \<and> w' = w \<and> token_wallet k now token = Some w"
| "proves k ws w x s \<longleftrightarrow> False"

lemma auth_step_authed:
  assumes "auth_step k x s = Inr s'" and "w \<in> authed s' ws"
  shows "proves k ws w x s \<or> w \<in> authed s ws \<and> x \<noteq> Gone ws"
proof (cases x)
  case (AuthChallenge now v r)
  then show ?thesis using assms by (auto simp: challenge_nonce_def Let_def)
next
  case (AuthVerify v u sig64 al)
  then show ?thesis
    using assms by (auto simp: verify_def split: if_splits option.splits)
next
  case (AuthResume now v u token)
  then show ?thesis using assms by (auto simp: resume_def split: if_splits option.splits)
next
  case (Gone v)
  then show ?thesis using assms by (auto simp: forget_def split: if_splits)
qed

lemma authed_origin:
  assumes "w \<in> authed (run_ops (auth_step k) ops no_auth) ws"
  shows "\<exists>before x after. ops = before @ x # after \<and> Gone ws \<notin> set after \<and>
    proves k ws w x (run_ops (auth_step k) before no_auth)"
  using assms
proof (induction ops rule: rev_induct)
  case Nil
  then show ?case by (simp add: no_auth_def)
next
  case (snoc x ops)
  let ?s = "run_ops (auth_step k) ops no_auth"
  show ?case
  proof (cases "auth_step k x ?s")
    case (Inl u)
    then have "w \<in> authed ?s ws" "x \<noteq> Gone ws" using snoc.prems by (auto simp: run_ops_append)
    with snoc.IH obtain before y after where "ops = before @ y # after" "Gone ws \<notin> set after"
      "proves k ws w y (run_ops (auth_step k) before no_auth)" "x \<noteq> Gone ws"
      by blast
    then show ?thesis by (intro exI [of _ before] exI [of _ y] exI [of _ "after @ [x]"]) auto
  next
    case (Inr s')
    then have "w \<in> authed s' ws" using snoc.prems by (simp add: run_ops_append)
    from auth_step_authed [OF Inr this] show ?thesis
    proof
      assume "proves k ws w x ?s"
      then show ?thesis by (intro exI [of _ ops] exI [of _ x] exI [of _ "[]"]) simp
    next
      assume "w \<in> authed ?s ws \<and> x \<noteq> Gone ws"
      then obtain before y after where "ops = before @ y # after" "Gone ws \<notin> set after"
        "proves k ws w y (run_ops (auth_step k) before no_auth)" "x \<noteq> Gone ws"
        using snoc.IH by blast
      then show ?thesis by (intro exI [of _ before] exI [of _ y] exI [of _ "after @ [x]"]) auto
    qed
  qed
qed

text \<open>C12: Money moves only for a proven wallet. Whatever messages sockets sent before, when the handler
  goes on with a guarded message of a socket for a wallet, then since that socket connected either the
  wallet, on the launch list at the time, signed the nonce the socket was then holding, or the socket
  presented a token for the wallet that carried the server's HMAC and had not expired.\<close>

theorem guarded_messages_are_proven:
  assumes "admits ws t w (run_ops (auth_step k) ops no_auth)" and "t \<in> GUARDED"
  shows "\<exists>before x after. ops = before @ x # after \<and> Gone ws \<notin> set after \<and>
    proves k ws w x (run_ops (auth_step k) before no_auth)"
  using assms authed_origin by (simp add: admits_def isAuthed_def)

text \<open>A deployment whose every signature checks, for the applications below.\<close>

definition lenient :: crypto where
  "lenient = \<lparr>pk_ok = (\<lambda>w. True), b64_bytes = (\<lambda>t. replicate 64 0), ed25519_ok = (\<lambda>n b w. True),
     hmac_b64url = (\<lambda>p. ''mac''), enc_b64url = (\<lambda>w. w), dec_b64url = (\<lambda>w. w)\<rparr>"

theorem guarded_messages_are_proven_witness:
  "\<exists>before x after. [AuthChallenge 5 1 ''r'', AuthVerify 1 ''w'' ''s'' \<lparr>enforced = False, allow = []\<rparr>] =
      before @ x # after \<and> Gone 1 \<notin> set after \<and>
    proves lenient 1 ''w'' x (run_ops (auth_step lenient) before no_auth)"
proof (rule guarded_messages_are_proven [where t = "''enter''"])
  show "''enter'' \<in> GUARDED" by (simp add: GUARDED_def)
  show "admits 1 ''enter'' ''w'' (run_ops (auth_step lenient)
      [AuthChallenge 5 1 ''r'', AuthVerify 1 ''w'' ''s'' \<lparr>enforced = False, allow = []\<rparr>] no_auth)"
    by (simp add: admits_def isAuthed_def challenge_nonce_def verify_def isAllowed_def no_auth_def lenient_def
        signature_ok_def Let_def)
qed

subsection \<open>A session proves its wallet until it expires, and no other\<close>

lemma split_at_plain: "c \<notin> set xs \<Longrightarrow> split_at c xs = [xs]"
  by (induction xs) auto

lemma split_at_sep: "c \<notin> set xs \<Longrightarrow> split_at c (xs @ c # ys) = xs # split_at c ys"
  by (induction xs) auto

text \<open>C26: A minted session token is a round trip. If the codec restores what it encodes and neither it
  nor the HMAC writes a dot, then presenting the token of a wallet proves exactly that wallet at every
  instant before its expiry and nothing from then on; so a socket resumes as the wallet the token was
  minted for, as no other wallet, and never afterwards. The expiry is a number JavaScript can print
  without an exponent and read back.\<close>

theorem session_round_trip:
  assumes "dec_b64url k (enc_b64url k w) = w" and "CHR ''.'' \<notin> set (enc_b64url k w)"
    and "\<And>p. CHR ''.'' \<notin> set (hmac_b64url k p)" and "now + ttl < 10 ^ 21"
  shows "fst (resume k t ws u (mintSession k ttl now w) s) \<longleftrightarrow> u = w \<and> t < now + ttl"
proof -
  let ?payload = "session_payload k w (now + ttl)"
  have dots: "CHR ''.'' \<notin> set (dec_digits (now + ttl))"
    using dec_digits_digits [of "now + ttl"] by (auto simp: list_all_iff is_digit_def digit_of_def)
  have "split_at (CHR ''.'') (mintSession k ttl now w) =
      [enc_b64url k w, dec_digits (now + ttl), hmac_b64url k ?payload]"
    using assms(2,3) dots
    by (simp add: mintSession_def session_payload_def Let_def split_at_sep split_at_plain)
  moreover have "js_Number (dec_digits (now + ttl)) = Fin (of_nat (now + ttl))"
    by (rule js_Number_dec_digits [OF assms(4)])
  ultimately have "token_wallet k t (mintSession k ttl now w) = (if t < now + ttl then Some w else None)"
    using assms(1) by (simp add: token_wallet_def session_payload_def Let_def del: of_nat_add)
  then show ?thesis by (auto simp: resume_def)
qed

theorem session_round_trip_witness:
  "fst (resume lenient 5 3 ''w'' (mintSession lenient 10 2 ''w'') no_auth)"
  by (subst session_round_trip) (simp_all add: lenient_def)

end
