(* ===== verification/Engine_Vault.thy ===== *)
theory Engine_Vault
  imports Engine_Ledger Js_Number
begin

text \<open>
  Money in and out of the engine: the deposit and withdrawal messages of \<open>engine/src/server.ts\<close>, the
  verification of deposits and the relay check of \<open>chain-ops.ts\<close>, and the solvency guard of
  \<open>reconcile.ts\<close> with the liabilities the server hands it.

  A handler that awaits the node is cut at the await: what it does before is one operation, what it does
  with the answer another, and every other message may come in between. Awaiting verifications, payouts
  and solvency checks are lists of the state. The node's answers, whether a transaction moved money, the
  price of SOL (\<open>0\<close> when there is none) and the decoded bytes of a relayed transaction are carried by the
  operations; the configuration (is the chain ready, is the freeze enforced, the vault's accounts, which
  texts are keys) is a parameter. The lists \<open>credits\<close> and \<open>finished\<close> record what happened and are read
  by nobody.
\<close>

definition MIN_ENTRY :: rat where "MIN_ENTRY = 1 / 100"

text \<open>\<open>money\<close>: an amount a message names.\<close>

definition money :: "jsnum \<Rightarrow> rat" where
  "money v = (case v of Fin q \<Rightarrow> (if q \<ge> 0 then q else 0) | _ \<Rightarrow> 0)"

lemma money_nonneg [simp]: "0 \<le> money v"
  by (simp add: money_def split: jsnum.split)

subsection \<open>What the node says of a transaction\<close>

text \<open>Of a parsed transaction: whether it failed, the vault's lamports before and after if the vault is one
  of its accounts, and the vault's holding of each token before and after (zero when it is not listed).\<close>

record parsed_tx =
  tx_failed :: bool
  tx_lamports :: "(rat \<times> rat) option"
  tx_tokens :: "side \<Rightarrow> rat \<times> rat"

definition sol_delta :: "parsed_tx option \<Rightarrow> rat" where
  "sol_delta r =
     (case r of None \<Rightarrow> 0
      | Some t \<Rightarrow>
          if tx_failed t then 0
          else case tx_lamports t of
            None \<Rightarrow> 0
          | Some (before, after) \<Rightarrow>
              let delta = (after - before) / 10 ^ 9 in if delta \<le> 0 then 0 else delta)"

definition token_delta :: "side \<Rightarrow> parsed_tx option \<Rightarrow> rat" where
  "token_delta sd r =
     (case r of None \<Rightarrow> 0
      | Some t \<Rightarrow>
          if tx_failed t then 0
          else let delta = snd (tx_tokens t sd) - fst (tx_tokens t sd) in if delta \<le> 0 then 0 else delta)"

subsection \<open>The solvency check\<close>

record asset_row =
  ar_asset :: string
  ar_liability :: jsnum
  ar_holdings :: jsnum
  ar_unpriced :: bool

record asset_recon =
  as_asset :: string
  as_liability :: rat
  as_holdings :: rat
  as_ok :: bool
  as_shortfall :: rat
  as_unpriced :: bool

record recon_report =
  rp_ok :: bool
  rp_assets :: "asset_recon list"

definition EPS :: rat where "EPS = 1 / 10 ^ 4"

definition finite_or_0 :: "jsnum \<Rightarrow> rat" where
  "finite_or_0 x = (case x of Fin q \<Rightarrow> q | _ \<Rightarrow> 0)"

definition assess :: "asset_row \<Rightarrow> asset_recon" where
  "assess r =
     (if ar_unpriced r
      then \<lparr>as_asset = ar_asset r, as_liability = 0, as_holdings = finite_or_0 (ar_holdings r), as_ok = True,
            as_shortfall = 0, as_unpriced = True\<rparr>
      else
        let liability = finite_or_0 (ar_liability r); holdings = finite_or_0 (ar_holdings r);
            shortfall = max 0 (liability - holdings)
        in \<lparr>as_asset = ar_asset r, as_liability = liability, as_holdings = holdings,
            as_ok = (shortfall \<le> EPS), as_shortfall = shortfall, as_unpriced = False\<rparr>)"

definition evaluate_rows :: "asset_row list \<Rightarrow> recon_report" where
  "evaluate_rows rows =
     (let assets = map assess rows in \<lparr>rp_ok = list_all as_ok assets, rp_assets = assets\<rparr>)"

record liabilities =
  lb_bull :: rat
  lb_uwu :: rat
  lb_solUsd :: rat

definition ledgerLiabilities :: "ledger \<Rightarrow> liabilities" where
  "ledgerLiabilities l =
     (let owed = (\<lambda>f. sum_list (map (\<lambda>a. max 0 (bal f a)) (filter (\<lambda>a. \<not> isBot a) l)))
      in \<lparr>lb_bull = owed FBull, lb_uwu = owed FUwu, lb_solUsd = owed FSol\<rparr>)"

text \<open>\<open>solBalance\<close> and \<open>vaultTokenBalance\<close> catch every failure of the node and answer zero.\<close>

definition holding :: "rat option \<Rightarrow> rat" where
  "holding answer = (case answer of None \<Rightarrow> 0 | Some q \<Rightarrow> q)"

definition recon_rows :: "bool \<Rightarrow> liabilities \<Rightarrow> rat \<Rightarrow> rat option \<Rightarrow> rat option \<Rightarrow> rat option \<Rightarrow> asset_row list" where
  "recon_rows ready L px solAns bullAns uwuAns =
     (let sol = holding solAns;
          solRow = (if lb_solUsd L > 0 \<and> \<not> px > 0
            then \<lparr>ar_asset = ''sol'', ar_liability = Fin (lb_solUsd L), ar_holdings = Fin sol, ar_unpriced = True\<rparr>
            else \<lparr>ar_asset = ''sol'', ar_liability = Fin (if px > 0 then lb_solUsd L / px else 0),
                  ar_holdings = Fin sol, ar_unpriced = False\<rparr>)
      in solRow #
        (if ready
         then [\<lparr>ar_asset = ''bull'', ar_liability = Fin (lb_bull L), ar_holdings = Fin (holding bullAns),
                ar_unpriced = False\<rparr>,
               \<lparr>ar_asset = ''uwu'', ar_liability = Fin (lb_uwu L), ar_holdings = Fin (holding uwuAns),
                ar_unpriced = False\<rparr>]
         else []))"

subsection \<open>The desk\<close>

text \<open>A verification that waits for the node: the signature, whom and what it will credit, and the price of
  SOL read before the await.\<close>

record pending_check =
  ck_sig :: string
  ck_wallet :: string
  ck_field :: field
  ck_px :: rat

record pending_payout =
  po_wallet :: string
  po_field :: field
  po_units :: rat

record desk =
  book :: ledger
  seenSigs :: "string set"
  inFlightSigs :: "string set"
  checks :: "pending_check list"
  payouts :: "pending_payout list"
  frozen :: bool
  latest :: "recon_report option"
  recons :: "(liabilities \<times> rat) list"
  credits :: "(string \<times> string \<times> field \<times> rat) list"
  finished :: "(pending_payout \<times> bool) list"

text \<open>A transaction a browser asks the engine to relay, as \<open>Transaction.from\<close> decodes it, with the length
  of its bytes.\<close>

record relay_tx =
  rl_len :: nat
  rl_decodes :: bool
  rl_feePayer :: "string option"
  rl_instructions :: "(string \<times> string list) list"

record desk_config =
  chainReady :: bool
  enforce :: bool
  vaultTargets :: "string set"
  okPrograms :: "string set"
  valid_key :: "string \<Rightarrow> bool"

datatype relay_refusal = EmptyTx | TooLargeTx | NotLegacy | BadWallet | WrongPayer | UnexpectedProgram | DoesNotPay

definition inspectRelayTx :: "desk_config \<Rightarrow> relay_tx \<Rightarrow> string \<Rightarrow> relay_refusal option" where
  "inspectRelayTx c tx wallet =
     (if rl_len tx = 0 then Some EmptyTx
      else if rl_len tx > 1500 then Some TooLargeTx
      else if \<not> rl_decodes tx then Some NotLegacy
      else if \<not> valid_key c wallet then Some BadWallet
      else if rl_feePayer tx \<noteq> Some wallet then Some WrongPayer
      else if list_ex (\<lambda>(program, keys). program \<notin> okPrograms c) (rl_instructions tx) then Some UnexpectedProgram
      else if \<not> list_ex (\<lambda>(program, keys). list_ex (\<lambda>k. k \<in> vaultTargets c) keys) (rl_instructions tx)
      then Some DoesNotPay else None)"

fun coin_of :: "side \<Rightarrow> field" where
  "coin_of Bull = FBull"
| "coin_of Uwu = FUwu"

definition claimSig :: "string \<Rightarrow> desk \<Rightarrow> bool" where
  "claimSig sig s \<longleftrightarrow> sig \<notin> seenSigs s \<and> sig \<notin> inFlightSigs s"

text \<open>Up to the await of \<open>verifyDeposit\<close> and \<open>verifySolDeposit\<close>: a signature that is credited or being
  verified is not claimed, and credits nothing.\<close>

definition begin_check :: "string \<Rightarrow> string \<Rightarrow> field \<Rightarrow> rat \<Rightarrow> desk \<Rightarrow> desk" where
  "begin_check sig w f px s =
     (if \<not> claimSig sig s then s
      else s\<lparr>inFlightSigs := insert sig (inFlightSigs s),
             checks := checks s @ [\<lparr>ck_sig = sig, ck_wallet = w, ck_field = f, ck_px = px\<rparr>]\<rparr>)"

definition check_units :: "pending_check \<Rightarrow> parsed_tx option \<Rightarrow> rat" where
  "check_units k r =
     (case ck_field k of FSol \<Rightarrow> sol_delta r * ck_px k | FBull \<Rightarrow> token_delta Bull r | FUwu \<Rightarrow> token_delta Uwu r)"

definition gained :: "pending_check \<Rightarrow> parsed_tx option \<Rightarrow> bool" where
  "gained k r \<longleftrightarrow>
     (case ck_field k of FSol \<Rightarrow> sol_delta r > 0 | FBull \<Rightarrow> token_delta Bull r > 0 | FUwu \<Rightarrow> token_delta Uwu r > 0)"

definition credit :: "string \<Rightarrow> field \<Rightarrow> rat \<Rightarrow> ledger \<Rightarrow> ledger" where
  "credit w f units l =
     upd w (\<lambda>a. let b = (add_bal f units a)\<lparr>depIn := depIn a + units\<rparr>
                 in if f = FSol then b\<lparr>depInSol := depInSol a + units\<rparr> else b)
       (acct w (if f = FUwu then Uwu else Bull) l)"

text \<open>After the await. \<open>None\<close> is a read that failed: the handler throws, and the reservation is released.\<close>

definition end_check :: "string \<Rightarrow> parsed_tx option option \<Rightarrow> desk \<Rightarrow> unit + desk" where
  "end_check sig answer s =
     (case find_index (\<lambda>k. ck_sig k = sig) (checks s) of
        None \<Rightarrow> Inl ()
      | Some i \<Rightarrow>
          let k = checks s ! i;
              s1 = s\<lparr>checks := remove_at i (checks s), inFlightSigs := inFlightSigs s - {sig}\<rparr> in
          case answer of
            None \<Rightarrow> Inr s1
          | Some r \<Rightarrow>
              if \<not> gained k r then Inr s1
              else Inr (s1\<lparr>seenSigs := insert sig (seenSigs s1),
                           book := credit (ck_wallet k) (ck_field k) (check_units k r) (book s1),
                           credits := (sig, ck_wallet k, ck_field k, check_units k r) # credits s1\<rparr>))"

text \<open>A withdrawal debits first and awaits the transfer.\<close>

definition begin_payout :: "string \<Rightarrow> side \<Rightarrow> field \<Rightarrow> rat \<Rightarrow> desk \<Rightarrow> desk" where
  "begin_payout w sd f asked s =
     (let l = acct w sd (book s);
          bank = (case get l w of None \<Rightarrow> 0 | Some a \<Rightarrow> bal f a);
          units = min asked bank
      in if units < MIN_ENTRY then s\<lparr>book := l\<rparr>
         else s\<lparr>book := upd w (add_bal f (- units)) l,
                payouts := payouts s @ [\<lparr>po_wallet = w, po_field = f, po_units = units\<rparr>]\<rparr>)"

text \<open>The transfer's promise resolves (\<open>ok\<close>) or rejects. A rejection is refunded.\<close>

definition end_payout :: "nat \<Rightarrow> bool \<Rightarrow> desk \<Rightarrow> unit + desk" where
  "end_payout i ok s =
     (if i \<ge> length (payouts s) then Inl ()
      else
        let p = payouts s ! i;
            s1 = s\<lparr>payouts := remove_at i (payouts s), finished := (p, ok) # finished s\<rparr>
        in Inr (s1\<lparr>book := upd (po_wallet p)
             (if ok
              then (\<lambda>a. let b = a\<lparr>wOut := wOut a + po_units p\<rparr>
                         in if po_field p = FSol then b\<lparr>wOutSol := wOutSol a + po_units p\<rparr> else b)
              else add_bal (po_field p) (po_units p)) (book s1)\<rparr>))"

text \<open>\<open>runOnce\<close> reads the liabilities and the price, then awaits the vault's holdings.\<close>

definition begin_recon :: "rat \<Rightarrow> desk \<Rightarrow> desk" where
  "begin_recon px s = s\<lparr>recons := recons s @ [(ledgerLiabilities (book s), px)]\<rparr>"

definition judge :: "desk_config \<Rightarrow> recon_report \<Rightarrow> desk \<Rightarrow> desk" where
  "judge c r s =
     (let s1 = s\<lparr>latest := Some r\<rparr> in
      if \<not> rp_ok r \<and> \<not> enforce c then s1
      else if \<not> rp_ok r \<and> \<not> frozen s1 then s1\<lparr>frozen := True\<rparr>
      else if rp_ok r \<and> frozen s1 then s1\<lparr>frozen := False\<rparr>
      else s1)"

definition end_recon :: "desk_config \<Rightarrow> nat \<Rightarrow> rat option \<Rightarrow> rat option \<Rightarrow> rat option \<Rightarrow> desk \<Rightarrow> unit + desk" where
  "end_recon c i solAns bullAns uwuAns s =
     (if i \<ge> length (recons s) then Inl ()
      else
        let (L, px) = recons s ! i
        in Inr (judge c (evaluate_rows (recon_rows (chainReady c) L px solAns bullAns uwuAns))
             (s\<lparr>recons := remove_at i (recons s)\<rparr>)))"

datatype desk_op =
    Deposit string side string
  | DepositSol string string rat
  | Relay string relay_tx bool side "string option" rat
  | NodeReads string "parsed_tx option option"
  | Withdraw string side jsnum
  | WithdrawSol string jsnum rat
  | PayoutEnds nat bool
  | ReconStarts rat
  | ReconReads nat "rat option" "rat option" "rat option"

text \<open>One message or one answer. \<open>Inl ()\<close> is a refusal that changes nothing. Of a relayed transaction the
  operation carries the signature the node gave it, if the broadcast went through, and the price read after
  it.\<close>

fun desk_step :: "desk_config \<Rightarrow> desk_op \<Rightarrow> desk \<Rightarrow> unit + desk" where
  "desk_step c (Deposit w sd sig) s =
     (if \<not> chainReady c then Inl () else Inr (begin_check sig w (coin_of sd) 0 s))"
| "desk_step c (DepositSol w sig px) s =
     (if px = 0 then Inl () else Inr (begin_check sig w FSol px s))"
| "desk_step c (Relay w tx isSol sd sig px) s =
     (if \<not> chainReady c then Inl ()
      else if inspectRelayTx c tx w \<noteq> None then Inl ()
      else case sig of
        None \<Rightarrow> Inl ()
      | Some g \<Rightarrow>
          if isSol then (if px = 0 then Inl () else Inr (begin_check g w FSol px s))
          else Inr (begin_check g w (coin_of sd) 0 s))"
| "desk_step c (NodeReads sig answer) s = end_check sig answer s"
| "desk_step c (Withdraw w sd amount) s =
     (if frozen s then Inl ()
      else if \<not> chainReady c then Inl ()
      else Inr (begin_payout w sd (coin_of sd) (money amount) s))"
| "desk_step c (WithdrawSol w units px) s =
     (if frozen s then Inl ()
      else if px = 0 then Inl ()
      else Inr (begin_payout w Bull FSol (money units) s))"
| "desk_step c (PayoutEnds i ok) s = end_payout i ok s"
| "desk_step c (ReconStarts px) s = Inr (begin_recon px s)"
| "desk_step c (ReconReads i solAns bullAns uwuAns) s = end_recon c i solAns bullAns uwuAns s"

text \<open>A process that has just started over a ledger.\<close>

definition open_desk :: "ledger \<Rightarrow> desk" where
  "open_desk l =
     \<lparr>book = l, seenSigs = {}, inFlightSigs = {}, checks = [], payouts = [], frozen = False, latest = None,
      recons = [], credits = [], finished = []\<rparr>"

subsection \<open>One deposit, one credit\<close>

lemma begin_check_fields [simp]:
  "book (begin_check g w f px s) = book s" "seenSigs (begin_check g w f px s) = seenSigs s"
  "credits (begin_check g w f px s) = credits s" "payouts (begin_check g w f px s) = payouts s"
  "finished (begin_check g w f px s) = finished s" "frozen (begin_check g w f px s) = frozen s"
  "latest (begin_check g w f px s) = latest s"
  by (simp_all add: begin_check_def)

lemma begin_payout_fields [simp]:
  "seenSigs (begin_payout w sd f q s) = seenSigs s" "inFlightSigs (begin_payout w sd f q s) = inFlightSigs s"
  "checks (begin_payout w sd f q s) = checks s" "credits (begin_payout w sd f q s) = credits s"
  "finished (begin_payout w sd f q s) = finished s" "frozen (begin_payout w sd f q s) = frozen s"
  "latest (begin_payout w sd f q s) = latest s"
  by (simp_all add: begin_payout_def Let_def)

lemma judge_fields [simp]:
  "book (judge c r s) = book s" "seenSigs (judge c r s) = seenSigs s" "inFlightSigs (judge c r s) = inFlightSigs s"
  "checks (judge c r s) = checks s" "credits (judge c r s) = credits s" "payouts (judge c r s) = payouts s"
  "finished (judge c r s) = finished s" "latest (judge c r s) = Some r"
  by (simp_all add: judge_def Let_def)

lemma end_payout_fields:
  assumes "end_payout i ok s = Inr s'"
  shows "seenSigs s' = seenSigs s" "inFlightSigs s' = inFlightSigs s" "checks s' = checks s"
    "credits s' = credits s" "frozen s' = frozen s" "latest s' = latest s"
  using assms by (auto simp: end_payout_def Let_def split: if_splits)

lemma end_recon_fields:
  assumes "end_recon c i a1 a2 a3 s = Inr s'"
  shows "seenSigs s' = seenSigs s" "inFlightSigs s' = inFlightSigs s" "checks s' = checks s"
    "credits s' = credits s" "book s' = book s" "payouts s' = payouts s" "finished s' = finished s"
  using assms by (auto simp: end_recon_def Let_def split: if_splits prod.splits)

lemma end_check_cases:
  assumes "end_check sig answer s = Inr s'"
  obtains i where "i < length (checks s)" "ck_sig (checks s ! i) = sig"
    "checks s' = remove_at i (checks s)" "inFlightSigs s' = inFlightSigs s - {sig}"
    "payouts s' = payouts s" "finished s' = finished s" "frozen s' = frozen s" "latest s' = latest s"
    "(book s' = book s \<and> seenSigs s' = seenSigs s \<and> credits s' = credits s) \<or>
     (\<exists>r. answer = Some r \<and> gained (checks s ! i) r \<and> seenSigs s' = insert sig (seenSigs s) \<and>
        book s' = credit (ck_wallet (checks s ! i)) (ck_field (checks s ! i)) (check_units (checks s ! i) r) (book s) \<and>
        credits s' = (sig, ck_wallet (checks s ! i), ck_field (checks s ! i), check_units (checks s ! i) r) # credits s)"
proof (cases "find_index (\<lambda>k. ck_sig k = sig) (checks s)")
  case None
  then show ?thesis using assms by (simp add: end_check_def)
next
  case (Some i)
  have i: "i < length (checks s)" "ck_sig (checks s ! i) = sig" using find_index_SomeD [OF Some] by auto
  show ?thesis
  proof (cases answer)
    case None
    then show ?thesis using assms Some i by (intro that [of i]) (auto simp: end_check_def Let_def)
  next
    case (Some r)
    show ?thesis
    proof (cases "gained (checks s ! i) r")
      case True
      then show ?thesis
        using assms \<open>find_index _ _ = Some i\<close> Some i by (intro that [of i]) (auto simp: end_check_def Let_def)
    next
      case False
      then show ?thesis
        using assms \<open>find_index _ _ = Some i\<close> Some i by (intro that [of i]) (auto simp: end_check_def Let_def)
    qed
  qed
qed

text \<open>The signatures under verification are exactly the reserved ones, none of them is credited, and the
  credited ones are the seen ones, each once.\<close>

definition sigs_ok :: "desk \<Rightarrow> bool" where
  "sigs_ok s \<longleftrightarrow>
     distinct (map ck_sig (checks s)) \<and> set (map ck_sig (checks s)) = inFlightSigs s \<and>
     inFlightSigs s \<inter> seenSigs s = {} \<and> distinct (map fst (credits s)) \<and> fst ` set (credits s) = seenSigs s"

lemma remove_at_key:
  assumes "distinct (map f xs)" and "i < length xs"
  shows "distinct (map f (remove_at i xs))" and "f ` set (remove_at i xs) = f ` set xs - {f (xs ! i)}"
proof -
  have x: "xs = take i xs @ xs ! i # drop (Suc i) xs" using id_take_nth_drop [OF assms(2)] .
  have "distinct (map f (take i xs @ xs ! i # drop (Suc i) xs))" using assms(1) x by metis
  then have d: "distinct (map f (take i xs))" "distinct (map f (drop (Suc i) xs))"
    "f (xs ! i) \<notin> f ` set (take i xs)" "f (xs ! i) \<notin> f ` set (drop (Suc i) xs)"
    "f ` set (take i xs) \<inter> f ` set (drop (Suc i) xs) = {}"
    by (auto simp: take_map drop_map)
  show "distinct (map f (remove_at i xs))" using d by (simp add: remove_at_def)
  have "f ` set xs = insert (f (xs ! i)) (f ` set (remove_at i xs))"
    by (subst x) (auto simp: remove_at_def)
  moreover have "f (xs ! i) \<notin> f ` set (remove_at i xs)" using d by (auto simp: remove_at_def)
  ultimately show "f ` set (remove_at i xs) = f ` set xs - {f (xs ! i)}" by auto
qed

lemma begin_check_sigs: "sigs_ok s \<Longrightarrow> sigs_ok (begin_check g w f px s)"
  by (auto simp: begin_check_def sigs_ok_def claimSig_def)

lemma end_check_sigs:
  assumes "sigs_ok s" and "end_check sig answer s = Inr s'"
  shows "sigs_ok s'"
  using assms(2)
proof (rule end_check_cases)
  fix i
  assume i: "i < length (checks s)" "ck_sig (checks s ! i) = sig"
    and c: "checks s' = remove_at i (checks s)" "inFlightSigs s' = inFlightSigs s - {sig}"
    and b: "(book s' = book s \<and> seenSigs s' = seenSigs s \<and> credits s' = credits s) \<or>
     (\<exists>r. answer = Some r \<and> gained (checks s ! i) r \<and> seenSigs s' = insert sig (seenSigs s) \<and>
        book s' = credit (ck_wallet (checks s ! i)) (ck_field (checks s ! i)) (check_units (checks s ! i) r) (book s) \<and>
        credits s' = (sig, ck_wallet (checks s ! i), ck_field (checks s ! i), check_units (checks s ! i) r) # credits s)"
  have k: "distinct (map ck_sig (checks s'))" "ck_sig ` set (checks s') = inFlightSigs s'"
    using remove_at_key [OF _ i(1), of ck_sig] assms(1) c i(2) by (auto simp: sigs_ok_def)
  have "sig \<in> ck_sig ` set (checks s)" using i nth_mem by blast
  then have "sig \<in> inFlightSigs s" using assms(1) by (simp add: sigs_ok_def)
  then have n: "sig \<notin> seenSigs s" using assms(1) by (auto simp: sigs_ok_def)
  have f: "fst ` set (credits s) = seenSigs s" "distinct (map fst (credits s))"
    and d: "(inFlightSigs s - {sig}) \<inter> insert sig (seenSigs s) = {}"
    using assms(1) by (auto simp: sigs_ok_def)
  from b show "sigs_ok s'"
    unfolding sigs_ok_def using k c n f d by (elim disjE exE conjE) auto
qed

interpretation signatures: invariant_machine "desk_step c" "\<lambda>x. True" sigs_ok for c
proof
  fix s s' :: desk and x :: desk_op
  assume s: "sigs_ok s" and x: "desk_step c x s = Inr s'"
  have other: "sigs_ok t" if "seenSigs t = seenSigs s" "inFlightSigs t = inFlightSigs s" "checks t = checks s"
    "credits t = credits s" for t using s that by (simp add: sigs_ok_def)
  show "sigs_ok s'"
  proof (cases x)
    case (NodeReads sig answer)
    then show ?thesis using x end_check_sigs [OF s] by simp
  next
    case (PayoutEnds i ok)
    then show ?thesis using x end_payout_fields by (intro other) simp_all
  next
    case (ReconReads i a1 a2 a3)
    then show ?thesis using x end_recon_fields by (intro other) simp_all
  next
    case (ReconStarts px)
    then show ?thesis using x by (intro other) (auto simp: begin_recon_def)
  qed (use x s in \<open>auto intro: begin_check_sigs other split: if_splits option.splits\<close>)
qed

text \<open>What a credit is worth when the node tells the truth about the signature.\<close>

definition honest_read :: "(string \<Rightarrow> parsed_tx option) \<Rightarrow> desk_op \<Rightarrow> bool" where
  "honest_read chain x \<longleftrightarrow>
     (case x of NodeReads sig answer \<Rightarrow> answer \<in> {None, Some None, Some (chain sig)} | _ \<Rightarrow> True)"

text \<open>What the vault gained by a transaction, in the coin the credit is for.\<close>

definition vault_gain :: "(string \<Rightarrow> parsed_tx option) \<Rightarrow> string \<Rightarrow> field \<Rightarrow> rat" where
  "vault_gain chain sig f =
     (case f of FSol \<Rightarrow> sol_delta (chain sig) | FBull \<Rightarrow> token_delta Bull (chain sig) | FUwu \<Rightarrow> token_delta Uwu (chain sig))"

definition backed :: "(string \<Rightarrow> parsed_tx option) \<Rightarrow> string \<times> string \<times> field \<times> rat \<Rightarrow> bool" where
  "backed chain e \<longleftrightarrow>
     (case e of (sig, w, f, u) \<Rightarrow> 0 < vault_gain chain sig f \<and> (f \<noteq> FSol \<longrightarrow> u = vault_gain chain sig f))"

lemma gained_backed:
  assumes "gained k r" and "r = None \<or> r = chain (ck_sig k)"
  shows "backed chain (ck_sig k, ck_wallet k, ck_field k, check_units k r)"
proof -
  have "r = chain (ck_sig k)"
    using assms by (auto simp: gained_def sol_delta_def token_delta_def split: field.splits)
  then show ?thesis using assms(1)
    by (auto simp: gained_def backed_def vault_gain_def check_units_def split: field.splits)
qed

interpretation truth: invariant_machine "desk_step c" "honest_read chain" "\<lambda>s. list_all (backed chain) (credits s)"
  for c chain
proof
  fix s s' :: desk and x :: desk_op
  assume s: "list_all (backed chain) (credits s)" and h: "honest_read chain x" and x: "desk_step c x s = Inr s'"
  show "list_all (backed chain) (credits s')"
  proof (cases x)
    case (NodeReads sig answer)
    then have e: "end_check sig answer s = Inr s'" using x by simp
    show ?thesis
      using e
    proof (rule end_check_cases)
      fix i
      assume "ck_sig (checks s ! i) = sig"
        and "(book s' = book s \<and> seenSigs s' = seenSigs s \<and> credits s' = credits s) \<or>
         (\<exists>r. answer = Some r \<and> gained (checks s ! i) r \<and> seenSigs s' = insert sig (seenSigs s) \<and>
            book s' = credit (ck_wallet (checks s ! i)) (ck_field (checks s ! i)) (check_units (checks s ! i) r) (book s) \<and>
            credits s' = (sig, ck_wallet (checks s ! i), ck_field (checks s ! i), check_units (checks s ! i) r) # credits s)"
      then show "list_all (backed chain) (credits s')"
        using s h NodeReads gained_backed [of "checks s ! i" _ chain] by (auto simp: honest_read_def)
    qed
  next
    case (PayoutEnds i ok)
    then show ?thesis using x s end_payout_fields(4) by simp
  next
    case (ReconReads i a1 a2 a3)
    then show ?thesis using x s end_recon_fields(4) by simp
  next
    case (ReconStarts px)
    then show ?thesis using x s by (auto simp: begin_recon_def)
  qed (use x s in \<open>auto split: if_splits option.splits\<close>)
qed

text \<open>C13: A deposit is credited at most once, and only if the vault got it. In whatever order messages and
  answers arrive, no signature is credited twice while the process lives, not even when it is presented
  again while its verification waits; and if the node answers truthfully or not at all, every credit is
  for a transaction that did not fail and by which the vault gained that coin, for a token by exactly the
  amount credited.\<close>

theorem deposit_credited_once:
  assumes "list_all (honest_read chain) ops"
  shows "distinct (map fst (credits (run_ops (desk_step c) ops (open_desk l)))) \<and>
    list_all (backed chain) (credits (run_ops (desk_step c) ops (open_desk l)))"
proof
  have "sigs_ok (open_desk l)" by (simp add: sigs_ok_def open_desk_def)
  then show "distinct (map fst (credits (run_ops (desk_step c) ops (open_desk l))))"
    using signatures.run_inv [of "open_desk l" ops c] by (simp add: sigs_ok_def list_all_iff)
  show "list_all (backed chain) (credits (run_ops (desk_step c) ops (open_desk l)))"
    by (rule truth.run_inv [OF _ assms]) (simp add: open_desk_def)
qed

subsection \<open>The desk's books\<close>

definition waiting :: "field \<Rightarrow> desk \<Rightarrow> rat" where
  "waiting f s = sum_list (map (\<lambda>p. if po_field p = f then po_units p else 0) (payouts s))"

definition paid :: "field \<Rightarrow> desk \<Rightarrow> rat" where
  "paid f s = sum_list (map (\<lambda>(p, ok). if ok \<and> po_field p = f then po_units p else 0) (finished s))"

definition credited :: "field \<Rightarrow> desk \<Rightarrow> rat" where
  "credited f s = sum_list (map (\<lambda>(sig, w, g, u). if g = f then u else 0) (credits s))"

lemma get_acct: "get (acct w sd l) w \<noteq> None"
  by (auto simp: acct_def get_def find_append new_account_def split: option.splits)

lemma get_acct_keeps: "get l i = Some a \<Longrightarrow> get (acct w sd l) i = Some a"
  by (auto simp: acct_def get_def find_append)

lemma above_zero_acct: "above_zero f l \<Longrightarrow> above_zero f (acct w sd l)"
  by (cases f) (auto simp: acct_def above_zero_def new_account_def)

text \<open>An update of one account that names what it adds to each balance.\<close>

definition moves :: "(field \<Rightarrow> rat) \<Rightarrow> (account \<Rightarrow> account) \<Rightarrow> bool" where
  "moves d g \<longleftrightarrow> (\<forall>a. ac_id (g a) = ac_id a \<and> (\<forall>f. bal f (g a) = bal f a + d f))"

lemma bal_more [simp]:
  "bal f (a\<lparr>depIn := x\<rparr>) = bal f a" "bal f (a\<lparr>depInSol := x\<rparr>) = bal f a"
  "bal f (a\<lparr>wOut := x\<rparr>) = bal f a" "bal f (a\<lparr>wOutSol := x\<rparr>) = bal f a"
  "bal f (a\<lparr>dep := x\<rparr>) = bal f a" "bal f (a\<lparr>ret := x\<rparr>) = bal f a"
  by (cases f; simp)+

lemma upd_moves:
  assumes "moves d g" and "get l i \<noteq> None"
  shows "coin_sum f (upd i g l) = coin_sum f l + d f"
    and "get (upd i g l) j \<noteq> None \<longleftrightarrow> get l j \<noteq> None"
    and "above_zero f l \<Longrightarrow> 0 \<le> d f \<Longrightarrow> above_zero f (upd i g l)"
proof -
  obtain a where a: "get l i = Some a" using assms(2) by auto
  have id: "\<And>a. ac_id (g a) = ac_id a" and b: "\<And>a. bal f (g a) = bal f a + d f"
    using assms(1) by (simp_all add: moves_def)
  show "coin_sum f (upd i g l) = coin_sum f l + d f" using total_upd [OF a, of f g] b by simp
  show "get (upd i g l) j \<noteq> None \<longleftrightarrow> get l j \<noteq> None" using get_upd [of g i l j] id a by auto
  show "above_zero f (upd i g l)" if "above_zero f l" "0 \<le> d f"
    using above_zero_upd [OF that(1) a] above_zero_get [OF that(1) a] b that(2) by simp
qed

lemma moves_add: "moves (\<lambda>f. if f = g then v else 0) (add_bal g v)"
  by (simp add: moves_def)

lemma moves_credit:
  "moves (\<lambda>f. if f = g then u else 0) (\<lambda>a. let b = (add_bal g u a)\<lparr>depIn := depIn a + u\<rparr>
     in if g = FSol then b\<lparr>depInSol := depInSol a + u\<rparr> else b)"
  by (auto simp: moves_def Let_def)

lemma moves_paid:
  "moves (\<lambda>f. 0) (\<lambda>a. let b = a\<lparr>wOut := wOut a + u\<rparr> in if g = FSol then b\<lparr>wOutSol := wOutSol a + u\<rparr> else b)"
  by (auto simp: moves_def Let_def)

lemma credit_effect:
  "coin_sum f (credit w g u l) = coin_sum f l + (if f = g then u else 0)"
  "get l j \<noteq> None \<Longrightarrow> get (credit w g u l) j \<noteq> None"
  "above_zero f l \<Longrightarrow> 0 \<le> u \<Longrightarrow> above_zero f (credit w g u l)"
proof -
  let ?l = "acct w (if g = FUwu then Uwu else Bull) l"
  note m = upd_moves [OF moves_credit [of g u] get_acct [of w "if g = FUwu then Uwu else Bull" l]]
  show "coin_sum f (credit w g u l) = coin_sum f l + (if f = g then u else 0)"
    unfolding credit_def m(1) by simp
  show "get (credit w g u l) j \<noteq> None" if "get l j \<noteq> None"
    using that get_acct_keeps [of l j] m(2) unfolding credit_def by blast
  show "above_zero f (credit w g u l)" if "above_zero f l" "0 \<le> u"
    unfolding credit_def using m(3) above_zero_acct [OF that(1)] that(2) by simp
qed

definition desk_books_ok :: "ledger \<Rightarrow> desk \<Rightarrow> bool" where
  "desk_books_ok l s \<longleftrightarrow>
     (\<forall>f. coin_sum f (book s) + waiting f s + paid f s = coin_sum f l + credited f s) \<and>
     (\<forall>f. above_zero f l \<longrightarrow> above_zero f (book s)) \<and>
     (\<forall>p\<in>set (payouts s). get (book s) (po_wallet p) \<noteq> None \<and> 0 < po_units p) \<and>
     (\<forall>k\<in>set (checks s). 0 \<le> ck_px k)"

definition fair_price :: "desk_op \<Rightarrow> bool" where
  "fair_price x \<longleftrightarrow>
     (case x of DepositSol w sig px \<Rightarrow> 0 \<le> px | Relay w tx isSol sd sig px \<Rightarrow> 0 \<le> px | _ \<Rightarrow> True)"

text \<open>How an operation moves the books: what it must show to keep them.\<close>

lemma books_okI:
  assumes "desk_books_ok l s"
    and "\<And>f. coin_sum f (book s') + waiting f s' + paid f s' - credited f s' =
      coin_sum f (book s) + waiting f s + paid f s - credited f s"
    and "\<And>f. above_zero f (book s) \<Longrightarrow> above_zero f (book s')"
    and "\<And>p. p \<in> set (payouts s') \<Longrightarrow> get (book s') (po_wallet p) \<noteq> None \<and> 0 < po_units p"
    and "\<And>k. k \<in> set (checks s') \<Longrightarrow> 0 \<le> ck_px k"
  shows "desk_books_ok l s'"
proof -
  have "coin_sum f (book s') + waiting f s' + paid f s' = coin_sum f l + credited f s'" for f
  proof -
    have "coin_sum f (book s) + waiting f s + paid f s = coin_sum f l + credited f s"
      using assms(1) by (simp add: desk_books_ok_def)
    then show ?thesis using assms(2) [of f] by linarith
  qed
  then show ?thesis using assms(1,3,4,5) by (auto simp: desk_books_ok_def simp del: not_None_eq)
qed

lemma tally_cong:
  "payouts s' = payouts s \<Longrightarrow> waiting f s' = waiting f s"
  "desk.finished s' = desk.finished s \<Longrightarrow> paid f s' = paid f s"
  "credits s' = credits s \<Longrightarrow> credited f s' = credited f s"
  by (simp_all add: waiting_def paid_def credited_def)

lemma books_payouts: "desk_books_ok l s \<Longrightarrow> p \<in> set (payouts s) \<Longrightarrow> get (book s) (po_wallet p) \<noteq> None \<and> 0 < po_units p"
  by (simp add: desk_books_ok_def)

lemma books_checks: "desk_books_ok l s \<Longrightarrow> k \<in> set (checks s) \<Longrightarrow> 0 \<le> ck_px k"
  by (simp add: desk_books_ok_def)

lemma begin_check_books:
  assumes "desk_books_ok l s" and "0 \<le> px"
  shows "desk_books_ok l (begin_check g w f px s)"
  using assms(1)
proof (rule books_okI)
  fix k assume "k \<in> set (checks (begin_check g w f px s))"
  then show "0 \<le> ck_px k" using assms by (auto simp: begin_check_def books_checks split: if_splits)
qed (use assms in \<open>simp_all add: tally_cong [of "begin_check g w f px s" s] books_payouts del: not_None_eq\<close>)

lemma check_units_nonneg: "0 \<le> ck_px k \<Longrightarrow> 0 \<le> check_units k r"
  by (auto simp: check_units_def sol_delta_def token_delta_def Let_def split: field.splits option.splits)

lemma end_check_books:
  assumes "desk_books_ok l s" and "end_check sig answer s = Inr s'"
  shows "desk_books_ok l s'"
  using assms(2)
proof (rule end_check_cases)
  fix i
  let ?k = "checks s ! i"
  assume i: "i < length (checks s)"
    and c: "checks s' = remove_at i (checks s)" "payouts s' = payouts s" "desk.finished s' = desk.finished s"
    and b: "(book s' = book s \<and> seenSigs s' = seenSigs s \<and> credits s' = credits s) \<or>
     (\<exists>r. answer = Some r \<and> gained ?k r \<and> seenSigs s' = insert sig (seenSigs s) \<and>
        book s' = credit (ck_wallet ?k) (ck_field ?k) (check_units ?k r) (book s) \<and>
        credits s' = (sig, ck_wallet ?k, ck_field ?k, check_units ?k r) # credits s)"
  have px: "0 \<le> ck_px ?k" using assms(1) i by (simp add: desk_books_ok_def)
  have k: "0 \<le> ck_px q" if "q \<in> set (checks s')" for q
    using books_checks [OF assms(1)] set_remove_at [of i "checks s"] c(1) that by auto
  from b show "desk_books_ok l s'"
  proof
    assume "book s' = book s \<and> seenSigs s' = seenSigs s \<and> credits s' = credits s"
    then show ?thesis
      by (intro books_okI [OF assms(1)]) (use c k books_payouts [OF assms(1)] in \<open>simp_all add: tally_cong [of s' s] del: not_None_eq\<close>)
  next
    assume "\<exists>r. answer = Some r \<and> gained ?k r \<and> seenSigs s' = insert sig (seenSigs s) \<and>
        book s' = credit (ck_wallet ?k) (ck_field ?k) (check_units ?k r) (book s) \<and>
        credits s' = (sig, ck_wallet ?k, ck_field ?k, check_units ?k r) # credits s"
    then obtain r where r: "book s' = credit (ck_wallet ?k) (ck_field ?k) (check_units ?k r) (book s)"
      "credits s' = (sig, ck_wallet ?k, ck_field ?k, check_units ?k r) # credits s" by blast
    have u: "0 \<le> check_units ?k r" by (rule check_units_nonneg [OF px])
    have "credited f s' = (if f = ck_field ?k then check_units ?k r else 0) + credited f s" for f
      using r(2) by (simp add: credited_def)
    then show ?thesis
      by (intro books_okI [OF assms(1)])
        (use c k u r(1) books_payouts [OF assms(1)] credit_effect in \<open>simp_all add: tally_cong [of s' s] del: not_None_eq\<close>)
  qed
qed

lemma begin_payout_books:
  assumes "desk_books_ok l s"
  shows "desk_books_ok l (begin_payout w sd g asked s)"
proof -
  let ?l = "acct w sd (book s)"
  obtain a where a: "get ?l w = Some a" using get_acct by blast
  define units where "units = min asked (bal g a)"
  have old: "get ?l (po_wallet p) \<noteq> None \<and> 0 < po_units p" if "p \<in> set (payouts s)" for p
    using books_payouts [OF assms that] get_acct_keeps by blast
  show ?thesis
  proof (cases "units < MIN_ENTRY")
    case True
    then have "begin_payout w sd g asked s = s\<lparr>book := ?l\<rparr>" using a by (simp add: begin_payout_def units_def Let_def)
    then show ?thesis
      by (intro books_okI [OF assms])
        (use old books_checks [OF assms] in \<open>simp_all add: tally_cong [of "s\<lparr>book := ?l\<rparr>" s] above_zero_acct del: not_None_eq\<close>)
  next
    case False
    define s' where "s' = s\<lparr>book := upd w (add_bal g (- units)) ?l,
      payouts := payouts s @ [\<lparr>po_wallet = w, po_field = g, po_units = units\<rparr>]\<rparr>"
    have u: "0 < units" using False by (simp add: MIN_ENTRY_def)
    note m = upd_moves [OF moves_add [of g "- units"] get_acct [of w sd "book s"]]
    have "above_zero f (book s')" if "above_zero f (book s)" for f
      using above_zero_upd [OF above_zero_acct [OF that] a] above_zero_get [OF above_zero_acct [OF that] a]
      by (simp add: units_def s'_def)
    moreover have "waiting f s' = waiting f s + (if f = g then units else 0)" for f
      by (simp add: waiting_def s'_def)
    moreover have "get (book s') (po_wallet p) \<noteq> None \<and> 0 < po_units p" if "p \<in> set (payouts s')" for p
      using that old [of p] u a m(2) by (auto simp: s'_def simp del: not_None_eq)
    ultimately have "desk_books_ok l s'"
      by (intro books_okI [OF assms])
        (use books_checks [OF assms] in \<open>simp_all add: s'_def m(1) tally_cong(2,3) [of s' s, unfolded s'_def] del: not_None_eq\<close>)
    then show ?thesis using False a by (simp add: begin_payout_def units_def [symmetric] s'_def Let_def)
  qed
qed

lemma end_payout_books:
  assumes "desk_books_ok l s" and "end_payout i ok s = Inr s'"
  shows "desk_books_ok l s'"
proof -
  let ?p = "payouts s ! i"
  define g where "g = (if ok
    then (\<lambda>a. let b = a\<lparr>wOut := wOut a + po_units ?p\<rparr>
               in if po_field ?p = FSol then b\<lparr>wOutSol := wOutSol a + po_units ?p\<rparr> else b)
    else add_bal (po_field ?p) (po_units ?p))"
  define d where "d = (\<lambda>f. if \<not> ok \<and> f = po_field ?p then po_units ?p else 0)"
  have i: "i < length (payouts s)" using assms(2) by (auto simp: end_payout_def split: if_splits)
  then have p: "get (book s) (po_wallet ?p) \<noteq> None" "0 < po_units ?p" using books_payouts [OF assms(1)] by auto
  have m: "moves d g" using moves_add moves_paid by (auto simp: d_def g_def moves_def Let_def)
  have s': "s' = s\<lparr>payouts := remove_at i (payouts s), finished := (?p, ok) # desk.finished s,
      book := upd (po_wallet ?p) g (book s)\<rparr>"
    using assms(2) i by (simp add: end_payout_def g_def Let_def)
  have w: "waiting f s' = waiting f s - (if po_field ?p = f then po_units ?p else 0)" for f
    using i by (simp add: s' waiting_def sum_list_remove_at)
  have q: "paid f s' = (if ok \<and> po_field ?p = f then po_units ?p else 0) + paid f s" for f
    by (simp add: s' paid_def)
  note e = upd_moves [OF m p(1)]
  have "get (book s') (po_wallet r) \<noteq> None \<and> 0 < po_units r" if "r \<in> set (payouts s')" for r
  proof -
    have "r \<in> set (payouts s)" using that set_remove_at [of i "payouts s"] by (auto simp: s')
    then show ?thesis using books_payouts [OF assms(1)] e(2) by (simp add: s' del: not_None_eq)
  qed
  moreover have "coin_sum f (book s') + waiting f s' + paid f s' - credited f s' =
      coin_sum f (book s) + waiting f s + paid f s - credited f s" for f
  proof -
    have "coin_sum f (book s') = coin_sum f (book s) + d f" by (simp add: s' e(1))
    then show ?thesis using w [of f] q [of f] tally_cong(3) [of s' s f] by (simp add: s' d_def)
  qed
  ultimately show ?thesis
    by (intro books_okI [OF assms(1)])
      (use e(3) p(2) books_checks [OF assms(1)] in \<open>simp_all add: s' d_def del: not_None_eq\<close>)
qed

interpretation desk_books: invariant_machine "desk_step c" fair_price "desk_books_ok l" for c l
proof
  fix s s' :: desk and x :: desk_op
  assume s: "desk_books_ok l s" and f: "fair_price x" and x: "desk_step c x s = Inr s'"
  show "desk_books_ok l s'"
  proof (cases x)
    case (NodeReads sig answer)
    then show ?thesis using x end_check_books [OF s] by simp
  next
    case (PayoutEnds i ok)
    then show ?thesis using x end_payout_books [OF s] by simp
  next
    case (ReconReads i a1 a2 a3)
    then have "end_recon c i a1 a2 a3 s = Inr s'" using x by simp
    from end_recon_fields [OF this] show ?thesis
      using s by (simp add: desk_books_ok_def waiting_def paid_def credited_def)
  next
    case (ReconStarts px)
    then show ?thesis using x s by (auto simp: begin_recon_def desk_books_ok_def waiting_def paid_def credited_def)
  qed (use x s f in \<open>auto simp: fair_price_def intro: begin_check_books begin_payout_books split: if_splits option.splits\<close>)
qed

text \<open>C14: The desk's books balance. However messages and answers interleave, what the ledger holds of a coin
  together with the withdrawals still waiting and the ones paid is what it held at the start and what
  deposits were credited; and nobody's balance goes below zero.\<close>

theorem desk_books_balance:
  assumes "list_all fair_price ops" and "above_zero f l"
  shows "let s = run_ops (desk_step c) ops (open_desk l) in
    coin_sum f (book s) + waiting f s + paid f s = coin_sum f l + credited f s \<and> above_zero f (book s)"
proof -
  have "desk_books_ok l (open_desk l)"
    by (simp add: desk_books_ok_def open_desk_def waiting_def paid_def credited_def)
  from desk_books.run_inv [OF this assms(1), of c] show ?thesis
    using assms(2) by (simp add: desk_books_ok_def Let_def)
qed

subsection \<open>Concrete applications\<close>

definition demo_desk_config :: desk_config where
  "demo_desk_config = \<lparr>chainReady = True, enforce = True, vaultTargets = {''vault''}, okPrograms = {''system''},
     valid_key = (\<lambda>w. True)\<rparr>"

definition demo_tx :: parsed_tx where
  "demo_tx = \<lparr>tx_failed = False, tx_lamports = None, tx_tokens = (\<lambda>sd. if sd = Uwu then (5, 45) else (0, 0))\<rparr>"

lemmas demo_desk = demo_desk_config_def demo_tx_def open_desk_def begin_check_def claimSig_def end_check_def
  remove_at_def gained_def check_units_def token_delta_def

theorem deposit_credited_once_witness:
  "distinct (map fst (credits (run_ops (desk_step demo_desk_config)
     [Deposit ''a'' Uwu ''sig'', NodeReads ''sig'' (Some (Some demo_tx)), Deposit ''a'' Uwu ''sig''] (open_desk []))))"
  using deposit_credited_once [of "\<lambda>sig. Some demo_tx"
      "[Deposit ''a'' Uwu ''sig'', NodeReads ''sig'' (Some (Some demo_tx)), Deposit ''a'' Uwu ''sig'']" demo_desk_config "[]"]
  by (simp add: honest_read_def)

theorem desk_books_balance_witness:
  "let s = run_ops (desk_step demo_desk_config)
     [Deposit ''a'' Uwu ''sig'', NodeReads ''sig'' (Some (Some demo_tx)), Withdraw ''a'' Uwu (Fin 30)] (open_desk [])
   in coin_sum FUwu (book s) + waiting FUwu s + paid FUwu s = credited FUwu s \<and> above_zero FUwu (book s)"
  using desk_books_balance [of "[Deposit ''a'' Uwu ''sig'', NodeReads ''sig'' (Some (Some demo_tx)),
      Withdraw ''a'' Uwu (Fin 30)]" FUwu "[]" demo_desk_config]
  by (simp add: fair_price_def above_zero_def coin_sum_def Let_def)

subsection \<open>The freeze\<close>

definition short :: "asset_row \<Rightarrow> bool" where
  "short r \<longleftrightarrow> \<not> ar_unpriced r \<and> finite_or_0 (ar_liability r) - finite_or_0 (ar_holdings r) > EPS"

lemma assess_ok: "as_ok (assess r) \<longleftrightarrow> \<not> short r"
proof -
  have "max 0 d \<le> EPS \<longleftrightarrow> \<not> d > EPS" for d by (auto simp: EPS_def)
  then show ?thesis by (simp add: assess_def short_def Let_def)
qed

lemma evaluate_ok: "rp_ok (evaluate_rows rows) \<longleftrightarrow> \<not> list_ex short rows"
  by (auto simp: evaluate_rows_def assess_ok list_all_iff list_ex_iff Let_def)

definition freeze_ok :: "desk_config \<Rightarrow> desk \<Rightarrow> bool" where
  "freeze_ok c s \<longleftrightarrow> frozen s = (enforce c \<and> (\<exists>r. latest s = Some r \<and> \<not> rp_ok r))"

lemma judge_freeze: "freeze_ok c s \<Longrightarrow> freeze_ok c (judge c r s)"
  by (auto simp: freeze_ok_def judge_def Let_def)

interpretation freeze: invariant_machine "desk_step c" "\<lambda>x. True" "freeze_ok c" for c
proof
  fix s s' :: desk and x :: desk_op
  assume s: "freeze_ok c s" and x: "desk_step c x s = Inr s'"
  have other: "freeze_ok c t" if "frozen t = frozen s" "latest t = latest s" for t
    using s that by (simp add: freeze_ok_def)
  show "freeze_ok c s'"
  proof (cases x)
    case (NodeReads sig answer)
    then have "end_check sig answer s = Inr s'" using x by simp
    then show ?thesis by (rule end_check_cases) (rule other)
  next
    case (PayoutEnds i ok)
    then show ?thesis using x end_payout_fields by (intro other) simp_all
  next
    case (ReconReads i a1 a2 a3)
    have "freeze_ok c (s\<lparr>recons := rs\<rparr>)" for rs by (rule other) simp_all
    then show ?thesis using ReconReads x judge_freeze by (auto simp: end_recon_def split: if_splits prod.splits)
  next
    case (ReconStarts px)
    then show ?thesis using x by (intro other) (auto simp: begin_recon_def)
  qed (use x s in \<open>auto intro: other split: if_splits option.splits\<close>)
qed

text \<open>C15: Nothing leaves on a shortfall. On a live chain, whatever happened before, the desk is frozen exactly
  when the last solvency check found an asset, comparable and owed by more than a ten-thousandth above what
  the vault holds; and while it is frozen a withdrawal, of a token or of SOL, is refused and changes
  nothing.\<close>

theorem no_payout_on_a_shortfall:
  assumes "enforce c" and "s = run_ops (desk_step c) ops (open_desk l)" and "latest s = Some (evaluate_rows rows)"
  shows "(frozen s \<longleftrightarrow> list_ex short rows) \<and>
    (list_ex short rows \<longrightarrow> desk_step c (Withdraw w sd amount) s = Inl () \<and>
       desk_step c (WithdrawSol w units px) s = Inl ())"
proof -
  have "freeze_ok c (open_desk l)" by (simp add: freeze_ok_def open_desk_def)
  then have "freeze_ok c s" unfolding assms(2) by (rule freeze.run_inv) (simp add: list_all_iff)
  then have f: "frozen s \<longleftrightarrow> list_ex short rows"
    using assms(1,3) by (simp add: freeze_ok_def evaluate_ok)
  then show ?thesis by simp
qed

lemma recon_short:
  assumes "EPS < lb_bull L"
  shows "list_ex short (recon_rows True L px solAns None uwuAns)"
  using assms by (simp add: recon_rows_def short_def finite_or_0_def holding_def Let_def)

lemma recon_pair:
  "run_ops (desk_step c) [ReconStarts px, ReconReads 0 a1 a2 a3] (open_desk l) =
    judge c (evaluate_rows (recon_rows (chainReady c) (ledgerLiabilities l) px a1 a2 a3)) (open_desk l)"
  by (simp add: begin_recon_def end_recon_def open_desk_def remove_at_def)

text \<open>An asset is owed to players in earnest: more than the tolerance of a token when the tokens are
  checked at all, or of SOL at a price.\<close>

definition owes_players :: "bool \<Rightarrow> liabilities \<Rightarrow> rat \<Rightarrow> bool" where
  "owes_players ready L px \<longleftrightarrow>
     ready \<and> (EPS < lb_bull L \<or> EPS < lb_uwu L) \<or> 0 < px \<and> EPS < lb_solUsd L / px"

lemma failed_reads_short: "owes_players ready L px \<Longrightarrow> list_ex short (recon_rows ready L px None None None)"
  by (auto simp: owes_players_def recon_rows_def short_def finite_or_0_def holding_def Let_def)

lemma recon_round:
  "run_ops (desk_step c) [ReconStarts px, ReconReads (length (recons s)) a1 a2 a3] s =
    judge c (evaluate_rows (recon_rows (chainReady c) (ledgerLiabilities (book s)) px a1 a2 a3)) s"
  by (simp add: begin_recon_def end_recon_def remove_at_def)

text \<open>C39: An unreachable node freezes the desk. On a desk that enforces its check (the default on the
  main chain; elsewhere it only warns), from any state: when more than a ten-thousandth of a token whose
  vault is checked, or of SOL at a known price, is owed to players and every read of the check fails, the
  failed reads count as holdings of zero and the desk is frozen, although the code says a failed read must
  not freeze it. The same check of the same books, reading a vault that covers them, leaves the desk open.\<close>

theorem failed_reads_freeze_the_desk:
  assumes "enforce c" and "owes_players (chainReady c) (ledgerLiabilities (book s)) px"
    and "\<not> list_ex short (recon_rows (chainReady c) (ledgerLiabilities (book s)) px (Some vSol) (Some vBull) (Some vUwu))"
  shows "frozen (run_ops (desk_step c) [ReconStarts px, ReconReads (length (recons s)) None None None] s) \<and>
    \<not> frozen (run_ops (desk_step c) [ReconStarts px, ReconReads (length (recons s)) (Some vSol) (Some vBull) (Some vUwu)] s)"
  using assms(1,3) failed_reads_short [OF assms(2)]
  unfolding recon_round by (simp add: judge_def Let_def evaluate_ok)

definition rich :: account where
  "rich = (new_account ''a'' ''A'' Bull False)\<lparr>ac_bull := 7\<rparr>"

lemma rich_owed: "lb_bull (ledgerLiabilities [rich]) = 7"
  by (simp add: ledgerLiabilities_def rich_def new_account_def Let_def)

theorem failed_reads_freeze_the_desk_witness:
  "frozen (run_ops (desk_step demo_desk_config) [ReconStarts 150, ReconReads 0 None None None] (open_desk [rich])) \<and>
   \<not> frozen (run_ops (desk_step demo_desk_config) [ReconStarts 150, ReconReads 0 (Some 1) (Some 9) (Some 0)] (open_desk [rich]))"
proof -
  have o: "owes_players (chainReady demo_desk_config) (ledgerLiabilities (book (open_desk [rich]))) 150"
    by (simp add: owes_players_def demo_desk_config_def open_desk_def rich_owed EPS_def)
  have c: "\<not> list_ex short (recon_rows (chainReady demo_desk_config) (ledgerLiabilities (book (open_desk [rich]))) 150
      (Some 1) (Some 9) (Some 0))"
    by (simp add: recon_rows_def short_def finite_or_0_def holding_def Let_def demo_desk_config_def open_desk_def
        ledgerLiabilities_def rich_def new_account_def EPS_def)
  have e: "enforce demo_desk_config" by (simp add: demo_desk_config_def)
  have "recons (open_desk [rich]) = []" by (simp add: open_desk_def)
  then show ?thesis using failed_reads_freeze_the_desk [OF e o c] by (simp del: run_ops.simps)
qed

theorem no_payout_on_a_shortfall_witness:
  "desk_step demo_desk_config (Withdraw ''a'' Bull (Fin 1))
     (run_ops (desk_step demo_desk_config) [ReconStarts 150, ReconReads 0 None None None] (open_desk [rich])) = Inl ()"
proof -
  let ?rows = "recon_rows True (ledgerLiabilities [rich]) 150 None None None"
  have "latest (run_ops (desk_step demo_desk_config) [ReconStarts 150, ReconReads 0 None None None] (open_desk [rich]))
      = Some (evaluate_rows ?rows)"
    unfolding recon_pair by (simp add: demo_desk_config_def)
  moreover have "list_ex short ?rows" by (rule recon_short) (simp add: rich_owed EPS_def)
  moreover have "enforce demo_desk_config" by (simp add: demo_desk_config_def)
  ultimately show ?thesis using no_payout_on_a_shortfall [OF _ refl] by blast
qed

subsection \<open>Whose deposit it is\<close>

text \<open>The first to name a signature gets the deposit. Whoever presents the signature of a transaction that
  paid the vault is credited with it, no matter who signed and paid it; afterwards nobody's claim to it
  changes anything. The check that the fee payer is the wallet is made for relayed transactions only.\<close>

theorem first_claim_takes_the_deposit:
  assumes "chainReady c" and "claimSig sig s" and "token_delta sd r > 0"
    and "sig \<notin> ck_sig ` set (checks s)"
  shows "let t = run_ops (desk_step c) [Deposit w sd sig, NodeReads sig (Some r)] s in
    book t = credit w (coin_of sd) (token_delta sd r) (book s) \<and> desk_step c (Deposit w' sd' sig) t = Inr t"
proof -
  define t where "t = run_ops (desk_step c) [Deposit w sd sig, NodeReads sig (Some r)] s"
  let ?k = "\<lparr>ck_sig = sig, ck_wallet = w, ck_field = coin_of sd, ck_px = 0\<rparr>"
  have "find_index (\<lambda>k. ck_sig k = sig) (checks s @ [?k]) = Some (length (checks s))"
    using assms(4) by (intro find_index_snoc) auto
  moreover have "gained ?k r" "check_units ?k r = token_delta sd r"
    using assms(3) by (cases sd; simp add: gained_def check_units_def)+
  ultimately have "book t = credit w (coin_of sd) (token_delta sd r) (book s) \<and> sig \<in> seenSigs t"
    using assms(1,2) by (simp add: t_def begin_check_def end_check_def Let_def)
  then show ?thesis using assms(1) unfolding t_def [symmetric] Let_def by (simp add: begin_check_def claimSig_def)
qed

theorem first_claim_takes_the_deposit_witness:
  "book (run_ops (desk_step demo_desk_config) [Deposit ''thief'' Uwu ''sig'', NodeReads ''sig'' (Some (Some demo_tx))]
      (open_desk [])) = credit ''thief'' FUwu 40 []"
proof -
  have d: "token_delta Uwu (Some demo_tx) = 40" by (simp add: token_delta_def demo_tx_def)
  have c: "chainReady demo_desk_config" "claimSig ''sig'' (open_desk [])" "''sig'' \<notin> ck_sig ` set (checks (open_desk []))"
    by (simp_all add: demo_desk_config_def claimSig_def open_desk_def)
  show ?thesis
    using first_claim_takes_the_deposit [OF c(1,2) _ c(3), of Uwu "Some demo_tx" "''thief''"] d
    by (simp add: open_desk_def Let_def del: run_ops.simps)
qed

end
