(* ===== verification/Engine_Bots.thy ===== *)
theory Engine_Bots
  imports Engine_Ledger Js_Number
begin

text \<open>
  The house's fighters and the money behind them, from \<open>engine/src/server.ts\<close> (and the registry of
  arenas in \<open>arenas.ts\<close>): pricing in dollars, what population the float affords, creating a fighter
  with money drawn from the pool, retiring one, thinning the population, skimming what has pooled in one
  fighter.

  Prices are an argument: what \<open>usdPerUnit\<close> and \<open>usdPerUnitSafe\<close> answer while the operation
  runs (the feed is outside the process). So are the draws of \<open>Math.random\<close>. The environment's
  numbers are the fields of \<open>house\<close>. A fighter's display name is an argument.
\<close>

subsection \<open>Arenas\<close>

definition FEE :: rat where "FEE = 2 / 1000"
definition CAP :: rat where "CAP = 100"
definition CONVERT_FEE :: rat where "CONVERT_FEE = 3 / 1000"

definition part0 :: "string \<Rightarrow> string" where
  "part0 aid = takeWhile (\<lambda>c. c \<noteq> CHR ''-'') aid"

definition part1 :: "string \<Rightarrow> string" where
  "part1 aid = takeWhile (\<lambda>c. c \<noteq> CHR ''-'') (drop (Suc (length (part0 aid))) aid)"

text \<open>\<open>arenaTokens\<close> composed with \<open>FIELD\<close>: the ledger fields of an arena's two slots.\<close>

definition arenaFields :: "string \<Rightarrow> (field \<times> field) option" where
  "arenaFields aid =
     (if part0 aid = ''au'' then Some (FBull, FUwu)
      else if part0 aid = ''as'' then Some (FBull, FSol)
      else if part0 aid = ''us'' then Some (FUwu, FSol) else None)"

definition arenaEco :: "string \<Rightarrow> arena_mode" where
  "arenaEco aid = (if part1 aid = ''extraction'' then Extraction else Normal)"

definition slot :: "field \<times> field \<Rightarrow> side \<Rightarrow> field" where
  "slot fs sd = (if sd = Bull then fst fs else snd fs)"

subsection \<open>Prices\<close>

definition usdPerUnit :: "(field \<Rightarrow> rat option) \<Rightarrow> field \<Rightarrow> rat" where
  "usdPerUnit feed f = (if f = FSol then 1 else case feed f of Some p \<Rightarrow> (if p > 0 then p else 0) | None \<Rightarrow> 0)"

definition usdPerUnitSafe :: "(field \<Rightarrow> rat option) \<Rightarrow> field \<Rightarrow> (field \<Rightarrow> rat) \<Rightarrow> rat \<times> (field \<Rightarrow> rat)" where
  "usdPerUnitSafe feed f lastGood =
     (let px = usdPerUnit feed f in if px > 0 then (px, lastGood(f := px)) else (lastGood f, lastGood))"

text \<open>What the two answer during an operation.\<close>

record quotes =
  px_now :: "field \<Rightarrow> rat"
  px_safe :: "field \<Rightarrow> rat"

definition unitsForUsd :: "quotes \<Rightarrow> field \<Rightarrow> rat \<Rightarrow> rat" where
  "unitsForUsd q f usd = (if px_now q f > 0 then usd / px_now q f else 0)"

subsection \<open>The float\<close>

record house =
  pool :: "string list"
  fakeBank :: bool
  BOT_BANK_USD_MIN :: rat
  BOT_BANK_USD_MAX :: rat
  BOT_STAKE_USD_MIN :: rat
  BOT_BANK_MIN :: rat
  BOT_BANK_MAX :: rat
  BOT_STAKE_MIN :: rat
  BOT_STAKE_MAX :: rat
  BOT_MIN_RUNWAY :: rat
  BOT_FUND_SPREAD :: rat
  BOT_BANK_SPREAD :: rat
  BOT_MAX_BANK_USD :: rat
  BOT_POP_ROTATIONS :: rat
  BOT_COMMIT_MIN :: rat
  BOT_COMMIT_MAX :: rat
  PLAY_MIN :: int
  PLAY_MAX :: int
  PLAY_IDLE_MAX :: int
  PLAY_SCALE_USD :: rat
  MIN_PER_SIDE :: nat
  MATCH_RATIO :: rat
  SWARM_SIZE :: int
  BUST_USD :: rat
  POP_START :: rat
  POP_GROWTH :: rat
  POP_MAX :: rat
  POP_MIN :: rat

definition live_bot :: "account \<Rightarrow> bool" where
  "live_bot a \<longleftrightarrow> isBot a \<and> \<not> retired a"

definition floatUsd :: "house \<Rightarrow> quotes \<Rightarrow> ledger \<Rightarrow> rat" where
  "floatUsd h q l =
     (let held = (\<lambda>f. poolBalance (pool h) f l + sum_list (map (bal f) (filter live_bot l)))
      in held FBull * px_now q FBull + held FUwu * px_now q FUwu + held FSol)"

definition popAffordable :: "house \<Rightarrow> quotes \<Rightarrow> ledger \<Rightarrow> jsnum" where
  "popAffordable h q l =
     (if \<not> botBankReady (pool h) l \<and> fakeBank h then PosInf
      else
        let perBot = max (BOT_BANK_USD_MIN h) (BOT_STAKE_USD_MIN h * BOT_MIN_RUNWAY h)
        in if \<not> perBot > 0 then Fin 0 else Fin (of_int \<lfloor>floatUsd h q l / perBot\<rfloor>))"

definition bankFor :: "house \<Rightarrow> field \<Rightarrow> rat \<Rightarrow> rat \<Rightarrow> ledger \<Rightarrow> rat \<times> ledger" where
  "bankFor h f want spread l =
     (if botBankReady (pool h) l then drawBank (pool h) f want spread l
      else (if fakeBank h then want else 0, l))"

text \<open>\<open>Math.max(1, Math.min(popAffordable(), BOT_FUND_SPREAD))\<close>.\<close>

definition fund_spread :: "house \<Rightarrow> quotes \<Rightarrow> ledger \<Rightarrow> rat" where
  "fund_spread h q l =
     (case js_min (popAffordable h q l) (Fin (BOT_FUND_SPREAD h)) of Fin n \<Rightarrow> max 1 n | _ \<Rightarrow> 1)"

subsection \<open>Fighters come and go\<close>

definition return_all :: "house \<Rightarrow> field \<Rightarrow> string \<Rightarrow> ledger \<Rightarrow> ledger" where
  "return_all h f i l =
     (case get l i of
        None \<Rightarrow> l
      | Some a \<Rightarrow> if bal f a > 0 then upd i (set_bal f 0) (returnBank (pool h) f (bal f a) l) else l)"

definition retireBot :: "house \<Rightarrow> string \<Rightarrow> ledger \<Rightarrow> ledger" where
  "retireBot h i l =
     upd i (\<lambda>a. a\<lparr>retired := True\<rparr>) (return_all h FSol i (return_all h FUwu i (return_all h FBull i l)))"

text \<open>\<open>ledger.set(id, a)\<close>: an account with that id is replaced where it stands.\<close>

definition put_account :: "account \<Rightarrow> ledger \<Rightarrow> ledger" where
  "put_account a l =
     (case find_index (\<lambda>b. ac_id b = ac_id a) l of None \<Rightarrow> l @ [a] | Some k \<Rightarrow> l[k := a])"

definition bot_id :: "string \<Rightarrow> nat \<Rightarrow> string" where
  "bot_id aid n = aid @ '':bot:'' @ dec_digits n"

text \<open>The process's part of the house: its ledger, the running number of the fighters and the rotation of
  the scan.\<close>

record staff =
  accts :: ledger
  seq :: nat
  botScanOffset :: nat
  created :: "arena_mode \<Rightarrow> nat"
  bustedCount :: "arena_mode \<Rightarrow> nat"

record dice =
  d_name :: string
  d_temper :: rat
  d_skip :: rat
  d_bank :: rat

text \<open>A fighter with the money \<open>got\<close> it was given; kept only if that covers one minimum stake.
  \<open>d_temper\<close> is \<open>Math.pow(Math.random(), 2.2)\<close>.\<close>

definition bot_want :: "house \<Rightarrow> quotes \<Rightarrow> field \<Rightarrow> rat \<Rightarrow> rat" where
  "bot_want h q f u =
     (if BOT_BANK_MIN h > 0 then BOT_BANK_MIN h + u * (BOT_BANK_MAX h - BOT_BANK_MIN h)
      else unitsForUsd q f (BOT_BANK_USD_MIN h + u * (BOT_BANK_USD_MAX h - BOT_BANK_USD_MIN h)))"

definition min_stake :: "house \<Rightarrow> quotes \<Rightarrow> field \<Rightarrow> rat" where
  "min_stake h q f = (if BOT_STAKE_MIN h > 0 then BOT_STAKE_MIN h else unitsForUsd q f (BOT_STAKE_USD_MIN h))"

definition newBot :: "house \<Rightarrow> quotes \<Rightarrow> dice \<Rightarrow> string \<Rightarrow> side \<Rightarrow> staff \<Rightarrow> bool \<times> staff" where
  "newBot h q d aid sd s =
     (let s1 = s\<lparr>seq := seq s + 1\<rparr>;
          f = slot (case arenaFields aid of Some fs \<Rightarrow> fs | None \<Rightarrow> (FBull, FUwu)) sd;
          (got, l) = bankFor h f (bot_want h q f (d_bank d)) (fund_spread h q (accts s1)) (accts s1);
          a = (set_bal f got (new_account (bot_id aid (seq s1)) (d_name d) sd True))
                \<lparr>ac_temper := Some (35 / 100 + d_temper d * (26 / 10)), ac_skip := Some (d_skip d * (30 / 100))\<rparr>
      in if \<not> got \<ge> min_stake h q f then (False, s1\<lparr>accts := returnBank (pool h) f got l\<rparr>)
         else (True, s1\<lparr>accts := put_account a l,
                        created := (created s1)(arenaEco aid := created s1 (arenaEco aid) + 1)\<rparr>))"

fun seedBots :: "house \<Rightarrow> quotes \<Rightarrow> dice list \<Rightarrow> string \<Rightarrow> nat \<Rightarrow> staff \<Rightarrow> staff" where
  "seedBots h q [] aid i s = s"
| "seedBots h q (d # ds) aid i s =
     (let (made, s1) = newBot h q d aid (if odd i then Uwu else Bull) s
      in if made then seedBots h q ds aid (i + 1) s1 else s1)"

definition belongs :: "string \<Rightarrow> account \<Rightarrow> bool" where
  "belongs aid a \<longleftrightarrow> live_bot a \<and> starts_with (aid @ '':'') (ac_id a)"

text \<open>The fighters of an arena, from a starting point that moves on with every scan.\<close>

definition botsFor :: "string \<Rightarrow> staff \<Rightarrow> string list \<times> staff" where
  "botsFor aid s =
     (let all = map ac_id (filter (belongs aid) (accts s)) in
      if length all < 2 then (all, s)
      else let k = botScanOffset s mod length all
           in (drop k all @ take k all, s\<lparr>botScanOffset := botScanOffset s + 1\<rparr>))"

definition bot_worth :: "quotes \<Rightarrow> account \<Rightarrow> rat" where
  "bot_worth q a = ac_bull a * px_safe q FBull + ac_uwu a * px_safe q FUwu + ac_sol a"

definition id_worth :: "quotes \<Rightarrow> ledger \<Rightarrow> string \<Rightarrow> rat" where
  "id_worth q l i = (case get l i of None \<Rightarrow> 0 | Some a \<Rightarrow> bot_worth q a)"

definition capPopulation :: "house \<Rightarrow> quotes \<Rightarrow> string \<Rightarrow> staff \<Rightarrow> staff" where
  "capPopulation h q aid s =
     (let perSideCap = (if PLAY_MAX h > 0 then PLAY_MAX h else 9);
          target = max 6 (of_int perSideCap * 2 * BOT_POP_ROTATIONS h);
          (alive, s1) = botsFor aid s
      in if of_nat (length alive) \<le> target then s1
         else
           let excess = take (nat \<lfloor>of_nat (length alive) - target\<rfloor>) (sort_key (id_worth q (accts s1)) alive)
           in s1\<lparr>accts := fold (retireBot h) excess (accts s1)\<rparr>)"

text \<open>What has pooled in one fighter above the ceiling goes back to the pool, coin by coin.\<close>

definition skim :: "house \<Rightarrow> quotes \<Rightarrow> string \<Rightarrow> field \<Rightarrow> ledger \<Rightarrow> ledger" where
  "skim h q i f l =
     (case get l i of
        None \<Rightarrow> l
      | Some a \<Rightarrow>
          let px = (if f = FSol then 1 else px_safe q f) in
          if \<not> px > 0 then l
          else
            let usd = bal f a * px in
            if usd \<le> BOT_MAX_BANK_USD h then l
            else let t = (usd - BOT_MAX_BANK_USD h) / px
                 in returnBank (pool h) f t (upd i (add_bal f (- t)) l))"

definition level_one :: "house \<Rightarrow> quotes \<Rightarrow> string \<Rightarrow> ledger \<Rightarrow> ledger" where
  "level_one h q i l =
     (case get l i of
        None \<Rightarrow> l
      | Some a \<Rightarrow>
          if \<not> live_bot a \<or> i \<in> set (pool h) then l
          else skim h q i FSol (skim h q i FUwu (skim h q i FBull l)))"

definition levelBots :: "house \<Rightarrow> quotes \<Rightarrow> ledger \<Rightarrow> ledger" where
  "levelBots h q l =
     (if \<not> botBankReady (pool h) l then l else fold (level_one h q) (map ac_id l) l)"

subsection \<open>House money stays house money\<close>

text \<open>What every operation of the house on the book must keep: each coin's total, nobody below zero, every
  account that is neither a fighter's nor the pool's, and who is of the house.\<close>

definition house_id :: "string list \<Rightarrow> string \<Rightarrow> ledger \<Rightarrow> bool" where
  "house_id p i l \<longleftrightarrow> i \<in> set p \<or> (case get l i of None \<Rightarrow> True | Some a \<Rightarrow> isBot a)"

definition house_move :: "string list \<Rightarrow> ledger \<Rightarrow> ledger \<Rightarrow> bool" where
  "house_move p l l' \<longleftrightarrow>
     poolAccounts p l' \<noteq> [] \<and> (\<forall>f. coin_sum f l' = coin_sum f l) \<and>
     (\<forall>f. above_zero f l \<longrightarrow> above_zero f l') \<and>
     (\<forall>i. (\<not> house_id p i l \<longrightarrow> get l' i = get l i) \<and> (house_id p i l \<longrightarrow> house_id p i l'))"

lemma house_move_refl: "poolAccounts p l \<noteq> [] \<Longrightarrow> house_move p l l"
  by (simp add: house_move_def)

lemma house_move_trans: "house_move p l l' \<Longrightarrow> house_move p l' l'' \<Longrightarrow> house_move p l l''"
  unfolding house_move_def by (metis house_id_def)

lemma house_moveD:
  assumes "house_move p l l'"
  shows "poolAccounts p l' \<noteq> []" and "house_id p i l \<Longrightarrow> house_id p i l'"
    and "coin_sum f l' = coin_sum f l" and "above_zero f l \<Longrightarrow> above_zero f l'"
    and "\<not> house_id p i l \<Longrightarrow> get l' i = get l i"
  using assms unfolding house_move_def by blast+

lemma house_move_step:
  assumes "house_move p l l'" and "house_id p i l"
    and "poolAccounts p l' \<noteq> [] \<Longrightarrow> house_id p i l' \<Longrightarrow> house_move p l' l''"
  shows "house_move p l l''"
  using house_move_trans [OF assms(1)] assms(3) house_moveD(1,2) [OF assms(1)] assms(2) by blast

text \<open>An operation that is safe on every fighter the book has is safe on any sequence of them.\<close>

locale house_operation =
  fixes p :: "string list"
    and op :: "string \<Rightarrow> ledger \<Rightarrow> ledger"
    and fit :: "string \<Rightarrow> bool"
  assumes op_move: "poolAccounts p l \<noteq> [] \<Longrightarrow> fit i \<Longrightarrow> house_id p i l \<Longrightarrow> house_move p l (op i l)"
begin

lemma fold_move:
  "poolAccounts p l \<noteq> [] \<Longrightarrow> \<forall>i\<in>set is. fit i \<and> house_id p i l \<Longrightarrow> house_move p l (fold op is l)"
proof (induction "is" arbitrary: l)
  case Nil
  then show ?case by (simp add: house_move_refl)
next
  case (Cons i "is")
  then have m: "house_move p l (op i l)" using op_move by simp
  then have "poolAccounts p (op i l) \<noteq> []" "\<forall>j\<in>set is. fit j \<and> house_id p j (op i l)"
    using Cons.prems(2) by (auto simp: house_move_def)
  then have "house_move p (op i l) (fold op is (op i l))" by (rule Cons.IH)
  then show ?case using house_move_trans [OF m] by simp
qed

end

text \<open>A sweep over every account of the book also meets the ones that are not the house's, and leaves them.\<close>

locale house_sweep = house_operation +
  assumes op_skips: "\<not> house_id p i l \<Longrightarrow> op i l = l"
begin

lemma sweep_move:
  "poolAccounts p l \<noteq> [] \<Longrightarrow> \<forall>i\<in>set is. fit i \<Longrightarrow> house_move p l (fold op is l)"
proof (induction "is" arbitrary: l)
  case Nil
  then show ?case by (simp add: house_move_refl)
next
  case (Cons i "is")
  have m: "house_move p l (op i l)"
    using Cons.prems op_move op_skips by (cases "house_id p i l") (simp_all add: house_move_refl)
  then have "poolAccounts p (op i l) \<noteq> []" by (rule house_moveD)
  then have "house_move p (op i l) (fold op is (op i l))" using Cons.IH Cons.prems(2) by simp
  then show ?case using house_move_trans [OF m] by simp
qed

end

lemma returnBank_upd:
  assumes "poolAccounts p l \<noteq> []" and "0 < v"
  obtains j where "j \<in> set p" "get l j \<noteq> None" "returnBank p f v l = upd j (add_bal f v) l"
proof -
  obtain a as where q: "poolAccounts p l = a # as" using assms(1) by (cases "poolAccounts p l") auto
  let ?b = "poorest f a (a # as)"
  have b: "?b \<in> set (poolAccounts p l)" using poorest_in [of f a "a # as"] q by auto
  then obtain i where i: "i \<in> set p" "get l i = Some ?b"
    by (auto simp: poolAccounts_def List.map_filter_def)
  then have "ac_id ?b = i" by (auto dest: get_id)
  then have "returnBank p f v l = upd i (add_bal f v) l"
    using assms(2) unfolding returnBank_def q by (simp del: poorest.simps)
  then show ?thesis using i by (intro that [of i]) simp_all
qed

lemma poolAccounts_upd:
  assumes "\<And>a. ac_id (g a) = ac_id a"
  shows "poolAccounts p (upd i g l) = [] \<longleftrightarrow> poolAccounts p l = []"
  by (induction p) (auto simp: poolAccounts_Cons get_upd [OF assms] split: option.split)

lemma house_id_upd:
  assumes "\<And>a. ac_id (g a) = ac_id a" and "\<And>a. isBot (g a) = isBot a"
  shows "house_id p j (upd i g l) = house_id p j l"
  by (auto simp: house_id_def get_upd [OF assms(1)] assms(2) split: option.split)

text \<open>Moving money from one fighter to the pool, in the order the code does it.\<close>

lemma pay_back_move:
  assumes "poolAccounts p l \<noteq> []" and "house_id p i l" and "get l i = Some a" and "0 < v"
    and "above_zero f l \<Longrightarrow> v \<le> bal f a"
  shows "house_move p l (returnBank p f v (upd i (add_bal f (- v)) l))"
proof -
  let ?l = "upd i (add_bal f (- v)) l"
  have r: "poolAccounts p ?l \<noteq> []" using assms(1) by (simp add: poolAccounts_upd)
  obtain j where j: "j \<in> set p" "get ?l j \<noteq> None" "returnBank p f v ?l = upd j (add_bal f v) ?l"
    using returnBank_upd [OF r assms(4)] by blast
  obtain b where b: "get ?l j = Some b" using j(2) by auto
  have "coin_sum g (upd j (add_bal f v) ?l) = coin_sum g l" for g
    using total_upd_add [OF b, of g f v] total_upd_add [OF assms(3), of g f "- v"] by auto
  moreover have "above_zero g (upd j (add_bal f v) ?l)" if "above_zero g l" for g
  proof -
    have z: "above_zero g ?l"
      using above_zero_upd [OF that assms(3)] above_zero_get [OF that assms(3)] assms(5) that
      by (cases "f = g") auto
    then show ?thesis using above_zero_upd [OF z b] above_zero_get [OF z b] assms(4) by auto
  qed
  moreover have "get (upd j (add_bal f v) ?l) k = get l k" if "\<not> house_id p k l" for k
    using that assms(2) j(1) by (auto simp: get_upd house_id_def)
  ultimately show ?thesis
    unfolding j(3) house_move_def using r by (auto simp: house_id_upd poolAccounts_upd)
qed

lemma return_all_move:
  assumes "poolAccounts p l \<noteq> []" and "p = pool h" and "i \<notin> set p" and "house_id p i l"
  shows "house_move p l (return_all h f i l)"
proof (cases "get l i")
  case None
  then show ?thesis using assms by (simp add: return_all_def house_move_refl)
next
  case (Some a)
  show ?thesis
  proof (cases "bal f a > 0")
    case True
    obtain j where j: "j \<in> set p" "get l j \<noteq> None" "returnBank p f (bal f a) l = upd j (add_bal f (bal f a)) l"
      using returnBank_upd [OF assms(1) True] by blast
    let ?l = "upd j (add_bal f (bal f a)) l"
    have ij: "i \<noteq> j" using j(1) assms(3) by auto
    have a: "get ?l i = Some a" using ij Some by (simp add: get_upd)
    obtain b where b: "get l j = Some b" using j(2) by auto
    have id: "ac_id (set_bal f 0 x) = ac_id x" "isBot (set_bal f 0 x) = isBot x" for x by simp_all
    have "coin_sum g (upd i (set_bal f 0) ?l) = coin_sum g l" for g
      using total_upd [OF a, of g "set_bal f 0"] total_upd_add [OF b, of g f "bal f a"] by auto
    moreover have "above_zero g (upd i (set_bal f 0) ?l)" if "above_zero g l" for g
    proof -
      have z: "above_zero g ?l"
        using above_zero_upd [OF that b] above_zero_get [OF that b] True by auto
      then show ?thesis using above_zero_upd [OF z a] above_zero_get [OF z a] by auto
    qed
    moreover have "get (upd i (set_bal f 0) ?l) k = get l k" if "\<not> house_id p k l" for k
      using that assms(4) j(1) by (auto simp: get_upd house_id_def)
    moreover have "poolAccounts p (upd i (set_bal f 0) ?l) \<noteq> []"
      using assms(1) by (simp add: poolAccounts_upd)
    ultimately show ?thesis
      using Some True assms(2) j(3) by (simp add: return_all_def house_move_def house_id_upd)
  next
    case False
    then show ?thesis using assms Some by (simp add: return_all_def house_move_refl)
  qed
qed

lemma upd_retired_move:
  assumes "poolAccounts p l \<noteq> []" and "house_id p i l"
  shows "house_move p l (upd i (\<lambda>a. a\<lparr>retired := True\<rparr>) l)"
proof (cases "get l i")
  case None
  then have "upd i (\<lambda>a. a\<lparr>retired := True\<rparr>) l = l" by (auto simp: get_def find_find_index upd_def)
  then show ?thesis using assms by (simp add: house_move_refl)
next
  case (Some a)
  have b: "bal f (a\<lparr>retired := True\<rparr>) = bal f a" for f by (cases f) simp_all
  have "coin_sum f (upd i (\<lambda>a. a\<lparr>retired := True\<rparr>) l) = coin_sum f l" for f
    using total_upd [OF Some, of f "\<lambda>a. a\<lparr>retired := True\<rparr>"] b by simp
  moreover have "above_zero f (upd i (\<lambda>a. a\<lparr>retired := True\<rparr>) l)" if "above_zero f l" for f
    using above_zero_upd [OF that Some, of "\<lambda>a. a\<lparr>retired := True\<rparr>"] above_zero_get [OF that Some] b by simp
  ultimately show ?thesis
    using assms by (auto simp: house_move_def house_id_upd poolAccounts_upd get_upd)
qed

interpretation retiring: house_operation "pool h" "retireBot h" "\<lambda>i. i \<notin> set (pool h)" for h
proof
  fix l i
  assume r: "poolAccounts (pool h) l \<noteq> []" and i: "i \<notin> set (pool h)" and o: "house_id (pool h) i l"
  have step: "house_move (pool h) l l' \<Longrightarrow> house_move (pool h) l (return_all h f i l')" for l' f
    by (erule house_move_step [OF _ o]) (rule return_all_move [OF _ refl i])
  have "house_move (pool h) l (return_all h FSol i (return_all h FUwu i (return_all h FBull i l)))"
    by (intro step house_move_refl r)
  then show "house_move (pool h) l (retireBot h i l)"
    unfolding retireBot_def by (rule house_move_step [OF _ o]) (rule upd_retired_move)
qed

lemma skim_move:
  assumes "poolAccounts (pool h) l \<noteq> []" and "house_id (pool h) i l" and "0 \<le> BOT_MAX_BANK_USD h"
  shows "house_move (pool h) l (skim h q i f l)"
proof (cases "get l i")
  case None
  then show ?thesis using assms by (simp add: skim_def house_move_refl)
next
  case (Some a)
  let ?px = "if f = FSol then 1 else px_safe q f"
  let ?t = "(bal f a * ?px - BOT_MAX_BANK_USD h) / ?px"
  show ?thesis
  proof (cases "?px > 0 \<and> bal f a * ?px > BOT_MAX_BANK_USD h")
    case True
    have "?t \<le> bal f a" using True assms(3) by (auto simp: field_simps)
    moreover have "0 < ?t" using True by simp
    ultimately have "house_move (pool h) l (returnBank (pool h) f ?t (upd i (add_bal f (- ?t)) l))"
      by (intro pay_back_move [OF assms(1,2) Some]) auto
    then show ?thesis using Some True by (simp add: skim_def Let_def)
  next
    case False
    then show ?thesis using assms Some by (auto simp: skim_def Let_def house_move_refl)
  qed
qed

interpretation levelling: house_sweep "pool h" "level_one h q" "\<lambda>i. 0 \<le> BOT_MAX_BANK_USD h" for h q
proof
  fix l i
  show "\<not> house_id (pool h) i l \<Longrightarrow> level_one h q i l = l"
    by (auto simp: level_one_def house_id_def live_bot_def split: option.splits)
next
  fix l i
  assume r: "poolAccounts (pool h) l \<noteq> []" and b: "0 \<le> BOT_MAX_BANK_USD h" and o: "house_id (pool h) i l"
  have step: "house_move (pool h) l l' \<Longrightarrow> house_move (pool h) l (skim h q i f l')" for l' f
    by (erule house_move_step [OF _ o]) (rule skim_move [OF _ _ b])
  have "house_move (pool h) l (skim h q i FSol (skim h q i FUwu (skim h q i FBull l)))"
    by (intro step house_move_refl r)
  then show "house_move (pool h) l (level_one h q i l)"
    using r by (auto simp: level_one_def house_move_refl split: option.split)
qed

lemma bankFor_effect:
  assumes "bankFor h f want spread l = (got, l')" and "\<not> fakeBank h"
  shows "coin_sum g l' = coin_sum g l - (if f = g then got else 0)" and "0 \<le> got"
    and "above_zero g l \<Longrightarrow> above_zero g l'" and "poolAccounts (pool h) l' = [] \<longleftrightarrow> poolAccounts (pool h) l = []"
    and "i \<notin> set (pool h) \<Longrightarrow> get l' i = get l i"
proof -
  have "coin_sum g l' = coin_sum g l - (if f = g then got else 0) \<and> 0 \<le> got \<and> (above_zero g l \<longrightarrow> above_zero g l') \<and>
    (poolAccounts (pool h) l' = [] \<longleftrightarrow> poolAccounts (pool h) l = []) \<and> (i \<notin> set (pool h) \<longrightarrow> get l' i = get l i)"
  proof (cases "botBankReady (pool h) l")
    case True
    then have d: "drawBank (pool h) f want spread l = (got, l')" using assms(1) by (simp add: bankFor_def)
    have "poolAccounts (pool h) l' = [] \<longleftrightarrow> poolAccounts (pool h) l = []"
      using d take_from_ready [of 0 f "pool h" _ l _ l' "pool h"]
      by (auto simp: drawBank_def Let_def split: if_splits prod.splits)
    moreover have "i \<notin> set (pool h) \<longrightarrow> get l' i = get l i"
      using d take_from_get [of 0 f "pool h" _ l _ l' i]
      by (auto simp: drawBank_def Let_def split: if_splits prod.splits)
    ultimately show ?thesis using drawBank_total(1,4) [OF d, of g] drawBank_total(2) [OF d] by simp
  qed (use assms in \<open>auto simp: bankFor_def\<close>)
  then show "coin_sum g l' = coin_sum g l - (if f = g then got else 0)" "0 \<le> got"
    "above_zero g l \<Longrightarrow> above_zero g l'" "poolAccounts (pool h) l' = [] \<longleftrightarrow> poolAccounts (pool h) l = []"
    "i \<notin> set (pool h) \<Longrightarrow> get l' i = get l i" by simp_all
qed

lemma get_put:
  "get (put_account a l) j = (if j = ac_id a then Some a else get l j)"
proof (cases "find_index (\<lambda>b. ac_id b = ac_id a) l")
  case None
  then have "get l (ac_id a) = None" by (simp add: get_def find_find_index)
  then show ?thesis using None by (auto simp: put_account_def get_def find_append split: option.split)
next
  case (Some k)
  have k: "k < length l" "ac_id (l ! k) = ac_id a" using find_index_SomeD [OF Some] by auto
  show ?thesis
    using Some find_update_same [OF Some, of a] find_update_other [of k l "\<lambda>b. ac_id b = j" a] k
    by (auto simp: put_account_def get_def)
qed

lemma put_total:
  "coin_sum f (put_account a l) = coin_sum f l + bal f a - (case get l (ac_id a) of None \<Rightarrow> 0 | Some b \<Rightarrow> bal f b)"
proof (cases "find_index (\<lambda>b. ac_id b = ac_id a) l")
  case None
  then show ?thesis by (simp add: put_account_def get_def find_find_index coin_sum_def)
next
  case (Some k)
  then show ?thesis
    using find_index_SomeD [OF Some]
    by (simp add: put_account_def get_def find_find_index coin_sum_def sum_list_update_group)
qed

lemma put_above_zero: "above_zero f l \<Longrightarrow> 0 \<le> bal f a \<Longrightarrow> above_zero f (put_account a l)"
  by (auto simp: put_account_def above_zero_def list_all_update split: option.split)

lemma bal_new [simp]: "bal f (new_account i n sd b) = 0"
  by (cases f) (simp_all add: new_account_def)

lemma new_account_keeps [simp]: "ac_id (new_account i n sd b) = i" "isBot (new_account i n sd b) = b"
  by (simp_all add: new_account_def)

lemma bal_dice [simp]: "bal f (a\<lparr>ac_temper := x, ac_skip := y\<rparr>) = bal f a"
  by (cases f) simp_all

lemma poolAccounts_put:
  "poolAccounts p l \<noteq> [] \<Longrightarrow> poolAccounts p (put_account a l) \<noteq> []"
  by (induction p) (auto simp: poolAccounts_Cons get_put split: option.split)

text \<open>What a new fighter does to the book: the money it got is in its account, and an account that had its
  id is gone with what it held.\<close>

lemma newBot_effect:
  assumes "newBot h q d aid sd s = (made, s')" and "\<not> fakeBank h" and "poolAccounts (pool h) (accts s) \<noteq> []"
    and "bot_id aid (seq s + 1) \<notin> set (pool h)"
  defines "i \<equiv> bot_id aid (seq s + 1)"
  shows "coin_sum f (accts s') = coin_sum f (accts s) -
      (if made then case get (accts s) i of None \<Rightarrow> 0 | Some b \<Rightarrow> bal f b else 0)"
    and "above_zero f (accts s) \<Longrightarrow> above_zero f (accts s')"
    and "poolAccounts (pool h) (accts s') \<noteq> []"
    and "house_id (pool h) k (accts s) \<Longrightarrow> house_id (pool h) k (accts s')"
    and "\<not> house_id (pool h) k (accts s) \<Longrightarrow> k \<noteq> i \<Longrightarrow> get (accts s') k = get (accts s) k"
proof -
  define g where "g = slot (case arenaFields aid of Some fs \<Rightarrow> fs | None \<Rightarrow> (FBull, FUwu)) sd"
  obtain got l where b: "bankFor h g (bot_want h q g (d_bank d)) (fund_spread h q (accts s)) (accts s) = (got, l)"
    by fastforce
  note e = bankFor_effect [OF b assms(2)]
  have r: "poolAccounts (pool h) l \<noteq> []" using e(4) assms(3) by simp
  define a where "a = (set_bal g got (new_account i (d_name d) sd True))
      \<lparr>ac_temper := Some (35 / 100 + d_temper d * (26 / 10)), ac_skip := Some (d_skip d * (30 / 100))\<rparr>"
  have a: "ac_id a = i" "isBot a" "bal x a = (if x = g then got else 0)" for x
    by (simp_all add: a_def)
  have i: "get l i = get (accts s) i" using e(5) assms(4) by (simp add: i_def)
  have hid: "house_id (pool h) k l = house_id (pool h) k (accts s)" for k
    using e(5) [of k] by (cases "k \<in> set (pool h)") (simp_all add: house_id_def)
  consider (no) "\<not> made" "accts s' = returnBank (pool h) g got l" | (yes) "made" "accts s' = put_account a l"
    using assms(1) b
    unfolding newBot_def Let_def g_def [symmetric] a_def i_def
    by (auto simp: g_def [symmetric] split: if_splits)
  then have "coin_sum f (accts s') = coin_sum f (accts s) -
      (if made then case get (accts s) i of None \<Rightarrow> 0 | Some b \<Rightarrow> bal f b else 0) \<and>
    (above_zero f (accts s) \<longrightarrow> above_zero f (accts s')) \<and> poolAccounts (pool h) (accts s') \<noteq> [] \<and>
    (house_id (pool h) k (accts s) \<longrightarrow> house_id (pool h) k (accts s')) \<and>
    (\<not> house_id (pool h) k (accts s) \<longrightarrow> k \<noteq> i \<longrightarrow> get (accts s') k = get (accts s) k)"
  proof cases
    case no
    show ?thesis
    proof (cases "got > 0")
      case True
      obtain j where j: "j \<in> set (pool h)" "get l j \<noteq> None" "returnBank (pool h) g got l = upd j (add_bal g got) l"
        using returnBank_upd [OF r True] by blast
      then obtain c where c: "get l j = Some c" by auto
      have "above_zero f (upd j (add_bal g got) l)" if "above_zero f l"
        using above_zero_upd [OF that c] above_zero_get [OF that c] True by auto
      moreover have "coin_sum f (upd j (add_bal g got) l) = coin_sum f (accts s)"
        using total_upd_add [OF c, of f g got] e(1) [of f] by auto
      moreover have "get (upd j (add_bal g got) l) k = get (accts s) k" if "\<not> house_id (pool h) k (accts s)"
        using that j(1) e(5) [of k] by (auto simp: get_upd house_id_def)
      ultimately show ?thesis
        using no j(3) r e(3) [of f] hid by (simp add: house_id_upd poolAccounts_upd)
    next
      case False
      then have "returnBank (pool h) g got l = l" by (simp add: returnBank_def)
      then show ?thesis
        using no False e(1,3) [of f] e(2) r hid e(5) [of k] by (auto simp: house_id_def)
    qed
  next
    case yes
    have "house_id (pool h) k (put_account a l)" if "house_id (pool h) k (accts s)"
      using that hid [of k] a(1,2) by (auto simp: house_id_def get_put)
    moreover have "get (put_account a l) k = get (accts s) k" if "\<not> house_id (pool h) k (accts s)" "k \<noteq> i"
      using that a(1) e(5) [of k] by (auto simp: get_put house_id_def)
    ultimately show ?thesis
      using yes put_total [of f a l] a i e(1,3) [of f] e(2) put_above_zero [of f l a] poolAccounts_put [OF r]
      by auto
  qed
  then show "coin_sum f (accts s') = coin_sum f (accts s) -
      (if made then case get (accts s) i of None \<Rightarrow> 0 | Some b \<Rightarrow> bal f b else 0)"
    "above_zero f (accts s) \<Longrightarrow> above_zero f (accts s')" "poolAccounts (pool h) (accts s') \<noteq> []"
    "house_id (pool h) k (accts s) \<Longrightarrow> house_id (pool h) k (accts s')"
    "\<not> house_id (pool h) k (accts s) \<Longrightarrow> k \<noteq> i \<Longrightarrow> get (accts s') k = get (accts s) k" by blast+
qed

subsection \<open>What moving money leaves alone\<close>

text \<open>Any view of an account that does not look at its balances is the same after money has moved.\<close>

locale account_view =
  fixes view :: "account \<Rightarrow> 'v"
  assumes view_bal: "view (set_bal f v a) = view a"
begin

lemma view_add [simp]: "view (add_bal f v a) = view a"
  by (simp add: add_bal_def view_bal)

lemma view_upd:
  assumes "\<And>a. view (g a) = view a"
  shows "map view (upd i g l) = map view l"
proof (cases "find_index (\<lambda>a. ac_id a = i) l")
  case (Some k)
  then have "k < length l" using find_index_SomeD by blast
  then have "map view (l[k := g (l ! k)]) = map view l"
    by (metis assms list_update_id map_update)
  then show ?thesis using Some by (simp add: upd_def)
qed (simp add: upd_def)

lemma view_take: "take_from eps f is left l = (r, l') \<Longrightarrow> map view l' = map view l"
proof (induction "is" arbitrary: left l)
  case (Cons j "is")
  show ?case
  proof (cases "get l j")
    case None
    then show ?thesis using Cons by simp
  next
    case (Some a)
    then show ?thesis
      using Cons.prems Cons.IH [of left l]
        Cons.IH [of "left - min (bal f a) left" "upd j (add_bal f (- min (bal f a) left)) l"]
      by (auto simp: view_upd Let_def split: if_splits)
  qed
qed simp

lemma view_draw: "drawBank p f want spread l = (got, l') \<Longrightarrow> map view l' = map view l"
  using view_take [of 0 f p] by (auto simp: drawBank_def Let_def split: if_splits prod.splits)

lemma view_fund: "bankFor h f want spread l = (got, l') \<Longrightarrow> map view l' = map view l"
  using view_draw [of "pool h" f want spread l got l'] by (auto simp: bankFor_def split: if_splits)

lemma view_return: "map view (returnBank p f v l) = map view l"
  by (auto simp: returnBank_def view_upd split: list.split)

lemma view_return_all: "map view (return_all h f i l) = map view l"
  by (auto simp: return_all_def view_upd view_return view_bal split: option.split)

lemma view_fold: "(\<And>x l. map view (g x l) = map view l) \<Longrightarrow> map view (fold g xs l) = map view l"
  by (induction xs arbitrary: l) simp_all

end

text \<open>Who an account is, and what the settlement of referrals reads of it.\<close>

definition face :: "account \<Rightarrow> string \<times> bool \<times> bool" where
  "face a = (ac_id a, isBot a, retired a)"

definition root :: "account \<Rightarrow> string \<times> string option" where
  "root a = (ac_id a, refBy a)"

interpretation faces: account_view face
proof
  show "face (set_bal f v a) = face a" for f v a by (cases f) (simp_all add: face_def)
qed

interpretation roots: account_view root
proof
  show "root (set_bal f v a) = root a" for f v a by (cases f) (simp_all add: root_def)
qed

lemma retire_roots: "map root (retireBot h i l) = map root l"
  by (simp add: retireBot_def roots.view_upd roots.view_return_all root_def)

lemma ids_of_roots: "map ac_id l = map fst (map root l)"
  by (simp add: root_def comp_def)

lemma ids_of_faces: "map ac_id l = map fst (map face l)"
  by (simp add: face_def comp_def)

lemma get_None_ids: "get l i = None \<longleftrightarrow> i \<notin> set (map ac_id l)"
  by (induction l) (auto simp: get_def)

lemma put_ids:
  "map ac_id (put_account a l) = (if get l (ac_id a) = None then map ac_id l @ [ac_id a] else map ac_id l)"
proof (cases "find_index (\<lambda>b. ac_id b = ac_id a) l")
  case None
  then show ?thesis by (simp add: put_account_def get_def find_find_index)
next
  case (Some k)
  have k: "k < length l" "ac_id (l ! k) = ac_id a" using find_index_SomeD [OF Some] by auto
  have "map ac_id (l[k := a]) = map ac_id l" using k by (metis list_update_id map_update)
  then show ?thesis using Some k by (simp add: put_account_def get_def find_find_index)
qed

subsection \<open>The population\<close>

lemma bot_id_belongs: "starts_with (aid @ '':'') (bot_id aid n)"
  by (simp add: starts_with_def bot_id_def)

lemma get_unique: "distinct (map ac_id l) \<Longrightarrow> a \<in> set l \<Longrightarrow> get l (ac_id a) = Some a"
  by (induction l) (auto simp: get_def)

lemma rotation_subset: "set (drop k xs @ take k xs) \<subseteq> set xs"
  by (auto dest: in_set_takeD in_set_dropD)

lemma botsFor_effect:
  assumes "botsFor aid s = (is, s')" and "i \<in> set is" and "distinct (map ac_id (accts s))"
  shows "starts_with (aid @ '':'') i" and "house_id p i (accts s)" and "accts s' = accts s"
proof -
  have "set is \<subseteq> set (map ac_id (filter (belongs aid) (accts s)))"
    using assms(1) rotation_subset [of _ "map ac_id (filter (belongs aid) (accts s))"]
    by (auto simp: botsFor_def Let_def simp del: set_map set_append split: if_splits)
  then obtain a where a: "a \<in> set (accts s)" "belongs aid a" "i = ac_id a" using assms(2) by auto
  then show "starts_with (aid @ '':'') i" by (simp add: belongs_def)
  show "house_id p i (accts s)"
    using a get_unique [OF assms(3) a(1)] by (simp add: house_id_def belongs_def live_bot_def)
  show "accts s' = accts s" using assms(1) by (auto simp: botsFor_def Let_def split: if_splits)
qed

lemma botsFor_book: "botsFor aid s = (is, s') \<Longrightarrow> accts s' = accts s"
  by (auto simp: botsFor_def Let_def split: if_splits)

lemma capPopulation_move:
  assumes "distinct (map ac_id (accts s))" and "poolAccounts (pool h) (accts s) \<noteq> []"
    and "\<forall>i\<in>set (pool h). \<not> starts_with (aid @ '':'') i"
  shows "house_move (pool h) (accts s) (accts (capPopulation h q aid s))"
proof -
  obtain alive s1 where b: "botsFor aid s = (alive, s1)" by fastforce
  have k: "accts s1 = accts s" using botsFor_book [OF b] .
  have "i \<notin> set (pool h) \<and> house_id (pool h) i (accts s1)" if "i \<in> set alive" for i
    using botsFor_effect [OF b that assms(1)] assms(3) k by auto
  then have "house_move (pool h) (accts s1) (fold (retireBot h) (take n (sort_key w alive)) (accts s1))" for n w
    by (intro retiring.fold_move ballI) (auto simp: k assms(2) dest!: in_set_takeD)
  then show ?thesis using b k assms(2) by (auto simp: capPopulation_def Let_def house_move_refl)
qed

lemma levelBots_move:
  "poolAccounts (pool h) l \<noteq> [] \<Longrightarrow> 0 \<le> BOT_MAX_BANK_USD h \<Longrightarrow> house_move (pool h) l (levelBots h q l)"
  by (simp add: levelBots_def house_move_refl levelling.sweep_move)

lemma newBot_move:
  assumes "newBot h q d aid sd s = (made, s')" and "\<not> fakeBank h" and "poolAccounts (pool h) (accts s) \<noteq> []"
    and "bot_id aid (seq s + 1) \<notin> set (pool h)" and "get (accts s) (bot_id aid (seq s + 1)) = None"
  shows "house_move (pool h) (accts s) (accts s')"
proof -
  note e = newBot_effect [OF assms(1-4)]
  have "house_id (pool h) (bot_id aid (seq s + 1)) (accts s)" using assms(5) by (simp add: house_id_def)
  then have "\<not> house_id (pool h) k (accts s) \<Longrightarrow> k \<noteq> bot_id aid (seq s + 1)" for k by auto
  then show ?thesis using e assms(5) unfolding house_move_def by (auto split: if_splits)
qed

definition demo_house :: house where
  "demo_house =
     \<lparr>pool = [''w''], fakeBank = False, BOT_BANK_USD_MIN = 3, BOT_BANK_USD_MAX = 6, BOT_STAKE_USD_MIN = 1 / 2,
      BOT_BANK_MIN = 0, BOT_BANK_MAX = 0, BOT_STAKE_MIN = 0, BOT_STAKE_MAX = 0, BOT_MIN_RUNWAY = 3,
      BOT_FUND_SPREAD = 10, BOT_BANK_SPREAD = 1, BOT_MAX_BANK_USD = 12, BOT_POP_ROTATIONS = 3,
      BOT_COMMIT_MIN = 1 / 10, BOT_COMMIT_MAX = 1 / 2, PLAY_MIN = 2, PLAY_MAX = 5, PLAY_IDLE_MAX = 3,
      PLAY_SCALE_USD = 10, MIN_PER_SIDE = 2, MATCH_RATIO = 1, SWARM_SIZE = 4, BUST_USD = 1 / 4,
      POP_START = 4, POP_GROWTH = 7 / 10, POP_MAX = 10, POP_MIN = 2\<rparr>"

definition demo_quotes :: quotes where "demo_quotes = \<lparr>px_now = (\<lambda>_. 1), px_safe = (\<lambda>_. 1)\<rparr>"

definition demo_dice :: dice where "demo_dice = \<lparr>d_name = ''n'', d_temper = 0, d_skip = 0, d_bank = 0\<rparr>"

text \<open>A process that has just started: the float, and a fighter the last process left behind.\<close>

definition demo_restart :: staff where
  "demo_restart =
     \<lparr>accts = [set_bal FBull 100 (new_account ''w'' ''pool'' Bull True),
             set_bal FBull 7 (new_account ''au-normal:bot:1'' ''old'' Bull True)],
      seq = 0, botScanOffset = 0, created = (\<lambda>_. 0), bustedCount = (\<lambda>_. 0)\<rparr>"

definition demo_first_start :: staff where "demo_first_start = demo_restart\<lparr>accts := take 1 (accts demo_restart)\<rparr>"

text \<open>C28: Creating a fighter, thinning an arena's population and skimming what has pooled in one fighter only
  ever move house money: every coin's total over the book is what it was, nobody who was at or above
  zero goes below, an account that is neither the pool's nor flagged as a bot's is untouched, and no
  house account becomes a player's. The treasury's account carries the bot flag too: it counts as the
  house's and may be skimmed like a fighter. Required are distinct account ids, a pool account in the
  book (with none, a retired fighter's coins vanish), a real and not a fake bank, a bank cap of at
  least 0, no pool id that looks like a fighter's, and a new fighter's id that is not in use.\<close>

theorem population_moves_house_money_only:
  assumes "distinct (map ac_id (accts s))" and "poolAccounts (pool h) (accts s) \<noteq> []"
    and "\<forall>i\<in>set (pool h). \<not> starts_with (aid @ '':'') i" and "\<not> fakeBank h" and "0 \<le> BOT_MAX_BANK_USD h"
    and "get (accts s) (bot_id aid (seq s + 1)) = None"
  shows "house_move (pool h) (accts s) (accts (snd (newBot h q d aid sd s))) \<and>
    house_move (pool h) (accts s) (accts (capPopulation h q aid s)) \<and>
    house_move (pool h) (accts s) (levelBots h q (accts s))"
  using newBot_move [OF surjective_pairing assms(4,2) _ assms(6)] bot_id_belongs [of aid "seq s + 1"] assms
    capPopulation_move levelBots_move
  by blast

theorem population_moves_house_money_only_witness:
  "house_move [''w''] (accts demo_first_start) (accts (snd (newBot demo_house demo_quotes demo_dice ''au-normal'' Bull demo_first_start)))"
proof -
  have p: "pool demo_house = [''w'']" by (simp add: demo_house_def)
  have "distinct (map ac_id (accts demo_first_start))" "poolAccounts [''w''] (accts demo_first_start) \<noteq> []"
    "\<forall>i\<in>set (pool demo_house). \<not> starts_with (''au-normal'' @ '':'') i" "\<not> fakeBank demo_house"
    "0 \<le> BOT_MAX_BANK_USD demo_house" "get (accts demo_first_start) (bot_id ''au-normal'' (seq demo_first_start + 1)) = None"
    by code_simp+
  from population_moves_house_money_only
    [OF this(1) this(2) [folded p] this(3-6), of demo_quotes demo_dice Bull]
  show ?thesis unfolding p by blast
qed

text \<open>The running number of the fighters starts again with the process while the book does not. When the
  next id is one a fighter of the restored book still carries, creating the new fighter replaces that account and
  whatever it held leaves every coin's total.\<close>

theorem restart_overwrites_a_fighter:
  assumes "newBot h q d aid sd s = (True, s')" and "\<not> fakeBank h" and "poolAccounts (pool h) (accts s) \<noteq> []"
    and "bot_id aid (seq s + 1) \<notin> set (pool h)" and "get (accts s) (bot_id aid (seq s + 1)) = Some old"
  shows "coin_sum f (accts s') = coin_sum f (accts s) - bal f old"
  using newBot_effect(1) [OF assms(1-4), of f] assms(5) by simp

theorem restart_overwrites_a_fighter_witness:
  "coin_sum FBull (accts demo_restart) = 107 \<and>
   coin_sum FBull (accts (snd (newBot demo_house demo_quotes demo_dice ''au-normal'' Bull demo_restart))) = 107 - 7"
proof -
  have p: "pool demo_house = [''w'']" by (simp add: demo_house_def)
  have m: "fst (newBot demo_house demo_quotes demo_dice ''au-normal'' Bull demo_restart)"
    "\<not> fakeBank demo_house" "poolAccounts [''w''] (accts demo_restart) \<noteq> []"
    "bot_id ''au-normal'' (seq demo_restart + 1) \<notin> set [''w'']"
    "get (accts demo_restart) (bot_id ''au-normal'' (seq demo_restart + 1)) = Some (accts demo_restart ! 1)"
    "bal FBull (accts demo_restart ! 1) = 7" "coin_sum FBull (accts demo_restart) = 107"
    by code_simp+
  have "newBot demo_house demo_quotes demo_dice ''au-normal'' Bull demo_restart =
      (True, snd (newBot demo_house demo_quotes demo_dice ''au-normal'' Bull demo_restart))"
    using m(1) by (simp add: prod_eq_iff)
  from restart_overwrites_a_fighter [OF this m(2) m(3,4) [folded p] m(5), of FBull] m(6,7)
  show ?thesis by simp
qed

end
