(* ===== verification/Engine_Table.thy ===== *)
theory Engine_Table
  imports Engine_Round Engine_Vault Engine_Bots
begin

text \<open>
  The arenas of the server, \<open>engine/src/server.ts\<close>: frozen prices, the flow of a round's coins, a
  player's entry with its fee and referral, the house's answer to it, the fighters the house sends, the
  settlement into the ledger and the pass of the round loop, the refund of open rounds on shutdown and the
  rebalancing of the float against the chain.

  One operation runs without interruption (none of them awaits anything that is not already resolved), so
  the prices are constant while it runs: \<open>quotes\<close> is what the feed answers. Random draws are
  fields of \<open>luck\<close>, one for each fighter and purpose. The log of rounds, the anchors on the chain and
  the broadcasts are not modelled. Sides are the two the page sends.
\<close>

subsection \<open>State\<close>

record flow_row =
  fl_out :: rat
  fl_in :: rat
  fl_fee :: rat

record arena_stat =
  st_deployed :: rat
  st_take :: rat
  st_matches :: nat
  st_winsA :: nat
  st_winsB :: nat
  st_stolenA :: rat
  st_stolenB :: rat

text \<open>A price of zero stands for a price that is not set; a row of zeros for a coin that did not flow.\<close>

record tables =
  crew :: staff
  runners :: "string \<Rightarrow> runner option"
  roundPx :: "((string \<times> nat) \<times> (field \<Rightarrow> rat)) list"
  roundFlow :: "((string \<times> nat) \<times> (field \<Rightarrow> flow_row)) list"
  matchedBook :: "((string \<times> nat) \<times> (side \<Rightarrow> rat)) list"
  treasury :: "arena_mode \<Rightarrow> rat"
  totalDeployed :: "arena_mode \<Rightarrow> rat"
  depSide :: "arena_mode \<Rightarrow> side \<Rightarrow> rat"
  statsA :: "string \<Rightarrow> arena_stat"
  roundsOf :: "arena_mode \<Rightarrow> nat"
  roundsByArena :: "string \<Rightarrow> nat"
  lastPhase :: "string \<Rightarrow> arena_phase option"

record luck =
  lk_order :: "side \<Rightarrow> string \<Rightarrow> rat"
  lk_want :: "side \<Rightarrow> rat"
  lk_skip :: "string \<Rightarrow> rat"
  lk_side :: "string \<Rightarrow> rat"
  lk_stake :: "string \<Rightarrow> rat"
  lk_swarm :: "string \<Rightarrow> rat"
  lk_dice :: "nat \<Rightarrow> dice"

text \<open>The bounded maps: a new key goes last, and past 64 keys the 32 oldest are dropped.\<close>

definition bounded_add :: "'k \<Rightarrow> 'v \<Rightarrow> ('k \<times> 'v) list \<Rightarrow> ('k \<times> 'v) list" where
  "bounded_add k v m = (if length m \<ge> 64 then drop 32 (m @ [(k, v)]) else m @ [(k, v)])"

definition ensure_key :: "'k \<Rightarrow> 'v \<Rightarrow> ('k \<times> 'v) list \<Rightarrow> ('k \<times> 'v) list" where
  "ensure_key k v m = (if map_of m k = None then bounded_add k v m else m)"

definition row_at :: "'v \<Rightarrow> ('k \<times> 'v) list \<Rightarrow> 'k \<Rightarrow> 'v" where
  "row_at d m k = (case map_of m k of None \<Rightarrow> d | Some v \<Rightarrow> v)"

subsection \<open>Frozen prices and the flow of a round\<close>

definition no_px :: "field \<Rightarrow> rat" where "no_px = (\<lambda>_. 0)"

definition pxForRound :: "quotes \<Rightarrow> string \<Rightarrow> nat \<Rightarrow> field \<Rightarrow> tables \<Rightarrow> rat \<times> tables" where
  "pxForRound q aid n f T =
     (let k = (aid, n); m = ensure_key k no_px (roundPx T); row = row_at no_px m k in
      if row f > 0 then (row f, T\<lparr>roundPx := m\<rparr>)
      else (px_safe q f, T\<lparr>roundPx := AList.update k (row(f := px_safe q f)) m\<rparr>))"

definition no_flow :: "field \<Rightarrow> flow_row" where "no_flow = (\<lambda>_. \<lparr>fl_out = 0, fl_in = 0, fl_fee = 0\<rparr>)"

definition flow :: "string \<Rightarrow> nat \<Rightarrow> field \<Rightarrow> (flow_row \<Rightarrow> flow_row) \<Rightarrow> tables \<Rightarrow> tables" where
  "flow aid n f g T =
     (let k = (aid, n); m = ensure_key k no_flow (roundFlow T); row = row_at no_flow m k
      in T\<lparr>roundFlow := AList.update k (row(f := g (row f))) m\<rparr>)"

definition openStakes :: "field \<Rightarrow> tables \<Rightarrow> rat" where
  "openStakes f T = sum_list (map (\<lambda>(k, row). max 0 (fl_out (row f) - fl_in (row f))) (roundFlow T))"

text \<open>\<open>auditRound\<close> complains in the log and forgets the round. The complaint, for a coin:\<close>

definition flow_gap :: "flow_row \<Rightarrow> bool" where
  "flow_gap v \<longleftrightarrow>
     \<not> (fl_out v < 1 / 10 ^ 9 \<and> fl_in v < 1 / 10 ^ 9) \<and>
     \<bar>(fl_in v - fl_out v) - (- fl_fee v)\<bar> > max (1 / 10 ^ 6) (fl_out v * (1 / 1000))"

definition auditRound :: "string \<Rightarrow> nat \<Rightarrow> tables \<Rightarrow> field list \<times> tables" where
  "auditRound aid n T =
     (case map_of (roundFlow T) (aid, n) of
        None \<Rightarrow> ([], T)
      | Some row \<Rightarrow>
          (filter (\<lambda>f. flow_gap (row f)) [FBull, FUwu, FSol],
           T\<lparr>roundFlow := filter (\<lambda>(k, v). k \<noteq> (aid, n)) (roundFlow T)\<rparr>))"

subsection \<open>Placing a stake\<close>

definition on_book :: "(ledger \<Rightarrow> ledger) \<Rightarrow> tables \<Rightarrow> tables" where
  "on_book g T = T\<lparr>crew := (crew T)\<lparr>accts := g (accts (crew T))\<rparr>\<rparr>"

definition book_of :: "tables \<Rightarrow> ledger" where
  "book_of T = accts (crew T)"

definition fields_of :: "string \<Rightarrow> field \<times> field" where
  "fields_of aid = (case arenaFields aid of Some fs \<Rightarrow> fs | None \<Rightarrow> (FBull, FUwu))"

definition fighter_id :: "string \<Rightarrow> side \<Rightarrow> string" where
  "fighter_id w sd = w @ ''|'' @ side_name sd"

definition rn_enter :: "string \<Rightarrow> string \<Rightarrow> side \<Rightarrow> rat \<Rightarrow> tables \<Rightarrow> tables" where
  "rn_enter aid i sd stake T =
     (case runners T aid of
        None \<Rightarrow> T
      | Some r \<Rightarrow> T\<lparr>runners := (runners T)(aid := Some (snd (enter_lobby i sd stake r)))\<rparr>)"

definition tally :: "string \<Rightarrow> side \<Rightarrow> rat \<Rightarrow> rat \<Rightarrow> tables \<Rightarrow> tables" where
  "tally aid sd usd feeUsd T =
     (let eco = arenaEco aid
      in T\<lparr>treasury := (treasury T)(eco := treasury T eco + feeUsd),
           totalDeployed := (totalDeployed T)(eco := totalDeployed T eco + usd),
           depSide := (depSide T)(eco := (depSide T eco)(sd := depSide T eco sd + usd)),
           statsA := (statsA T)(aid := (statsA T aid)\<lparr>st_deployed := st_deployed (statsA T aid) + usd\<rparr>)\<rparr>)"

text \<open>What the three places where a fighter of the house goes in have in common: \<open>tokens\<close> leave its
  account at the price \<open>px\<close>, the fee goes to the treasury's account, the rest goes into the lobby in
  dollars.\<close>

definition stake_bot :: "string \<Rightarrow> nat \<Rightarrow> string \<Rightarrow> side \<Rightarrow> field \<Rightarrow> rat \<Rightarrow> rat \<Rightarrow> rat \<Rightarrow> tables \<Rightarrow> tables" where
  "stake_bot aid n i sd f px tokens usd T =
     (let feeTok = tokens * FEE
      in rn_enter aid (fighter_id i sd) sd (usd * (1 - FEE))
           (tally aid sd usd (feeTok * px)
             (flow aid n f (\<lambda>v. v\<lparr>fl_out := fl_out v + tokens, fl_in := fl_in v + feeTok\<rparr>)
               (on_book (bankFee f feeTok \<circ> upd i (\<lambda>a. (add_bal f (- tokens) a)\<lparr>dep := dep a + usd\<rparr>)) T))))"

subsection \<open>The house answers a stake\<close>

text \<open>One fighter of the roster; the running index, what is still missing and the tables are threaded.\<close>

definition swarm_one :: "house \<Rightarrow> luck \<Rightarrow> string \<Rightarrow> nat \<Rightarrow> side \<Rightarrow> field \<Rightarrow> rat \<Rightarrow> int \<Rightarrow> string
    \<Rightarrow> int \<times> rat \<times> tables \<Rightarrow> int \<times> rat \<times> tables" where
  "swarm_one h k aid n foe f px spread i acc =
     (case acc of (idx, need, T) \<Rightarrow>
      if need \<le> MIN_ENTRY then acc
      else
        let fair = need / max 1 (of_int (spread - idx));
            want = min need (fair * (6 / 10 + lk_swarm k i * (8 / 10)));
            have0 = (case get (book_of T) i of None \<Rightarrow> 0 | Some a \<Rightarrow> bal f a) * px;
            (drawn, l) = (if have0 < want then drawBank (pool h) f ((want - have0) / px) 1 (book_of T)
                          else (0, book_of T));
            T1 = on_book (\<lambda>_. if drawn > 0 then upd i (add_bal f drawn) l else l) T;
            have1 = (if drawn > 0 then have0 + drawn * px else have0);
            give = min (min want have1) CAP
        in if give < MIN_ENTRY then (idx + 1, need, T1)
           else (idx + 1, need - give,
                 (stake_bot aid n i foe f px (give / px) give T1)
                   \<lparr>matchedBook := AList.update (aid, n)
                      ((row_at (\<lambda>_. 0) (matchedBook T) (aid, n))(foe := row_at (\<lambda>_. 0) (matchedBook T) (aid, n) foe + give))
                      (matchedBook T)\<rparr>))"

definition is_in :: "tables \<Rightarrow> string \<Rightarrow> side \<Rightarrow> string \<Rightarrow> bool" where
  "is_in T aid sd i \<longleftrightarrow>
     (case runners T aid of None \<Rightarrow> False | Some r \<Rightarrow> list_ex (\<lambda>e. e_id e = fighter_id i sd) (entries (state r)))"

definition scan :: "string \<Rightarrow> tables \<Rightarrow> string list \<times> tables" where
  "scan aid T = (let (ids, s) = botsFor aid (crew T) in (ids, T\<lparr>crew := s\<rparr>))"

definition matchPlayerStake :: "house \<Rightarrow> quotes \<Rightarrow> luck \<Rightarrow> string \<Rightarrow> side \<Rightarrow> rat \<Rightarrow> tables \<Rightarrow> tables" where
  "matchPlayerStake h q k aid playerSide stakeUsd T =
     (case runners T aid of
        None \<Rightarrow> T
      | Some rn \<Rightarrow>
          if phase (state rn) \<noteq> Lobby then T
          else
            let n = rs_round (state rn); foe = other_side playerSide; f = slot (fields_of aid) foe;
                (px, T1) = pxForRound q aid n f T
            in if \<not> px > 0 then T1
               else
                 let T2 = T1\<lparr>matchedBook := ensure_key (aid, n) (\<lambda>_. 0) (matchedBook T1)\<rparr>;
                     need = stakeUsd * MATCH_RATIO h - row_at (\<lambda>_. 0) (matchedBook T2) (aid, n) foe
                 in if need \<le> MIN_ENTRY then T2
                    else
                      let (everyone, T3) = scan aid T2;
                          roster = filter (\<lambda>i. \<not> is_in T3 aid foe i) everyone @ filter (is_in T3 aid foe) everyone;
                          spread = max 1 (min (int (length roster)) (SWARM_SIZE h))
                      in snd (snd (fold (swarm_one h k aid n foe f px spread) roster (0, need, T3))))"

subsection \<open>A player enters\<close>

definition real_usd :: "string \<Rightarrow> entry list \<Rightarrow> rat" where
  "real_usd i es = sum_list (map (\<lambda>e. e_stake e / (1 - FEE)) (filter (\<lambda>e. e_id e = i) es))"

datatype enter_refusal = UnknownArena | Closed | NoPrice | AtCap | TooSmall

text \<open>The referrer's tenth of the fee, and the coin it is paid in.\<close>

definition pay_referrer :: "side \<Rightarrow> string option \<Rightarrow> rat \<Rightarrow> ledger \<Rightarrow> rat \<times> ledger" where
  "pay_referrer sd ref fee l =
     (case ref of
        None \<Rightarrow> (0, l)
      | Some r \<Rightarrow>
          let cut = fee * (1 / 10)
          in (cut, upd r (\<lambda>a. (add_bal (coin_of sd) cut a)\<lparr>refEarned := refEarned a + cut\<rparr>) (acct r sd l)))"

definition set_referrer :: "string \<Rightarrow> string \<Rightarrow> account \<Rightarrow> account" where
  "set_referrer w ref a =
     (if ref \<noteq> [] \<and> refBy a = None \<and> ref \<noteq> w then a\<lparr>refBy := Some (take 64 ref)\<rparr> else a)"

definition referrer_of :: "string \<Rightarrow> ledger \<Rightarrow> string option" where
  "referrer_of w l = (case get l w of None \<Rightarrow> None | Some a \<Rightarrow> refBy a)"

definition enter_handler :: "house \<Rightarrow> quotes \<Rightarrow> luck \<Rightarrow> string \<Rightarrow> string \<Rightarrow> side \<Rightarrow> jsnum \<Rightarrow> string \<Rightarrow> tables
    \<Rightarrow> (enter_refusal + rat) \<times> tables" where
  "enter_handler h q k w aid sd asked ref T =
     (case runners T aid of
        None \<Rightarrow> (Inl UnknownArena, T)
      | Some rn \<Rightarrow>
          let n = rs_round (state rn); f = slot (fields_of aid) sd; T0 = on_book (acct w sd) T;
              bank = (case get (book_of T0) w of None \<Rightarrow> 0 | Some a \<Rightarrow> bal f a)
          in if phase (state rn) \<noteq> Lobby then (Inl Closed, T0)
             else
               let (px, T1) = pxForRound q aid n f T0
               in if \<not> px > 0 then (Inl NoPrice, T1)
                  else
                    let headroom = max 0 (CAP - real_usd (fighter_id w sd) (entries (state rn)));
                        stake = min (min (money asked) bank) (headroom / px);
                        usd = stake * px
                    in if headroom < MIN_ENTRY then (Inl AtCap, T1)
                       else if usd < MIN_ENTRY then (Inl TooSmall, T1)
                       else
                         let T2 = on_book (upd w (\<lambda>a. (set_referrer w ref ((add_bal f (- stake) a)\<lparr>dep := dep a + usd, ac_side := sd\<rparr>)))) T1;
                             T3 = flow aid n f (\<lambda>v. v\<lparr>fl_out := fl_out v + stake, fl_fee := fl_fee v + stake * FEE\<rparr>) T2;
                             fee = stake * FEE;
                             (cut, l) = pay_referrer sd (referrer_of w (book_of T3)) fee (book_of T3);
                             T4 = on_book (\<lambda>_. bankFee f (fee - cut) l) T3;
                             T5 = tally aid sd usd ((fee - cut) * px) T4;
                             T6 = T5\<lparr>statsA := (statsA T5)(aid := (statsA T5 aid)\<lparr>st_take := st_take (statsA T5 aid) + fee * px\<rparr>)\<rparr>;
                             T7 = rn_enter aid (fighter_id w sd) sd (usd * (1 - FEE)) T6
                         in (Inr stake, matchPlayerStake h q k aid sd usd T7))"

subsection \<open>The house's own entries\<close>

definition side_of :: "ledger \<Rightarrow> string \<Rightarrow> side" where
  "side_of l i = (case get l i of None \<Rightarrow> Bull | Some a \<Rightarrow> ac_side a)"

definition hold_of :: "field \<Rightarrow> ledger \<Rightarrow> string \<Rightarrow> rat" where
  "hold_of f l i = (case get l i of None \<Rightarrow> 0 | Some a \<Rightarrow> bal f a)"

text \<open>The loop that seats missing fighters: at most twice the minimum attempts, as the guard counts them.\<close>

fun fill_side :: "house \<Rightarrow> quotes \<Rightarrow> luck \<Rightarrow> string \<Rightarrow> side \<Rightarrow> nat \<Rightarrow> staff \<Rightarrow> staff" where
  "fill_side h q k aid sd 0 s = snd (botsFor aid s)"
| "fill_side h q k aid sd (Suc g) s =
     (let (ids, s1) = botsFor aid s in
      if length (filter (\<lambda>i. side_of (accts s1) i = sd) ids) < MIN_PER_SIDE h
      then let (made, s2) = newBot h q (lk_dice k (seq s1)) aid sd s1
           in if made then fill_side h q k aid sd g s2 else s2
      else s1)"

definition count_side :: "side \<Rightarrow> entry list \<Rightarrow> nat" where
  "count_side sd es = length (filter (\<lambda>e. e_side e = sd) es)"

definition minimum_one :: "house \<Rightarrow> string \<Rightarrow> nat \<Rightarrow> side \<Rightarrow> field \<Rightarrow> rat \<Rightarrow> string \<Rightarrow> nat \<times> tables \<Rightarrow> nat \<times> tables" where
  "minimum_one h aid n sd f px i acc =
     (case acc of (have, T) \<Rightarrow>
      if have \<ge> MIN_PER_SIDE h then acc
      else if is_in T aid sd i then acc
      else
        let minUsd = BOT_STAKE_USD_MIN h;
            held = hold_of f (book_of T) i * px;
            (drawn, l) = (if held < minUsd then drawBank (pool h) f ((minUsd - held) / px) 1 (book_of T)
                          else (0, book_of T));
            T1 = on_book (\<lambda>_. if drawn > 0 then upd i (add_bal f drawn) l else l) T;
            bal1 = (if drawn > 0 then held + drawn * px else held)
        in if bal1 < minUsd then (have, T1)
           else (have + 1, stake_bot aid n i sd f px (minUsd / px) minUsd T1))"

definition minimum_side :: "house \<Rightarrow> quotes \<Rightarrow> luck \<Rightarrow> string \<Rightarrow> side \<Rightarrow> tables \<Rightarrow> tables" where
  "minimum_side h q k aid sd T =
     (case runners T aid of
        None \<Rightarrow> T
      | Some rn \<Rightarrow>
          let n = rs_round (state rn); f = slot (fields_of aid) sd; (px, T1) = pxForRound q aid n f T
          in if \<not> px > 0 then T1
             else
               let have = count_side sd (entries (state rn)) in
               if have \<ge> MIN_PER_SIDE h then T1
               else
                 let T2 = T1\<lparr>crew := fill_side h q k aid sd (MIN_PER_SIDE h * 2) (crew T1)\<rparr>;
                     (ids, T3) = scan aid T2
                 in snd (fold (minimum_one h aid n sd f px) ids (have, T3)))"

definition ensureMinimumEntries :: "house \<Rightarrow> quotes \<Rightarrow> luck \<Rightarrow> string \<Rightarrow> tables \<Rightarrow> tables" where
  "ensureMinimumEntries h q k aid T =
     (case runners T aid of
        None \<Rightarrow> T
      | Some rn \<Rightarrow>
          if phase (state rn) \<noteq> Lobby then T
          else minimum_side h q k aid Uwu (minimum_side h q k aid Bull T))"

text \<open>\<open>arr.slice(0, n)\<close>: a negative end counts from the back.\<close>

definition js_take :: "int \<Rightarrow> 'a list \<Rightarrow> 'a list" where
  "js_take n xs = (if n \<ge> 0 then take (nat n) xs else take (length xs - nat (- n)) xs)"

fun prefix_of :: "string \<Rightarrow> string \<Rightarrow> bool" where
  "prefix_of [] s = True"
| "prefix_of (c # cs) [] = False"
| "prefix_of (c # cs) (d # ds) = (c = d \<and> prefix_of cs ds)"

fun has_part :: "string \<Rightarrow> string \<Rightarrow> bool" where
  "has_part p [] = (p = [])"
| "has_part p (c # cs) = (prefix_of p (c # cs) \<or> has_part p cs)"

definition bot_mark :: "string \<Rightarrow> bool" where
  "bot_mark i = has_part '':bot:'' i"

definition human_usd :: "entry list \<Rightarrow> rat" where
  "human_usd es = sum_list (map (\<lambda>e. e_stake e / (1 - FEE)) (filter (\<lambda>e. \<not> bot_mark (e_id e)) es))"

definition entrants :: "house \<Rightarrow> luck \<Rightarrow> rat \<Rightarrow> ledger \<Rightarrow> string list \<Rightarrow> string list" where
  "entrants h k humanUsd l ids =
     (let idleMax = max 1 (PLAY_IDLE_MAX h);
          opened = (if humanUsd > 0 then idleMax + \<lceil>humanUsd / PLAY_SCALE_USD h\<rceil> else idleMax);
          hiCap = min (PLAY_MAX h) (max idleMax opened);
          loCap = min (PLAY_MIN h) hiCap;
          want = (\<lambda>sd. loCap + \<lfloor>lk_want k sd * of_int (max 1 (hiCap - loCap + 1))\<rfloor>);
          pick = (\<lambda>sd. js_take (want sd) (sort_key (lk_order k sd) (filter (\<lambda>i. side_of l i = sd) ids)))
      in pick Bull @ pick Uwu)"

definition chosen_side :: "house \<Rightarrow> quotes \<Rightarrow> luck \<Rightarrow> field \<times> field \<Rightarrow> account \<Rightarrow> side" where
  "chosen_side h q k fs a =
     (let okA = bal (fst fs) a \<ge> min_stake h q (fst fs); okB = bal (snd fs) a \<ge> min_stake h q (snd fs) in
      if okA \<and> okB then
        let vA = bal (fst fs) a * px_safe q (fst fs); vB = bal (snd fs) a * px_safe q (snd fs);
            pA = (if vA + vB > 0 then vA / (vA + vB) else 1 / 2)
        in if lk_side k (ac_id a) < 1 / 4 + 1 / 2 * pA then Bull else Uwu
      else if okA then Bull else if okB then Uwu else ac_side a)"

definition stake_size :: "house \<Rightarrow> luck \<Rightarrow> rat \<Rightarrow> rat \<Rightarrow> account \<Rightarrow> rat" where
  "stake_size h k minStake bankroll a =
     (let u = lk_stake k (ac_id a) in
      if BOT_STAKE_MAX h > 0 then min (minStake + u * (BOT_STAKE_MAX h - minStake)) bankroll
      else min (min (max minStake (bankroll * (BOT_COMMIT_MIN h + u * (BOT_COMMIT_MAX h - BOT_COMMIT_MIN h))
             * (case ac_temper a of None \<Rightarrow> 1 | Some t \<Rightarrow> t))) CAP) bankroll)"

definition bot_enters :: "house \<Rightarrow> quotes \<Rightarrow> luck \<Rightarrow> string \<Rightarrow> nat \<Rightarrow> string \<Rightarrow> tables \<Rightarrow> tables" where
  "bot_enters h q k aid n i T =
     (case get (book_of T) i of
        None \<Rightarrow> T
      | Some a \<Rightarrow>
          if PLAY_MAX h = 0 \<and> lk_skip k i < (case ac_skip a of None \<Rightarrow> 1 / 4 | Some s \<Rightarrow> s) then T
          else
            let sd = chosen_side h q k (fields_of aid) a; f = slot (fields_of aid) sd;
                T1 = on_book (upd i (\<lambda>a. a\<lparr>ac_side := sd\<rparr>)) T;
                minStake = min_stake h q f; stake = stake_size h k minStake (bal f a) a
            in if \<not> minStake > 0 \<or> stake < minStake then T1
               else
                 let (px, T2) = pxForRound q aid n f T1; usd = stake * px
                 in if \<not> usd > 0 then T2 else stake_bot aid n i sd f px stake usd T2)"

definition botsEnter :: "house \<Rightarrow> quotes \<Rightarrow> luck \<Rightarrow> string \<Rightarrow> tables \<Rightarrow> tables" where
  "botsEnter h q k aid T0 =
     (let T = T0\<lparr>crew := capPopulation h q aid (crew T0)\<rparr> in
      case runners T aid of
        None \<Rightarrow> T
      | Some rn \<Rightarrow>
          if phase (state rn) \<noteq> Lobby then T
          else
            let (ids, T1) = scan aid T;
                who = (if PLAY_MAX h > 0 then entrants h k (human_usd (entries (state rn))) (book_of T1) ids else ids)
            in fold (bot_enters h q k aid (rs_round (state rn))) who T1)"

text \<open>The watcher of the book: every so often, for every arena whose lobby somebody has entered.\<close>

definition watch_side :: "house \<Rightarrow> quotes \<Rightarrow> luck \<Rightarrow> string \<Rightarrow> entry list \<Rightarrow> side \<Rightarrow> tables \<Rightarrow> tables" where
  "watch_side h q k aid es sd T =
     (let stake = human_usd (filter (\<lambda>e. e_side e = sd) es)
      in if stake \<le> MIN_ENTRY then T else matchPlayerStake h q k aid sd stake T)"

definition watch_book :: "house \<Rightarrow> quotes \<Rightarrow> luck \<Rightarrow> string \<Rightarrow> tables \<Rightarrow> tables" where
  "watch_book h q k aid T =
     (case runners T aid of
        None \<Rightarrow> T
      | Some rn \<Rightarrow>
          if phase (state rn) \<noteq> Lobby \<or> entries (state rn) = [] then T
          else watch_side h q k aid (entries (state rn)) Uwu (watch_side h q k aid (entries (state rn)) Bull T))"

subsection \<open>Settlement\<close>

definition steal_stats :: "hit_log list \<Rightarrow> arena_stat \<Rightarrow> arena_stat" where
  "steal_stats hs st = fold (\<lambda>x st.
     if \<not> h_amt x > 0 then st
     else if h_tk x = Bull then st\<lparr>st_stolenA := st_stolenA st + h_amt x\<rparr>
     else st\<lparr>st_stolenB := st_stolenB st + h_amt x\<rparr>) hs st"

definition settle_account :: "field \<times> field \<Rightarrow> rat \<Rightarrow> rat \<Rightarrow> rat \<Rightarrow> rat \<Rightarrow> side \<Rightarrow> sim_fighter option
    \<Rightarrow> account \<Rightarrow> account" where
  "settle_account fs pxA pxB retA retB winner fighter a =
     (let b = add_bal (snd fs) retB (add_bal (fst fs) retA a);
          c = b\<lparr>games := games a + 1, ret := ret a + (retA * pxA + retB * pxB),
                wins := wins a + (if ac_side a = winner then 1 else 0)\<rparr>
      in case fighter of
           None \<Rightarrow> c
         | Some x \<Rightarrow> c\<lparr>ac_raided := ac_raided a + raided x,
                       ac_best := (if bestHit x > ac_best a then bestHit x else ac_best a)\<rparr>)"

definition settle_one :: "quotes \<Rightarrow> string \<Rightarrow> nat \<Rightarrow> round_result \<Rightarrow> string \<times> rat \<times> rat \<Rightarrow> tables \<Rightarrow> tables" where
  "settle_one q aid n r line T =
     (case line of (key, vb, vu) \<Rightarrow>
      let i = wallet_of key; fs = fields_of aid in
      if get (book_of T) i = None then T
      else
        let (pxA, T1) = pxForRound q aid n (fst fs) T; retA = (if pxA > 0 then vb / pxA else 0);
            (pxB, T2) = pxForRound q aid n (snd fs) T1; retB = (if pxB > 0 then vu / pxB else 0);
            T3 = on_book (upd i (settle_account fs pxA pxB retA retB (rr_winner r)
                    (List.find (\<lambda>x. f_id x = key) (rr_fighters r)))) T2
        in flow aid n (snd fs) (\<lambda>v. v\<lparr>fl_in := fl_in v + retB\<rparr>)
             (flow aid n (fst fs) (\<lambda>v. v\<lparr>fl_in := fl_in v + retA\<rparr>) T3))"

text \<open>A fighter changes sides when its money has; one that cannot pay a stake from the side it was on is
  retired.\<close>

definition review_bot :: "house \<Rightarrow> quotes \<Rightarrow> string \<Rightarrow> string \<Rightarrow> staff \<Rightarrow> staff" where
  "review_bot h q aid i s =
     (case get (accts s) i of
        None \<Rightarrow> s
      | Some a \<Rightarrow>
          let fs = fields_of aid; own = slot fs (ac_side a);
              usdA = bal (fst fs) a * px_safe q (fst fs); usdB = bal (snd fs) a * px_safe q (snd fs);
              want = (if usdA \<ge> usdB then Bull else Uwu);
              s1 = (if ac_side a \<noteq> want \<and> max usdA usdB \<ge> BUST_USD h
                    then s\<lparr>accts := upd i (\<lambda>a. a\<lparr>ac_side := want\<rparr>) (accts s)\<rparr> else s)
          in if bal own a * px_safe q own < BUST_USD h
             then s1\<lparr>accts := retireBot h i (accts s1),
                     bustedCount := (bustedCount s1)(arenaEco aid := bustedCount s1 (arenaEco aid) + 1)\<rparr>
             else s1)"

end
