(* ===== verification/Engine_Pass.thy ===== *)
theory Engine_Pass
  imports Engine_Table
begin

text \<open>
  The pass of the round loop over an arena: \<open>onSettle\<close> of \<open>engine/src/server.ts\<close>, the tick
  around it, what happens as a lobby opens; the refund of open rounds and the rebalancing of the float; and
  the step function of everything that moves an arena's coins.
\<close>

subsection \<open>The population is topped up\<close>

lemma bot_id_inject [simp]: "bot_id aid n = bot_id aid m \<longleftrightarrow> n = m"
  by (simp add: bot_id_def) (metis digits_val_dec_digits)

definition ahead :: "string \<Rightarrow> staff \<Rightarrow> nat" where
  "ahead aid s = length (filter (\<lambda>a. \<exists>n>seq s. ac_id a = bot_id aid n) (accts s))"

definition alive_count :: "string \<Rightarrow> staff \<Rightarrow> nat" where
  "alive_count aid s = length (filter (belongs aid) (accts s))"

lemma botsFor_length: "botsFor aid s = (ids, s') \<Longrightarrow> length ids = alive_count aid s"
  by (auto simp: botsFor_def alive_count_def Let_def split: if_splits)

lemma botsFor_rest: "botsFor aid s = (ids, s') \<Longrightarrow> accts s' = accts s \<and> seq s' = seq s"
  by (auto simp: botsFor_def Let_def split: if_splits)

lemma filter_face:
  assumes "map face l = map face l'" and "\<And>a b. face a = face b \<Longrightarrow> P a = P b"
  shows "length (filter P l) = length (filter P l')"
  using assms(1)
proof (induction l arbitrary: l')
  case (Cons a l)
  then obtain b l1 where "l' = b # l1" "face a = face b" "map face l = map face l1" by (cases l') auto
  then show ?case using Cons.IH [of l1] assms(2) [of a b] by simp
qed simp

lemma belongs_face: "face a = face b \<Longrightarrow> belongs aid a = belongs aid b"
  by (simp add: belongs_def live_bot_def face_def)

lemma newBot_made:
  assumes "newBot h q d aid sd s = (True, s')"
  obtains l a where "map face l = map face (accts s)" "map root l = map root (accts s)"
    "face a = (bot_id aid (seq s + 1), True, False)" "refBy a = None" "ac_id a = bot_id aid (seq s + 1)"
    "accts s' = put_account a l" "seq s' = seq s + 1"
proof -
  define f where "f = slot (case arenaFields aid of Some fs \<Rightarrow> fs | None \<Rightarrow> (FBull, FUwu)) sd"
  obtain got l where b: "bankFor h f (bot_want h q f (d_bank d)) (fund_spread h q (accts s)) (accts s) = (got, l)"
    by fastforce
  define a where "a = (set_bal f got (new_account (bot_id aid (seq s + 1)) (d_name d) sd True))
      \<lparr>ac_temper := Some (35 / 100 + d_temper d * (26 / 10)), ac_skip := Some (d_skip d * (30 / 100))\<rparr>"
  have a: "ac_id a = bot_id aid (seq s + 1)" "isBot a" "\<not> retired a" "refBy a = None"
    by (cases f; simp add: a_def new_account_def)+
  have "accts s' = put_account a l" "seq s' = seq s + 1"
    using assms b unfolding newBot_def Let_def f_def [symmetric] a_def
    by (auto simp: f_def [symmetric] split: if_splits)
  then show ?thesis
    using that [of l a] faces.view_fund [OF b] roots.view_fund [OF b] a by (simp add: face_def)
qed

lemma filter_put:
  assumes "\<not> P a" and "ac_id a = i" and "\<And>b. ac_id b = i \<Longrightarrow> Q b" and "\<And>b. P b \<Longrightarrow> Q b"
  shows "length (filter P (put_account a l)) + (if get l i = None then 0 else 1) \<le> length (filter Q l)"
proof -
  have imp: "length (filter P xs) \<le> length (filter Q xs)" for xs using assms(4) by (induction xs) auto
  show ?thesis
proof (cases "find_index (\<lambda>b. ac_id b = i) l")
  case None
  then show ?thesis using assms(1,2) imp by (simp add: put_account_def get_def find_find_index)
next
  case (Some k)
  then have k: "k < length l" "ac_id (l ! k) = i" using find_index_SomeD by auto
  have x: "l = take k l @ l ! k # drop (Suc k) l" using id_take_nth_drop [OF k(1)] .
  have "l[k := a] = take k l @ a # drop (Suc k) l" using upd_conv_take_nth_drop [OF k(1)] .
  then have "length (filter P (l[k := a])) \<le> length (filter Q (take k l)) + length (filter Q (drop (Suc k) l))"
    using assms(1) imp [of "take k l"] imp [of "drop (Suc k) l"] by simp
  moreover have "length (filter Q l) = length (filter Q (take k l)) + 1 + length (filter Q (drop (Suc k) l))"
    by (subst x) (use assms(3) k(2) in simp)
  ultimately show ?thesis using Some assms(2) by (simp add: put_account_def get_def find_find_index)
qed
qed

lemma filter_put_more:
  assumes "P a" and "ac_id a = i"
  shows "length (filter P l) + (if get l i = None then 1 else 0) \<le> length (filter P (put_account a l))"
proof (cases "find_index (\<lambda>b. ac_id b = i) l")
  case None
  then show ?thesis using assms by (simp add: put_account_def get_def find_find_index)
next
  case (Some k)
  then have k: "k < length l" using find_index_SomeD by auto
  have x: "l = take k l @ l ! k # drop (Suc k) l" using id_take_nth_drop [OF k] .
  have "l[k := a] = take k l @ a # drop (Suc k) l" using upd_conv_take_nth_drop [OF k] .
  moreover have "length (filter P l) \<le> length (filter P (take k l)) + 1 + length (filter P (drop (Suc k) l))"
    by (subst x) simp
  ultimately show ?thesis using Some assms by (simp add: put_account_def get_def find_find_index)
qed

lemma newBot_progress:
  assumes "newBot h q d aid sd s = (True, s')" and "of_nat (alive_count aid s) < target"
  shows "nat \<lceil>target :: rat\<rceil> - alive_count aid s' + ahead aid s' < nat \<lceil>target\<rceil> - alive_count aid s + ahead aid s"
proof -
  obtain l a where n: "map face l = map face (accts s)"
    "face a = (bot_id aid (seq s + 1), True, False)" "ac_id a = bot_id aid (seq s + 1)"
    "accts s' = put_account a l" "seq s' = seq s + 1"
    using newBot_made [OF assms(1)] by metis
  let ?i = "bot_id aid (seq s + 1)"
  have ab: "belongs aid a" using n(2) bot_id_belongs by (simp add: belongs_def live_bot_def face_def)
  have l: "alive_count aid s = length (filter (belongs aid) l)"
    unfolding alive_count_def by (rule filter_face [OF n(1) [symmetric] belongs_face])
  have up: "alive_count aid s + (if get l ?i = None then 1 else 0) \<le> alive_count aid s'"
    unfolding l unfolding alive_count_def n(4) using filter_put_more [of "belongs aid" a ?i l] ab n(3) by simp
  have "ahead aid s = length (filter (\<lambda>a. \<exists>k>seq s. ac_id a = bot_id aid k) l)"
    unfolding ahead_def by (rule filter_face [OF n(1) [symmetric]]) (simp add: face_def)
  moreover have "length (filter (\<lambda>b. \<exists>n>seq s + 1. ac_id b = bot_id aid n) (put_account a l)) +
      (if get l ?i = None then 0 else 1) \<le> length (filter (\<lambda>b. \<exists>n>seq s. ac_id b = bot_id aid n) l)"
    by (rule filter_put) (use n(3) in \<open>auto intro: Suc_lessD\<close>)
  ultimately have down: "ahead aid s' + (if get l ?i = None then 0 else 1) \<le> ahead aid s"
    by (simp only: ahead_def n(4,5))
  have "int (alive_count aid s) < \<lceil>target\<rceil>" using assms(2) by linarith
  then show ?thesis using up down by (auto split: if_splits)
qed

text \<open>The loop of \<open>onSettle\<close>: while the arena has fewer fighters than it should, one more for the
  side that has no more than the other; it stops when the float cannot fund another.\<close>

definition lesser_side :: "ledger \<Rightarrow> string list \<Rightarrow> string list \<Rightarrow> side" where
  "lesser_side l ids ids' =
     (if length (filter (\<lambda>i. side_of l i = Bull) ids) \<le> length (filter (\<lambda>i. side_of l i = Uwu) ids')
      then Bull else Uwu)"

function recruit :: "house \<Rightarrow> quotes \<Rightarrow> luck \<Rightarrow> string \<Rightarrow> rat \<Rightarrow> staff \<Rightarrow> staff" where
  "recruit h q k aid target s =
     (let s1 = snd (botsFor aid s) in
      if of_nat (length (fst (botsFor aid s))) < target then
        let s2 = snd (botsFor aid s1); s3 = snd (botsFor aid s2);
            sd = lesser_side (accts s3) (fst (botsFor aid s1)) (fst (botsFor aid s2));
            b = newBot h q (lk_dice k (seq s3)) aid sd s3
        in if fst b then recruit h q k aid target (snd b) else snd b
      else s1)"
  by pat_completeness auto

termination
proof (relation "measure (\<lambda>(h, q, k, aid, target, s). nat \<lceil>target\<rceil> - alive_count aid s + ahead aid s)", goal_cases)
  case (2 h q k aid target s s1 s2 s3 sd b)
  have same: "accts s3 = accts s \<and> seq s3 = seq s"
    unfolding 2 by (metis botsFor_rest prod.collapse)
  then have c: "alive_count aid s3 = alive_count aid s" "ahead aid s3 = ahead aid s"
    by (simp_all add: alive_count_def ahead_def)
  have "of_nat (alive_count aid s3) < target"
    using 2(2) c botsFor_length [OF surjective_pairing] by metis
  moreover have "newBot h q (lk_dice k (seq s3)) aid sd s3 = (True, snd b)"
    using 2 by (simp add: prod_eq_iff)
  ultimately have "nat \<lceil>target\<rceil> - alive_count aid (snd b) + ahead aid (snd b) <
      nat \<lceil>target\<rceil> - alive_count aid s3 + ahead aid s3"
    using newBot_progress by blast
  then show ?case using c by simp
qed simp

declare recruit.simps [simp del]

subsection \<open>A settlement is paid\<close>

definition real_playing :: "entry list \<Rightarrow> nat" where
  "real_playing es = length (filter (\<lambda>e. \<not> bot_mark (e_id e)) es)"

definition pop_target :: "house \<Rightarrow> quotes \<Rightarrow> nat \<Rightarrow> nat \<Rightarrow> ledger \<Rightarrow> rat" where
  "pop_target h q rounds realPlaying l =
     (let popCap = min (POP_MAX h) (POP_START h + of_int \<lfloor>of_nat rounds * POP_GROWTH h\<rfloor>);
          wanted = max (POP_MIN h) (popCap - of_nat realPlaying * 2)
      in case js_min (Fin wanted) (popAffordable h q l) of Fin t \<Rightarrow> t | _ \<Rightarrow> 0)"

definition count_round :: "string \<Rightarrow> side \<Rightarrow> tables \<Rightarrow> tables" where
  "count_round aid winner T =
     (let eco = arenaEco aid; st = statsA T aid;
          st' = (if winner = Bull then st\<lparr>st_matches := st_matches st + 1, st_winsA := st_winsA st + 1\<rparr>
                 else st\<lparr>st_matches := st_matches st + 1, st_winsB := st_winsB st + 1\<rparr>)
      in T\<lparr>roundsOf := (roundsOf T)(eco := roundsOf T eco + 1),
           roundsByArena := (roundsByArena T)(aid := roundsByArena T aid + 1),
           statsA := (statsA T)(aid := st')\<rparr>)"

definition onSettle :: "house \<Rightarrow> quotes \<Rightarrow> luck \<Rightarrow> string \<Rightarrow> round_result \<Rightarrow> round_state \<Rightarrow> tables \<Rightarrow> tables" where
  "onSettle h q k aid r s T =
     (let n = rs_round s;
          T1 = T\<lparr>statsA := (statsA T)(aid := steal_stats (rr_hits r) (statsA T aid))\<rparr>;
          T2 = fold (settle_one q aid n r) (rr_settlement r) T1;
          T3 = snd (auditRound aid n T2);
          T4 = snd (pxForRound q aid n (snd (fields_of aid)) (snd (pxForRound q aid n (fst (fields_of aid)) T3)));
          (ids, s1) = botsFor aid (crew T4);
          T5 = count_round aid (rr_winner r) (T4\<lparr>crew := fold (review_bot h q aid) ids s1\<rparr>);
          target = pop_target h q (roundsByArena T5 aid) (real_playing (entries s)) (book_of T5)
      in T5\<lparr>crew := recruit h q k aid target (crew T5)\<rparr>)"

subsection \<open>The loop's pass over an arena\<close>

definition open_lobby :: "house \<Rightarrow> quotes \<Rightarrow> luck \<Rightarrow> string \<Rightarrow> tables \<Rightarrow> tables" where
  "open_lobby h q k aid T = ensureMinimumEntries h q k aid (botsEnter h q k aid T)"

definition tick_arena :: "host \<Rightarrow> durations \<Rightarrow> house \<Rightarrow> quotes \<Rightarrow> luck \<Rightarrow> rat \<Rightarrow> fresh_input \<Rightarrow> string \<Rightarrow> runner
    \<Rightarrow> tables \<Rightarrow> bool \<times> tables" where
  "tick_arena m du h q k now fr aid rn T =
     (let (out, call, rn') = run_tick m du now True fr rn;
          T1 = (case call of None \<Rightarrow> T | Some (r, s) \<Rightarrow> onSettle h q k aid r s T)
      in (out = Resolved True, T1\<lparr>runners := (runners T1)(aid := Some rn')\<rparr>))"

definition in_lobby :: "string \<Rightarrow> tables \<Rightarrow> bool" where
  "in_lobby aid T \<longleftrightarrow> (case runners T aid of None \<Rightarrow> False | Some r \<Rightarrow> phase (state r) = Lobby)"

definition pass_arena :: "host \<Rightarrow> durations \<Rightarrow> house \<Rightarrow> quotes \<Rightarrow> luck \<Rightarrow> rat \<Rightarrow> fresh_input \<Rightarrow> string
    \<Rightarrow> tables \<Rightarrow> tables" where
  "pass_arena m du h q k now fr aid T =
     (let T1 = (if in_lobby aid T \<and> lastPhase T aid \<noteq> Some Lobby then open_lobby h q k aid T else T) in
      case runners T1 aid of
        None \<Rightarrow> T1
      | Some rn \<Rightarrow>
          let T2 = T1\<lparr>lastPhase := (lastPhase T1)(aid := Some (phase (state rn)))\<rparr>;
              (settled, T3) = tick_arena m du h q k now fr aid rn T2
          in if settled \<and> in_lobby aid T3
             then (open_lobby h q k aid T3)\<lparr>lastPhase := (lastPhase T3)(aid := Some Lobby)\<rparr>
             else T3)"

subsection \<open>Shutdown and the float\<close>

definition unitsAtRound :: "quotes \<Rightarrow> string \<Rightarrow> nat \<Rightarrow> field \<Rightarrow> rat \<Rightarrow> tables \<Rightarrow> rat \<times> tables" where
  "unitsAtRound q aid n f usd T =
     (let (px, T1) = pxForRound q aid n f T in (if px > 0 then usd / px else 0, T1))"

definition refund_one :: "quotes \<Rightarrow> string \<Rightarrow> nat \<Rightarrow> entry \<Rightarrow> tables \<Rightarrow> tables" where
  "refund_one q aid n e T =
     (if get (book_of T) (wallet_of (e_id e)) = None then T
      else
        let f = slot (fields_of aid) (e_side e);
            (units, T1) = unitsAtRound q aid n f (e_stake e / (1 - FEE)) T
        in if units > 0 then on_book (upd (wallet_of (e_id e)) (add_bal f units)) T1 else T1)"

definition refund_arena :: "quotes \<Rightarrow> string \<Rightarrow> tables \<Rightarrow> tables" where
  "refund_arena q aid T =
     (case runners T aid of
        None \<Rightarrow> T
      | Some rn \<Rightarrow> fold (refund_one q aid (rs_round (state rn))) (entries (state rn)) T)"

definition refundOpenRounds :: "quotes \<Rightarrow> string list \<Rightarrow> tables \<Rightarrow> tables" where
  "refundOpenRounds q arenas T = fold (refund_arena q) arenas T"

text \<open>What \<open>lastChain\<close> holds, if it is not stale, and the price of SOL.\<close>

record chain_view =
  cv_uwu :: rat
  cv_bull :: rat
  cv_sol :: rat
  cv_px :: rat
  cv_stale :: bool

fun held_on_chain :: "chain_view \<Rightarrow> field \<Rightarrow> rat" where
  "held_on_chain c FUwu = cv_uwu c"
| "held_on_chain c FBull = cv_bull c"
| "held_on_chain c FSol = (if cv_px c > 0 then cv_sol c * cv_px c else 0)"

definition rebalance_field :: "house \<Rightarrow> quotes \<Rightarrow> rat \<Rightarrow> chain_view \<Rightarrow> field \<Rightarrow> tables \<Rightarrow> tables" where
  "rebalance_field h q minGapUsd c f T =
     (if f = FSol \<and> \<not> cv_px c > 0 then T
      else if \<not> held_on_chain c f > 0 then T
      else
        let usdPerTok = (if f = FSol then 1 else px_safe q f) in
        if \<not> usdPerTok > 0 then T
        else on_book (\<lambda>l. snd (resyncPoolToChain l (pool h) f (held_on_chain c f) (minGapUsd / usdPerTok)
               (openStakes f T))) T)"

definition autoRebalance :: "house \<Rightarrow> quotes \<Rightarrow> rat \<Rightarrow> chain_view \<Rightarrow> bool \<Rightarrow> tables \<Rightarrow> tables" where
  "autoRebalance h q minGapUsd c may T =
     (if \<not> may \<or> cv_stale c then T
      else fold (rebalance_field h q minGapUsd c) [FUwu, FBull, FSol] T)"

text \<open>Everything that moves the coins of the arenas between the accounts and the open rounds.\<close>

datatype table_op =
    PlayerEnters quotes luck string string side jsnum string
  | WatchBook quotes luck string
  | LoopPass quotes luck rat fresh_input string
  | LevelBots quotes

fun table_step :: "host \<Rightarrow> durations \<Rightarrow> house \<Rightarrow> table_op \<Rightarrow> tables \<Rightarrow> tables" where
  "table_step m du h (PlayerEnters q k w aid sd asked ref) T = snd (enter_handler h q k w aid sd asked ref T)"
| "table_step m du h (WatchBook q k aid) T = watch_book h q k aid T"
| "table_step m du h (LoopPass q k now fr aid) T = pass_arena m du h q k now fr aid T"
| "table_step m du h (LevelBots q) T = on_book (levelBots h q) T"

end
