(* ===== verification/Engine_Escrow.thy ===== *)
theory Engine_Escrow
  imports Engine_Pass
begin

text \<open>
  Coins are conserved by everything that goes on at the arenas: what the accounts hold in a coin and what
  the open rounds hold in it, at the prices frozen for them, add up to the same before and after an entry, a
  pass of the loop, an answer of the house, a settlement. The coins of an open round are its stakes in
  dollars over the frozen price.
\<close>

subsection \<open>What the open rounds hold\<close>

definition frozen_px :: "tables \<Rightarrow> string \<Rightarrow> nat \<Rightarrow> field \<Rightarrow> rat" where
  "frozen_px T aid n f = row_at no_px (roundPx T) (aid, n) f"

definition entry_coins :: "field \<times> field \<Rightarrow> (field \<Rightarrow> rat) \<Rightarrow> field \<Rightarrow> entry \<Rightarrow> rat" where
  "entry_coins fs px f e = (if slot fs (e_side e) = f then e_stake e / px f else 0)"

definition escrow_of :: "field \<Rightarrow> tables \<Rightarrow> string \<Rightarrow> rat" where
  "escrow_of f T aid =
     (case runners T aid of None \<Rightarrow> 0
      | Some r \<Rightarrow> sum_list (map (entry_coins (fields_of aid) (frozen_px T aid (rs_round (state r))) f)
                    (entries (state r))))"

definition coin_total :: "string list \<Rightarrow> field \<Rightarrow> tables \<Rightarrow> rat" where
  "coin_total arenas f T = coin_sum f (book_of T) + sum_list (map (escrow_of f T) arenas)"

subsection \<open>Well-formed tables\<close>

definition plain_name :: "string \<Rightarrow> bool" where
  "plain_name w \<longleftrightarrow> CHR ''|'' \<notin> set w \<and> CHR '':'' \<notin> set w"

definition ids :: "ledger \<Rightarrow> string set" where
  "ids l = set (map ac_id l)"

definition refs_ok :: "ledger \<Rightarrow> bool" where
  "refs_ok l \<longleftrightarrow> (\<forall>a\<in>set l. case refBy a of None \<Rightarrow> True | Some r \<Rightarrow> plain_name r)"

definition book_ok :: "string list \<Rightarrow> staff \<Rightarrow> bool" where
  "book_ok p s \<longleftrightarrow>
     distinct (map ac_id (accts s)) \<and> set p \<inter> ids (accts s) \<noteq> {} \<and> refs_ok (accts s) \<and>
     (\<forall>i\<in>ids (accts s). CHR ''|'' \<notin> set i) \<and> (\<forall>aid n. n > seq s \<longrightarrow> bot_id aid n \<notin> ids (accts s))"

definition entry_ok :: "tables \<Rightarrow> string \<Rightarrow> nat \<Rightarrow> entry \<Rightarrow> bool" where
  "entry_ok T aid n e \<longleftrightarrow>
     wallet_of (e_id e) \<in> ids (book_of T) \<and> 0 < frozen_px T aid n (slot (fields_of aid) (e_side e))"

definition arena_ok :: "host \<Rightarrow> durations \<Rightarrow> tables \<Rightarrow> string \<Rightarrow> bool" where
  "arena_ok m du T aid \<longleftrightarrow>
     (case runners T aid of None \<Rightarrow> True
      | Some r \<Rightarrow> round_ok m du r \<and> named_entries (entries (state r)) \<and>
                  list_all (entry_ok T aid (rs_round (state r))) (entries (state r)))"

definition table_ok :: "host \<Rightarrow> durations \<Rightarrow> house \<Rightarrow> string list \<Rightarrow> tables \<Rightarrow> bool" where
  "table_ok m du h arenas T \<longleftrightarrow>
     book_ok (pool h) (crew T) \<and> distinct (map fst (roundPx T)) \<and>
     (\<forall>aid. arena_ok m du T aid \<and> (runners T aid \<noteq> None \<longrightarrow> aid \<in> set arenas))"

text \<open>The arenas an environment enables, and the pool beside them.\<close>

definition house_ok :: "house \<Rightarrow> string list \<Rightarrow> bool" where
  "house_ok h arenas \<longleftrightarrow>
     distinct arenas \<and> \<not> fakeBank h \<and> 0 \<le> BOT_MAX_BANK_USD h \<and> 0 < BOT_STAKE_USD_MIN h \<and>
     (\<forall>aid\<in>set arenas. arenaFields aid \<noteq> None \<and> plain_name aid \<and>
        (\<forall>i\<in>set (pool h). \<not> starts_with (aid @ '':'') i))"

text \<open>The rows of open rounds are young: at most \<open>k\<close> rows have been added since, this one
  included. Of the arena an operation is about nothing is asked.\<close>

definition newest :: "nat \<Rightarrow> 'a list \<Rightarrow> 'a list" where
  "newest k xs = drop (length xs - k) xs"

definition recent :: "string \<Rightarrow> nat \<Rightarrow> tables \<Rightarrow> bool" where
  "recent aid k T \<longleftrightarrow>
     (\<forall>b r. b \<noteq> aid \<longrightarrow> runners T b = Some r \<longrightarrow> entries (state r) \<noteq> [] \<longrightarrow>
        (b, rs_round (state r)) \<in> set (newest k (map fst (roundPx T))))"

definition seat_view :: "tables \<Rightarrow> string \<Rightarrow> (arena_phase \<times> nat) option" where
  "seat_view T aid = map_option (\<lambda>r. (phase (state r), rs_round (state r))) (runners T aid)"

definition keyed :: "tables \<Rightarrow> string \<Rightarrow> bool" where
  "keyed T aid \<longleftrightarrow> (case seat_view T aid of None \<Rightarrow> True | Some (p, n) \<Rightarrow> (aid, n) \<in> set (map fst (roundPx T)))"

definition good :: "host \<Rightarrow> durations \<Rightarrow> house \<Rightarrow> string list \<Rightarrow> nat \<Rightarrow> string \<Rightarrow> tables \<Rightarrow> bool" where
  "good m du h arenas b aid T \<longleftrightarrow> table_ok m du h arenas T \<and> recent aid (if keyed T aid then b + 1 else b) T"

definition own_px :: "tables \<Rightarrow> string \<Rightarrow> field \<Rightarrow> rat" where
  "own_px T aid f = (case seat_view T aid of None \<Rightarrow> 0 | Some (p, n) \<Rightarrow> frozen_px T aid n f)"

text \<open>What every step inside an operation on an arena keeps.\<close>

definition steady :: "string list \<Rightarrow> string \<Rightarrow> tables \<Rightarrow> tables \<Rightarrow> bool" where
  "steady arenas aid T T' \<longleftrightarrow>
     ids (book_of T) \<subseteq> ids (book_of T') \<and> seat_view T' aid = seat_view T aid \<and>
     (\<forall>f. 0 < own_px T aid f \<longrightarrow> own_px T' aid f = own_px T aid f) \<and>
     (\<forall>f. coin_total arenas f T' = coin_total arenas f T)"

definition runs_to :: "host \<Rightarrow> durations \<Rightarrow> house \<Rightarrow> string list \<Rightarrow> nat \<Rightarrow> string \<Rightarrow> tables \<Rightarrow> tables \<Rightarrow> bool" where
  "runs_to m du h arenas b aid T T' \<longleftrightarrow>
     (good m du h arenas b aid T \<longrightarrow> good m du h arenas b aid T' \<and> steady arenas aid T T')"

lemma steady_refl: "steady arenas aid T T"
  by (simp add: steady_def)

lemma steady_trans: "steady arenas aid T T' \<Longrightarrow> steady arenas aid T' T'' \<Longrightarrow> steady arenas aid T T''"
  by (auto simp: steady_def)

subsection \<open>Bounded maps\<close>

lemma newest_snoc: "newest (Suc k) (xs @ [x]) = newest k xs @ [x]"
  by (cases "k \<le> length xs") (simp_all add: newest_def Suc_diff_le)

lemma newest_subset: "set (newest k xs) \<subseteq> set xs"
  by (simp add: newest_def set_drop_subset)

lemma newest_mono: "k \<le> k' \<Longrightarrow> set (newest k xs) \<subseteq> set (newest k' xs)"
  by (simp add: newest_def set_drop_subset_set_drop diff_le_mono2)

lemma newest_drop: "length xs - k \<ge> j \<Longrightarrow> newest k (drop j xs) = newest k xs"
proof -
  assume "length xs - k \<ge> j"
  then have "length xs - j - k + j = length xs - k" by arith
  then show ?thesis by (simp add: newest_def)
qed

lemma map_of_later: "map_of xs k = None \<Longrightarrow> map_of (xs @ ys) k = map_of ys k"
  by (simp add: map_add_def split: option.split)

lemma map_of_drop:
  assumes "distinct (map fst m)" and "k \<in> fst ` set (drop j m)"
  shows "map_of (drop j m) k = map_of m k"
proof -
  have "distinct (map fst (take j m @ drop j m))" using assms(1) by simp
  then have "k \<notin> fst ` set (take j m)"
    using assms(2) unfolding map_append distinct_append by auto
  then have "map_of (take j m) k = None" by (simp add: map_of_eq_None_iff)
  from map_of_later [OF this, of "drop j m"] show ?thesis by simp
qed

lemma ensure_keys:
  "map fst (ensure_key k d m) =
     (if k \<in> fst ` set m then map fst m
      else if length m \<ge> 64 then drop 32 (map fst m @ [k]) else map fst m @ [k])"
  by (auto simp: ensure_key_def bounded_add_def map_of_eq_None_iff drop_map)

lemma ensure_distinct: "distinct (map fst m) \<Longrightarrow> distinct (map fst (ensure_key k d m))"
  unfolding ensure_keys by (auto simp del: drop_append intro: distinct_drop)

lemma ensure_in: "k \<in> fst ` set (ensure_key k d m)"
proof -
  have "k \<in> set (map fst (ensure_key k d m))" unfolding ensure_keys by auto
  then show ?thesis by simp
qed

lemma ensure_newest:
  assumes "j \<in> set (newest n (map fst m))" and "n \<le> 32"
  shows "j \<in> set (newest (if k \<in> fst ` set m then n else Suc n) (map fst (ensure_key k d m)))"
proof (cases "k \<in> fst ` set m")
  case True
  then show ?thesis using assms by (simp add: ensure_keys)
next
  case False
  have s: "j \<in> set (newest (Suc n) (map fst m @ [k]))" using assms(1) by (simp add: newest_snoc)
  show ?thesis
  proof (cases "length m \<ge> 64")
    case True
    have "newest (Suc n) (drop 32 (map fst m @ [k])) = newest (Suc n) (map fst m @ [k])"
      using True assms(2) by (intro newest_drop) simp
    then show ?thesis using s False True by (simp add: ensure_keys)
  next
    case F: False
    then show ?thesis using s False by (simp add: ensure_keys)
  qed
qed

lemma ensure_row:
  assumes "distinct (map fst m)" and "j \<in> set (newest n (map fst m)) \<or> j \<notin> fst ` set m \<or> k \<in> fst ` set m"
    and "n \<le> 32"
  shows "row_at d (ensure_key k d m) j = row_at d m j"
proof (cases "k \<in> fst ` set m")
  case True
  then show ?thesis by (simp add: ensure_key_def map_of_eq_None_iff)
next
  case k: False
  let ?m = "m @ [(k, d)]"
  have full: "row_at d ?m j = row_at d m j"
    by (auto simp: row_at_def map_add_def split: option.split)
  show ?thesis
  proof (cases "length m \<ge> 64")
    case True
    have e: "ensure_key k d m = drop 32 ?m" using k True by (simp add: ensure_key_def bounded_add_def map_of_eq_None_iff)
    have dm: "distinct (map fst ?m)" using assms(1) k by simp
    consider "j \<in> fst ` set (drop 32 ?m)" | "j \<notin> fst ` set (drop 32 ?m)" "j \<notin> fst ` set m"
    proof (cases "j \<in> fst ` set m")
      case j: True
      then have "j \<in> set (newest n (map fst m))" using assms(2) k by auto
      then have "j \<in> set (newest (Suc n) (map fst ?m))" by (simp add: newest_snoc)
      moreover have "newest (Suc n) (map fst ?m) = newest (Suc n) (drop 32 (map fst ?m))"
        using True assms(3) by (intro newest_drop [symmetric]) simp
      ultimately have "j \<in> set (newest (Suc n) (drop 32 (map fst ?m)))" by (simp only:)
      then have "j \<in> set (drop 32 (map fst ?m))" by (rule subsetD [OF newest_subset])
      then have "j \<in> fst ` set (drop 32 ?m)" by (simp only: drop_map set_map)
      then show ?thesis using that by blast
    qed (use that in blast)
    then show ?thesis
    proof cases
      case 1
      then show ?thesis using map_of_drop [OF dm 1] full by (simp add: e row_at_def)
    next
      case 2
      then have "map_of (drop 32 ?m) j = None" "map_of m j = None" by (simp_all only: map_of_eq_None_iff not_False_eq_True)
      then show ?thesis unfolding e row_at_def by (simp only: option.case)
    qed
  next
    case False
    then show ?thesis using k full by (simp add: ensure_key_def bounded_add_def map_of_eq_None_iff)
  qed
qed

lemma update_row: "row_at d (AList.update k v m) j = (if j = k then v else row_at d m j)"
  by (simp add: row_at_def update_conv')

lemma update_keys': "k \<in> fst ` set m \<Longrightarrow> map fst (AList.update k v m) = map fst m"
  by (simp add: update_keys)

subsection \<open>Freezing a price\<close>

text \<open>What \<open>pxForRound\<close> changes: one row of the map, which may be new; the price it answers is frozen
  if there is one, a frozen price is what it answers, and young rows of other rounds stay.\<close>

lemma pxForRound_effect:
  assumes "pxForRound q aid n f T = (px, T')" and "distinct (map fst (roundPx T))"
  shows "T' = T\<lparr>roundPx := roundPx T'\<rparr>"
    and "distinct (map fst (roundPx T'))" and "(aid, n) \<in> fst ` set (roundPx T')"
    and "0 < px \<Longrightarrow> frozen_px T' aid n f = px"
    and "0 < frozen_px T aid n g \<Longrightarrow> frozen_px T' aid n g = frozen_px T aid n g"
    and "0 < frozen_px T aid n f \<Longrightarrow> px = frozen_px T aid n f"
    and "j \<in> set (newest k (map fst (roundPx T))) \<Longrightarrow> k \<le> 32 \<Longrightarrow>
      j \<in> set (newest (if (aid, n) \<in> fst ` set (roundPx T) then k else Suc k) (map fst (roundPx T')))"
    and "(b, n') \<noteq> (aid, n) \<Longrightarrow>
      (b, n') \<in> set (newest 32 (map fst (roundPx T))) \<or> (aid, n) \<in> fst ` set (roundPx T) \<Longrightarrow>
      frozen_px T' b n' g = frozen_px T b n' g"
proof -
  define k0 where "k0 = (aid, n)"
  define m where "m = ensure_key k0 no_px (roundPx T)"
  define row where "row = row_at no_px m k0"
  define r where "r = (if row f > 0 then m else AList.update k0 (row(f := px_safe q f)) m)"
  have e: "px = (if row f > 0 then row f else px_safe q f)" "T' = T\<lparr>roundPx := r\<rparr>"
    using assms(1) unfolding pxForRound_def Let_def k0_def [symmetric] m_def [symmetric] row_def [symmetric]
    by (auto simp: r_def split: if_splits)
  have in_m: "k0 \<in> fst ` set m" unfolding m_def by (rule ensure_in)
  have keys: "map fst r = map fst m" using in_m by (simp add: r_def update_keys')
  have row0: "row = row_at no_px (roundPx T) k0"
    unfolding row_def m_def by (rule ensure_row [OF assms(2), where n = 0]) auto
  have rows: "row_at no_px r j = (if j = k0 \<and> \<not> row f > 0 then row(f := px_safe q f) else row_at no_px m j)" for j
    by (auto simp: r_def update_row row_def)
  show "T' = T\<lparr>roundPx := roundPx T'\<rparr>" by (simp add: e)
  show "distinct (map fst (roundPx T'))" using ensure_distinct [OF assms(2)] by (simp add: e keys m_def)
  show "(aid, n) \<in> fst ` set (roundPx T')"
    using in_m keys by (simp add: e k0_def) (metis list.set_map)
  show "0 < px \<Longrightarrow> frozen_px T' aid n f = px"
    by (auto simp: frozen_px_def e rows row_def k0_def [symmetric])
  show "0 < frozen_px T aid n g \<Longrightarrow> frozen_px T' aid n g = frozen_px T aid n g"
    by (auto simp: frozen_px_def e rows k0_def [symmetric] row0 row_def [symmetric])
  show "0 < frozen_px T aid n f \<Longrightarrow> px = frozen_px T aid n f"
    by (simp add: frozen_px_def e k0_def [symmetric] row0)
  show "j \<in> set (newest k (map fst (roundPx T))) \<Longrightarrow> k \<le> 32 \<Longrightarrow>
      j \<in> set (newest (if (aid, n) \<in> fst ` set (roundPx T) then k else Suc k) (map fst (roundPx T')))"
    using ensure_newest [of j k "roundPx T" k0 no_px] by (simp add: e keys m_def k0_def)
  show "(b, n') \<noteq> (aid, n) \<Longrightarrow>
      (b, n') \<in> set (newest 32 (map fst (roundPx T))) \<or> (aid, n) \<in> fst ` set (roundPx T) \<Longrightarrow>
      frozen_px T' b n' g = frozen_px T b n' g"
    using ensure_row [OF assms(2), of "(b, n')" 32 k0 no_px]
    by (auto simp: frozen_px_def e rows k0_def m_def)
qed

lemma recent_newest: "recent aid k T \<Longrightarrow> k \<le> k' \<Longrightarrow> recent aid k' T"
  unfolding recent_def using newest_mono [of k k' "map fst (roundPx T)"] by blast

text \<open>The coins of the rounds depend on the runners and the frozen prices only.\<close>

lemma escrow_same:
  assumes "runners T' aid = runners T aid"
    and "\<And>r f. runners T aid = Some r \<Longrightarrow> entries (state r) \<noteq> [] \<Longrightarrow>
      0 < frozen_px T aid (rs_round (state r)) f \<Longrightarrow>
      frozen_px T' aid (rs_round (state r)) f = frozen_px T aid (rs_round (state r)) f"
    and "\<And>r e. runners T aid = Some r \<Longrightarrow> e \<in> set (entries (state r)) \<Longrightarrow>
      0 < frozen_px T aid (rs_round (state r)) (slot (fields_of aid) (e_side e))"
  shows "escrow_of f T' aid = escrow_of f T aid"
proof (cases "runners T aid")
  case (Some r)
  have "entry_coins (fields_of aid) (frozen_px T' aid (rs_round (state r))) f e =
      entry_coins (fields_of aid) (frozen_px T aid (rs_round (state r))) f e" if "e \<in> set (entries (state r))" for e
  proof -
    have "entries (state r) \<noteq> []" using that by auto
    then show ?thesis using assms(2) [OF Some _ assms(3) [OF Some that]] by (auto simp: entry_coins_def)
  qed
  then show ?thesis using Some assms(1) by (simp add: escrow_of_def cong: map_cong)
qed (simp add: escrow_of_def assms(1))

lemma seat_view_Some: "seat_view T aid = Some (p, n) \<longleftrightarrow>
    (\<exists>r. runners T aid = Some r \<and> phase (state r) = p \<and> rs_round (state r) = n)"
  by (auto simp: seat_view_def)

lemma own_frozen: "seat_view T aid = Some (p, n) \<Longrightarrow> own_px T aid f = frozen_px T aid n f"
  by (simp add: own_px_def)

lemma entry_frozen:
  assumes "table_ok m du h arenas T" and "runners T c = Some r" and "e \<in> set (entries (state r))"
  shows "0 < frozen_px T c (rs_round (state r)) (slot (fields_of c) (e_side e))"
proof -
  have "arena_ok m du T c" using assms(1) by (simp add: table_ok_def)
  then show ?thesis using assms(2,3) by (auto simp: arena_ok_def entry_ok_def list_all_iff)
qed

lemma px_step:
  assumes "pxForRound q aid n f T = (px, T')" and "seat_view T aid = Some (p, n)"
    and "good m du h arenas b aid T" and "b \<le> 31"
  shows "good m du h arenas b aid T'" and "steady arenas aid T T'" and "0 < px \<Longrightarrow> own_px T' aid f = px"
    and "0 < own_px T aid f \<Longrightarrow> px = own_px T aid f"
    and "runners T' = runners T" and "crew T' = crew T"
proof -
  have t: "table_ok m du h arenas T" and r: "recent aid (if keyed T aid then b + 1 else b) T"
    using assms(3) by (simp_all add: good_def)
  have d: "distinct (map fst (roundPx T))" using t by (simp add: table_ok_def)
  note e = pxForRound_effect [OF assms(1) d]
  have T': "T' = T\<lparr>roundPx := roundPx T'\<rparr>" by (rule e(1))
  have run: "runners T' = runners T" and cr: "crew T' = crew T" by (subst T', simp)+
  have lv: "seat_view T' c = seat_view T c" for c by (simp add: seat_view_def run)
  have bk: "book_of T' = book_of T" by (simp add: book_of_def cr)
  have kT: "keyed T aid \<longleftrightarrow> (aid, n) \<in> fst ` set (roundPx T)" using assms(2) by (simp add: keyed_def)
  have kT': "keyed T' aid" using assms(2) e(3) by (simp add: keyed_def lv)
  have young: "(c, rs_round (state x)) \<in> set (newest (if keyed T aid then b + 1 else b) (map fst (roundPx T)))"
    if "c \<noteq> aid" "runners T c = Some x" "entries (state x) \<noteq> []" for c x
    using r that by (simp add: recent_def)
  have fr: "frozen_px T' c (rs_round (state x)) g = frozen_px T c (rs_round (state x)) g"
    if "runners T c = Some x" "entries (state x) \<noteq> []" "0 < frozen_px T c (rs_round (state x)) g" for c x g
  proof (cases "c = aid")
    case True
    then have "rs_round (state x) = n" using that(1) assms(2) by (simp add: seat_view_def)
    then show ?thesis using e(5) that(3) True by simp
  next
    case False
    have "(c, rs_round (state x)) \<in> set (newest 32 (map fst (roundPx T))) \<or> (aid, n) \<in> fst ` set (roundPx T)"
    proof (cases "keyed T aid")
      case True
      then show ?thesis using kT by blast
    next
      case nk: False
      then have "(c, rs_round (state x)) \<in> set (newest b (map fst (roundPx T)))"
        using young [OF False that(1,2)] by simp
      then show ?thesis using newest_mono [of b 32 "map fst (roundPx T)"] assms(4) by auto
    qed
    moreover have "(c, rs_round (state x)) \<noteq> (aid, n)" using False by simp
    ultimately show ?thesis using e(8) by blast
  qed
  have esc: "escrow_of g T' c = escrow_of g T c" for g c
    by (rule escrow_same) (use run fr entry_frozen [OF t] in auto)
  have ao: "arena_ok m du T' c" for c
  proof -
    have "arena_ok m du T c" using t by (simp add: table_ok_def)
    moreover have "entry_ok T' c (rs_round (state x)) e"
      if "runners T c = Some x" "e \<in> set (entries (state x))" "entry_ok T c (rs_round (state x)) e" for x e
    proof -
      have "entries (state x) \<noteq> []" using that(2) by auto
      then show ?thesis using fr [OF that(1), of "slot (fields_of c) (e_side e)"] that(3) by (simp add: entry_ok_def bk)
    qed
    ultimately show ?thesis by (auto simp: arena_ok_def run list_all_iff split: option.splits)
  qed
  have tok: "table_ok m du h arenas T'" using t e(2) ao by (simp add: table_ok_def cr run)
  have rc: "recent aid (b + 1) T'"
    unfolding recent_def run
  proof (intro allI impI)
    fix c x assume c: "c \<noteq> aid" "runners T c = Some x" "entries (state x) \<noteq> []"
    have "(if keyed T aid then b + 1 else b) \<le> 32" using assms(4) by simp
    from e(7) [OF young [OF c] this]
    show "(c, rs_round (state x)) \<in> set (newest (b + 1) (map fst (roundPx T')))"
      by (simp add: kT split: if_splits)
  qed
  show "good m du h arenas b aid T'" using tok rc kT' by (simp add: good_def)
  have own: "own_px T' aid g = own_px T aid g" if "0 < own_px T aid g" for g
    using that assms(2) e(5) by (simp add: own_px_def lv)
  show "steady arenas aid T T'" using own by (simp add: steady_def bk lv coin_total_def esc cong: map_cong)
  show "0 < px \<Longrightarrow> own_px T' aid f = px" using assms(2) e(4) by (simp add: own_px_def lv)
  show "0 < own_px T aid f \<Longrightarrow> px = own_px T aid f" using assms(2) e(6) by (simp add: own_px_def)
  show "runners T' = runners T" "crew T' = crew T" by (fact run, fact cr)
qed

text \<open>A step that changes the accounts only.\<close>

lemma book_step:
  assumes "good m du h arenas b aid T" and "runners T' = runners T" and "roundPx T' = roundPx T"
    and "book_ok (pool h) (crew T')" and "ids (book_of T) \<subseteq> ids (book_of T')"
  shows "good m du h arenas b aid T'" and "seat_view T' aid = seat_view T aid"
    and "own_px T' aid f = own_px T aid f"
    and "coin_total arenas f T' = coin_total arenas f T + (coin_sum f (book_of T') - coin_sum f (book_of T))"
proof -
  have lv: "seat_view T' c = seat_view T c" for c by (simp add: seat_view_def assms(2))
  have fr: "frozen_px T' c n g = frozen_px T c n g" for c n g by (simp add: frozen_px_def assms(3))
  have "arena_ok m du T' c" if "arena_ok m du T c" for c
    using that assms(5) by (auto simp: arena_ok_def assms(2) entry_ok_def fr list_all_iff split: option.splits)
  then have "table_ok m du h arenas T'" using assms by (simp add: good_def table_ok_def)
  moreover have "keyed T' aid = keyed T aid" unfolding keyed_def lv assms(3) by (rule refl)
  moreover have "recent aid k T' = recent aid k T" for k by (simp add: recent_def assms(2,3))
  ultimately show "good m du h arenas b aid T'" using assms(1) by (simp add: good_def)
  show "seat_view T' aid = seat_view T aid" by (rule lv)
  show "own_px T' aid f = own_px T aid f" unfolding own_px_def lv fr by (rule refl)
  have "frozen_px T' = frozen_px T" by (intro ext) (rule fr)
  then have "escrow_of g T' c = escrow_of g T c" for g c by (simp only: escrow_of_def assms(2))
  then show "coin_total arenas f T' = coin_total arenas f T + (coin_sum f (book_of T') - coin_sum f (book_of T))"
    by (simp add: coin_total_def cong: map_cong)
qed

lemma book_steady:
  assumes "good m du h arenas b aid T" and "runners T' = runners T" and "roundPx T' = roundPx T"
    and "book_ok (pool h) (crew T')" and "ids (book_of T) \<subseteq> ids (book_of T')"
    and "\<And>f. coin_sum f (book_of T') = coin_sum f (book_of T)"
  shows "good m du h arenas b aid T'" and "steady arenas aid T T'"
  using book_step [OF assms(1-5)] assms(5,6) by (simp_all add: steady_def)

subsection \<open>Changes of the book\<close>

lemma ids_roots: "map root l' = map root l \<Longrightarrow> ids l' = ids l"
  by (simp add: ids_def ids_of_roots [of l] ids_of_roots [of l'])

lemma refs_roots: "refs_ok l = list_all (\<lambda>x. case snd x of None \<Rightarrow> True | Some r \<Rightarrow> plain_name r) (map root l)"
  by (simp add: refs_ok_def list_all_iff root_def)

lemma book_ok_cong:
  assumes "book_ok p s" and "map root (accts s') = map root (accts s)" and "seq s \<le> seq s'"
  shows "book_ok p s'"
proof -
  have "map ac_id (accts s') = map ac_id (accts s)" by (simp only: ids_of_roots assms(2))
  then show ?thesis
    using assms ids_roots [OF assms(2)] unfolding book_ok_def refs_roots by simp
qed

lemma book_ok_snoc:
  assumes "book_ok p s" and "accts s' = accts s @ [a]" and "seq s' = seq s" and "ac_id a \<notin> ids (accts s)"
    and "plain_name (ac_id a)" and "refBy a = None"
  shows "book_ok p s'"
proof -
  have "bot_id aid n \<noteq> ac_id a" for aid n
  proof
    assume "bot_id aid n = ac_id a"
    moreover have "CHR '':'' \<in> set (bot_id aid n)" by (simp add: bot_id_def)
    ultimately show False using assms(5) by (simp add: plain_name_def)
  qed
  then show ?thesis
    using assms by (auto simp: book_ok_def ids_def refs_ok_def plain_name_def)
qed

lemma get_ids: "get l i = None \<longleftrightarrow> i \<notin> ids l"
  by (simp add: get_None_ids ids_def)

lemma new_account_facts [simp]: "refBy (new_account i n sd b) = None" "ac_id (new_account i n sd b) = i"
  by (simp_all add: new_account_def)

lemma acct_ok:
  assumes "book_ok p s" and "plain_name w"
  shows "book_ok p (s\<lparr>accts := acct w sd (accts s)\<rparr>)" and "ids (acct w sd l) = insert w (ids l)"
proof -
  show "book_ok p (s\<lparr>accts := acct w sd (accts s)\<rparr>)"
  proof (cases "get (accts s) w = None")
    case True
    show ?thesis
      by (rule book_ok_snoc [OF assms(1), where a = "new_account w ''You'' sd False"])
        (use True assms(2) in \<open>simp_all add: acct_def get_ids\<close>)
  next
    case False
    then have "acct w sd (accts s) = accts s" by (auto simp: acct_def)
    then show ?thesis using assms(1) by simp
  qed
  show "ids (acct w sd l) = insert w (ids l)"
    by (auto simp: acct_def get_ids) (auto simp: ids_def)
qed

lemma colon_free_treasury: "plain_name TREASURY_ID"
  by (simp add: plain_name_def TREASURY_ID_def)

lemma upd_keeps:
  assumes "\<And>a. ac_id (g a) = ac_id a" and "\<And>a. refBy (g a) = refBy a"
  shows "map root (upd i g l) = map root l" and "ids (upd i g l) = ids l"
proof -
  show r: "map root (upd i g l) = map root l" by (rule roots.view_upd) (simp add: root_def assms)
  show "ids (upd i g l) = ids l" by (rule ids_roots [OF r])
qed

lemma set_bal_ref [simp]: "refBy (set_bal f v a) = refBy a"
  by (cases f) simp_all

lemma add_bal_ref [simp]: "refBy (add_bal f v a) = refBy a"
  by (simp add: add_bal_def)

lemma bankFee_ok:
  assumes "book_ok p s"
  shows "book_ok p (s\<lparr>accts := bankFee f v (accts s)\<rparr>)" and "ids l \<subseteq> ids (bankFee f v l)"
proof -
  have t: "book_ok p (s\<lparr>accts := treasuryAcct (accts s)\<rparr>)"
  proof (cases "get (accts s) TREASURY_ID = None")
    case True
    show ?thesis
      by (rule book_ok_snoc [OF assms, where a = "new_account TREASURY_ID ''Versus Treasury'' Bull True"])
        (use True colon_free_treasury in \<open>simp_all add: treasuryAcct_def get_ids\<close>)
  next
    case False
    then have "treasuryAcct (accts s) = accts s" by (auto simp: treasuryAcct_def)
    then show ?thesis using assms by simp
  qed
  show "book_ok p (s\<lparr>accts := bankFee f v (accts s)\<rparr>)"
  proof (cases "v > 0")
    case True
    then show ?thesis
      by (intro book_ok_cong [OF t]) (simp_all add: bankFee_def upd_keeps)
  next
    case False
    then show ?thesis using assms by (simp add: bankFee_def)
  qed
  show "ids l \<subseteq> ids (bankFee f v l)"
    by (auto simp: bankFee_def upd_keeps treasuryAcct_def) (auto simp: ids_def)
qed

lemma pool_ready: "poolAccounts p l \<noteq> [] \<longleftrightarrow> set p \<inter> ids l \<noteq> {}"
  by (induction p) (auto simp: poolAccounts_Cons get_ids [symmetric] split: option.split)

lemma on_book_simps [simp]:
  "runners (on_book g T) = runners T" "roundPx (on_book g T) = roundPx T" "roundFlow (on_book g T) = roundFlow T"
  "matchedBook (on_book g T) = matchedBook T" "book_of (on_book g T) = g (book_of T)"
  "crew (on_book g T) = (crew T)\<lparr>accts := g (book_of T)\<rparr>"
  by (simp_all add: on_book_def book_of_def)

lemma book_keep:
  assumes "good m du h arenas b aid T" and "map root (g (book_of T)) = map root (book_of T)"
    and "\<And>f. coin_sum f (g (book_of T)) = coin_sum f (book_of T)"
  shows "good m du h arenas b aid (on_book g T)" and "steady arenas aid T (on_book g T)"
proof -
  have "book_ok (pool h) (crew T)" using assms(1) by (simp add: good_def table_ok_def)
  then have k: "book_ok (pool h) (crew (on_book g T))"
    by (rule book_ok_cong) (use assms(2) in \<open>simp_all add: book_of_def\<close>)
  have i: "ids (book_of T) \<subseteq> ids (book_of (on_book g T))" using ids_roots [OF assms(2)] by simp
  show "good m du h arenas b aid (on_book g T)" "steady arenas aid T (on_book g T)"
    using book_steady [OF assms(1) _ _ k i] assms(3) by simp_all
qed

subsection \<open>A stake goes into a lobby\<close>

lemma wallet_of_fighter [simp]: "CHR ''|'' \<notin> set i \<Longrightarrow> wallet_of (fighter_id i sd) = i"
  by (induction i) (auto simp: wallet_of_def fighter_id_def)

lemma fighter_server_id: "CHR ''|'' \<notin> set i \<Longrightarrow> server_id (fighter_id i sd) sd"
  unfolding server_id_def by (simp add: fighter_id_def [symmetric]) (simp add: fighter_id_def)

lemma enter_entries_coins:
  "sum_list (map (entry_coins fs px f) (enter_entries i sd stake es)) =
     sum_list (map (entry_coins fs px f) es) + (if slot fs sd = f then stake / px f else 0)"
proof (cases "find_index (same_fighter i sd) es")
  case None
  then show ?thesis by (simp add: enter_entries_def entry_coins_def)
next
  case (Some k)
  then have "k < length es" "e_side (es ! k) = sd"
    using find_index_SomeD [OF Some] by (auto simp: same_fighter_def)
  then show ?thesis
    using Some by (simp add: enter_entries_def sum_list_update_group entry_coins_def add_divide_distrib)
qed

lemma enter_entries_all:
  assumes "list_all P es" and "\<And>e. e_id e = i \<Longrightarrow> e_side e = sd \<Longrightarrow> P e"
  shows "list_all P (enter_entries i sd stake es)"
proof (cases "find_index (same_fighter i sd) es")
  case None
  then show ?thesis using assms by (simp add: enter_entries_def)
next
  case (Some k)
  then have "k < length es" "e_id (es ! k) = i" "e_side (es ! k) = sd"
    using find_index_SomeD [OF Some] by (auto simp: same_fighter_def)
  then show ?thesis using Some assms by (simp add: enter_entries_def list_all_update)
qed

lemma sum_arenas:
  assumes "distinct arenas" and "aid \<in> set arenas" and "\<And>c. c \<noteq> aid \<Longrightarrow> g c = k c"
  shows "sum_list (map g arenas) = sum_list (map k arenas) - (k aid :: rat) + g aid"
proof -
  have "sum_list (map g arenas) = sum g (set arenas)" "sum_list (map k arenas) = sum k (set arenas)"
    using assms(1) by (simp_all add: sum_list_distinct_conv_sum_set)
  moreover have "sum g (set arenas - {aid}) = sum k (set arenas - {aid})"
    by (rule sum.cong) (use assms(3) in auto)
  ultimately show ?thesis using assms(2) by (simp add: sum.remove [of "set arenas" aid])
qed

lemma enter_step:
  assumes "good m du h arenas b aid T" and "distinct arenas" and "seat_view T aid = Some (Lobby, n)"
    and "CHR ''|'' \<notin> set i" and "i \<in> ids (book_of T)" and "0 < own_px T aid (slot (fields_of aid) sd)"
    and T'_def: "T' = rn_enter aid (fighter_id i sd) sd stake T"
  shows "good m du h arenas b aid T'" and "seat_view T' aid = seat_view T aid" and "own_px T' aid f = own_px T aid f"
    and "coin_total arenas f T' = coin_total arenas f T +
      (if f = slot (fields_of aid) sd then stake / own_px T aid f else 0)"
    and "book_of T' = book_of T"
proof -
  obtain r where r: "runners T aid = Some r" "phase (state r) = Lobby" "rs_round (state r) = n"
    using assms(3) by (auto simp: seat_view_Some)
  define r' where "r' = snd (enter_lobby (fighter_id i sd) sd stake r)"
  have T': "T' = T\<lparr>runners := (runners T)(aid := Some r')\<rparr>" by (simp add: T'_def rn_enter_def r r'_def)
  have e': "entries (state r') = enter_entries (fighter_id i sd) sd stake (entries (state r))"
    "rs_round (state r') = n" "phase (state r') = Lobby"
    using r by (simp_all add: r'_def enter_lobby_def)
  have t: "table_ok m du h arenas T" using assms(1) by (simp add: good_def)
  have a0: "round_ok m du r" "named_entries (entries (state r))" "list_all (entry_ok T aid n) (entries (state r))"
    using t r by (auto simp: table_ok_def arena_ok_def dest: spec [of _ aid])
  have fr: "frozen_px T' c k g = frozen_px T c k g" for c k g by (simp add: frozen_px_def T')
  have eo: "entry_ok T' c k = entry_ok T c k" for c k
    by (rule ext) (simp add: entry_ok_def fr, simp add: T' book_of_def)
  have "arena_ok m du T' c" for c
  proof (cases "c = aid")
    case True
    have "list_all (entry_ok T aid n) (entries (state r'))"
      unfolding e'(1)
      by (rule enter_entries_all [OF a0(3)])
        (use assms(4-6) own_frozen [OF assms(3)] in \<open>simp add: entry_ok_def\<close>)
    moreover have "named_entries (entries (state r'))"
      unfolding e'(1) by (rule enter_entries_named [OF a0(2) fighter_server_id [OF assms(4)]])
    moreover have "round_ok m du r'" unfolding r'_def by (rule enter_ok [OF a0(1)])
    moreover have "runners T' aid = Some r'" by (simp add: T')
    ultimately show ?thesis using True by (simp add: arena_ok_def eo e'(2))
  next
    case False
    have "arena_ok m du T c" using t by (simp add: table_ok_def)
    moreover have "runners T' c = runners T c" using False by (simp add: T')
    ultimately show ?thesis unfolding arena_ok_def eo by (simp only:)
  qed
  moreover have ain: "aid \<in> set arenas" using t r by (simp add: table_ok_def)
  ultimately have "table_ok m du h arenas T'" using t by (auto simp: table_ok_def T' split: if_splits)
  moreover have lv: "seat_view T' c = seat_view T c" for c
    using r e' by (simp add: seat_view_def T')
  moreover have "keyed T' aid = keyed T aid"
  proof -
    have "roundPx T' = roundPx T" by (simp add: T')
    then show ?thesis unfolding keyed_def lv by (simp only:)
  qed
  moreover have "recent aid k T' = recent aid k T" for k
    by (auto simp: recent_def T')
  ultimately show "good m du h arenas b aid T'" using assms(1) by (simp add: good_def)
  show "seat_view T' aid = seat_view T aid" by (rule lv)
  show "own_px T' aid f = own_px T aid f" unfolding own_px_def lv fr by (rule refl)
  show bk: "book_of T' = book_of T" by (simp add: T' book_of_def)
  have px: "frozen_px T' = frozen_px T" by (intro ext) (rule fr)
  have "escrow_of f T' c = escrow_of f T c" if "c \<noteq> aid" for c
  proof -
    have "runners T' c = runners T c" using that by (simp add: T')
    then show ?thesis by (simp only: escrow_of_def px)
  qed
  moreover have "escrow_of f T' aid = escrow_of f T aid + (if f = slot (fields_of aid) sd then stake / own_px T aid f else 0)"
  proof -
    have "runners T' aid = Some r'" by (simp add: T')
    then show ?thesis
      using r by (simp add: escrow_of_def px own_frozen [OF assms(3)] e' enter_entries_coins)
  qed
  ultimately show "coin_total arenas f T' = coin_total arenas f T +
      (if f = slot (fields_of aid) sd then stake / own_px T aid f else 0)"
    using sum_arenas [OF assms(2) ain, of "escrow_of f T'" "escrow_of f T"] by (simp add: coin_total_def bk)
qed

subsection \<open>Composing steps\<close>

text \<open>Steps that keep a condition and a relation compose, also through a loop that threads more than the
  state.\<close>

locale threaded =
  fixes ok :: "'s \<Rightarrow> bool" and rel :: "'s \<Rightarrow> 's \<Rightarrow> bool"
  assumes rel_refl: "rel s s" and rel_trans: "rel s t \<Longrightarrow> rel t u \<Longrightarrow> rel s u"
begin

definition leads :: "'s \<Rightarrow> 's \<Rightarrow> bool" where
  "leads s t \<longleftrightarrow> (ok s \<longrightarrow> ok t \<and> rel s t)"

lemma leads_refl: "leads s s"
  by (simp add: leads_def rel_refl)

lemma leads_trans: "leads s t \<Longrightarrow> leads t u \<Longrightarrow> leads s u"
  using rel_trans by (auto simp: leads_def)

lemma fold_leads:
  assumes "\<And>x a. x \<in> set xs \<Longrightarrow> ok (st a) \<Longrightarrow> rel s (st a) \<Longrightarrow> ok (st (op x a)) \<and> rel (st a) (st (op x a))"
    and "ok (st a)" and "rel s (st a)"
  shows "ok (st (fold op xs a)) \<and> rel s (st (fold op xs a))"
  using assms
proof (induction xs arbitrary: a)
  case (Cons x xs)
  then have "ok (st (op x a)) \<and> rel s (st (op x a))" using rel_trans by (metis list.set_intros(1))
  then show ?case using Cons.IH [of "op x a"] Cons.prems(1) by simp
qed simp

end

interpretation steps: threaded "good m du h arenas b aid" "steady arenas aid" for m du h arenas b aid
  by unfold_locales (auto intro: steady_refl steady_trans)

lemma core_cong:
  assumes "runners T' = runners T" and "roundPx T' = roundPx T" and "crew T' = crew T"
  shows "good m du h arenas b aid T' = good m du h arenas b aid T" and "seat_view T' = seat_view T"
    and "own_px T' = own_px T" and "coin_total arenas f T' = coin_total arenas f T" and "book_of T' = book_of T"
proof -
  have px: "frozen_px T' = frozen_px T" by (intro ext) (simp add: frozen_px_def assms(2))
  show bk: "book_of T' = book_of T" by (simp add: book_of_def assms(3))
  show lv: "seat_view T' = seat_view T" by (intro ext) (simp add: seat_view_def assms(1))
  show "own_px T' = own_px T" by (intro ext) (simp only: own_px_def lv px)
  have eo: "entry_ok T' = entry_ok T" by (intro ext) (simp only: entry_ok_def bk px)
  have "arena_ok m du T' = arena_ok m du T" by (intro ext) (simp only: arena_ok_def eo assms(1))
  then have "table_ok m du h arenas T' = table_ok m du h arenas T" by (simp only: table_ok_def assms)
  moreover have "keyed T' = keyed T" by (intro ext) (simp only: keyed_def lv assms(2))
  moreover have "recent aid k T' = recent aid k T" for k by (simp only: recent_def assms(1,2))
  ultimately show "good m du h arenas b aid T' = good m du h arenas b aid T" by (simp only: good_def)
  have "escrow_of f T' = escrow_of f T" by (intro ext) (simp only: escrow_of_def px assms(1))
  then show "coin_total arenas f T' = coin_total arenas f T" by (simp only: coin_total_def bk)
qed

lemma core_steady:
  assumes "runners T' = runners T" and "roundPx T' = roundPx T" and "crew T' = crew T"
  shows "good m du h arenas b aid T' = good m du h arenas b aid T" and "steady arenas aid T T'"
  using core_cong [OF assms] by (simp_all add: steady_def)

lemma flow_core [simp]:
  "runners (flow aid n f g T) = runners T" "roundPx (flow aid n f g T) = roundPx T" "crew (flow aid n f g T) = crew T"
  "matchedBook (flow aid n f g T) = matchedBook T"
  by (simp_all add: flow_def Let_def)

lemma tally_core [simp]:
  "runners (tally aid sd u v T) = runners T" "roundPx (tally aid sd u v T) = roundPx T" "crew (tally aid sd u v T) = crew T"
  "matchedBook (tally aid sd u v T) = matchedBook T"
  by (simp_all add: tally_def Let_def)

lemma rn_enter_core [simp]: "matchedBook (rn_enter aid i sd u T) = matchedBook T" "crew (rn_enter aid i sd u T) = crew T"
  by (simp_all add: rn_enter_def split: option.split)

lemma FEE_pos [simp]: "0 < FEE" "FEE < 1" "0 \<le> FEE"
  by (simp_all add: FEE_def)

lemma total_upd_dep:
  "i \<in> ids l \<Longrightarrow> coin_sum g (upd i (\<lambda>a. (add_bal f v a)\<lparr>dep := dep a + u\<rparr>) l) = coin_sum g l + (if g = f then v else 0)"
proof -
  assume "i \<in> ids l"
  then obtain a where a: "get l i = Some a" using get_ids [of l i] by auto
  have "bal g (b\<lparr>dep := x\<rparr>) = bal g b" for b x by (cases g) simp_all
  then show ?thesis using total_upd [OF a] by simp
qed

lemma stake_bot_step:
  assumes "good m du h arenas b aid T" and "distinct arenas" and "seat_view T aid = Some (Lobby, n)"
    and "CHR ''|'' \<notin> set i" and "i \<in> ids (book_of T)" and "0 < px" and "px = own_px T aid f"
    and "f = slot (fields_of aid) sd" and "usd = tokens * px" and "0 \<le> tokens"
  shows "good m du h arenas b aid (stake_bot aid n i sd f px tokens usd T)"
    and "steady arenas aid T (stake_bot aid n i sd f px tokens usd T)"
proof -
  let ?g = "bankFee f (tokens * FEE) \<circ> upd i (\<lambda>a. (add_bal f (- tokens) a)\<lparr>dep := dep a + usd\<rparr>)"
  let ?u = "upd i (\<lambda>a. (add_bal f (- tokens) a)\<lparr>dep := dep a + usd\<rparr>)"
  define T1 where "T1 = on_book ?g T"
  define T2 where "T2 = tally aid sd usd (tokens * FEE * px)
      (flow aid n f (\<lambda>v. v\<lparr>fl_out := fl_out v + tokens, fl_in := fl_in v + tokens * FEE\<rparr>) T1)"
  have S: "stake_bot aid n i sd f px tokens usd T = rn_enter aid (fighter_id i sd) sd (usd * (1 - FEE)) T2"
    by (simp add: stake_bot_def T1_def T2_def Let_def)
  have bk: "book_ok (pool h) (crew T)" using assms(1) by (simp add: good_def table_ok_def)
  have r: "map root (?u (book_of T)) = map root (book_of T)" by (rule upd_keeps) simp_all
  have "book_ok (pool h) ((crew T)\<lparr>accts := ?u (book_of T)\<rparr>)"
    by (rule book_ok_cong [OF bk]) (use r in \<open>simp_all add: book_of_def\<close>)
  from bankFee_ok(1) [OF this] have b1: "book_ok (pool h) (crew T1)" by (simp add: T1_def)
  have i1: "ids (book_of T) \<subseteq> ids (book_of T1)"
    using bankFee_ok(2) [OF bk, of "?u (book_of T)"] by (simp add: T1_def upd_keeps)
  note s1 = book_step [OF assms(1) _ _ b1 i1]
  have g1: "good m du h arenas b aid T1" "seat_view T1 aid = seat_view T aid" "own_px T1 aid f' = own_px T aid f'" for f'
    using s1(1-3) by (simp_all add: T1_def)
  have c1: "coin_total arenas f' T1 = coin_total arenas f' T + (if f' = f then - tokens + tokens * FEE else 0)" for f'
    using s1(4) [of f'] assms(5,10) by (simp add: T1_def total_bankFee total_upd_dep)
  have core: "runners T2 = runners T1" "roundPx T2 = roundPx T1" "crew T2 = crew T1" by (simp_all add: T2_def)
  have g2: "good m du h arenas b aid T2" "seat_view T2 aid = Some (Lobby, n)" "own_px T2 aid f' = own_px T aid f'"
    "coin_total arenas f' T2 = coin_total arenas f' T1" "book_of T2 = book_of T1" for f'
    using core_cong [OF core] g1 assms(3) by simp_all
  have i2: "i \<in> ids (book_of T2)" using g2(5) i1 assms(5) by auto
  have p2: "0 < own_px T2 aid (slot (fields_of aid) sd)" using g2(3) assms(6-8) by simp
  note e = enter_step [OF g2(1) assms(2) g2(2) assms(4) i2 p2 S]
  show "good m du h arenas b aid (stake_bot aid n i sd f px tokens usd T)" by (rule e(1))
  have "coin_total arenas f' (stake_bot aid n i sd f px tokens usd T) = coin_total arenas f' T" for f'
  proof (cases "f' = f")
    case True
    have "own_px T2 aid f = px" "usd * (1 - FEE) / px = tokens * (1 - FEE)"
      using g2(3) assms(6,7,9) by simp_all
    then show ?thesis using e(4) [of f] g2(4) [of f] c1 [of f] assms(8) True by (simp add: right_diff_distrib)
  next
    case False
    then show ?thesis using e(4) [of f'] g2(4) [of f'] c1 [of f'] assms(8) by simp
  qed
  then show "steady arenas aid T (stake_bot aid n i sd f px tokens usd T)"
    using e(2,3,5) g2 i1 assms(3) by (simp add: steady_def)
qed

subsection \<open>The house's staff\<close>

text \<open>What the population's operations keep of the accounts.\<close>

definition same_money :: "staff \<Rightarrow> staff \<Rightarrow> bool" where
  "same_money s s' \<longleftrightarrow> ids (accts s) \<subseteq> ids (accts s') \<and> (\<forall>f. coin_sum f (accts s') = coin_sum f (accts s))"

interpretation staffing: threaded "book_ok p" same_money for p
  by unfold_locales (auto simp: same_money_def)

lemma roots_same_money:
  assumes "book_ok p s" and "map root (accts s') = map root (accts s)" and "seq s \<le> seq s'"
    and "\<And>f. coin_sum f (accts s') = coin_sum f (accts s)"
  shows "book_ok p s' \<and> same_money s s'"
  using book_ok_cong [OF assms(1-3)] ids_roots [OF assms(2)] assms(4) by (simp add: same_money_def)

lemma crew_step:
  assumes "good m du h arenas b aid T" and "book_ok (pool h) s" and "same_money (crew T) s"
  shows "good m du h arenas b aid (T\<lparr>crew := s\<rparr>)" and "steady arenas aid T (T\<lparr>crew := s\<rparr>)"
  using book_steady [OF assms(1), of "T\<lparr>crew := s\<rparr>"] assms(2,3)
  by (simp_all add: same_money_def book_of_def)

lemma house_arena:
  assumes "house_ok h arenas" and "aid \<in> set arenas"
  shows "distinct arenas" and "\<not> fakeBank h" and "plain_name aid" and "arenaFields aid \<noteq> None"
    and "i \<in> set (pool h) \<Longrightarrow> \<not> starts_with (aid @ '':'') i"
  using assms by (auto simp: house_ok_def)

lemma book_ready: "book_ok p s \<Longrightarrow> poolAccounts p (accts s) \<noteq> []"
  by (simp add: book_ok_def pool_ready)

lemma digits_no_mark: "c \<in> set (dec_digits n) \<Longrightarrow> c \<noteq> CHR '':'' \<and> c \<noteq> CHR ''|''"
  using dec_digits_digits [of n] by (auto simp: list_all_iff is_digit_def digit_of_def)

lemma bot_id_number: "bot_id c k = bot_id aid n \<Longrightarrow> k = n"
proof -
  have t: "takeWhile (\<lambda>x. x \<noteq> CHR '':'') (rev (bot_id a j)) = rev (dec_digits j)" for a j
    using digits_no_mark [of _ j] by (simp add: bot_id_def takeWhile_append)
  assume "bot_id c k = bot_id aid n"
  then have "dec_digits k = dec_digits n" using t [of c k] t [of aid n] by simp
  then show "k = n" by (metis digits_val_dec_digits)
qed

lemma newBot_staff:
  assumes "house_ok h arenas" and "aid \<in> set arenas" and "book_ok (pool h) s"
    and "newBot h q d aid sd s = (made, s')"
  shows "book_ok (pool h) s' \<and> same_money s s'"
proof -
  let ?i = "bot_id aid (seq s + 1)"
  note ha = house_arena [OF assms(1,2)]
  have ni: "?i \<notin> ids (accts s)" using assms(3) by (simp add: book_ok_def)
  have np: "?i \<notin> set (pool h)" using ha(5) bot_id_belongs by blast
  have move: "house_move (pool h) (accts s) (accts s')"
    using newBot_move [OF assms(4) ha(2) book_ready [OF assms(3)] np] ni by (simp add: get_ids)
  then have money: "coin_sum f (accts s') = coin_sum f (accts s)" for f by (simp add: house_move_def)
  show ?thesis
  proof (cases made)
    case True
    obtain l a where n: "map root l = map root (accts s)" "ac_id a = ?i" "refBy a = None"
      "accts s' = put_account a l" "seq s' = seq s + 1"
      using newBot_made [of h q d aid sd s s'] assms(4) True by metis
    have idl: "ids l = ids (accts s)" by (rule ids_roots [OF n(1)])
    have put: "accts s' = l @ [a]"
      using ni idl n(2,4) get_ids [of l ?i]
      by (simp add: put_account_def get_def find_find_index)
    have bar: "CHR ''|'' \<notin> set ?i"
      using ha(3) digits_no_mark [of _ "seq s + 1"] by (auto simp: bot_id_def plain_name_def)
    have l: "book_ok (pool h) (s\<lparr>accts := l\<rparr>)" by (rule book_ok_cong [OF assms(3)]) (simp_all add: n(1))
    have "bot_id c k \<noteq> ?i" if "k > seq s + 1" for c k
      using bot_id_number [of c k aid "seq s + 1"] that by auto
    then have "book_ok (pool h) s'"
      using l bar n(2,3,5) ni [folded idl] by (auto simp: book_ok_def put ids_def refs_ok_def)
    moreover have "ids (accts s) \<subseteq> ids (accts s')" using idl by (auto simp: put ids_def)
    ultimately show ?thesis using money by (simp add: same_money_def)
  next
    case False
    then have "map root (accts s') = map root (accts s)" "seq s \<le> seq s'"
      using assms(4) roots.view_fund roots.view_return
      by (auto simp: newBot_def Let_def split: if_splits prod.splits)
    then show ?thesis using roots_same_money [OF assms(3)] money by blast
  qed
qed

lemma botsFor_staff:
  assumes "botsFor aid s = (js, s')" and "book_ok p s"
  shows "book_ok p s'" and "same_money s s'" and "i \<in> set js \<Longrightarrow> i \<in> ids (accts s) \<and> starts_with (aid @ '':'') i"
proof -
  have same: "accts s' = accts s" "seq s' = seq s" using botsFor_rest [OF assms(1)] by auto
  then show "book_ok p s'" "same_money s s'" using assms(2) by (simp_all add: book_ok_def same_money_def)
  have "set js \<subseteq> set (map ac_id (filter (belongs aid) (accts s)))"
    using assms(1) rotation_subset [of _ "map ac_id (filter (belongs aid) (accts s))"]
    by (auto simp: botsFor_def Let_def simp del: set_map set_append split: if_splits)
  then show "i \<in> set js \<Longrightarrow> i \<in> ids (accts s) \<and> starts_with (aid @ '':'') i"
    by (auto simp: ids_def belongs_def)
qed

lemma fill_side_staff:
  assumes "house_ok h arenas" and "aid \<in> set arenas"
  shows "book_ok (pool h) s \<Longrightarrow> book_ok (pool h) (fill_side h q k aid sd g s) \<and> same_money s (fill_side h q k aid sd g s)"
proof (induction g arbitrary: s)
  case 0
  obtain a b where "botsFor aid s = (a, b)" by fastforce
  then show ?case using botsFor_staff(1,2) [OF _ 0] by simp
next
  case (Suc g)
  obtain js s1 where b: "botsFor aid s = (js, s1)" by fastforce
  obtain made s2 where n: "newBot h q (lk_dice k (seq s1)) aid sd s1 = (made, s2)" by fastforce
  have 1: "book_ok (pool h) s1" "same_money s s1" using botsFor_staff(1,2) [OF b Suc.prems] by auto
  have 2: "book_ok (pool h) s2" "same_money s s2"
    using newBot_staff [OF assms 1(1) n] staffing.rel_trans [OF 1(2)] by blast+
  have eq: "fill_side h q k aid sd (Suc g) s =
      (if length (filter (\<lambda>i. side_of (accts s1) i = sd) js) < MIN_PER_SIDE h
       then if made then fill_side h q k aid sd g s2 else s2 else s1)"
    by (simp add: b n)
  have "book_ok (pool h) (fill_side h q k aid sd g s2) \<and> same_money s (fill_side h q k aid sd g s2)"
    using Suc.IH [OF 2(1)] staffing.rel_trans [OF 2(2)] by blast
  then show ?case unfolding eq using 1 2 by simp
qed

lemma recruit_staff:
  assumes "house_ok h arenas" and "aid \<in> set arenas"
  shows "book_ok (pool h) s \<Longrightarrow>
    book_ok (pool h) (recruit h q k aid target s) \<and> same_money s (recruit h q k aid target s)"
  using assms
proof (induction h q k aid target s rule: recruit.induct)
  case (1 h q k aid target s)
  have scans: "staffing.leads (pool h) u (snd (botsFor aid u))" for u
    using botsFor_staff(1,2) [OF surjective_pairing] by (simp add: staffing.leads_def)
  define s1 where "s1 = snd (botsFor aid s)"
  define s3 where "s3 = snd (botsFor aid (snd (botsFor aid s1)))"
  have l1: "staffing.leads (pool h) s s1" unfolding s1_def by (rule scans)
  have l3: "staffing.leads (pool h) s s3"
    unfolding s3_def by (rule staffing.leads_trans [OF l1 staffing.leads_trans [OF scans scans]])
  define sd where "sd = lesser_side (accts s3) (fst (botsFor aid s1)) (fst (botsFor aid (snd (botsFor aid s1))))"
  define u where "u = newBot h q (lk_dice k (seq s3)) aid sd s3"
  have eq: "recruit h q k aid target s =
      (if of_nat (length (fst (botsFor aid s))) < target
       then if fst u then recruit h q k aid target (snd u) else snd u else s1)"
    by (subst recruit.simps) (simp add: Let_def s1_def s3_def sd_def u_def)
  have nb: "staffing.leads (pool h) s3 (snd u)"
    using newBot_staff [OF 1(3,4), of s3 q "lk_dice k (seq s3)" sd "fst u" "snd u"]
    by (simp add: staffing.leads_def u_def)
  have su: "staffing.leads (pool h) s (snd u)" by (rule staffing.leads_trans [OF l3 nb])
  have IH: "staffing.leads (pool h) (snd u) (recruit h q k aid target (snd u))"
    if "of_nat (length (fst (botsFor aid s))) < target" "fst u"
    using 1(1) [OF s1_def that(1) refl s3_def sd_def u_def that(2)] 1(3,4)
    by (auto simp: staffing.leads_def)
  have "staffing.leads (pool h) s (recruit h q k aid target s)"
    using staffing.leads_trans [OF su IH] su l1 by (simp add: eq)
  then show ?case using 1(2) by (simp add: staffing.leads_def)
qed

end
