(* ===== verification/Engine_Conserve.thy ===== *)
theory Engine_Conserve
  imports Engine_Escrow
begin

text \<open>
  Every operation of the arenas conserves each coin: the population's, the answer of the house, the
  house's entries, a player's entry, the settlement, the pass of the loop. Then what does not: a
  referral paid in the wrong coin, and the refund of open rounds.
\<close>

subsection \<open>The population\<close>

lemma skim_roots: "map root (skim h q i f l) = map root l"
  by (auto simp: skim_def Let_def roots.view_return roots.view_upd split: option.split)

lemma level_roots: "map root (level_one h q i l) = map root l"
  by (auto simp: level_one_def skim_roots split: option.split)

lemma levelBots_roots: "map root (levelBots h q l) = map root l"
  by (simp add: levelBots_def roots.view_fold level_roots)

lemma capPopulation_staff:
  assumes "house_ok h arenas" and "aid \<in> set arenas" and "book_ok (pool h) s"
  shows "book_ok (pool h) (capPopulation h q aid s) \<and> same_money s (capPopulation h q aid s)"
proof (rule roots_same_money [OF assms(3)])
  note ha = house_arena [OF assms(1,2)]
  have d: "distinct (map ac_id (accts s))" using assms(3) by (simp add: book_ok_def)
  have "house_move (pool h) (accts s) (accts (capPopulation h q aid s))"
    by (rule capPopulation_move [OF d book_ready [OF assms(3)]]) (use ha(5) in blast)
  then show "coin_sum f (accts (capPopulation h q aid s)) = coin_sum f (accts s)" for f by (rule house_moveD)
  obtain js s1 where b: "botsFor aid s = (js, s1)" by fastforce
  have "accts s1 = accts s" "seq s1 = seq s" using botsFor_rest [OF b] by auto
  then show "map root (accts (capPopulation h q aid s)) = map root (accts s)"
    "seq s \<le> seq (capPopulation h q aid s)"
    by (simp_all add: capPopulation_def b Let_def roots.view_fold retire_roots)
qed

lemma total_frozen_bal:
  assumes "\<And>a. ac_id (g a) = ac_id a" and "\<And>f a. bal f (g a) = bal f a"
  shows "coin_sum f (upd i g l) = coin_sum f l"
proof (cases "get l i")
  case None
  then show ?thesis by (auto simp: get_def find_find_index upd_def)
next
  case (Some a)
  then show ?thesis using total_upd [OF Some, of f g] assms(2) by simp
qed

lemma bal_side [simp]: "bal f (a\<lparr>ac_side := sd\<rparr>) = bal f a"
  by (cases f) simp_all

lemma review_bot_staff:
  assumes "house_ok h arenas" and "aid \<in> set arenas" and "book_ok (pool h) s" and "starts_with (aid @ '':'') i"
    and "house_id (pool h) i (accts s)"
  shows "book_ok (pool h) (review_bot h q aid i s) \<and> same_money s (review_bot h q aid i s)"
proof (cases "get (accts s) i")
  case None
  then show ?thesis using assms(3) by (simp add: review_bot_def same_money_def)
next
  case (Some a)
  have np: "i \<notin> set (pool h)" using house_arena(5) [OF assms(1,2)] assms(4) by blast
  define l where "l = (\<lambda>c sd. if c then upd i (\<lambda>a. a\<lparr>ac_side := sd\<rparr>) (accts s) else accts s)"
  have l: "map root (l c sd) = map root (accts s)" "coin_sum f (l c sd) = coin_sum f (accts s)"
    "poolAccounts (pool h) (l c sd) \<noteq> []" "house_id (pool h) i (l c sd)" for c sd f
    using book_ready [OF assms(3)] assms(5)
    by (simp_all add: l_def upd_keeps total_frozen_bal poolAccounts_upd house_id_upd)
  have "coin_sum f (retireBot h i (l c sd)) = coin_sum f (accts s)" for c sd f
    using house_moveD(3) [OF retiring.op_move [OF l(3) np l(4)]] l(2) by simp
  moreover have "map root (retireBot h i (l c sd)) = map root (accts s)" for c sd by (simp add: retire_roots l)
  moreover have "\<exists>c sd. (accts (review_bot h q aid i s) = l c sd \<or> accts (review_bot h q aid i s) = retireBot h i (l c sd)) \<and>
      seq (review_bot h q aid i s) = seq s"
  proof -
    define usdA where "usdA = bal (fst (fields_of aid)) a * px_safe q (fst (fields_of aid))"
    define usdB where "usdB = bal (snd (fields_of aid)) a * px_safe q (snd (fields_of aid))"
    define want where "want = (if usdA \<ge> usdB then Bull else Uwu)"
    define c where "c \<longleftrightarrow> ac_side a \<noteq> want \<and> max usdA usdB \<ge> BUST_USD h"
    define own where "own = slot (fields_of aid) (ac_side a)"
    define s1 where "s1 = (if c then s\<lparr>accts := upd i (\<lambda>a. a\<lparr>ac_side := want\<rparr>) (accts s)\<rparr> else s)"
    have "review_bot h q aid i s =
        (if bal own a * px_safe q own < BUST_USD h
         then s1\<lparr>accts := retireBot h i (accts s1),
                 bustedCount := (bustedCount s1)(arenaEco aid := bustedCount s1 (arenaEco aid) + 1)\<rparr>
         else s1)"
      unfolding review_bot_def Some option.case Let_def s1_def c_def want_def usdA_def usdB_def own_def by (rule refl)
    moreover have "accts s1 = l c want" "seq s1 = seq s" by (simp_all add: s1_def l_def)
    ultimately show ?thesis by (intro exI [of _ c] exI [of _ want]) simp
  qed
  ultimately show ?thesis
    using l(1,2) roots_same_money [OF assms(3), of "review_bot h q aid i s"] by force
qed

text \<open>A review leaves who is of the house alone, so it can go through the whole roster.\<close>

lemma review_bot_faces:
  "map (\<lambda>a. (ac_id a, isBot a)) (accts (review_bot h q aid i s)) = map (\<lambda>a. (ac_id a, isBot a)) (accts s)"
proof -
  have r: "map (\<lambda>a. (ac_id a, isBot a)) (upd i g l) = map (\<lambda>a. (ac_id a, isBot a)) l"
    if "\<And>a. ac_id (g a) = ac_id a" "\<And>a. isBot (g a) = isBot a" for g l
  proof (cases "find_index (\<lambda>a. ac_id a = i) l")
    case (Some k)
    then have "k < length l" using find_index_SomeD by blast
    then have "map (\<lambda>a. (ac_id a, isBot a)) (l[k := g (l ! k)]) = map (\<lambda>a. (ac_id a, isBot a)) l"
      by (simp add: map_update that) (metis (no_types, lifting) list_update_id map_update)
    then show ?thesis using Some by (simp add: upd_def)
  qed (simp add: upd_def)
  have f: "map (\<lambda>a. (ac_id a, isBot a)) (return_all h f i l) = map (\<lambda>a. (ac_id a, isBot a)) l" for f l
  proof -
    have "map (\<lambda>x. (fst x, fst (snd x))) (map face (return_all h f i l)) = map (\<lambda>x. (fst x, fst (snd x))) (map face l)"
      by (simp only: faces.view_return_all)
    then show ?thesis by (simp add: face_def comp_def)
  qed
  have "map (\<lambda>a. (ac_id a, isBot a)) (retireBot h i l) = map (\<lambda>a. (ac_id a, isBot a)) l" for l
    by (simp add: retireBot_def r f)
  then show ?thesis
    by (auto simp: review_bot_def Let_def r split: option.split)
qed

lemma house_id_faces:
  assumes "map (\<lambda>a. (ac_id a, isBot a)) l' = map (\<lambda>a. (ac_id a, isBot a)) l"
  shows "house_id p i l' = house_id p i l"
proof -
  have "map_option isBot (get xs i) = map_of (map (\<lambda>a. (ac_id a, isBot a)) xs) i" for xs
    by (induction xs) (auto simp: get_def)
  then have "map_option isBot (get l' i) = map_option isBot (get l i)" using assms by simp
  then show ?thesis by (auto simp: house_id_def split: option.splits)
qed

lemma review_all_staff:
  assumes "house_ok h arenas" and "aid \<in> set arenas"
    and "\<forall>i\<in>set js. starts_with (aid @ '':'') i \<and> house_id (pool h) i (accts s)" and "book_ok (pool h) s"
  shows "book_ok (pool h) (fold (review_bot h q aid) js s) \<and> same_money s (fold (review_bot h q aid) js s)"
  using assms(3,4)
proof (induction js arbitrary: s)
  case Nil
  then show ?case by (simp add: same_money_def)
next
  case (Cons i js)
  have 1: "book_ok (pool h) (review_bot h q aid i s)" "same_money s (review_bot h q aid i s)"
    using review_bot_staff [OF assms(1,2)] Cons.prems by simp_all
  have "\<forall>j\<in>set js. starts_with (aid @ '':'') j \<and> house_id (pool h) j (accts (review_bot h q aid i s))"
    using Cons.prems(1) house_id_faces [OF review_bot_faces] by simp
  from Cons.IH [OF this 1(1)] show ?case using staffing.rel_trans [OF 1(2)] by simp
qed

subsection \<open>The house answers\<close>

lemma good_book: "good m du h arenas b aid T \<Longrightarrow> book_ok (pool h) (crew T)"
  by (simp add: good_def table_ok_def)

lemma good_pipe: "good m du h arenas b aid T \<Longrightarrow> i \<in> ids (book_of T) \<Longrightarrow> CHR ''|'' \<notin> set i"
  using good_book [of m du h arenas b aid T] by (simp add: book_ok_def book_of_def)

lemma scan_step:
  assumes "good m du h arenas b aid T" and "scan aid T = (js, T')"
  shows "good m du h arenas b aid T'" and "steady arenas aid T T'" and "i \<in> set js \<Longrightarrow> i \<in> ids (book_of T)"
    and "runners T' = runners T" and "book_of T' = book_of T"
proof -
  obtain s where s: "botsFor aid (crew T) = (js, s)" "T' = T\<lparr>crew := s\<rparr>"
    using assms(2) by (auto simp: scan_def split: prod.splits)
  note b = botsFor_staff [OF s(1) good_book [OF assms(1)]]
  show "good m du h arenas b aid T'" "steady arenas aid T T'" using crew_step [OF assms(1) b(1,2)] s(2) by simp_all
  show "i \<in> set js \<Longrightarrow> i \<in> ids (book_of T)" using b(3) by (simp add: book_of_def)
  show "runners T' = runners T" "book_of T' = book_of T"
    using botsFor_rest [OF s(1)] s(2) by (simp_all add: book_of_def)
qed

text \<open>A fighter is topped up from the pool when what it holds does not suffice.\<close>

lemma topup_step:
  assumes "good m du h arenas b aid T" and "i \<in> ids (book_of T)"
    and "(if c then drawBank (pool h) f w 1 (book_of T) else (0, book_of T)) = (drawn, l)"
  defines "T' \<equiv> on_book (\<lambda>_. if drawn > 0 then upd i (add_bal f drawn) l else l) T"
  shows "good m du h arenas b aid T'" and "steady arenas aid T T'"
proof -
  have l: "map root l = map root (book_of T)" "0 \<le> drawn"
    "coin_sum g l = coin_sum g (book_of T) - (if f = g then drawn else 0)" for g
    using assms(3) roots.view_draw drawBank_total(1) [of "pool h" f w 1 "book_of T" drawn l g] drawBank_total(2)
    by (auto split: if_splits)
  have "i \<in> ids l" using assms(2) ids_roots [OF l(1)] by simp
  then obtain a where a: "get l i = Some a" using get_ids [of l i] by auto
  have "good m du h arenas b aid (on_book (\<lambda>_. if drawn > 0 then upd i (add_bal f drawn) l else l) T) \<and>
      steady arenas aid T (on_book (\<lambda>_. if drawn > 0 then upd i (add_bal f drawn) l else l) T)"
    by (intro conjI book_keep [OF assms(1)])
      (use l total_upd_add [OF a] in \<open>auto simp: upd_keeps\<close>)
  then show "good m du h arenas b aid T'" "steady arenas aid T T'" by (simp_all add: T'_def)
qed

lemma CAP_pos [simp]: "0 < CAP" "0 < MIN_ENTRY"
  by (simp_all add: CAP_def MIN_ENTRY_def)

lemma swarm_step:
  assumes "good m du h arenas b aid T" and "distinct arenas" and "seat_view T aid = Some (Lobby, n)"
    and "i \<in> ids (book_of T)" and "0 < px" and "px = own_px T aid f" and "f = slot (fields_of aid) foe"
    and "swarm_one h k aid n foe f px spread i (idx, need, T) = (idx', need', T')"
  shows "good m du h arenas b aid T'" and "steady arenas aid T T'"
proof -
  have "good m du h arenas b aid T' \<and> steady arenas aid T T'"
  proof (cases "need \<le> MIN_ENTRY")
    case True
    then show ?thesis using assms(1,8) by (simp add: swarm_one_def steady_refl)
  next
    case False
    define want where "want = min need (need / max 1 (of_int (spread - idx)) * (6 / 10 + lk_swarm k i * (8 / 10)))"
    define have0 where "have0 = (case get (book_of T) i of None \<Rightarrow> 0 | Some a \<Rightarrow> bal f a) * px"
    obtain drawn l where d: "(if have0 < want then drawBank (pool h) f ((want - have0) / px) 1 (book_of T)
        else (0, book_of T)) = (drawn, l)" by fastforce
    define T1 where "T1 = on_book (\<lambda>_. if drawn > 0 then upd i (add_bal f drawn) l else l) T"
    have t1: "good m du h arenas b aid T1" "steady arenas aid T T1"
      unfolding T1_def by (rule topup_step [OF assms(1,4) d])+
    define give where "give = min (min want (if drawn > 0 then have0 + drawn * px else have0)) CAP"
    define T2 where "T2 = stake_bot aid n i foe f px (give / px) give T1"
    have "swarm_one h k aid n foe f px spread i (idx, need, T) =
        (if give < MIN_ENTRY then (idx + 1, need, T1)
         else (idx + 1, need - give, T2\<lparr>matchedBook := AList.update (aid, n)
          ((row_at (\<lambda>_. 0) (matchedBook T) (aid, n))(foe := row_at (\<lambda>_. 0) (matchedBook T) (aid, n) foe + give))
          (matchedBook T)\<rparr>))"
      unfolding swarm_one_def Let_def prod.case if_not_P [OF False]
      unfolding want_def [symmetric] have0_def [symmetric] d prod.case
      unfolding T1_def [symmetric] give_def [symmetric] T2_def [symmetric] by (rule refl)
    then have res: "T' = (if give < MIN_ENTRY then T1
        else T2\<lparr>matchedBook := AList.update (aid, n)
          ((row_at (\<lambda>_. 0) (matchedBook T) (aid, n))(foe := row_at (\<lambda>_. 0) (matchedBook T) (aid, n) foe + give))
          (matchedBook T)\<rparr>)"
      using assms(8) by (simp split: if_splits)
    show ?thesis
    proof (cases "give < MIN_ENTRY")
      case True
      then show ?thesis using res t1 by simp
    next
      case g: False
      have s: "i \<in> ids (book_of T1)" "seat_view T1 aid = Some (Lobby, n)" "px = own_px T1 aid f"
        using t1(2) assms(3-6) by (auto simp: steady_def)
      have "0 \<le> give" using g CAP_pos(2) by linarith
      then have "0 \<le> give / px" using assms(5) by simp
      moreover have "give = give / px * px" using assms(5) by simp
      ultimately have t2: "good m du h arenas b aid T2" "steady arenas aid T1 T2"
        unfolding T2_def
        using stake_bot_step [OF t1(1) assms(2) s(2) good_pipe [OF t1(1) s(1)] s(1) assms(5) s(3) assms(7)] by blast+
      let ?T = "T2\<lparr>matchedBook := x\<rparr>"
      have "good m du h arenas b aid (T2\<lparr>matchedBook := x\<rparr>) \<and> steady arenas aid T (T2\<lparr>matchedBook := x\<rparr>)" for x
        using core_steady [of "T2\<lparr>matchedBook := x\<rparr>" T2] t2 steady_trans [OF t1(2) steady_trans [OF t2(2)]] by simp
      then show ?thesis using res g by simp
    qed
  qed
  then show "good m du h arenas b aid T'" "steady arenas aid T T'" by blast+
qed

lemma steady_ready:
  assumes "steady arenas aid T T'" and "seat_view T aid = Some (Lobby, n)"
  shows "seat_view T' aid = Some (Lobby, n)" and "i \<in> ids (book_of T) \<Longrightarrow> i \<in> ids (book_of T')"
    and "0 < px \<Longrightarrow> px = own_px T aid f \<Longrightarrow> px = own_px T' aid f"
  using assms by (auto simp: steady_def)

lemma lobby_runner:
  "runners T aid = Some r \<Longrightarrow> phase (state r) = Lobby \<Longrightarrow> seat_view T aid = Some (Lobby, rs_round (state r))"
  by (simp add: seat_view_def)

lemma matchPlayerStake_step:
  assumes "good m du h arenas b aid T" and "distinct arenas" and "b \<le> 31"
  shows "good m du h arenas b aid (matchPlayerStake h q k aid sd usd T) \<and>
    steady arenas aid T (matchPlayerStake h q k aid sd usd T)"
proof (cases "runners T aid")
  case None
  then show ?thesis using assms by (simp add: matchPlayerStake_def steady_refl)
next
  case (Some rn)
  show ?thesis
  proof (cases "phase (state rn) = Lobby")
    case False
    then show ?thesis using Some assms by (simp add: matchPlayerStake_def steady_refl)
  next
    case ph: True
    define n where "n = rs_round (state rn)"
    define foe where "foe = other_side sd"
    define f where "f = slot (fields_of aid) foe"
    have lv: "seat_view T aid = Some (Lobby, n)" using lobby_runner [OF Some ph] by (simp add: n_def)
    obtain px T1 where p: "pxForRound q aid n f T = (px, T1)" by fastforce
    note s1 = px_step [OF p lv assms(1,3)]
    define T2 where "T2 = T1\<lparr>matchedBook := ensure_key (aid, n) (\<lambda>_. 0) (matchedBook T1)\<rparr>"
    define need where "need = usd * MATCH_RATIO h - row_at (\<lambda>_. 0) (matchedBook T2) (aid, n) foe"
    obtain js T3 where sc: "scan aid T2 = (js, T3)" by fastforce
    define roster where "roster = filter (\<lambda>i. \<not> is_in T3 aid foe i) js @ filter (is_in T3 aid foe) js"
    define spread where "spread = max 1 (min (int (length roster)) (SWARM_SIZE h))"
    have eq: "matchPlayerStake h q k aid sd usd T =
        (if \<not> px > 0 then T1 else if need \<le> MIN_ENTRY then T2
         else snd (snd (fold (swarm_one h k aid n foe f px spread) roster (0, need, T3))))"
      unfolding matchPlayerStake_def Some option.case Let_def n_def [symmetric] foe_def [symmetric] f_def [symmetric]
        p prod.case T2_def [symmetric] need_def [symmetric] sc roster_def [symmetric] spread_def [symmetric]
      using ph by simp
    have s2: "good m du h arenas b aid T2" "steady arenas aid T T2"
      using core_steady [of T2 T1] s1(1,2) steady_trans by (auto simp: T2_def)
    note s3 = scan_step [OF s2(1) sc]
    have s03: "steady arenas aid T T3" by (rule steady_trans [OF s2(2) s3(2)])
    show ?thesis
    proof (cases "px > 0 \<and> \<not> need \<le> MIN_ENTRY")
      case True
      have px1: "px = own_px T1 aid f" using s1(3) True by simp
      have px3: "px = own_px T3 aid f"
        using px1 True steady_ready(3) [OF s3(2)] core_cong(3) [of T2 T1] lv s2(2)
        by (simp add: T2_def steady_def)
      have lv3: "seat_view T3 aid = Some (Lobby, n)" using s03 lv by (simp add: steady_def)
      have "good m du h arenas b aid (snd (snd (fold (swarm_one h k aid n foe f px spread) roster (0, need, T3)))) \<and>
        steady arenas aid T3 (snd (snd (fold (swarm_one h k aid n foe f px spread) roster (0, need, T3))))"
      proof (rule steps.fold_leads [where st = "\<lambda>a. snd (snd a)"])
        fix i and a :: "int \<times> rat \<times> tables"
        assume i: "i \<in> set roster" and g: "good m du h arenas b aid (snd (snd a))"
          and st: "steady arenas aid T3 (snd (snd a))"
        obtain idx nd Ta where a: "a = (idx, nd, Ta)" by (cases a)
        obtain idx' nd' Tb where e: "swarm_one h k aid n foe f px spread i a = (idx', nd', Tb)"
          by (cases "swarm_one h k aid n foe f px spread i a")
        have "i \<in> ids (book_of T3)" using i s3(3) s3(5) by (auto simp: roster_def)
        then have r: "i \<in> ids (book_of Ta)" "seat_view Ta aid = Some (Lobby, n)" "px = own_px Ta aid f"
          using st a lv3 True px3 by (auto simp: steady_def)
        show "good m du h arenas b aid (snd (snd (swarm_one h k aid n foe f px spread i a))) \<and>
            steady arenas aid (snd (snd a)) (snd (snd (swarm_one h k aid n foe f px spread i a)))"
          using swarm_step [OF _ assms(2) r(2,1) _ r(3) f_def] g e True by (simp add: a)
      qed (use s3(1) in \<open>simp_all add: steady_refl\<close>)
      then show ?thesis using eq True steady_trans [OF s03] by simp
    next
      case False
      then show ?thesis using eq s1(1,2) s2 by auto
    qed
  qed
qed

lemma watch_book_step:
  assumes "good m du h arenas b aid T" and "distinct arenas" and "b \<le> 31"
  shows "good m du h arenas b aid (watch_book h q k aid T) \<and> steady arenas aid T (watch_book h q k aid T)"
proof -
  have side: "steps.leads m du h arenas b aid U (watch_side h q k aid es sd U)" for es sd U
    using matchPlayerStake_step [OF _ assms(2,3)] by (simp add: steps.leads_def watch_side_def Let_def steady_refl)
  have "steps.leads m du h arenas b aid T (watch_book h q k aid T)"
    using steps.leads_refl steps.leads_trans [OF side side] by (auto simp: watch_book_def split: option.split)
  then show ?thesis using assms(1) by (simp add: steps.leads_def)
qed

subsection \<open>The house's own entries\<close>

lemma minimum_step:
  assumes "good m du h arenas b aid T" and "house_ok h arenas" and "distinct arenas"
    and "seat_view T aid = Some (Lobby, n)" and "i \<in> ids (book_of T)" and "0 < px" and "px = own_px T aid f"
    and "f = slot (fields_of aid) sd" and "minimum_one h aid n sd f px i (have0, T) = (have', T')"
  shows "good m du h arenas b aid T'" and "steady arenas aid T T'"
proof -
  have "good m du h arenas b aid T' \<and> steady arenas aid T T'"
  proof (cases "have0 \<ge> MIN_PER_SIDE h \<or> is_in T aid sd i")
    case True
    then show ?thesis using assms(1,9) by (auto simp: minimum_one_def steady_refl split: if_splits)
  next
    case False
    define minUsd where "minUsd = BOT_STAKE_USD_MIN h"
    define held where "held = hold_of f (book_of T) i * px"
    obtain drawn l where d: "(if held < minUsd then drawBank (pool h) f ((minUsd - held) / px) 1 (book_of T)
        else (0, book_of T)) = (drawn, l)" by fastforce
    define T1 where "T1 = on_book (\<lambda>_. if drawn > 0 then upd i (add_bal f drawn) l else l) T"
    have t1: "good m du h arenas b aid T1" "steady arenas aid T T1"
      unfolding T1_def by (rule topup_step [OF assms(1,5) d])+
    have c: "\<not> have0 \<ge> MIN_PER_SIDE h" "\<not> is_in T aid sd i" using False by auto
    have "minimum_one h aid n sd f px i (have0, T) =
        (if (if drawn > 0 then held + drawn * px else held) < minUsd then (have0, T1)
         else (have0 + 1, stake_bot aid n i sd f px (minUsd / px) minUsd T1))"
      unfolding minimum_one_def Let_def prod.case if_not_P [OF c(1)] if_not_P [OF c(2)]
      unfolding minUsd_def [symmetric] held_def [symmetric] d prod.case
      unfolding T1_def [symmetric] by (rule refl)
    then have res: "T' = T1 \<or> T' = stake_bot aid n i sd f px (minUsd / px) minUsd T1"
      using assms(9) by (simp split: if_splits)
    have s: "i \<in> ids (book_of T1)" "seat_view T1 aid = Some (Lobby, n)" "px = own_px T1 aid f"
      using t1(2) assms(4-7) by (auto simp: steady_def)
    have "0 \<le> minUsd / px" "minUsd = minUsd / px * px"
      using assms(2,6) by (simp_all add: house_ok_def minUsd_def)
    then have t2: "good m du h arenas b aid (stake_bot aid n i sd f px (minUsd / px) minUsd T1)"
      "steady arenas aid T1 (stake_bot aid n i sd f px (minUsd / px) minUsd T1)"
      using stake_bot_step [OF t1(1) assms(3) s(2) good_pipe [OF t1(1) s(1)] s(1) assms(6) s(3) assms(8)] by blast+
    show ?thesis using res t1 t2 steady_trans [OF t1(2) t2(2)] by auto
  qed
  then show "good m du h arenas b aid T'" "steady arenas aid T T'" by blast+
qed

lemma minimum_side_step:
  assumes "good m du h arenas b aid T" and "house_ok h arenas" and "b \<le> 31" and "aid \<in> set arenas"
    and "seat_view T aid = Some (Lobby, n)"
  shows "good m du h arenas b aid (minimum_side h q k aid sd T) \<and> steady arenas aid T (minimum_side h q k aid sd T)"
proof -
  have dist: "distinct arenas" using assms(2) by (simp add: house_ok_def)
  obtain rn where rn: "runners T aid = Some rn" "rs_round (state rn) = n"
    using assms(5) by (auto simp: seat_view_Some)
  define f where "f = slot (fields_of aid) sd"
  obtain px T1 where p: "pxForRound q aid n f T = (px, T1)" by fastforce
  note s1 = px_step [OF p assms(5,1,3)]
  define have0 where "have0 = count_side sd (entries (state rn))"
  define T2 where "T2 = T1\<lparr>crew := fill_side h q k aid sd (MIN_PER_SIDE h * 2) (crew T1)\<rparr>"
  obtain js T3 where sc: "scan aid T2 = (js, T3)" by fastforce
  have eq: "minimum_side h q k aid sd T =
      (if \<not> px > 0 \<or> have0 \<ge> MIN_PER_SIDE h then T1 else snd (fold (minimum_one h aid n sd f px) js (have0, T3)))"
    unfolding minimum_side_def rn option.case Let_def f_def [symmetric] p prod.case have0_def [symmetric]
      T2_def [symmetric] sc by simp
  have f2: "book_ok (pool h) (crew T2)" "same_money (crew T1) (crew T2)"
    using fill_side_staff [OF assms(2,4) good_book [OF s1(1)]] by (simp_all add: T2_def)
  have s2: "good m du h arenas b aid T2" "steady arenas aid T1 T2"
    using crew_step [OF s1(1) f2] by (simp_all add: T2_def)
  note s3 = scan_step [OF s2(1) sc]
  have s13: "steady arenas aid T1 T3" by (rule steady_trans [OF s2(2) s3(2)])
  show ?thesis
  proof (cases "px > 0 \<and> \<not> have0 \<ge> MIN_PER_SIDE h")
    case True
    have lv1: "seat_view T1 aid = Some (Lobby, n)" using s1(2) assms(5) by (simp add: steady_def)
    have px3: "px = own_px T3 aid f" "seat_view T3 aid = Some (Lobby, n)"
      using s1(3) True steady_ready(1,3) [OF s13 lv1] by auto
    have "good m du h arenas b aid (snd (fold (minimum_one h aid n sd f px) js (have0, T3))) \<and>
        steady arenas aid T3 (snd (fold (minimum_one h aid n sd f px) js (have0, T3)))"
    proof (rule steps.fold_leads [where st = snd])
      fix i and a :: "nat \<times> tables"
      assume i: "i \<in> set js" and g: "good m du h arenas b aid (snd a)" and st: "steady arenas aid T3 (snd a)"
      obtain c Ta where a: "a = (c, Ta)" by (cases a)
      obtain c' Tb where e: "minimum_one h aid n sd f px i a = (c', Tb)" by fastforce
      have "i \<in> ids (book_of T3)" using i s3(3,5) by simp
      then have r: "i \<in> ids (book_of Ta)" "seat_view Ta aid = Some (Lobby, n)" "px = own_px Ta aid f"
        using st a px3 True by (auto simp: steady_def)
      show "good m du h arenas b aid (snd (minimum_one h aid n sd f px i a)) \<and>
          steady arenas aid (snd a) (snd (minimum_one h aid n sd f px i a))"
        using minimum_step [OF _ assms(2) dist r(2,1) _ r(3) f_def] g e True by (simp add: a)
    qed (use s3(1) in \<open>simp_all add: steady_refl\<close>)
    then show ?thesis using eq True steady_trans [OF steady_trans [OF s1(2) s13]] by simp
  next
    case False
    then show ?thesis using eq s1(1,2) by auto
  qed
qed

lemma ensureMinimumEntries_step:
  assumes "good m du h arenas b aid T" and "house_ok h arenas" and "b \<le> 31" and "aid \<in> set arenas"
  shows "good m du h arenas b aid (ensureMinimumEntries h q k aid T) \<and>
    steady arenas aid T (ensureMinimumEntries h q k aid T)"
proof (cases "in_lobby aid T")
  case True
  then obtain rn where rn: "runners T aid = Some rn" "phase (state rn) = Lobby"
    by (auto simp: in_lobby_def split: option.splits)
  note lv = lobby_runner [OF rn]
  note s1 = minimum_side_step [OF assms lv, of q k Bull]
  define S where "S = minimum_side h q k aid Bull T"
  have s2: "good m du h arenas b aid (minimum_side h q k aid Uwu S) \<and> steady arenas aid S (minimum_side h q k aid Uwu S)"
  proof (rule minimum_side_step [OF _ assms(2-4)])
    show "good m du h arenas b aid S" using s1 by (simp add: S_def)
    show "seat_view S aid = Some (Lobby, rs_round (state rn))"
      by (rule steady_ready(1) [OF conjunct2 [OF s1 [folded S_def]] lv])
  qed
  have "ensureMinimumEntries h q k aid T = minimum_side h q k aid Uwu S"
    using rn by (simp add: ensureMinimumEntries_def S_def)
  then show ?thesis using s2 steady_trans [OF conjunct2 [OF s1 [folded S_def]]] by simp
next
  case False
  then show ?thesis
    using assms(1) by (auto simp: ensureMinimumEntries_def in_lobby_def steady_refl split: option.splits)
qed

lemma min_stake_le: "\<not> (\<not> mn > 0 \<or> stake < mn) \<Longrightarrow> 0 \<le> (stake :: rat)"
  by linarith

lemma bot_enters_step:
  assumes "good m du h arenas b aid T" and "house_ok h arenas" and "b \<le> 31"
    and "seat_view T aid = Some (Lobby, n)"
  shows "good m du h arenas b aid (bot_enters h q k aid n i T) \<and> steady arenas aid T (bot_enters h q k aid n i T)"
proof (cases "get (book_of T) i")
  case None
  then show ?thesis using assms(1) by (simp add: bot_enters_def steady_refl)
next
  case (Some a)
  have dist: "distinct arenas" using assms(2) by (simp add: house_ok_def)
  have i: "i \<in> ids (book_of T)" using Some get_ids [of "book_of T" i] by auto
  define sd where "sd = chosen_side h q k (fields_of aid) a"
  define f where "f = slot (fields_of aid) sd"
  define T1 where "T1 = on_book (upd i (\<lambda>a. a\<lparr>ac_side := sd\<rparr>)) T"
  define mn where "mn = min_stake h q f"
  define stake where "stake = stake_size h k mn (bal f a) a"
  obtain px T2 where p: "pxForRound q aid n f T1 = (px, T2)" by fastforce
  define skip where "skip \<longleftrightarrow> PLAY_MAX h = 0 \<and> lk_skip k i < (case ac_skip a of None \<Rightarrow> 1 / 4 | Some s \<Rightarrow> s)"
  have eq: "bot_enters h q k aid n i T =
      (if skip then T else if \<not> mn > 0 \<or> stake < mn then T1
       else if \<not> stake * px > 0 then T2 else stake_bot aid n i sd f px stake (stake * px) T2)"
    unfolding bot_enters_def Some option.case skip_def [symmetric] Let_def sd_def [symmetric] f_def [symmetric]
      T1_def [symmetric] mn_def [symmetric] stake_def [symmetric] p prod.case by (rule refl)
  have s1: "good m du h arenas b aid T1" "steady arenas aid T T1"
    unfolding T1_def by (rule book_keep [OF assms(1)]; simp add: upd_keeps total_frozen_bal)+
  have lv1: "seat_view T1 aid = Some (Lobby, n)" by (rule steady_ready [OF s1(2) assms(4)])
  note s2 = px_step [OF p lv1 s1(1) assms(3)]
  have s02: "steady arenas aid T T2" by (rule steady_trans [OF s1(2) s2(2)])
  have s3: "good m du h arenas b aid (stake_bot aid n i sd f px stake (stake * px) T2) \<and>
      steady arenas aid T2 (stake_bot aid n i sd f px stake (stake * px) T2)"
    if pos: "\<not> (\<not> mn > 0 \<or> stake < mn)" "stake * px > 0"
  proof -
    have z: "0 \<le> stake" by (rule min_stake_le [OF pos(1)])
    then have px: "0 < px" using pos(2) by (simp add: zero_less_mult_iff)
    have i2: "i \<in> ids (book_of T2)" by (rule steady_ready(2) [OF s02 assms(4) i])
    have lv2: "seat_view T2 aid = Some (Lobby, n)" by (rule steady_ready(1) [OF s02 assms(4)])
    have own: "px = own_px T2 aid f" using s2(3) [OF px] by simp
    show ?thesis
      using stake_bot_step [OF s2(1) dist lv2 good_pipe [OF s2(1) i2] i2 px own f_def refl z] by blast
  qed
  then have s4: "good m du h arenas b aid (stake_bot aid n i sd f px stake (stake * px) T2) \<and>
      steady arenas aid T (stake_bot aid n i sd f px stake (stake * px) T2)"
    if "\<not> (\<not> mn > 0 \<or> stake < mn)" "stake * px > 0"
    using that steady_trans [OF s02] by blast
  consider "bot_enters h q k aid n i T = T" | "bot_enters h q k aid n i T = T1" | "bot_enters h q k aid n i T = T2"
    | "\<not> (\<not> mn > 0 \<or> stake < mn)" "stake * px > 0"
      "bot_enters h q k aid n i T = stake_bot aid n i sd f px stake (stake * px) T2"
    using eq by (cases skip; cases "\<not> mn > 0 \<or> stake < mn"; cases "stake * px > 0"; simp only: if_True if_False simp_thms)
  then show ?thesis
  proof cases
    case 4
    show ?thesis unfolding 4(3) by (rule s4 [OF 4(1,2)])
  qed (use assms(1) s1 s2(1) s02 in \<open>simp_all add: steady_refl\<close>)
qed

lemma botsEnter_step:
  assumes "good m du h arenas b aid T" and "house_ok h arenas" and "b \<le> 31" and "aid \<in> set arenas"
  shows "good m du h arenas b aid (botsEnter h q k aid T) \<and> steady arenas aid T (botsEnter h q k aid T)"
proof -
  define T1 where "T1 = T\<lparr>crew := capPopulation h q aid (crew T)\<rparr>"
  have s1: "good m du h arenas b aid T1" "steady arenas aid T T1"
    using crew_step [OF assms(1)] capPopulation_staff [OF assms(2,4) good_book [OF assms(1)]] by (auto simp: T1_def)
  obtain js T2 where sc: "scan aid T1 = (js, T2)" by fastforce
  note s2 = scan_step [OF s1(1) sc]
  show ?thesis
  proof (cases "in_lobby aid T1")
    case True
    then obtain rn where rn: "runners T1 aid = Some rn" "phase (state rn) = Lobby"
      by (auto simp: in_lobby_def split: option.splits)
    define who where "who = (if PLAY_MAX h > 0 then entrants h k (human_usd (entries (state rn))) (book_of T2) js else js)"
    have eq: "botsEnter h q k aid T = fold (bot_enters h q k aid (rs_round (state rn))) who T2"
      using rn(2) unfolding botsEnter_def Let_def T1_def [symmetric] rn(1) option.case sc prod.case who_def
      by simp
    have lv: "seat_view T2 aid = Some (Lobby, rs_round (state rn))"
      by (rule steady_ready(1) [OF s2(2) lobby_runner [OF rn]])
    have "good m du h arenas b aid (fold (bot_enters h q k aid (rs_round (state rn))) who T2) \<and>
        steady arenas aid T2 (fold (bot_enters h q k aid (rs_round (state rn))) who T2)"
    proof (rule steps.fold_leads [where st = "\<lambda>x. x"])
      fix i Ta assume "good m du h arenas b aid Ta" "steady arenas aid T2 Ta"
      then show "good m du h arenas b aid (bot_enters h q k aid (rs_round (state rn)) i Ta) \<and>
          steady arenas aid Ta (bot_enters h q k aid (rs_round (state rn)) i Ta)"
        using bot_enters_step [OF _ assms(2,3) steady_ready(1) [OF _ lv]] by blast
    qed (use s2(1) in \<open>simp_all add: steady_refl\<close>)
    then show ?thesis using eq steady_trans [OF s1(2) steady_trans [OF s2(2)]] by simp
  next
    case False
    then have "botsEnter h q k aid T = T1"
      by (auto simp: botsEnter_def T1_def in_lobby_def split: option.splits)
    then show ?thesis using s1 by simp
  qed
qed

lemma open_lobby_step:
  assumes "good m du h arenas b aid T" and "house_ok h arenas" and "b \<le> 31" and "aid \<in> set arenas"
  shows "good m du h arenas b aid (open_lobby h q k aid T) \<and> steady arenas aid T (open_lobby h q k aid T)"
proof -
  note s1 = botsEnter_step [OF assms, of q k]
  have "good m du h arenas b aid (ensureMinimumEntries h q k aid (botsEnter h q k aid T)) \<and>
      steady arenas aid (botsEnter h q k aid T) (ensureMinimumEntries h q k aid (botsEnter h q k aid T))"
    by (rule ensureMinimumEntries_step [OF conjunct1 [OF s1] assms(2-4)])
  then show ?thesis using s1 steady_trans unfolding open_lobby_def by blast
qed

end
