(* ===== verification/Engine_Entry.thy ===== *)
theory Engine_Entry
  imports Engine_Conserve
begin

text \<open>
  A player's entry conserves every coin, as long as a referral is paid in the coin the fee was taken in.
  The handler pays it in the coin of the side's name instead; where the arena's coin is another, the entry
  mints one coin and burns the other.
\<close>

interpretation names: account_view ac_id
  by unfold_locales simp

lemma upd_subset: "set (upd i g l) \<subseteq> set l \<union> g ` set l"
proof (cases "find_index (\<lambda>a. ac_id a = i) l")
  case (Some k)
  then have "k < length l" using find_index_SomeD by blast
  then show ?thesis using Some set_update_subset_insert [of l k "g (l ! k)"] by (fastforce simp: upd_def)
qed (auto simp: upd_def)

lemma upd_ref_ok:
  assumes "book_ok p s" and "\<And>a. ac_id (g a) = ac_id a"
    and "\<And>a. refBy (g a) = refBy a \<or> (\<exists>r. refBy (g a) = Some r \<and> plain_name r)"
  shows "book_ok p (s\<lparr>accts := upd i g (accts s)\<rparr>)" and "ids (upd i g l) = ids l"
proof -
  have n: "map ac_id (upd i g xs) = map ac_id xs" for xs by (rule names.view_upd) (rule assms(2))
  show "ids (upd i g l) = ids l" by (simp only: ids_def n)
  have "refs_ok (upd i g (accts s))"
  proof -
    have "case refBy a of None \<Rightarrow> True | Some r \<Rightarrow> plain_name r" if a: "a \<in> set (upd i g (accts s))" for a
    proof -
      have old: "case refBy b of None \<Rightarrow> True | Some r \<Rightarrow> plain_name r" if "b \<in> set (accts s)" for b
        using assms(1) that by (simp add: book_ok_def refs_ok_def)
      from a upd_subset consider "a \<in> set (accts s)" | b where "b \<in> set (accts s)" "a = g b" by blast
      then show ?thesis
      proof cases
        case 2
        then show ?thesis using old [OF 2(1)] assms(3) [of b] by (auto split: option.split)
      qed (rule old)
    qed
    then show ?thesis by (simp add: refs_ok_def)
  qed
  then show "book_ok p (s\<lparr>accts := upd i g (accts s)\<rparr>)"
    using assms(1) by (simp add: book_ok_def ids_def n)
qed

lemma set_referrer_facts [simp]:
  "ac_id (set_referrer w ref a) = ac_id a" "bal f (set_referrer w ref a) = bal f a"
  by (simp add: set_referrer_def) (cases f; simp add: set_referrer_def)

lemma set_referrer_ref:
  "plain_name ref \<Longrightarrow> refBy (set_referrer w ref a) = refBy a \<or> (\<exists>r. refBy (set_referrer w ref a) = Some r \<and> plain_name r)"
  by (auto simp: set_referrer_def plain_name_def dest: in_set_takeD)

lemma referrer_plain: "book_ok p s \<Longrightarrow> referrer_of w (accts s) = Some r \<Longrightarrow> plain_name r"
proof -
  assume b: "book_ok p s" and r: "referrer_of w (accts s) = Some r"
  then obtain a where a: "get (accts s) w = Some a" "refBy a = Some r"
    by (auto simp: referrer_of_def split: option.splits)
  then have "a \<in> set (accts s)" by (auto simp: get_def find_Some_iff)
  then show ?thesis using b a(2) by (auto simp: book_ok_def refs_ok_def)
qed

lemma bal_refEarned [simp]: "bal f (a\<lparr>refEarned := x\<rparr>) = bal f a"
  by (cases f) simp_all

lemma bal_dep_side [simp]: "bal f (a\<lparr>dep := x, ac_side := y\<rparr>) = bal f a"
  by (cases f) simp_all

text \<open>The referral and the fee: where the coins go.\<close>

lemma pay_referrer_effect:
  assumes "pay_referrer sd (referrer_of w (accts s)) fee (accts s) = (rcut, l)" and "book_ok p s" and "0 \<le> fee"
  shows "book_ok p (s\<lparr>accts := l\<rparr>)" and "ids (accts s) \<subseteq> ids l" and "0 \<le> rcut" and "rcut \<le> fee"
    and "coin_sum f l = coin_sum f (accts s) + (if f = coin_of sd then rcut else 0)"
    and "referrer_of w (accts s) = None \<Longrightarrow> rcut = 0"
    and "referrer_of w (accts s) \<noteq> None \<Longrightarrow> rcut = fee / 10"
proof -
  show "referrer_of w (accts s) \<noteq> None \<Longrightarrow> rcut = fee / 10"
    using assms(1) by (auto simp: pay_referrer_def Let_def)
  have "book_ok p (s\<lparr>accts := l\<rparr>) \<and> ids (accts s) \<subseteq> ids l \<and> 0 \<le> rcut \<and> rcut \<le> fee \<and>
    coin_sum f l = coin_sum f (accts s) + (if f = coin_of sd then rcut else 0) \<and>
    (referrer_of w (accts s) = None \<longrightarrow> rcut = 0)"
  proof (cases "referrer_of w (accts s)")
    case None
    then have "rcut = 0" "l = accts s" using assms(1) by (simp_all add: pay_referrer_def)
    then show ?thesis using assms(2,3) by simp
  next
    case (Some r)
    let ?g = "\<lambda>a. (add_bal (coin_of sd) (fee * (1 / 10)) a)\<lparr>refEarned := refEarned a + fee * (1 / 10)\<rparr>"
    have e: "rcut = fee * (1 / 10)" "l = upd r ?g (acct r sd (accts s))"
      using assms(1) unfolding pay_referrer_def Some option.case Let_def by auto
    have pl: "plain_name r" by (rule referrer_plain [OF assms(2) Some])
    have b1: "book_ok p (s\<lparr>accts := acct r sd (accts s)\<rparr>)" by (rule acct_ok(1) [OF assms(2) pl])
    have i1: "ids (acct r sd (accts s)) = insert r (ids (accts s))" by (rule acct_ok(2) [OF assms(2) pl])
    have "book_ok p ((s\<lparr>accts := acct r sd (accts s)\<rparr>)\<lparr>accts := l\<rparr>)"
      using upd_ref_ok(1) [OF b1, of ?g r] by (simp add: e)
    moreover have "ids l = insert r (ids (accts s))"
      using upd_keeps(2) [of ?g r "acct r sd (accts s)"] i1 by (simp add: e)
    moreover obtain a where a: "get (acct r sd (accts s)) r = Some a" using get_ids [of "acct r sd (accts s)" r] i1 by auto
    have "coin_sum f l = coin_sum f (accts s) + (if f = coin_of sd then rcut else 0)"
      unfolding e using total_upd [OF a, of f ?g] by simp
    ultimately show ?thesis using e(1) assms(3) Some by auto
  qed
  then show "book_ok p (s\<lparr>accts := l\<rparr>)" "ids (accts s) \<subseteq> ids l" "0 \<le> rcut" "rcut \<le> fee"
    "coin_sum f l = coin_sum f (accts s) + (if f = coin_of sd then rcut else 0)"
    "referrer_of w (accts s) = None \<Longrightarrow> rcut = 0" by auto
qed

text \<open>The debit, the referral and the fee of an entry, and what the account's book then says.\<close>

definition entry_book :: "string \<Rightarrow> string \<Rightarrow> side \<Rightarrow> field \<Rightarrow> rat \<Rightarrow> rat \<Rightarrow> ledger \<Rightarrow> rat \<times> ledger" where
  "entry_book w ref sd f stake usd l0 =
     (let l1 = upd w (\<lambda>a. set_referrer w ref ((add_bal f (- stake) a)\<lparr>dep := dep a + usd, ac_side := sd\<rparr>)) l0;
          (rcut, l2) = pay_referrer sd (referrer_of w l1) (stake * FEE) l1
      in (rcut, bankFee f (stake * FEE - rcut) l2))"

lemma entry_book_effect:
  assumes "entry_book w ref sd f stake usd (accts s) = (rcut, l)" and "book_ok p s" and "w \<in> ids (accts s)"
    and "plain_name ref" and "0 \<le> stake"
  shows "book_ok p (s\<lparr>accts := l\<rparr>)" and "ids (accts s) \<subseteq> ids l"
    and "coin_sum g l = coin_sum g (accts s) + (if g = f then - stake + stake * FEE - rcut else 0) +
      (if g = coin_of sd then rcut else 0)"
    and "ref = [] \<Longrightarrow> referrer_of w (accts s) = None \<Longrightarrow> rcut = 0"
    and "referrer_of w (accts s) \<noteq> None \<Longrightarrow> rcut = stake * FEE / 10"
proof -
  let ?g = "\<lambda>a. set_referrer w ref ((add_bal f (- stake) a)\<lparr>dep := dep a + usd, ac_side := sd\<rparr>)"
  define s1 where "s1 = s\<lparr>accts := upd w ?g (accts s)\<rparr>"
  obtain rcut' l2 where p: "pay_referrer sd (referrer_of w (accts s1)) (stake * FEE) (accts s1) = (rcut', l2)" by fastforce
  have e: "rcut = rcut'" "l = bankFee f (stake * FEE - rcut) l2"
    using assms(1) p by (auto simp: entry_book_def s1_def Let_def)
  have gr: "refBy (?g a) = refBy a \<or> (\<exists>r. refBy (?g a) = Some r \<and> plain_name r)" for a
    using set_referrer_ref [OF assms(4), of w "(add_bal f (- stake) a)\<lparr>dep := dep a + usd, ac_side := sd\<rparr>"] by simp
  have b1: "book_ok p s1" unfolding s1_def by (rule upd_ref_ok(1) [OF assms(2) _ gr]) simp
  have i1: "ids (accts s1) = ids (accts s)" unfolding s1_def using upd_ref_ok(2) [OF assms(2) _ gr] by simp
  have fee: "0 \<le> stake * FEE" using assms(5) by simp
  note pe = pay_referrer_effect [OF p b1 fee]
  have b2: "book_ok p (s\<lparr>accts := l2\<rparr>)" using pe(1) by (simp add: s1_def)
  show "book_ok p (s\<lparr>accts := l\<rparr>)" using bankFee_ok(1) [OF b2] by (simp add: e)
  show "ids (accts s) \<subseteq> ids l" using bankFee_ok(2) [OF b2, of l2] pe(2) i1 e(2) by auto
  obtain a where a: "get (accts s) w = Some a" using assms(3) get_ids [of "accts s" w] by auto
  have "coin_sum g (accts s1) = coin_sum g (accts s) + (if g = f then - stake else 0)"
    unfolding s1_def using total_upd [OF a, of g ?g] by simp
  then show "coin_sum g l = coin_sum g (accts s) + (if g = f then - stake + stake * FEE - rcut else 0) +
      (if g = coin_of sd then rcut else 0)"
    using pe(3,4) pe(5) [of g] by (simp add: e total_bankFee)
  have ref0: "referrer_of w (accts s1) = None" if "ref = []" "referrer_of w (accts s) = None"
    using that a by (simp add: referrer_of_def s1_def get_upd set_referrer_def)
  show "ref = [] \<Longrightarrow> referrer_of w (accts s) = None \<Longrightarrow> rcut = 0"
    using pe(6) ref0 by (simp add: e)
  have ref1: "referrer_of w (accts s1) \<noteq> None" if "referrer_of w (accts s) \<noteq> None"
    using that a by (simp add: referrer_of_def s1_def get_upd set_referrer_def)
  show "referrer_of w (accts s) \<noteq> None \<Longrightarrow> rcut = stake * FEE / 10"
    using pe(7) ref1 by (simp add: e)
qed

lemma referrer_acct: "referrer_of w (acct w sd l) = referrer_of w l"
  by (auto simp: referrer_of_def acct_def get_def find_append new_account_def split: option.splits)

text \<open>The handler, step by step.\<close>

lemma enter_handler_cases:
  assumes "runners T aid = Some rn" and "phase (state rn) = Lobby"
    and "pxForRound q aid (rs_round (state rn)) (slot (fields_of aid) sd) (on_book (acct w sd) T) = (px, T1)"
    and "stake = min (min (money asked) (case get (acct w sd (book_of T)) w of None \<Rightarrow> 0 | Some a \<Rightarrow> bal (slot (fields_of aid) sd) a))
      (max 0 (CAP - real_usd (fighter_id w sd) (entries (state rn))) / px)"
    and "entry_book w ref sd (slot (fields_of aid) sd) stake (stake * px) (book_of T1) = (rcut, l)"
  obtains (refused) why where "enter_handler h q k w aid sd asked ref T = (Inl why, T1)"
  | (taken) T6 where "0 < px" "MIN_ENTRY \<le> stake * px"
      "enter_handler h q k w aid sd asked ref T =
         (Inr stake, matchPlayerStake h q k aid sd (stake * px)
            (rn_enter aid (fighter_id w sd) sd (stake * px * (1 - FEE)) T6))"
      "runners T6 = runners T1" "roundPx T6 = roundPx T1" "crew T6 = (crew T1)\<lparr>accts := l\<rparr>"
proof -
  define f where "f = slot (fields_of aid) sd"
  define n where "n = rs_round (state rn)"
  define T0 where "T0 = on_book (acct w sd) T"
  define usd where "usd = stake * px"
  define g where "g = (\<lambda>a. set_referrer w ref ((add_bal f (- stake) a)\<lparr>dep := dep a + usd, ac_side := sd\<rparr>))"
  define T3 where "T3 = flow aid n f (\<lambda>v. v\<lparr>fl_out := fl_out v + stake, fl_fee := fl_fee v + stake * FEE\<rparr>) (on_book (upd w g) T1)"
  have b3: "book_of T3 = upd w g (book_of T1)" using flow_core(3) by (simp add: T3_def book_of_def on_book_def)
  obtain c2 l2 where pr: "pay_referrer sd (referrer_of w (book_of T3)) (stake * FEE) (book_of T3) = (c2, l2)" by fastforce
  have e: "c2 = rcut" "l = bankFee f (stake * FEE - rcut) l2"
    using assms(5) pr unfolding entry_book_def Let_def b3 g_def f_def [symmetric] usd_def [symmetric] by auto
  define T5 where "T5 = tally aid sd usd ((stake * FEE - rcut) * px) (on_book (\<lambda>_. l) T3)"
  define T6 where "T6 = T5\<lparr>statsA := (statsA T5)(aid := (statsA T5 aid)\<lparr>st_take := st_take (statsA T5 aid) + stake * FEE * px\<rparr>)\<rparr>"
  have p0: "pxForRound q aid n f T0 = (px, T1)" using assms(3) by (simp add: n_def f_def T0_def)
  have bank: "book_of T0 = acct w sd (book_of T)" by (simp add: T0_def)
  have m: "real_usd (fighter_id w sd) (entries (state rn)) = real_usd (fighter_id w sd) (entries (state rn))" ..
  define headroom where "headroom = max 0 (CAP - real_usd (fighter_id w sd) (entries (state rn)))"
  have st: "stake = min (min (money asked) (case get (book_of T0) w of None \<Rightarrow> 0 | Some a \<Rightarrow> bal f a)) (headroom / px)"
    using assms(4) by (simp only: bank f_def headroom_def)
  have ph: "\<not> phase (state rn) \<noteq> Lobby" using assms(2) by simp
  have pr': "pay_referrer sd (referrer_of w (book_of T3)) (stake * FEE) (book_of T3) = (rcut, l2)" using pr e(1) by simp
  have eq: "enter_handler h q k w aid sd asked ref T =
      (if \<not> px > 0 then (Inl NoPrice, T1)
       else if headroom < MIN_ENTRY then (Inl AtCap, T1)
       else if usd < MIN_ENTRY then (Inl TooSmall, T1)
       else (Inr stake, matchPlayerStake h q k aid sd usd (rn_enter aid (fighter_id w sd) sd (usd * (1 - FEE)) T6)))"
    unfolding enter_handler_def assms(1) option.case Let_def n_def [symmetric] f_def [symmetric] T0_def [symmetric]
      if_not_P [OF ph] p0 prod.case headroom_def [symmetric] st [symmetric] usd_def [symmetric]
      g_def [symmetric] T3_def [symmetric] pr' e(2) [symmetric] T5_def [symmetric] T6_def [symmetric] by (rule refl)
  have core: "runners T6 = runners T1" "roundPx T6 = roundPx T1" "crew T6 = (crew T1)\<lparr>accts := l\<rparr>"
    by (simp_all add: T6_def T5_def T3_def)
  show ?thesis
  proof (cases "px > 0 \<and> \<not> headroom < MIN_ENTRY \<and> \<not> usd < MIN_ENTRY")
    case True
    then show ?thesis using taken [of T6] eq core by (simp add: usd_def)
  next
    case False
    then show ?thesis using eq refused by (auto split: if_splits)
  qed
qed

lemma enter_handler_closed:
  assumes "runners T aid = None \<or> (\<exists>rn. runners T aid = Some rn \<and> phase (state rn) \<noteq> Lobby)"
  shows "snd (enter_handler h q k w aid sd asked ref T) = T \<or>
    snd (enter_handler h q k w aid sd asked ref T) = on_book (acct w sd) T"
  using assms by (auto simp: enter_handler_def Let_def)

lemma acct_step:
  assumes "good m du h arenas b aid T" and "plain_name w"
  shows "good m du h arenas b aid (on_book (acct w sd) T)" and "steady arenas aid T (on_book (acct w sd) T)"
proof -
  have k: "book_ok (pool h) (crew (on_book (acct w sd) T))"
    using acct_ok(1) [OF good_book [OF assms(1)] assms(2)] by (simp add: book_of_def)
  have i: "ids (book_of T) \<subseteq> ids (book_of (on_book (acct w sd) T))"
    using acct_ok(2) [OF good_book [OF assms(1)] assms(2)] by auto
  show "good m du h arenas b aid (on_book (acct w sd) T)" "steady arenas aid T (on_book (acct w sd) T)"
    using book_steady [OF assms(1) _ _ k i] by simp_all
qed

text \<open>What an entry does to the totals: with a referral paid in another coin, one coin grows by the
  referrer's cut and the other shrinks by it.\<close>

lemma enter_handler_effect:
  assumes "good m du h arenas b aid T" and "house_ok h arenas" and "b \<le> 31" and "plain_name w" and "plain_name ref"
    and "enter_handler h q k w aid sd asked ref T = (res, T')"
  obtains rcut where "good m du h arenas b aid T'"
    and "\<And>f. coin_total arenas f T' = coin_total arenas f T
      - (if f = slot (fields_of aid) sd then rcut else 0) + (if f = coin_of sd then rcut else 0)"
    and "ref = [] \<Longrightarrow> referrer_of w (book_of T) = None \<Longrightarrow> rcut = 0"
    and "\<And>st. res = Inr st \<Longrightarrow> 0 < st \<and> (referrer_of w (book_of T) \<noteq> None \<longrightarrow> rcut = st * FEE / 10)"
proof (cases "in_lobby aid T")
  case False
  then have "runners T aid = None \<or> (\<exists>rn. runners T aid = Some rn \<and> phase (state rn) \<noteq> Lobby)"
    by (auto simp: in_lobby_def split: option.splits)
  from enter_handler_closed [OF this, of h q k w sd asked ref]
  have "T' = T \<or> T' = on_book (acct w sd) T" using assms(6) by auto
  moreover have "\<nexists>st. res = Inr st" using False assms(6)
    by (auto simp: enter_handler_def in_lobby_def Let_def split: option.splits if_splits)
  ultimately show ?thesis
    using that [of 0] assms(1) acct_step [OF assms(1,4), of sd] by (auto simp: steady_def)
next
  case True
  then obtain rn where rn: "runners T aid = Some rn" "phase (state rn) = Lobby"
    by (auto simp: in_lobby_def split: option.splits)
  define f where "f = slot (fields_of aid) sd"
  define n where "n = rs_round (state rn)"
  note s0 = acct_step [OF assms(1,4), of sd]
  have lv0: "seat_view (on_book (acct w sd) T) aid = Some (Lobby, n)"
    using lobby_runner [of "on_book (acct w sd) T"] rn by (simp add: n_def)
  obtain px T1 where p: "pxForRound q aid n f (on_book (acct w sd) T) = (px, T1)" by fastforce
  note s1 = px_step [OF p lv0 s0(1) assms(3)]
  have s01: "steady arenas aid T T1" by (rule steady_trans [OF s0(2) s1(2)])
  have bk1: "book_of T1 = acct w sd (book_of T)" using s1(6) by (simp add: book_of_def)
  have w1: "w \<in> ids (book_of T1)"
    using acct_ok(2) [OF good_book [OF assms(1)] assms(4)] by (simp add: bk1)
  define stake where "stake = min (min (money asked) (case get (acct w sd (book_of T)) w of None \<Rightarrow> 0 | Some a \<Rightarrow> bal (slot (fields_of aid) sd) a))
      (max 0 (CAP - real_usd (fighter_id w sd) (entries (state rn))) / px)"
  obtain rcut l where eb: "entry_book w ref sd (slot (fields_of aid) sd) stake (stake * px) (book_of T1) = (rcut, l)"
    by fastforce
  from rn p stake_def eb show ?thesis
    unfolding f_def n_def
  proof (cases rule: enter_handler_cases [of T aid rn q sd w px T1 stake asked ref rcut l h k])
    case (refused why)
    then have "T' = T1" "res = Inl why" using assms(6) by simp_all
    then show ?thesis using that [of 0] s1(1) s01 by (simp add: steady_def)
  next
    case (taken T6)
    have "0 \<le> stake * px" using taken(2) CAP_pos(2) by linarith
    then have st: "0 \<le> stake" using taken(1) by (simp add: zero_le_mult_iff)
    have eb': "entry_book w ref sd f stake (stake * px) (accts (crew T1)) = (rcut, l)"
      using eb by (simp add: f_def book_of_def)
    note ee = entry_book_effect [OF eb' good_book [OF s1(1)] w1 [unfolded book_of_def] assms(5) st]
    have b6: "book_ok (pool h) (crew T6)" using ee(1) by (simp add: taken(6))
    have bk6: "book_of T6 = l" by (simp add: taken(6) book_of_def)
    have i6: "ids (book_of T1) \<subseteq> ids (book_of T6)" unfolding bk6 using ee(2) by (simp add: book_of_def)
    note s6 = book_step [OF s1(1) taken(4,5) b6 i6]
    have lv6: "seat_view T6 aid = Some (Lobby, n)" using s6(2) s1(2) lv0 by (simp add: steady_def)
    have px6: "px = own_px T6 aid f" using s6(3) [of f] s1(3) [OF taken(1)] by simp
    have bar: "CHR ''|'' \<notin> set w" using assms(4) by (simp add: plain_name_def)
    have dist: "distinct arenas" using assms(2) by (simp add: house_ok_def)
    have w6: "w \<in> ids (book_of T6)" using w1 i6 by auto
    have pos: "0 < own_px T6 aid (slot (fields_of aid) sd)" using px6 taken(1) by (simp add: f_def)
    note s7 = enter_step [OF s6(1) dist lv6 bar w6 pos refl, where stake = "stake * px * (1 - FEE)"]
    note s8 = matchPlayerStake_step [OF s7(1) dist assms(3), of q k sd "stake * px"]
    have T': "T' = matchPlayerStake h q k aid sd (stake * px) (rn_enter aid (fighter_id w sd) sd (stake * px * (1 - FEE)) T6)"
      using assms(6) taken(3) by simp
    have tot: "coin_total arenas g T' = coin_total arenas g T
      - (if g = slot (fields_of aid) sd then rcut else 0) + (if g = coin_of sd then rcut else 0)" for g
    proof -
      have 1: "coin_total arenas g T' = coin_total arenas g (rn_enter aid (fighter_id w sd) sd (stake * px * (1 - FEE)) T6)"
        using s8 by (simp add: T' steady_def)
      have 2: "coin_total arenas g T1 = coin_total arenas g T" using s01 by (simp add: steady_def)
      have 3: "coin_sum g (book_of T6) - coin_sum g (book_of T1) =
          (if g = f then - stake + stake * FEE - rcut else 0) + (if g = coin_of sd then rcut else 0)"
        unfolding bk6 using ee(3) [of g] by (simp add: book_of_def)
      have 4: "stake * px * (1 - FEE) / own_px T6 aid f = stake * (1 - FEE)" using px6 taken(1) by simp
      show ?thesis
      proof (cases "g = f")
        case True
        then show ?thesis using 1 2 3 4 s6(4) [of g] s7(4) [of g] by (simp add: f_def right_diff_distrib)
      next
        case False
        then show ?thesis using 1 2 3 s6(4) [of g] s7(4) [of g] by (simp add: f_def)
      qed
    qed
    have "ref = [] \<Longrightarrow> referrer_of w (book_of T) = None \<Longrightarrow> rcut = 0"
      using ee(4) referrer_acct [of w sd "book_of T"] bk1 by (simp add: book_of_def)
    moreover have "0 < st \<and> (referrer_of w (book_of T) \<noteq> None \<longrightarrow> rcut = st * FEE / 10)" if "res = Inr st" for st
    proof -
      have "st = stake" using that assms(6) taken(3) by simp
      moreover have "0 < stake * px" using taken(2) CAP_pos(2) by linarith
      then have "0 < stake" using taken(1) by (simp add: zero_less_mult_iff)
      moreover have "referrer_of w (accts (crew T1)) = referrer_of w (book_of T)"
        using referrer_acct [of w sd "book_of T"] bk1 by (simp add: book_of_def)
      ultimately show ?thesis using ee(5) by simp
    qed
    ultimately show ?thesis using that [of rcut] s8 tot by (simp add: T')
  qed
qed

end
