(* ===== verification/Engine_Payout.thy ===== *)
theory Engine_Payout
  imports Engine_Entry
begin

text \<open>
  The settlement pays the coins an open round holds, no more and no less, and the pass of the loop around it
  conserves every coin. Then the conservation theorem over everything that happens at the arenas.
\<close>

subsection \<open>The price a round is paid at\<close>

definition eff_px :: "quotes \<Rightarrow> tables \<Rightarrow> string \<Rightarrow> nat \<Rightarrow> field \<Rightarrow> rat" where
  "eff_px q T aid n f = (if 0 < frozen_px T aid n f then frozen_px T aid n f else px_safe q f)"

lemma px_value:
  assumes "pxForRound q aid n f T = (px, T')" and "distinct (map fst (roundPx T))"
  shows "px = eff_px q T aid n f" and "eff_px q T' aid n g = eff_px q T aid n g"
proof -
  define k0 where "k0 = (aid, n)"
  define m where "m = ensure_key k0 no_px (roundPx T)"
  define row where "row = row_at no_px m k0"
  have row0: "row = row_at no_px (roundPx T) k0"
    unfolding row_def m_def by (rule ensure_row [OF assms(2), where n = 0]) auto
  have e: "px = (if row f > 0 then row f else px_safe q f)"
    "roundPx T' = (if row f > 0 then m else AList.update k0 (row(f := px_safe q f)) m)"
    using assms(1) unfolding pxForRound_def Let_def k0_def [symmetric] m_def [symmetric] row_def [symmetric]
    by (auto split: if_splits)
  show "px = eff_px q T aid n f" by (simp add: e eff_px_def frozen_px_def row0 k0_def)
  have "frozen_px T' aid n g = (if row f > 0 then row g else (row(f := px_safe q f)) g)"
    by (simp add: frozen_px_def e update_row k0_def [symmetric] row_def)
  moreover have "frozen_px T aid n g = row g" by (simp add: frozen_px_def row0 k0_def)
  ultimately show "eff_px q T' aid n g = eff_px q T aid n g" by (auto simp: eff_px_def)
qed

definition per_usd :: "rat \<Rightarrow> rat" where
  "per_usd px = (if px > 0 then 1 / px else 0)"

subsection \<open>One line of the settlement\<close>

lemma settle_account_keeps [simp]:
  "ac_id (settle_account fs pa pb ra rb w x a) = ac_id a"
  "refBy (settle_account fs pa pb ra rb w x a) = refBy a"
  by (simp_all add: settle_account_def Let_def split: option.split)

lemma bal_records [simp]:
  "bal f (b\<lparr>games := g, ret := r, wins := v\<rparr>) = bal f b"
  "bal f (b\<lparr>games := g, ret := r, wins := v, ac_raided := y, ac_best := z\<rparr>) = bal f b"
  by (cases f; simp)+

lemma settle_account_bal:
  "bal f (settle_account fs pa pb ra rb w x a) =
     bal f a + (if f = fst fs then ra else 0) + (if f = snd fs then rb else 0)"
  by (simp add: settle_account_def Let_def split: option.split)

lemma good_keys: "good m du h arenas b aid T \<Longrightarrow> distinct (map fst (roundPx T))"
  by (simp add: good_def table_ok_def)

lemma settle_one_step:
  assumes "good m du h arenas b aid T" and "b \<le> 31" and "seat_view T aid = Some (p, n)"
    and "wallet_of key \<in> ids (book_of T)" and "T' = settle_one q aid n r (key, vb, vu) T"
  shows "good m du h arenas b aid T'" and "runners T' = runners T" and "ids (book_of T) \<subseteq> ids (book_of T')"
    and "eff_px q T' aid n g = eff_px q T aid n g"
    and "0 < own_px T aid f \<Longrightarrow> own_px T' aid f = own_px T aid f"
    and "coin_total arenas f T' = coin_total arenas f T
      + (if f = fst (fields_of aid) then vb * per_usd (eff_px q T aid n (fst (fields_of aid))) else 0)
      + (if f = snd (fields_of aid) then vu * per_usd (eff_px q T aid n (snd (fields_of aid))) else 0)"
proof -
  let ?fs = "fields_of aid"
  obtain pxA T1 where pa: "pxForRound q aid n (fst ?fs) T = (pxA, T1)" by fastforce
  note s1 = px_step [OF pa assms(3,1,2)]
  have lv1: "seat_view T1 aid = Some (p, n)" using s1(2) assms(3) by (simp add: steady_def)
  obtain pxB T2 where pb: "pxForRound q aid n (snd ?fs) T1 = (pxB, T2)" by fastforce
  note s2 = px_step [OF pb lv1 s1(1) assms(2)]
  have s02: "steady arenas aid T T2" by (rule steady_trans [OF s1(2) s2(2)])
  note v1 = px_value [OF pa good_keys [OF assms(1)]]
  note v2 = px_value [OF pb good_keys [OF s1(1)]]
  define retA where "retA = (if pxA > 0 then vb / pxA else 0)"
  define retB where "retB = (if pxB > 0 then vu / pxB else 0)"
  define i where "i = wallet_of key"
  define ga where "ga = settle_account ?fs pxA pxB retA retB (rr_winner r) (List.find (\<lambda>x. f_id x = key) (rr_fighters r))"
  define T3 where "T3 = on_book (upd i ga) T2"
  have ne: "get (book_of T) i \<noteq> None" using assms(4) get_ids [of "book_of T" i] by (simp add: i_def)
  have eq: "T' = flow aid n (snd ?fs) (\<lambda>v. v\<lparr>fl_in := fl_in v + retB\<rparr>)
      (flow aid n (fst ?fs) (\<lambda>v. v\<lparr>fl_in := fl_in v + retA\<rparr>) T3)"
    unfolding assms(5) settle_one_def prod.case Let_def i_def [symmetric] if_not_P [OF ne] pa pb retA_def [symmetric]
      retB_def [symmetric] ga_def [symmetric] T3_def [symmetric] by (rule refl)
  have i2: "i \<in> ids (book_of T2)" using assms(4) s02 by (auto simp: steady_def i_def)
  have gk: "ac_id (ga a) = ac_id a" "refBy (ga a) = refBy a" for a by (simp_all add: ga_def)
  have r3: "map root (upd i ga (book_of T2)) = map root (book_of T2)" by (rule upd_keeps(1) [OF gk])
  have b3: "book_ok (pool h) (crew T3)"
    by (rule book_ok_cong [OF good_book [OF s2(1)]]) (simp_all add: T3_def r3, simp add: book_of_def)
  have id3: "ids (book_of T2) \<subseteq> ids (book_of T3)" using upd_keeps(2) [of ga i, OF gk] by (simp add: T3_def)
  have r2: "runners T3 = runners T2" "roundPx T3 = roundPx T2" by (simp_all add: T3_def)
  note s3 = book_step [OF s2(1) r2 b3 id3]
  have core: "runners T' = runners T3" "roundPx T' = roundPx T3" "crew T' = crew T3" by (simp_all add: eq)
  note c = core_cong [OF core]
  show "good m du h arenas b aid T'" using c(1) s3(1) by simp
  show "runners T' = runners T" using core r2 s1(5) s2(5) by simp
  show "ids (book_of T) \<subseteq> ids (book_of T')" using c(5) id3 s02 by (auto simp: steady_def)
  have "frozen_px T' = frozen_px T2" by (intro ext) (simp add: frozen_px_def core r2)
  then have "eff_px q T' aid n g = eff_px q T2 aid n g" by (simp only: eff_px_def)
  then show "eff_px q T' aid n g = eff_px q T aid n g" using v1(2) [of g] v2(2) [of g] by simp
  show "0 < own_px T aid f \<Longrightarrow> own_px T' aid f = own_px T aid f"
    using s02 s3(3) [of f] c(3) by (simp add: steady_def)
  obtain a where a: "get (book_of T2) i = Some a" using i2 get_ids [of "book_of T2" i] by auto
  have "coin_sum f (book_of T3) - coin_sum f (book_of T2) =
      (if f = fst ?fs then retA else 0) + (if f = snd ?fs then retB else 0)"
    using total_upd [OF a, of f ga] by (simp add: T3_def ga_def settle_account_bal)
  moreover have "retA = vb * per_usd (eff_px q T aid n (fst ?fs))" by (simp add: retA_def per_usd_def v1(1))
  moreover have "retB = vu * per_usd (eff_px q T aid n (snd ?fs))" by (simp add: retB_def per_usd_def v2(1) v1(2))
  ultimately show "coin_total arenas f T' = coin_total arenas f T
      + (if f = fst (fields_of aid) then vb * per_usd (eff_px q T aid n (fst (fields_of aid))) else 0)
      + (if f = snd (fields_of aid) then vu * per_usd (eff_px q T aid n (snd (fields_of aid))) else 0)"
    using c(4) s3(4) [of f] s02 by (simp add: steady_def)
qed

lemma settle_fold_step:
  assumes "b \<le> 31"
  shows "good m du h arenas b aid T \<Longrightarrow> seat_view T aid = Some (p, n) \<Longrightarrow>
    \<forall>x\<in>set ls. wallet_of (fst x) \<in> ids (book_of T) \<Longrightarrow> T' = fold (settle_one q aid n r) ls T \<Longrightarrow>
    good m du h arenas b aid T' \<and> runners T' = runners T \<and> ids (book_of T) \<subseteq> ids (book_of T') \<and>
    (\<forall>f. 0 < own_px T aid f \<longrightarrow> own_px T' aid f = own_px T aid f) \<and>
    (\<forall>f. coin_total arenas f T' = coin_total arenas f T
      + (if f = fst (fields_of aid) then bull_total ls * per_usd (eff_px q T aid n (fst (fields_of aid))) else 0)
      + (if f = snd (fields_of aid) then uwu_total ls * per_usd (eff_px q T aid n (snd (fields_of aid))) else 0))"
proof (induction ls arbitrary: T)
  case Nil
  then show ?case by (simp add: bull_total_def uwu_total_def)
next
  case (Cons x ls)
  obtain key vb vu where x: "x = (key, vb, vu)" by (cases x)
  define U where "U = settle_one q aid n r x T"
  note s = settle_one_step [OF Cons.prems(1) assms Cons.prems(2), of key U q r vb vu]
  have w: "wallet_of key \<in> ids (book_of T)" using Cons.prems(3) x by simp
  note s' = s [OF w U_def [unfolded x]]
  have lv: "seat_view U aid = Some (p, n)" using s'(2) Cons.prems(2) by (simp add: seat_view_def)
  have "\<forall>x\<in>set ls. wallet_of (fst x) \<in> ids (book_of U)" using Cons.prems(3) s'(3) by auto
  from Cons.IH [OF s'(1) lv this] Cons.prems(4)
  have ih: "good m du h arenas b aid T' \<and> runners T' = runners U \<and> ids (book_of U) \<subseteq> ids (book_of T') \<and>
    (\<forall>f. 0 < own_px U aid f \<longrightarrow> own_px T' aid f = own_px U aid f) \<and>
    (\<forall>f. coin_total arenas f T' = coin_total arenas f U
      + (if f = fst (fields_of aid) then bull_total ls * per_usd (eff_px q U aid n (fst (fields_of aid))) else 0)
      + (if f = snd (fields_of aid) then uwu_total ls * per_usd (eff_px q U aid n (snd (fields_of aid))) else 0))"
    by (simp add: U_def)
  have px: "\<forall>f. 0 < own_px T aid f \<longrightarrow> own_px T' aid f = own_px T aid f"
    using ih s'(5) by simp
  have tot: "coin_total arenas f T' = coin_total arenas f T
      + (if f = fst (fields_of aid) then bull_total (x # ls) * per_usd (eff_px q T aid n (fst (fields_of aid))) else 0)
      + (if f = snd (fields_of aid) then uwu_total (x # ls) * per_usd (eff_px q T aid n (snd (fields_of aid))) else 0)" for f
    using ih s'(6) [of f] by (simp add: s'(4) x bull_total_def uwu_total_def algebra_simps)
  show ?case using ih s'(2,3) px tot by auto
qed

lemma entry_coins_sides:
  "fst fs \<noteq> snd fs \<Longrightarrow> sum_list (map (entry_coins fs px f) es) =
     (if f = fst fs then side_total Bull es / px f else 0) + (if f = snd fs then side_total Uwu es / px f else 0)"
proof (induction es)
  case (Cons e es)
  then show ?case by (cases "e_side e") (auto simp: entry_coins_def slot_def add_divide_distrib)
qed simp

lemma no_side: "(\<And>e. e \<in> set es \<Longrightarrow> e_side e \<noteq> sd) \<Longrightarrow> side_total sd es = 0"
  by (induction es) auto

lemma fields_differ: "arenaFields aid \<noteq> None \<Longrightarrow> fst (fields_of aid) \<noteq> snd (fields_of aid)"
  by (auto simp: fields_of_def arenaFields_def split: if_splits)

text \<open>The coins of an open round are what the settlement pays at the frozen price.\<close>

lemma escrow_paid:
  assumes "good m du h arenas b aid T" and "runners T aid = Some rn" and "arenaFields aid \<noteq> None"
    and px_def: "px = (\<lambda>f. per_usd (eff_px q T aid (rs_round (state rn)) f))"
  shows "escrow_of f T aid =
    (if f = fst (fields_of aid) then side_total Bull (entries (state rn)) * px f else 0) +
    (if f = snd (fields_of aid) then side_total Uwu (entries (state rn)) * px f else 0)"
proof -
  let ?n = "rs_round (state rn)" and ?es = "entries (state rn)"
  have t: "table_ok m du h arenas T" using assms(1) by (simp add: good_def)
  have side: "side_total sd ?es / frozen_px T aid ?n (slot (fields_of aid) sd) =
      side_total sd ?es * px (slot (fields_of aid) sd)" for sd
  proof (cases "\<exists>e\<in>set ?es. e_side e = sd")
    case True
    then have "0 < frozen_px T aid ?n (slot (fields_of aid) sd)"
      using entry_frozen [OF t assms(2)] by blast
    then show ?thesis by (simp add: px_def eff_px_def per_usd_def)
  next
    case False
    then show ?thesis using no_side [of ?es sd] by auto
  qed
  show ?thesis
    using side [of Bull] side [of Uwu] entry_coins_sides [OF fields_differ [OF assms(3)]]
    by (simp add: escrow_of_def assms(2) slot_def)
qed

lemma onSettle_effect:
  assumes "good m du h arenas b aid T" and "house_ok h arenas" and "b \<le> 31" and "aid \<in> set arenas"
    and "runners T aid = Some rn" and "rs_round s = rs_round (state rn)"
    and "map fst (rr_settlement r) = map e_id (entries (state rn))"
    and "bull_total (rr_settlement r) = side_total Bull (entries (state rn))"
    and "uwu_total (rr_settlement r) = side_total Uwu (entries (state rn))"
    and "T' = onSettle h q k aid r s T"
  shows "good m du h arenas b aid T'" and "runners T' = runners T"
    and "coin_total arenas f T' = coin_total arenas f T + escrow_of f T aid"
    and "escrow_of f T' aid = escrow_of f T aid" and "keyed T' aid"
proof -
  define n where "n = rs_round s"
  let ?fs = "fields_of aid"
  have lv: "seat_view T aid = Some (phase (state rn), n)" by (simp add: seat_view_def assms(5,6) n_def)
  define T1 where "T1 = T\<lparr>statsA := (statsA T)(aid := steal_stats (rr_hits r) (statsA T aid))\<rparr>"
  have c1: "runners T1 = runners T" "roundPx T1 = roundPx T" "crew T1 = crew T" by (simp_all add: T1_def)
  note k1 = core_cong [OF c1]
  have g1: "good m du h arenas b aid T1" using assms(1) k1(1) by simp
  have lv1: "seat_view T1 aid = Some (phase (state rn), n)" using lv k1(2) by simp
  have ke: "\<forall>x\<in>set (rr_settlement r). wallet_of (fst x) \<in> ids (book_of T1)"
  proof
    fix x assume x: "x \<in> set (rr_settlement r)"
    then have "fst x \<in> set (map e_id (entries (state rn)))" by (simp only: assms(7) [symmetric]) simp
    then obtain e where e: "e \<in> set (entries (state rn))" "e_id e = fst x" by auto
    have "arena_ok m du T aid" using assms(1) by (simp add: good_def table_ok_def)
    then show "wallet_of (fst x) \<in> ids (book_of T1)"
      using e assms(5) k1(5) by (auto simp: arena_ok_def entry_ok_def list_all_iff)
  qed
  define T2 where "T2 = fold (settle_one q aid n r) (rr_settlement r) T1"
  note s2 = settle_fold_step [OF assms(3) g1 lv1 ke T2_def]
  define T3 where "T3 = snd (auditRound aid n T2)"
  have c3: "runners T3 = runners T2" "roundPx T3 = roundPx T2" "crew T3 = crew T2"
    by (simp_all add: T3_def auditRound_def split: option.split)
  note k3 = core_cong [OF c3]
  have g3: "good m du h arenas b aid T3" using s2 k3(1) by simp
  have lv3: "seat_view T3 aid = Some (phase (state rn), n)"
    using s2 k3(2) lv1 by (simp add: seat_view_def)
  obtain p1 U where pu: "pxForRound q aid n (fst ?fs) T3 = (p1, U)" by fastforce
  note su = px_step [OF pu lv3 g3 assms(3)]
  have lvu: "seat_view U aid = Some (phase (state rn), n)" using su(2) lv3 by (simp add: steady_def)
  obtain p2 T4 where p4: "pxForRound q aid n (snd ?fs) U = (p2, T4)" by fastforce
  note s4 = px_step [OF p4 lvu su(1) assms(3)]
  have s34: "steady arenas aid T3 T4" by (rule steady_trans [OF su(2) s4(2)])
  obtain js s1 where bf: "botsFor aid (crew T4) = (js, s1)" by fastforce
  have b4: "book_ok (pool h) (crew T4)" by (rule good_book [OF s4(1)])
  have d4: "distinct (map ac_id (accts (crew T4)))" using b4 by (simp add: book_ok_def)
  note bs = botsFor_staff(1,2) [OF bf b4]
  have fit: "\<forall>i\<in>set js. starts_with (aid @ '':'') i \<and> house_id (pool h) i (accts s1)"
    using botsFor_effect(1,2) [OF bf _ d4] botsFor_rest [OF bf] by auto
  note rv = review_all_staff [OF assms(2,4) fit bs(1), of q]
  define s2' where "s2' = fold (review_bot h q aid) js s1"
  define T5 where "T5 = count_round aid (rr_winner r) (T4\<lparr>crew := s2'\<rparr>)"
  have m5: "book_ok (pool h) s2'" "same_money (crew T4) s2'"
    using rv staffing.rel_trans [OF bs(2)] by (auto simp: s2'_def)
  note s5 = crew_step [OF s4(1) m5]
  have c5: "runners T5 = runners (T4\<lparr>crew := s2'\<rparr>)" "roundPx T5 = roundPx (T4\<lparr>crew := s2'\<rparr>)" "crew T5 = crew (T4\<lparr>crew := s2'\<rparr>)"
    by (simp_all add: T5_def count_round_def Let_def)
  have g5: "good m du h arenas b aid T5" "steady arenas aid T4 T5"
    using core_steady [OF c5] s5 steady_trans by auto
  define target where "target = pop_target h q (roundsByArena T5 aid) (real_playing (entries s)) (book_of T5)"
  note rc = recruit_staff [OF assms(2,4) good_book [OF g5(1)], of q k target]
  have eq: "T' = T5\<lparr>crew := recruit h q k aid target (crew T5)\<rparr>"
    unfolding assms(10) onSettle_def Let_def n_def [symmetric] T1_def [symmetric] T2_def [symmetric] T3_def [symmetric]
      pu p4 snd_conv bf prod.case s2'_def [symmetric] T5_def [symmetric] target_def [symmetric] by (rule refl)
  note s6 = crew_step [OF g5(1) conjunct1 [OF rc] conjunct2 [OF rc]]
  have s36: "steady arenas aid T3 T'"
    unfolding eq by (rule steady_trans [OF s34 steady_trans [OF g5(2) s6(2)]])
  show g: "good m du h arenas b aid T'" using s6(1) by (simp add: eq)
  show run: "runners T' = runners T" using c1 s2 c3 su(5) s4(5) c5 by (simp add: eq)
  have "coin_total arenas f T' = coin_total arenas f T2" using s36 k3(4) by (simp add: steady_def)
  moreover have "coin_total arenas f T2 = coin_total arenas f T + escrow_of f T aid"
  proof -
    have "eff_px q T1 aid n g = eff_px q T aid n g" for g by (simp add: eff_px_def frozen_px_def c1)
    then show ?thesis
      using s2 k1(4) [of arenas f] assms(8,9) house_arena(4) [OF assms(2,4)]
        escrow_paid [OF assms(1,5) _ refl, of f q] by (auto simp: assms(6) [symmetric] n_def [symmetric])
  qed
  ultimately show "coin_total arenas f T' = coin_total arenas f T + escrow_of f T aid" by simp
  have px: "0 < own_px T aid g \<Longrightarrow> own_px T' aid g = own_px T aid g" for g
    using s2 k1(3) k3(3) s36 by (simp add: steady_def)
  have lv': "seat_view T' aid = Some (phase (state rn), n)" using lv run by (simp only: seat_view_def)
  have "frozen_px T' aid n g = frozen_px T aid n g" if "0 < frozen_px T aid n g" for g
    using px [of g] that by (simp add: own_frozen [OF lv] own_frozen [OF lv'])
  then show "escrow_of f T' aid = escrow_of f T aid"
    using run assms(5,6) entry_frozen [of m du h arenas T aid rn] assms(1)
    by (intro escrow_same) (auto simp: good_def n_def)
  show "keyed T' aid"
  proof -
    have "(aid, n) \<in> fst ` set (roundPx U)" using pxForRound_effect(3) [OF pu good_keys [OF g3]] .
    moreover have "(aid, n) \<in> fst ` set (roundPx T4)" using pxForRound_effect(3) [OF p4 good_keys [OF su(1)]] .
    ultimately have "(aid, n) \<in> set (map fst (roundPx T'))" by (simp add: eq c5)
    moreover have "seat_view T' aid = Some (phase (state rn), n)" using lv run by (simp add: seat_view_def)
    ultimately show ?thesis unfolding keyed_def by (simp only: option.case prod.case)
  qed
qed

subsection \<open>The pass of the loop\<close>

text \<open>Replacing a runner by one that holds no entries takes the coins of the round out of the escrow.\<close>

lemma set_runner:
  assumes "table_ok m du h arenas T" and "house_ok h arenas" and "runners T aid = Some rn" and "round_ok m du rn'"
    and "entries (state rn') = [] \<or> entries (state rn') = entries (state rn) \<and> rs_round (state rn') = rs_round (state rn)"
  defines "T' \<equiv> T\<lparr>runners := (runners T)(aid := Some rn')\<rparr>"
  shows "table_ok m du h arenas T'" and "recent aid k T' = recent aid k T"
    and "coin_total arenas f T' = coin_total arenas f T -
      (if entries (state rn') = [] then escrow_of f T aid else 0)"
proof -
  have px: "frozen_px T' = frozen_px T" by (intro ext) (simp add: T'_def frozen_px_def)
  have bk: "book_of T' = book_of T" by (simp add: T'_def book_of_def)
  have eo: "entry_ok T' = entry_ok T" by (intro ext) (simp only: entry_ok_def bk px)
  have other: "runners T' c = runners T c" if "c \<noteq> aid" for c using that by (simp add: T'_def)
  have own: "runners T' aid = Some rn'" by (simp add: T'_def)
  have a0: "arena_ok m du T c" for c using assms(1) by (simp add: table_ok_def)
  have "arena_ok m du T' c" for c
  proof (cases "c = aid")
    case True
    show ?thesis
      using a0 [of aid] assms(3-5) own by (auto simp: arena_ok_def eo True named_entries_def)
  next
    case False
    then show ?thesis using a0 [of c] unfolding arena_ok_def eo other [OF False] by simp
  qed
  then show "table_ok m du h arenas T'"
    using assms(1,3) by (auto simp: table_ok_def) (auto simp: T'_def split: if_splits)
  show "recent aid k T' = recent aid k T" by (auto simp: recent_def T'_def)
  have ain: "aid \<in> set arenas" using assms(1,3) by (simp add: table_ok_def)
  have dist: "distinct arenas" using assms(2) by (simp add: house_ok_def)
  have "escrow_of f T' c = escrow_of f T c" if "c \<noteq> aid" for c
    by (simp only: escrow_of_def px other [OF that])
  moreover have "escrow_of f T' aid = escrow_of f T aid - (if entries (state rn') = [] then escrow_of f T aid else 0)"
    using assms(3,5) by (auto simp: escrow_of_def px own)
  ultimately show "coin_total arenas f T' = coin_total arenas f T -
      (if entries (state rn') = [] then escrow_of f T aid else 0)"
    using sum_arenas [OF dist ain, of "escrow_of f T'" "escrow_of f T"] by (simp add: coin_total_def bk)
qed

lemma good_later: "good m du h arenas b aid T \<Longrightarrow> good m du h arenas (Suc b) aid T"
  by (auto simp: good_def intro: recent_newest split: if_splits)

lemma good_roundness: "good m du h arenas b aid T \<Longrightarrow> runners T aid = Some rn \<Longrightarrow>
    round_ok m du rn \<and> named_entries (entries (state rn))"
  by (auto simp: good_def table_ok_def arena_ok_def dest: spec [of _ aid])

lemma tick_arena_step:
  assumes "good m du h arenas b aid T" and "house_ok h arenas" and "b \<le> 31" and "aid \<in> set arenas"
    and "runners T aid = Some rn" and "tick_arena m du h q k now fr aid rn T = (fin, T')"
  shows "good m du h arenas (Suc b) aid T' \<and> (\<forall>f. coin_total arenas f T' = coin_total arenas f T)"
proof -
  obtain out call rn' where t: "run_tick m du now True fr rn = (out, call, rn')" by (metis prod_cases3)
  note ok = good_roundness [OF assms(1,5)]
  have tab: "table_ok m du h arenas T" using assms(1) by (simp add: good_def)
  from t conjunct1 [OF ok] show ?thesis
  proof (cases rule: run_tick_cases)
    case idle
    then have "T' = T\<lparr>runners := (runners T)(aid := Some rn)\<rparr>" using assms(6) t by (simp add: tick_arena_def)
    moreover have "(runners T)(aid := Some rn) = runners T" using assms(5) by auto
    ultimately show ?thesis using good_later [OF assms(1)] by simp
  next
    case start
    then have T': "T' = T\<lparr>runners := (runners T)(aid := Some rn')\<rparr>" using assms(6) t by (simp add: tick_arena_def)
    have r': "round_ok m du rn'" using start ok start_battle_ok by simp
    have e': "entries (state rn') = entries (state rn) \<and> rs_round (state rn') = rs_round (state rn)" using start by simp
    note s = set_runner [OF tab assms(2,5) r' disjI2 [OF e'], folded T']
    have "keyed T' aid = keyed T aid"
      using assms(5) e' by (simp add: keyed_def seat_view_def T')
    then have "good m du h arenas b aid T'" using s(1,2) assms(1) by (simp add: good_def)
    moreover have "coin_total arenas f T' = coin_total arenas f T" for f
    proof (cases "entries (state rn') = []")
      case True
      then have "escrow_of f T aid = 0" using e' assms(5) by (simp add: escrow_of_def)
      then show ?thesis using s(3) [of f] True by simp
    next
      case False
      then show ?thesis using s(3) [of f] by simp
    qed
    ultimately show ?thesis using good_later by blast
  next
    case (settle r s1)
    define U where "U = onSettle h q k aid r s1 T"
    have rn': "rn' = freshLobby m du fr (rs_round (state rn) + 1) (rn\<lparr>state := s1\<rparr>)" using settle by simp
    have T': "T' = U\<lparr>runners := (runners U)(aid := Some rn')\<rparr>"
      using assms(6) t settle(5) by (auto simp: tick_arena_def U_def Let_def)
    have s1: "rs_round s1 = rs_round (state rn)" "entries s1 = entries (state rn)" by (simp_all add: settle(4))
    obtain sec where res: "r = simulateRound m (deriveSeed m sec (entries s1)) (entries s1)
        (newRoundConfig du (rs_mode s1) (rs_multiplier s1))"
      using settle(6) by (auto simp: played_def split: option.splits)
    have dis: "distinct (map e_id (entries s1))" using ok s1 by (simp add: named_entries_def)
    have "tickMs (newRoundConfig du (rs_mode s1) (rs_multiplier s1)) \<noteq> 0" by (simp add: newRoundConfig_def)
    note paid = engine_settled_coins [OF dis this, of m "deriveSeed m sec (entries s1)", folded res, unfolded s1(2)]
    note S = onSettle_effect [OF assms(1-5) s1(1) _ _ _ U_def]
    have 1: "good m du h arenas b aid U" "runners U = runners T" "keyed U aid"
      "coin_total arenas f U = coin_total arenas f T + escrow_of f T aid" "escrow_of f U aid = escrow_of f T aid" for f
      using S paid by auto
    have tu: "table_ok m du h arenas U" using 1(1) by (simp add: good_def)
    have ru: "runners U aid = Some rn" using 1(2) assms(5) by simp
    have e: "entries (state rn') = []" "round_ok m du rn'" by (simp_all add: rn' freshLobby_ok)
    note F = set_runner [OF tu assms(2) ru e(2) disjI1 [OF e(1)], folded T']
    have "recent aid (b + 1) U" using 1(1,3) by (simp add: good_def)
    then have "recent aid (if keyed T' aid then Suc b + 1 else Suc b) T'"
      using F(2) recent_newest [of aid "Suc b" T'] by simp
    then have "good m du h arenas (Suc b) aid T'" using F(1) by (simp add: good_def)
    then show ?thesis using F(3) 1(4,5) e(1) by simp
  qed
qed

lemma pass_arena_step:
  assumes "good m du h arenas b aid T" and "house_ok h arenas" and "b \<le> 30" and "aid \<in> set arenas"
  shows "good m du h arenas (Suc b) aid (pass_arena m du h q k now fr aid T) \<and>
    (\<forall>f. coin_total arenas f (pass_arena m du h q k now fr aid T) = coin_total arenas f T)"
proof -
  have b: "b \<le> 31" "Suc b \<le> 31" using assms(3) by auto
  define T1 where "T1 = (if in_lobby aid T \<and> lastPhase T aid \<noteq> Some Lobby then open_lobby h q k aid T else T)"
  have s1: "good m du h arenas b aid T1" "steady arenas aid T T1"
    using open_lobby_step [OF assms(1,2) b(1) assms(4)] assms(1) by (auto simp: T1_def steady_refl)
  show ?thesis
  proof (cases "runners T1 aid")
    case None
    then have "pass_arena m du h q k now fr aid T = T1"
      unfolding pass_arena_def Let_def T1_def [symmetric] by simp
    then show ?thesis using good_later [OF s1(1)] s1(2) by (simp add: steady_def)
  next
    case (Some rn)
    define T2 where "T2 = T1\<lparr>lastPhase := (lastPhase T1)(aid := Some (phase (state rn)))\<rparr>"
    have c2: "runners T2 = runners T1" "roundPx T2 = roundPx T1" "crew T2 = crew T1" by (simp_all add: T2_def)
    have g2: "good m du h arenas b aid T2" using core_steady(1) [OF c2] s1(1) by simp
    have r2: "runners T2 aid = Some rn" by (simp add: c2 Some)
    obtain fin T3 where t: "tick_arena m du h q k now fr aid rn T2 = (fin, T3)" by fastforce
    note s3 = tick_arena_step [OF g2 assms(2) b(1) assms(4) r2 t]
    define T4 where "T4 = (open_lobby h q k aid T3)\<lparr>lastPhase := (lastPhase T3)(aid := Some Lobby)\<rparr>"
    have eq: "pass_arena m du h q k now fr aid T = (if fin \<and> in_lobby aid T3 then T4 else T3)"
      unfolding pass_arena_def Let_def T1_def [symmetric] Some option.case T2_def [symmetric] t prod.case
        T4_def [symmetric] by (rule refl)
    have o: "good m du h arenas (Suc b) aid (open_lobby h q k aid T3) \<and> steady arenas aid T3 (open_lobby h q k aid T3)"
      by (rule open_lobby_step [OF conjunct1 [OF s3] assms(2) b(2) assms(4)])
    have c4: "runners T4 = runners (open_lobby h q k aid T3)" "roundPx T4 = roundPx (open_lobby h q k aid T3)"
      "crew T4 = crew (open_lobby h q k aid T3)" by (simp_all add: T4_def)
    have g4: "good m du h arenas (Suc b) aid T4" using core_cong(1) [OF c4] o by simp
    have t4: "coin_total arenas f T4 = coin_total arenas f T3" for f
      using core_cong(4) [OF c4] o by (simp add: steady_def)
    have t3: "coin_total arenas f T3 = coin_total arenas f T" for f
      using s3 core_cong(4) [OF c2] s1(2) by (simp add: steady_def)
    show ?thesis unfolding eq using s3 g4 t3 t4 by simp
  qed
qed

subsection \<open>Conservation\<close>

fun op_arena :: "table_op \<Rightarrow> string" where
  "op_arena (PlayerEnters q k w aid sd asked ref) = aid"
| "op_arena (WatchBook q k aid) = aid"
| "op_arena (LoopPass q k now fr aid) = aid"
| "op_arena (LevelBots q) = []"

text \<open>The wallet and the referrer a socket names have no separators of the server's own ids (addresses have
  none), and a referral is paid in the coin of the arena's slot, or there is none.\<close>

fun fair_op :: "string list \<Rightarrow> table_op \<Rightarrow> tables \<Rightarrow> bool" where
  "fair_op arenas (PlayerEnters q k w aid sd asked ref) T \<longleftrightarrow>
     plain_name w \<and> plain_name ref \<and>
     (slot (fields_of aid) sd = coin_of sd \<or> ref = [] \<and> referrer_of w (book_of T) = None)"
| "fair_op arenas (WatchBook q k aid) T \<longleftrightarrow> aid \<in> set arenas"
| "fair_op arenas (LoopPass q k now fr aid) T \<longleftrightarrow> aid \<in> set arenas"
| "fair_op arenas (LevelBots q) T \<longleftrightarrow> True"

lemma table_step_good:
  assumes "house_ok h arenas" and "table_ok m du h arenas T" and "recent (op_arena x) 30 T" and "fair_op arenas x T"
  shows "table_ok m du h arenas (table_step m du h x T) \<and>
    (\<forall>f. coin_total arenas f (table_step m du h x T) = coin_total arenas f T)"
proof -
  have g: "good m du h arenas 30 (op_arena x) T"
    using assms(2,3) recent_newest [of "op_arena x" 30 T 31] by (simp add: good_def)
  have dist: "distinct arenas" using assms(1) by (simp add: house_ok_def)
  show ?thesis
  proof (cases x)
    case (PlayerEnters q k w aid sd asked ref)
    have f: "plain_name w" "plain_name ref"
      "slot (fields_of aid) sd = coin_of sd \<or> ref = [] \<and> referrer_of w (book_of T) = None"
      using assms(4) PlayerEnters by simp_all
    obtain res T' where e: "enter_handler h q k w aid sd asked ref T = (res, T')" by fastforce
    have g': "good m du h arenas 30 aid T" using g PlayerEnters by simp
    obtain rcut where r: "good m du h arenas 30 aid T'"
      "\<And>f. coin_total arenas f T' = coin_total arenas f T
        - (if f = slot (fields_of aid) sd then rcut else 0) + (if f = coin_of sd then rcut else 0)"
      "ref = [] \<Longrightarrow> referrer_of w (book_of T) = None \<Longrightarrow> rcut = 0"
      using enter_handler_effect [OF g' assms(1) _ f(1,2) e] by (metis numeral_le_iff semiring_norm(68,69,71,72,73))
    have "coin_total arenas f T' = coin_total arenas f T" for f
      using r(2) [of f] r(3) f(3) by auto
    then show ?thesis using r(1) PlayerEnters e by (simp add: good_def)
  next
    case (WatchBook q k aid)
    then show ?thesis
      using watch_book_step [OF _ dist, of m du h 30 aid T q k] g by (simp add: steady_def good_def)
  next
    case (LoopPass q k now fr aid)
    then show ?thesis
      using pass_arena_step [OF _ assms(1), of m du 30 aid T q k now fr] g assms(4) by (simp add: good_def)
  next
    case (LevelBots q)
    have "house_move (pool h) (book_of T) (levelBots h q (book_of T))"
      using levelBots_move book_ready [OF good_book [OF g]] assms(1) by (simp add: book_of_def house_ok_def)
    then have "coin_sum f (levelBots h q (book_of T)) = coin_sum f (book_of T)" for f by (rule house_moveD)
    then show ?thesis
      using book_keep [OF g, of "levelBots h q"] levelBots_roots [of h q "book_of T"] LevelBots
      by (simp add: good_def steady_def)
  qed
qed

text \<open>Runs of the tables. The rounds that are open when an operation on another arena runs have young
  prices: at most thirty rounds have frozen one since.\<close>

inductive plays :: "host \<Rightarrow> durations \<Rightarrow> house \<Rightarrow> string list \<Rightarrow> tables \<Rightarrow> tables \<Rightarrow> bool"
  for m du h arenas T0 where
  plays_start: "plays m du h arenas T0 T0"
| plays_step: "plays m du h arenas T0 T \<Longrightarrow> recent (op_arena x) 30 T \<Longrightarrow> fair_op arenas x T \<Longrightarrow>
    plays m du h arenas T0 (table_step m du h x T)"

text \<open>C1: No coin is made or lost at the arenas. Whatever order entries, loop passes, the house's answers and
  settlements come in, what the accounts and the open rounds (at their frozen prices) hold in a coin
  adds up to what it was at first. Conditions: enabled arenas are two-sided and listed once; names hold
  no separator; no pool id looks like a fighter's; no fake bank, bank cap not below 0, house stakes
  above 0. At first account ids are distinct, a pool account exists, referrers have plain names,
  open rounds are well-formed and no stored fighter id is above the running number; the theorem keeps
  that up, but server.ts restarts the number at 0, so after a restart it may fail. Each step: an entry
  is on bull or uwu (the server takes other values and loses the stake), with a referrer only where the
  arena pays the side's own coin; open rounds' prices are among the 30 newest rows of the bounded map.\<close>

theorem arenas_conserve_every_coin:
  assumes "plays m du h arenas T0 T" and "house_ok h arenas" and "table_ok m du h arenas T0"
  shows "coin_total arenas f T = coin_total arenas f T0 \<and> table_ok m du h arenas T"
  using assms(1)
proof (induction rule: plays.induct)
  case plays_start
  then show ?case using assms(3) by simp
next
  case (plays_step T x)
  then show ?case using table_step_good [OF assms(2) _ plays_step.hyps(2,3)] by simp
qed

definition demo_luck :: luck where
  "demo_luck =
     \<lparr>lk_order = (\<lambda>_ _. 0), lk_want = (\<lambda>_. 0), lk_skip = (\<lambda>_. 1), lk_side = (\<lambda>_. 0), lk_stake = (\<lambda>_. 0),
      lk_swarm = (\<lambda>_. 1 / 2), lk_dice = (\<lambda>_. demo_dice)\<rparr>"

definition no_stat :: arena_stat where
  "no_stat = \<lparr>st_deployed = 0, st_take = 0, st_matches = 0, st_winsA = 0, st_winsB = 0, st_stolenA = 0, st_stolenB = 0\<rparr>"

text \<open>One arena, its first lobby, a funded pool, and a player with fifty coins.\<close>

definition demo_tables :: "string \<Rightarrow> tables" where
  "demo_tables aid =
     \<lparr>crew = demo_first_start\<lparr>accts := accts demo_first_start @ [set_bal FBull 50 (new_account ''a'' ''You'' Bull False)]\<rparr>,
      runners = (\<lambda>i. if i = aid then Some (new_runner still_host demo_durations demo_fresh Normal 1) else None),
      roundPx = [], roundFlow = [], matchedBook = [], treasury = (\<lambda>_. 0), totalDeployed = (\<lambda>_. 0),
      depSide = (\<lambda>_ _. 0), statsA = (\<lambda>_. no_stat), roundsOf = (\<lambda>_. 0), roundsByArena = (\<lambda>_. 0),
      lastPhase = (\<lambda>_. None)\<rparr>"

lemma new_runner_facts: "round_ok m du (new_runner m du fr mode n)" "entries (state (new_runner m du fr mode n)) = []"
  by (simp_all add: new_runner_def freshLobby_ok)

lemma demo_tables_ok: "table_ok still_host demo_durations demo_house [aid] (demo_tables aid)"
proof -
  have "book_ok (pool demo_house) (crew (demo_tables aid))"
    using bot_id_def
    by (auto simp: book_ok_def demo_tables_def demo_first_start_def demo_restart_def demo_house_def ids_def refs_ok_def
        new_account_def plain_name_def bot_id_def Cons_eq_append_conv)
  moreover have "arena_ok still_host demo_durations (demo_tables aid) c" for c
    by (simp add: arena_ok_def demo_tables_def new_runner_facts named_entries_def)
  ultimately show ?thesis by (simp add: table_ok_def) (simp add: demo_tables_def)
qed

lemma demo_house_ok: "aid \<in> {''au-normal'', ''as-normal''} \<Longrightarrow> house_ok demo_house [aid]"
  by (auto simp: house_ok_def demo_house_def arenaFields_def part0_def plain_name_def starts_with_def)

lemma demo_recent: "recent aid k (demo_tables aid)"
  by (simp add: recent_def demo_tables_def)

theorem arenas_conserve_every_coin_witness:
  "coin_total [''au-normal''] FBull (table_step still_host demo_durations demo_house
     (PlayerEnters demo_quotes demo_luck ''a'' ''au-normal'' Bull (Fin 10) []) (demo_tables ''au-normal'')) = 150"
proof -
  let ?T = "demo_tables ''au-normal''" and ?x = "PlayerEnters demo_quotes demo_luck ''a'' ''au-normal'' Bull (Fin 10) []"
  have "fair_op [''au-normal''] ?x ?T" by (simp add: plain_name_def fields_of_def arenaFields_def part0_def slot_def)
  from plays_step [OF plays_start _ this, of still_host demo_durations demo_house] demo_recent
  have "plays still_host demo_durations demo_house [''au-normal''] ?T (table_step still_host demo_durations demo_house ?x ?T)"
    by simp
  from arenas_conserve_every_coin [OF this demo_house_ok demo_tables_ok, of FBull]
  have "coin_total [''au-normal''] FBull (table_step still_host demo_durations demo_house ?x ?T) =
      coin_total [''au-normal''] FBull ?T"
    by simp
  moreover have "coin_total [''au-normal''] FBull ?T = 150" by code_simp
  ultimately show ?thesis by simp
qed

end
