(* ===== verification/Engine_Leaks.thy ===== *)
theory Engine_Leaks
  imports Engine_Payout
begin

text \<open>
  The two places where the arenas do not conserve coins: a referral whose coin is chosen by the side's
  name, and the refund of the rounds that are open when the process stops.
\<close>

subsection \<open>Referrals\<close>

definition demo_referred :: "string \<Rightarrow> tables" where
  "demo_referred aid =
     on_book (\<lambda>l. l @ [(set_bal FSol 50 (new_account ''b'' ''You'' Uwu False))\<lparr>refBy := Some ''a''\<rparr>]) (demo_tables aid)"

lemma demo_referred_ok: "table_ok still_host demo_durations demo_house [aid] (demo_referred aid)"
proof -
  have "book_ok (pool demo_house) (crew (demo_referred aid))"
    by (auto simp: book_ok_def demo_referred_def demo_tables_def demo_first_start_def demo_restart_def demo_house_def
        ids_def refs_ok_def new_account_def plain_name_def bot_id_def Cons_eq_append_conv book_of_def)
  moreover have "arena_ok still_host demo_durations (demo_referred aid) c" for c
    by (simp add: arena_ok_def demo_referred_def demo_tables_def new_runner_facts named_entries_def)
  ultimately show ?thesis by (simp add: table_ok_def) (simp add: demo_referred_def demo_tables_def)
qed

text \<open>C37: A referral is paid in the coin of the side's name, \<open>bull\<close> or \<open>uwu\<close>, and not in the coin
  the fee was taken in. In an arena where the two differ, every accepted entry of a referred player takes a tenth
  of its fee out of the arena's coin, where it leaves the books, and makes as many units of the other coin out of
  nothing.\<close>

theorem referral_mints_another_coin:
  assumes "enter_handler h q k w aid sd asked ref T = (Inr stake, T')"
    and "slot (fields_of aid) sd \<noteq> coin_of sd" and "referrer_of w (book_of T) = Some r"
    and "house_ok h arenas" and "table_ok m du h arenas T" and "recent aid 30 T"
    and "plain_name w" and "plain_name ref"
  shows "0 < stake \<and>
    coin_total arenas (slot (fields_of aid) sd) T' = coin_total arenas (slot (fields_of aid) sd) T - stake * FEE / 10 \<and>
    coin_total arenas (coin_of sd) T' = coin_total arenas (coin_of sd) T + stake * FEE / 10"
proof -
  have g: "good m du h arenas 30 aid T"
    using assms(5,6) recent_newest [of aid 30 T 31] by (simp add: good_def)
  have "(30::nat) \<le> 31" by simp
  then obtain rcut where "coin_total arenas f T' = coin_total arenas f T
        - (if f = slot (fields_of aid) sd then rcut else 0) + (if f = coin_of sd then rcut else 0)"
      and "0 < stake \<and> (referrer_of w (book_of T) \<noteq> None \<longrightarrow> rcut = stake * FEE / 10)" for f
    using enter_handler_effect [OF g assms(4) _ assms(7,8,1)] by metis
  then show ?thesis using assms(2,3) by auto
qed

theorem referral_mints_another_coin_witness:
  "case enter_handler demo_house demo_quotes demo_luck ''b'' ''as-normal'' Uwu (Fin 10) [] (demo_referred ''as-normal'') of
     (Inr stake, T') \<Rightarrow> coin_total [''as-normal''] FUwu T' = stake * FEE / 10
   | _ \<Rightarrow> False"
proof -
  let ?T = "demo_referred ''as-normal''"
  obtain res T' where e: "enter_handler demo_house demo_quotes demo_luck ''b'' ''as-normal'' Uwu (Fin 10) [] ?T = (res, T')"
    by fastforce
  have "fst (enter_handler demo_house demo_quotes demo_luck ''b'' ''as-normal'' Uwu (Fin 10) [] ?T) = Inr 10"
    by code_simp
  then have e': "enter_handler demo_house demo_quotes demo_luck ''b'' ''as-normal'' Uwu (Fin 10) [] ?T = (Inr 10, T')"
    using e by simp
  have s: "slot (fields_of ''as-normal'') Uwu \<noteq> coin_of Uwu" "referrer_of ''b'' (book_of ?T) = Some ''a''"
    "coin_total [''as-normal''] FUwu ?T = 0"
    by code_simp+
  have r: "recent ''as-normal'' 30 ?T" by (simp add: recent_def demo_referred_def demo_tables_def)
  have p: "plain_name ''b''" "plain_name []" by (simp_all add: plain_name_def)
  have h: "house_ok demo_house [''as-normal'']" by (rule demo_house_ok) simp
  show ?thesis
    using referral_mints_another_coin [OF e' s(1,2) h demo_referred_ok r p] s(3) e' by simp
qed

subsection \<open>The refund on shutdown\<close>

lemma pxForRound_frozen:
  assumes "0 < frozen_px T aid n f"
  shows "pxForRound q aid n f T = (frozen_px T aid n f, T)"
proof -
  have "map_of (roundPx T) (aid, n) \<noteq> None"
    using assms by (auto simp: frozen_px_def row_at_def no_px_def split: option.splits)
  then have "ensure_key (aid, n) no_px (roundPx T) = roundPx T" by (auto simp: ensure_key_def)
  then show ?thesis using assms by (simp add: pxForRound_def Let_def frozen_px_def)
qed

lemma refund_entries:
  assumes "list_all (entry_ok T aid n) es"
    and "list_all (\<lambda>e. 0 \<le> e_stake e) es"
  shows "runners (fold (refund_one q aid n) es T) = runners T \<and> roundPx (fold (refund_one q aid n) es T) = roundPx T \<and>
    ids (book_of (fold (refund_one q aid n) es T)) = ids (book_of T) \<and>
    coin_sum f (book_of (fold (refund_one q aid n) es T)) =
      coin_sum f (book_of T) + sum_list (map (entry_coins (fields_of aid) (frozen_px T aid n) f) es) / (1 - FEE)"
  using assms
proof (induction es arbitrary: T)
  case (Cons e es)
  define g where "g = slot (fields_of aid) (e_side e)"
  define i where "i = wallet_of (e_id e)"
  have eo: "i \<in> ids (book_of T)" "0 < frozen_px T aid n g" using Cons.prems(1) by (simp_all add: entry_ok_def g_def i_def)
  obtain a where a: "get (book_of T) i = Some a" using eo(1) get_ids [of "book_of T" i] by auto
  define u where "u = e_stake e / (1 - FEE) / frozen_px T aid n g"
  have u0: "0 \<le> u" using Cons.prems(2) eo(2) FEE_pos(2) unfolding u_def by (intro divide_nonneg_pos) simp_all
  define U where "U = refund_one q aid n e T"
  have U: "U = (if u > 0 then on_book (upd i (add_bal g u)) T else T)"
    using a eo(2) pxForRound_frozen [OF eo(2)]
    by (simp add: U_def refund_one_def i_def [symmetric] g_def [symmetric] unitsAtRound_def Let_def u_def)
  have same: "runners U = runners T" "roundPx U = roundPx T" "ids (book_of U) = ids (book_of T)"
    using upd_keeps(2) [of "add_bal g u" i] by (simp_all add: U)
  have px: "frozen_px U = frozen_px T" by (intro ext) (simp add: frozen_px_def same)
  have "entry_ok U = entry_ok T" by (intro ext) (simp only: entry_ok_def px same)
  then have "list_all (entry_ok U aid n) es" "list_all (\<lambda>e. 0 \<le> e_stake e) es" using Cons.prems by simp_all
  note ih = Cons.IH [OF this]
  have "coin_sum f (book_of U) = coin_sum f (book_of T) + entry_coins (fields_of aid) (frozen_px T aid n) f e / (1 - FEE)"
    using u0 total_upd_add [OF a, of f g u] by (auto simp: U entry_coins_def g_def [symmetric] u_def)
  then show ?case using ih by (simp add: U_def [symmetric] same px add_divide_distrib)
qed simp

definition stakes_positive :: "string list \<Rightarrow> tables \<Rightarrow> bool" where
  "stakes_positive arenas T \<longleftrightarrow>
     list_all (\<lambda>aid. case runners T aid of None \<Rightarrow> True
       | Some r \<Rightarrow> list_all (\<lambda>e. 0 \<le> e_stake e) (entries (state r))) arenas"

lemma refund_arenas:
  assumes "\<And>c. arena_ok m du T c" and "stakes_positive arenas T"
  shows "coin_sum f (book_of (refundOpenRounds q arenas T)) =
    coin_sum f (book_of T) + sum_list (map (escrow_of f T) arenas) / (1 - FEE)"
  using assms
proof (induction arenas arbitrary: T)
  case Nil
  then show ?case by (simp add: refundOpenRounds_def)
next
  case (Cons aid arenas)
  define U where "U = refund_arena q aid T"
  have U: "runners U = runners T \<and> roundPx U = roundPx T \<and> ids (book_of U) = ids (book_of T) \<and>
      coin_sum f (book_of U) = coin_sum f (book_of T) + escrow_of f T aid / (1 - FEE)"
  proof (cases "runners T aid")
    case None
    then show ?thesis by (simp add: U_def refund_arena_def escrow_of_def)
  next
    case (Some rn)
    have "list_all (entry_ok T aid (rs_round (state rn))) (entries (state rn))"
      using Cons.prems(1) [of aid] Some by (simp add: arena_ok_def)
    moreover have "list_all (\<lambda>e. 0 \<le> e_stake e) (entries (state rn))"
      using Cons.prems(2) Some by (simp add: stakes_positive_def)
    ultimately show ?thesis
      using refund_entries [of T aid "rs_round (state rn)" "entries (state rn)" q f] Some
      by (simp add: U_def refund_arena_def escrow_of_def)
  qed
  have px: "frozen_px U = frozen_px T" by (intro ext) (simp add: frozen_px_def U)
  have eo: "entry_ok U = entry_ok T" by (intro ext) (simp only: entry_ok_def px U)
  have "arena_ok m du U c" for c using Cons.prems(1) [of c] by (simp only: arena_ok_def eo U)
  moreover have "stakes_positive arenas U" using Cons.prems(2) by (simp add: stakes_positive_def U)
  ultimately have ih: "coin_sum f (book_of (refundOpenRounds q arenas U)) =
      coin_sum f (book_of U) + sum_list (map (escrow_of f U) arenas) / (1 - FEE)"
    by (rule Cons.IH)
  have "escrow_of f U = escrow_of f T" by (intro ext) (simp only: escrow_of_def px U)
  then show ?case
    using ih U by (simp add: refundOpenRounds_def U_def [symmetric] add_divide_distrib)
qed

text \<open>C38: The refund on shutdown gives back more than the open rounds hold. Every stake is refunded gross of the
  deploy fee, but the fee of every entry has already been credited, to the treasury's account or in part to a
  referrer, and stays there. Afterwards each coin's total over the accounts exceeds what accounts and open rounds
  held together by exactly those fees: the fraction \<open>FEE / (1 - FEE)\<close> of what was at stake.\<close>

theorem shutdown_refund_mints_the_fees:
  assumes "table_ok m du h arenas T" and "stakes_positive arenas T"
  shows "coin_sum f (book_of (refundOpenRounds q arenas T)) =
    coin_total arenas f T + sum_list (map (escrow_of f T) arenas) * (FEE / (1 - FEE))"
proof -
  have a: "arena_ok m du T c" for c using assms(1) by (simp add: table_ok_def)
  have split: "x / (1 - FEE) = x + x * (FEE / (1 - FEE))" for x
  proof -
    have "x / (1 - FEE) = x * (1 / (1 - FEE))" by (simp only: times_divide_eq_right mult_1_right)
    also have "1 / (1 - FEE) = 1 + FEE / (1 - FEE)"
      by code_simp
    finally show ?thesis by (simp only: distrib_left mult_1_right)
  qed
  show ?thesis
    unfolding refund_arenas [OF a assms(2)] split [of "sum_list (map (escrow_of f T) arenas)"] coin_total_def
    by (simp only: add.assoc)
qed

text \<open>A table with one open stake: the player of the example has entered with ten coins.\<close>

definition demo_open :: tables where
  "demo_open = table_step still_host demo_durations demo_house
     (PlayerEnters demo_quotes demo_luck ''a'' ''au-normal'' Bull (Fin 10) []) (demo_tables ''au-normal'')"

lemma demo_open_ok: "table_ok still_host demo_durations demo_house [''au-normal''] demo_open"
proof -
  have h: "house_ok demo_house [''au-normal'']" by (rule demo_house_ok) simp
  show ?thesis
    unfolding demo_open_def
    by (rule conjunct1 [OF table_step_good [OF h demo_tables_ok]])
      (simp_all add: demo_recent plain_name_def fields_of_def arenaFields_def part0_def slot_def)
qed

theorem shutdown_refund_mints_the_fees_witness:
  "coin_total [''au-normal''] FBull demo_open = 150 \<and>
   coin_sum FBull (book_of (refundOpenRounds demo_quotes [''au-normal''] demo_open)) = 150 + 998 / 100 * (2 / 998)"
proof -
  have "stakes_positive [''au-normal''] demo_open" "coin_total [''au-normal''] FBull demo_open = 150"
    "sum_list (map (escrow_of FBull demo_open) [''au-normal'']) = 998 / 100" "FEE / (1 - FEE) = 2 / 998"
    by code_simp+
  with shutdown_refund_mints_the_fees [OF demo_open_ok, of FBull demo_quotes]
  show ?thesis by (simp only: simp_thms)
qed

end
