(* ===== verification/Arena_Program.thy ===== *)
theory Arena_Program
  imports Chain_Clock House_Bank
begin

text \<open>
  The life of a round on the chain: the instructions a client can build
  (\<^verbatim>\<open>src/er-demo/src/chain/round.ts\<close>) and what the program does with them
  (\<^verbatim>\<open>src/programs/bulls-arena/src/lib.rs\<close>), as far as the phase of a round, its clock, its
  seats and who owns its account go. Money is modelled with the round algorithm and left out here.
  How a fight changes its fighters is an argument (\<open>fight\<close>, the function
  \<open>advance_fight\<close>). An account is either with the program on the base layer or delegated to the
  rollup; the instructions that run on the rollup need the second and the ones on the base layer the
  first.
\<close>

datatype round_ix = InitArena | OpenRound int int | DelegateRound int | Enter int string er_side int
  | CloseLobbyAndDraw int bool | CallbackSeed int | Tick int int | Resolve int | AbandonRound int
  | CloseRoundIx int | InitTreasury | SweepHouseTake int | CloseRoundAccount int

datatype prog_error = RoundOutOfOrder | NotInLobby | ZeroStake | RoundFull | LobbyClosed
  | LobbyStillOpen | NotEnoughFighters | NotDrawing | BadStepCount | NotFighting | FightNotOverYet
  | LobbyNotAbandonable | NotSettled | RoundNotTerminal | AlreadySwept | RoundNotSwept | RoundTooRecent
  | NoSuchAccount | AccountInUse | NotDelegated | WrongOwner

record program_round =
  pr_phase :: phase
  pr_openedAt :: int
  pr_closesAt :: int
  pr_startedAt :: int
  pr_fighters :: "(seat \<times> bool) list"
  pr_count :: nat
  pr_ticks :: int
  pr_swept :: bool
  pr_delegated :: bool

record arena_chain =
  ac_counter :: "int option"
  ac_rounds :: "int \<rightharpoonup> program_round"
  ac_treasury :: "int option"

type_synonym fight = "(seat \<times> bool) list \<Rightarrow> nat \<Rightarrow> int \<Rightarrow> int \<Rightarrow> (seat \<times> bool) list"

definition demand :: "bool \<Rightarrow> prog_error \<Rightarrow> prog_error + unit" where
  "demand good e = (if good then Inr () else Inl e)"

definition clamp_lobby_seconds :: "int \<Rightarrow> int" where
  "clamp_lobby_seconds requested = min MAX_LOBBY_SECONDS (max MIN_LOBBY_SECONDS requested)"

definition enough_to_fight :: "nat \<Rightarrow> bool" where
  "enough_to_fight n \<longleftrightarrow> 2 \<le> n"

definition lobby_may_close :: "nat \<Rightarrow> int \<Rightarrow> int \<Rightarrow> bool" where
  "lobby_may_close n closes now \<longleftrightarrow> \<not> lobbyIsOpen closes (of_int now) \<or> MAX_FIGHTERS \<le> n"

definition draw_is_permitted :: "nat \<Rightarrow> int \<Rightarrow> int \<Rightarrow> bool \<Rightarrow> bool" where
  "draw_is_permitted n closes now by_authority \<longleftrightarrow> by_authority \<or> lobby_may_close n closes now"

text \<open>\<open>fight_is_over\<close>: a side has nobody standing.\<close>

definition standing :: "er_side \<Rightarrow> (seat \<times> bool) list \<Rightarrow> nat" where
  "standing s fs = length (filter (\<lambda>(f, dead). \<not> dead \<and> seat_side f = s) fs)"

definition fight_is_over :: "(seat \<times> bool) list \<Rightarrow> nat \<Rightarrow> bool" where
  "fight_is_over fs n \<longleftrightarrow> standing Side0 (take n fs) = 0 \<or> standing Side1 (take n fs) = 0"

definition catch_up :: "fight \<Rightarrow> int \<Rightarrow> int \<Rightarrow> program_round \<Rightarrow> program_round" where
  "catch_up fight now limit r =
     (let n = pr_count r; target = canonicalCursor (pr_startedAt r) n (of_int now); from_at = pr_ticks r in
      if n < 2 \<or> target \<le> from_at then r
      else let steps = min (target - from_at) limit in
        r\<lparr>pr_fighters := fight (pr_fighters r) n from_at steps, pr_ticks := from_at + steps\<rparr>)"

definition is_caught_up :: "int \<Rightarrow> program_round \<Rightarrow> bool" where
  "is_caught_up now r \<longleftrightarrow> canonicalCursor (pr_startedAt r) (pr_count r) (of_int now) \<le> pr_ticks r"

text \<open>Each instruction on the round it names.\<close>

definition ix_enter :: "int \<Rightarrow> string \<Rightarrow> er_side \<Rightarrow> int \<Rightarrow> program_round \<Rightarrow> prog_error + program_round" where
  "ix_enter now who s units r =
     rbind (demand (pr_phase r = Lobby) NotInLobby) (\<lambda>_.
     rbind (demand (0 < units) ZeroStake) (\<lambda>_.
     rbind (demand (pr_count r < MAX_FIGHTERS) RoundFull) (\<lambda>_.
     rbind (demand (lobbyIsOpen (pr_closesAt r) (of_int now)) LobbyClosed) (\<lambda>_.
       Inr (r\<lparr>pr_fighters := (pr_fighters r)[pr_count r := (\<lparr>seat_wallet = who, seat_side = s\<rparr>, False)],
              pr_count := pr_count r + 1\<rparr>)))))"

definition ix_draw :: "int \<Rightarrow> bool \<Rightarrow> program_round \<Rightarrow> prog_error + program_round" where
  "ix_draw now by_authority r =
     rbind (demand (pr_phase r = Lobby) NotInLobby) (\<lambda>_.
     rbind (demand (draw_is_permitted (pr_count r) (pr_closesAt r) now by_authority) LobbyStillOpen) (\<lambda>_.
     rbind (demand (enough_to_fight (pr_count r)) NotEnoughFighters) (\<lambda>_.
       Inr (r\<lparr>pr_phase := Drawing\<rparr>))))"

definition ix_callback :: "int \<Rightarrow> program_round \<Rightarrow> prog_error + program_round" where
  "ix_callback now r =
     rbind (demand (pr_phase r = Drawing) NotDrawing) (\<lambda>_.
       Inr (r\<lparr>pr_phase := Fight, pr_startedAt := now\<rparr>))"

definition ix_tick :: "fight \<Rightarrow> int \<Rightarrow> int \<Rightarrow> program_round \<Rightarrow> prog_error + program_round" where
  "ix_tick fight now steps r =
     rbind (demand (0 < steps) BadStepCount) (\<lambda>_.
     rbind (demand (pr_phase r = Fight) NotFighting) (\<lambda>_.
     rbind (demand (2 \<le> pr_count r) NotEnoughFighters) (\<lambda>_.
       Inr (catch_up fight now (min steps MAX_STEPS_PER_CALL) r))))"

definition ix_resolve :: "fight \<Rightarrow> int \<Rightarrow> program_round \<Rightarrow> prog_error + program_round" where
  "ix_resolve fight now r =
     rbind (demand (pr_phase r = Fight) NotFighting) (\<lambda>_.
     rbind (demand (2 \<le> pr_count r) NotEnoughFighters) (\<lambda>_.
     (let r' = catch_up fight now MAX_STEPS_PER_CALL r;
          over = fight_is_over (pr_fighters r') (pr_count r');
          elapsed = max 0 (now - pr_startedAt r')
      in if \<not> over \<and> \<not> is_caught_up now r' then Inr r'
         else rbind (demand (over \<or> FIGHT_TIMEOUT_SECONDS \<le> elapsed) FightNotOverYet) (\<lambda>_.
           Inr (r'\<lparr>pr_phase := Settled\<rparr>)))))"

definition ix_abandon :: "int \<Rightarrow> program_round \<Rightarrow> prog_error + program_round" where
  "ix_abandon now r =
     rbind (demand (pr_phase r = Lobby) NotInLobby) (\<lambda>_.
     rbind (demand (lobbyIsDead (pr_count r) (pr_closesAt r) (of_int now)) LobbyNotAbandonable) (\<lambda>_.
       Inr (r\<lparr>pr_phase := Abandoned, pr_delegated := False\<rparr>)))"

definition ix_close :: "program_round \<Rightarrow> prog_error + program_round" where
  "ix_close r =
     rbind (demand (pr_phase r = Settled) NotSettled) (\<lambda>_. Inr (r\<lparr>pr_delegated := False\<rparr>))"

definition ended :: "program_round \<Rightarrow> bool" where
  "ended r \<longleftrightarrow> pr_phase r = Settled \<or> pr_phase r = Abandoned"

definition apply_sweep :: "program_round \<Rightarrow> prog_error + program_round" where
  "apply_sweep r =
     rbind (demand (ended r) RoundNotTerminal) (\<lambda>_.
     rbind (demand (\<not> pr_swept r) AlreadySwept) (\<lambda>_. Inr (r\<lparr>pr_swept := True\<rparr>)))"

definition check_close_permitted :: "int \<Rightarrow> program_round \<Rightarrow> int \<Rightarrow> prog_error + unit" where
  "check_close_permitted n r counter =
     rbind (demand (ended r) RoundNotTerminal) (\<lambda>_.
     rbind (demand (pr_swept r) RoundNotSwept) (\<lambda>_.
       demand (n + int MIN_RETAINED_ROUNDS \<le> counter) RoundTooRecent))"

text \<open>An instruction that loads the round: on the rollup when \<open>er\<close>, else on the base layer.\<close>

definition on_round ::
  "bool \<Rightarrow> int \<Rightarrow> (program_round \<Rightarrow> prog_error + program_round) \<Rightarrow> arena_chain \<Rightarrow> prog_error + arena_chain" where
  "on_round er n f ch =
     (case ac_rounds ch n of
        None \<Rightarrow> Inl NoSuchAccount
      | Some r \<Rightarrow>
          rbind (demand (pr_delegated r = er) (if er then NotDelegated else WrongOwner)) (\<lambda>_.
          rbind (f r) (\<lambda>r'. Inr (ch\<lparr>ac_rounds := (ac_rounds ch)(n \<mapsto> r')\<rparr>))))"

definition fresh_round :: "int \<Rightarrow> int \<Rightarrow> program_round" where
  "fresh_round now lobby_seconds =
     \<lparr>pr_phase = Lobby, pr_openedAt = now, pr_closesAt = now + clamp_lobby_seconds lobby_seconds,
      pr_startedAt = 0, pr_fighters = replicate MAX_FIGHTERS (\<lparr>seat_wallet = [], seat_side = Side0\<rparr>, False),
      pr_count = 0, pr_ticks = 0, pr_swept = False, pr_delegated = False\<rparr>"

definition ix_open :: "int \<Rightarrow> int \<Rightarrow> int \<Rightarrow> arena_chain \<Rightarrow> prog_error + arena_chain" where
  "ix_open now n lobby_seconds ch =
     (case ac_counter ch of
        None \<Rightarrow> Inl NoSuchAccount
      | Some k \<Rightarrow>
          rbind (demand (ac_rounds ch n = None) AccountInUse) (\<lambda>_.
          rbind (demand (n = k + 1) RoundOutOfOrder) (\<lambda>_.
            Inr (ch\<lparr>ac_counter := Some n, ac_rounds := (ac_rounds ch)(n \<mapsto> fresh_round now lobby_seconds)\<rparr>))))"

fun run_ix :: "fight \<Rightarrow> int \<Rightarrow> round_ix \<Rightarrow> arena_chain \<Rightarrow> prog_error + arena_chain" where
  "run_ix fight now InitArena ch =
     rbind (demand (ac_counter ch = None) AccountInUse) (\<lambda>_. Inr (ch\<lparr>ac_counter := Some 0\<rparr>))"
| "run_ix fight now (OpenRound n secs) ch = ix_open now n secs ch"
| "run_ix fight now (DelegateRound n) ch = on_round False n (\<lambda>r. Inr (r\<lparr>pr_delegated := True\<rparr>)) ch"
| "run_ix fight now (Enter n who s units) ch = on_round True n (ix_enter now who s units) ch"
| "run_ix fight now (CloseLobbyAndDraw n auth) ch = on_round True n (ix_draw now auth) ch"
| "run_ix fight now (CallbackSeed n) ch = on_round True n (ix_callback now) ch"
| "run_ix fight now (Tick n steps) ch = on_round True n (ix_tick fight now steps) ch"
| "run_ix fight now (Resolve n) ch = on_round True n (ix_resolve fight now) ch"
| "run_ix fight now (AbandonRound n) ch = on_round True n (ix_abandon now) ch"
| "run_ix fight now (CloseRoundIx n) ch = on_round True n ix_close ch"
| "run_ix fight now InitTreasury ch =
     rbind (demand (ac_treasury ch = None) AccountInUse) (\<lambda>_. Inr (ch\<lparr>ac_treasury := Some 0\<rparr>))"
| "run_ix fight now (SweepHouseTake n) ch =
     (case ac_treasury ch of
        None \<Rightarrow> Inl NoSuchAccount
      | Some swept \<Rightarrow>
          rbind (on_round False n apply_sweep ch) (\<lambda>ch'. Inr (ch'\<lparr>ac_treasury := Some (swept + 1)\<rparr>)))"
| "run_ix fight now (CloseRoundAccount n) ch =
     (case (ac_rounds ch n, ac_counter ch) of
        (Some r, Some k) \<Rightarrow>
          rbind (demand (\<not> pr_delegated r) WrongOwner) (\<lambda>_.
          rbind (check_close_permitted n r k) (\<lambda>_. Inr (ch\<lparr>ac_rounds := (ac_rounds ch)(n := None)\<rparr>)))
      | _ \<Rightarrow> Inl NoSuchAccount)"

end
