(* ===== verification/Keeper_Status.thy ===== *)
theory Keeper_Status
  imports Keeper_Config
begin

text \<open>
  The status the keeper publishes and the page reads: the contract and its parser
  (\<^verbatim>\<open>src/er-demo/src/v2/data/keeperStatus.ts\<close>) and the publisher
  (\<^verbatim>\<open>src/er-demo/scripts/keeper/statusFile.ts\<close>). A JSON text is the value it denotes;
  \<open>JUndef\<close> is what reading a missing key gives. Writing the file and its timer are outside; the
  bytes the HTTP endpoint serves are the field \<open>published\<close>.
\<close>

subsection \<open>JSON values\<close>

datatype json = JUndef | JNull | JBool bool | JNum jsnum | JStr string | JArr "json list"
  | JObj "(string \<times> json) list"

definition jget :: "(string \<times> json) list \<Rightarrow> string \<Rightarrow> json" where
  "jget kvs k = (case map_of kvs k of None \<Rightarrow> JUndef | Some v \<Rightarrow> v)"

fun isRecord :: "json \<Rightarrow> (string \<times> json) list option" where
  "isRecord (JObj kvs) = Some kvs"
| "isRecord _ = None"

fun isNumber :: "json \<Rightarrow> rat option" where
  "isNumber (JNum (Fin q)) = Some q"
| "isNumber _ = None"

fun isString :: "json \<Rightarrow> string option" where
  "isString (JStr s) = Some s"
| "isString _ = None"

fun isBoolean :: "json \<Rightarrow> bool option" where
  "isBoolean (JBool b) = Some b"
| "isBoolean _ = None"

definition u64_text :: "string \<Rightarrow> bool" where
  "u64_text s \<longleftrightarrow> 1 \<le> length s \<and> length s \<le> 20 \<and> list_all (is_digit 10) s \<and>
     digits_val 10 s \<le> 18446744073709551615"

definition isU64String :: "json \<Rightarrow> string option" where
  "isU64String v = Option.bind (isString v) (\<lambda>s. if u64_text s then Some s else None)"

fun isNumberArray :: "json \<Rightarrow> rat list option" where
  "isNumberArray (JArr xs) =
     (if list_all (\<lambda>x. isNumber x \<noteq> None) xs then Some (map (\<lambda>x. the (isNumber x)) xs) else None)"
| "isNumberArray _ = None"

text \<open>A field that is null or passes a check; anything else condemns the document.\<close>

definition nullable :: "(json \<Rightarrow> 'a option) \<Rightarrow> json \<Rightarrow> 'a option option" where
  "nullable p v = (if v = JNull then Some None else map_option Some (p v))"

subsection \<open>The contract\<close>

definition KEEPER_STATUS_SCHEMA :: rat where "KEEPER_STATUS_SCHEMA = 6"

definition PHASE_NAME :: "string list" where
  "PHASE_NAME = [''Lobby'', ''Drawing'', ''Fight'', ''Settled'', ''Abandoned'']"

record keeper_round =
  kr_no :: rat
  kr_pda :: string
  kr_phase :: string
  kr_phaseCode :: int
  kr_lobbyOpenedAt :: rat
  kr_lobbyClosesAt :: rat
  kr_fightStartedAt :: rat
  kr_fighterCount :: rat
  kr_heldOpen :: bool
  kr_winner :: rat
  kr_pot :: string

record keeper_error =
  ke_at :: rat
  ke_context :: string

record low_balance =
  lb_since :: rat
  lb_lamports :: string
  lb_floorLamports :: string

datatype not_opening = LowBalance | RentNotReclaimed | RentNotSwept

record keeper_status =
  ks_startedAt :: rat
  ks_heartbeatAt :: rat
  ks_heartbeatIntervalSeconds :: rat
  ks_staleAfterSeconds :: rat
  ks_stalledSince :: "rat option"
  ks_roundsCompleted :: rat
  ks_lastError :: "keeper_error option"
  ks_wedgedRounds :: "rat list"
  ks_lowBalance :: "low_balance option"
  ks_notOpeningRounds :: "not_opening option"
  ks_houseOnlyRounds :: bool
  ks_programId :: string
  ks_arenaPda :: string
  ks_erValidator :: "(string \<times> string) option"
  ks_round :: "keeper_round option"
  ks_entriesCloseAt :: "rat option"
  ks_nextLobbyOpensAt :: "rat option"

fun reason_text :: "not_opening \<Rightarrow> string" where
  "reason_text LowBalance = ''low-balance''"
| "reason_text RentNotReclaimed = ''rent-not-reclaimed''"
| "reason_text RentNotSwept = ''rent-not-swept''"

definition NOT_OPENING_REASONS :: "not_opening list" where
  "NOT_OPENING_REASONS = [LowBalance, RentNotReclaimed, RentNotSwept]"

definition isNotOpeningReason :: "json \<Rightarrow> not_opening option" where
  "isNotOpeningReason v =
     Option.bind (isString v) (\<lambda>s. List.find (\<lambda>r. reason_text r = s) NOT_OPENING_REASONS)"

subsection \<open>Reading it\<close>

definition parseError :: "json \<Rightarrow> keeper_error option" where
  "parseError raw =
     Option.bind (isRecord raw) (\<lambda>doc.
     Option.bind (isNumber (jget doc ''at'')) (\<lambda>t.
     Option.bind (isString (jget doc ''context'')) (\<lambda>ctx.
       Some \<lparr>ke_at = t, ke_context = ctx\<rparr>)))"

definition parseLowBalance :: "json \<Rightarrow> low_balance option" where
  "parseLowBalance raw =
     Option.bind (isRecord raw) (\<lambda>doc.
     Option.bind (isNumber (jget doc ''since'')) (\<lambda>since.
     Option.bind (isU64String (jget doc ''lamports'')) (\<lambda>lam.
     Option.bind (isU64String (jget doc ''floorLamports'')) (\<lambda>fl.
       Some \<lparr>lb_since = since, lb_lamports = lam, lb_floorLamports = fl\<rparr>))))"

definition guard :: "bool \<Rightarrow> unit option" where
  "guard b = (if b then Some () else None)"

definition parseRound :: "json \<Rightarrow> keeper_round option" where
  "parseRound raw =
     Option.bind (isRecord raw) (\<lambda>doc.
     Option.bind (isNumber (jget doc ''no'')) (\<lambda>no.
     Option.bind (isNumber (jget doc ''phaseCode'')) (\<lambda>code.
     Option.bind (isNumber (jget doc ''lobbyOpenedAt'')) (\<lambda>opened.
     Option.bind (isNumber (jget doc ''lobbyClosesAt'')) (\<lambda>closes.
     Option.bind (isNumber (jget doc ''fightStartedAt'')) (\<lambda>started.
     Option.bind (isNumber (jget doc ''fighterCount'')) (\<lambda>fighters.
     Option.bind (isBoolean (jget doc ''heldOpen'')) (\<lambda>held.
     Option.bind (isNumber (jget doc ''winner'')) (\<lambda>win.
     Option.bind (isString (jget doc ''pda'')) (\<lambda>pda.
     Option.bind (isU64String (jget doc ''pot'')) (\<lambda>pot.
     Option.bind (guard (is_whole code \<and> 0 \<le> code \<and> code < of_nat (length PHASE_NAME))) (\<lambda>_.
     Option.bind (guard (jget doc ''phase'' = JStr (PHASE_NAME ! nat \<lfloor>code\<rfloor>))) (\<lambda>_.
       Some \<lparr>kr_no = no, kr_pda = pda, kr_phase = PHASE_NAME ! nat \<lfloor>code\<rfloor>, kr_phaseCode = \<lfloor>code\<rfloor>,
             kr_lobbyOpenedAt = opened, kr_lobbyClosesAt = closes, kr_fightStartedAt = started,
             kr_fighterCount = fighters, kr_heldOpen = held, kr_winner = win, kr_pot = pot\<rparr>)))))))))))))"

definition parseValidator :: "json \<Rightarrow> (string \<times> string) option" where
  "parseValidator raw =
     Option.bind (isRecord raw) (\<lambda>v.
     Option.bind (isString (jget v ''identity'')) (\<lambda>identity.
     Option.bind (isString (jget v ''fqdn'')) (\<lambda>fqdn. Some (identity, fqdn))))"

definition parseKeeperStatus :: "json \<Rightarrow> keeper_status option" where
  "parseKeeperStatus raw =
     Option.bind (isRecord raw) (\<lambda>doc.
     Option.bind (guard (jget doc ''schema'' = JNum (Fin KEEPER_STATUS_SCHEMA))) (\<lambda>_.
     Option.bind (isRecord (jget doc ''keeper'')) (\<lambda>k.
     Option.bind (isNumber (jget k ''startedAt'')) (\<lambda>startedAt.
     Option.bind (isNumber (jget k ''heartbeatAt'')) (\<lambda>heartbeatAt.
     Option.bind (isNumber (jget k ''heartbeatIntervalSeconds'')) (\<lambda>every.
     Option.bind (isNumber (jget k ''staleAfterSeconds'')) (\<lambda>stale.
     Option.bind (isNumber (jget k ''roundsCompleted'')) (\<lambda>completed.
     Option.bind (isNumberArray (jget k ''wedgedRounds'')) (\<lambda>wedged.
     Option.bind (nullable parseError (jget k ''lastError'')) (\<lambda>lastError.
     Option.bind (nullable isNumber (jget k ''stalledSince'')) (\<lambda>stalledSince.
     Option.bind (nullable parseLowBalance (jget k ''lowBalance'')) (\<lambda>lowBalance.
     Option.bind (nullable isNotOpeningReason (jget k ''notOpeningRounds'')) (\<lambda>notOpening.
     Option.bind (isBoolean (jget k ''houseOnlyRounds'')) (\<lambda>houseOnly.
     Option.bind (isRecord (jget doc ''chain'')) (\<lambda>c.
     Option.bind (guard (jget c ''cluster'' = JStr ''devnet'')) (\<lambda>_.
     Option.bind (isString (jget c ''programId'')) (\<lambda>programId.
     Option.bind (isString (jget c ''arenaPda'')) (\<lambda>arenaPda.
     Option.bind (nullable parseValidator (jget c ''erValidator'')) (\<lambda>erValidator.
     Option.bind (nullable parseRound (jget doc ''round'')) (\<lambda>rnd.
     Option.bind (nullable isNumber (jget doc ''nextLobbyOpensAt'')) (\<lambda>nextLobby.
     Option.bind (nullable isNumber (jget doc ''entriesCloseAt'')) (\<lambda>entriesClose.
       Some \<lparr>ks_startedAt = startedAt, ks_heartbeatAt = heartbeatAt,
             ks_heartbeatIntervalSeconds = every, ks_staleAfterSeconds = stale,
             ks_stalledSince = stalledSince, ks_roundsCompleted = completed, ks_lastError = lastError,
             ks_wedgedRounds = wedged, ks_lowBalance = lowBalance, ks_notOpeningRounds = notOpening,
             ks_houseOnlyRounds = houseOnly, ks_programId = programId, ks_arenaPda = arenaPda,
             ks_erValidator = erValidator, ks_round = rnd, ks_entriesCloseAt = entriesClose,
             ks_nextLobbyOpensAt = nextLobby\<rparr>))))))))))))))))))))))"

subsection \<open>Writing it\<close>

text \<open>\<open>JSON.stringify\<close> of the status object, as the value its text denotes.\<close>

definition nullable_json :: "('a \<Rightarrow> json) \<Rightarrow> 'a option \<Rightarrow> json" where
  "nullable_json f x = (case x of None \<Rightarrow> JNull | Some y \<Rightarrow> f y)"

definition round_json :: "keeper_round \<Rightarrow> json" where
  "round_json r = JObj
     [(''no'', JNum (Fin (kr_no r))), (''pda'', JStr (kr_pda r)), (''phase'', JStr (kr_phase r)),
      (''phaseCode'', JNum (Fin (of_int (kr_phaseCode r)))),
      (''lobbyOpenedAt'', JNum (Fin (kr_lobbyOpenedAt r))),
      (''lobbyClosesAt'', JNum (Fin (kr_lobbyClosesAt r))),
      (''fightStartedAt'', JNum (Fin (kr_fightStartedAt r))),
      (''fighterCount'', JNum (Fin (kr_fighterCount r))), (''heldOpen'', JBool (kr_heldOpen r)),
      (''winner'', JNum (Fin (kr_winner r))), (''pot'', JStr (kr_pot r))]"

definition error_json :: "keeper_error \<Rightarrow> json" where
  "error_json e = JObj [(''at'', JNum (Fin (ke_at e))), (''context'', JStr (ke_context e))]"

definition low_json :: "low_balance \<Rightarrow> json" where
  "low_json b = JObj
     [(''since'', JNum (Fin (lb_since b))), (''lamports'', JStr (lb_lamports b)),
      (''floorLamports'', JStr (lb_floorLamports b))]"

definition validator_json :: "string \<times> string \<Rightarrow> json" where
  "validator_json v = JObj [(''identity'', JStr (fst v)), (''fqdn'', JStr (snd v))]"

definition serializeKeeperStatus :: "keeper_status \<Rightarrow> json" where
  "serializeKeeperStatus s = JObj
     [(''schema'', JNum (Fin KEEPER_STATUS_SCHEMA)),
      (''keeper'', JObj
         [(''startedAt'', JNum (Fin (ks_startedAt s))), (''heartbeatAt'', JNum (Fin (ks_heartbeatAt s))),
          (''heartbeatIntervalSeconds'', JNum (Fin (ks_heartbeatIntervalSeconds s))),
          (''staleAfterSeconds'', JNum (Fin (ks_staleAfterSeconds s))),
          (''roundsCompleted'', JNum (Fin (ks_roundsCompleted s))),
          (''lastError'', nullable_json error_json (ks_lastError s)),
          (''stalledSince'', nullable_json (\<lambda>q. JNum (Fin q)) (ks_stalledSince s)),
          (''wedgedRounds'', JArr (map (\<lambda>q. JNum (Fin q)) (ks_wedgedRounds s))),
          (''lowBalance'', nullable_json low_json (ks_lowBalance s)),
          (''notOpeningRounds'', nullable_json (\<lambda>r. JStr (reason_text r)) (ks_notOpeningRounds s)),
          (''houseOnlyRounds'', JBool (ks_houseOnlyRounds s))]),
      (''chain'', JObj
         [(''cluster'', JStr ''devnet''), (''programId'', JStr (ks_programId s)),
          (''arenaPda'', JStr (ks_arenaPda s)),
          (''erValidator'', nullable_json validator_json (ks_erValidator s))]),
      (''round'', nullable_json round_json (ks_round s)),
      (''entriesCloseAt'', nullable_json (\<lambda>q. JNum (Fin q)) (ks_entriesCloseAt s)),
      (''nextLobbyOpensAt'', nullable_json (\<lambda>q. JNum (Fin q)) (ks_nextLobbyOpensAt s))]"

subsection \<open>What the page makes of it\<close>

definition isKeeperStale :: "keeper_status \<Rightarrow> rat \<Rightarrow> bool" where
  "isKeeperStale s nowSec \<longleftrightarrow> nowSec - ks_heartbeatAt s > ks_staleAfterSeconds s"

definition isKeeperStalled :: "keeper_status \<Rightarrow> rat \<Rightarrow> bool" where
  "isKeeperStalled s nowSec \<longleftrightarrow> ks_stalledSince s \<noteq> None \<and> \<not> isKeeperStale s nowSec"

definition isKeeperOutOfFunds :: "keeper_status \<Rightarrow> rat \<Rightarrow> bool" where
  "isKeeperOutOfFunds s nowSec \<longleftrightarrow>
     ks_lowBalance s \<noteq> None \<and> \<not> isKeeperStale s nowSec \<and> \<not> isKeeperStalled s nowSec"

datatype keeper_countdown = EntriesClose int | NextLobby int | WaitingForPlayers | NoCountdown

definition secondsUntil :: "rat \<Rightarrow> rat \<Rightarrow> int" where
  "secondsUntil deadline nowSec = max 0 \<lceil>deadline - nowSec\<rceil>"

definition keeperCountdown :: "keeper_status option \<Rightarrow> rat \<Rightarrow> keeper_countdown" where
  "keeperCountdown st nowSec =
     (case st of None \<Rightarrow> NoCountdown
      | Some s \<Rightarrow>
         if isKeeperStale s nowSec \<or> isKeeperStalled s nowSec then NoCountdown
         else
           case ks_round s of None \<Rightarrow> NoCountdown
           | Some r \<Rightarrow>
              if kr_phase r = ''Lobby'' then
                if kr_heldOpen r then WaitingForPlayers
                else (case ks_entriesCloseAt s of
                    Some t \<Rightarrow> if t \<le> nowSec then NoCountdown else EntriesClose (secondsUntil t nowSec)
                  | None \<Rightarrow> if kr_lobbyClosesAt r \<le> nowSec then NoCountdown
                            else EntriesClose (secondsUntil (kr_lobbyClosesAt r) nowSec))
              else if kr_phase r = ''Settled'' \<or> kr_phase r = ''Abandoned'' then
                if ks_notOpeningRounds s \<noteq> None then NoCountdown
                else (case ks_nextLobbyOpensAt s of
                    None \<Rightarrow> NoCountdown
                  | Some t \<Rightarrow> if t \<le> nowSec then NoCountdown else NextLobby (secondsUntil t nowSec))
              else NoCountdown)"

subsection \<open>The publisher\<close>

record countdown_latch =
  la_roundNo :: rat
  la_at :: rat

definition hold_phase :: "keeper_round \<Rightarrow> bool" where
  "hold_phase r \<longleftrightarrow> kr_phaseCode r = 3 \<or> kr_phaseCode r = 4"

definition honestNextLobbyOpensAt ::
  "keeper_round option \<Rightarrow> rat option \<Rightarrow> countdown_latch option \<Rightarrow> rat option \<times> countdown_latch option" where
  "honestNextLobbyOpensAt rnd candidate latch =
     (case rnd of
        None \<Rightarrow> (None, latch)
      | Some r \<Rightarrow>
          if \<not> hold_phase r then (None, latch)
          else if map_option la_roundNo latch = Some (kr_no r) then (map_option la_at latch, latch)
          else (case candidate of
              None \<Rightarrow> (None, latch)
            | Some t \<Rightarrow> (Some t, Some \<lparr>la_roundNo = kr_no r, la_at = t\<rparr>)))"

definition honestEntriesCloseAt :: "keeper_round option \<Rightarrow> rat option \<Rightarrow> rat option" where
  "honestEntriesCloseAt rnd candidate =
     (case rnd of None \<Rightarrow> None | Some r \<Rightarrow> if kr_phaseCode r \<noteq> 0 then None else candidate)"

record publisher =
  pb_status :: keeper_status
  pb_latch :: "countdown_latch option"
  pb_next :: "rat option"
  pb_entries :: "rat option"
  published :: json

definition render :: "publisher \<Rightarrow> publisher" where
  "render p =
     (let s = pb_status p;
          (t, latch) = honestNextLobbyOpensAt (ks_round s) (pb_next p) (pb_latch p);
          s' = s\<lparr>ks_nextLobbyOpensAt := t, ks_entriesCloseAt := honestEntriesCloseAt (ks_round s) (pb_entries p)\<rparr>
      in p\<lparr>pb_status := s', pb_latch := latch, published := serializeKeeperStatus s'\<rparr>)"

definition createStatusPublisher :: "rent_config \<Rightarrow> string \<Rightarrow> string \<Rightarrow> rat \<Rightarrow> bool \<Rightarrow> publisher" where
  "createStatusPublisher c program arena now houseOnly =
     render \<lparr>pb_status =
        \<lparr>ks_startedAt = now, ks_heartbeatAt = now,
         ks_heartbeatIntervalSeconds = HEARTBEAT_INTERVAL_SECONDS c,
         ks_staleAfterSeconds = STALE_AFTER_SECONDS c, ks_stalledSince = None, ks_roundsCompleted = 0,
         ks_lastError = None, ks_wedgedRounds = [], ks_lowBalance = None, ks_notOpeningRounds = None,
         ks_houseOnlyRounds = houseOnly, ks_programId = program, ks_arenaPda = arena,
         ks_erValidator = None, ks_round = None, ks_entriesCloseAt = None, ks_nextLobbyOpensAt = None\<rparr>,
       pb_latch = None, pb_next = None, pb_entries = None, published = JNull\<rparr>"

definition on_status :: "(keeper_status \<Rightarrow> keeper_status) \<Rightarrow> publisher \<Rightarrow> publisher" where
  "on_status f p = p\<lparr>pb_status := f (pb_status p)\<rparr>"

text \<open>A whole number as \<open>BigInt.prototype.toString\<close> prints it.\<close>

definition int_text :: "int \<Rightarrow> string" where
  "int_text k = (if k < 0 then ''-'' else []) @ dec_digits (nat \<bar>k\<bar>)"

definition setErValidator :: "(string \<times> string) option \<Rightarrow> publisher \<Rightarrow> publisher" where
  "setErValidator v = on_status (\<lambda>s. s\<lparr>ks_erValidator := v\<rparr>)"

definition setRound :: "keeper_round option \<Rightarrow> publisher \<Rightarrow> publisher" where
  "setRound r = on_status (\<lambda>s. s\<lparr>ks_round := r\<rparr>)"

definition setNextLobbyOpensAt :: "rat option \<Rightarrow> publisher \<Rightarrow> publisher" where
  "setNextLobbyOpensAt t p = p\<lparr>pb_next := t\<rparr>"

definition setEntriesCloseAt :: "rat option \<Rightarrow> publisher \<Rightarrow> publisher" where
  "setEntriesCloseAt t p = p\<lparr>pb_entries := t\<rparr>"

definition setLastError :: "keeper_error option \<Rightarrow> publisher \<Rightarrow> publisher" where
  "setLastError e = on_status (\<lambda>s. s\<lparr>ks_lastError := e\<rparr>)"

definition setStalledSince :: "rat option \<Rightarrow> publisher \<Rightarrow> publisher" where
  "setStalledSince t = on_status (\<lambda>s. s\<lparr>ks_stalledSince := t\<rparr>)"

text \<open>The argument is the balance, the floor and the clock.\<close>

definition setLowBalance :: "(int \<times> int \<times> rat) option \<Rightarrow> publisher \<Rightarrow> publisher" where
  "setLowBalance low = on_status (\<lambda>s. s\<lparr>ks_lowBalance :=
     (case low of None \<Rightarrow> None
      | Some (lamports, floorLamports, now) \<Rightarrow>
          Some \<lparr>lb_since = (case ks_lowBalance s of None \<Rightarrow> now | Some b \<Rightarrow> lb_since b),
                lb_lamports = int_text lamports, lb_floorLamports = int_text floorLamports\<rparr>)\<rparr>)"

definition setNotOpeningRounds :: "not_opening option \<Rightarrow> publisher \<Rightarrow> publisher" where
  "setNotOpeningRounds r = on_status (\<lambda>s. s\<lparr>ks_notOpeningRounds := r\<rparr>)"

definition addWedgedRound :: "rat \<Rightarrow> publisher \<Rightarrow> bool \<times> publisher" where
  "addWedgedRound no p =
     (if no \<in> set (ks_wedgedRounds (pb_status p)) then (False, p)
      else (True, on_status (\<lambda>s. s\<lparr>ks_wedgedRounds := ks_wedgedRounds s @ [no]\<rparr>) p))"

definition setRoundsCompleted :: "nat \<Rightarrow> publisher \<Rightarrow> publisher" where
  "setRoundsCompleted n = on_status (\<lambda>s. s\<lparr>ks_roundsCompleted := of_nat n\<rparr>)"

definition heartbeat :: "rat \<Rightarrow> publisher \<Rightarrow> publisher" where
  "heartbeat now p = render (on_status (\<lambda>s. s\<lparr>ks_heartbeatAt := now\<rparr>) p)"

definition heartbeatAgeSeconds :: "rat \<Rightarrow> publisher \<Rightarrow> rat" where
  "heartbeatAgeSeconds now p = now - ks_heartbeatAt (pb_status p)"

subsection \<open>What the reader accepts\<close>

definition round_wf :: "keeper_round \<Rightarrow> bool" where
  "round_wf r \<longleftrightarrow> 0 \<le> kr_phaseCode r \<and> kr_phaseCode r < 5 \<and>
     kr_phase r = PHASE_NAME ! nat (kr_phaseCode r) \<and> u64_text (kr_pot r)"

definition low_wf :: "low_balance \<Rightarrow> bool" where
  "low_wf b \<longleftrightarrow> u64_text (lb_lamports b) \<and> u64_text (lb_floorLamports b)"

definition status_wf :: "keeper_status \<Rightarrow> bool" where
  "status_wf s \<longleftrightarrow> (case ks_lowBalance s of None \<Rightarrow> True | Some b \<Rightarrow> low_wf b) \<and>
     (case ks_round s of None \<Rightarrow> True | Some r \<Rightarrow> round_wf r)"

lemma bind_guard [simp]: "Option.bind (guard b) f = (if b then f () else None)"
  by (simp add: guard_def)

lemma nullable_JNull [simp]: "nullable p JNull = Some None"
  by (simp add: nullable_def)

lemma nullable_json_None [simp]: "nullable_json f None = JNull"
  by (simp add: nullable_json_def)

lemma nullable_json_Some [simp]: "nullable_json f (Some x) = f x"
  by (simp add: nullable_json_def)

lemma nullable_round_trip:
  assumes "\<And>x. y = Some x \<Longrightarrow> f x \<noteq> JNull \<and> p (f x) = (if ok x then Some x else None)"
  shows "nullable p (nullable_json f y) = (if (case y of None \<Rightarrow> True | Some x \<Rightarrow> ok x) then Some y else None)"
  using assms by (cases y) (auto simp: nullable_def)

lemma numbers_round_trip [simp]: "isNumberArray (JArr (map (\<lambda>q. JNum (Fin q)) qs)) = Some qs"
  by (simp add: list_all_iff comp_def)

declare isNumberArray.simps [simp del]

lemma isU64String_iff [simp]: "isU64String (JStr s) = (if u64_text s then Some s else None)"
  by (simp add: isU64String_def)

lemma error_round_trip: "parseError (error_json e) = Some e"
  by (simp add: parseError_def error_json_def jget_def)

lemma low_round_trip: "parseLowBalance (low_json b) = (if low_wf b then Some b else None)"
  by (simp add: parseLowBalance_def low_json_def jget_def low_wf_def)

lemma validator_round_trip: "parseValidator (validator_json v) = Some v"
  by (simp add: parseValidator_def validator_json_def jget_def)

lemma reason_round_trip: "isNotOpeningReason (JStr (reason_text r)) = Some r"
  by (cases r) (simp_all add: isNotOpeningReason_def NOT_OPENING_REASONS_def)

lemma round_round_trip: "parseRound (round_json r) = (if round_wf r then Some r else None)"
  by (auto simp: parseRound_def round_json_def jget_def round_wf_def PHASE_NAME_def)

lemma status_round_trip:
  "parseKeeperStatus (serializeKeeperStatus s) = (if status_wf s then Some s else None)"
proof -
  have e: "nullable parseError (nullable_json error_json x) = Some x" for x
    by (cases x) (simp_all add: nullable_def error_round_trip, simp add: error_json_def)
  have q: "nullable isNumber (nullable_json (\<lambda>q. JNum (Fin q)) x) = Some x" for x
    by (cases x) (simp_all add: nullable_def)
  have n: "nullable isNotOpeningReason (nullable_json (\<lambda>r. JStr (reason_text r)) x) = Some x" for x
    by (cases x) (simp_all add: nullable_def reason_round_trip)
  have v: "nullable parseValidator (nullable_json validator_json x) = Some x" for x
    by (cases x) (simp_all add: nullable_def validator_round_trip, simp add: validator_json_def)
  have l: "nullable parseLowBalance (nullable_json low_json x) =
      (if (case x of None \<Rightarrow> True | Some b \<Rightarrow> low_wf b) then Some x else None)" for x
    by (rule nullable_round_trip) (simp add: low_round_trip, simp add: low_json_def)
  have r: "nullable parseRound (nullable_json round_json x) =
      (if (case x of None \<Rightarrow> True | Some b \<Rightarrow> round_wf b) then Some x else None)" for x
    by (rule nullable_round_trip) (simp add: round_round_trip, simp add: round_json_def)
  show ?thesis
    by (simp add: parseKeeperStatus_def serializeKeeperStatus_def jget_def e q n v l r status_wf_def)
qed

lemma parseLowBalance_wf: "parseLowBalance raw = Some b \<Longrightarrow> low_wf b"
  by (auto simp: parseLowBalance_def low_wf_def isU64String_def bind_eq_Some_conv split: if_splits)

lemma parseRound_wf:
  assumes "parseRound raw = Some r"
  shows "round_wf r"
proof -
  obtain code where code: "is_whole code" "0 \<le> code" "code < 5"
    and r: "kr_phaseCode r = \<lfloor>code\<rfloor>" "kr_phase r = PHASE_NAME ! nat \<lfloor>code\<rfloor>" "u64_text (kr_pot r)"
    using assms
    by (auto simp: parseRound_def isU64String_def PHASE_NAME_def bind_eq_Some_conv split: if_splits)
  have "\<lfloor>code\<rfloor> < 5" using code(3) by (simp add: floor_less_iff)
  then show ?thesis using code r by (simp add: round_wf_def)
qed

lemma nullable_Some:
  "nullable p v = Some y \<Longrightarrow> (case y of None \<Rightarrow> True | Some x \<Rightarrow> p v = Some x)"
  by (auto simp: nullable_def split: if_splits)

lemma parseKeeperStatus_wf:
  assumes "parseKeeperStatus raw = Some s"
  shows "status_wf s"
proof -
  obtain v w where "nullable parseLowBalance v = Some (ks_lowBalance s)"
    and "nullable parseRound w = Some (ks_round s)"
    using assms unfolding parseKeeperStatus_def bind_eq_Some_conv guard_def
    by (elim exE conjE) (clarsimp split: if_splits)
  then show ?thesis
    by (auto simp: status_wf_def dest!: nullable_Some
        split: option.splits intro: parseLowBalance_wf parseRound_wf)
qed

text \<open>C27: The reader of the status takes nothing it cannot vouch for, and loses nothing it takes. A
  document it accepts gives a status whose amounts are decimal texts of 64-bit numbers and whose
  phase name is the one of its phase code; and that status, published again, is read back as it
  was.\<close>

theorem accepted_status_is_typed:
  assumes "parseKeeperStatus raw = Some s"
  shows "status_wf s \<and> parseKeeperStatus (serializeKeeperStatus s) = Some s"
  using parseKeeperStatus_wf [OF assms] by (simp add: status_round_trip)

subsection \<open>The publisher as a machine\<close>

datatype pub_op = SetErValidator "(string \<times> string) option" | SetRound "keeper_round option"
  | SetNextLobbyOpensAt "rat option" | SetEntriesCloseAt "rat option"
  | SetLastError "keeper_error option" | SetStalledSince "rat option"
  | SetLowBalance "(int \<times> int \<times> rat) option" | SetNotOpeningRounds "not_opening option"
  | AddWedgedRound rat | SetRoundsCompleted nat | Publish | Heartbeat rat

fun pub_step :: "pub_op \<Rightarrow> publisher \<Rightarrow> unit + publisher" where
  "pub_step (SetErValidator v) p = Inr (setErValidator v p)"
| "pub_step (SetRound r) p = Inr (setRound r p)"
| "pub_step (SetNextLobbyOpensAt x) p = Inr (setNextLobbyOpensAt x p)"
| "pub_step (SetEntriesCloseAt x) p = Inr (setEntriesCloseAt x p)"
| "pub_step (SetLastError e) p = Inr (setLastError e p)"
| "pub_step (SetStalledSince x) p = Inr (setStalledSince x p)"
| "pub_step (SetLowBalance low) p = Inr (setLowBalance low p)"
| "pub_step (SetNotOpeningRounds r) p = Inr (setNotOpeningRounds r p)"
| "pub_step (AddWedgedRound n) p = Inr (snd (addWedgedRound n p))"
| "pub_step (SetRoundsCompleted n) p = Inr (setRoundsCompleted n p)"
| "pub_step Publish p = Inr (render p)"
| "pub_step (Heartbeat now) p = Inr (heartbeat now p)"

lemmas pub_defs = setErValidator_def setRound_def setNextLobbyOpensAt_def setEntriesCloseAt_def
  setLastError_def setStalledSince_def setLowBalance_def setNotOpeningRounds_def addWedgedRound_def
  setRoundsCompleted_def on_status_def

text \<open>What the keeper hands the publisher: rounds \<open>roundStatusFrom\<close> built, balances that are
  64-bit numbers.\<close>

definition u64 :: "int \<Rightarrow> bool" where
  "u64 k \<longleftrightarrow> 0 \<le> k \<and> k \<le> 18446744073709551615"

fun pub_ok :: "pub_op \<Rightarrow> bool" where
  "pub_ok (SetRound (Some r)) = round_wf r"
| "pub_ok (SetLowBalance (Some (lamports, floorLamports, now))) = (u64 lamports \<and> u64 floorLamports)"
| "pub_ok _ = True"

lemma length_dec_digits: "n < 10 ^ k \<Longrightarrow> 1 \<le> k \<Longrightarrow> length (dec_digits n) \<le> k"
proof (induction k arbitrary: n)
  case (Suc k)
  show ?case
  proof (cases "n < 10")
    case True
    then show ?thesis by (subst dec_digits.simps) simp
  next
    case False
    then have "k \<noteq> 0" using Suc.prems by (cases k) auto
    moreover have "n div 10 < 10 ^ k" using Suc.prems by (simp add: less_mult_imp_div_less)
    ultimately show ?thesis using Suc.IH [of "n div 10"] False by (subst dec_digits.simps) simp
  qed
qed simp

lemma u64_text_int_text: "u64 k \<Longrightarrow> u64_text (int_text k)"
proof -
  assume k: "u64 k"
  then have "nat k < 10 ^ 20" by (simp add: u64_def nat_less_iff)
  then have "length (dec_digits (nat k)) \<le> 20" by (rule length_dec_digits) simp
  then show ?thesis using k dec_digits_not_Nil [of "nat k"]
    by (auto simp: u64_text_def int_text_def u64_def dec_digits_digits digits_val_dec_digits Suc_le_eq)
qed

lemma status_wf_published:
  "status_wf (s\<lparr>ks_nextLobbyOpensAt := x, ks_entriesCloseAt := y\<rparr>) = status_wf s"
  by (simp add: status_wf_def)

definition pub_inv :: "publisher \<Rightarrow> bool" where
  "pub_inv p \<longleftrightarrow> status_wf (pb_status p) \<and>
     (\<exists>s. status_wf s \<and> published p = serializeKeeperStatus s)"

lemma published_render: "published (render p) = serializeKeeperStatus (pb_status (render p))"
  by (simp add: render_def Let_def split: prod.splits)

lemma status_render [simp]:
  "status_wf (pb_status (render p)) = status_wf (pb_status p)"
  "ks_round (pb_status (render p)) = ks_round (pb_status p)"
  by (simp_all add: render_def Let_def status_wf_published split: prod.splits)

lemma render_pub_inv: "status_wf (pb_status p) \<Longrightarrow> pub_inv (render p)"
  unfolding pub_inv_def by (intro conjI exI [of _ "pb_status (render p)"]) (simp_all only: status_render published_render)

lemma on_status_inv:
  assumes "pub_inv p" and "status_wf (pb_status p) \<Longrightarrow> status_wf (f (pb_status p))"
  shows "pub_inv (on_status f p)"
  using assms by (simp add: pub_inv_def on_status_def)

lemma candidate_inv [simp]:
  "pub_inv (setNextLobbyOpensAt x p) = pub_inv p"
  "pub_inv (setEntriesCloseAt x p) = pub_inv p"
  by (simp_all add: pub_inv_def setNextLobbyOpensAt_def setEntriesCloseAt_def)

lemma low_set_wf:
  assumes "status_wf s" and "pub_ok (SetLowBalance low)"
  shows "status_wf (s\<lparr>ks_lowBalance := (case low of None \<Rightarrow> None
     | Some (lamports, floorLamports, now) \<Rightarrow>
         Some \<lparr>lb_since = g now, lb_lamports = int_text lamports, lb_floorLamports = int_text floorLamports\<rparr>)\<rparr>)"
  using assms by (cases low) (auto simp: status_wf_def low_wf_def u64_text_int_text)

lemma round_set_wf: "status_wf s \<Longrightarrow> pub_ok (SetRound r) \<Longrightarrow> status_wf (s\<lparr>ks_round := r\<rparr>)"
  by (cases r) (simp_all add: status_wf_def)

lemmas plain_setters = setErValidator_def setLastError_def setStalledSince_def setNotOpeningRounds_def
  setRoundsCompleted_def addWedgedRound_def

interpretation pub: invariant_machine pub_step pub_ok pub_inv
proof unfold_locales
  fix p x p'
  assume p: "pub_inv p" and ok: "pub_ok x" and st: "pub_step x p = Inr p'"
  show "pub_inv p'"
  proof (cases x)
    case Publish
    then have "p' = render p" using st by simp
    moreover have "pub_inv (render p)" using p by (intro render_pub_inv) (simp add: pub_inv_def)
    ultimately show ?thesis by simp
  next
    case (Heartbeat now)
    then have "p' = render (on_status (\<lambda>s. s\<lparr>ks_heartbeatAt := now\<rparr>) p)" using st by (simp add: heartbeat_def)
    moreover have "status_wf (pb_status (on_status (\<lambda>s. s\<lparr>ks_heartbeatAt := now\<rparr>) p))"
      using p by (simp add: pub_inv_def on_status_def status_wf_def)
    ultimately show ?thesis by (simp only: render_pub_inv)
  next
    case (SetLowBalance low)
    then have "p' = setLowBalance low p" using st by simp
    moreover have "pub_ok (SetLowBalance low)" using ok SetLowBalance by simp
    ultimately show ?thesis using p unfolding setLowBalance_def
      by (auto intro!: on_status_inv low_set_wf)
  next
    case (SetRound r)
    then have "p' = setRound r p" using st by simp
    then show ?thesis using p ok SetRound unfolding setRound_def by (simp add: on_status_inv round_set_wf)
  qed (use st p in \<open>auto simp: plain_setters status_wf_def intro!: on_status_inv\<close>)
qed

lemma createStatusPublisher_inv: "pub_inv (createStatusPublisher c program arena now houseOnly)"
  unfolding createStatusPublisher_def by (rule render_pub_inv) (simp add: status_wf_def)

text \<open>C30: The page can always read its keeper. Whatever the keeper does to the status, in whatever
  order, the bytes it serves are a document the page's parser accepts, and what the page reads is
  the status that was written.\<close>

theorem published_status_is_read:
  assumes "reaches pub_step pub_ok (createStatusPublisher c program arena now houseOnly) p"
  shows "\<exists>s. published p = serializeKeeperStatus s \<and> parseKeeperStatus (published p) = Some s"
  using pub.reaches_inv [OF assms createStatusPublisher_inv]
  by (auto simp: pub_inv_def status_round_trip)

subsection \<open>A countdown never moves\<close>

text \<open>While no other finished round is put on show, the latch of a round holds.\<close>

fun stays_on :: "rat \<Rightarrow> pub_op \<Rightarrow> bool" where
  "stays_on n (SetRound (Some r)) = (round_wf r \<and> (hold_phase r \<longrightarrow> kr_no r = n))"
| "stays_on n x = pub_ok x"

lemma stays_on_ok: "stays_on n x \<Longrightarrow> pub_ok x"
  by (cases "(n, x)" rule: stays_on.cases) auto

definition latched :: "rat \<Rightarrow> rat \<Rightarrow> publisher \<Rightarrow> bool" where
  "latched n t p \<longleftrightarrow> pb_latch p = Some \<lparr>la_roundNo = n, la_at = t\<rparr> \<and> status_wf (pb_status p) \<and>
     (\<forall>r. ks_round (pb_status p) = Some r \<and> hold_phase r \<longrightarrow> kr_no r = n) \<and>
     (\<forall>s r. parseKeeperStatus (published p) = Some s \<and> ks_round s = Some r \<and> hold_phase r \<longrightarrow>
        ks_nextLobbyOpensAt s = Some t)"

lemma parse_render:
  "parseKeeperStatus (published (render p)) =
     (if status_wf (pb_status p) then Some (pb_status (render p)) else None)"
  by (simp add: published_render status_round_trip)

lemma latched_render:
  assumes "pb_latch p = Some \<lparr>la_roundNo = n, la_at = t\<rparr>" and "status_wf (pb_status p)"
    and "\<And>r. ks_round (pb_status p) = Some r \<Longrightarrow> hold_phase r \<Longrightarrow> kr_no r = n"
  shows "latched n t (render p)"
proof -
  have "pb_latch (render p) = Some \<lparr>la_roundNo = n, la_at = t\<rparr>"
    using assms by (auto simp: render_def Let_def honestNextLobbyOpensAt_def split: option.splits)
  moreover have "ks_nextLobbyOpensAt (pb_status (render p)) = Some t"
    if "ks_round (pb_status p) = Some r" "hold_phase r" for r
    using assms that by (auto simp: render_def Let_def honestNextLobbyOpensAt_def)
  ultimately show ?thesis using assms(2,3) by (auto simp: latched_def parse_render)
qed

lemma latched_on_status:
  assumes "latched n t p" and "status_wf (pb_status p) \<Longrightarrow> status_wf (f (pb_status p))"
    and "\<And>r. ks_round (f (pb_status p)) = Some r \<Longrightarrow> hold_phase r \<Longrightarrow>
          ks_round (pb_status p) = Some r \<or> kr_no r = n"
  shows "latched n t (on_status f p)"
  using assms by (auto simp: latched_def on_status_def)

lemma latched_candidate [simp]:
  "latched n t (setNextLobbyOpensAt x p) = latched n t p"
  "latched n t (setEntriesCloseAt x p) = latched n t p"
  by (simp_all add: latched_def setNextLobbyOpensAt_def setEntriesCloseAt_def)

interpretation latch: invariant_machine pub_step "stays_on n" "latched n t" for n t
proof unfold_locales
  fix p x p'
  assume p: "latched n t p" and ok: "stays_on n x" and st: "pub_step x p = Inr p'"
  show "latched n t p'"
  proof (cases x)
    case Publish
    then have "p' = render p" using st by simp
    moreover have "latched n t (render p)" using p by (intro latched_render) (auto simp: latched_def)
    ultimately show ?thesis by simp
  next
    case (Heartbeat now)
    then have "p' = render (on_status (\<lambda>s. s\<lparr>ks_heartbeatAt := now\<rparr>) p)" using st by (simp add: heartbeat_def)
    moreover have "latched n t (on_status (\<lambda>s. s\<lparr>ks_heartbeatAt := now\<rparr>) p)"
      using p by (rule latched_on_status) (auto simp: status_wf_def)
    then have "latched n t (render (on_status (\<lambda>s. s\<lparr>ks_heartbeatAt := now\<rparr>) p))"
      by (intro latched_render) (auto simp: latched_def)
    ultimately show ?thesis by simp
  next
    case (SetLowBalance low)
    then have "p' = setLowBalance low p" using st by simp
    moreover have "pub_ok (SetLowBalance low)" using ok SetLowBalance by simp
    ultimately show ?thesis using p unfolding setLowBalance_def
      by (auto intro!: latched_on_status low_set_wf)
  next
    case (SetRound r)
    then have "p' = setRound r p" using st by simp
    then show ?thesis using p ok SetRound stays_on_ok [OF ok] unfolding setRound_def
      by (auto intro!: latched_on_status round_set_wf)
  qed (use st p in \<open>auto simp: plain_setters status_wf_def intro!: latched_on_status\<close>)
qed

text \<open>C31: A countdown a player has been shown is kept. Once a served document announces the opening
  of the next lobby for a round, every later document about a finished round announces the same
  instant, however often the keeper proposes another, until another finished round is shown.\<close>

theorem countdown_is_kept:
  assumes "parseKeeperStatus (published (render p)) = Some s" and "ks_nextLobbyOpensAt s = Some t"
    and "ks_round s = Some r"
    and "reaches pub_step (stays_on (kr_no r)) (render p) q"
    and "parseKeeperStatus (published q) = Some s'" and "ks_round s' = Some r'" and "hold_phase r'"
  shows "ks_nextLobbyOpensAt s' = Some t"
proof -
  have s: "s = pb_status (render p)" "status_wf (pb_status p)"
    using assms(1) by (auto simp: parse_render split: if_splits)
  have r: "ks_round (pb_status p) = Some r" using s assms(3) by simp
  then have "hold_phase r" "pb_latch (render p) = Some \<lparr>la_roundNo = kr_no r, la_at = t\<rparr>"
    using assms(2) s(1)
    by (cases "pb_latch p",
        auto simp: render_def Let_def honestNextLobbyOpensAt_def split: if_splits option.splits prod.splits)+
  then have "latched (kr_no r) t (render p)"
    using s r assms(2) by (simp add: latched_def parse_render)
  from latch.reaches_inv [OF assms(4) this] show ?thesis
    using assms(5-7) by (auto simp: latched_def)
qed

subsection \<open>A settled round on show\<close>

definition demo_shown :: keeper_round where
  "demo_shown = \<lparr>kr_no = 7, kr_pda = ''R'', kr_phase = ''Settled'', kr_phaseCode = 3, kr_lobbyOpenedAt = 10,
     kr_lobbyClosesAt = 70, kr_fightStartedAt = 80, kr_fighterCount = 2, kr_heldOpen = False,
     kr_winner = 0, kr_pot = ''42''\<rparr>"

definition demo_publisher :: publisher where
  "demo_publisher = setNextLobbyOpensAt (Some 100) (setRound (Some demo_shown)
     (createStatusPublisher (rent_c default_config) ''P'' ''A'' 50 False))"

lemma demo_shown_wf: "round_wf demo_shown"
  by (simp add: round_wf_def demo_shown_def PHASE_NAME_def u64_text_def is_digit_def digit_of_def digits_val_def)

lemma demo_publisher_wf: "status_wf (pb_status demo_publisher)"
proof -
  have "status_wf (pb_status (createStatusPublisher (rent_c default_config) ''P'' ''A'' 50 False))"
    using createStatusPublisher_inv [of "rent_c default_config" "''P''" "''A''" 50 False] by (simp add: pub_inv_def)
  then show ?thesis
    by (simp add: demo_publisher_def setNextLobbyOpensAt_def setRound_def on_status_def round_set_wf demo_shown_wf)
qed

lemma demo_publisher_state:
  "pb_next demo_publisher = Some 100" "pb_latch demo_publisher = None"
  "ks_round (pb_status demo_publisher) = Some demo_shown"
  by (simp_all add: demo_publisher_def setNextLobbyOpensAt_def setRound_def on_status_def
      createStatusPublisher_def render_def honestNextLobbyOpensAt_def Let_def)

lemma demo_render:
  "ks_nextLobbyOpensAt (pb_status (render demo_publisher)) = Some 100"
  by (simp add: render_def honestNextLobbyOpensAt_def demo_publisher_state hold_phase_def demo_shown_def Let_def)

theorem accepted_status_is_typed_witness: "status_wf (pb_status (render demo_publisher))"
  using accepted_status_is_typed [of "published (render demo_publisher)" "pb_status (render demo_publisher)"]
  by (simp add: parse_render demo_publisher_wf)

theorem published_status_is_read_witness:
  "\<exists>s. parseKeeperStatus (published (run_ops pub_step
     [SetRound (Some demo_shown), SetNextLobbyOpensAt (Some 100), SetLowBalance (Some (5, 600000000, 90)), Publish]
     (createStatusPublisher (rent_c default_config) ''P'' ''A'' 50 False))) = Some s"
  using published_status_is_read [OF run_ops_reaches, of
      "[SetRound (Some demo_shown), SetNextLobbyOpensAt (Some 100), SetLowBalance (Some (5, 600000000, 90)), Publish]"
      "rent_c default_config" "''P''" "''A''" 50 False]
  by (auto simp: demo_shown_wf u64_def)

theorem countdown_is_kept_witness:
  "\<exists>s. parseKeeperStatus (published (run_ops pub_step [SetNextLobbyOpensAt (Some 200), Publish]
      (render demo_publisher))) = Some s \<and> ks_nextLobbyOpensAt s = Some 100"
proof -
  let ?p = "setNextLobbyOpensAt (Some 200) (render demo_publisher)"
  have ops: "run_ops pub_step [SetNextLobbyOpensAt (Some 200), Publish] (render demo_publisher) = render ?p"
    by simp
  have wf: "status_wf (pb_status ?p)"
    by (simp add: setNextLobbyOpensAt_def demo_publisher_wf)
  have "ks_nextLobbyOpensAt (pb_status (render ?p)) = Some 100"
  proof (rule countdown_is_kept)
    show "parseKeeperStatus (published (render demo_publisher)) = Some (pb_status (render demo_publisher))"
      by (simp add: parse_render demo_publisher_wf)
    show "reaches pub_step (stays_on (kr_no demo_shown)) (render demo_publisher) (render ?p)"
      using run_ops_reaches [of "stays_on (kr_no demo_shown)" "[SetNextLobbyOpensAt (Some 200), Publish]"
          pub_step "render demo_publisher"] by simp
    show "parseKeeperStatus (published (render ?p)) = Some (pb_status (render ?p))"
      using wf by (simp add: parse_render)
    show "ks_round (pb_status (render ?p)) = Some demo_shown"
      by (simp add: setNextLobbyOpensAt_def demo_publisher_state)
  qed (simp_all add: demo_render demo_publisher_state hold_phase_def demo_shown_def)
  then show ?thesis using wf by (simp add: parse_render)
qed

subsection \<open>What the page promises\<close>

text \<open>A countdown to the next lobby means a keeper whose heart beats, that is not stalled and is
  opening rounds, and it is the rounded-up distance to the instant the status names.\<close>

theorem countdown_is_honest:
  assumes "keeperCountdown (Some s) now = NextLobby k"
  shows "\<not> isKeeperStale s now \<and> ks_stalledSince s = None \<and> ks_notOpeningRounds s = None \<and>
    (\<exists>t. ks_nextLobbyOpensAt s = Some t \<and> 0 < k \<and> of_int k - 1 < t - now \<and> t - now \<le> of_int k)"
proof -
  obtain t where live: "\<not> isKeeperStale s now" "\<not> isKeeperStalled s now" "ks_notOpeningRounds s = None"
    and t: "ks_nextLobbyOpensAt s = Some t" "now < t" "k = secondsUntil t now"
    using assms by (auto simp: keeperCountdown_def split: option.splits if_splits)
  have "0 < \<lceil>t - now\<rceil>" using t(2) by simp
  then have "k = \<lceil>t - now\<rceil>" using t(3) by (simp add: secondsUntil_def)
  then show ?thesis using live t \<open>0 < \<lceil>t - now\<rceil>\<close>
    by (auto simp: isKeeperStalled_def le_of_int_ceiling) linarith
qed

end
