(* ===== verification/Keeper_Drive.thy ===== *)
theory Keeper_Drive
  imports Arena_Program Lobby_Policy Round_Closer Reclamation Keeper_Status
begin

text \<open>
  The keeper's loop (\<^verbatim>\<open>src/er-demo/scripts/keeper/keeper.ts\<close>): one pass reads the chain, does
  the one thing the phase of the current round asks for, and keeps house. What the keeper asks of the
  outside world (\<^verbatim>\<open>chainClient.ts\<close>: reads, transactions, waits, the clock) is a record of
  functions over a world of any type, each of which may fail and may move the world. A computation is
  a function from the keeper's context, which holds that world, to a failure or a value and the
  context it leaves: what was assigned before an exception stays assigned. Log lines are not modelled.
\<close>

subsection \<open>Computations\<close>

datatype kfail = FightNotOverYetSent | ReadFailed | SendFailed | UnknownPhase int | NoValidatorFqdn
  | PayerCannotFund

type_synonym ('c, 'a) act = "'c \<Rightarrow> (kfail + 'a) \<times> 'c"

definition kret :: "'a \<Rightarrow> ('c, 'a) act" where "kret x c = (Inr x, c)"

definition kthrow :: "kfail \<Rightarrow> ('c, 'a) act" where "kthrow e c = (Inl e, c)"

definition kbind :: "('c, 'a) act \<Rightarrow> ('a \<Rightarrow> ('c, 'b) act) \<Rightarrow> ('c, 'b) act" where
  "kbind m f c = (case m c of (Inl e, c') \<Rightarrow> (Inl e, c') | (Inr x, c') \<Rightarrow> f x c')"

definition kcatch :: "('c, 'a) act \<Rightarrow> (kfail \<Rightarrow> ('c, 'a) act) \<Rightarrow> ('c, 'a) act" where
  "kcatch m h c = (case m c of (Inl e, c') \<Rightarrow> h e c' | (Inr x, c') \<Rightarrow> (Inr x, c'))"

definition kget :: "('c \<Rightarrow> 'a) \<Rightarrow> ('c, 'a) act" where "kget g c = (Inr (g c), c)"

definition kmod :: "('c \<Rightarrow> 'c) \<Rightarrow> ('c, unit) act" where "kmod f c = (Inr (), f c)"

definition kwhen :: "bool \<Rightarrow> ('c, unit) act \<Rightarrow> ('c, unit) act" where
  "kwhen b m = (if b then m else kret ())"

fun kfor :: "('a \<Rightarrow> ('c, unit) act) \<Rightarrow> 'a list \<Rightarrow> ('c, unit) act" where
  "kfor f [] = kret ()"
| "kfor f (x # xs) = kbind (f x) (\<lambda>_. kfor f xs)"

subsection \<open>What the keeper sees\<close>

record round_account =
  ra_roundNo :: int
  ra_phase :: int
  ra_lobbyOpenedAt :: int
  ra_lobbyClosesAt :: int
  ra_fightStartedAt :: int
  ra_fighterCount :: nat
  ra_fighters :: "(seat \<times> bool) list"
  ra_tickCount :: int
  ra_houseSwept :: bool
  ra_winner :: int
  ra_pot :: int

definition phase_of :: "int \<Rightarrow> phase option" where
  "phase_of code =
     (if code = 0 then Some Lobby else if code = 1 then Some Drawing else if code = 2 then Some Fight
      else if code = 3 then Some Settled else if code = 4 then Some Abandoned else None)"

definition room_of :: "round_account \<Rightarrow> raw_round" where
  "room_of r = \<lparr>rr_fighters = map fst (ra_fighters r), rr_fighterCount = ra_fighterCount r\<rparr>"

record chain_state =
  cs_nowSec :: rat
  cs_arena :: bool
  cs_roundCounter :: int
  cs_round :: "round_account option"
  cs_roundDelegated :: "bool option"

text \<open>What \<open>createChainClient\<close> offers, by the calls the keeper makes. A transaction that lands
  returns; otherwise the call fails.\<close>

record 'w client =
  cl_nowSec :: "'w \<Rightarrow> rat"
  cl_dateNow :: "'w \<Rightarrow> rat"
  cl_fetchArena :: "'w \<Rightarrow> (kfail + int option) \<times> 'w"
  cl_fetchRound :: "int \<Rightarrow> 'w \<Rightarrow> (kfail + round_account option) \<times> 'w"
  cl_isDelegated :: "int \<Rightarrow> 'w \<Rightarrow> (kfail + bool) \<times> 'w"
  cl_routerSaysDelegated :: "int \<Rightarrow> 'w \<Rightarrow> (kfail + bool) \<times> 'w"
  cl_roundValidatorFqdn :: "int \<Rightarrow> 'w \<Rightarrow> (kfail + string) \<times> 'w"
  cl_waitForDelegation :: "int \<Rightarrow> 'w \<Rightarrow> (kfail + bool) \<times> 'w"
  cl_waitForUndelegation :: "int \<Rightarrow> 'w \<Rightarrow> (kfail + bool) \<times> 'w"
  cl_roundsExist :: "int list \<Rightarrow> 'w \<Rightarrow> (kfail + bool list) \<times> 'w"
  cl_fetchTreasury :: "'w \<Rightarrow> (kfail + int option) \<times> 'w"
  cl_treasuryExists :: "'w \<Rightarrow> (kfail + bool) \<times> 'w"
  cl_balance :: "'w \<Rightarrow> (kfail + int) \<times> 'w"
  cl_houseBalances :: "string list \<Rightarrow> 'w \<Rightarrow> (kfail + int list) \<times> 'w"
  cl_rentFloor :: "'w \<Rightarrow> (kfail + int) \<times> 'w"
  cl_sendTx :: "round_ix \<Rightarrow> 'w \<Rightarrow> (kfail + unit) \<times> 'w"
  cl_transfer :: "(string \<times> int) list \<Rightarrow> 'w \<Rightarrow> (kfail + unit) \<times> 'w"
  cl_sleep :: "rat \<Rightarrow> 'w \<Rightarrow> 'w"

record program_features =
  authorityEarlyClose :: bool
  houseTakeSweep :: bool
  roundAccountClose :: bool

text \<open>What the deployed program offers, read off its IDL; a list the IDL lacks is empty.\<close>

record idl_shape =
  idl_instructions :: "(string \<times> string list) list"
  idl_types :: "(string \<times> string list) list"

definition hasInstruction :: "idl_shape \<Rightarrow> string \<Rightarrow> bool" where
  "hasInstruction idl name \<longleftrightarrow> list_ex (\<lambda>(n, acs). n = name) (idl_instructions idl)"

definition instructionTakesAccount :: "idl_shape \<Rightarrow> string \<Rightarrow> string \<Rightarrow> bool" where
  "instructionTakesAccount idl instruction account =
     (case find (\<lambda>(n, acs). n = instruction) (idl_instructions idl) of
        None \<Rightarrow> False | Some (n, acs) \<Rightarrow> account \<in> set acs)"

definition accountHasField :: "idl_shape \<Rightarrow> string \<Rightarrow> string \<Rightarrow> bool" where
  "accountHasField idl account fd =
     (case find (\<lambda>(n, fds). n = account) (idl_types idl) of
        None \<Rightarrow> False | Some (n, fds) \<Rightarrow> fd \<in> set fds)"

definition programFeaturesOf :: "idl_shape \<Rightarrow> program_features" where
  "programFeaturesOf idl =
     (let sweep = (hasInstruction idl ''sweep_house_take'' \<and> hasInstruction idl ''init_treasury'' \<and>
                   accountHasField idl ''Round'' ''house_swept'')
      in \<lparr>authorityEarlyClose =
            (instructionTakesAccount idl ''close_lobby_and_draw'' ''authority'' \<and>
             instructionTakesAccount idl ''close_lobby_and_draw'' ''arena''),
          houseTakeSweep = sweep,
          roundAccountClose =
            (hasInstruction idl ''close_round_account'' \<and>
             instructionTakesAccount idl ''close_round_account'' ''authority'' \<and> sweep)\<rparr>)"

lemma closing_needs_the_sweep: "roundAccountClose (programFeaturesOf idl) \<Longrightarrow> houseTakeSweep (programFeaturesOf idl)"
  by (simp add: programFeaturesOf_def Let_def)

record 'w keeper_env =
  ke_config :: keeper_config
  ke_options :: cli_options
  ke_bank :: house_bank
  ke_features :: program_features
  ke_pda :: "int \<Rightarrow> string"
  ke_client :: "'w client"

subsection \<open>The keeper's own state\<close>

record timeline =
  tl_roundNo :: "int option"
  tl_drawRequestedAtMs :: "rat option"
  tl_fightObservedAtMs :: "rat option"
  tl_settledObservedAtSec :: "rat option"
  tl_abandonedObservedAtSec :: "rat option"
  tl_firstRealEntryObservedAtSec :: "rat option"
  tl_operatorLamportsAtOpen :: "int option"
  tl_houseRetryAfterSec :: rat
  tl_sweepRetryAfterSec :: rat
  tl_scheduleCloseRetryAfterSec :: rat
  tl_completedCounted :: bool

definition freshTimeline :: "int option \<Rightarrow> int option \<Rightarrow> timeline" where
  "freshTimeline roundNo lamports =
     \<lparr>tl_roundNo = roundNo, tl_drawRequestedAtMs = None, tl_fightObservedAtMs = None,
      tl_settledObservedAtSec = None, tl_abandonedObservedAtSec = None,
      tl_firstRealEntryObservedAtSec = None, tl_operatorLamportsAtOpen = lamports,
      tl_houseRetryAfterSec = 0, tl_sweepRetryAfterSec = 0, tl_scheduleCloseRetryAfterSec = 0,
      tl_completedCounted = False\<rparr>"

record close_loss =
  ll_sample :: "int list"
  ll_total :: nat

definition CLOSE_LOSS_SAMPLE :: nat where "CLOSE_LOSS_SAMPLE = 50"

definition recordCloseLoss :: "int \<Rightarrow> close_loss \<Rightarrow> close_loss" where
  "recordCloseLoss roundNo l =
     (let s = ll_sample l @ [roundNo]
      in \<lparr>ll_sample = (if length s > CLOSE_LOSS_SAMPLE then tl s else s), ll_total = ll_total l + 1\<rparr>)"

record 'w keeper_ctx =
  publisher :: publisher
  timeline :: timeline
  roundsCompleted :: nat
  roundsAbandoned :: nat
  stop :: bool
  refreshAfterStep :: bool
  lastDrawLogSec :: rat
  lastHoldLogSec :: rat
  closeCursor :: int
  closeCursorKnownLiveAt :: "int option"
  closeCatchUpAhead :: bool
  closeCursorCaughtUp :: bool
  closeAttempts :: nat
  closeRetryAfterSec :: rat
  rentReclaimed :: nat
  closeSkipped :: close_loss
  closeStrandedNeverTerminal :: close_loss
  closeStrandedStillDelegated :: close_loss
  lowBalanceSince :: "rat option"
  lowBalanceCheckedAtSec :: rat
  treasury :: "arena_counters option"
  treasuryPolledAtSec :: rat
  burnSamples :: "jsnum list"
  lastOpenLamports :: "int option"
  burnStopSince :: "rat option"
  sweepStopSince :: "rat option"
  operatorLamportsObserved :: "int option"
  firstOpenAtSec :: "rat option"
  opensObserved :: nat
  consecutiveErrors :: nat
  dryRunPlan :: "round_ix list"
  world :: 'w

text \<open>The context the loop starts with.\<close>

definition boot_ctx :: "publisher \<Rightarrow> int \<times> bool \<times> int option \<Rightarrow> int \<Rightarrow> 'w \<Rightarrow> 'w keeper_ctx" where
  "boot_ctx pub start operatorBalance w =
     (case start of (cur, ahead, knownLiveAt) \<Rightarrow>
     \<lparr>publisher = pub, timeline = freshTimeline None None, roundsCompleted = 0, roundsAbandoned = 0,
      stop = False, refreshAfterStep = False, lastDrawLogSec = 0, lastHoldLogSec = 0,
      closeCursor = cur, closeCursorKnownLiveAt = knownLiveAt, closeCatchUpAhead = ahead,
      closeCursorCaughtUp = False, closeAttempts = 0, closeRetryAfterSec = 0, rentReclaimed = 0,
      closeSkipped = \<lparr>ll_sample = [], ll_total = 0\<rparr>,
      closeStrandedNeverTerminal = \<lparr>ll_sample = [], ll_total = 0\<rparr>,
      closeStrandedStillDelegated = \<lparr>ll_sample = [], ll_total = 0\<rparr>,
      lowBalanceSince = None, lowBalanceCheckedAtSec = 0, treasury = None, treasuryPolledAtSec = 0,
      burnSamples = [], lastOpenLamports = None, burnStopSince = None, sweepStopSince = None,
      operatorLamportsObserved = Some operatorBalance, firstOpenAtSec = None, opensObserved = 0,
      consecutiveErrors = 0, dryRunPlan = [], world = w\<rparr>)"

definition RESOLVE_RETRY_ATTEMPTS :: nat where "RESOLVE_RETRY_ATTEMPTS = 3"
definition RESOLVE_RETRY_WAIT_SECONDS :: rat where "RESOLVE_RETRY_WAIT_SECONDS = 3"
definition HOUSE_ENTRY_RETRY_SECONDS :: rat where "HOUSE_ENTRY_RETRY_SECONDS = 3"
definition SWEEP_RETRY_SECONDS :: rat where "SWEEP_RETRY_SECONDS = 3"
definition SCHEDULE_CLOSE_RETRY_SECONDS :: rat where "SCHEDULE_CLOSE_RETRY_SECONDS = 30"
definition LOW_BALANCE_RECHECK_SECONDS :: rat where "LOW_BALANCE_RECHECK_SECONDS = 15"
definition CLOSE_ATTEMPTS_PER_ROUND :: nat where "CLOSE_ATTEMPTS_PER_ROUND = 3"
definition STALL_AFTER_CONSECUTIVE_FAILURES :: nat where "STALL_AFTER_CONSECUTIVE_FAILURES = 6"
definition HOLD_LOG_INTERVAL_SECONDS :: rat where "HOLD_LOG_INTERVAL_SECONDS = 60"
definition ERROR_BACKOFF_BASE_SECONDS :: rat where "ERROR_BACKOFF_BASE_SECONDS = 1"
definition MIN_RATE_WINDOW_SECONDS :: rat where "MIN_RATE_WINDOW_SECONDS = 60"

subsection \<open>Asking the client\<close>

type_synonym ('w, 'a) kact = "('w keeper_ctx, 'a) act"

definition ask :: "('w \<Rightarrow> (kfail + 'a) \<times> 'w) \<Rightarrow> ('w, 'a) kact" where
  "ask f c = (case f (world c) of (r, w) \<Rightarrow> (r, c\<lparr>world := w\<rparr>))"

definition now_sec :: "'w keeper_env \<Rightarrow> ('w, rat) kact" where
  "now_sec env = kget (\<lambda>c. cl_nowSec (ke_client env) (world c))"

definition date_now :: "'w keeper_env \<Rightarrow> ('w, rat) kact" where
  "date_now env = kget (\<lambda>c. cl_dateNow (ke_client env) (world c))"

text \<open>\<open>send\<close> of the client: whether the transaction was sent; a dry run only notes it.\<close>

definition client_send :: "'w keeper_env \<Rightarrow> round_ix \<Rightarrow> ('w, bool) kact" where
  "client_send env ix =
     (if dryRun (ke_options env)
      then kbind (kmod (\<lambda>c. c\<lparr>dryRunPlan := dryRunPlan c @ [ix]\<rparr>)) (\<lambda>_. kret False)
      else kbind (ask (cl_sendTx (ke_client env) ix)) (\<lambda>_. kret True))"

definition on_pub :: "(publisher \<Rightarrow> publisher) \<Rightarrow> ('w, unit) kact" where
  "on_pub f = kmod (\<lambda>c. c\<lparr>publisher := f (publisher c)\<rparr>)"

definition on_tl :: "(timeline \<Rightarrow> timeline) \<Rightarrow> ('w, unit) kact" where
  "on_tl f = kmod (\<lambda>c. c\<lparr>timeline := f (timeline c)\<rparr>)"

definition empty_room :: "'w keeper_env \<Rightarrow> empty_room_policy" where
  "empty_room env = (if houseOnlyRounds (ke_options env) then HouseOnly else Unfightable)"

definition readChainState :: "'w keeper_env \<Rightarrow> ('w, chain_state) kact" where
  "readChainState env =
     kbind (now_sec env) (\<lambda>t.
     kbind (ask (cl_fetchArena (ke_client env))) (\<lambda>arena.
       case arena of
         None \<Rightarrow> kret \<lparr>cs_nowSec = t, cs_arena = False, cs_roundCounter = 0, cs_round = None, cs_roundDelegated = None\<rparr>
       | Some counter \<Rightarrow>
           if counter = 0
           then kret \<lparr>cs_nowSec = t, cs_arena = True, cs_roundCounter = 0, cs_round = None, cs_roundDelegated = None\<rparr>
           else
             kbind (ask (cl_fetchRound (ke_client env) counter)) (\<lambda>rnd.
             kbind (case rnd of
                 None \<Rightarrow> kret None
               | Some r \<Rightarrow>
                   if phase_of (ra_phase r) \<in> {Some Lobby, Some Settled, Some Abandoned}
                   then kbind (ask (cl_isDelegated (ke_client env) counter)) (\<lambda>d. kret (Some d))
                   else kret None) (\<lambda>delegated.
               kret \<lparr>cs_nowSec = t, cs_arena = True, cs_roundCounter = counter, cs_round = rnd,
                     cs_roundDelegated = delegated\<rparr>))))"

subsection \<open>The lobby\<close>

definition delegateRound :: "'w keeper_env \<Rightarrow> int \<Rightarrow> ('w, unit) kact" where
  "delegateRound env n =
     kbind (client_send env (DelegateRound n)) (\<lambda>sent.
       if \<not> sent then kret ()
       else kbind (ask (cl_waitForDelegation (ke_client env) n)) (\<lambda>_. kret ()))"

text \<open>The entries of a pass are sent at once, so one reading of the clock decides for all of them. The
  result counts what landed, failed and was dropped.\<close>

fun send_entries :: "'w keeper_env \<Rightarrow> int \<Rightarrow> house_entry list \<Rightarrow> ('w, nat \<times> nat) kact" where
  "send_entries env n [] = kret (0, 0)"
| "send_entries env n (e # es) =
     kbind (kcatch (kbind (client_send env (Enter n (hw_key (he_who e)) (he_on e) (he_units e))) (\<lambda>_. kret True))
              (\<lambda>_. kret False)) (\<lambda>landed.
     kbind (send_entries env n es) (\<lambda>(l, f). kret (if landed then (l + 1, f) else (l, f + 1))))"

definition enter_all :: "'w keeper_env \<Rightarrow> int \<Rightarrow> rat \<Rightarrow> house_entry list \<Rightarrow> ('w, nat \<times> nat \<times> nat) kact" where
  "enter_all env n draw es =
     kbind (now_sec env) (\<lambda>t.
       if draw - t \<le> of_int CLOCK_SKEW_MARGIN_SECONDS then kret (0, 0, length es)
       else kbind (send_entries env n es) (\<lambda>(l, f). kret (l, f, 0)))"

definition fieldHouseFighters :: "'w keeper_env \<Rightarrow> chain_state \<Rightarrow> round_account \<Rightarrow> lobby_plan \<Rightarrow> ('w, unit) kact" where
  "fieldHouseFighters env st r plan =
     kbind (kget (\<lambda>c. tl_houseRetryAfterSec (timeline c))) (\<lambda>retryAfter.
       if cs_nowSec st < retryAfter then kret ()
       else
         let planned = plannedHouseEntries (ke_config env) (ke_bank env) (room_of r)
               (nat (cs_roundCounter st)) (cs_nowSec st)
               \<lparr>hl_drawAt = drawAt plan, emptyRoom = empty_room env\<rparr>
         in if entries planned = [] then kret ()
            else kbind (enter_all env (cs_roundCounter st) (drawAt plan) (entries planned)) (\<lambda>(l, failed, dropped).
              kwhen (0 < failed + dropped)
                (kbind (kwhen (0 < failed)
                   (on_tl (\<lambda>tl. tl\<lparr>tl_houseRetryAfterSec := cs_nowSec st + HOUSE_ENTRY_RETRY_SECONDS\<rparr>)))
                   (\<lambda>_. on_pub (setLastError (Some \<lparr>ke_at = cs_nowSec st, ke_context = ''entry-fill''\<rparr>))))))"

definition drawSeed :: "'w keeper_env \<Rightarrow> round_account \<Rightarrow> bool \<Rightarrow> ('w, unit) kact" where
  "drawSeed env r authority =
     kbind (ask (cl_roundValidatorFqdn (ke_client env) (ra_roundNo r))) (\<lambda>fqdn.
     kbind (client_send env (CloseLobbyAndDraw (ra_roundNo r) authority)) (\<lambda>sent.
       if sent then
         kbind (date_now env) (\<lambda>ms.
         kbind (on_tl (\<lambda>tl. tl\<lparr>tl_drawRequestedAtMs := Some ms\<rparr>)) (\<lambda>_.
           kmod (\<lambda>c. c\<lparr>refreshAfterStep := True\<rparr>)))
       else kret ()))"

definition closeLobbyOntoSchedule :: "'w keeper_env \<Rightarrow> chain_state \<Rightarrow> round_account \<Rightarrow> ('w, unit) kact" where
  "closeLobbyOntoSchedule env st r =
     kbind (on_tl (\<lambda>tl. tl\<lparr>tl_scheduleCloseRetryAfterSec := cs_nowSec st + SCHEDULE_CLOSE_RETRY_SECONDS\<rparr>))
       (\<lambda>_. drawSeed env r True)"

definition abandonRound :: "'w keeper_env \<Rightarrow> chain_state \<Rightarrow> round_account \<Rightarrow> ('w, unit) kact" where
  "abandonRound env st r =
     kbind (client_send env (AbandonRound (ra_roundNo r))) (\<lambda>sent.
       if \<not> sent then kret ()
       else
         kbind (kmod (\<lambda>c. c\<lparr>roundsAbandoned := roundsAbandoned c + 1\<rparr>)) (\<lambda>_.
         kbind (on_tl (\<lambda>tl. tl\<lparr>tl_abandonedObservedAtSec := Some (cs_nowSec st)\<rparr>)) (\<lambda>_.
         kbind (kmod (\<lambda>c. c\<lparr>refreshAfterStep := True\<rparr>)) (\<lambda>_.
         kbind (ask (cl_waitForUndelegation (ke_client env) (ra_roundNo r))) (\<lambda>_. kret ())))))"

definition lobby_view_of :: "'w keeper_env \<Rightarrow> chain_state \<Rightarrow> round_account \<Rightarrow> timeline \<Rightarrow> lobby_view" where
  "lobby_view_of env st r line =
     \<lparr>nowSec = cs_nowSec st, lobbyClosesAt = ra_lobbyClosesAt r, fighterCount = ra_fighterCount r,
      realFighterCount = nat (realCount (classify (ke_bank env) (room_of r))),
      firstRealEntryObservedAtSec = tl_firstRealEntryObservedAtSec line,
      lv_holdOpen = holdOpen (ke_options env), houseOnly = houseOnlyRounds (ke_options env),
      scheduleCloseRetryAfterSec = tl_scheduleCloseRetryAfterSec line\<rparr>"

definition note_hold :: "chain_state \<Rightarrow> ('w, unit) kact" where
  "note_hold st = kmod (\<lambda>c.
     if cs_nowSec st - lastHoldLogSec c \<ge> HOLD_LOG_INTERVAL_SECONDS then c\<lparr>lastHoldLogSec := cs_nowSec st\<rparr> else c)"

definition lobby_action :: "'w keeper_env \<Rightarrow> chain_state \<Rightarrow> round_account \<Rightarrow> lobby_plan \<Rightarrow> ('w, unit) kact" where
  "lobby_action env st r plan =
     (case step plan of
        Abandon \<Rightarrow> abandonRound env st r
      | Close \<Rightarrow> drawSeed env r False
      | CloseEarly \<Rightarrow> drawSeed env r True
      | CloseToSchedule \<Rightarrow> closeLobbyOntoSchedule env st r
      | WaitForFighters \<Rightarrow> kbind (note_hold st) (\<lambda>_. fieldHouseFighters env st r plan)
      | Wait \<Rightarrow> kbind (kwhen (heldOpen plan) (note_hold st)) (\<lambda>_. fieldHouseFighters env st r plan))"

definition driveLobby :: "'w keeper_env \<Rightarrow> chain_state \<Rightarrow> round_account \<Rightarrow> ('w, unit) kact" where
  "driveLobby env st r =
     kbind (on_pub (setNextLobbyOpensAt None)) (\<lambda>_.
     kbind (on_pub (setEntriesCloseAt None)) (\<lambda>_.
       if cs_roundDelegated st = Some False then
         kbind (ask (cl_routerSaysDelegated (ke_client env) (cs_roundCounter st))) (\<lambda>d.
           if d then kret () else delegateRound env (ra_roundNo r))
       else
         kbind (on_tl (\<lambda>tl.
           if 0 < realCount (classify (ke_bank env) (room_of r)) \<and> tl_firstRealEntryObservedAtSec tl = None
           then tl\<lparr>tl_firstRealEntryObservedAtSec := Some (cs_nowSec st)\<rparr> else tl)) (\<lambda>_.
         kbind (kget (\<lambda>c. planLobby (lobby_c (ke_config env)) (lobby_view_of env st r (timeline c)))) (\<lambda>plan.
         kbind (on_pub (setEntriesCloseAt (entriesCloseAt plan))) (\<lambda>_. lobby_action env st r plan)))))"

subsection \<open>Opening a round\<close>

definition note_low_balance :: "'w keeper_env \<Rightarrow> rat \<Rightarrow> int \<Rightarrow> ('w, unit) kact" where
  "note_low_balance env t lamports =
     kbind (on_pub (setNextLobbyOpensAt None)) (\<lambda>_.
     kbind (on_pub (setLowBalance (Some (lamports, MIN_BALANCE_LAMPORTS (loop_c (ke_config env)), t)))) (\<lambda>_.
     kbind (on_pub (setNotOpeningRounds (Some LowBalance))) (\<lambda>_.
       kmod (\<lambda>c. if lowBalanceSince c = None then c\<lparr>lowBalanceSince := Some t\<rparr> else c))))"

text \<open>The balance, or nothing when it does not reach the floor.\<close>

definition affordsAnotherRound :: "'w keeper_env \<Rightarrow> ('w, int option) kact" where
  "affordsAnotherRound env =
     kbind (now_sec env) (\<lambda>t.
     kbind (kget (\<lambda>c. lowBalanceSince c \<noteq> None \<and> t < lowBalanceCheckedAtSec c + LOW_BALANCE_RECHECK_SECONDS)) (\<lambda>throttled.
       if throttled then kret None
       else
         kbind (ask (cl_balance (ke_client env))) (\<lambda>lamports.
         kbind (kmod (\<lambda>c. c\<lparr>lowBalanceCheckedAtSec := t, operatorLamportsObserved := Some lamports\<rparr>)) (\<lambda>_.
           if lamports \<ge> MIN_BALANCE_LAMPORTS (loop_c (ke_config env)) then
             kbind (kget lowBalanceSince) (\<lambda>since.
             kbind (kwhen (since \<noteq> None)
               (kbind (kmod (\<lambda>c. c\<lparr>lowBalanceSince := None\<rparr>)) (\<lambda>_.
                kbind (on_pub (setLowBalance None)) (\<lambda>_. on_pub (setNotOpeningRounds None))))) (\<lambda>_.
               kret (Some lamports)))
           else kbind (note_low_balance env t lamports) (\<lambda>_. kret None)))))"

definition rentIsComingBack :: "'w keeper_env \<Rightarrow> ('w, bool) kact" where
  "rentIsComingBack env =
     (let rc = rent_c (ke_config env) in
     kbind (kget (\<lambda>c. bv_tripped (burnBrake (burnSamples c) (of_int (MAX_BURN_LAMPORTS_PER_ROUND rc))
                         (BURN_ARM_AFTER_ROUNDS rc) (BURN_SAMPLE_ROUNDS rc)))) (\<lambda>tripped.
       if \<not> tripped then
         kbind (kget burnStopSince) (\<lambda>since.
         kbind (kwhen (since \<noteq> None)
           (kbind (kmod (\<lambda>c. c\<lparr>burnStopSince := None\<rparr>)) (\<lambda>_. on_pub (setNotOpeningRounds None)))) (\<lambda>_.
           kret True))
       else
         kbind (on_pub (setNextLobbyOpensAt None)) (\<lambda>_.
         kbind (on_pub (setNotOpeningRounds (Some RentNotReclaimed))) (\<lambda>_.
         kbind (now_sec env) (\<lambda>t.
         kbind (kmod (\<lambda>c. if burnStopSince c = None then c\<lparr>burnStopSince := Some t\<rparr> else c)) (\<lambda>_.
           kret False))))))"

definition closing_on :: "'w keeper_env \<Rightarrow> bool" where
  "closing_on env \<longleftrightarrow> closeRounds (ke_options env) \<and> roundAccountClose (ke_features env)"

definition reclamationStateOf :: "'w keeper_env \<Rightarrow> 'w keeper_ctx \<Rightarrow> rat \<Rightarrow> reclamation_state" where
  "reclamationStateOf env c observed =
     \<lparr>observedAtSec = observed, arena = treasury c,
      closer = \<lparr>cl_cursor = closeCursor c, reclaimed = int (rentReclaimed c),
        cl_skipped = ll_sample (closeSkipped c),
        strandedNeverTerminal = ll_sample (closeStrandedNeverTerminal c),
        strandedStillDelegated = ll_sample (closeStrandedStillDelegated c),
        closing = closing_on env, caughtUpOnce = closeCursorCaughtUp c,
        skippedTotal = Fin (of_nat (ll_total (closeSkipped c))),
        strandedNeverTerminalTotal = Fin (of_nat (ll_total (closeStrandedNeverTerminal c))),
        strandedStillDelegatedTotal = Fin (of_nat (ll_total (closeStrandedStillDelegated c)))\<rparr>,
      burnSamplesLamports = burnSamples c, burnSamplingSuspended = closeCatchUpAhead c,
      operatorLamports = map_option of_int (operatorLamportsObserved c),
      sweepStoppedSinceSec = sweepStopSince c\<rparr>"

definition RECLAMATION_THRESHOLDS :: "rent_config \<Rightarrow> reclamation_thresholds" where
  "RECLAMATION_THRESHOLDS rc =
     \<lparr>burnLamportsPerRound = of_int (MAX_BURN_LAMPORTS_PER_ROUND rc),
      armAfterSamples = BURN_ARM_AFTER_ROUNDS rc, windowSamples = BURN_SAMPLE_ROUNDS rc,
      stopAtGapRounds = of_int (SWEEP_GAP_STOP_ROUNDS rc),
      strandedAllowanceRounds = Fin (of_int (STRANDED_ALLOWANCE_ROUNDS rc))\<rparr>"

definition sweepIsKeepingUp :: "'w keeper_env \<Rightarrow> ('w, bool) kact" where
  "sweepIsKeepingUp env =
     kbind (now_sec env) (\<lambda>t.
     kbind (kget (\<lambda>c. sv_tripped (sweepGapStop (reclamationStateOf env c t)
              (RECLAMATION_THRESHOLDS (rent_c (ke_config env)))))) (\<lambda>tripped.
       if \<not> tripped then kret True
       else
         kbind (on_pub (setNextLobbyOpensAt None)) (\<lambda>_.
         kbind (on_pub (setNotOpeningRounds (Some RentNotSwept))) (\<lambda>_.
         kbind (kmod (\<lambda>c. if sweepStopSince c = None then c\<lparr>sweepStopSince := Some t\<rparr> else c)) (\<lambda>_.
           kret False)))))"

definition fundBank :: "'w keeper_env \<Rightarrow> ('w, unit) kact" where
  "fundBank env =
     (let keys = map hw_key (active (ke_bank env)) in
     kbind (ask (cl_houseBalances (ke_client env) keys)) (\<lambda>balances.
       if funding_shortfalls (ke_config env) (zip keys balances) = [] then kret ()
       else
         kbind (ask (cl_balance (ke_client env))) (\<lambda>payer.
         kbind (ask (cl_rentFloor (ke_client env))) (\<lambda>payerFloor.
           case fundHouseBank (ke_config env) (zip keys balances) payer payerFloor (dryRun (ke_options env)) of
             NothingToFund \<Rightarrow> kret ()
           | PayerTooPoor \<Rightarrow> kthrow PayerCannotFund
           | DryRunFunding \<Rightarrow> kret ()
           | Transfers chunks \<Rightarrow> kfor (\<lambda>chunk. ask (cl_transfer (ke_client env) chunk)) chunks))))"

definition lobby_seconds :: "'w keeper_env \<Rightarrow> int" where
  "lobby_seconds env =
     (if holdOpen (ke_options env) \<and> \<not> houseOnlyRounds (ke_options env)
      then \<lfloor>HOLD_OPEN_LOBBY_SECONDS (lobby_c (ke_config env))\<rfloor> else DEFAULT_LOBBY_SECONDS)"

definition sample_burn :: "'w keeper_env \<Rightarrow> int \<Rightarrow> ('w, unit) kact" where
  "sample_burn env lamportsBefore = kmod (\<lambda>c.
     case lastOpenLamports c of
       Some before \<Rightarrow>
         if closeCatchUpAhead c then c
         else c\<lparr>burnSamples := recordBurnSample (burnSamples c) (Fin (of_int (before - lamportsBefore)))
                                  (BURN_ARM_AFTER_ROUNDS (rent_c (ke_config env)))\<rparr>
     | None \<Rightarrow> c)"

definition opened :: "'w keeper_env \<Rightarrow> int \<Rightarrow> int \<Rightarrow> ('w, unit) kact" where
  "opened env n lamportsBefore =
     kbind (now_sec env) (\<lambda>t.
     kbind (kmod (\<lambda>c. c\<lparr>lastOpenLamports := (if closeCatchUpAhead c then None else Some lamportsBefore),
        firstOpenAtSec := (case firstOpenAtSec c of None \<Rightarrow> Some t | x \<Rightarrow> x),
        opensObserved := opensObserved c + 1, timeline := freshTimeline (Some n) (Some lamportsBefore)\<rparr>)) (\<lambda>_.
     kbind (on_pub (setNextLobbyOpensAt None)) (\<lambda>_.
     kbind (kmod (\<lambda>c. c\<lparr>refreshAfterStep := True\<rparr>)) (\<lambda>_.
     kbind (delegateRound env n) (\<lambda>_. fundBank env)))))"

definition openNextRound :: "'w keeper_env \<Rightarrow> int \<Rightarrow> ('w, unit) kact" where
  "openNextRound env n =
     kbind (kget (\<lambda>c. sweepStopSince c \<noteq> None)) (\<lambda>stopped.
       if stopped then kbind (sweepIsKeepingUp env) (\<lambda>_. kret ())
       else
         kbind (affordsAnotherRound env) (\<lambda>afford.
           case afford of
             None \<Rightarrow> kret ()
           | Some lamportsBefore \<Rightarrow>
               kbind (sample_burn env lamportsBefore) (\<lambda>_.
               kbind (rentIsComingBack env) (\<lambda>burnOk.
                 if \<not> burnOk then kret ()
                 else
                   kbind (sweepIsKeepingUp env) (\<lambda>sweepOk.
                     if \<not> sweepOk then kret ()
                     else
                       kbind (client_send env (OpenRound n (lobby_seconds env))) (\<lambda>sent.
                         if \<not> sent then kret () else opened env n lamportsBefore))))))"

subsection \<open>The seed and the fight\<close>

definition driveDrawing :: "'w keeper_env \<Rightarrow> chain_state \<Rightarrow> round_account \<Rightarrow> ('w, unit) kact" where
  "driveDrawing env st r =
     kbind (on_pub (setNextLobbyOpensAt None)) (\<lambda>_.
     (let drawingFor = cs_nowSec st - of_int (ra_lobbyClosesAt r) in
      if drawingFor \<le> DRAW_TIMEOUT_SECONDS (rent_c (ke_config env)) then
        kmod (\<lambda>c. if drawingFor \<ge> 10 \<and> cs_nowSec st - lastDrawLogSec c \<ge> 10
                   then c\<lparr>lastDrawLogSec := cs_nowSec st\<rparr> else c)
      else
        kbind (on_pub (\<lambda>p.
          let (added, p') = addWedgedRound (of_int (ra_roundNo r)) p in if added then render p' else p')) (\<lambda>_.
          openNextRound env (cs_roundCounter st + 1))))"

text \<open>\<open>fightIsOver\<close>: whoever is standing and not on side 0 counts for side 1.\<close>

definition fightIsOver :: "round_account \<Rightarrow> bool" where
  "fightIsOver r =
     (let up = filter (\<lambda>(f, dead). \<not> dead) (take (ra_fighterCount r) (ra_fighters r));
          side0 = length (filter (\<lambda>(f, dead). seat_side f = Side0) up);
          side1 = length (filter (\<lambda>(f, dead). seat_side f \<noteq> Side0) up)
      in side0 = 0 \<or> side1 = 0)"

fun resolve_attempts :: "'w keeper_env \<Rightarrow> int \<Rightarrow> nat \<Rightarrow> ('w, unit) kact" where
  "resolve_attempts env n 0 = kret ()"
| "resolve_attempts env n (Suc left) =
     kcatch
       (kbind (client_send env (Resolve n)) (\<lambda>sent. kwhen sent (kmod (\<lambda>c. c\<lparr>refreshAfterStep := True\<rparr>))))
       (\<lambda>e. if e \<noteq> FightNotOverYetSent then kthrow e
             else if 0 < left then
               kbind (kmod (\<lambda>c. c\<lparr>world := cl_sleep (ke_client env) (RESOLVE_RETRY_WAIT_SECONDS * 1000) (world c)\<rparr>))
                 (\<lambda>_. resolve_attempts env n left)
             else kret ())"

definition resolveRound :: "'w keeper_env \<Rightarrow> round_account \<Rightarrow> ('w, unit) kact" where
  "resolveRound env r = resolve_attempts env (ra_roundNo r) RESOLVE_RETRY_ATTEMPTS"

definition driveFight :: "'w keeper_env \<Rightarrow> chain_state \<Rightarrow> round_account \<Rightarrow> ('w, unit) kact" where
  "driveFight env st r =
     kbind (on_pub (setNextLobbyOpensAt None)) (\<lambda>_.
     kbind (date_now env) (\<lambda>ms.
     kbind (on_tl (\<lambda>tl. if tl_fightObservedAtMs tl = None then tl\<lparr>tl_fightObservedAtMs := Some ms\<rparr> else tl)) (\<lambda>_.
     (let elapsed = cs_nowSec st - of_int (ra_fightStartedAt r);
          bellHasRung = (elapsed \<ge> of_int (FIGHT_TIMEOUT_SECONDS + CLOCK_SKEW_MARGIN_SECONDS))
      in if fightIsOver r \<or> bellHasRung then resolveRound env r
         else
           let backlog = canonicalCursor (ra_fightStartedAt r) (ra_fighterCount r) (cs_nowSec st) - ra_tickCount r
           in if backlog \<le> 0 then kret ()
              else kcatch (kbind (client_send env (Tick (ra_roundNo r) backlog)) (\<lambda>_. kret ())) (\<lambda>_. kret ())))))"

subsection \<open>Rounds that have ended\<close>

definition sweepHouseTake :: "'w keeper_env \<Rightarrow> chain_state \<Rightarrow> round_account \<Rightarrow> ('w, unit) kact" where
  "sweepHouseTake env st r =
     (if \<not> houseTakeSweep (ke_features env) then kret ()
      else if ra_houseSwept r then kret ()
      else if cs_roundDelegated st \<noteq> Some False then kret ()
      else
        kbind (kget (\<lambda>c. tl_sweepRetryAfterSec (timeline c))) (\<lambda>retryAfter.
          if cs_nowSec st < retryAfter then kret ()
          else
            kcatch
              (kbind (ask (cl_treasuryExists (ke_client env))) (\<lambda>exists.
                 if \<not> exists then kbind (client_send env InitTreasury) (\<lambda>_. kret ())
                 else kbind (client_send env (SweepHouseTake (ra_roundNo r))) (\<lambda>_. kret ())))
              (\<lambda>_. kbind (on_tl (\<lambda>tl. tl\<lparr>tl_sweepRetryAfterSec := cs_nowSec st + SWEEP_RETRY_SECONDS\<rparr>)) (\<lambda>_.
                 on_pub (setLastError (Some \<lparr>ke_at = cs_nowSec st, ke_context = ''take-sweep''\<rparr>))))))"

definition summariseRound :: "'w keeper_env \<Rightarrow> ('w, unit) kact" where
  "summariseRound env =
     kbind (ask (cl_balance (ke_client env))) (\<lambda>lamports.
       kmod (\<lambda>c. c\<lparr>operatorLamportsObserved := Some lamports\<rparr>))"

definition count_completed :: "'w keeper_env \<Rightarrow> ('w, unit) kact" where
  "count_completed env =
     kbind (kget (\<lambda>c. tl_completedCounted (timeline c))) (\<lambda>counted.
       if counted then kret ()
       else
         kbind (on_tl (\<lambda>tl. tl\<lparr>tl_completedCounted := True\<rparr>)) (\<lambda>_.
         kbind (kmod (\<lambda>c. c\<lparr>roundsCompleted := roundsCompleted c + 1\<rparr>)) (\<lambda>_.
         kbind (kmod (\<lambda>c. c\<lparr>publisher := setRoundsCompleted (roundsCompleted c) (publisher c)\<rparr>)) (\<lambda>_.
         kbind (summariseRound env) (\<lambda>_.
           kmod (\<lambda>c. case cli_rounds (ke_options env) of
               None \<Rightarrow> c
             | Some k \<Rightarrow> if k \<le> int (roundsCompleted c) then c\<lparr>stop := True\<rparr> else c))))))"

definition driveSettled :: "'w keeper_env \<Rightarrow> chain_state \<Rightarrow> round_account \<Rightarrow> ('w, unit) kact" where
  "driveSettled env st r =
     kbind (on_tl (\<lambda>tl. if tl_settledObservedAtSec tl = None
              then tl\<lparr>tl_settledObservedAtSec := Some (cs_nowSec st)\<rparr> else tl)) (\<lambda>_.
     kbind (kget (\<lambda>c. the (tl_settledObservedAtSec (timeline c)) + RESULT_HOLD_SECONDS (lobby_c (ke_config env)))) (\<lambda>opensAt.
     kbind (on_pub (setNextLobbyOpensAt (Some opensAt))) (\<lambda>_.
       if cs_roundDelegated st = Some True then
         kbind (client_send env (CloseRoundIx (ra_roundNo r))) (\<lambda>sent.
           if \<not> sent then kret ()
           else kbind (ask (cl_waitForUndelegation (ke_client env) (ra_roundNo r))) (\<lambda>_. count_completed env))
       else
         kbind (sweepHouseTake env st r) (\<lambda>_.
           if cs_nowSec st < opensAt then kret () else openNextRound env (cs_roundCounter st + 1)))))"

definition driveAbandoned :: "'w keeper_env \<Rightarrow> chain_state \<Rightarrow> round_account \<Rightarrow> ('w, unit) kact" where
  "driveAbandoned env st r =
     kbind (on_tl (\<lambda>tl. if tl_abandonedObservedAtSec tl = None
              then tl\<lparr>tl_abandonedObservedAtSec := Some (cs_nowSec st)\<rparr> else tl)) (\<lambda>_.
     kbind (sweepHouseTake env st r) (\<lambda>_.
     kbind (kget (\<lambda>c. the (tl_abandonedObservedAtSec (timeline c)) + ABANDON_HOLD_SECONDS (lobby_c (ke_config env)))) (\<lambda>opensAt.
     kbind (on_pub (setNextLobbyOpensAt (Some opensAt))) (\<lambda>_.
       if cs_nowSec st < opensAt then kret () else openNextRound env (cs_roundCounter st + 1)))))"

definition driveOneStep :: "'w keeper_env \<Rightarrow> chain_state \<Rightarrow> ('w, unit) kact" where
  "driveOneStep env st =
     (if \<not> cs_arena st then kbind (client_send env InitArena) (\<lambda>_. kret ())
      else if cs_roundCounter st = 0 then openNextRound env 1
      else
        case cs_round st of
          None \<Rightarrow> kret ()
        | Some r \<Rightarrow>
            (case phase_of (ra_phase r) of
               Some Lobby \<Rightarrow> driveLobby env st r
             | Some Drawing \<Rightarrow> driveDrawing env st r
             | Some Fight \<Rightarrow> driveFight env st r
             | Some Settled \<Rightarrow> driveSettled env st r
             | Some Abandoned \<Rightarrow> driveAbandoned env st r
             | None \<Rightarrow> kthrow (UnknownPhase (ra_phase r))))"

subsection \<open>Getting the rent back\<close>

text \<open>The batched look ahead: one probe, whose answer is read before the scan is run over it.\<close>

definition ahead_options :: "int \<Rightarrow> int \<Rightarrow> scan_options" where
  "ahead_options from_no lastNo =
     \<lparr>sc_from = from_no, through = lastNo, probe = (\<lambda>_ _. None), nowMs = (\<lambda>_. 0), budgetMs = 1,
      maxBatches = 1, batch = CLOSE_CURSOR_PROBE_BATCH\<rparr>"

definition skipClosedRoundsAhead :: "'w keeper_env \<Rightarrow> chain_state \<Rightarrow> ('w, unit) kact" where
  "skipClosedRoundsAhead env st =
     (let lastNo = cs_roundCounter st - ROUND_RETENTION (rent_c (ke_config env)) in
     kbind (kget closeCursor) (\<lambda>cur.
     kbind (kget (\<lambda>c. probeIsWorthARead cur (closeCursorKnownLiveAt c) lastNo CLOSE_CURSOR_PROBE_BATCH)) (\<lambda>worth.
       if \<not> worth then kret ()
       else
         let opts = ahead_options cur lastNo in
         kbind (kcatch (kbind (ask (cl_roundsExist (ke_client env) (probe_window opts cur))) (\<lambda>xs. kret (Some xs)))
                  (\<lambda>_. kret None)) (\<lambda>answer.
         (let scan = findOldestLivingRound (opts\<lparr>probe := (\<lambda>_ _. answer)\<rparr>) in
          if stoppedBecause scan = Failed then kret ()
          else kmod (\<lambda>c. c\<lparr>closeCatchUpAhead := catchUpAhead scan \<or> closeCatchUpAhead c,
                             closeCursor := cursor scan\<rparr>))))))"

text \<open>The first cursor, from the scan at boot, or nothing when the scan threw.\<close>

definition seedCloseCursor :: "'w keeper_env \<Rightarrow> close_cursor_scan option \<Rightarrow> int \<times> bool \<times> int option" where
  "seedCloseCursor env scan =
     (if \<not> closing_on env then (1, False, None)
      else case scan of
          None \<Rightarrow> (1, False, None)
        | Some s \<Rightarrow> (cursor s, catchUpAhead s, if stoppedBecause s = Found then Some (cursor s) else None))"

definition candidate_of :: "round_account option \<Rightarrow> bool \<Rightarrow> close_candidate" where
  "candidate_of rnd del =
     \<lparr>cc_round = map_option (\<lambda>r. (case phase_of (ra_phase r) of None \<Rightarrow> Lobby | Some ph \<Rightarrow> ph, ra_houseSwept r)) rnd,
      delegated = del\<rparr>"

definition note_stranded :: "advance_reason \<Rightarrow> int \<Rightarrow> ('w, unit) kact" where
  "note_stranded why n =
     (case why of
        NeverTerminal \<Rightarrow> kmod (\<lambda>c. c\<lparr>closeStrandedNeverTerminal := recordCloseLoss n (closeStrandedNeverTerminal c)\<rparr>)
      | StillDelegated \<Rightarrow> kmod (\<lambda>c. c\<lparr>closeStrandedStillDelegated := recordCloseLoss n (closeStrandedStillDelegated c)\<rparr>)
      | AlreadyClosed \<Rightarrow> kret ())"

definition advance_cursor :: "('w, unit) kact" where
  "advance_cursor = kmod (\<lambda>c. c\<lparr>closeCursor := closeCursor c + 1, closeAttempts := 0\<rparr>)"

definition close_failed :: "'w keeper_env \<Rightarrow> chain_state \<Rightarrow> int \<Rightarrow> ('w, unit) kact" where
  "close_failed env st n =
     kbind (kmod (\<lambda>c. c\<lparr>closeAttempts := closeAttempts c + 1,
              closeRetryAfterSec := cs_nowSec st + CLOSE_RETRY_SECONDS (rent_c (ke_config env))\<rparr>)) (\<lambda>_.
     kbind (kget closeAttempts) (\<lambda>attempts.
       kwhen (CLOSE_ATTEMPTS_PER_ROUND \<le> attempts)
         (kbind (kmod (\<lambda>c. c\<lparr>closeSkipped := recordCloseLoss n (closeSkipped c)\<rparr>)) (\<lambda>_. advance_cursor))))"

definition close_now :: "'w keeper_env \<Rightarrow> chain_state \<Rightarrow> int \<Rightarrow> ('w, unit) kact" where
  "close_now env st n =
     kcatch
       (kbind (client_send env (CloseRoundAccount n)) (\<lambda>sent.
        kbind (kwhen sent (kmod (\<lambda>c. c\<lparr>rentReclaimed := rentReclaimed c + 1\<rparr>))) (\<lambda>_. advance_cursor)))
       (\<lambda>_. close_failed env st n)"

definition close_at_cursor :: "'w keeper_env \<Rightarrow> chain_state \<Rightarrow> int \<Rightarrow> ('w, unit) kact" where
  "close_at_cursor env st n =
     kbind (ask (cl_fetchRound (ke_client env) n)) (\<lambda>rnd.
     kbind (kwhen (rnd \<noteq> None)
       (kmod (\<lambda>c. c\<lparr>closeCatchUpAhead := False, closeCursorKnownLiveAt := Some n\<rparr>))) (\<lambda>_.
     kbind (if rnd = None then kret False else ask (cl_isDelegated (ke_client env) n)) (\<lambda>del.
       case decideClose (candidate_of rnd del) of
         Advance why \<Rightarrow> kbind (note_stranded why n) (\<lambda>_. advance_cursor)
       | SweepFirst \<Rightarrow> (case rnd of None \<Rightarrow> kret () | Some r \<Rightarrow> sweepHouseTake env st r)
       | CloseRound \<Rightarrow> close_now env st n)))"

definition closeOneFinishedRound :: "'w keeper_env \<Rightarrow> chain_state \<Rightarrow> ('w, unit) kact" where
  "closeOneFinishedRound env st =
     (if \<not> closing_on env then kret ()
      else if \<not> housekeepingIsWelcome (Option.bind (cs_round st) (\<lambda>r. phase_of (ra_phase r))) then kret ()
      else
        kbind (kget closeRetryAfterSec) (\<lambda>retryAfter.
          if cs_nowSec st < retryAfter then kret ()
          else
            kbind (skipClosedRoundsAhead env st) (\<lambda>_.
            kbind (kget closeCursor) (\<lambda>n.
              if \<not> isPastRetention n (cs_roundCounter st) (ROUND_RETENTION (rent_c (ke_config env)))
              then kmod (\<lambda>c. c\<lparr>closeCatchUpAhead := False, closeCursorCaughtUp := True\<rparr>)
              else close_at_cursor env st n))))"

definition pollTreasury :: "'w keeper_env \<Rightarrow> chain_state \<Rightarrow> ('w, unit) kact" where
  "pollTreasury env st =
     (if \<not> houseTakeSweep (ke_features env) then kret ()
      else
        kbind (kget treasuryPolledAtSec) (\<lambda>polled.
          if cs_nowSec st < polled + TREASURY_POLL_SECONDS (rent_c (ke_config env)) then kret ()
          else
            kbind (kmod (\<lambda>c. c\<lparr>treasuryPolledAtSec := cs_nowSec st\<rparr>)) (\<lambda>_.
              kcatch
                (kbind (ask (cl_fetchTreasury (ke_client env))) (\<lambda>swept.
                   kmod (\<lambda>c. c\<lparr>treasury := Some \<lparr>roundCounter = cs_roundCounter st, roundsSwept = swept,
                                                        polledAtSec = cs_nowSec st\<rparr>\<rparr>)))
                (\<lambda>_. kret ()))))"

subsection \<open>A pass\<close>

definition roundStatusFrom :: "'w keeper_env \<Rightarrow> round_account \<Rightarrow> bool \<Rightarrow> kfail + keeper_round" where
  "roundStatusFrom env r held =
     (if phase_of (ra_phase r) = None then Inl (UnknownPhase (ra_phase r))
      else Inr \<lparr>kr_no = of_int (ra_roundNo r), kr_pda = ke_pda env (ra_roundNo r),
        kr_phase = PHASE_NAME ! nat (ra_phase r), kr_phaseCode = ra_phase r,
        kr_lobbyOpenedAt = of_int (ra_lobbyOpenedAt r), kr_lobbyClosesAt = of_int (ra_lobbyClosesAt r),
        kr_fightStartedAt = of_int (ra_fightStartedAt r), kr_fighterCount = of_nat (ra_fighterCount r),
        kr_heldOpen = held, kr_winner = of_int (ra_winner r), kr_pot = int_text (ra_pot r)\<rparr>)"

definition publishRoundSnapshot :: "'w keeper_env \<Rightarrow> chain_state \<Rightarrow> ('w, unit) kact" where
  "publishRoundSnapshot env st =
     (case cs_round st of
        None \<Rightarrow> on_pub (setRound None)
      | Some r \<Rightarrow>
          kbind (kget (\<lambda>c. case phase_of (ra_phase r) of
             None \<Rightarrow> False | Some ph \<Rightarrow> lobbyIsHeldOpen ph (lobby_view_of env st r (timeline c)))) (\<lambda>held.
            case roundStatusFrom env r held of
              Inl e \<Rightarrow> kthrow e
            | Inr shown \<Rightarrow> on_pub (setRound (Some shown))))"

definition recordError :: "'w keeper_env \<Rightarrow> string \<Rightarrow> ('w, unit) kact" where
  "recordError env ctx =
     kbind (now_sec env) (\<lambda>t.
     kbind (on_pub (setLastError (Some \<lparr>ke_at = t, ke_context = ctx\<rparr>))) (\<lambda>_. on_pub render))"

definition measuredRoundsPerDay :: "'w keeper_ctx \<Rightarrow> rat \<Rightarrow> rat option" where
  "measuredRoundsPerDay c t =
     (case firstOpenAtSec c of
        None \<Rightarrow> None
      | Some first \<Rightarrow>
          if opensObserved c < 2 \<or> t - first < MIN_RATE_WINDOW_SECONDS then None
          else Some (of_nat (opensObserved c) * 86400 / (t - first)))"

definition meet_round :: "chain_state \<Rightarrow> ('w, unit) kact" where
  "meet_round st = on_tl (\<lambda>tl.
     if 0 < cs_roundCounter st \<and> tl_roundNo tl \<noteq> Some (cs_roundCounter st)
     then freshTimeline (Some (cs_roundCounter st)) None else tl)"

definition pass_body :: "'w keeper_env \<Rightarrow> ('w, unit) kact" where
  "pass_body env =
     kbind (readChainState env) (\<lambda>st.
     kbind (meet_round st) (\<lambda>_.
     kbind (publishRoundSnapshot env st) (\<lambda>_.
     kbind (driveOneStep env st) (\<lambda>_.
     kbind (kget refreshAfterStep) (\<lambda>again.
     kbind (if again then
              kbind (kmod (\<lambda>c. c\<lparr>refreshAfterStep := False\<rparr>)) (\<lambda>_.
              kbind (readChainState env) (\<lambda>st'. publishRoundSnapshot env st'))
            else kbind (pollTreasury env st) (\<lambda>_. closeOneFinishedRound env st)) (\<lambda>_.
     kbind (on_pub render) (\<lambda>_.
     kbind (kmod (\<lambda>c. c\<lparr>consecutiveErrors := 0\<rparr>)) (\<lambda>_.
     kbind (on_pub (setLastError None)) (\<lambda>_. on_pub (setStalledSince None))))))))))"

definition pass_failed :: "'w keeper_env \<Rightarrow> ('w, unit) kact" where
  "pass_failed env =
     kbind (kmod (\<lambda>c. c\<lparr>consecutiveErrors := consecutiveErrors c + 1\<rparr>)) (\<lambda>_.
     kbind (recordError env ''main-loop'') (\<lambda>_.
     kbind (now_sec env) (\<lambda>t.
     kbind (kmod (\<lambda>c. if consecutiveErrors c = STALL_AFTER_CONSECUTIVE_FAILURES
                        then c\<lparr>publisher := setStalledSince (Some t) (publisher c)\<rparr> else c)) (\<lambda>_.
       on_pub render))))"

definition backoff_seconds :: "nat \<Rightarrow> rat" where
  "backoff_seconds errors = min (ERROR_BACKOFF_BASE_SECONDS * 2 ^ (errors - 1)) ERROR_BACKOFF_MAX_SECONDS"

text \<open>One turn of the loop, with the seconds it then sleeps.\<close>

definition keeper_pass :: "'w keeper_env \<Rightarrow> 'w keeper_ctx \<Rightarrow> rat \<times> 'w keeper_ctx" where
  "keeper_pass env c =
     (case pass_body env c of
        (Inr _, c') \<Rightarrow> (LOOP_INTERVAL_SECONDS (loop_c (ke_config env)), c')
      | (Inl _, c') \<Rightarrow>
          (let c'' = snd (pass_failed env c') in (backoff_seconds (consecutiveErrors c''), c'')))"

end
