(* ===== verification/Keeper_World.thy ===== *)
theory Keeper_World
  imports Keeper_Drive
begin

text \<open>
  The keeper and its arena. The world is the program's state, a clock and balances. Two kinds of client
  stand between: one that may fail in any call (\<open>arena_client\<close>, the locale \<open>arena_link\<close>), and one of
  these behind which every read is truthful at once and a transaction lands exactly when the program
  accepts it (\<open>honest_client\<close>), with a chain clock that may be off the keeper's. Between passes anybody
  else may send what the program accepts, time passes and balances change. The lemmas say what the
  keeper's own computations can do to the arena behind any client: send accepted instructions, and
  nothing else.
\<close>

subsection \<open>Relations a computation keeps\<close>

definition keeps_at :: "('c \<Rightarrow> 'c \<Rightarrow> bool) \<Rightarrow> ('c, 'a) act \<Rightarrow> 'c \<Rightarrow> bool" where
  "keeps_at R m c \<longleftrightarrow> R c (snd (m c))"

locale act_relation =
  fixes R :: "'c \<Rightarrow> 'c \<Rightarrow> bool"
  assumes R_refl: "R c c"
    and R_trans: "R a b \<Longrightarrow> R b c \<Longrightarrow> R a c"
begin

lemma at_kret: "keeps_at R (kret x) c"
  by (simp add: keeps_at_def kret_def R_refl)

lemma at_kthrow: "keeps_at R (kthrow e) c"
  by (simp add: keeps_at_def kthrow_def R_refl)

lemma at_kget: "keeps_at R (kget g) c"
  by (simp add: keeps_at_def kget_def R_refl)

lemma at_kmod: "R c (f c) \<Longrightarrow> keeps_at R (kmod f) c"
  by (simp add: keeps_at_def kmod_def)

lemma at_kbind:
  assumes "keeps_at R m c" and "\<And>x c1. m c = (Inr x, c1) \<Longrightarrow> keeps_at R (f x) c1"
  shows "keeps_at R (kbind m f) c"
proof (cases "m c")
  case (Pair r c1)
  then show ?thesis using assms R_trans
    by (cases r) (auto simp: keeps_at_def kbind_def)
qed

lemma at_kbind_all: "(\<And>c. keeps_at R m c) \<Longrightarrow> (\<And>x c. keeps_at R (f x) c) \<Longrightarrow> keeps_at R (kbind m f) c"
  by (rule at_kbind)

lemma at_kcatch:
  assumes "keeps_at R m c" and "\<And>e c1. keeps_at R (h e) c1"
  shows "keeps_at R (kcatch m h) c"
proof (cases "m c")
  case (Pair r c1)
  then show ?thesis using assms R_trans
    by (cases r) (auto simp: keeps_at_def kcatch_def)
qed

lemma at_kwhen: "(b \<Longrightarrow> keeps_at R m c) \<Longrightarrow> keeps_at R (kwhen b m) c"
  by (simp add: kwhen_def at_kret)

lemma at_if: "(b \<Longrightarrow> keeps_at R m c) \<Longrightarrow> (\<not> b \<Longrightarrow> keeps_at R n c) \<Longrightarrow> keeps_at R (if b then m else n) c"
  by simp

lemma at_let: "(\<And>y. keeps_at R (f y) c) \<Longrightarrow> keeps_at R (Let x f) c"
  by (simp add: Let_def)

lemma at_option:
  "keeps_at R m c \<Longrightarrow> (\<And>y. keeps_at R (f y) c) \<Longrightarrow> keeps_at R (case x of None \<Rightarrow> m | Some y \<Rightarrow> f y) c"
  by (cases x) simp_all

lemma at_prod: "(\<And>a b. keeps_at R (f a b) c) \<Longrightarrow> keeps_at R (case x of (a, b) \<Rightarrow> f a b) c"
  by (cases x) simp

lemma at_kfor: "(\<And>x c. keeps_at R (f x) c) \<Longrightarrow> keeps_at R (kfor f xs) c"
  by (induction xs arbitrary: c) (auto intro: at_kret at_kbind_all)

lemmas at_intros = at_kret at_kthrow at_kget at_kwhen at_if at_let at_option at_prod at_kfor
  at_kcatch at_kbind_all

end

subsection \<open>An arena that answers\<close>

record arena_world =
  w_now :: int
  w_chain :: arena_chain
  w_lamports :: int
  w_house :: "string \<Rightarrow> int"

definition code_of :: "phase \<Rightarrow> int" where
  "code_of ph = (case ph of Lobby \<Rightarrow> 0 | Drawing \<Rightarrow> 1 | Fight \<Rightarrow> 2 | Settled \<Rightarrow> 3 | Abandoned \<Rightarrow> 4)"

lemma phase_of_code_of [simp]: "phase_of (code_of ph) = Some ph"
  by (cases ph) (simp_all add: phase_of_def code_of_def)

definition account_of :: "int \<Rightarrow> program_round \<Rightarrow> round_account" where
  "account_of n r =
     \<lparr>ra_roundNo = n, ra_phase = code_of (pr_phase r), ra_lobbyOpenedAt = pr_openedAt r,
      ra_lobbyClosesAt = pr_closesAt r, ra_fightStartedAt = pr_startedAt r,
      ra_fighterCount = pr_count r, ra_fighters = pr_fighters r, ra_tickCount = pr_ticks r,
      ra_houseSwept = pr_swept r, ra_winner = 0, ra_pot = 0\<rparr>"

definition delegated_on :: "arena_chain \<Rightarrow> int \<Rightarrow> bool" where
  "delegated_on ch n = (case ac_rounds ch n of None \<Rightarrow> False | Some r \<Rightarrow> pr_delegated r)"

definition land :: "fight \<Rightarrow> int \<Rightarrow> round_ix \<Rightarrow> arena_world \<Rightarrow> (kfail + unit) \<times> arena_world" where
  "land fight lag ix w =
     (case run_ix fight (w_now w - lag) ix (w_chain w) of
        Inl e \<Rightarrow> (Inl (if e = FightNotOverYet then FightNotOverYetSent else SendFailed), w)
      | Inr ch \<Rightarrow> (Inr (), w\<lparr>w_chain := ch\<rparr>))"

definition honest_client :: "fight \<Rightarrow> int \<Rightarrow> arena_world client" where
  "honest_client fight lag =
     \<lparr>cl_nowSec = (\<lambda>w. of_int (w_now w)), cl_dateNow = (\<lambda>w. of_int (w_now w) * 1000),
      cl_fetchArena = (\<lambda>w. (Inr (ac_counter (w_chain w)), w)),
      cl_fetchRound = (\<lambda>n w. (Inr (map_option (account_of n) (ac_rounds (w_chain w) n)), w)),
      cl_isDelegated = (\<lambda>n w. (Inr (delegated_on (w_chain w) n), w)),
      cl_routerSaysDelegated = (\<lambda>n w. (Inr (delegated_on (w_chain w) n), w)),
      cl_roundValidatorFqdn = (\<lambda>n w. (Inr ''validator'', w)),
      cl_waitForDelegation = (\<lambda>n w. (Inr (delegated_on (w_chain w) n), w)),
      cl_waitForUndelegation = (\<lambda>n w. (Inr (\<not> delegated_on (w_chain w) n), w)),
      cl_roundsExist = (\<lambda>ns w. (Inr (map (\<lambda>n. ac_rounds (w_chain w) n \<noteq> None) ns), w)),
      cl_fetchTreasury = (\<lambda>w. (Inr (ac_treasury (w_chain w)), w)),
      cl_treasuryExists = (\<lambda>w. (Inr (ac_treasury (w_chain w) \<noteq> None), w)),
      cl_balance = (\<lambda>w. (Inr (w_lamports w), w)),
      cl_houseBalances = (\<lambda>ks w. (Inr (map (w_house w) ks), w)),
      cl_rentFloor = (\<lambda>w. (Inr 890880, w)),
      cl_sendTx = land fight lag,
      cl_transfer = (\<lambda>xs w. (Inr (), w\<lparr>w_lamports := w_lamports w - sum_list (map snd xs),
         w_house := foldl (\<lambda>h (k, x). h(k := h k + x)) (w_house w) xs\<rparr>)),
      cl_sleep = (\<lambda>ms w. w\<lparr>w_now := w_now w + max 0 \<lceil>ms / 1000\<rceil>\<rparr>)\<rparr>"

text \<open>
  A client that may fail. Any call may throw at any time, the clock may move while it is waited for, and
  every answer may be wrong except the two a handler acts on with the authority's key: the arena and the
  round, which are truthful when they come at all. A transaction may be lost, may land and be reported,
  or may land while the sender is told that it failed; whether it lands is the program's decision.
\<close>

definition mild :: "(arena_world \<Rightarrow> 'r \<times> arena_world) \<Rightarrow> bool" where
  "mild f \<longleftrightarrow> (\<forall>w. w_chain (snd (f w)) = w_chain w \<and> w_now w \<le> w_now (snd (f w)))"

definition sends_fairly :: "fight \<Rightarrow> (round_ix \<Rightarrow> arena_world \<Rightarrow> (kfail + unit) \<times> arena_world) \<Rightarrow> bool" where
  "sends_fairly fight f \<longleftrightarrow> (\<forall>ix w. w_now w \<le> w_now (snd (f ix w)) \<and>
     ((\<exists>e. fst (f ix w) = Inl e) \<and> w_chain (snd (f ix w)) = w_chain w \<or>
      (\<exists>t. run_ix fight t ix (w_chain w) = Inr (w_chain (snd (f ix w))))))"

definition arena_client :: "fight \<Rightarrow> arena_world client \<Rightarrow> bool" where
  "arena_client fight cl \<longleftrightarrow>
     mild (cl_fetchArena cl) \<and> (\<forall>n. mild (cl_fetchRound cl n)) \<and> (\<forall>n. mild (cl_isDelegated cl n)) \<and>
     (\<forall>n. mild (cl_routerSaysDelegated cl n)) \<and> (\<forall>n. mild (cl_roundValidatorFqdn cl n)) \<and>
     (\<forall>n. mild (cl_waitForDelegation cl n)) \<and> (\<forall>n. mild (cl_waitForUndelegation cl n)) \<and>
     (\<forall>ns. mild (cl_roundsExist cl ns)) \<and> mild (cl_fetchTreasury cl) \<and> mild (cl_treasuryExists cl) \<and>
     mild (cl_balance cl) \<and> (\<forall>ks. mild (cl_houseBalances cl ks)) \<and> mild (cl_rentFloor cl) \<and>
     (\<forall>xs. mild (cl_transfer cl xs)) \<and> (\<forall>ms. mild (\<lambda>w. ((), cl_sleep cl ms w))) \<and>
     (\<forall>w k. fst (cl_fetchArena cl w) = Inr k \<longrightarrow> k = ac_counter (w_chain w)) \<and>
     (\<forall>n w x. fst (cl_fetchRound cl n w) = Inr x \<longrightarrow> x = map_option (account_of n) (ac_rounds (w_chain w) n)) \<and>
     sends_fairly fight (cl_sendTx cl)"

abbreviation (input) chain_in :: "arena_world keeper_ctx \<Rightarrow> arena_chain" where
  "chain_in c \<equiv> w_chain (world c)"

subsection \<open>What instructions can do to a round\<close>

text \<open>The authority delegates a round only while it is in its lobby; the program does not check.\<close>

definition allowed :: "arena_chain \<Rightarrow> round_ix \<Rightarrow> bool" where
  "allowed ch ix = (case ix of
     DelegateRound n \<Rightarrow> (\<exists>r. ac_rounds ch n = Some r \<and> pr_phase r = Lobby) | _ \<Rightarrow> True)"

inductive chain_moves :: "fight \<Rightarrow> arena_chain \<Rightarrow> arena_chain \<Rightarrow> bool" for fight :: fight where
  moves_refl: "chain_moves fight ch ch"
| moves_step: "chain_moves fight a b \<Longrightarrow> allowed b ix \<Longrightarrow> run_ix fight t ix b = Inr ch \<Longrightarrow> chain_moves fight a ch"

lemma chain_moves_trans: "chain_moves fight b c \<Longrightarrow> chain_moves fight a b \<Longrightarrow> chain_moves fight a c"
  by (induction rule: chain_moves.induct) (auto intro: chain_moves.intros)

lemma chain_moves_one: "allowed a ix \<Longrightarrow> run_ix fight t ix a = Inr b \<Longrightarrow> chain_moves fight a b"
  by (rule moves_step [OF moves_refl])

fun rank :: "phase \<Rightarrow> nat" where
  "rank Lobby = 0" | "rank Drawing = 1" | "rank Fight = 2" | "rank Settled = 3" | "rank Abandoned = 4"

lemma rank_inj [simp]: "rank p = rank q \<longleftrightarrow> p = q"
  by (cases p; cases q) simp_all

text \<open>A round goes forwards: through its phases, and within a phase along its clock.\<close>

definition later :: "program_round \<Rightarrow> program_round \<Rightarrow> bool" where
  "later r r' \<longleftrightarrow> pr_closesAt r' = pr_closesAt r \<and> rank (pr_phase r) \<le> rank (pr_phase r') \<and>
     (pr_phase r = pr_phase r' \<longrightarrow>
        pr_startedAt r' = pr_startedAt r \<and> pr_ticks r \<le> pr_ticks r' \<and>
        (pr_phase r \<noteq> Lobby \<longrightarrow> pr_count r' = pr_count r) \<and>
        (if ended r then pr_delegated r' \<longrightarrow> pr_delegated r else pr_delegated r \<longrightarrow> pr_delegated r'))"

lemma later_refl: "later r r"
  by (simp add: later_def)

lemma later_trans:
  assumes "later r s" and "later s t"
  shows "later r t"
proof -
  have "pr_phase s = pr_phase r" if "pr_phase r = pr_phase t"
    using assms that by (auto simp: later_def intro: rank_inj [THEN iffD1])
  then show ?thesis using assms by (auto simp: later_def ended_def split: if_splits)
qed

definition round_sound :: "program_round \<Rightarrow> bool" where
  "round_sound r \<longleftrightarrow>
     (pr_phase r = Drawing \<or> pr_phase r = Fight \<longrightarrow> pr_delegated r \<and> 2 \<le> pr_count r) \<and>
     (pr_phase r = Abandoned \<longrightarrow> \<not> pr_delegated r)"

definition chain_sound :: "arena_chain \<Rightarrow> bool" where
  "chain_sound ch \<longleftrightarrow>
     (case ac_counter ch of
        None \<Rightarrow> ac_rounds ch = Map.empty
      | Some k \<Rightarrow> 0 \<le> k \<and> (\<forall>n. k < n \<longrightarrow> ac_rounds ch n = None) \<and> (0 < k \<longrightarrow> ac_rounds ch k \<noteq> None)) \<and>
     (\<forall>n r. ac_rounds ch n = Some r \<longrightarrow> round_sound r)"

lemmas ix_defs = ix_enter_def ix_draw_def ix_callback_def ix_tick_def ix_resolve_def ix_abandon_def
  ix_close_def apply_sweep_def check_close_permitted_def demand_def rbind_def

lemma catch_up_same [simp]:
  "pr_phase (catch_up fight t k r) = pr_phase r" "pr_closesAt (catch_up fight t k r) = pr_closesAt r"
  "pr_startedAt (catch_up fight t k r) = pr_startedAt r" "pr_count (catch_up fight t k r) = pr_count r"
  "pr_delegated (catch_up fight t k r) = pr_delegated r"
  by (simp_all add: catch_up_def Let_def)

lemma catch_up_ticks: "0 \<le> k \<Longrightarrow> pr_ticks r \<le> pr_ticks (catch_up fight t k r)"
  by (simp add: catch_up_def Let_def)

lemma catch_up_later: "0 \<le> k \<Longrightarrow> later r (catch_up fight t k r)"
  by (simp add: later_def catch_up_ticks ended_def)

text \<open>What the transition of one round by an instruction must satisfy.\<close>

definition good_step :: "bool \<Rightarrow> (program_round \<Rightarrow> prog_error + program_round) \<Rightarrow> bool" where
  "good_step er f \<longleftrightarrow>
     (\<forall>r r'. round_sound r \<and> pr_delegated r = er \<and> f r = Inr r' \<longrightarrow> later r r' \<and> round_sound r')"

lemma enter_good: "good_step True (ix_enter t who s u)"
  by (auto simp: good_step_def ix_defs later_def ended_def round_sound_def split: if_splits)

lemma draw_good: "good_step True (ix_draw t auth)"
  by (auto simp: good_step_def ix_defs later_def ended_def round_sound_def enough_to_fight_def split: if_splits)

lemma callback_good: "good_step True (ix_callback t)"
  by (auto simp: good_step_def ix_defs later_def ended_def round_sound_def split: if_splits)

lemma tick_good: "good_step True (ix_tick fight t k)"
  by (auto simp: good_step_def ix_defs round_sound_def clock_constants split: if_splits intro!: catch_up_later)

lemma resolve_good: "good_step True (ix_resolve fight t)"
  unfolding good_step_def
proof (intro allI impI, elim conjE)
  fix r r'
  assume r: "round_sound r" "pr_delegated r = True" and step: "ix_resolve fight t r = Inr r'"
  let ?u = "catch_up fight t MAX_STEPS_PER_CALL r"
  have "r' = ?u \<or> r' = ?u\<lparr>pr_phase := Settled\<rparr>" and fight: "pr_phase r = Fight"
    using step by (auto simp: ix_defs Let_def split: if_splits)
  moreover have "later r ?u" by (rule catch_up_later) (simp add: clock_constants)
  ultimately show "later r r' \<and> round_sound r'"
    using r by (auto simp: later_def round_sound_def)
qed

lemma abandon_good: "good_step True (ix_abandon t)"
  by (auto simp: good_step_def ix_defs later_def ended_def round_sound_def split: if_splits)

lemma close_good: "good_step True ix_close"
  by (auto simp: good_step_def ix_defs later_def ended_def round_sound_def split: if_splits)

lemma sweep_good: "good_step False apply_sweep"
  by (auto simp: good_step_def ix_defs later_def ended_def round_sound_def split: if_splits)

definition chain_le :: "arena_chain \<Rightarrow> arena_chain \<Rightarrow> bool" where
  "chain_le a b \<longleftrightarrow>
     (\<forall>k. ac_counter a = Some k \<longrightarrow> (\<exists>k'. ac_counter b = Some k' \<and> k \<le> k')) \<and>
     (\<forall>n r. ac_rounds a n = Some r \<longrightarrow>
        (\<exists>r'. ac_rounds b n = Some r' \<and> later r r') \<or>
        (\<exists>k. ac_counter b = Some k \<and> n + int MIN_RETAINED_ROUNDS \<le> k))"

lemma chain_le_refl: "chain_le a a"
  by (auto simp: chain_le_def later_refl)

lemma chain_le_counter: "chain_le a b \<Longrightarrow> ac_counter a = Some k \<Longrightarrow> \<exists>k'. ac_counter b = Some k' \<and> k \<le> k'"
  by (simp add: chain_le_def)

lemma chain_le_round:
  "chain_le a b \<Longrightarrow> ac_rounds a n = Some r \<Longrightarrow>
     (\<exists>r'. ac_rounds b n = Some r' \<and> later r r') \<or> (\<exists>k. ac_counter b = Some k \<and> n + int MIN_RETAINED_ROUNDS \<le> k)"
  by (simp add: chain_le_def)

lemma chain_le_trans:
  assumes ab: "chain_le a b" and bc: "chain_le b c"
  shows "chain_le a c"
  unfolding chain_le_def
proof (intro conjI allI impI)
  fix k assume "ac_counter a = Some k"
  then show "\<exists>k'. ac_counter c = Some k' \<and> k \<le> k'"
    by (meson ab bc chain_le_counter order_trans)
next
  fix n r assume "ac_rounds a n = Some r"
  from chain_le_round [OF ab this]
  show "(\<exists>r'. ac_rounds c n = Some r' \<and> later r r') \<or>
      (\<exists>k. ac_counter c = Some k \<and> n + int MIN_RETAINED_ROUNDS \<le> k)"
  proof (elim disjE exE conjE)
    fix r' assume "ac_rounds b n = Some r'" "later r r'"
    then show ?thesis using chain_le_round [OF bc] by (meson later_trans)
  next
    fix k assume k: "ac_counter b = Some k" "n + int MIN_RETAINED_ROUNDS \<le> k"
    then show ?thesis using chain_le_counter [OF bc k(1)] by force
  qed
qed

lemma on_round_sound:
  assumes a: "chain_sound a" and good: "good_step er f" and step: "on_round er n f a = Inr b"
  shows "chain_sound b \<and> chain_le a b"
proof -
  obtain r r' where r: "ac_rounds a n = Some r" "pr_delegated r = er" "f r = Inr r'"
    and b: "b = a\<lparr>ac_rounds := (ac_rounds a)(n \<mapsto> r')\<rparr>"
    using step by (auto simp: on_round_def demand_def rbind_Inr_iff split: option.splits if_splits)
  have "round_sound r" using a r(1) by (simp add: chain_sound_def)
  then have r': "later r r'" "round_sound r'" using good r by (auto simp: good_step_def)
  have "chain_sound b" using a r(1) r'(2) unfolding b chain_sound_def
    by (auto split: option.splits)
  moreover have "chain_le a b" using r(1) r'(1) by (auto simp: chain_le_def b later_refl)
  ultimately show ?thesis by simp
qed

lemma delegate_sound:
  assumes a: "chain_sound a" and ok: "allowed a (DelegateRound n)"
    and step: "on_round False n (\<lambda>r. Inr (r\<lparr>pr_delegated := True\<rparr>)) a = Inr b"
  shows "chain_sound b \<and> chain_le a b"
proof -
  obtain r where r: "ac_rounds a n = Some r" "pr_phase r = Lobby" using ok by (auto simp: allowed_def)
  have "on_round False n (\<lambda>r. if pr_phase r = Lobby then Inr (r\<lparr>pr_delegated := True\<rparr>) else Inl NotInLobby) a = Inr b"
    using step r by (simp add: on_round_def demand_def rbind_def split: if_splits)
  moreover have "good_step False (\<lambda>r. if pr_phase r = Lobby then Inr (r\<lparr>pr_delegated := True\<rparr>) else Inl NotInLobby)"
    by (auto simp: good_step_def later_def ended_def round_sound_def)
  ultimately show ?thesis using on_round_sound [OF a] by blast
qed

lemma open_sound:
  assumes a: "chain_sound a" and step: "ix_open t n secs a = Inr b"
  shows "chain_sound b \<and> chain_le a b"
proof -
  obtain k where k: "ac_counter a = Some k" "n = k + 1" "ac_rounds a n = None"
    and b: "b = a\<lparr>ac_counter := Some n, ac_rounds := (ac_rounds a)(n \<mapsto> fresh_round t secs)\<rparr>"
    using step by (auto simp: ix_open_def demand_def rbind_Inr_iff split: option.splits if_splits)
  have "round_sound (fresh_round t secs)" by (simp add: round_sound_def fresh_round_def)
  then have "chain_sound b" using a k unfolding b chain_sound_def by auto
  moreover have "chain_le a b" using k by (auto simp: chain_le_def b later_refl)
  ultimately show ?thesis by simp
qed

lemma run_ix_sound:
  assumes a: "chain_sound a" and ok: "allowed a ix" and step: "run_ix fight t ix a = Inr b"
  shows "chain_sound b \<and> chain_le a b"
proof (cases ix)
  case InitArena
  then show ?thesis using step a
    by (auto simp: demand_def rbind_Inr_iff chain_sound_def chain_le_def later_refl split: if_splits)
next
  case (SweepHouseTake n)
  then obtain swept b' where b': "on_round False n apply_sweep a = Inr b'" "b = b'\<lparr>ac_treasury := Some (swept + 1)\<rparr>"
    using step by (auto simp: rbind_Inr_iff split: option.splits)
  from on_round_sound [OF a sweep_good b'(1)] show ?thesis
    unfolding b'(2) chain_sound_def chain_le_def by (cases "ac_counter b'") auto
next
  case InitTreasury
  then show ?thesis using step a
    by (cases "ac_counter a")
       (auto simp: demand_def rbind_Inr_iff chain_sound_def chain_le_def later_refl split: if_splits)
next
  case (CloseRoundAccount n)
  then obtain r k where r: "ac_rounds a n = Some r" "ac_counter a = Some k" "n + int MIN_RETAINED_ROUNDS \<le> k"
    and b: "b = a\<lparr>ac_rounds := (ac_rounds a)(n := None)\<rparr>"
    using step by (auto simp: check_close_permitted_def demand_def rbind_Inr_iff split: option.splits if_splits)
  have "n < k" using r(3) by (simp add: MIN_RETAINED_ROUNDS_def)
  then show ?thesis using a r unfolding b chain_sound_def chain_le_def
    by (auto simp: later_refl)
next
  case (OpenRound n secs)
  then show ?thesis using step open_sound [OF a] by simp
next
  case (DelegateRound n)
  then show ?thesis using step ok delegate_sound [OF a] by simp
qed (use step in \<open>auto dest!: on_round_sound [OF a enter_good] on_round_sound [OF a draw_good]
      on_round_sound [OF a callback_good] on_round_sound [OF a tick_good] on_round_sound [OF a resolve_good]
      on_round_sound [OF a abandon_good] on_round_sound [OF a close_good]\<close>)

lemma chain_moves_sound:
  assumes "chain_moves fight a b" and "chain_sound a"
  shows "chain_sound b \<and> chain_le a b"
  using assms
proof (induction rule: chain_moves.induct)
  case (moves_refl ch)
  then show ?case by (simp add: chain_le_refl)
next
  case (moves_step a b ix t ch)
  then show ?case using run_ix_sound [of b ix fight t ch] chain_le_trans [of a b ch] by blast
qed

subsection \<open>What the keeper's computations can do\<close>

text \<open>While round \<open>k\<close> is the current one, the keeper forgets nothing it has noted about it.\<close>

definition abandoned_on :: "arena_chain \<Rightarrow> int \<Rightarrow> bool" where
  "abandoned_on ch k \<longleftrightarrow> (\<exists>r. ac_rounds ch k = Some r \<and> pr_phase r = Abandoned)"

definition remembers :: "bool \<Rightarrow> int \<Rightarrow> timeline \<Rightarrow> timeline \<Rightarrow> bool" where
  "remembers gone k a b \<longleftrightarrow> (tl_roundNo a = Some k \<longrightarrow>
     tl_roundNo b = Some k \<and>
     (\<forall>t. tl_settledObservedAtSec a = Some t \<longrightarrow> tl_settledObservedAtSec b = Some t) \<and>
     (gone \<longrightarrow> (\<forall>t. tl_abandonedObservedAtSec a = Some t \<longrightarrow> tl_abandonedObservedAtSec b = Some t)))"

definition adv :: "fight \<Rightarrow> int \<Rightarrow> arena_world keeper_ctx \<Rightarrow> arena_world keeper_ctx \<Rightarrow> bool" where
  "adv fight k c c' \<longleftrightarrow> chain_sound (chain_in c) \<longrightarrow>
     chain_moves fight (chain_in c) (chain_in c') \<and> w_now (world c) \<le> w_now (world c') \<and>
     (ac_counter (chain_in c) = Some k \<and> ac_counter (chain_in c') = Some k \<longrightarrow>
        remembers (abandoned_on (chain_in c) k) k (timeline c) (timeline c'))"

lemma abandoned_stays:
  assumes "chain_le a b" and "ac_counter b = Some k" and "abandoned_on a k"
  shows "abandoned_on b k"
proof -
  obtain r where r: "ac_rounds a k = Some r" "pr_phase r = Abandoned"
    using assms(3) by (auto simp: abandoned_on_def)
  have "\<not> k + int MIN_RETAINED_ROUNDS \<le> k" by (simp add: MIN_RETAINED_ROUNDS_def)
  then obtain r' where r': "ac_rounds b k = Some r'" "later r r'"
    using chain_le_round [OF assms(1) r(1)] assms(2) by auto
  then have "pr_phase r' = Abandoned" using r(2) by (cases "pr_phase r'") (auto simp: later_def)
  then show ?thesis using r'(1) by (auto simp: abandoned_on_def)
qed

interpretation adv: act_relation "adv fight k" for fight k
proof unfold_locales
  show "adv fight k c c" for c by (simp add: adv_def moves_refl remembers_def)
  show "adv fight k a c" if ab: "adv fight k a b" and bc: "adv fight k b c" for a b c
    unfolding adv_def
  proof (intro impI)
    assume a: "chain_sound (chain_in a)"
    have m: "chain_moves fight (chain_in a) (chain_in b)" "w_now (world a) \<le> w_now (world b)"
      using ab a by (simp_all add: adv_def)
    have b: "chain_sound (chain_in b)" "chain_le (chain_in a) (chain_in b)"
      using chain_moves_sound [OF m(1) a] by simp_all
    have n: "chain_moves fight (chain_in b) (chain_in c)" "w_now (world b) \<le> w_now (world c)"
      using bc b(1) by (simp_all add: adv_def)
    have mid: "ac_counter (chain_in b) = Some k"
      if at: "ac_counter (chain_in a) = Some k" "ac_counter (chain_in c) = Some k"
    proof -
      obtain k1 where k1: "ac_counter (chain_in b) = Some k1" "k \<le> k1"
        using chain_le_counter [OF b(2) at(1)] by blast
      moreover have "k1 \<le> k"
        using chain_le_counter [OF conjunct2 [OF chain_moves_sound [OF n(1) b(1)]] k1(1)] at(2) by auto
      ultimately show ?thesis by simp
    qed
    show "chain_moves fight (chain_in a) (chain_in c) \<and> w_now (world a) \<le> w_now (world c) \<and>
        (ac_counter (chain_in a) = Some k \<and> ac_counter (chain_in c) = Some k \<longrightarrow>
         remembers (abandoned_on (chain_in a) k) k (timeline a) (timeline c))"
      using ab bc a b(1) m n chain_moves_trans [OF n(1) m(1)]
      by (auto simp: adv_def remembers_def dest: mid intro: abandoned_stays [OF b(2)])
  qed
qed

lemma adv_same:
  "world c' = world c \<Longrightarrow> remembers (abandoned_on (chain_in c) k) k (timeline c) (timeline c') \<Longrightarrow> adv fight k c c'"
  by (simp add: adv_def moves_refl)

lemma remembers_refl [simp]: "remembers g k t t"
  by (simp add: remembers_def)

lemma adv_kmod:
  "(\<And>c. world (f c) = world c) \<Longrightarrow> (\<And>c. timeline (f c) = timeline c) \<Longrightarrow> keeps_at (adv fight k) (kmod f) c"
  by (rule adv.at_kmod) (simp add: adv_same)

lemma adv_on_pub: "keeps_at (adv fight k) (on_pub f) c"
  unfolding on_pub_def by (rule adv_kmod) simp_all

lemma adv_on_tl: "(\<And>t g. remembers g k t (f t)) \<Longrightarrow> keeps_at (adv fight k) (on_tl f) c"
  unfolding on_tl_def by (rule adv.at_kmod) (simp add: adv_same)

lemma adv_ask:
  assumes "mild f"
  shows "keeps_at (adv fight k) (ask f) c"
proof -
  obtain res w where w: "f (world c) = (res, w)" by force
  then have "w_chain w = chain_in c" "w_now (world c) \<le> w_now w"
    using assms by (auto simp: mild_def dest!: spec [of _ "world c"])
  then show ?thesis by (simp add: keeps_at_def ask_def w adv_def moves_refl)
qed

lemma land_fairly: "sends_fairly fight (land fight lag)"
  by (auto simp: sends_fairly_def land_def split: sum.splits)

lemma honest_is_arena_client: "arena_client fight (honest_client fight lag)"
  using land_fairly by (simp add: arena_client_def honest_client_def mild_def)

text \<open>A transaction moves the chain, if it may be sent at all.\<close>

lemma adv_send:
  assumes "arena_client fight (ke_client env)" and "allowed (chain_in c) ix"
  shows "keeps_at (adv fight k) (client_send env ix) c"
proof (cases "dryRun (ke_options env)")
  case True
  then show ?thesis by (simp add: keeps_at_def client_send_def kbind_def kmod_def kret_def adv_same)
next
  case False
  obtain res w where w: "cl_sendTx (ke_client env) ix (world c) = (res, w)" by force
  have "w_now (world c) \<le> w_now w" "w_chain w = chain_in c \<or> (\<exists>t. run_ix fight t ix (chain_in c) = Inr (w_chain w))"
    using assms(1) w by (auto simp: arena_client_def sends_fairly_def dest!: spec [of _ ix] spec [of _ "world c"])
  then have "chain_moves fight (chain_in c) (w_chain w)" "w_now (world c) \<le> w_now w"
    using assms(2) by (auto intro: moves_refl chain_moves_one)
  then show ?thesis using False w
    by (simp add: keeps_at_def client_send_def kbind_def kret_def ask_def adv_def split: sum.split)
qed

lemma adv_send_free:
  "arena_client fight (ke_client env) \<Longrightarrow> (\<And>ch. allowed ch ix) \<Longrightarrow> keeps_at (adv fight k) (client_send env ix) c"
  by (rule adv_send)

lemma allowed_free [simp]:
  "allowed ch InitArena" "allowed ch (OpenRound n s)" "allowed ch (Enter n w d u)"
  "allowed ch (CloseLobbyAndDraw n a)" "allowed ch (CallbackSeed n)" "allowed ch (Tick n u)"
  "allowed ch (Resolve n)" "allowed ch (AbandonRound n)" "allowed ch (CloseRoundIx n)"
  "allowed ch InitTreasury" "allowed ch (SweepHouseTake n)" "allowed ch (CloseRoundAccount n)"
  by (simp_all add: allowed_def)

text \<open>The interface between the keeper and an arena behind such a client, and its handlers one by one.\<close>

locale arena_link =
  fixes env :: "arena_world keeper_env" and fight :: fight
  assumes client: "arena_client fight (ke_client env)"
begin

lemmas adv_send_any = adv_send_free [OF client]

lemmas calls = client [unfolded arena_client_def]

lemma adv_reads:
  "keeps_at (adv fight k) (ask (cl_fetchArena (ke_client env))) c"
  "keeps_at (adv fight k) (ask (cl_fetchRound (ke_client env) n)) c"
  "keeps_at (adv fight k) (ask (cl_isDelegated (ke_client env) n)) c"
  "keeps_at (adv fight k) (ask (cl_routerSaysDelegated (ke_client env) n)) c"
  "keeps_at (adv fight k) (ask (cl_roundValidatorFqdn (ke_client env) n)) c"
  "keeps_at (adv fight k) (ask (cl_waitForDelegation (ke_client env) n)) c"
  "keeps_at (adv fight k) (ask (cl_waitForUndelegation (ke_client env) n)) c"
  "keeps_at (adv fight k) (ask (cl_roundsExist (ke_client env) ns)) c"
  "keeps_at (adv fight k) (ask (cl_fetchTreasury (ke_client env))) c"
  "keeps_at (adv fight k) (ask (cl_treasuryExists (ke_client env))) c"
  "keeps_at (adv fight k) (ask (cl_balance (ke_client env))) c"
  "keeps_at (adv fight k) (ask (cl_houseBalances (ke_client env) ks)) c"
  "keeps_at (adv fight k) (ask (cl_rentFloor (ke_client env))) c"
  "keeps_at (adv fight k) (ask (cl_transfer (ke_client env) xs)) c"
  using calls by (simp_all add: adv_ask)

text \<open>A read leaves the chain as it was; a send that is reported landed has landed.\<close>

lemma ask_chain: "mild f \<Longrightarrow> ask f c = (res, c1) \<Longrightarrow> chain_in c1 = chain_in c \<and> timeline c1 = timeline c"
  by (auto simp: ask_def mild_def split: prod.splits) (metis snd_conv)

lemma send_landed:
  assumes "client_send env ix c = (Inr True, c1)"
  shows "timeline c1 = timeline c \<and> (\<exists>t. run_ix fight t ix (chain_in c) = Inr (chain_in c1))"
proof -
  obtain res w where w: "cl_sendTx (ke_client env) ix (world c) = (res, w)" by force
  have "\<not> dryRun (ke_options env)" using assms by (auto simp: client_send_def kbind_def kmod_def kret_def)
  then have "res = Inr ()" "c1 = c\<lparr>world := w\<rparr>"
    using assms w by (auto simp: client_send_def kbind_def kret_def ask_def split: sum.splits)
  moreover have "sends_fairly fight (cl_sendTx (ke_client env))" using calls by blast
  ultimately show ?thesis using w by (auto simp: sends_fairly_def dest!: spec [of _ ix] spec [of _ "world c"])
qed

lemma adv_delegateRound:
  assumes "allowed (chain_in c) (DelegateRound n)"
  shows "keeps_at (adv fight k) (delegateRound env n) c"
  unfolding delegateRound_def
  by (rule adv.at_kbind [OF adv_send [OF client assms]]) (intro adv.at_intros adv_reads)

lemma adv_send_entries: "keeps_at (adv fight k) (send_entries env n es) c"
  by (induction es arbitrary: c) (auto intro!: adv.at_intros adv_send_any)

lemma adv_enter_all: "keeps_at (adv fight k) (enter_all env n draw es) c"
  unfolding enter_all_def now_sec_def by (intro adv.at_intros adv_send_entries)

lemma adv_fieldHouseFighters: "keeps_at (adv fight k) (fieldHouseFighters env st r plan) c"
  unfolding fieldHouseFighters_def
  by (intro adv.at_intros adv_enter_all adv_on_pub adv_on_tl) (simp add: remembers_def)

lemma adv_drawSeed: "keeps_at (adv fight k) (drawSeed env r auth) c"
  unfolding drawSeed_def date_now_def
  by (intro adv.at_intros adv_reads adv_send_any adv_on_tl adv_kmod) (simp_all add: remembers_def)

lemma adv_closeLobbyOntoSchedule: "keeps_at (adv fight k) (closeLobbyOntoSchedule env st r) c"
  unfolding closeLobbyOntoSchedule_def
  by (intro adv.at_intros adv_drawSeed adv_on_tl) (simp add: remembers_def)

lemma adv_affords: "keeps_at (adv fight k) (affordsAnotherRound env) c"
  unfolding affordsAnotherRound_def note_low_balance_def now_sec_def
  by (intro adv.at_intros adv_reads adv_on_pub adv_kmod) simp_all

lemma adv_rentIsComingBack: "keeps_at (adv fight k) (rentIsComingBack env) c"
  unfolding rentIsComingBack_def now_sec_def
  by (intro adv.at_intros adv_on_pub adv_kmod) simp_all

lemma adv_sweepIsKeepingUp: "keeps_at (adv fight k) (sweepIsKeepingUp env) c"
  unfolding sweepIsKeepingUp_def now_sec_def
  by (intro adv.at_intros adv_on_pub adv_kmod) simp_all

lemma adv_fundBank: "keeps_at (adv fight k) (fundBank env) c"
  unfolding fundBank_def
  by (intro adv.at_intros adv_reads) (auto split: funding.split intro!: adv.at_intros adv_reads)

lemma adv_sweepHouseTake: "keeps_at (adv fight k) (sweepHouseTake env st r) c"
  unfolding sweepHouseTake_def
  by (intro adv.at_intros adv_reads adv_send_any adv_on_pub adv_on_tl) (simp_all add: remembers_def)

lemma adv_count_completed: "keeps_at (adv fight k) (count_completed env) c"
  unfolding count_completed_def summariseRound_def
  by (intro adv.at_intros adv_reads adv_on_tl adv_kmod) (auto simp: remembers_def split: option.splits)

lemma adv_refresh: "keeps_at (adv fight k) (kmod (\<lambda>c. c\<lparr>refreshAfterStep := True\<rparr>)) c"
  by (rule adv_kmod) simp_all

lemma adv_resolve_attempts: "keeps_at (adv fight k) (resolve_attempts env n left) c"
proof (induction left arbitrary: c)
  case (Suc left)
  have "keeps_at (adv fight k) (kmod (\<lambda>c. c\<lparr>world := cl_sleep (ke_client env) t (world c)\<rparr>)) c" for t c
    using calls by (intro adv.at_kmod) (simp add: adv_def mild_def moves_refl)
  then show ?case
    by (auto intro!: adv.at_kcatch adv.at_kbind_all adv.at_kthrow adv.at_kret adv.at_kwhen adv_send_any
        Suc.IH adv_refresh)
qed (simp add: adv.at_kret)

lemma adv_driveFight: "keeps_at (adv fight k) (driveFight env st r) c"
  unfolding driveFight_def resolveRound_def date_now_def
  by (intro adv.at_intros adv_on_pub adv_on_tl adv_resolve_attempts adv_send_any)
     (simp_all add: remembers_def)

lemma adv_skip: "keeps_at (adv fight k) (skipClosedRoundsAhead env st) c"
  unfolding skipClosedRoundsAhead_def
  by (intro adv.at_intros adv_reads adv_kmod) simp_all

lemma adv_close_at_cursor: "keeps_at (adv fight k) (close_at_cursor env st n) c"
  unfolding close_at_cursor_def close_now_def close_failed_def advance_cursor_def note_stranded_def
  by (intro adv.at_intros adv_reads adv_kmod)
     (auto split: close_action.split advance_reason.split
        intro!: adv.at_intros adv_reads adv_kmod adv_send_any adv_sweepHouseTake)

lemma adv_closeOneFinishedRound: "keeps_at (adv fight k) (closeOneFinishedRound env st) c"
  unfolding closeOneFinishedRound_def
  by (intro adv.at_intros adv_skip adv_close_at_cursor adv_kmod) simp_all

lemma adv_pollTreasury: "keeps_at (adv fight k) (pollTreasury env st) c"
  unfolding pollTreasury_def
  by (intro adv.at_intros adv_reads adv_kmod) simp_all

lemma adv_readChainState: "keeps_at (adv fight k) (readChainState env) c"
  unfolding readChainState_def now_sec_def
  by (intro adv.at_intros adv_reads)

lemma adv_publishRoundSnapshot: "keeps_at (adv fight k) (publishRoundSnapshot env st) c"
  unfolding publishRoundSnapshot_def
  by (auto split: option.split sum.split intro!: adv.at_intros adv_on_pub)

lemma adv_abandonRound:
  assumes cur: "ac_counter (chain_in c) = Some (ra_roundNo r)"
  shows "keeps_at (adv fight k) (abandonRound env st r) c"
proof (cases "client_send env (AbandonRound (ra_roundNo r)) c")
  case (Pair res c1)
  have one: "adv fight k c c1"
    using adv_send_any [of "AbandonRound (ra_roundNo r)" k c] Pair by (simp add: keeps_at_def)
  show ?thesis
  proof (cases "res = Inr True")
    case True
    let ?n = "ra_roundNo r"
    let ?c2 = "c1\<lparr>roundsAbandoned := roundsAbandoned c1 + 1,
      timeline := (timeline c1)\<lparr>tl_abandonedObservedAtSec := Some (cs_nowSec st)\<rparr>, refreshAfterStep := True\<rparr>"
    obtain t where tl1: "timeline c1 = timeline c" and
      land: "run_ix fight t (AbandonRound ?n) (chain_in c) = Inr (chain_in c1)"
      using send_landed [of "AbandonRound ?n" c c1] Pair True by auto
    have "\<not> (abandoned_on (chain_in c) k \<and> ?n = k)"
      using land by (auto simp: abandoned_on_def on_round_def ix_abandon_def demand_def rbind_Inr_iff
          split: option.splits if_splits)
    then have "remembers (abandoned_on (chain_in c) k) k (timeline c) (timeline ?c2)"
      if "ac_counter (chain_in c) = Some k"
      using tl1 cur that by (auto simp: remembers_def)
    then have two: "adv fight k c ?c2" using one by (auto simp: adv_def)
    have "snd (abandonRound env st r c) =
        snd (kbind (ask (cl_waitForUndelegation (ke_client env) ?n)) (\<lambda>_. kret ()) ?c2)"
      using Pair True by (simp add: abandonRound_def kbind_def kmod_def on_tl_def)
    moreover have "keeps_at (adv fight k) (kbind (ask (cl_waitForUndelegation (ke_client env) ?n)) (\<lambda>_. kret ())) ?c2"
      by (intro adv.at_intros adv_reads)
    ultimately show ?thesis using adv.R_trans [OF two] by (simp add: keeps_at_def)
  next
    case False
    then have "snd (abandonRound env st r c) = c1"
      using Pair by (cases res) (auto simp: abandonRound_def kbind_def kret_def)
    then show ?thesis using one by (simp add: keeps_at_def)
  qed
qed

text \<open>What a computation does when its first step is known.\<close>

lemma kbind_run: "m c = (Inr x, c1) \<Longrightarrow> kbind m f c = f x c1"
  by (simp add: kbind_def)

text \<open>A step that only notes things, on a round that is not the one remembered.\<close>

lemma adv_apart: "world c' = world c \<Longrightarrow> k < 0 \<Longrightarrow> adv fight k c c'"
  by (auto simp: adv_def moves_refl chain_sound_def)

lemma adv_apart_kmod: "(\<And>c. world (f c) = world c) \<Longrightarrow> k < 0 \<Longrightarrow> keeps_at (adv fight k) (kmod f) c"
  by (rule adv.at_kmod) (simp add: adv_apart)

lemma adv_opened:
  assumes "ac_rounds (chain_in c) n = Some r" and "pr_phase r = Lobby"
  shows "keeps_at (adv fight (- 1)) (opened env n lamports) c"
proof -
  have lobby: "allowed ch (DelegateRound n)" if "ch = chain_in c" for ch
    using assms that by (auto simp: allowed_def)
  show ?thesis
    unfolding opened_def now_sec_def on_pub_def
    by (intro adv.at_kbind adv.at_kget adv_apart_kmod adv_delegateRound lobby adv_fundBank)
       (auto simp: kget_def kmod_def)
qed

text \<open>Sending \<open>open_round\<close> and what follows it.\<close>

lemma adv_open_send:
  "keeps_at (adv fight k) (kbind (client_send env (OpenRound n secs))
     (\<lambda>sent. if \<not> sent then kret () else opened env n lamports)) c" (is "keeps_at _ ?m c")
proof (cases "client_send env (OpenRound n secs) c")
  case (Pair res c1)
  have one: "adv fight k c c1" for k
    using adv_send_any [of "OpenRound n secs" k c] Pair by (simp add: keeps_at_def)
  show ?thesis
  proof (cases "res = Inr True")
    case True
    then obtain t where land: "run_ix fight t (OpenRound n secs) (chain_in c) = Inr (chain_in c1)"
      using Pair send_landed by blast
    have n: "ac_counter (chain_in c) = Some (n - 1)" "ac_counter (chain_in c1) = Some n"
      "ac_rounds (chain_in c1) n = Some (fresh_round t secs)"
      using land by (auto simp: ix_open_def demand_def rbind_Inr_iff split: option.splits if_splits dest: sym)
    have run: "?m c = opened env n lamports c1" using Pair True by (simp add: kbind_def)
    have "keeps_at (adv fight (- 1)) (opened env n lamports) c1"
      by (rule adv_opened [OF n(3)]) (simp add: fresh_round_def)
    then have two: "adv fight (- 1) c1 (snd (?m c))" by (simp add: keeps_at_def run)
    have all: "adv fight (- 1) c (snd (?m c))" by (rule adv.R_trans [OF one two])
    have "\<not> (ac_counter (chain_in c) = Some k \<and> ac_counter (chain_in (snd (?m c))) = Some k)"
      if sound: "chain_sound (chain_in c)"
    proof -
      have c1: "chain_sound (chain_in c1)"
        using one [of k] sound chain_moves_sound by (auto simp: adv_def)
      then have "chain_le (chain_in c1) (chain_in (snd (?m c)))"
        using two chain_moves_sound by (auto simp: adv_def)
      then obtain k' where "ac_counter (chain_in (snd (?m c))) = Some k'" "n \<le> k'"
        using chain_le_counter n(2) by blast
      then show ?thesis using n(1) by auto
    qed
    then show ?thesis using all by (auto simp: keeps_at_def adv_def)
  next
    case False
    then have "snd (?m c) = c1" using Pair by (cases res) (auto simp: kbind_def kret_def)
    then show ?thesis using one by (simp add: keeps_at_def)
  qed
qed

lemma adv_openNextRound: "keeps_at (adv fight k) (openNextRound env n) c"
  unfolding openNextRound_def sample_burn_def
  by (intro adv.at_intros adv_open_send adv_sweepIsKeepingUp adv_affords adv_rentIsComingBack adv_kmod)
     (auto split: option.split)

lemma adv_driveDrawing: "keeps_at (adv fight k) (driveDrawing env st r) c"
  unfolding driveDrawing_def
  by (intro adv.at_intros adv_on_pub adv_openNextRound adv_kmod) simp_all

lemma adv_driveSettled: "keeps_at (adv fight k) (driveSettled env st r) c"
  unfolding driveSettled_def
  by (intro adv.at_intros adv_on_pub adv_on_tl adv_reads adv_send_any adv_count_completed
      adv_sweepHouseTake adv_openNextRound) (simp_all add: remembers_def)

lemma adv_driveAbandoned: "keeps_at (adv fight k) (driveAbandoned env st r) c"
  unfolding driveAbandoned_def
  by (intro adv.at_intros adv_on_pub adv_on_tl adv_sweepHouseTake adv_openNextRound) (simp add: remembers_def)

lemma adv_driveLobby:
  assumes "ac_counter (chain_in c) = Some (ra_roundNo r)"
    and "ac_rounds (chain_in c) (ra_roundNo r) = Some q" and "pr_phase q = Lobby"
  shows "keeps_at (adv fight k) (driveLobby env st r) c"
proof -
  have lobby: "keeps_at (adv fight k) (delegateRound env (ra_roundNo r)) c1" if "chain_in c1 = chain_in c" for c1
    using that assms(2,3) by (intro adv_delegateRound) (auto simp: allowed_def)
  have asked: "chain_in c2 = chain_in c1"
    if "ask (cl_routerSaysDelegated (ke_client env) n) c1 = (res, c2)" for n res c1 c2
    using ask_chain that calls by blast
  have abandon: "keeps_at (adv fight k) (abandonRound env st r) c1" if "chain_in c1 = chain_in c" for c1
    using that assms(1) by (intro adv_abandonRound) simp
  have act: "keeps_at (adv fight k) (lobby_action env st r plan) c1" if "chain_in c1 = chain_in c" for plan c1
    using abandon [OF that]
    by (auto simp: lobby_action_def note_hold_def split: lobby_step.split
        intro!: adv.at_intros adv_drawSeed adv_closeLobbyOntoSchedule adv_fieldHouseFighters adv_kmod)
  show ?thesis
    unfolding driveLobby_def
    by (intro adv.at_kbind adv.at_if adv_on_pub adv_on_tl adv_reads adv.at_kget adv.at_kret lobby act)
       (auto simp: on_pub_def on_tl_def kmod_def kget_def remembers_def dest!: asked split: if_splits)
qed

text \<open>What a pass has read: the arena and its current round, as they are.\<close>

definition truthful :: "chain_state \<Rightarrow> arena_chain \<Rightarrow> bool" where
  "truthful st ch \<longleftrightarrow>
     (\<forall>k. ac_counter ch = Some k \<longrightarrow> cs_roundCounter st = k) \<and>
     (\<forall>r. cs_round st = Some r \<longrightarrow> cs_arena st \<and> cs_roundCounter st \<noteq> 0 \<and>
       (\<exists>q. ac_counter ch = Some (cs_roundCounter st) \<and> ac_rounds ch (cs_roundCounter st) = Some q \<and>
         r = account_of (cs_roundCounter st) q))"

lemma phase_of_account [simp]: "phase_of (ra_phase (account_of n r)) = Some (pr_phase r)"
  by (simp add: account_of_def)

lemma read_truthful:
  assumes "readChainState env c = (Inr st, c1)"
  shows "truthful st (chain_in c1)"
proof -
  obtain ra ca where a: "ask (cl_fetchArena (ke_client env)) c = (ra, ca)" by force
  have ca: "chain_in ca = chain_in c" using ask_chain [OF _ a] calls by blast
  have arena: "k = ac_counter (chain_in c)" if "ra = Inr k" for k
    using that a calls by (auto simp: ask_def split: prod.splits)
  obtain k where k: "ra = Inr k" using assms a
    by (cases ra) (simp_all add: readChainState_def kbind_def now_sec_def kget_def)
  show ?thesis
  proof (cases "k = None \<or> k = Some 0")
    case True
    then have "cs_roundCounter st = 0" "cs_round st = None" "c1 = ca"
      using assms a k by (auto simp: readChainState_def kbind_def now_sec_def kget_def kret_def)
    then show ?thesis using True ca arena [OF k] by (auto simp: truthful_def)
  next
    case False
    then obtain n where n: "k = Some n" "n \<noteq> 0" by (cases k) auto
    obtain rr cr where f: "ask (cl_fetchRound (ke_client env) n) ca = (rr, cr)" by force
    have cr: "chain_in cr = chain_in ca" using ask_chain [OF _ f] calls by blast
    have round: "x = map_option (account_of n) (ac_rounds (chain_in ca) n)" if "rr = Inr x" for x
      using that f calls by (auto simp: ask_def split: prod.splits)
    obtain x where x: "rr = Inr x" using assms a k n f
      by (cases rr) (simp_all add: readChainState_def kbind_def now_sec_def kget_def)
    have asked: "chain_in c2 = chain_in c1"
      if "ask (cl_isDelegated (ke_client env) n) c1 = (res, c2)" for res c1 c2
      using ask_chain that calls by blast
    have "cs_arena st" "cs_roundCounter st = n" "cs_round st = x" "chain_in c1 = chain_in cr"
      using assms a k n f x
      by (auto simp: readChainState_def kbind_def now_sec_def kget_def kret_def
          split: option.splits if_splits prod.splits sum.splits dest!: asked)
    then show ?thesis using n round [OF x] arena [OF k] ca cr
      by (auto simp: truthful_def)
  qed
qed

lemma adv_drive:
  assumes "truthful st (chain_in c)"
  shows "keeps_at (adv fight k) (driveOneStep env st) c"
proof (cases "cs_round st")
  case None
  then show ?thesis
    unfolding driveOneStep_def by (intro adv.at_if) (auto intro!: adv.at_intros adv_send_any adv_openNextRound)
next
  case (Some r)
  then obtain n q where n: "ac_counter (chain_in c) = Some n" "n \<noteq> 0" "ac_rounds (chain_in c) n = Some q"
    and r: "r = account_of n q" and st: "cs_arena st" "cs_roundCounter st = n"
    using assms unfolding truthful_def by metis
  have lobby: "keeps_at (adv fight k) (driveLobby env st r) c" if "pr_phase q = Lobby"
    using that n r by (intro adv_driveLobby [where q = q]) (auto simp: account_of_def)
  show ?thesis
    using Some r st n(2) lobby
    by (cases "pr_phase q")
       (auto simp: driveOneStep_def intro: adv_driveDrawing adv_driveFight adv_driveSettled adv_driveAbandoned)
qed

lemma adv_pass_failed: "keeps_at (adv fight k) (pass_failed env) c"
  unfolding pass_failed_def recordError_def now_sec_def
  by (intro adv.at_intros adv_on_pub adv_kmod) simp_all

end

end
