(* ===== verification/Keeper_Live.thy ===== *)
theory Keeper_Live
  imports Keeper_World
begin

text \<open>
  What one pass does. Behind any client: it sends accepted instructions only, a keeper short of funds
  says so, and it ends with the status written out. On the arena that answers of \<open>Keeper_World\<close>
  (\<open>live_arena\<close>): in every phase a late enough pass moves the current round on, and a pass that
  should open the next round either opens it or publishes why it does not.
\<close>

subsection \<open>What only the opening of a round changes\<close>

definition halted :: "'w keeper_ctx \<Rightarrow> bool" where
  "halted c \<longleftrightarrow> ks_notOpeningRounds (pb_status (publisher c)) \<noteq> None"

definition quiet :: "'w keeper_ctx \<Rightarrow> 'w keeper_ctx \<Rightarrow> bool" where
  "quiet c c' \<longleftrightarrow> lowBalanceSince c' = lowBalanceSince c \<and>
     ks_notOpeningRounds (pb_status (publisher c')) = ks_notOpeningRounds (pb_status (publisher c))"

text \<open>A keeper short of funds says so.\<close>

definition frank :: "'w keeper_ctx \<Rightarrow> bool" where
  "frank c \<longleftrightarrow> (lowBalanceSince c \<noteq> None \<longrightarrow> halted c)"

definition stays_frank :: "'w keeper_ctx \<Rightarrow> 'w keeper_ctx \<Rightarrow> bool" where
  "stays_frank c c' \<longleftrightarrow> (frank c \<longrightarrow> frank c')"

interpretation quiet: act_relation quiet
  by unfold_locales (auto simp: quiet_def)

interpretation fr: act_relation stays_frank
  by unfold_locales (auto simp: stays_frank_def)

lemma quiet_frank: "keeps_at quiet m c \<Longrightarrow> keeps_at stays_frank m c"
  by (auto simp: keeps_at_def quiet_def stays_frank_def frank_def halted_def)

lemma quiet_kmod: "(\<And>c. quiet c (f c)) \<Longrightarrow> keeps_at quiet (kmod f) c"
  by (rule quiet.at_kmod)

lemma quiet_on_pub:
  "(\<And>p. ks_notOpeningRounds (pb_status (f p)) = ks_notOpeningRounds (pb_status p)) \<Longrightarrow> keeps_at quiet (on_pub f) c"
  unfolding on_pub_def by (rule quiet.at_kmod) (simp add: quiet_def)

lemma quiet_on_tl: "keeps_at quiet (on_tl f) c"
  unfolding on_tl_def by (rule quiet_kmod) (simp_all add: quiet_def)

lemma quiet_ask: "keeps_at quiet (ask f) c"
  by (simp add: keeps_at_def ask_def quiet_def split: prod.split)

lemma quiet_send: "keeps_at quiet (client_send env ix) c"
  unfolding client_send_def by (intro quiet.at_intros quiet_ask quiet_kmod) (simp_all add: quiet_def)

lemma render_notOpening [simp]:
  "ks_notOpeningRounds (pb_status (render p)) = ks_notOpeningRounds (pb_status p)"
  by (simp add: render_def Let_def split: prod.splits)

lemma set_notOpening [simp]:
  "ks_notOpeningRounds (pb_status (setNextLobbyOpensAt x p)) = ks_notOpeningRounds (pb_status p)"
  "ks_notOpeningRounds (pb_status (setEntriesCloseAt x p)) = ks_notOpeningRounds (pb_status p)"
  "ks_notOpeningRounds (pb_status (setLastError e p)) = ks_notOpeningRounds (pb_status p)"
  "ks_notOpeningRounds (pb_status (setStalledSince x p)) = ks_notOpeningRounds (pb_status p)"
  "ks_notOpeningRounds (pb_status (setRound r p)) = ks_notOpeningRounds (pb_status p)"
  "ks_notOpeningRounds (pb_status (setRoundsCompleted n p)) = ks_notOpeningRounds (pb_status p)"
  "ks_notOpeningRounds (pb_status (setLowBalance low p)) = ks_notOpeningRounds (pb_status p)"
  "ks_notOpeningRounds (pb_status (setNotOpeningRounds why p)) = why"
  by (simp_all add: pub_defs)

lemmas quiet_intros = quiet.at_intros quiet_ask quiet_send quiet_on_tl

lemma quiet_delegateRound: "keeps_at quiet (delegateRound env n) c"
  unfolding delegateRound_def by (intro quiet_intros)

lemma quiet_send_entries: "keeps_at quiet (send_entries env n es) c"
  by (induction es arbitrary: c) (auto intro!: quiet_intros)

lemma quiet_fieldHouseFighters: "keeps_at quiet (fieldHouseFighters env st r plan) c"
  unfolding fieldHouseFighters_def enter_all_def now_sec_def
  by (intro quiet_intros quiet_on_pub quiet_send_entries) (simp_all add: quiet_def)

lemma quiet_drawSeed: "keeps_at quiet (drawSeed env r auth) c"
  unfolding drawSeed_def date_now_def by (intro quiet_intros quiet_kmod) (simp_all add: quiet_def)

lemma quiet_driveLobby: "keeps_at quiet (driveLobby env st r) c"
proof -
  have "keeps_at quiet (lobby_action env st r plan) c" for plan c
    by (auto simp: quiet_def lobby_action_def abandonRound_def closeLobbyOntoSchedule_def note_hold_def
        split: lobby_step.split intro!: quiet_intros quiet_drawSeed quiet_fieldHouseFighters quiet_kmod)
  then show ?thesis
    unfolding driveLobby_def
    by (intro quiet_intros quiet_on_pub quiet_delegateRound) (simp_all add: quiet_def)
qed

lemma quiet_driveFight: "keeps_at quiet (driveFight env st r) c"
proof -
  have "keeps_at quiet (resolve_attempts env n left) c" for n left c
    by (induction left arbitrary: c) (auto simp: quiet_def intro!: quiet_intros quiet_kmod)
  then show ?thesis
    unfolding driveFight_def resolveRound_def date_now_def
    by (intro quiet_intros quiet_on_pub) (simp_all add: quiet_def)
qed

lemma quiet_sweepHouseTake: "keeps_at quiet (sweepHouseTake env st r) c"
  unfolding sweepHouseTake_def by (intro quiet_intros quiet_on_pub) (simp_all add: quiet_def)

lemma quiet_count_completed: "keeps_at quiet (count_completed env) c"
  unfolding count_completed_def summariseRound_def
  by (intro quiet_intros quiet_kmod) (auto simp: quiet_def split: option.splits)

lemma quiet_opened: "keeps_at quiet (opened env n lamports) c"
proof -
  have "keeps_at quiet (fundBank env) c" for c
    unfolding fundBank_def
    by (intro quiet_intros) (auto split: funding.split intro!: quiet_intros)
  then show ?thesis
    unfolding opened_def now_sec_def
    by (intro quiet_intros quiet_on_pub quiet_kmod quiet_delegateRound) (simp_all add: quiet_def)
qed

lemma quiet_closeOneFinishedRound: "keeps_at quiet (closeOneFinishedRound env st) c"
proof -
  have skip: "keeps_at quiet (skipClosedRoundsAhead env st) c" for c
    unfolding skipClosedRoundsAhead_def by (intro quiet_intros quiet_kmod) (simp_all add: quiet_def)
  have "keeps_at quiet (close_at_cursor env st n) c" for n c
    unfolding close_at_cursor_def close_now_def close_failed_def advance_cursor_def note_stranded_def
    by (intro quiet_intros quiet_kmod)
       (auto simp: quiet_def split: close_action.split advance_reason.split
          intro!: quiet_intros quiet_kmod quiet_sweepHouseTake)
  with skip show ?thesis
    unfolding closeOneFinishedRound_def by (intro quiet_intros quiet_kmod) (simp_all add: quiet_def)
qed

lemma quiet_pollTreasury: "keeps_at quiet (pollTreasury env st) c"
  unfolding pollTreasury_def by (intro quiet_intros quiet_kmod) (simp_all add: quiet_def)

lemma quiet_readChainState: "keeps_at quiet (readChainState env) c"
  unfolding readChainState_def now_sec_def by (intro quiet_intros)

lemma quiet_publishRoundSnapshot: "keeps_at quiet (publishRoundSnapshot env st) c"
  unfolding publishRoundSnapshot_def
  by (auto split: option.split sum.split intro!: quiet_intros quiet_on_pub)

lemma quiet_pass_failed: "keeps_at quiet (pass_failed env) c"
  unfolding pass_failed_def recordError_def now_sec_def
  by (intro quiet_intros quiet_on_pub quiet_kmod) (simp_all add: quiet_def)

subsection \<open>Opening a round, step by step\<close>

text \<open>Whatever the client answers, and whether it answers, a keeper that is short of funds says so.\<close>

lemma affords_frank:
  assumes "frank c" and "affordsAnotherRound env c = (x, c1)"
  shows "frank c1 \<and> (\<forall>l. x = Inr (Some l) \<longrightarrow> lowBalanceSince c1 = None)"
  using assms
  by (auto simp: affordsAnotherRound_def kbind_def kget_def kmod_def kret_def kwhen_def ask_def now_sec_def
      on_pub_def note_low_balance_def frank_def halted_def split: if_splits prod.splits sum.splits)

text \<open>Each of the three brakes answers without touching the world, and a brake that holds says so.\<close>

lemma affords_run:
  fixes env :: "arena_world keeper_env"
  assumes "ke_client env = honest_client fight lag" and "frank c"
  shows "\<exists>x c1. affordsAnotherRound env c = (Inr x, c1) \<and> world c1 = world c \<and> frank c1 \<and>
    (x = None \<longrightarrow> halted c1) \<and> (x \<noteq> None \<longrightarrow> lowBalanceSince c1 = None)"
  using assms(2)
  by (auto simp: affordsAnotherRound_def kbind_def kget_def kmod_def kret_def kwhen_def ask_def now_sec_def
      on_pub_def note_low_balance_def assms(1) honest_client_def frank_def halted_def)

lemma rent_run:
  assumes "lowBalanceSince c = None"
  shows "\<exists>x c1. rentIsComingBack env c = (Inr x, c1) \<and> world c1 = world c \<and> frank c1 \<and>
    (\<not> x \<longrightarrow> halted c1) \<and> lowBalanceSince c1 = None"
  using assms
  by (auto simp: rentIsComingBack_def Let_def kbind_def kget_def kmod_def kret_def kwhen_def now_sec_def
      on_pub_def frank_def halted_def)

lemma sweep_run:
  assumes "frank c"
  shows "\<exists>x c1. sweepIsKeepingUp env c = (Inr x, c1) \<and> world c1 = world c \<and> frank c1 \<and>
    (\<not> x \<longrightarrow> halted c1)"
  using assms
  by (auto simp: sweepIsKeepingUp_def Let_def kbind_def kget_def kmod_def kret_def now_sec_def
      on_pub_def frank_def halted_def)

lemma sweep_latched:
  assumes "sweepStopSince c \<noteq> None"
  shows "\<exists>c1. sweepIsKeepingUp env c = (Inr False, c1) \<and> world c1 = world c \<and> halted c1"
  using assms
  by (auto simp: sweepIsKeepingUp_def Let_def kbind_def kget_def kmod_def kret_def now_sec_def
      on_pub_def halted_def sweepGapStop_def latchedIn_def reclamationStateOf_def)

lemma sample_run: "\<exists>c1. sample_burn env n c = (Inr (), c1) \<and> world c1 = world c \<and>
    lowBalanceSince c1 = lowBalanceSince c \<and> publisher c1 = publisher c"
  by (auto simp: sample_burn_def kmod_def split: option.splits)

lemma quiet_send_open:
  "keeps_at quiet (kbind (client_send env (OpenRound n secs))
     (\<lambda>sent. if \<not> sent then kret () else opened env n lamports)) c"
  by (intro quiet_intros quiet_opened)

lemma frank_openNextRound: "keeps_at stays_frank (openNextRound env n) c"
proof -
  have "frank (snd (openNextRound env n c))" if f: "frank c"
  proof (cases "sweepStopSince c = None")
    case False
    then obtain c1 where "sweepIsKeepingUp env c = (Inr False, c1)" "halted c1"
      using sweep_latched by blast
    then show ?thesis using False by (simp add: openNextRound_def kbind_def kget_def kret_def frank_def)
  next
    case True
    obtain x c1 where a: "affordsAnotherRound env c = (x, c1)" by force
    note fa = affords_frank [OF f a]
    show ?thesis
    proof (cases "\<exists>l. x = Inr (Some l)")
      case False
      then have "snd (openNextRound env n c) = c1" using True a
        by (cases x) (auto simp: openNextRound_def kbind_def kget_def kret_def split: option.splits)
      then show ?thesis using fa by simp
    next
      case x: True
      then obtain l where l: "x = Inr (Some l)" by blast
      obtain c2 where b: "sample_burn env l c1 = (Inr (), c2)" "lowBalanceSince c2 = None"
        using sample_run [of env l c1] fa l by auto
      obtain y c3 where r: "rentIsComingBack env c2 = (Inr y, c3)" "frank c3"
        using rent_run [OF b(2), of env] by blast
      obtain z c4 where w: "sweepIsKeepingUp env c3 = (Inr z, c4)" "frank c4"
        using sweep_run [OF r(2), of env] by blast
      have send: "frank (snd (kbind (client_send env (OpenRound n (lobby_seconds env)))
          (\<lambda>sent. if \<not> sent then kret () else opened env n l) c4))"
        using quiet_frank [OF quiet_send_open, of env n "lobby_seconds env" l c4] w(2)
        by (simp add: keeps_at_def stays_frank_def)
      have "openNextRound env n c =
          (if \<not> y then (Inr (), c3) else if \<not> z then (Inr (), c4)
           else kbind (client_send env (OpenRound n (lobby_seconds env)))
             (\<lambda>sent. if \<not> sent then kret () else opened env n l) c4)"
        using True a l b(1) r(1) w(1) by (simp add: openNextRound_def kbind_def kget_def kret_def)
      then show ?thesis using r(2) w(2) send by auto
    qed
  qed
  then show ?thesis by (simp add: keeps_at_def stays_frank_def)
qed

lemma frank_drive: "keeps_at stays_frank (driveOneStep env st) c"
  unfolding driveOneStep_def driveDrawing_def driveSettled_def driveAbandoned_def
  by (auto split: option.split phase.split
      intro!: fr.at_intros frank_openNextRound quiet_frank [OF quiet_send] quiet_frank [OF quiet_driveLobby]
        quiet_frank [OF quiet_driveFight] quiet_frank [OF quiet_on_pub] quiet_frank [OF quiet_on_tl]
        quiet_frank [OF quiet_kmod] quiet_frank [OF quiet_ask] quiet_frank [OF quiet_sweepHouseTake]
        quiet_frank [OF quiet_count_completed]
      simp: quiet_def addWedgedRound_def on_status_def Let_def split: prod.splits)

subsection \<open>A whole pass, whatever the client does\<close>

text \<open>A pass is its step and a tail.\<close>

definition tail :: "'w keeper_env \<Rightarrow> chain_state \<Rightarrow> ('w, unit) kact" where
  "tail env st =
     kbind (kget refreshAfterStep) (\<lambda>again.
     kbind (if again then
              kbind (kmod (\<lambda>c. c\<lparr>refreshAfterStep := False\<rparr>)) (\<lambda>_.
              kbind (readChainState env) (\<lambda>st'. publishRoundSnapshot env st'))
            else kbind (pollTreasury env st) (\<lambda>_. closeOneFinishedRound env st)) (\<lambda>_.
     kbind (on_pub render) (\<lambda>_.
     kbind (kmod (\<lambda>c. c\<lparr>consecutiveErrors := 0\<rparr>)) (\<lambda>_.
     kbind (on_pub (setLastError None)) (\<lambda>_. on_pub (setStalledSince None))))))"

lemma pass_body_tail:
  "pass_body env = kbind (readChainState env) (\<lambda>st. kbind (meet_round st) (\<lambda>_.
     kbind (publishRoundSnapshot env st) (\<lambda>_. kbind (driveOneStep env st) (\<lambda>_. tail env st))))"
  by (simp add: pass_body_def tail_def)

lemma quiet_tail: "keeps_at quiet (tail env st) c"
  unfolding tail_def
  by (intro quiet_intros quiet_on_pub quiet_kmod quiet_readChainState quiet_publishRoundSnapshot
      quiet_pollTreasury quiet_closeOneFinishedRound) (simp_all add: quiet_def)

lemma frank_pass_body: "keeps_at stays_frank (pass_body env) c"
  unfolding pass_body_tail meet_round_def
  by (intro fr.at_intros frank_drive quiet_frank [OF quiet_tail] quiet_frank [OF quiet_readChainState]
      quiet_frank [OF quiet_on_tl] quiet_frank [OF quiet_publishRoundSnapshot])

lemma snd_keeper_pass:
  "snd (keeper_pass env c) =
     (case pass_body env c of (Inr _, c') \<Rightarrow> c' | (Inl _, c') \<Rightarrow> snd (pass_failed env c'))"
  by (simp add: keeper_pass_def Let_def split: prod.split sum.split)

lemma frank_pass: "frank c \<Longrightarrow> frank (snd (keeper_pass env c))"
  using frank_pass_body [of env c] quiet_frank [OF quiet_pass_failed, of env "snd (pass_body env c)"]
  by (auto simp: snd_keeper_pass keeps_at_def stays_frank_def split: prod.splits sum.splits)

text \<open>Every pass ends with the status written out.\<close>

definition written :: "'w keeper_ctx \<Rightarrow> bool" where
  "written c \<longleftrightarrow> (\<exists>s. published (publisher c) = serializeKeeperStatus s \<and>
     ks_notOpeningRounds s = ks_notOpeningRounds (pb_status (publisher c)))"

lemma kbind_Inr:
  assumes "kbind m f c = (Inr y, c')"
  obtains x c1 where "m c = (Inr x, c1)" and "f x c1 = (Inr y, c')"
  using assms that by (auto simp: kbind_def split: prod.splits sum.splits)

lemma written_render: "publisher c = render p \<Longrightarrow> written c"
  unfolding written_def by (intro exI [of _ "pb_status (render p)"]) (simp add: published_render)

lemma written_failed: "written (snd (pass_failed env c))"
  by (auto simp: pass_failed_def recordError_def now_sec_def on_pub_def kbind_def kmod_def kget_def
      intro: written_render)

lemma written_tail: "tail env st c = (Inr u, c') \<Longrightarrow> written c'"
  unfolding tail_def
  by (elim kbind_Inr)
     (auto simp: on_pub_def kmod_def written_def pub_defs published_render
        intro!: exI [of _ "pb_status (render p)" for p])

lemma written_pass: "written (snd (keeper_pass env c))"
proof (cases "pass_body env c")
  case (Pair x c1)
  show ?thesis
  proof (cases x)
    case (Inl e)
    then show ?thesis using Pair by (simp add: snd_keeper_pass written_failed)
  next
    case (Inr u)
    then have "pass_body env c = (Inr u, c1)" using Pair by simp
    then have "written c1" unfolding pass_body_tail by (elim kbind_Inr) (rule written_tail)
    then show ?thesis using Pair Inr by (simp add: snd_keeper_pass)
  qed
qed

subsection \<open>The reading a pass starts from\<close>

definition snap :: "arena_world keeper_ctx \<Rightarrow> chain_state" where
  "snap c =
     (case ac_counter (chain_in c) of
        None \<Rightarrow> \<lparr>cs_nowSec = of_int (w_now (world c)), cs_arena = False, cs_roundCounter = 0, cs_round = None,
                  cs_roundDelegated = None\<rparr>
      | Some n \<Rightarrow>
          if n = 0 then \<lparr>cs_nowSec = of_int (w_now (world c)), cs_arena = True, cs_roundCounter = 0,
                         cs_round = None, cs_roundDelegated = None\<rparr>
          else \<lparr>cs_nowSec = of_int (w_now (world c)), cs_arena = True, cs_roundCounter = n,
                cs_round = map_option (account_of n) (ac_rounds (chain_in c) n),
                cs_roundDelegated = (case ac_rounds (chain_in c) n of None \<Rightarrow> None
                  | Some r \<Rightarrow> if pr_phase r \<in> {Lobby, Settled, Abandoned} then Some (pr_delegated r) else None)\<rparr>)"

lemma snap_world: "world c' = world c \<Longrightarrow> snap c' = snap c"
  unfolding snap_def by (simp only:)

text \<open>Round \<open>n\<close>, in state \<open>q\<close>, is the current one; the arena has moved beyond it.\<close>

definition at_round :: "int \<Rightarrow> program_round \<Rightarrow> arena_world keeper_ctx \<Rightarrow> bool" where
  "at_round n q c \<longleftrightarrow> chain_sound (chain_in c) \<and> ac_counter (chain_in c) = Some n \<and> 0 < n \<and>
     ac_rounds (chain_in c) n = Some q"

definition beyond :: "int \<Rightarrow> arena_world keeper_ctx \<Rightarrow> bool" where
  "beyond n c \<longleftrightarrow> (\<exists>k. ac_counter (chain_in c) = Some k \<and> n < k)"

lemma adv_at:
  assumes "adv fight k c c'" and "at_round n q c"
  shows "beyond n c' \<or> (\<exists>q'. at_round n q' c' \<and> later q q')"
proof -
  have a: "chain_sound (chain_in c)" "ac_counter (chain_in c) = Some n" "0 < n" "ac_rounds (chain_in c) n = Some q"
    using assms(2) by (simp_all add: at_round_def)
  have b: "chain_sound (chain_in c')" "chain_le (chain_in c) (chain_in c')"
    using assms(1) a(1) chain_moves_sound by (auto simp: adv_def)
  obtain k' where k': "ac_counter (chain_in c') = Some k'" "n \<le> k'" using chain_le_counter [OF b(2) a(2)] by blast
  show ?thesis
  proof (cases "n = k'")
    case True
    have "\<not> n + int MIN_RETAINED_ROUNDS \<le> n" by (simp add: MIN_RETAINED_ROUNDS_def)
    then show ?thesis using chain_le_round [OF b(2) a(4)] k' True a(3) b(1) by (auto simp: at_round_def)
  next
    case False
    then show ?thesis using k' by (auto simp: beyond_def)
  qed
qed

lemma adv_beyond: "adv fight k c c' \<Longrightarrow> chain_sound (chain_in c) \<Longrightarrow> beyond n c \<Longrightarrow> beyond n c'"
  unfolding beyond_def adv_def by (metis chain_moves_sound chain_le_counter order_less_le_trans)

lemma adv_sound: "adv fight k c c' \<Longrightarrow> chain_sound (chain_in c) \<Longrightarrow> chain_sound (chain_in c')"
  by (auto simp: adv_def dest: chain_moves_sound)

lemma snap_at:
  assumes "at_round n q c"
  shows "snap c = \<lparr>cs_nowSec = of_int (w_now (world c)), cs_arena = True, cs_roundCounter = n,
    cs_round = Some (account_of n q),
    cs_roundDelegated = (if pr_phase q \<in> {Lobby, Settled, Abandoned} then Some (pr_delegated q) else None)\<rparr>"
  using assms by (simp add: at_round_def snap_def)

text \<open>What a pass does to the arena behind any client it may have.\<close>

context arena_link
begin

lemma adv_tail: "keeps_at (adv fight k) (tail env st) c"
  unfolding tail_def
  by (intro adv.at_intros adv_on_pub adv_kmod adv_readChainState adv_publishRoundSnapshot adv_pollTreasury
      adv_closeOneFinishedRound) simp_all

lemma adv_meet_round:
  assumes "truthful st (chain_in c)"
  shows "keeps_at (adv fight k) (meet_round st) c"
  using assms
  by (auto simp: keeps_at_def meet_round_def on_tl_def kmod_def adv_def moves_refl remembers_def truthful_def)

lemma adv_pass_body: "keeps_at (adv fight k) (pass_body env) c"
  unfolding pass_body_tail
proof (rule adv.at_kbind [OF adv_readChainState])
  fix st c1 assume r: "readChainState env c = (Inr st, c1)"
  have t: "truthful st (chain_in c1)" by (rule read_truthful [OF r])
  have w: "world c3 = world c1"
    if "meet_round st c1 = (a, c2)" "publishRoundSnapshot env st c2 = (b, c3)" for a b c2 c3
    using that by (auto simp: meet_round_def on_tl_def kmod_def publishRoundSnapshot_def on_pub_def kbind_def
        kget_def kthrow_def split: option.splits sum.splits)
  show "keeps_at (adv fight k) (kbind (meet_round st) (\<lambda>_. kbind (publishRoundSnapshot env st)
      (\<lambda>_. kbind (driveOneStep env st) (\<lambda>_. tail env st)))) c1"
  proof (rule adv.at_kbind [OF adv_meet_round [OF t]])
    fix u c2 assume m: "meet_round st c1 = (Inr u, c2)"
    show "keeps_at (adv fight k) (kbind (publishRoundSnapshot env st) (\<lambda>_. kbind (driveOneStep env st)
        (\<lambda>_. tail env st))) c2"
    proof (rule adv.at_kbind [OF adv_publishRoundSnapshot])
      fix v c3 assume "publishRoundSnapshot env st c2 = (Inr v, c3)"
      then have "truthful st (chain_in c3)" using w [OF m] t by simp
      then show "keeps_at (adv fight k) (kbind (driveOneStep env st) (\<lambda>_. tail env st)) c3"
        by (rule adv.at_kbind [OF adv_drive adv_tail])
    qed
  qed
qed

lemma adv_pass: "adv fight k c (snd (keeper_pass env c))"
  using adv_pass_body [of k c] adv_pass_failed [of k "snd (pass_body env c)"] adv.R_trans
  by (fastforce simp: snd_keeper_pass keeps_at_def split: prod.splits sum.splits)

end

text \<open>An arena that answers, and a keeper that really sends.\<close>

locale answering_arena = arena_link env fight
  for env :: "arena_world keeper_env" and fight :: fight +
  fixes lag :: int
  assumes env: "ke_client env = honest_client fight lag"

locale live_arena = answering_arena env fight lag
  for env :: "arena_world keeper_env" and fight :: fight and lag :: int +
  assumes wet: "\<not> dryRun (ke_options env)"
    and skew: "\<bar>lag\<bar> \<le> CLOCK_SKEW_MARGIN_SECONDS"
begin

lemma send_lands:
  assumes "run_ix fight (w_now (world c) - lag) ix (chain_in c) = Inr ch"
  shows "client_send env ix c = (Inr True, c\<lparr>world := (world c)\<lparr>w_chain := ch\<rparr>\<rparr>)"
  using assms wet by (simp add: client_send_def kbind_def ask_def env honest_client_def land_def kret_def)

lemma adv_counter:
  assumes "adv fight k c c'" and "chain_sound (chain_in c)" and "ac_counter (chain_in c) = Some n"
  shows "\<exists>n'. ac_counter (chain_in c') = Some n' \<and> n \<le> n'"
  using assms chain_moves_sound chain_le_counter unfolding adv_def by blast

text \<open>Opening stops at a brake that says why, or comes to the transaction.\<close>

definition open_tail :: "int \<Rightarrow> int \<Rightarrow> (arena_world, unit) kact" where
  "open_tail n lamports = kbind (client_send env (OpenRound n (lobby_seconds env)))
     (\<lambda>sent. if \<not> sent then kret () else opened env n lamports)"

lemma open_cases:
  assumes f: "frank c"
  shows "\<exists>c1. world c1 = world c \<and> frank c1 \<and>
    ((openNextRound env n c = (Inr (), c1) \<and> halted c1) \<or> (\<exists>lamports. openNextRound env n c = open_tail n lamports c1))"
proof (cases "sweepStopSince c = None")
  case False
  then obtain c1 where "sweepIsKeepingUp env c = (Inr False, c1)" "halted c1" "world c1 = world c"
    using sweep_latched by blast
  then show ?thesis using False
    by (intro exI [of _ c1]) (simp add: openNextRound_def kbind_def kget_def kret_def frank_def)
next
  case True
  obtain x c1 where a: "affordsAnotherRound env c = (Inr x, c1)" "world c1 = world c" "frank c1"
    "x = None \<longrightarrow> halted c1" "x \<noteq> None \<longrightarrow> lowBalanceSince c1 = None"
    using affords_run [OF env f] by blast
  show ?thesis
  proof (cases x)
    case None
    then show ?thesis using True a
      by (intro exI [of _ c1]) (simp add: openNextRound_def kbind_def kget_def kret_def)
  next
    case (Some lamports)
    obtain c2 where b: "sample_burn env lamports c1 = (Inr (), c2)" "world c2 = world c1"
      "lowBalanceSince c2 = None"
      using sample_run [of env lamports c1] a(5) Some by auto
    obtain y c3 where r: "rentIsComingBack env c2 = (Inr y, c3)" "world c3 = world c2" "frank c3"
      "\<not> y \<longrightarrow> halted c3"
      using rent_run [OF b(3), of env] by blast
    obtain z c4 where w: "sweepIsKeepingUp env c3 = (Inr z, c4)" "world c4 = world c3" "frank c4"
      "\<not> z \<longrightarrow> halted c4"
      using sweep_run [OF r(3), of env] by blast
    have "openNextRound env n c =
        (if \<not> y then (Inr (), c3) else if \<not> z then (Inr (), c4) else open_tail n lamports c4)"
      using True a(1) Some b(1) r(1) w(1) by (simp add: openNextRound_def open_tail_def kbind_def kget_def kret_def)
    then show ?thesis using a(2) b(2) r w
      by (intro exI [of _ "if \<not> y then c3 else c4"]) auto
  qed
qed

lemma open_run:
  assumes f: "frank c" and ch: "chain_sound (chain_in c)" "ac_counter (chain_in c) = Some (n - 1)"
  shows "halted (snd (openNextRound env n c)) \<or>
     (\<exists>k. ac_counter (chain_in (snd (openNextRound env n c))) = Some k \<and> n \<le> k)"
proof -
  from open_cases [OF f, of n] obtain c4 where c4: "world c4 = world c"
    "(openNextRound env n c = (Inr (), c4) \<and> halted c4) \<or> (\<exists>lamports. openNextRound env n c = open_tail n lamports c4)"
    by blast
  have "\<exists>k. ac_counter (chain_in (snd (open_tail n lamports c4))) = Some k \<and> n \<le> k" for lamports
  proof -
    have "ac_rounds (chain_in c4) n = None" using ch c4(1) by (auto simp: chain_sound_def)
    then obtain ch' where open': "run_ix fight (w_now (world c4) - lag) (OpenRound n (lobby_seconds env)) (chain_in c4) = Inr ch'"
      "ac_counter ch' = Some n"
      using ch(2) c4(1) by (simp add: ix_open_def demand_def)
    let ?c5 = "c4\<lparr>world := (world c4)\<lparr>w_chain := ch'\<rparr>\<rparr>"
    have ch': "chain_sound ch'" "ac_rounds ch' n = Some (fresh_round (w_now (world c4) - lag) (lobby_seconds env))"
      using run_ix_sound [OF _ _ open'(1)] ch(1) c4(1) open'
      by (auto simp: ix_open_def demand_def rbind_Inr_iff split: option.splits if_splits)
    have tail: "open_tail n lamports c4 = opened env n lamports ?c5"
      using send_lands [OF open'(1)] by (simp add: kbind_def open_tail_def)
    have "keeps_at (adv fight (- 1)) (opened env n lamports) ?c5"
      by (rule adv_opened [where r = "fresh_round (w_now (world c4) - lag) (lobby_seconds env)"])
         (simp_all add: ch'(2) fresh_round_def)
    then show ?thesis
      using adv_counter [of "- 1" ?c5 "snd (open_tail n lamports c4)" n] ch'(1) open'(2)
      by (simp add: keeps_at_def tail)
  qed
  then show ?thesis using c4(2) by auto
qed

lemma read_snap: "readChainState env c = (Inr (snap c), c)"
  unfolding readChainState_def now_sec_def
  by (auto simp: snap_def kbind_def kget_def ask_def env honest_client_def kret_def delegated_on_def
      split: option.splits)

lemma snapshot_run:
  assumes "world c' = world c"
  shows "\<exists>c1. publishRoundSnapshot env (snap c) c' = (Inr (), c1) \<and> world c1 = world c' \<and>
    timeline c1 = timeline c' \<and> quiet c' c1"
  by (cases "cs_round (snap c)")
     (auto simp: publishRoundSnapshot_def on_pub_def kmod_def kbind_def kget_def roundStatusFrom_def quiet_def
        snap_def split: option.splits if_splits)

text \<open>The context the step is taken in.\<close>

definition met :: "arena_world keeper_ctx \<Rightarrow> arena_world keeper_ctx \<Rightarrow> bool" where
  "met c c1 \<longleftrightarrow> world c1 = world c \<and> quiet c c1 \<and>
     timeline c1 = (if 0 < cs_roundCounter (snap c) \<and> tl_roundNo (timeline c) \<noteq> Some (cs_roundCounter (snap c))
                    then freshTimeline (Some (cs_roundCounter (snap c))) None else timeline c)"

lemma adv_met: "met c c1 \<Longrightarrow> adv fight k c c1"
  by (auto simp: adv_def moves_refl met_def remembers_def snap_def split: option.splits if_splits)

subsection \<open>A pass is its step and a tail\<close>

definition after :: "arena_world keeper_ctx \<Rightarrow> arena_world keeper_ctx" where
  "after c = snd (keeper_pass env c)"

lemma snap_truthful: "world c1 = world c \<Longrightarrow> truthful (snap c) (chain_in c1)"
  by (auto simp: truthful_def snap_def split: option.splits if_splits)

lemma pass_split:
  "\<exists>c1. met c c1 \<and> (\<forall>k. adv fight k (snd (driveOneStep env (snap c) c1)) (after c)) \<and>
     quiet (snd (driveOneStep env (snap c) c1)) (after c)"
proof -
  let ?meet = "\<lambda>tl. if 0 < cs_roundCounter (snap c) \<and> tl_roundNo tl \<noteq> Some (cs_roundCounter (snap c))
    then freshTimeline (Some (cs_roundCounter (snap c))) None else tl"
  let ?c0 = "c\<lparr>timeline := ?meet (timeline c)\<rparr>"
  obtain c1 where c1: "publishRoundSnapshot env (snap c) ?c0 = (Inr (), c1)" "world c1 = world c"
    "timeline c1 = timeline ?c0" "quiet ?c0 c1"
    using snapshot_run [of ?c0 c] by auto
  have met: "met c c1" using c1 by (simp add: met_def quiet_def)
  have meet: "meet_round (snap c) c = (Inr (), ?c0)" by (simp add: meet_round_def on_tl_def kmod_def)
  have body: "pass_body env c = kbind (driveOneStep env (snap c)) (\<lambda>_. tail env (snap c)) c1"
    unfolding pass_body_tail kbind_run [of "readChainState env" c, OF read_snap]
      kbind_run [of "meet_round (snap c)" c, OF meet] kbind_run [of "publishRoundSnapshot env (snap c)" ?c0, OF c1(1)]
    by (rule refl)
  obtain r c2 where d: "driveOneStep env (snap c) c1 = (r, c2)" by (cases "driveOneStep env (snap c) c1")
  have "(\<forall>k. adv fight k c2 (after c)) \<and> quiet c2 (after c)"
  proof (cases r)
    case (Inl e)
    then have "after c = snd (pass_failed env c2)" by (simp add: after_def snd_keeper_pass body kbind_def d)
    then show ?thesis using adv_pass_failed quiet_pass_failed [of env c2] by (simp add: keeps_at_def)
  next
    case (Inr u)
    obtain r3 c3 where t: "tail env (snap c) c2 = (r3, c3)" by (cases "tail env (snap c) c2")
    have c3: "adv fight k c2 c3" "quiet c2 c3" for k
      using adv_tail [of k "snap c" c2] quiet_tail [of env "snap c" c2] by (simp_all add: keeps_at_def t)
    have aft: "after c = (case r3 of Inl _ \<Rightarrow> snd (pass_failed env c3) | Inr _ \<Rightarrow> c3)"
      using Inr by (simp add: after_def snd_keeper_pass body kbind_def d t split: sum.split)
    show ?thesis
    proof (cases r3)
      case (Inl e)
      then have "after c = snd (pass_failed env c3)" by (simp add: aft)
      then show ?thesis
        using adv_pass_failed [of _ c3] quiet_pass_failed [of env c3] c3 adv.R_trans quiet.R_trans
        unfolding keeps_at_def by metis
    next
      case (Inr v)
      then show ?thesis using c3 by (simp add: aft)
    qed
  qed
  then show ?thesis using met by (intro exI [of _ c1]) (simp add: d)
qed

lemma adv_after: "adv fight k c (after c)"
  unfolding after_def by (rule adv_pass)

lemma frank_after: "frank c \<Longrightarrow> frank (after c)"
  unfolding after_def by (rule frank_pass)

subsection \<open>What a pass does to the current round\<close>

lemma drive_at:
  assumes "at_round n q c"
  shows "driveOneStep env (snap c) =
    (case pr_phase q of
       Lobby \<Rightarrow> driveLobby env (snap c) (account_of n q)
     | Drawing \<Rightarrow> driveDrawing env (snap c) (account_of n q)
     | Fight \<Rightarrow> driveFight env (snap c) (account_of n q)
     | Settled \<Rightarrow> driveSettled env (snap c) (account_of n q)
     | Abandoned \<Rightarrow> driveAbandoned env (snap c) (account_of n q))"
proof -
  have "0 < n" using assms by (simp add: at_round_def)
  then show ?thesis unfolding driveOneStep_def
    by (cases "pr_phase q") (simp_all add: snap_at [OF assms])
qed

text \<open>If the step leaves the round in state \<open>q'\<close>, the pass leaves it there or later.\<close>

lemma pass_reaches:
  assumes "\<And>c1. met c c1 \<Longrightarrow> \<exists>q'. at_round n q' (snd (driveOneStep env (snap c) c1)) \<and> P q'"
  shows "beyond n (after c) \<or> (\<exists>q' q''. P q' \<and> later q' q'' \<and> at_round n q'' (after c))"
proof -
  from pass_split [of c] obtain c1 where c1: "met c c1"
    "\<And>k. adv fight k (snd (driveOneStep env (snap c) c1)) (after c)"
    by blast
  then show ?thesis using assms [OF c1(1)] adv_at [OF c1(2)] by blast
qed

text \<open>The world after a transaction has landed.\<close>

lemma at_after_ix:
  assumes "at_round n q c" and "ac_rounds ch n = Some q'" and "chain_sound ch" and "ac_counter ch = Some n"
    and "world c' = (world c)\<lparr>w_chain := ch\<rparr>"
  shows "at_round n q' c'"
  using assms by (simp add: at_round_def)

lemma on_round_at:
  assumes "at_round n q c" and "pr_delegated q = er" and "f q = Inr q'"
  shows "on_round er n f (chain_in c) = Inr ((chain_in c)\<lparr>ac_rounds := (ac_rounds (chain_in c))(n \<mapsto> q')\<rparr>)"
  using assms by (simp add: on_round_def at_round_def demand_def)

lemma sound_update:
  assumes "at_round n q c" and "round_sound q'"
  shows "chain_sound ((chain_in c)\<lparr>ac_rounds := (ac_rounds (chain_in c))(n \<mapsto> q')\<rparr>)"
  using assms by (auto simp: at_round_def chain_sound_def)

lemma round_sound_at: "at_round n q c \<Longrightarrow> round_sound q"
  by (auto simp: at_round_def chain_sound_def)

lemma send_lands_at:
  assumes at: "at_round n q c" and w: "world c' = world c"
    and ix: "run_ix fight (w_now (world c) - lag) ix (chain_in c) = on_round er n f (chain_in c)"
    and er: "pr_delegated q = er" and f: "f q = Inr q'" and good: "good_step er f"
  shows "\<exists>c2. client_send env ix c' = (Inr True, c2) \<and> at_round n q' c2 \<and>
    c2 = c'\<lparr>world := (world c)\<lparr>w_chain := (chain_in c)\<lparr>ac_rounds := (ac_rounds (chain_in c))(n \<mapsto> q')\<rparr>\<rparr>\<rparr>"
proof -
  let ?ch = "(chain_in c)\<lparr>ac_rounds := (ac_rounds (chain_in c))(n \<mapsto> q')\<rparr>"
  have "round_sound q'" using good er f round_sound_at [OF at] by (auto simp: good_step_def)
  then have "chain_sound ?ch" by (rule sound_update [OF at])
  moreover have "run_ix fight (w_now (world c') - lag) ix (chain_in c') = Inr ?ch"
    using ix on_round_at [where f = f, OF at er f] w by simp
  then have "client_send env ix c' = (Inr True, c'\<lparr>world := (world c)\<lparr>w_chain := ?ch\<rparr>\<rparr>)"
    using send_lands w by simp
  ultimately show ?thesis using at by (auto simp: at_round_def)
qed

lemma lobby_home_step:
  assumes at: "at_round n q c" and q: "pr_phase q = Lobby" "\<not> pr_delegated q" and m: "met c c1"
  shows "at_round n (q\<lparr>pr_delegated := True\<rparr>) (snd (driveOneStep env (snap c) c1))"
proof -
  let ?f = "\<lambda>r. if pr_phase r = Lobby then Inr (r\<lparr>pr_delegated := True\<rparr>) else Inl NotInLobby"
  let ?c2 = "c1\<lparr>publisher := setEntriesCloseAt None (setNextLobbyOpensAt None (publisher c1))\<rparr>"
  have good: "good_step False ?f" by (auto simp: good_step_def later_def ended_def round_sound_def)
  have ix: "run_ix fight t (DelegateRound n) (chain_in c) = on_round False n ?f (chain_in c)" for t
    using at q by (simp add: on_round_def at_round_def demand_def)
  have w: "world ?c2 = world c" using m by (simp add: met_def)
  obtain c3 where c3: "client_send env (DelegateRound n) ?c2 = (Inr True, c3)" "at_round n (q\<lparr>pr_delegated := True\<rparr>) c3"
    using send_lands_at [OF at w ix, of "q\<lparr>pr_delegated := True\<rparr>"] q good by auto
  have home: "\<not> delegated_on (chain_in c1) n" using at q w by (simp add: at_round_def delegated_on_def)
  have "driveLobby env (snap c) (account_of n q) c1 = (case c3 of _ \<Rightarrow> delegateRound env n ?c2)"
    using home q
    by (simp add: driveLobby_def snap_at [OF at] kbind_def on_pub_def kmod_def ask_def env honest_client_def
        account_of_def)
  also have "\<dots> = (Inr (), c3)"
    by (simp add: delegateRound_def kbind_def c3(1) ask_def env honest_client_def kret_def)
  finally show ?thesis using c3(2) q(1) by (simp add: drive_at [OF at])
qed

lemma at_round_world: "at_round n q c \<Longrightarrow> world c' = world c \<Longrightarrow> at_round n q c'"
  by (simp add: at_round_def)

lemma abandon_run:
  assumes at: "at_round n q c" and w: "world c1 = world c" and q: "pr_phase q = Lobby" "pr_delegated q"
    and dead: "lobbyIsDead (pr_count q) (pr_closesAt q) (of_int (w_now (world c) - lag))"
  shows "at_round n (q\<lparr>pr_phase := Abandoned, pr_delegated := False\<rparr>) (snd (abandonRound env st (account_of n q) c1))"
proof -
  have ok: "ix_abandon (w_now (world c) - lag) q = Inr (q\<lparr>pr_phase := Abandoned, pr_delegated := False\<rparr>)"
    using q dead by (simp add: ix_abandon_def demand_def)
  have ix: "run_ix fight t (AbandonRound n) (chain_in c) = on_round True n (ix_abandon t) (chain_in c)" for t
    by simp
  obtain c2 where "client_send env (AbandonRound n) c1 = (Inr True, c2)"
    "at_round n (q\<lparr>pr_phase := Abandoned, pr_delegated := False\<rparr>) c2"
    using send_lands_at [OF at w ix _ ok abandon_good] q by blast
  then show ?thesis
    by (simp add: abandonRound_def account_of_def kbind_def kmod_def on_tl_def ask_def env honest_client_def
        kret_def at_round_def)
qed

lemma draw_run:
  assumes at: "at_round n q c" and w: "world c1 = world c" and q: "pr_phase q = Lobby" "pr_delegated q"
    and late: "pr_closesAt q \<le> w_now (world c) - lag" and two: "2 \<le> pr_count q"
  shows "at_round n (q\<lparr>pr_phase := Drawing\<rparr>) (snd (drawSeed env (account_of n q) False c1))"
proof -
  have ok: "ix_draw (w_now (world c) - lag) False q = Inr (q\<lparr>pr_phase := Drawing\<rparr>)"
    using q late two
    by (simp add: ix_draw_def demand_def draw_is_permitted_def lobby_may_close_def lobbyIsOpen_def enough_to_fight_def)
  have ix: "run_ix fight t (CloseLobbyAndDraw n False) (chain_in c) = on_round True n (ix_draw t False) (chain_in c)" for t
    by simp
  obtain c2 where "client_send env (CloseLobbyAndDraw n False) c1 = (Inr True, c2)"
    "at_round n (q\<lparr>pr_phase := Drawing\<rparr>) c2"
    using send_lands_at [OF at w ix _ ok draw_good] q by blast
  then show ?thesis
    by (simp add: drawSeed_def account_of_def kbind_def kmod_def kget_def date_now_def on_tl_def ask_def env
        honest_client_def kret_def at_round_def)
qed

lemma lobby_run:
  assumes "cs_roundDelegated st \<noteq> Some False"
  shows "\<exists>c2 line. world c2 = world c1 \<and>
    driveLobby env st r c1 = lobby_action env st r (planLobby (lobby_c (ke_config env)) (lobby_view_of env st r line)) c2"
proof -
  let ?note = "\<lambda>tl. if 0 < realCount (classify (ke_bank env) (room_of r)) \<and> tl_firstRealEntryObservedAtSec tl = None
           then tl\<lparr>tl_firstRealEntryObservedAtSec := Some (cs_nowSec st)\<rparr> else tl"
  let ?line = "?note (timeline c1)"
  let ?plan = "planLobby (lobby_c (ke_config env)) (lobby_view_of env st r ?line)"
  let ?c2 = "c1\<lparr>timeline := ?line,
    publisher := setEntriesCloseAt (entriesCloseAt ?plan) (setEntriesCloseAt None (setNextLobbyOpensAt None (publisher c1)))\<rparr>"
  have "driveLobby env st r c1 = lobby_action env st r ?plan ?c2"
    using assms by (simp add: driveLobby_def kbind_def on_pub_def on_tl_def kmod_def kget_def del: set_notOpening)
  then show ?thesis by (intro exI [of _ ?c2] exI [of _ ?line]) simp
qed

lemma lobby_late_step:
  assumes at: "at_round n q c" and q: "pr_phase q = Lobby" "pr_delegated q" and m: "met c c1"
    and late: "pr_closesAt q + CLOCK_SKEW_MARGIN_SECONDS \<le> w_now (world c)"
  shows "\<exists>q'. at_round n q' (snd (driveOneStep env (snap c) c1)) \<and> (pr_phase q' = Drawing \<or> pr_phase q' = Abandoned)"
proof -
  let ?r = "account_of n q" and ?lc = "lobby_c (ke_config env)"
  have chain_late: "pr_closesAt q \<le> w_now (world c) - lag"
    using late skew by (simp add: CLOCK_SKEW_MARGIN_SECONDS_def)
  have due: "of_int (pr_closesAt q + CLOCK_SKEW_MARGIN_SECONDS) \<le> (of_int (w_now (world c)) :: rat)"
    using late by (simp only: of_int_le_iff)
  have decided: "step (planLobby ?lc (lobby_view_of env (snap c) ?r line)) =
      (if pr_count q < 2 then Abandon else Close)" for line
    using plan_ends_the_lobby [of "lobby_view_of env (snap c) ?r line" ?lc] due
    by (simp add: lobby_view_of_def account_of_def snap_at [OF at] lobbyIsDead_def lobbyIsOpen_def
        CLOCK_SKEW_MARGIN_SECONDS_def)
  obtain c2 line where run0: "world c2 = world c1"
    "driveLobby env (snap c) ?r c1 = lobby_action env (snap c) ?r (planLobby ?lc (lobby_view_of env (snap c) ?r line)) c2"
    using lobby_run [of "snap c" c1 ?r] q by (auto simp: snap_at [OF at])
  have "\<exists>c2 plan. driveLobby env (snap c) ?r c1 = lobby_action env (snap c) ?r plan c2 \<and> world c2 = world c \<and>
      step plan = (if pr_count q < 2 then Abandon else Close)"
    using run0 decided m by (metis met_def)
  then obtain c2 plan where run: "driveLobby env (snap c) ?r c1 = lobby_action env (snap c) ?r plan c2"
    "world c2 = world c" "step plan = (if pr_count q < 2 then Abandon else Close)"
    by blast
  show ?thesis
  proof (cases "pr_count q < 2")
    case True
    then have "lobbyIsDead (pr_count q) (pr_closesAt q) (of_int (w_now (world c) - lag))"
      using chain_late unfolding lobbyIsDead_def lobbyIsOpen_def by (simp only: floor_of_int) simp
    from abandon_run [OF at run(2) q this] show ?thesis
      using True run
      by (intro exI [of _ "q\<lparr>pr_phase := Abandoned, pr_delegated := False\<rparr>"])
         (simp add: drive_at [OF at] q(1) lobby_action_def)
  next
    case False
    then show ?thesis
      using draw_run [OF at run(2) q chain_late] run
      by (intro exI [of _ "q\<lparr>pr_phase := Drawing\<rparr>"])
         (simp add: drive_at [OF at] q(1) lobby_action_def)
  qed
qed

lemma drawing_late_step:
  assumes at: "at_round n q c" and q: "pr_phase q = Drawing" and m: "met c c1" and f: "frank c"
    and late: "DRAW_TIMEOUT_SECONDS (rent_c (ke_config env)) < of_int (w_now (world c) - pr_closesAt q)"
  shows "halted (snd (driveOneStep env (snap c) c1)) \<or> beyond n (snd (driveOneStep env (snap c) c1))"
proof -
  let ?c2 = "c1\<lparr>publisher := (\<lambda>p. let (added, p') = addWedgedRound (of_int n) p in if added then render p' else p')
    (setNextLobbyOpensAt None (publisher c1))\<rparr>"
  have f2: "frank ?c2"
    using f m by (simp add: frank_def halted_def met_def quiet_def addWedgedRound_def on_status_def Let_def)
  have w: "world ?c2 = world c" using m by (simp add: met_def)
  have "driveDrawing env (snap c) (account_of n q) c1 = openNextRound env (n + 1) ?c2"
    using late
    by (simp add: driveDrawing_def snap_at [OF at] account_of_def kbind_def on_pub_def kmod_def Let_def)
  then show ?thesis
    using open_run [OF f2, of "n + 1"] at w q
    by (auto simp: drive_at [OF at] at_round_def beyond_def)
qed

end

end
