(* ===== verification/Keeper_Run.thy ===== *)
theory Keeper_Run
  imports Keeper_Live
begin

text \<open>
  The keeper run for ever. The remaining phases of a round, each left behind by a late enough pass, and
  from them the arena over an infinite run in which passes, failing passes and anything else may
  alternate, with infinitely many passes that meet no failure: the round counter passes every number,
  unless the served status says why no round is opened.
\<close>

context live_arena
begin

subsection \<open>The fight ends\<close>

lemma resolve_ends:
  assumes q: "pr_phase q = Fight" "2 \<le> pr_count q" and late: "pr_startedAt q + FIGHT_TIMEOUT_SECONDS \<le> t"
  shows "\<exists>q'. ix_resolve fight t q = Inr q' \<and>
    (pr_phase q' = Settled \<or>
     pr_phase q' = Fight \<and> pr_startedAt q' = pr_startedAt q \<and> pr_count q' = pr_count q \<and>
     pr_ticks q < pr_ticks q' \<and> pr_ticks q < finalCursor (pr_count q))"
proof -
  let ?u = "catch_up fight t MAX_STEPS_PER_CALL q"
  have grow: "pr_ticks q < pr_ticks ?u" "pr_ticks q < finalCursor (pr_count q)" if "\<not> is_caught_up t ?u"
  proof -
    show "pr_ticks q < pr_ticks ?u"
      using that q(2) by (auto simp: is_caught_up_def catch_up_def Let_def clock_constants split: if_splits)
    moreover have "pr_ticks ?u < canonicalCursor (pr_startedAt q) (pr_count q) (of_int t)"
      using that by (simp add: is_caught_up_def)
    ultimately show "pr_ticks q < finalCursor (pr_count q)"
      using canonicalCursor_le_final [of "pr_startedAt q" "pr_count q" "of_int t"] by simp
  qed
  show ?thesis
  proof (cases "fight_is_over (pr_fighters ?u) (pr_count ?u) \<or> is_caught_up t ?u")
    case True
    then have "ix_resolve fight t q = Inr (?u\<lparr>pr_phase := Settled\<rparr>)"
      using q late by (auto simp: ix_resolve_def demand_def rbind_def Let_def)
    then show ?thesis by simp
  next
    case False
    then have "ix_resolve fight t q = Inr ?u"
      using q by (auto simp: ix_resolve_def demand_def rbind_def Let_def)
    then show ?thesis using grow False q(1) by simp
  qed
qed

lemma fight_late_step:
  assumes at: "at_round n q c" and q: "pr_phase q = Fight" and m: "met c c1"
    and late: "pr_startedAt q + FIGHT_TIMEOUT_SECONDS + CLOCK_SKEW_MARGIN_SECONDS \<le> w_now (world c)"
  shows "\<exists>q'. at_round n q' (snd (driveOneStep env (snap c) c1)) \<and>
    (pr_phase q' = Settled \<or>
     pr_phase q' = Fight \<and> pr_startedAt q' = pr_startedAt q \<and> pr_count q' = pr_count q \<and>
     pr_ticks q < pr_ticks q' \<and> pr_ticks q < finalCursor (pr_count q))"
proof -
  let ?t = "w_now (world c) - lag"
  have s: "pr_delegated q" "2 \<le> pr_count q" using round_sound_at [OF at] q by (simp_all add: round_sound_def)
  have chain_late: "pr_startedAt q + FIGHT_TIMEOUT_SECONDS \<le> ?t" using late skew by simp
  obtain q' where q': "ix_resolve fight ?t q = Inr q'"
    "pr_phase q' = Settled \<or>
     pr_phase q' = Fight \<and> pr_startedAt q' = pr_startedAt q \<and> pr_count q' = pr_count q \<and>
     pr_ticks q < pr_ticks q' \<and> pr_ticks q < finalCursor (pr_count q)"
    using resolve_ends [OF q s(2) chain_late] by blast
  have ix: "run_ix fight t (Resolve n) (chain_in c) = on_round True n (ix_resolve fight t) (chain_in c)" for t
    by simp
  have bell: "of_int (FIGHT_TIMEOUT_SECONDS + CLOCK_SKEW_MARGIN_SECONDS) \<le> (of_int (w_now (world c)) - of_int (pr_startedAt q) :: rat)"
    using late by (simp flip: of_int_diff only: of_int_le_iff)
  define c2 where "c2 = c1\<lparr>publisher := setNextLobbyOpensAt None (publisher c1),
    timeline := (if tl_fightObservedAtMs (timeline c1) = None
      then (timeline c1)\<lparr>tl_fightObservedAtMs := Some (cl_dateNow (ke_client env) (world c1))\<rparr> else timeline c1)\<rparr>"
  have w: "world c2 = world c" using m by (simp add: met_def c2_def)
  obtain c3 where c3: "client_send env (Resolve n) c2 = (Inr True, c3)" "at_round n q' c3"
    using send_lands_at [OF at w ix _ q'(1) resolve_good] s by blast
  have "driveFight env (snap c) (account_of n q) c1 = resolveRound env (account_of n q) c2"
    using bell
    by (simp add: driveFight_def snap_at [OF at] account_of_def kbind_def on_pub_def on_tl_def kmod_def
        date_now_def kget_def c2_def Let_def)
  also have "\<dots> = (Inr (), c3\<lparr>refreshAfterStep := True\<rparr>)"
    using c3(1)
    by (simp add: resolveRound_def RESOLVE_RETRY_ATTEMPTS_def numeral_3_eq_3 kcatch_def kbind_def kwhen_def
        kmod_def account_of_def)
  finally have "snd (driveOneStep env (snap c) c1) = c3\<lparr>refreshAfterStep := True\<rparr>"
    by (simp add: drive_at [OF at] q)
  then show ?thesis using q'(2) by (intro exI [of _ q']) (simp add: at_round_world [OF c3(2)])
qed

subsection \<open>A settled round\<close>

definition noted_settled :: "int \<Rightarrow> rat \<Rightarrow> arena_world keeper_ctx \<Rightarrow> bool" where
  "noted_settled n t c \<longleftrightarrow> tl_roundNo (timeline c) = Some n \<and> tl_settledObservedAtSec (timeline c) = Some t"

definition noted_abandoned :: "int \<Rightarrow> rat \<Rightarrow> arena_world keeper_ctx \<Rightarrow> bool" where
  "noted_abandoned n t c \<longleftrightarrow> tl_roundNo (timeline c) = Some n \<and> tl_abandonedObservedAtSec (timeline c) = Some t"

lemma snap_counter: "at_round n q c \<Longrightarrow> cs_roundCounter (snap c) = n \<and> 0 < n"
  by (simp add: snap_at) (simp add: at_round_def)

lemma met_round: "at_round n q c \<Longrightarrow> met c c1 \<Longrightarrow> tl_roundNo (timeline c1) = Some n"
  using snap_counter [of n q c] by (simp add: met_def freshTimeline_def)

lemma met_keeps: "at_round n q c \<Longrightarrow> met c c1 \<Longrightarrow> tl_roundNo (timeline c) = Some n \<Longrightarrow> timeline c1 = timeline c"
  using snap_counter [of n q c] by (simp add: met_def)

lemma settled_home_step:
  assumes at: "at_round n q c" and q: "pr_phase q = Settled" "pr_delegated q" and m: "met c c1"
  shows "beyond n (snd (driveOneStep env (snap c) c1)) \<or>
    (\<exists>q'. at_round n q' (snd (driveOneStep env (snap c) c1)) \<and> later (q\<lparr>pr_delegated := False\<rparr>) q')"
proof -
  let ?st = "snap c"
  define marks :: "timeline \<Rightarrow> timeline" where "marks = (\<lambda>tl. if tl_settledObservedAtSec tl = None
    then tl\<lparr>tl_settledObservedAtSec := Some (cs_nowSec ?st)\<rparr> else tl)"
  define c2 where "c2 = c1\<lparr>timeline := marks (timeline c1), publisher := setNextLobbyOpensAt
     (Some (the (tl_settledObservedAtSec (marks (timeline c1))) + RESULT_HOLD_SECONDS (lobby_c (ke_config env)))) (publisher c1)\<rparr>"
  have w: "world c2 = world c" using m by (simp add: met_def c2_def)
  have ok: "ix_close q = Inr (q\<lparr>pr_delegated := False\<rparr>)" using q by (simp add: ix_close_def demand_def)
  have ix: "run_ix fight t (CloseRoundIx n) (chain_in c) = on_round True n ix_close (chain_in c)" for t by simp
  obtain c3 where c3: "client_send env (CloseRoundIx n) c2 = (Inr True, c3)" "at_round n (q\<lparr>pr_delegated := False\<rparr>) c3"
    using send_lands_at [OF at w ix _ ok close_good] q by blast
  let ?rest = "kbind (ask (cl_waitForUndelegation (ke_client env) n)) (\<lambda>_. count_completed env)"
  have "driveSettled env ?st (account_of n q) c1 = ?rest c3"
    using q c3(1)
    unfolding driveSettled_def marks_def [symmetric]
    by (simp add: snap_at [OF at] kbind_def on_tl_def on_pub_def kmod_def kget_def c2_def account_of_def)
  moreover have "keeps_at (adv fight k) ?rest c3" for k
    by (intro adv.at_intros adv_reads adv_count_completed)
  ultimately have "adv fight k c3 (snd (driveOneStep env ?st c1))" for k
    by (simp add: drive_at [OF at] q keeps_at_def)
  then show ?thesis using adv_at c3(2) by blast
qed

lemma settled_noted:
  assumes at: "at_round n q c" and q: "pr_phase q = Settled" and cur: "ac_counter (chain_in (after c)) = Some n"
  shows "\<exists>t. noted_settled n t (after c)"
proof -
  obtain c1 where m: "met c c1" and rest: "\<And>k. adv fight k (snd (driveOneStep env (snap c) c1)) (after c)"
    using pass_split by blast
  let ?st = "snap c"
  define marks :: "timeline \<Rightarrow> timeline" where "marks = (\<lambda>tl. if tl_settledObservedAtSec tl = None
    then tl\<lparr>tl_settledObservedAtSec := Some (cs_nowSec ?st)\<rparr> else tl)"
  let ?c2 = "c1\<lparr>timeline := marks (timeline c1)\<rparr>"
  have mark: "on_tl marks c1 = (Inr (), ?c2)" by (simp add: on_tl_def kmod_def)
  have "adv fight n ?c2 (snd (driveSettled env ?st (account_of n q) c1))"
    unfolding driveSettled_def marks_def [symmetric] kbind_run [of "on_tl marks" c1, OF mark] keeps_at_def [symmetric]
    by (intro adv.at_intros adv_on_pub adv_reads adv_send_any adv_count_completed adv_sweepHouseTake adv_openNextRound
        allowed_free)
  moreover have "driveOneStep env ?st c1 = driveSettled env ?st (account_of n q) c1"
    using q by (simp add: drive_at [OF at])
  ultimately have "adv fight n ?c2 (after c)" using rest [of n] adv.R_trans by metis
  moreover have w: "world ?c2 = world c" using m by (simp add: met_def)
  ultimately have "remembers (abandoned_on (chain_in ?c2) n) n (marks (timeline c1)) (timeline (after c))"
    using at cur by (simp add: adv_def at_round_def)
  moreover have "tl_roundNo (marks (timeline c1)) = Some n" using met_round [OF at m] by (simp add: marks_def)
  ultimately show ?thesis
    by (cases "tl_settledObservedAtSec (timeline c1)") (auto simp: marks_def remembers_def noted_settled_def)
qed

text \<open>The sweep never fails and leaves the counter where it is.\<close>

lemma sweep_house_run:
  "\<exists>c'. sweepHouseTake env st r c = (Inr (), c') \<and> ac_counter (chain_in c') = ac_counter (chain_in c)"
  by (auto simp: sweepHouseTake_def kbind_def kget_def kret_def kcatch_def ask_def env honest_client_def
      client_send_def land_def kmod_def on_tl_def on_pub_def on_round_def demand_def rbind_Inr_iff
      split: sum.split sum.splits option.splits if_splits prod.split)

lemma sweep_then_open:
  assumes f: "frank c" and s: "chain_sound (chain_in c)" "ac_counter (chain_in c) = Some n"
  shows "\<exists>c'. sweepHouseTake env st r c = (Inr (), c') \<and> frank c' \<and> chain_sound (chain_in c') \<and>
    ac_counter (chain_in c') = Some n \<and> (\<forall>k. adv fight k c c')"
proof -
  obtain c' where c': "sweepHouseTake env st r c = (Inr (), c')" "ac_counter (chain_in c') = Some n"
    using sweep_house_run s(2) by metis
  have a: "adv fight k c c'" for k using adv_sweepHouseTake [of k st r c] by (simp add: keeps_at_def c'(1))
  have "quiet c c'" using quiet_sweepHouseTake [of env st r c] by (simp add: keeps_at_def c'(1))
  then show ?thesis using c' a f adv_sound [OF a s(1)] by (auto simp: quiet_def frank_def halted_def)
qed

lemma settled_late_step:
  assumes at: "at_round n q c" and q: "pr_phase q = Settled" "\<not> pr_delegated q" and m: "met c c1"
    and f: "frank c" and seen: "noted_settled n t c"
    and late: "t + RESULT_HOLD_SECONDS (lobby_c (ke_config env)) \<le> of_int (w_now (world c))"
  shows "halted (snd (driveOneStep env (snap c) c1)) \<or> beyond n (snd (driveOneStep env (snap c) c1))"
proof -
  let ?c2 = "c1\<lparr>publisher := setNextLobbyOpensAt (Some (t + RESULT_HOLD_SECONDS (lobby_c (ke_config env)))) (publisher c1)\<rparr>"
  have tl: "tl_settledObservedAtSec (timeline c1) = Some t"
    using met_keeps [OF at m] seen by (simp add: noted_settled_def)
  have c2: "frank ?c2" "chain_sound (chain_in ?c2)" "ac_counter (chain_in ?c2) = Some n"
    using f m at by (simp_all add: frank_def halted_def met_def quiet_def at_round_def)
  obtain c3 where c3: "sweepHouseTake env (snap c) (account_of n q) ?c2 = (Inr (), c3)" "frank c3"
    "chain_sound (chain_in c3)" "ac_counter (chain_in c3) = Some n"
    using sweep_then_open [OF c2] by blast
  have "driveSettled env (snap c) (account_of n q) c1 = openNextRound env (n + 1) c3"
    using q late tl c3(1)
    by (simp add: driveSettled_def snap_at [OF at] kbind_def on_tl_def on_pub_def kmod_def kget_def)
  then have run: "snd (driveOneStep env (snap c) c1) = snd (openNextRound env (n + 1) c3)"
    by (simp add: drive_at [OF at] q)
  show ?thesis unfolding run using open_run [OF c3(2,3), of "n + 1"] c3(4) by (auto simp: beyond_def)
qed

subsection \<open>An abandoned round\<close>

lemma abandoned_run:
  assumes at: "at_round n q c" and q: "pr_phase q = Abandoned" and m: "met c c1"
  shows "\<exists>c2. world c2 = world c \<and> quiet c c2 \<and>
    (tl_roundNo (timeline c) = Some n \<and> tl_abandonedObservedAtSec (timeline c) \<noteq> None \<longrightarrow> timeline c2 = timeline c) \<and>
    (\<exists>t. noted_abandoned n t c2) \<and>
    driveOneStep env (snap c) c1 =
     kbind (sweepHouseTake env (snap c) (account_of n q)) (\<lambda>_.
     kbind (kget (\<lambda>c. the (tl_abandonedObservedAtSec (timeline c)) + ABANDON_HOLD_SECONDS (lobby_c (ke_config env)))) (\<lambda>opensAt.
     kbind (on_pub (setNextLobbyOpensAt (Some opensAt))) (\<lambda>_.
       if cs_nowSec (snap c) < opensAt then kret () else openNextRound env (n + 1)))) c2"
proof -
  let ?st = "snap c"
  define marks :: "timeline \<Rightarrow> timeline" where "marks = (\<lambda>tl. if tl_abandonedObservedAtSec tl = None
    then tl\<lparr>tl_abandonedObservedAtSec := Some (cs_nowSec ?st)\<rparr> else tl)"
  let ?c2 = "c1\<lparr>timeline := marks (timeline c1)\<rparr>"
  have mark: "on_tl marks c1 = (Inr (), ?c2)" by (simp add: on_tl_def kmod_def)
  have "world ?c2 = world c" "quiet c ?c2" using m by (simp_all add: met_def quiet_def)
  moreover have "\<exists>t. noted_abandoned n t ?c2"
    using met_round [OF at m] by (auto simp: noted_abandoned_def marks_def)
  moreover have "timeline ?c2 = timeline c"
    if "tl_roundNo (timeline c) = Some n \<and> tl_abandonedObservedAtSec (timeline c) \<noteq> None"
    using met_keeps [OF at m] that by (simp add: marks_def)
  moreover have "driveOneStep env ?st c1 = driveAbandoned env ?st (account_of n q) c1"
    using q by (simp add: drive_at [OF at])
  ultimately show ?thesis
    unfolding driveAbandoned_def marks_def [symmetric] kbind_run [of "on_tl marks" c1, OF mark]
      conjunct1 [OF snap_counter [OF at]]
    by (intro exI [of _ ?c2]) simp
qed

lemma abandoned_noted:
  assumes at: "at_round n q c" and q: "pr_phase q = Abandoned" and cur: "ac_counter (chain_in (after c)) = Some n"
  shows "\<exists>t. noted_abandoned n t (after c)"
proof -
  obtain c1 where m: "met c c1" and rest: "\<And>k. adv fight k (snd (driveOneStep env (snap c) c1)) (after c)"
    using pass_split by blast
  obtain c2 t where c2: "world c2 = world c" "noted_abandoned n t c2"
    and run: "driveOneStep env (snap c) c1 =
     kbind (sweepHouseTake env (snap c) (account_of n q)) (\<lambda>_.
     kbind (kget (\<lambda>c. the (tl_abandonedObservedAtSec (timeline c)) + ABANDON_HOLD_SECONDS (lobby_c (ke_config env)))) (\<lambda>opensAt.
     kbind (on_pub (setNextLobbyOpensAt (Some opensAt))) (\<lambda>_.
       if cs_nowSec (snap c) < opensAt then kret () else openNextRound env (n + 1)))) c2"
    using abandoned_run [OF at q m] by blast
  have "adv fight n c2 (snd (driveOneStep env (snap c) c1))"
    unfolding run keeps_at_def [symmetric]
    by (intro adv.at_intros adv_on_pub adv_sweepHouseTake adv_openNextRound)
  then have "adv fight n c2 (after c)" using rest [of n] adv.R_trans by blast
  then have "remembers True n (timeline c2) (timeline (after c))"
    using at q cur c2(1) by (simp add: adv_def at_round_def abandoned_on_def)
  then show ?thesis using c2(2) by (auto simp: remembers_def noted_abandoned_def)
qed

lemma abandoned_late_step:
  assumes at: "at_round n q c" and q: "pr_phase q = Abandoned" and m: "met c c1"
    and f: "frank c" and seen: "noted_abandoned n t c"
    and late: "t + ABANDON_HOLD_SECONDS (lobby_c (ke_config env)) \<le> of_int (w_now (world c))"
  shows "halted (snd (driveOneStep env (snap c) c1)) \<or> beyond n (snd (driveOneStep env (snap c) c1))"
proof -
  obtain c2 where c2: "world c2 = world c" "quiet c c2" "timeline c2 = timeline c"
    and run: "driveOneStep env (snap c) c1 =
     kbind (sweepHouseTake env (snap c) (account_of n q)) (\<lambda>_.
     kbind (kget (\<lambda>c. the (tl_abandonedObservedAtSec (timeline c)) + ABANDON_HOLD_SECONDS (lobby_c (ke_config env)))) (\<lambda>opensAt.
     kbind (on_pub (setNextLobbyOpensAt (Some opensAt))) (\<lambda>_.
       if cs_nowSec (snap c) < opensAt then kret () else openNextRound env (n + 1)))) c2"
    using abandoned_run [OF at q m] seen by (auto simp: noted_abandoned_def)
  have "frank c2" "chain_sound (chain_in c2)" "ac_counter (chain_in c2) = Some n"
    using f at c2 by (simp_all add: frank_def halted_def quiet_def at_round_def)
  then obtain c3 where c3: "sweepHouseTake env (snap c) (account_of n q) c2 = (Inr (), c3)" "frank c3"
    "chain_sound (chain_in c3)" "ac_counter (chain_in c3) = Some n" "adv fight n c2 c3"
    using sweep_then_open by blast
  have tl: "tl_abandonedObservedAtSec (timeline c3) = Some t"
    using c3(4,5) at q c2 seen
    by (simp add: adv_def at_round_def abandoned_on_def remembers_def noted_abandoned_def)
  let ?c4 = "c3\<lparr>publisher := setNextLobbyOpensAt (Some (t + ABANDON_HOLD_SECONDS (lobby_c (ke_config env)))) (publisher c3)\<rparr>"
  have "cs_nowSec (snap c) = of_int (w_now (world c))" by (simp add: snap_at [OF at])
  then have "driveOneStep env (snap c) c1 = openNextRound env (n + 1) ?c4"
    using late tl unfolding run kbind_run [of "sweepHouseTake env (snap c) (account_of n q)" c2, OF c3(1)]
    by (simp add: kbind_def on_pub_def kmod_def kget_def)
  moreover have "frank ?c4" using c3(2) by (simp add: frank_def halted_def)
  ultimately show ?thesis using open_run [of ?c4 "n + 1"] c3(3,4) by (auto simp: beyond_def)
qed

subsection \<open>Before the first round\<close>

lemma no_arena_step:
  assumes s: "chain_sound (chain_in c)" and none: "ac_counter (chain_in c) = None" and m: "met c c1"
  shows "ac_counter (chain_in (snd (driveOneStep env (snap c) c1))) = Some 0 \<and>
    chain_sound (chain_in (snd (driveOneStep env (snap c) c1)))"
proof -
  let ?ch = "(chain_in c)\<lparr>ac_counter := Some 0\<rparr>"
  have land: "run_ix fight t InitArena (chain_in c) = Inr ?ch" for t using none by (simp add: demand_def)
  have w: "world c1 = world c" using m by (simp add: met_def)
  have "client_send env InitArena c1 = (Inr True, c1\<lparr>world := (world c1)\<lparr>w_chain := ?ch\<rparr>\<rparr>)"
    using send_lands [of c1 InitArena ?ch] land w by simp
  then have "chain_in (snd (driveOneStep env (snap c) c1)) = ?ch"
    using none by (simp add: driveOneStep_def snap_def kbind_def kret_def)
  then show ?thesis using run_ix_sound [OF s _ land] by simp
qed

lemma first_round_step:
  assumes s: "chain_sound (chain_in c)" and zero: "ac_counter (chain_in c) = Some 0" and m: "met c c1"
    and f: "frank c"
  shows "halted (snd (driveOneStep env (snap c) c1)) \<or> beyond 0 (snd (driveOneStep env (snap c) c1))"
proof -
  have "driveOneStep env (snap c) c1 = openNextRound env 1 c1"
    using zero by (simp add: driveOneStep_def snap_def)
  moreover have "frank c1" "chain_sound (chain_in c1)" "ac_counter (chain_in c1) = Some (1 - 1)"
    using f s zero m by (simp_all add: met_def frank_def halted_def quiet_def)
  ultimately show ?thesis using open_run [of c1 1] by (auto simp: beyond_def)
qed

subsection \<open>A whole pass\<close>

lemma pass_moves:
  assumes at: "at_round n q c"
    and step: "\<And>c1. met c c1 \<Longrightarrow> halted (snd (driveOneStep env (snap c) c1)) \<or>
      beyond n (snd (driveOneStep env (snap c) c1)) \<or>
      (\<exists>q'. at_round n q' (snd (driveOneStep env (snap c) c1)) \<and> P q')"
  shows "halted (after c) \<or> beyond n (after c) \<or> (\<exists>q' q''. P q' \<and> later q' q'' \<and> at_round n q'' (after c))"
proof -
  obtain c1 where m: "met c c1" and rest: "\<And>k. adv fight k (snd (driveOneStep env (snap c) c1)) (after c)"
    and quiet: "quiet (snd (driveOneStep env (snap c) c1)) (after c)"
    using pass_split by blast
  have w: "world c1 = world c" using m by (simp add: met_def)
  then have "chain_sound (chain_in c1)" using at by (simp add: at_round_def)
  then have s: "chain_sound (chain_in (snd (driveOneStep env (snap c) c1)))"
    using adv_sound [of fight 0 c1] adv_drive [OF snap_truthful [OF w], of 0] by (simp add: keeps_at_def)
  from step [OF m] show ?thesis
  proof (elim disjE exE conjE)
    assume "halted (snd (driveOneStep env (snap c) c1))"
    then show ?thesis using quiet by (simp add: halted_def quiet_def)
  next
    assume "beyond n (snd (driveOneStep env (snap c) c1))"
    then show ?thesis using adv_beyond [OF rest s] by blast
  next
    fix q' assume "at_round n q' (snd (driveOneStep env (snap c) c1))" "P q'"
    then show ?thesis using adv_at [OF rest] by blast
  qed
qed

end

subsection \<open>Infinite runs\<close>

text \<open>What happens beside the passes: other instructions land, time passes, balances change, the
  heartbeat beats.\<close>

definition outside :: "fight \<Rightarrow> arena_world keeper_ctx \<Rightarrow> arena_world keeper_ctx \<Rightarrow> bool" where
  "outside fight c c' \<longleftrightarrow> chain_moves fight (chain_in c) (chain_in c') \<and> w_now (world c) \<le> w_now (world c') \<and>
     (\<exists>w p. c' = c\<lparr>world := w, publisher := p\<rparr> \<and> (p = publisher c \<or> (\<exists>t. p = heartbeat t (publisher c))))"

text \<open>A pass behind a client that may fail in any of the ways of \<open>arena_client\<close>, whichever they are
  this time; the client of the arena that answers is one of them.\<close>

definition some_pass ::
  "arena_world keeper_env \<Rightarrow> fight \<Rightarrow> arena_world keeper_ctx \<Rightarrow> arena_world keeper_ctx \<Rightarrow> bool" where
  "some_pass env fight c c' \<longleftrightarrow>
     (\<exists>cl. arena_client fight cl \<and> c' = snd (keeper_pass (env\<lparr>ke_client := cl\<rparr>) c))"

lemma some_pass_adv: "some_pass env fight c c' \<Longrightarrow> adv fight k c c'"
  using arena_link.adv_pass [OF arena_link.intro] by (auto simp: some_pass_def)

lemma some_pass_frank: "some_pass env fight c c' \<Longrightarrow> frank c \<Longrightarrow> frank c'"
  by (auto simp: some_pass_def intro: frank_pass)

text \<open>A fair run: passes of any kind and anything beside them, for ever; infinitely many of the passes meet
  no failure (those of \<open>env\<close> itself), and the clock passes every instant.\<close>

definition fair_run ::
  "arena_world keeper_env \<Rightarrow> fight \<Rightarrow> (nat \<Rightarrow> arena_world keeper_ctx) \<Rightarrow> bool" where
  "fair_run env fight \<sigma> \<longleftrightarrow>
     (\<forall>i. some_pass env fight (\<sigma> i) (\<sigma> (Suc i)) \<or> outside fight (\<sigma> i) (\<sigma> (Suc i))) \<and>
     (\<forall>i. \<exists>j\<ge>i. \<sigma> (Suc j) = snd (keeper_pass env (\<sigma> j))) \<and>
     (\<forall>t. \<exists>i. t \<le> w_now (world (\<sigma> i)))"

definition good_run ::
  "arena_world keeper_env \<Rightarrow> fight \<Rightarrow> (nat \<Rightarrow> arena_world keeper_ctx) \<Rightarrow> bool" where
  "good_run env fight \<sigma> \<longleftrightarrow> fair_run env fight \<sigma> \<and> chain_sound (chain_in (\<sigma> 0)) \<and> frank (\<sigma> 0)"

lemma outside_adv: "outside fight c c' \<Longrightarrow> adv fight k c c'"
  by (auto simp: outside_def adv_def)

lemma heartbeat_notOpening [simp]:
  "ks_notOpeningRounds (pb_status (heartbeat t p)) = ks_notOpeningRounds (pb_status p)"
  by (simp add: heartbeat_def on_status_def)

lemma outside_frank: "outside fight c c' \<Longrightarrow> frank c \<Longrightarrow> frank c'"
  by (auto simp: outside_def frank_def halted_def)

context live_arena
begin

lemma run_steps:
  assumes g: "good_run env fight \<sigma>" and ij: "i \<le> j"
  shows "adv fight k (\<sigma> i) (\<sigma> j) \<and> chain_sound (chain_in (\<sigma> i)) \<and> frank (\<sigma> i)"
proof -
  have adv: "adv fight k (\<sigma> i) (\<sigma> (Suc i))" for i k
    using g some_pass_adv outside_adv unfolding good_run_def fair_run_def by metis
  have "frank (\<sigma> i) \<Longrightarrow> frank (\<sigma> (Suc i))" for i
    using g some_pass_frank outside_frank unfolding good_run_def fair_run_def by metis
  then have "chain_sound (chain_in (\<sigma> i)) \<and> frank (\<sigma> i)"
    by (induction i) (use g adv_sound [OF adv] in \<open>auto simp: good_run_def\<close>)
  moreover have "adv fight k (\<sigma> i) (\<sigma> j)"
    using ij by (induction j rule: dec_induct) (auto intro: adv.R_refl adv.R_trans adv)
  ultimately show ?thesis by simp
qed

lemma late_pass:
  assumes g: "good_run env fight \<sigma>"
  shows "\<exists>j\<ge>i. \<sigma> (Suc j) = after (\<sigma> j) \<and> t \<le> w_now (world (\<sigma> j))"
proof -
  obtain i0 where i0: "t \<le> w_now (world (\<sigma> i0))" using g unfolding good_run_def fair_run_def by blast
  obtain j where j: "max i i0 \<le> j" "\<sigma> (Suc j) = after (\<sigma> j)"
    using g unfolding good_run_def fair_run_def after_def by blast
  have "w_now (world (\<sigma> i0)) \<le> w_now (world (\<sigma> j))"
    using run_steps [OF g, of i0 j 0] j(1) by (simp add: adv_def)
  then show ?thesis using i0 j by (intro exI [of _ j]) auto
qed

lemma run_at:
  assumes "good_run env fight \<sigma>" and "i \<le> j" and "at_round n q (\<sigma> i)"
  shows "beyond n (\<sigma> j) \<or> (\<exists>q'. at_round n q' (\<sigma> j) \<and> later q q')"
  using adv_at run_steps [OF assms(1,2)] assms(3) by blast

text \<open>The document the keeper serves says why no round is opened.\<close>

definition announced :: "arena_world keeper_ctx \<Rightarrow> bool" where
  "announced c \<longleftrightarrow> (\<exists>s. published (publisher c) = serializeKeeperStatus s \<and> ks_notOpeningRounds s \<noteq> None)"

lemma halted_announced: "halted (after c) \<Longrightarrow> announced (after c)"
  using written_pass [of env c] by (auto simp: announced_def written_def halted_def after_def)

text \<open>If, while an invariant holds, every late pass reaches a goal, then the goal is reached.\<close>

definition comes_to :: "(nat \<Rightarrow> arena_world keeper_ctx) \<Rightarrow> int \<Rightarrow> nat \<Rightarrow> (program_round \<Rightarrow> arena_world keeper_ctx \<Rightarrow> bool) \<Rightarrow> bool" where
  "comes_to \<sigma> n i Q \<longleftrightarrow> (\<exists>j\<ge>i. announced (\<sigma> j) \<or> beyond n (\<sigma> j) \<or> (\<exists>q. at_round n q (\<sigma> j) \<and> Q q (\<sigma> j)))"

lemma comes_to_trans:
  "comes_to \<sigma> n i Q \<Longrightarrow> (\<And>j q. i \<le> j \<Longrightarrow> at_round n q (\<sigma> j) \<Longrightarrow> Q q (\<sigma> j) \<Longrightarrow> comes_to \<sigma> n j R) \<Longrightarrow> comes_to \<sigma> n i R"
  unfolding comes_to_def by (meson order_trans)

lemma comes_to_now: "at_round n q (\<sigma> i) \<Longrightarrow> Q q (\<sigma> i) \<Longrightarrow> comes_to \<sigma> n i Q"
  unfolding comes_to_def by blast

lemma late_pass_leads:
  assumes g: "good_run env fight \<sigma>" and at: "at_round n q (\<sigma> i)"
    and inv: "\<And>j q'. i \<le> j \<Longrightarrow> at_round n q' (\<sigma> j) \<Longrightarrow> I (\<sigma> j)"
    and step: "\<And>c q'. at_round n q' c \<Longrightarrow> later q q' \<Longrightarrow> frank c \<Longrightarrow> I c \<Longrightarrow> t \<le> w_now (world c) \<Longrightarrow>
      Q q' c \<or> halted (after c) \<or> beyond n (after c) \<or> (\<exists>q''. at_round n q'' (after c) \<and> Q q'' (after c))"
  shows "comes_to \<sigma> n i Q"
proof -
  obtain j where j: "i \<le> j" "\<sigma> (Suc j) = after (\<sigma> j)" "t \<le> w_now (world (\<sigma> j))"
    using late_pass [OF g] by blast
  from run_at [OF g j(1) at] show ?thesis
  proof (elim disjE exE conjE)
    assume "beyond n (\<sigma> j)"
    then show ?thesis using j(1) by (auto simp: comes_to_def)
  next
    fix q' assume q': "at_round n q' (\<sigma> j)" "later q q'"
    have "frank (\<sigma> j)" using run_steps [OF g order_refl] by blast
    from step [OF q' this inv [OF j(1) q'(1)] j(3)] show ?thesis
      using q'(1) j(1) halted_announced [of "\<sigma> j"] unfolding comes_to_def j(2) [symmetric] by (meson le_Suc_eq)
  qed
qed

subsection \<open>Each phase is left behind\<close>

abbreviation (input) past :: "phase \<Rightarrow> program_round \<Rightarrow> arena_world keeper_ctx \<Rightarrow> bool" where
  "past ph q c \<equiv> rank ph < rank (pr_phase q)"

lemma later_phase: "later q q' \<Longrightarrow> pr_phase q = ph \<Longrightarrow> pr_phase q' = ph \<or> rank ph < rank (pr_phase q')"
  using rank_inj [of ph "pr_phase q'"] by (auto simp: later_def simp del: rank_inj)

lemma later_rank: "later q q' \<Longrightarrow> rank ph < rank (pr_phase q) \<Longrightarrow> rank ph < rank (pr_phase q')"
  by (simp add: later_def)

lemma lobby_is_delegated:
  assumes g: "good_run env fight \<sigma>" and at: "at_round n q (\<sigma> i)" and q: "pr_phase q = Lobby"
  shows "comes_to \<sigma> n i (\<lambda>q c. past Lobby q c \<or> pr_phase q = Lobby \<and> pr_delegated q)"
proof (rule late_pass_leads [OF g at, where I = "\<lambda>_. True" and t = 0])
  fix c q' assume at': "at_round n q' c" and l: "later q q'"
  show "(past Lobby q' c \<or> pr_phase q' = Lobby \<and> pr_delegated q') \<or> halted (after c) \<or> beyond n (after c) \<or>
    (\<exists>q''. at_round n q'' (after c) \<and> (past Lobby q'' c \<or> pr_phase q'' = Lobby \<and> pr_delegated q''))"
  proof (cases "pr_phase q' = Lobby \<and> \<not> pr_delegated q'")
    case True
    have "later (q'\<lparr>pr_delegated := True\<rparr>) q'' \<Longrightarrow> past Lobby q'' c \<or> pr_phase q'' = Lobby \<and> pr_delegated q''" for q''
      using True by (cases "pr_phase q''") (auto simp: later_def ended_def)
    then show ?thesis
      using pass_moves [OF at', of "\<lambda>q''. q'' = q'\<lparr>pr_delegated := True\<rparr>"] lobby_home_step [OF at'] True by blast
  next
    case False
    then show ?thesis using later_phase [OF l q] by blast
  qed
qed simp_all

lemma lobby_ends:
  assumes g: "good_run env fight \<sigma>" and at: "at_round n q (\<sigma> i)" and q: "pr_phase q = Lobby" "pr_delegated q"
  shows "comes_to \<sigma> n i (past Lobby)"
proof (rule late_pass_leads [OF g at, where I = "\<lambda>_. True" and t = "pr_closesAt q + CLOCK_SKEW_MARGIN_SECONDS"])
  fix c q' assume at': "at_round n q' c" and l: "later q q'"
    and late: "pr_closesAt q + CLOCK_SKEW_MARGIN_SECONDS \<le> w_now (world c)"
  show "past Lobby q' c \<or> halted (after c) \<or> beyond n (after c) \<or> (\<exists>q''. at_round n q'' (after c) \<and> past Lobby q'' c)"
  proof (cases "pr_phase q' = Lobby")
    case True
    have "pr_delegated q'" "pr_closesAt q' = pr_closesAt q" using l q True by (auto simp: later_def ended_def)
    moreover have "pr_phase q1 = Drawing \<or> pr_phase q1 = Abandoned \<Longrightarrow> later q1 q2 \<Longrightarrow> past Lobby q2 c" for q1 q2
      by (auto simp: later_def)
    ultimately show ?thesis
      using pass_moves [OF at', of "\<lambda>q''. pr_phase q'' = Drawing \<or> pr_phase q'' = Abandoned"]
        lobby_late_step [OF at' True] late by metis
  next
    case False
    then show ?thesis using later_phase [OF l q(1)] by blast
  qed
qed simp_all

lemma drawing_ends:
  assumes g: "good_run env fight \<sigma>" and at: "at_round n q (\<sigma> i)" and q: "pr_phase q = Drawing"
  shows "comes_to \<sigma> n i (past Drawing)"
proof (rule late_pass_leads [OF g at, where I = "\<lambda>_. True"
      and t = "pr_closesAt q + \<lfloor>DRAW_TIMEOUT_SECONDS (rent_c (ke_config env))\<rfloor> + 1"])
  fix c q' assume at': "at_round n q' c" and l: "later q q'" and f: "frank c"
    and late: "pr_closesAt q + \<lfloor>DRAW_TIMEOUT_SECONDS (rent_c (ke_config env))\<rfloor> + 1 \<le> w_now (world c)"
  show "past Drawing q' c \<or> halted (after c) \<or> beyond n (after c) \<or> (\<exists>q''. at_round n q'' (after c) \<and> past Drawing q'' c)"
  proof (cases "pr_phase q' = Drawing")
    case True
    have "pr_closesAt q' = pr_closesAt q" using l by (simp add: later_def)
    then have "\<lfloor>DRAW_TIMEOUT_SECONDS (rent_c (ke_config env))\<rfloor> < w_now (world c) - pr_closesAt q'"
      using late by simp
    then have "DRAW_TIMEOUT_SECONDS (rent_c (ke_config env)) < of_int (w_now (world c) - pr_closesAt q')"
      by (rule floor_less_iff [THEN iffD1])
    then show ?thesis
      using pass_moves [OF at', of "\<lambda>_. False"] drawing_late_step [OF at' True _ f] by blast
  next
    case False
    then show ?thesis using later_phase [OF l q] by blast
  qed
qed simp_all

text \<open>A fight that a pass does not settle has fewer moments left.\<close>

definition moments_left :: "program_round \<Rightarrow> nat" where
  "moments_left q = nat (finalCursor (pr_count q) + 1 - pr_ticks q)"

definition fought_on :: "program_round \<Rightarrow> program_round \<Rightarrow> bool" where
  "fought_on q q' \<longleftrightarrow> rank Fight < rank (pr_phase q') \<or>
     pr_phase q' = Fight \<and> moments_left q' < moments_left q"

lemma fought_on_later: "fought_on q q1 \<Longrightarrow> later q1 q2 \<Longrightarrow> fought_on q q2"
  by (cases "pr_phase q2") (auto simp: fought_on_def later_def moments_left_def)

lemma fight_goes_on:
  assumes g: "good_run env fight \<sigma>" and at: "at_round n q (\<sigma> i)" and q: "pr_phase q = Fight"
  shows "comes_to \<sigma> n i (\<lambda>q' c. fought_on q q')"
proof (rule late_pass_leads [OF g at, where I = "\<lambda>_. True"
      and t = "pr_startedAt q + FIGHT_TIMEOUT_SECONDS + CLOCK_SKEW_MARGIN_SECONDS"])
  fix c q' assume at': "at_round n q' c" and l: "later q q'"
    and late: "pr_startedAt q + FIGHT_TIMEOUT_SECONDS + CLOCK_SKEW_MARGIN_SECONDS \<le> w_now (world c)"
  show "fought_on q q' \<or> halted (after c) \<or> beyond n (after c) \<or> (\<exists>q''. at_round n q'' (after c) \<and> fought_on q q'')"
  proof (cases "pr_phase q' = Fight")
    case True
    have same: "pr_startedAt q' = pr_startedAt q" "pr_count q' = pr_count q" "pr_ticks q \<le> pr_ticks q'"
      using l q True by (auto simp: later_def)
    have "\<exists>q1. at_round n q1 (snd (driveOneStep env (snap c) c1)) \<and> fought_on q q1" if m: "met c c1" for c1
    proof -
      obtain q1 where "at_round n q1 (snd (driveOneStep env (snap c) c1))" "pr_phase q1 = Settled \<or>
        pr_phase q1 = Fight \<and> pr_startedAt q1 = pr_startedAt q' \<and> pr_count q1 = pr_count q' \<and>
        pr_ticks q' < pr_ticks q1 \<and> pr_ticks q' < finalCursor (pr_count q')"
        using fight_late_step [OF at' True m] late same by auto
      then show ?thesis using same by (intro exI [of _ q1]) (auto simp: fought_on_def moments_left_def)
    qed
    then show ?thesis using pass_moves [OF at', of "fought_on q"] fought_on_later by blast
  next
    case False
    then show ?thesis using later_phase [OF l q] by (auto simp: fought_on_def)
  qed
qed simp_all

lemma fight_ends:
  assumes g: "good_run env fight \<sigma>" and "at_round n q (\<sigma> i)" and "pr_phase q = Fight"
  shows "comes_to \<sigma> n i (past Fight)"
  using assms(2,3)
proof (induction "moments_left q" arbitrary: i q rule: less_induct)
  case less
  show ?case
  proof (rule comes_to_trans [OF fight_goes_on [OF g less.prems]])
    fix j q' assume "at_round n q' (\<sigma> j)" "fought_on q q'"
    then show "comes_to \<sigma> n j (past Fight)"
      using less.hyps [of q' j] comes_to_now [of n q' \<sigma> j "past Fight"] by (auto simp: fought_on_def)
  qed
qed

text \<open>What is noted about the round stays noted.\<close>

lemma noted_stays:
  assumes g: "good_run env fight \<sigma>" and ij: "i \<le> j" and at: "at_round n q (\<sigma> i)" "at_round n q' (\<sigma> j)"
  shows "noted_settled n t (\<sigma> i) \<Longrightarrow> noted_settled n t (\<sigma> j)"
    and "pr_phase q = Abandoned \<Longrightarrow> noted_abandoned n t (\<sigma> i) \<Longrightarrow> noted_abandoned n t (\<sigma> j)"
proof -
  have "remembers (abandoned_on (chain_in (\<sigma> i)) n) n (timeline (\<sigma> i)) (timeline (\<sigma> j))"
    using run_steps [OF g ij, of n] at by (simp add: adv_def at_round_def)
  then show "noted_settled n t (\<sigma> i) \<Longrightarrow> noted_settled n t (\<sigma> j)"
    and "pr_phase q = Abandoned \<Longrightarrow> noted_abandoned n t (\<sigma> i) \<Longrightarrow> noted_abandoned n t (\<sigma> j)"
    using at by (auto simp: remembers_def noted_settled_def noted_abandoned_def abandoned_on_def at_round_def)
qed

lemma abandoned_ends:
  assumes g: "good_run env fight \<sigma>" and at: "at_round n q (\<sigma> i)" and q: "pr_phase q = Abandoned"
  shows "comes_to \<sigma> n i (past Abandoned)"
proof (rule comes_to_trans)
  show "comes_to \<sigma> n i (\<lambda>q' c. pr_phase q' = Abandoned \<and> (\<exists>t. noted_abandoned n t c))"
  proof (rule late_pass_leads [OF g at, where I = "\<lambda>_. True" and t = 0])
    fix c q' assume at': "at_round n q' c" and l: "later q q'"
    have gone: "pr_phase q' = Abandoned" if "later q q'" for q'
      using that q by (cases "pr_phase q'") (auto simp: later_def)
    have cur: "ac_counter (chain_in (after c)) = Some n" if "at_round n q'' (after c)" for q''
      using that by (simp add: at_round_def)
    show "pr_phase q' = Abandoned \<and> (\<exists>t. noted_abandoned n t c) \<or> halted (after c) \<or> beyond n (after c) \<or>
        (\<exists>q''. at_round n q'' (after c) \<and> pr_phase q'' = Abandoned \<and> (\<exists>t. noted_abandoned n t (after c)))"
      using adv_at [OF adv_after at'] abandoned_noted [OF at' gone [OF l] cur] gone later_trans [OF l] by blast
  qed simp_all
next
  fix j q' assume at': "at_round n q' (\<sigma> j)" and "pr_phase q' = Abandoned \<and> (\<exists>t. noted_abandoned n t (\<sigma> j))"
  then obtain t where t: "pr_phase q' = Abandoned" "noted_abandoned n t (\<sigma> j)" by blast
  show "comes_to \<sigma> n j (past Abandoned)"
  proof (rule late_pass_leads [OF g at', where I = "noted_abandoned n t"
        and t = "\<lceil>t + ABANDON_HOLD_SECONDS (lobby_c (ke_config env))\<rceil>"])
    fix j' q'' assume "j \<le> j'" "at_round n q'' (\<sigma> j')"
    then show "noted_abandoned n t (\<sigma> j')" using noted_stays(2) [OF g _ at' _ t(1)] t(2) by blast
  next
    fix c q'' assume at'': "at_round n q'' c" and l: "later q' q''" and f: "frank c" and seen: "noted_abandoned n t c"
      and late: "\<lceil>t + ABANDON_HOLD_SECONDS (lobby_c (ke_config env))\<rceil> \<le> w_now (world c)"
    have "pr_phase q'' = Abandoned" using l t(1) by (cases "pr_phase q''") (auto simp: later_def)
    moreover have "t + ABANDON_HOLD_SECONDS (lobby_c (ke_config env)) \<le> of_int (w_now (world c))"
      using late by (rule ceiling_le_iff [THEN iffD1])
    ultimately show "past Abandoned q'' c \<or> halted (after c) \<or> beyond n (after c) \<or>
        (\<exists>q3. at_round n q3 (after c) \<and> past Abandoned q3 (after c))"
      using pass_moves [OF at'', of "\<lambda>_. False"] abandoned_late_step [OF at'' _ _ f seen] by blast
  qed
qed

text \<open>A settled round comes home, is noted, and is held for the result to be seen.\<close>

lemma settled_comes_home:
  assumes g: "good_run env fight \<sigma>" and at: "at_round n q (\<sigma> i)" and q: "pr_phase q = Settled"
  shows "comes_to \<sigma> n i (\<lambda>q' c. past Settled q' c \<or> pr_phase q' = Settled \<and> \<not> pr_delegated q')"
proof (rule late_pass_leads [OF g at, where I = "\<lambda>_. True" and t = 0])
  let ?Q = "\<lambda>q'. rank Settled < rank (pr_phase q') \<or> pr_phase q' = Settled \<and> \<not> pr_delegated q'"
  fix c q' assume at': "at_round n q' c" and l: "later q q'"
  show "?Q q' \<or> halted (after c) \<or> beyond n (after c) \<or> (\<exists>q''. at_round n q'' (after c) \<and> ?Q q'')"
  proof (cases "pr_phase q' = Settled \<and> pr_delegated q'")
    case True
    have "?Q q1" if "later (q'\<lparr>pr_delegated := False\<rparr>) q1" for q1
      using that True by (cases "pr_phase q1") (auto simp: later_def ended_def)
    then show ?thesis
      using pass_moves [OF at', of "later (q'\<lparr>pr_delegated := False\<rparr>)"] settled_home_step [OF at'] True later_trans
      by blast
  next
    case False
    then show ?thesis using later_phase [OF l q] by blast
  qed
qed simp_all

lemma settled_held:
  assumes g: "good_run env fight \<sigma>" and at: "at_round n q (\<sigma> i)" and q: "pr_phase q = Settled" "\<not> pr_delegated q"
    and seen: "noted_settled n t (\<sigma> i)"
  shows "comes_to \<sigma> n i (past Settled)"
proof (rule late_pass_leads [OF g at, where I = "noted_settled n t"
      and t = "\<lceil>t + RESULT_HOLD_SECONDS (lobby_c (ke_config env))\<rceil>"])
  fix j q' assume "i \<le> j" "at_round n q' (\<sigma> j)"
  then show "noted_settled n t (\<sigma> j)" using noted_stays(1) [OF g _ at] seen by blast
next
  fix c q' assume at': "at_round n q' c" and l: "later q q'" and f: "frank c" and seen': "noted_settled n t c"
    and late: "\<lceil>t + RESULT_HOLD_SECONDS (lobby_c (ke_config env))\<rceil> \<le> w_now (world c)"
  show "past Settled q' c \<or> halted (after c) \<or> beyond n (after c) \<or> (\<exists>q''. at_round n q'' (after c) \<and> past Settled q'' c)"
  proof (cases "pr_phase q' = Settled")
    case True
    have home: "\<not> pr_delegated q'" using l q True by (auto simp: later_def ended_def)
    have "t + RESULT_HOLD_SECONDS (lobby_c (ke_config env)) \<le> of_int (w_now (world c))"
      using late by (rule ceiling_le_iff [THEN iffD1])
    then show ?thesis
      using pass_moves [OF at', of "\<lambda>_. False"] settled_late_step [OF at' True home _ f seen'] by blast
  next
    case False
    then show ?thesis using later_phase [OF l q(1)] by blast
  qed
qed

lemma settled_ends:
  assumes g: "good_run env fight \<sigma>" and at: "at_round n q (\<sigma> i)" and q: "pr_phase q = Settled"
  shows "comes_to \<sigma> n i (past Settled)"
proof (rule comes_to_trans [OF settled_comes_home [OF g at q]])
  fix j q' assume at': "at_round n q' (\<sigma> j)" and home: "past Settled q' (\<sigma> j) \<or> pr_phase q' = Settled \<and> \<not> pr_delegated q'"
  show "comes_to \<sigma> n j (past Settled)"
  proof (cases "pr_phase q' = Settled")
    case True
    let ?Q = "\<lambda>q1 c. past Settled q1 c \<or> pr_phase q1 = Settled \<and> \<not> pr_delegated q1 \<and> (\<exists>t. noted_settled n t c)"
    have "comes_to \<sigma> n j ?Q"
    proof (rule late_pass_leads [OF g at', where I = "\<lambda>_. True" and t = 0])
      fix c q1 assume at1: "at_round n q1 c" and l: "later q' q1"
      have stays: "rank Settled < rank (pr_phase q2) \<or> pr_phase q2 = Settled \<and> \<not> pr_delegated q2" if "later q' q2" for q2
        using that home True by (cases "pr_phase q2") (auto simp: later_def ended_def)
      have cur: "ac_counter (chain_in (after c)) = Some n" if "at_round n q2 (after c)" for q2
        using that by (simp add: at_round_def)
      show "?Q q1 c \<or> halted (after c) \<or> beyond n (after c) \<or> (\<exists>q2. at_round n q2 (after c) \<and> ?Q q2 (after c))"
        using adv_at [OF adv_after at1] stays [OF l] stays later_trans [OF l] settled_noted [OF at1 _ cur] by blast
    qed simp_all
    then show ?thesis
    proof (rule comes_to_trans)
      fix j' q2 assume "at_round n q2 (\<sigma> j')" "?Q q2 (\<sigma> j')"
      then show "comes_to \<sigma> n j' (past Settled)"
        using settled_held [OF g] comes_to_now [of n q2 \<sigma> j' "past Settled"] by blast
    qed
  next
    case False
    then show ?thesis using comes_to_now [of n q' \<sigma> j "past Settled"] at' home by blast
  qed
qed

lemma lobby_done:
  assumes g: "good_run env fight \<sigma>" and at: "at_round n q (\<sigma> i)" and q: "pr_phase q = Lobby"
  shows "comes_to \<sigma> n i (past Lobby)"
proof (rule comes_to_trans [OF lobby_is_delegated [OF g at q]])
  fix j q' assume at': "at_round n q' (\<sigma> j)" "past Lobby q' (\<sigma> j) \<or> pr_phase q' = Lobby \<and> pr_delegated q'"
  then show "comes_to \<sigma> n j (past Lobby)"
    using lobby_ends [OF g at'(1)] comes_to_now [of n q' \<sigma> j "past Lobby"] by blast
qed

text \<open>The current round does not stay current.\<close>

lemma round_ends:
  assumes g: "good_run env fight \<sigma>" and "at_round n q (\<sigma> i)"
  shows "comes_to \<sigma> n i (\<lambda>_ _. False)"
  using assms(2)
proof (induction "4 - rank (pr_phase q)" arbitrary: i q rule: less_induct)
  case less
  have "comes_to \<sigma> n i (past (pr_phase q))"
    by (cases "pr_phase q")
       (simp_all only: lobby_done [OF g less.prems] drawing_ends [OF g less.prems] fight_ends [OF g less.prems]
          settled_ends [OF g less.prems] abandoned_ends [OF g less.prems])
  then show ?case
  proof (rule comes_to_trans)
    fix j q' assume at': "at_round n q' (\<sigma> j)" and p: "past (pr_phase q) q' (\<sigma> j)"
    have "rank (pr_phase q') \<le> 4" by (cases "pr_phase q'") simp_all
    then show "comes_to \<sigma> n j (\<lambda>_ _. False)" using less.hyps [OF _ at'] p by simp
  qed
qed

definition gets_past :: "(nat \<Rightarrow> arena_world keeper_ctx) \<Rightarrow> int \<Rightarrow> nat \<Rightarrow> bool" where
  "gets_past \<sigma> k i \<longleftrightarrow> (\<exists>j\<ge>i. announced (\<sigma> j) \<or> beyond k (\<sigma> j))"

lemma gets_past_later: "i \<le> j \<Longrightarrow> gets_past \<sigma> k j \<Longrightarrow> gets_past \<sigma> k i"
  unfolding gets_past_def by (meson order_trans)

lemma arena_appears:
  assumes g: "good_run env fight \<sigma>"
  shows "\<exists>j\<ge>i. \<exists>k. ac_counter (chain_in (\<sigma> j)) = Some k \<and> 0 \<le> k"
proof -
  obtain j where j: "i \<le> j" "\<sigma> (Suc j) = after (\<sigma> j)" using late_pass [OF g] by blast
  have s: "chain_sound (chain_in (\<sigma> j))" using run_steps [OF g order_refl] by blast
  show ?thesis
  proof (cases "ac_counter (chain_in (\<sigma> j))")
    case None
    obtain c1 where m: "met (\<sigma> j) c1" and rest: "\<And>k. adv fight k (snd (driveOneStep env (snap (\<sigma> j)) c1)) (after (\<sigma> j))"
      using pass_split by blast
    from no_arena_step [OF s None m] obtain k where "ac_counter (chain_in (after (\<sigma> j))) = Some k" "0 \<le> k"
      using adv_counter [OF rest] by blast
    then show ?thesis using j le_Suc_eq by (intro exI [of _ "Suc j"]) auto
  next
    case (Some k)
    then show ?thesis using s j(1) by (auto simp: chain_sound_def)
  qed
qed

lemma moves_on:
  assumes g: "good_run env fight \<sigma>" and cur: "ac_counter (chain_in (\<sigma> i)) = Some k"
  shows "gets_past \<sigma> k i"
proof (cases "k = 0")
  case True
  obtain j where j: "i \<le> j" "\<sigma> (Suc j) = after (\<sigma> j)" using late_pass [OF g] by blast
  have r: "adv fight 0 (\<sigma> i) (\<sigma> j)" "chain_sound (chain_in (\<sigma> i))" "chain_sound (chain_in (\<sigma> j))" "frank (\<sigma> j)"
    using run_steps [OF g j(1)] run_steps [OF g order_refl, of j] by simp_all
  obtain k' where k': "ac_counter (chain_in (\<sigma> j)) = Some k'" "0 \<le> k'"
    using adv_counter [OF r(1,2)] cur True by blast
  show ?thesis
  proof (cases "k' = 0")
    case True
    obtain c1 where m: "met (\<sigma> j) c1" and rest: "\<And>k. adv fight k (snd (driveOneStep env (snap (\<sigma> j)) c1)) (after (\<sigma> j))"
      and quiet: "quiet (snd (driveOneStep env (snap (\<sigma> j)) c1)) (after (\<sigma> j))"
      using pass_split by blast
    have w: "world c1 = world (\<sigma> j)" using m by (simp add: met_def)
    have s: "chain_sound (chain_in (snd (driveOneStep env (snap (\<sigma> j)) c1)))"
      using adv_sound [of fight 0 c1] adv_drive [OF snap_truthful [OF w], of 0] r(3) w by (simp add: keeps_at_def)
    have "halted (after (\<sigma> j)) \<or> beyond 0 (after (\<sigma> j))"
      using first_round_step [OF r(3) _ m r(4)] k'(1) True quiet adv_beyond [OF rest s]
      by (auto simp: halted_def quiet_def)
    then have "announced (\<sigma> (Suc j)) \<or> beyond 0 (\<sigma> (Suc j))" using halted_announced [of "\<sigma> j"] j(2) by auto
    then show ?thesis using \<open>k = 0\<close> j(1) by (auto simp: gets_past_def intro!: exI [of _ "Suc j"])
  next
    case False
    then show ?thesis using k' j(1) \<open>k = 0\<close> by (auto simp: gets_past_def beyond_def)
  qed
next
  case False
  have s: "chain_sound (chain_in (\<sigma> i))" using run_steps [OF g order_refl] by blast
  then obtain q where "at_round k q (\<sigma> i)" using False cur by (auto simp: at_round_def chain_sound_def)
  from round_ends [OF g this] show ?thesis by (auto simp: comes_to_def gets_past_def)
qed

lemma never_stuck:
  assumes g: "good_run env fight \<sigma>"
  shows "gets_past \<sigma> (int k - 1) i"
proof (induction k arbitrary: i)
  case 0
  obtain j m where "i \<le> j" "ac_counter (chain_in (\<sigma> j)) = Some m" "0 \<le> m" using arena_appears [OF g] by blast
  then show ?case by (auto simp: gets_past_def beyond_def)
next
  case (Suc k)
  from Suc [of i] obtain j where j: "i \<le> j" "announced (\<sigma> j) \<or> beyond (int k - 1) (\<sigma> j)"
    by (auto simp: gets_past_def)
  show ?case
  proof (cases "announced (\<sigma> j)")
    case True
    then show ?thesis using j(1) by (auto simp: gets_past_def)
  next
    case False
    then obtain m where m: "ac_counter (chain_in (\<sigma> j)) = Some m" "int k - 1 < m" using j(2) by (auto simp: beyond_def)
    show ?thesis
    proof (cases "m = int k")
      case True
      then show ?thesis using gets_past_later [OF j(1) moves_on [OF g m(1)]] by simp
    next
      case False
      then show ?thesis using m j(1) by (auto simp: gets_past_def beyond_def)
    qed
  qed
qed

end

text \<open>A client behind which nothing works, and a run in which every other pass is behind it.\<close>

definition dead_client :: "arena_world client" where
  "dead_client =
     \<lparr>cl_nowSec = (\<lambda>w. of_int (w_now w)), cl_dateNow = (\<lambda>w. of_int (w_now w) * 1000),
      cl_fetchArena = (\<lambda>w. (Inl SendFailed, w)), cl_fetchRound = (\<lambda>n w. (Inl SendFailed, w)),
      cl_isDelegated = (\<lambda>n w. (Inl SendFailed, w)), cl_routerSaysDelegated = (\<lambda>n w. (Inl SendFailed, w)),
      cl_roundValidatorFqdn = (\<lambda>n w. (Inl SendFailed, w)), cl_waitForDelegation = (\<lambda>n w. (Inl SendFailed, w)),
      cl_waitForUndelegation = (\<lambda>n w. (Inl SendFailed, w)), cl_roundsExist = (\<lambda>ns w. (Inl SendFailed, w)),
      cl_fetchTreasury = (\<lambda>w. (Inl SendFailed, w)), cl_treasuryExists = (\<lambda>w. (Inl SendFailed, w)),
      cl_balance = (\<lambda>w. (Inl SendFailed, w)), cl_houseBalances = (\<lambda>ks w. (Inl SendFailed, w)),
      cl_rentFloor = (\<lambda>w. (Inl SendFailed, w)), cl_sendTx = (\<lambda>ix w. (Inl SendFailed, w)),
      cl_transfer = (\<lambda>xs w. (Inl SendFailed, w)), cl_sleep = (\<lambda>ms w. w)\<rparr>"

lemma dead_is_arena_client: "arena_client fight dead_client"
  by (simp add: arena_client_def dead_client_def mild_def sends_fairly_def)

interpretation cut_off: arena_link "env\<lparr>ke_client := dead_client\<rparr>" fight for env fight
  by unfold_locales (simp add: dead_is_arena_client)

primrec alternating :: "arena_world keeper_env \<Rightarrow> arena_world keeper_ctx \<Rightarrow> nat \<Rightarrow> arena_world keeper_ctx" where
  "alternating env c 0 = c"
| "alternating env c (Suc i) =
     (let a = alternating env c i in
      if i mod 3 = 0 then snd (keeper_pass env a)
      else if i mod 3 = 1 then snd (keeper_pass (env\<lparr>ke_client := dead_client\<rparr>) a)
      else a\<lparr>world := (world a)\<lparr>w_now := w_now (world a) + 1\<rparr>\<rparr>)"

context live_arena
begin

lemma alternating_good:
  assumes s: "chain_sound (chain_in c)" and f: "frank c"
  shows "good_run env fight (alternating env c)"
proof -
  let ?s = "alternating env c"
  have tick: "outside fight c (c\<lparr>world := (world c)\<lparr>w_now := w_now (world c) + 1\<rparr>\<rparr>)" for c
    by (simp add: outside_def moves_refl)
       (intro exI [of _ "(world c)\<lparr>w_now := w_now (world c) + 1\<rparr>"] exI [of _ "publisher c"], simp)
  have pass: "some_pass env fight a (snd (keeper_pass env a))"
    "some_pass env fight a (snd (keeper_pass (env\<lparr>ke_client := dead_client\<rparr>) a))" for a
    using client dead_is_arena_client by (auto simp: some_pass_def intro: exI [of _ "ke_client env"])
  have steps: "some_pass env fight (?s i) (?s (Suc i)) \<or> outside fight (?s i) (?s (Suc i))" for i
    using tick pass by (simp add: Let_def)
  have adv: "adv fight 0 (?s i) (?s (Suc i))" for i
    using steps [of i] some_pass_adv outside_adv by blast
  have sound: "chain_sound (chain_in (?s i))" for i
    by (induction i) (use s adv_sound [OF adv] in \<open>auto simp del: alternating.simps(2)\<close>)
  have clock: "w_now (world c) + int (i div 3) \<le> w_now (world (?s i))" for i
  proof (induction i)
    case (Suc i)
    have up: "w_now (world (?s i)) \<le> w_now (world (?s (Suc i)))" using adv [of i] sound [of i] by (simp add: adv_def)
    show ?case
    proof (cases "i mod 3 = 2")
      case True
      then have "Suc i div 3 = Suc (i div 3)" by (simp add: div_Suc mod_Suc)
      moreover have "w_now (world (?s (Suc i))) = w_now (world (?s i)) + 1" using True by (simp add: Let_def)
      ultimately show ?thesis using Suc by (simp del: alternating.simps(2))
    next
      case False
      moreover have "i mod 3 < 3" by simp
      ultimately have "Suc (i mod 3) < 3" by linarith
      then have "Suc i div 3 = i div 3" by (simp add: div_Suc mod_Suc)
      then show ?thesis using Suc up by (simp del: alternating.simps(2))
    qed
  qed simp
  have "\<exists>i. t \<le> w_now (world (?s i))" for t
    using clock [of "3 * nat (t - w_now (world c))"] by (intro exI) (auto elim: order_trans [rotated])
  moreover have "\<exists>j\<ge>i. ?s (Suc j) = snd (keeper_pass env (?s j))" for i
    by (intro exI [of _ "3 * i"]) (simp add: Let_def)
  ultimately show ?thesis using steps s f by (auto simp: good_run_def fair_run_def simp del: alternating.simps(2))
qed

end

text \<open>Every keeper that really sends and is not told to stop after so many rounds, on an arena that
  answers: any configuration, bank and features, and any clock within the skew margin of the chain's.\<close>

definition skewed :: "int \<Rightarrow> int" where
  "skewed lag = max (- CLOCK_SKEW_MARGIN_SECONDS) (min CLOCK_SKEW_MARGIN_SECONDS lag)"

definition live_env ::
  "keeper_config \<Rightarrow> cli_options \<Rightarrow> house_bank \<Rightarrow> program_features \<Rightarrow> (int \<Rightarrow> string) \<Rightarrow> fight \<Rightarrow> int \<Rightarrow> arena_world keeper_env" where
  "live_env cfg opts bank features pda fight lag =
     \<lparr>ke_config = cfg, ke_options = opts\<lparr>dryRun := False, cli_rounds := None\<rparr>, ke_bank = bank,
      ke_features = features, ke_pda = pda, ke_client = honest_client fight (skewed lag)\<rparr>"

interpretation answered: answering_arena "live_env cfg opts bank features pda fight lag" fight "skewed lag"
  for cfg opts bank features pda fight lag
  by unfold_locales (simp_all add: live_env_def honest_is_arena_client)

interpretation live: live_arena "live_env cfg opts bank features pda fight lag" fight "skewed lag"
  for cfg opts bank features pda fight lag
  by unfold_locales (auto simp: live_env_def skewed_def CLOCK_SKEW_MARGIN_SECONDS_def)

subsection \<open>The arena never stands still unannounced\<close>

text \<open>C2: The arena never stands still in silence. Take an infinite run of the keeper (really sending, no round
  limit, clock within the skew margin of the chain's, from a sound chain and a status that owns up to
  low funds): at each step a pass whose reads and sends may fail, be slow, be lost or land unreported
  (\<open>arena_client\<close>; only a read arena or round must be true), or anything outside it the program
  accepts, time, balances, heartbeats. Suppose, and it is the assumption, that infinitely many passes
  meet no failure (\<open>honest_client\<close>: reads answer, what the program accepts lands, delegation
  shows at once) and that the clock goes on; if every draw fails for ever, nothing is promised. Then
  from every moment of it the arena comes beyond any number of rounds, unless at some later moment the
  document the keeper serves says why it opens none.\<close>

theorem arena_never_stands_still:
  assumes "good_run (live_env cfg opts bank features pda fight lag) fight \<sigma>"
  shows "\<exists>j\<ge>i. (\<exists>s. published (publisher (\<sigma> j)) = serializeKeeperStatus s \<and> ks_notOpeningRounds s \<noteq> None) \<or>
    (\<exists>m. ac_counter (w_chain (world (\<sigma> j))) = Some m \<and> int k \<le> m)"
  using live.never_stuck [OF assms, of k i]
  by (auto simp: live.gets_past_def live.announced_def beyond_def)

definition first_world :: arena_world where
  "first_world = \<lparr>w_now = 1000, w_chain = \<lparr>ac_counter = None, ac_rounds = Map.empty, ac_treasury = None\<rparr>,
     w_lamports = 2000000000, w_house = (\<lambda>_. 1000000000)\<rparr>"

definition arena_env :: "arena_world keeper_env" where
  "arena_env = live_env default_config
     \<lparr>cli_rounds = None, dryRun = False, holdOpen = False, closeRounds = True, houseOnlyRounds = False\<rparr>
     demo_bank \<lparr>authorityEarlyClose = True, houseTakeSweep = True, roundAccountClose = True\<rparr> int_text
     (\<lambda>fs _ _ _. fs) 1"

definition arena_start :: "arena_world keeper_ctx" where
  "arena_start = boot_ctx (createStatusPublisher (rent_c default_config) ''P'' ''A'' 1000 False) (1, False, None)
     2000000000 first_world"

lemma demo_good: "good_run arena_env (\<lambda>fs _ _ _. fs) (alternating arena_env arena_start)"
  unfolding arena_env_def
  by (rule live.alternating_good)
     (simp_all add: arena_start_def boot_ctx_def first_world_def chain_sound_def frank_def)

theorem arena_never_stands_still_witness:
  "\<exists>j\<ge>(7::nat). (\<exists>s. published (publisher (alternating arena_env arena_start j)) = serializeKeeperStatus s \<and>
      ks_notOpeningRounds s \<noteq> None) \<or>
    (\<exists>m. ac_counter (w_chain (world (alternating arena_env arena_start j))) = Some m \<and> int 100 \<le> m)"
  by (rule arena_never_stands_still [OF demo_good [unfolded arena_env_def], folded arena_env_def])

end
