(* ===== verification/Keeper_Brake.thy ===== *)
theory Keeper_Brake
  imports Keeper_Run
begin

text \<open>
  Two of the keeper's rules, on the loop as it is written. The stop for burnt rent is asked anew on every
  pass, each time with one more sample of the same interval, so it is not a latch; and the closer's
  fallback sweep looks at the delegation of the current round and not of the round it sweeps.
\<close>

subsection \<open>The window after the same sample over and over\<close>

definition again :: "rat \<Rightarrow> int \<Rightarrow> jsnum list \<Rightarrow> jsnum list" where
  "again x cap s = recordBurnSample s (Fin x) cap"

lemma again_shape:
  assumes "0 < cap"
  shows "\<exists>pre. (again x cap ^^ k) s = pre @ replicate (min k (nat cap)) (Fin x)"
proof (induction k)
  case (Suc k)
  then obtain pre where pre: "(again x cap ^^ k) s = pre @ replicate (min k (nat cap)) (Fin x)" by blast
  have "(again x cap ^^ Suc k) s = slice_last cap (pre @ replicate (Suc (min k (nat cap))) (Fin x))"
    using assms by (simp add: again_def recordBurnSample_def pre replicate_append_same)
  also have "\<dots> = drop (length pre + Suc (min k (nat cap)) - nat cap) pre @
      replicate (min (Suc k) (nat cap)) (Fin x)"
    by (auto simp: slice_last_def drop_replicate min_def simp del: replicate_Suc)
  finally show ?case by blast
qed simp

lemma sum_same: "foldl js_add (Fin 0) (replicate k (Fin x)) = Fin (of_nat k * x)"
  by (rule js_foldl_Fin [THEN iffD2]) (rule exI [of _ "replicate k x"], simp add: sum_list_replicate)

lemma same_mean:
  assumes w: "0 < w" "w \<le> cap" "nat w \<le> k" and x: "x \<le> limit"
  shows "\<not> bv_tripped (burnBrake ((again x cap ^^ k) s) limit arm w)"
proof -
  obtain pre where "(again x cap ^^ k) s = pre @ replicate (min k (nat cap)) (Fin x)"
    using again_shape w by (meson less_le_trans)
  moreover have "nat w \<le> min k (nat cap)" using w by simp
  ultimately have win: "slice_last w ((again x cap ^^ k) s) = replicate (nat w) (Fin x)"
    by (auto simp: slice_last_def drop_replicate)
  show ?thesis using w(1) x unfolding burnBrake_def Let_def win by (simp add: sum_same)
qed

subsection \<open>Opening calls that are refused\<close>

text \<open>A keeper that could pay for the next round, last paid for one at \<open>before\<close> lamports and now has
  \<open>lam\<close>.\<close>

definition may_open :: "'w keeper_env \<Rightarrow> int \<Rightarrow> int \<Rightarrow> 'w keeper_ctx \<Rightarrow> bool" where
  "may_open env before lam c \<longleftrightarrow>
     lowBalanceSince c = None \<and> sweepStopSince c = None \<and> lastOpenLamports c = Some before \<and> \<not> closeCatchUpAhead c \<and>
     cl_balance (ke_client env) (world c) = (Inr lam, world c) \<and> MIN_BALANCE_LAMPORTS (loop_c (ke_config env)) \<le> lam"

definition burn_verdict_of :: "'w keeper_env \<Rightarrow> jsnum list \<Rightarrow> bool" where
  "burn_verdict_of env s =
     bv_tripped (burnBrake s (of_int (MAX_BURN_LAMPORTS_PER_ROUND (rent_c (ke_config env))))
       (BURN_ARM_AFTER_ROUNDS (rent_c (ke_config env))) (BURN_SAMPLE_ROUNDS (rent_c (ke_config env))))"

abbreviation (input) next_samples :: "'w keeper_env \<Rightarrow> int \<Rightarrow> int \<Rightarrow> jsnum list \<Rightarrow> jsnum list" where
  "next_samples env before lam \<equiv> again (of_int (before - lam)) (BURN_ARM_AFTER_ROUNDS (rent_c (ke_config env)))"

lemma refused_call:
  assumes w: "may_open env before lam c"
    and trip: "burn_verdict_of env (next_samples env before lam (burnSamples c))"
  shows "let c' = snd (openNextRound env n c) in
    may_open env before lam c' \<and> world c' = world c \<and> burnStopSince c' \<noteq> None \<and>
    ks_notOpeningRounds (pb_status (publisher c')) = Some RentNotReclaimed \<and>
    burnSamples c' = next_samples env before lam (burnSamples c)"
  using assms
  by (auto simp: may_open_def burn_verdict_of_def again_def openNextRound_def affordsAnotherRound_def
      sample_burn_def rentIsComingBack_def Let_def kbind_def kget_def kmod_def kret_def kwhen_def ask_def
      now_sec_def on_pub_def)

text \<open>While the stop for burnt rent holds, every further pass that would open a round still adds a sample,
  and always of the same interval, from the last opening to now: the stop is not the latch its comment describes.\<close>

theorem stopped_keeper_keeps_sampling:
  assumes "may_open env before lam c"
    and "burn_verdict_of env (recordBurnSample (burnSamples c) (Fin (of_int (before - lam)))
      (BURN_ARM_AFTER_ROUNDS (rent_c (ke_config env))))"
  shows "burnSamples (snd (openNextRound env n c)) =
      recordBurnSample (burnSamples c) (Fin (of_int (before - lam))) (BURN_ARM_AFTER_ROUNDS (rent_c (ke_config env))) \<and>
    lastOpenLamports (snd (openNextRound env n c)) = Some before \<and>
    world (snd (openNextRound env n c)) = world c \<and>
    ks_notOpeningRounds (pb_status (publisher (snd (openNextRound env n c)))) = Some RentNotReclaimed"
  using refused_call [of env before lam c n] assms by (simp add: Let_def again_def may_open_def)

subsection \<open>The stop lifts by itself\<close>

lemma refused_calls:
  assumes w: "may_open env before lam c"
    and trip: "\<forall>j<k. burn_verdict_of env ((next_samples env before lam ^^ Suc j) (burnSamples c))"
  shows "let c' = ((\<lambda>c. snd (openNextRound env n c)) ^^ k) c in
    may_open env before lam c' \<and> world c' = world c \<and> burnSamples c' = (next_samples env before lam ^^ k) (burnSamples c)"
  using trip
proof (induction k)
  case (Suc k)
  let ?c = "((\<lambda>c. snd (openNextRound env n c)) ^^ k) c"
  have c: "may_open env before lam ?c" "world ?c = world c"
    "burnSamples ?c = (next_samples env before lam ^^ k) (burnSamples c)"
    using Suc by (simp_all add: Let_def)
  have "burn_verdict_of env (next_samples env before lam (burnSamples ?c))" using Suc.prems c(3) by simp
  from refused_call [OF c(1) this, of n] show ?case using c by (simp add: Let_def)
qed (simp add: w)

lemma open_verdict:
  assumes w: "may_open env before lam c"
    and ok: "\<not> burn_verdict_of env (next_samples env before lam (burnSamples c))"
  shows "fst (rentIsComingBack env (snd (sample_burn env lam c))) = Inr True \<and>
    burnStopSince (snd (rentIsComingBack env (snd (sample_burn env lam c)))) = None"
  using assms
  by (auto simp: may_open_def burn_verdict_of_def again_def sample_burn_def rentIsComingBack_def Let_def
      kbind_def kget_def kmod_def kret_def kwhen_def on_pub_def)

text \<open>C36: The stop for burnt rent lifts itself. Suppose nothing else keeps openNextRound from asking: the payer's
  balance reads, does not change and is above the floor, no low-balance or sweep stop is on, the closer
  is not catching up, and an earlier opening left its balance; and the sampling window is positive and
  no longer than the arming count. If the balance is then within the ceiling of what it was at the last
  opening, fewer calls of openNextRound than the window has samples, each leaving the world as it was,
  bring it to where the next call's question is answered yes and the stop is cleared, whatever samples
  tripped it and with no restart. The steps are calls of openNextRound, not whole passes of the loop.\<close>

theorem burn_stop_lifts_itself:
  assumes w: "may_open env before lam c"
    and cfg: "0 < BURN_SAMPLE_ROUNDS (rent_c (ke_config env))"
      "BURN_SAMPLE_ROUNDS (rent_c (ke_config env)) \<le> BURN_ARM_AFTER_ROUNDS (rent_c (ke_config env))"
    and near: "before - lam \<le> MAX_BURN_LAMPORTS_PER_ROUND (rent_c (ke_config env))"
  shows "\<exists>k < nat (BURN_SAMPLE_ROUNDS (rent_c (ke_config env))).
    let c' = ((\<lambda>c. snd (openNextRound env n c)) ^^ k) c; asked = rentIsComingBack env (snd (sample_burn env lam c'))
    in world c' = world c \<and> fst asked = Inr True \<and> burnStopSince (snd asked) = None"
proof -
  let ?W = "nat (BURN_SAMPLE_ROUNDS (rent_c (ke_config env)))"
  let ?ok = "\<lambda>k. \<not> burn_verdict_of env ((next_samples env before lam ^^ Suc k) (burnSamples c))"
  have "(of_int (before - lam) :: rat) \<le> of_int (MAX_BURN_LAMPORTS_PER_ROUND (rent_c (ke_config env)))"
    using near by (simp only: of_int_le_iff)
  then have last: "?ok (?W - 1)"
    using same_mean [OF cfg, of "Suc (?W - 1)"] cfg(1) unfolding burn_verdict_of_def by simp
  define k where "k = (LEAST k. ?ok k)"
  have k: "?ok k" "k \<le> ?W - 1" "\<forall>j<k. \<not> ?ok j"
    unfolding k_def using LeastI [of ?ok, OF last] Least_le [of ?ok, OF last] not_less_Least [of _ ?ok] by blast+
  let ?c = "((\<lambda>c. snd (openNextRound env n c)) ^^ k) c"
  have c: "may_open env before lam ?c" "world ?c = world c"
    "burnSamples ?c = (next_samples env before lam ^^ k) (burnSamples c)"
    using refused_calls [OF w, of k n] k(3) by (simp_all add: Let_def)
  have "k < ?W" using k(2) cfg(1) by simp
  then show ?thesis using open_verdict [OF c(1)] k(1) c(2,3) by (intro exI [of _ k]) (simp add: Let_def)
qed

definition stopped_start :: "arena_world keeper_ctx" where
  "stopped_start = arena_start\<lparr>lastOpenLamports := Some 2000400000, burnSamples := replicate 45 (Fin 6000000),
     burnStopSince := Some 990\<rparr>"

lemma stopped_waits: "may_open arena_env 2000400000 2000000000 stopped_start"
  by (simp add: may_open_def stopped_start_def arena_start_def boot_ctx_def arena_env_def live_env_def
      honest_client_def first_world_def default_config_def)

theorem stopped_keeper_keeps_sampling_witness:
  "burnSamples (snd (openNextRound arena_env 9 stopped_start)) = replicate 44 (Fin 6000000) @ [Fin 400000]"
proof -
  have rec: "recordBurnSample (burnSamples stopped_start) (Fin (of_int (2000400000 - 2000000000)))
      (BURN_ARM_AFTER_ROUNDS (rent_c (ke_config arena_env))) = replicate 44 (Fin 6000000) @ [Fin 400000]"
    by (simp add: stopped_start_def recordBurnSample_def slice_last_def arena_env_def live_env_def default_config_def)
  have sum: "foldl js_add (Fin 0) (replicate 19 (Fin 6000000) @ [Fin 400000]) = Fin (114000000 + 400000)"
    by (simp only: foldl_append sum_same) simp
  have "burn_verdict_of arena_env (replicate 44 (Fin 6000000) @ [Fin 400000])"
    unfolding burn_verdict_of_def burnBrake_def Let_def
    by (simp add: arena_env_def live_env_def default_config_def slice_last_def sum del: foldl_append)
  then show ?thesis
    using stopped_keeper_keeps_sampling [OF stopped_waits, of 9] rec by simp
qed

theorem burn_stop_lifts_itself_witness:
  "\<exists>k < 20. let c' = ((\<lambda>c. snd (openNextRound arena_env 9 c)) ^^ k) stopped_start;
      asked = rentIsComingBack arena_env (snd (sample_burn arena_env 2000000000 c'))
    in world c' = world stopped_start \<and> fst asked = Inr True \<and> burnStopSince (snd asked) = None"
proof -
  have cfg: "rent_c (ke_config arena_env) = rent_c default_config" by (simp add: arena_env_def live_env_def)
  show ?thesis
    using burn_stop_lifts_itself [OF stopped_waits, of 9]
    by (simp add: cfg default_config_def Let_def)
qed

subsection \<open>The closer's sweep\<close>

text \<open>While the current round is delegated, which is all of its lobby, the closer's sweep of an older round
  does nothing, and the cursor stays.\<close>

lemma closer_cannot_sweep:
  assumes "cs_roundDelegated st \<noteq> Some False"
    and "cl_fetchRound (ke_client env) k (world c) = (Inr (Some r), world c)"
    and "cl_isDelegated (ke_client env) k (world c) = (Inr False, world c)"
    and "decideClose (candidate_of (Some r) False) = SweepFirst"
  shows "let c' = snd (close_at_cursor env st k c) in
    world c' = world c \<and> closeCursor c' = closeCursor c \<and> timeline c' = timeline c"
  using assms
  by (simp add: close_at_cursor_def sweepHouseTake_def Let_def kbind_def ask_def kwhen_def kmod_def kret_def)

end
