(* ===== verification/Spec2Isabelle.thy ===== *)
theory Spec2Isabelle
  imports Er_Port Extract_Terms Lobby_Policy House_Bank Round_Closer Reclamation Loop_Watchdog Auto_Deploy
    Link_Ceremony Engine_Round Engine_Ledger Engine_Gate Engine_Auth Engine_Leaks Keeper_Brake
begin

text \<open>
  Bulls vs Unicorns: two sides stake coins on an arena, fighters collide and take value from each
  other until the bell, and everything is paid out. The repository holds two implementations of that
  game and what keeps them running. This development models their decision code, one theory per
  component, and proves what makes each correct.

  \<^bold>\<open>The parts.\<close>

  \<^item> The engine (\<^verbatim>\<open>src/engine/src\<close>) is the custodial version: a server process
    that keeps a ledger of accounts, opens lobbies, takes entries over sockets, simulates battles from a committed
    seed, pays out, and moves coins in and out of one vault on the chain.
  \<^item> The arena on the chain (a Rust program, of which the life of a round is modelled) has a pure round algorithm with two
    copies in TypeScript: \<^verbatim>\<open>src/engine/src/er-sim.ts\<close> and the browser's
    \<^verbatim>\<open>src/er-demo/src/sim/erSim.ts\<close>.
  \<^item> The keeper (\<^verbatim>\<open>src/er-demo/scripts/keeper\<close>) opens, draws, cranks and
    closes the rounds of that arena and enters house fighters so that a visitor finds a fight.
  \<^item> The browser (\<^verbatim>\<open>src/er-demo/src/v2\<close>) shows the arena, quotes what leaving costs and can
    deposit again round after round with nobody watching.
  \<^item> The link service (\<^verbatim>\<open>src/er-demo/api/src\<close>) ties a wallet to an X account.

  \<^bold>\<open>Theories and sources.\<close>

  \<^item> \<open>Prelude\<close>: results of code that throws, loops over operations, lists updated by index, and
    the generic lemmas the components share. \<open>Js_Number\<close>: numbers as JavaScript has them where the
    special values matter (\<open>jsnum\<close>), rounding, decimal texts, string prefixes.
  \<^item> \<open>Er_Sim\<close> is \<^verbatim>\<open>er-sim.ts\<close>: lineup, slow tick, exchange, bell, extraction, with big
    integers. Lemmas: each operation keeps the round well formed and the total of all funds; a tick only
    changes what the two fighters of a pair hold; balances of a fighter that has left are final.
    \<open>Er_Port\<close> is the browser's copy with its hit events: it computes the same states, and
    replaying the events rebuilds them. \<open>Chain_Clock\<close> is the pacing of
    \<^verbatim>\<open>chain/constants.ts\<close>: how many calls run a fight, when leaving is free.
    \<open>Extract_Terms\<close> is \<^verbatim>\<open>extractTerms.ts\<close>: the quote shown equals what the
    algorithm pays.
  \<^item> \<open>Contract\<close> holds the vocabulary of \<^verbatim>\<open>v2/contract.ts\<close>.
  \<^item> \<open>Keeper_Config\<close> loads the keeper's environment and states the facts the policies below rely
    on. \<open>Lobby_Policy\<close> decides each lobby (hold, close, draw, abandon): nothing planned is refused
    by the program, and every lobby ends. \<open>House_Sizing\<close> and \<open>House_Bank\<close> decide how many
    fighters the house enters, when, on which side, for how much and from which wallet: a room with one real
    player gets an opponent, and the plan fits the free seats. \<open>Round_Closer\<close>,
    \<open>Reclamation\<close> and \<open>Loop_Watchdog\<close> reclaim rent, stop a burn and stop a silent loop.
  \<^item> \<open>Auto_Policy\<close> and \<open>Auto_Deploy\<close> are the limits of an unattended run and the rule that
    fires deposits: a run armed with nothing in flight spends within its budget, one deposit per round, and any run sends
    at most three times per round. Deposits that land after the page stopped waiting escape the budget.
  \<^item> \<open>Link_Store\<close> and \<open>Link_Ceremony\<close> are the link service: a challenge is used once, a
    link is proven by both identities, and the store refines a one-to-one relation with tombstones.
  \<^item> \<open>Engine_Rng\<close>, \<open>Engine_Sim\<close> and \<open>Engine_Round\<close> are
    \<^verbatim>\<open>game.ts\<close> and \<^verbatim>\<open>round.ts\<close>: the seeded generator on 32-bit words, the battle, and
    the lobby that commits to a secret, derives the seed from it and the entries, and settles. Every
    stake is paid back to somebody, a fighter loses at most the part of its stake the other side matched,
    rounds verify after the fact.
  \<^item> \<open>Engine_Ledger\<close> is \<^verbatim>\<open>ledger.ts\<close>, \<^verbatim>\<open>bot-bank.ts\<close> and
    \<^verbatim>\<open>recover-float.ts\<close>: accounts, the house's pool of wallets, corrections of the book.
    \<open>Engine_Vault\<close> is the desk: deposits, withdrawals and the solvency freeze, where every
    \<open>await\<close> splits an operation in two steps so that others may come between.
    \<open>Engine_Bots\<close> is the population of house fighters in \<^verbatim>\<open>server.ts\<close>.
    \<open>Engine_Gate\<close> is the limits of \<^verbatim>\<open>limits.ts\<close> and the HTTP limiter, and
    \<open>Engine_Auth\<close> the proof of wallet ownership in \<^verbatim>\<open>auth.ts\<close>.
  \<^item> \<open>Engine_Table\<close> and \<open>Engine_Pass\<close> are the arenas of \<^verbatim>\<open>server.ts\<close>: prices
    frozen per round in a bounded map, the flow of a round's coins, a player's entry with its fee and referral, the
    house's answer, the house's own entries, \<open>onSettle\<close>, the pass of the 250 ms loop, the refund on shutdown
    and the rebalancing. \<open>Engine_Escrow\<close> says what coins an open round holds and when a table is well formed,
    and gives each step of an operation its effect; \<open>Engine_Conserve\<close>, \<open>Engine_Entry\<close> and
    \<open>Engine_Payout\<close> compose them: every coin's total over accounts and open rounds is the same after every
    operation, for every run. \<open>Engine_Leaks\<close> has the two operations that do not conserve coins.
  \<^item> \<open>Keeper_Status\<close> is the status the keeper publishes (\<^verbatim>\<open>statusFile.ts\<close>) and the
    page reads (\<^verbatim>\<open>keeperStatus.ts\<close>): what is published is accepted as it was meant, and a countdown once shown for
    a round does not move. \<open>Keeper_Drive\<close> is the loop of \<^verbatim>\<open>keeper.ts\<close>, one definition per function, as computations
    that may fail over the keeper's context and a client that is a parameter. \<open>Arena_Program\<close> is the life of a round in
    \<^verbatim>\<open>programs/bulls-arena/src/lib.rs\<close>, without its money. \<open>Keeper_World\<close> puts the two together over a client that may
    fail in any call, lose transactions or leave them unreported (\<open>arena_client\<close>, locale \<open>arena_link\<close>), and shows what the
    keeper's computations can do to the arena behind it; \<open>honest_client\<close> (locale \<open>answering_arena\<close>) is the one
    that meets no failure. \<open>Keeper_Live\<close> and \<open>Keeper_Run\<close> show that every phase is left behind by a late enough pass
    that meets no failure, and so that on every run with infinitely many such passes, and any failing ones between them,
    the round counter passes every number or the served status says why no round is opened
    (\<open>arena_never_stands_still\<close>). \<open>Keeper_Brake\<close> shows where the stop for burnt
    rent is not the latch it is documented to be.
  \<^bold>\<open>How they interact.\<close> Engine: a socket passes \<open>Engine_Gate\<close>, its guarded messages
  pass \<open>Engine_Auth\<close>, and then change the ledger through \<open>Engine_Vault\<close> or enter a runner
  of \<open>Engine_Round\<close>, whose settlement pays the accounts of \<open>Engine_Ledger\<close>. Keeper:
  \<open>Keeper_Config\<close> fixes the constants, \<open>Lobby_Policy\<close> and \<open>House_Bank\<close> plan one
  pass over a lobby from a snapshot, \<open>Keeper_Drive\<close> acts on the plan. Browser: \<open>Er_Port\<close> replays what the arena does,
  \<open>Auto_Deploy\<close> decides over the snapshots and the wallet's session of \<open>Auto_Policy\<close>.

  \<^bold>\<open>State and operations.\<close> A class or a module with variables is a record and its
  functions take and return it; several operations in any order are the runs of a step function
  (\<open>run_ops\<close> of \<open>Prelude\<close> and the like) or an inductive step relation, and an invariant is proved for every
  run. Errors are \<open>Inl\<close> or \<open>None\<close>. Interfaces are locales: the three stores of the link service, the
  runs that preserve a property, operations on the house's money; each is interpreted on the model.

  \<^bold>\<open>Numbers.\<close> BigInt and lamports are \<open>int\<close>, 32-bit arithmetic is \<open>32 word\<close>. A
  \<open>number\<close> that holds money, time or a position is an exact rational: IEEE rounding is not modelled, and a
  proof about equal sums holds up to that. Where \<open>NaN\<close> or an infinity changes the outcome the value is
  a \<open>jsnum\<close>. Square roots and hypotenuses of the battle are arguments.

  \<^bold>\<open>Loops.\<close> The loops of the sources are structural recursions or folds over the list they
  walk; the battle runs at most \<open>maxTicks\<close> ticks and that it ends earlier or then is a theorem, as is that a
  fight of the arena ends by its final cursor. No fuel stands in for a loop of unknown length. The keeper's loop runs for ever: it is a step function and a
  claim about it is about all infinite runs (\<open>good_run\<close>).

  \<^bold>\<open>Parameters.\<close> SHA-256, HMAC, ed25519, base64 and the signature check of Privy; the clock;
  random bytes and random numbers; the answers of nodes and of the price feed; the environment. Where a
  theorem needs a law of one of them it is a hypothesis with a witness.

  \<^bold>\<open>Not modelled.\<close> Screens and drawing (the \<open>tsx\<close> views, the canvas), the Anchor client,
  IDL and transaction building, sockets, HTTP and files themselves, PostgreSQL stores (the in-memory stores have the
  same contract), the keeper's process around its loop (boot, signals, HTTP, logging), research scripts under
  \<^verbatim>\<open>src/sandbox\<close>, tests, and of the Rust program the money, session keys and the vault. PROJECT.json lists each with its reason.
\<close>

end
